(* ===== verification/Prelude.thy ===== *)
theory Prelude
  imports Main "HOL-Library.Word"
begin

text \<open>
  Shared vocabulary of the development: machine types, the faults a C or C++ operation can
  run into, a bind for results that may be faults, the library's fact collections, the
  interface of keyed containers and the generic lemmas on lists and words.
\<close>

unbundle bit_operations_syntax

section \<open>Machine types\<close>

type_synonym u8 = "8 word"
type_synonym u32 = "32 word"
type_synonym u64 = "64 word"
type_synonym bytes = "8 word list"

text \<open>A C \<open>double\<close> is kept as its IEEE-754 bit pattern.\<close>

type_synonym double = "64 word"

text \<open>The bytes of a string literal.\<close>

definition ascii :: "string \<Rightarrow> bytes" where
  "ascii str = map of_char str"

text \<open>What \<open>printf\<close> writes for \<open>%d\<close>.\<close>

fun digits :: "nat \<Rightarrow> bytes" where
  "digits n = (if n < 10 then [of_nat (48 + n)] else digits (n div 10) @ [of_nat (48 + n mod 10)])"

declare digits.simps [simp del]

definition format_d :: "int \<Rightarrow> bytes" where
  "format_d i = (if i < 0 then 45 # digits (nat (- i)) else digits (nat i))"

text \<open>Heap addresses of the models with an explicit store.\<close>

type_synonym addr = nat

section \<open>Faults and results\<close>

text \<open>
  What an operation does when it does not return: a failed \<open>assert\<close>, the use of memory
  that is not (or no longer) allocated, the read of a union member that was not the one
  written, a call that would not return, a bounded model run out of fuel, a signed overflow, or an error raised in the
  interpreter.
\<close>

datatype fault =
    AssertFailed
  | InvalidPointer
  | UnionMismatch
  | Uninitialised
  | Spins
  | OutOfFuel
  | SignedOverflow
  | LuaError string

type_synonym 'a result = "fault + 'a"

definition rbind :: "'a result \<Rightarrow> ('a \<Rightarrow> 'b result) \<Rightarrow> 'b result" where
  "rbind r f = (case r of Inl e \<Rightarrow> Inl e | Inr x \<Rightarrow> f x)"

definition deref :: "('k \<rightharpoonup> 'v) \<Rightarrow> 'k \<Rightarrow> 'v result" where
  "deref h a = (case h a of None \<Rightarrow> Inl InvalidPointer | Some x \<Rightarrow> Inr x)"

definition guard_assert :: "bool \<Rightarrow> 'a result \<Rightarrow> 'a result" where
  "guard_assert b r = (if b then r else Inl AssertFailed)"

lemma rbind_simps [simp]:
  "rbind (Inl e) f = Inl e"
  "rbind (Inr x) f = f x"
  by (simp_all add: rbind_def)

lemma rbind_cong [fundef_cong]:
  "r = r' \<Longrightarrow> (\<And>x. r' = Inr x \<Longrightarrow> f x = g x) \<Longrightarrow> rbind r f = rbind r' g"
  by (cases r') auto

lemma rbind_assoc: "rbind (rbind r f) g = rbind r (\<lambda>x. rbind (f x) g)"
  by (cases r) simp_all

lemma rbind_eq_Inr: "rbind r f = Inr y \<longleftrightarrow> (\<exists>x. r = Inr x \<and> f x = Inr y)"
  by (cases r) auto

lemma deref_eq_Inr [simp]: "deref h a = Inr x \<longleftrightarrow> h a = Some x"
  by (auto simp: deref_def split: option.splits)

lemma deref_Some: "h a = Some x \<Longrightarrow> deref h a = Inr x"
  by simp

lemma deref_upd_same [simp]: "deref (h(a \<mapsto> x)) a = Inr x"
  by simp

lemma guard_assert_simps [simp]:
  "guard_assert True r = r"
  "guard_assert False r = Inl AssertFailed"
  by (simp_all add: guard_assert_def)

lemma guard_assert_eq_Inr: "guard_assert b r = Inr y \<longleftrightarrow> b \<and> r = Inr y"
  by (cases b) auto

section \<open>Words\<close>

lemma unat_of_nat_small: "n < 2 ^ LENGTH('a) \<Longrightarrow> unat (of_nat n :: 'a::len word) = n"
  by (simp add: unat_of_nat take_bit_nat_eq_self)

lemma sint_of_nat_small:
  "n < 2 ^ (LENGTH('a) - 1) \<Longrightarrow> sint (of_nat n :: 'a::len word) = int n"
proof -
  assume n: "n < 2 ^ (LENGTH('a) - 1)"
  then have "int n < 2 ^ (LENGTH('a) - 1)"
    by (metis of_nat_less_iff of_nat_numeral of_nat_power)
  then have "signed_take_bit (LENGTH('a) - 1) (int n) = int n"
    by (intro signed_take_bit_int_eq_self)
      (auto intro: order_trans [of _ 0])
  then show ?thesis by (simp add: signed_of_nat)
qed

lemma unat_ucast_small:
  fixes x :: "'a::len word"
  assumes "unat x < 2 ^ LENGTH('b)"
  shows "unat (ucast x :: 'b::len word) = unat x"
  using assms by (simp add: unsigned_ucast_eq unsigned_take_bit_eq take_bit_nat_eq_self)

section \<open>Lists\<close>

lemma distinct_concat_tagged:
  assumes "\<And>i. i < length xss \<Longrightarrow> distinct (xss ! i)"
    and "\<And>i x. i < length xss \<Longrightarrow> x \<in> set (xss ! i) \<Longrightarrow> tag x = i + (c :: nat)"
  shows "distinct (concat xss)"
  using assms
proof (induction xss arbitrary: c)
  case Nil
  then show ?case by simp
next
  case (Cons xs xss)
  have "distinct (concat xss)"
  proof (rule Cons.IH [of "Suc c"])
    show "distinct (xss ! i)" if "i < length xss" for i
      using Cons.prems(1) [of "Suc i"] that by simp
    show "tag x = i + Suc c" if "i < length xss" "x \<in> set (xss ! i)" for i x
      using Cons.prems(2) [of "Suc i" x] that by simp
  qed
  moreover have "distinct xs" using Cons.prems(1) [of 0] by simp
  moreover have "x \<notin> set ys" if x: "x \<in> set xs" and ys: "ys \<in> set xss" for x ys
  proof
    assume "x \<in> set ys"
    obtain i where "i < length xss" "ys = xss ! i" using ys by (auto simp: in_set_conv_nth)
    then have "tag x = Suc i + c" using \<open>x \<in> set ys\<close> Cons.prems(2) [of "Suc i" x] by simp
    moreover have "tag x = c" using Cons.prems(2) [of 0 x] x by simp
    ultimately show False by simp
  qed
  ultimately show ?case by auto
qed

section \<open>Interface of a keyed container\<close>

text \<open>
  What a client of a keyed container relies on: a lookup, an update, an invariant and the
  keys the container can hold. \<open>merge\<close> says what an update leaves of the entry that was
  there. The lighttable map and the Lua table both provide it.
\<close>

locale keyed_container =
  fixes lookup :: "'m \<Rightarrow> 'k \<Rightarrow> 'v option"
    and update :: "'m \<Rightarrow> 'k \<Rightarrow> 'v \<Rightarrow> 'm"
    and merge :: "'v option \<Rightarrow> 'v \<Rightarrow> 'v"
    and invar :: "'m \<Rightarrow> bool"
    and okkey :: "'k \<Rightarrow> bool"
  assumes lookup_update:
      "invar m \<Longrightarrow> okkey k \<Longrightarrow> okkey k' \<Longrightarrow>
        lookup (update m k v) k' = (if k' = k then Some (merge (lookup m k) v) else lookup m k')"
    and invar_update: "invar m \<Longrightarrow> okkey k \<Longrightarrow> invar (update m k v)"
begin

definition updates :: "('k \<times> 'v) list \<Rightarrow> 'm \<Rightarrow> 'm" where
  "updates kvs m = fold (\<lambda>(k, v) m. update m k v) kvs m"

lemma updates_simps [simp]:
  "updates [] m = m"
  "updates ((k, v) # kvs) m = updates kvs (update m k v)"
  by (simp_all add: updates_def)

lemma invar_updates:
  "invar m \<Longrightarrow> list_all okkey (map fst kvs) \<Longrightarrow> invar (updates kvs m)"
  by (induction kvs arbitrary: m) (auto simp: invar_update)

lemma lookup_updates:
  "invar m \<Longrightarrow> list_all okkey (map fst kvs) \<Longrightarrow> distinct (map fst kvs) \<Longrightarrow> okkey k' \<Longrightarrow>
    lookup (updates kvs m) k' =
      (case map_of kvs k' of Some v \<Rightarrow> Some (merge (lookup m k') v) | None \<Rightarrow> lookup m k')"
proof (induction kvs arbitrary: m)
  case Nil
  then show ?case by simp
next
  case (Cons kv kvs)
  obtain k v where kv: "kv = (k, v)" by (cases kv)
  with Cons have "map_of kvs k = None" by (simp add: map_of_eq_None_iff)
  with Cons kv show ?case
    by (auto simp: invar_update lookup_update split: option.splits)
qed

text \<open>Updates of two different keys commute, as far as lookups can tell.\<close>

lemma lookup_update_commute:
  "invar m \<Longrightarrow> okkey k1 \<Longrightarrow> okkey k2 \<Longrightarrow> okkey k' \<Longrightarrow> k1 \<noteq> k2 \<Longrightarrow>
    lookup (update (update m k1 v1) k2 v2) k' = lookup (update (update m k2 v2) k1 v1) k'"
  by (simp add: lookup_update invar_update)

end

section \<open>Interface of a step relation with an invariant\<close>

text \<open>
  A machine is its initial states and its steps; an invariant that holds initially and is
  kept by every step holds after every run.
\<close>

locale machine =
  fixes init :: "'s \<Rightarrow> bool"
    and step :: "'s \<Rightarrow> 's \<Rightarrow> bool"
    and inv :: "'s \<Rightarrow> bool"
  assumes inv_init: "init s \<Longrightarrow> inv s"
    and inv_step: "step s t \<Longrightarrow> inv s \<Longrightarrow> inv t"
begin

lemma inv_run: "step\<^sup>*\<^sup>* s t \<Longrightarrow> inv s \<Longrightarrow> inv t"
  by (induction rule: rtranclp_induct) (auto intro: inv_step)

lemma inv_reachable: "init s \<Longrightarrow> step\<^sup>*\<^sup>* s t \<Longrightarrow> inv t"
  using inv_init inv_run by blast

end

end
