(* ===== verification/LuaOpcodes.thy ===== *)
theory LuaOpcodes
  imports Prelude
begin

text \<open>
  lopcodes.h and lopcodes.c of Lua: instructions as 32-bit words, the macros that read and
  write their fields, the opcodes and the table of their modes.
\<close>

section \<open>Fields\<close>

type_synonym Instruction = u32

abbreviation (input) SIZE_C :: nat where "SIZE_C \<equiv> 9"
abbreviation (input) SIZE_B :: nat where "SIZE_B \<equiv> 9"
abbreviation (input) SIZE_Bx :: nat where "SIZE_Bx \<equiv> 18"
abbreviation (input) SIZE_A :: nat where "SIZE_A \<equiv> 8"
abbreviation (input) SIZE_OP :: nat where "SIZE_OP \<equiv> 6"
abbreviation (input) POS_OP :: nat where "POS_OP \<equiv> 0"
abbreviation (input) POS_A :: nat where "POS_A \<equiv> 6"
abbreviation (input) POS_C :: nat where "POS_C \<equiv> 14"
abbreviation (input) POS_B :: nat where "POS_B \<equiv> 23"
abbreviation (input) POS_Bx :: nat where "POS_Bx \<equiv> 14"

definition MAXARG_Bx :: u32 where "MAXARG_Bx = 262143"
definition MAXARG_sBx :: u32 where "MAXARG_sBx = 131071"
definition MAXARG_A :: u32 where "MAXARG_A = 255"
definition MAXARG_B :: u32 where "MAXARG_B = 511"
definition MAXARG_C :: u32 where "MAXARG_C = 511"

definition MASK1 :: "nat \<Rightarrow> nat \<Rightarrow> Instruction" where
  "MASK1 n p = push_bit p (NOT (push_bit n (NOT 0)))"

definition MASK0 :: "nat \<Rightarrow> nat \<Rightarrow> Instruction" where
  "MASK0 n p = NOT (MASK1 n p)"

text \<open>The shape all the \<open>GET\<close> and \<open>SET\<close> macros share.\<close>

definition get_field :: "nat \<Rightarrow> nat \<Rightarrow> Instruction \<Rightarrow> u32" where
  "get_field n p i = drop_bit p i AND MASK1 n 0"

definition set_field :: "nat \<Rightarrow> nat \<Rightarrow> Instruction \<Rightarrow> u32 \<Rightarrow> Instruction" where
  "set_field n p i u = (i AND MASK0 n p) OR (push_bit p u AND MASK1 n p)"

definition GET_OPCODE :: "Instruction \<Rightarrow> u32" where "GET_OPCODE = get_field SIZE_OP POS_OP"
definition SET_OPCODE :: "Instruction \<Rightarrow> u32 \<Rightarrow> Instruction" where "SET_OPCODE = set_field SIZE_OP POS_OP"
definition GETARG_A :: "Instruction \<Rightarrow> u32" where "GETARG_A = get_field SIZE_A POS_A"
definition SETARG_A :: "Instruction \<Rightarrow> u32 \<Rightarrow> Instruction" where "SETARG_A = set_field SIZE_A POS_A"
definition GETARG_B :: "Instruction \<Rightarrow> u32" where "GETARG_B = get_field SIZE_B POS_B"
definition SETARG_B :: "Instruction \<Rightarrow> u32 \<Rightarrow> Instruction" where "SETARG_B = set_field SIZE_B POS_B"
definition GETARG_C :: "Instruction \<Rightarrow> u32" where "GETARG_C = get_field SIZE_C POS_C"
definition SETARG_C :: "Instruction \<Rightarrow> u32 \<Rightarrow> Instruction" where "SETARG_C = set_field SIZE_C POS_C"
definition GETARG_Bx :: "Instruction \<Rightarrow> u32" where "GETARG_Bx = get_field SIZE_Bx POS_Bx"
definition SETARG_Bx :: "Instruction \<Rightarrow> u32 \<Rightarrow> Instruction" where "SETARG_Bx = set_field SIZE_Bx POS_Bx"

definition GETARG_sBx :: "Instruction \<Rightarrow> u32" where
  "GETARG_sBx i = GETARG_Bx i - MAXARG_sBx"

definition SETARG_sBx :: "Instruction \<Rightarrow> u32 \<Rightarrow> Instruction" where
  "SETARG_sBx i b = SETARG_Bx i (b + MAXARG_sBx)"

definition CREATE_ABC :: "u32 \<Rightarrow> u32 \<Rightarrow> u32 \<Rightarrow> u32 \<Rightarrow> Instruction" where
  "CREATE_ABC o' a b c = push_bit POS_OP o' OR push_bit POS_A a OR push_bit POS_B b OR push_bit POS_C c"

definition CREATE_ABx :: "u32 \<Rightarrow> u32 \<Rightarrow> u32 \<Rightarrow> Instruction" where
  "CREATE_ABx o' a bc = push_bit POS_OP o' OR push_bit POS_A a OR push_bit POS_Bx bc"

section \<open>Registers and constants in one argument\<close>

definition BITRK :: u32 where "BITRK = 256"
definition ISK :: "u32 \<Rightarrow> bool" where "ISK x \<longleftrightarrow> x AND BITRK \<noteq> 0"
definition INDEXK :: "u32 \<Rightarrow> u32" where "INDEXK r = r AND NOT BITRK"
definition MAXINDEXRK :: u32 where "MAXINDEXRK = BITRK - 1"
definition RKASK :: "u32 \<Rightarrow> u32" where "RKASK x = x OR BITRK"
definition NO_REG :: u32 where "NO_REG = MAXARG_A"

section \<open>Opcodes and their modes\<close>

datatype OpCode =
    OP_MOVE | OP_LOADK | OP_LOADBOOL | OP_LOADNIL | OP_GETUPVAL
  | OP_GETGLOBAL | OP_GETTABLE
  | OP_SETGLOBAL | OP_SETUPVAL | OP_SETTABLE
  | OP_NEWTABLE
  | OP_SELF
  | OP_ADD | OP_SUB | OP_MUL | OP_DIV | OP_MOD | OP_POW | OP_UNM | OP_NOT | OP_LEN
  | OP_CONCAT
  | OP_JMP
  | OP_EQ | OP_LT | OP_LE
  | OP_TEST | OP_TESTSET
  | OP_CALL | OP_TAILCALL | OP_RETURN
  | OP_FORLOOP | OP_FORPREP
  | OP_TFORLOOP | OP_SETLIST
  | OP_CLOSE | OP_CLOSURE
  | OP_VARARG

text \<open>The enumeration in its order: an opcode is its position.\<close>

definition opcodes :: "OpCode list" where
  "opcodes =
    [OP_MOVE, OP_LOADK, OP_LOADBOOL, OP_LOADNIL, OP_GETUPVAL, OP_GETGLOBAL, OP_GETTABLE,
     OP_SETGLOBAL, OP_SETUPVAL, OP_SETTABLE, OP_NEWTABLE, OP_SELF, OP_ADD, OP_SUB, OP_MUL,
     OP_DIV, OP_MOD, OP_POW, OP_UNM, OP_NOT, OP_LEN, OP_CONCAT, OP_JMP, OP_EQ, OP_LT, OP_LE,
     OP_TEST, OP_TESTSET, OP_CALL, OP_TAILCALL, OP_RETURN, OP_FORLOOP, OP_FORPREP,
     OP_TFORLOOP, OP_SETLIST, OP_CLOSE, OP_CLOSURE, OP_VARARG]"

definition NUM_OPCODES :: nat where "NUM_OPCODES = 38"

fun index_of :: "'a \<Rightarrow> 'a list \<Rightarrow> nat" where
  "index_of x [] = 0"
| "index_of x (y # ys) = (if x = y then 0 else Suc (index_of x ys))"

definition opcode_num :: "OpCode \<Rightarrow> u32" where
  "opcode_num op = of_nat (index_of op opcodes)"

text \<open>\<open>cast(OpCode, ...)\<close> of a field; \<open>None\<close> is a number that is no opcode.\<close>

definition opcode_of :: "u32 \<Rightarrow> OpCode option" where
  "opcode_of x = (if unat x < NUM_OPCODES then Some (opcodes ! unat x) else None)"

fun luaP_opnames :: "OpCode \<Rightarrow> string" where
  "luaP_opnames OP_MOVE = ''MOVE''"
| "luaP_opnames OP_LOADK = ''LOADK''"
| "luaP_opnames OP_LOADBOOL = ''LOADBOOL''"
| "luaP_opnames OP_LOADNIL = ''LOADNIL''"
| "luaP_opnames OP_GETUPVAL = ''GETUPVAL''"
| "luaP_opnames OP_GETGLOBAL = ''GETGLOBAL''"
| "luaP_opnames OP_GETTABLE = ''GETTABLE''"
| "luaP_opnames OP_SETGLOBAL = ''SETGLOBAL''"
| "luaP_opnames OP_SETUPVAL = ''SETUPVAL''"
| "luaP_opnames OP_SETTABLE = ''SETTABLE''"
| "luaP_opnames OP_NEWTABLE = ''NEWTABLE''"
| "luaP_opnames OP_SELF = ''SELF''"
| "luaP_opnames OP_ADD = ''ADD''"
| "luaP_opnames OP_SUB = ''SUB''"
| "luaP_opnames OP_MUL = ''MUL''"
| "luaP_opnames OP_DIV = ''DIV''"
| "luaP_opnames OP_MOD = ''MOD''"
| "luaP_opnames OP_POW = ''POW''"
| "luaP_opnames OP_UNM = ''UNM''"
| "luaP_opnames OP_NOT = ''NOT''"
| "luaP_opnames OP_LEN = ''LEN''"
| "luaP_opnames OP_CONCAT = ''CONCAT''"
| "luaP_opnames OP_JMP = ''JMP''"
| "luaP_opnames OP_EQ = ''EQ''"
| "luaP_opnames OP_LT = ''LT''"
| "luaP_opnames OP_LE = ''LE''"
| "luaP_opnames OP_TEST = ''TEST''"
| "luaP_opnames OP_TESTSET = ''TESTSET''"
| "luaP_opnames OP_CALL = ''CALL''"
| "luaP_opnames OP_TAILCALL = ''TAILCALL''"
| "luaP_opnames OP_RETURN = ''RETURN''"
| "luaP_opnames OP_FORLOOP = ''FORLOOP''"
| "luaP_opnames OP_FORPREP = ''FORPREP''"
| "luaP_opnames OP_TFORLOOP = ''TFORLOOP''"
| "luaP_opnames OP_SETLIST = ''SETLIST''"
| "luaP_opnames OP_CLOSE = ''CLOSE''"
| "luaP_opnames OP_CLOSURE = ''CLOSURE''"
| "luaP_opnames OP_VARARG = ''VARARG''"

datatype OpMode = iABC | iABx | iAsBx

datatype OpArgMask = OpArgN | OpArgU | OpArgR | OpArgK

fun OpMode_num :: "OpMode \<Rightarrow> u8" where
  "OpMode_num iABC = 0" | "OpMode_num iABx = 1" | "OpMode_num iAsBx = 2"

fun OpArgMask_num :: "OpArgMask \<Rightarrow> u8" where
  "OpArgMask_num OpArgN = 0" | "OpArgMask_num OpArgU = 1"
| "OpArgMask_num OpArgR = 2" | "OpArgMask_num OpArgK = 3"

definition opmode :: "u8 \<Rightarrow> u8 \<Rightarrow> OpArgMask \<Rightarrow> OpArgMask \<Rightarrow> OpMode \<Rightarrow> u8" where
  "opmode t a b c m = push_bit 7 t OR push_bit 6 a OR push_bit 4 (OpArgMask_num b) OR
     push_bit 2 (OpArgMask_num c) OR OpMode_num m"

fun luaP_opmodes :: "OpCode \<Rightarrow> u8" where
  "luaP_opmodes OP_MOVE = opmode 0 1 OpArgR OpArgN iABC"
| "luaP_opmodes OP_LOADK = opmode 0 1 OpArgK OpArgN iABx"
| "luaP_opmodes OP_LOADBOOL = opmode 0 1 OpArgU OpArgU iABC"
| "luaP_opmodes OP_LOADNIL = opmode 0 1 OpArgR OpArgN iABC"
| "luaP_opmodes OP_GETUPVAL = opmode 0 1 OpArgU OpArgN iABC"
| "luaP_opmodes OP_GETGLOBAL = opmode 0 1 OpArgK OpArgN iABx"
| "luaP_opmodes OP_GETTABLE = opmode 0 1 OpArgR OpArgK iABC"
| "luaP_opmodes OP_SETGLOBAL = opmode 0 0 OpArgK OpArgN iABx"
| "luaP_opmodes OP_SETUPVAL = opmode 0 0 OpArgU OpArgN iABC"
| "luaP_opmodes OP_SETTABLE = opmode 0 0 OpArgK OpArgK iABC"
| "luaP_opmodes OP_NEWTABLE = opmode 0 1 OpArgU OpArgU iABC"
| "luaP_opmodes OP_SELF = opmode 0 1 OpArgR OpArgK iABC"
| "luaP_opmodes OP_ADD = opmode 0 1 OpArgK OpArgK iABC"
| "luaP_opmodes OP_SUB = opmode 0 1 OpArgK OpArgK iABC"
| "luaP_opmodes OP_MUL = opmode 0 1 OpArgK OpArgK iABC"
| "luaP_opmodes OP_DIV = opmode 0 1 OpArgK OpArgK iABC"
| "luaP_opmodes OP_MOD = opmode 0 1 OpArgK OpArgK iABC"
| "luaP_opmodes OP_POW = opmode 0 1 OpArgK OpArgK iABC"
| "luaP_opmodes OP_UNM = opmode 0 1 OpArgR OpArgN iABC"
| "luaP_opmodes OP_NOT = opmode 0 1 OpArgR OpArgN iABC"
| "luaP_opmodes OP_LEN = opmode 0 1 OpArgR OpArgN iABC"
| "luaP_opmodes OP_CONCAT = opmode 0 1 OpArgR OpArgR iABC"
| "luaP_opmodes OP_JMP = opmode 0 0 OpArgR OpArgN iAsBx"
| "luaP_opmodes OP_EQ = opmode 1 0 OpArgK OpArgK iABC"
| "luaP_opmodes OP_LT = opmode 1 0 OpArgK OpArgK iABC"
| "luaP_opmodes OP_LE = opmode 1 0 OpArgK OpArgK iABC"
| "luaP_opmodes OP_TEST = opmode 1 1 OpArgR OpArgU iABC"
| "luaP_opmodes OP_TESTSET = opmode 1 1 OpArgR OpArgU iABC"
| "luaP_opmodes OP_CALL = opmode 0 1 OpArgU OpArgU iABC"
| "luaP_opmodes OP_TAILCALL = opmode 0 1 OpArgU OpArgU iABC"
| "luaP_opmodes OP_RETURN = opmode 0 0 OpArgU OpArgN iABC"
| "luaP_opmodes OP_FORLOOP = opmode 0 1 OpArgR OpArgN iAsBx"
| "luaP_opmodes OP_FORPREP = opmode 0 1 OpArgR OpArgN iAsBx"
| "luaP_opmodes OP_TFORLOOP = opmode 1 0 OpArgN OpArgU iABC"
| "luaP_opmodes OP_SETLIST = opmode 0 0 OpArgU OpArgU iABC"
| "luaP_opmodes OP_CLOSE = opmode 0 0 OpArgN OpArgN iABC"
| "luaP_opmodes OP_CLOSURE = opmode 0 1 OpArgU OpArgN iABx"
| "luaP_opmodes OP_VARARG = opmode 0 1 OpArgU OpArgN iABC"

definition arg_mask :: "u8 \<Rightarrow> OpArgMask" where
  "arg_mask x = (if x = 0 then OpArgN else if x = 1 then OpArgU else if x = 2 then OpArgR else OpArgK)"

definition getOpMode :: "OpCode \<Rightarrow> OpMode" where
  "getOpMode m = (let x = luaP_opmodes m AND 3 in if x = 0 then iABC else if x = 1 then iABx else iAsBx)"

definition getBMode :: "OpCode \<Rightarrow> OpArgMask" where
  "getBMode m = arg_mask (drop_bit 4 (luaP_opmodes m) AND 3)"

definition getCMode :: "OpCode \<Rightarrow> OpArgMask" where
  "getCMode m = arg_mask (drop_bit 2 (luaP_opmodes m) AND 3)"

definition testAMode :: "OpCode \<Rightarrow> bool" where
  "testAMode m \<longleftrightarrow> luaP_opmodes m AND push_bit 6 1 \<noteq> 0"

definition testTMode :: "OpCode \<Rightarrow> bool" where
  "testTMode m \<longleftrightarrow> luaP_opmodes m AND push_bit 7 1 \<noteq> 0"

section \<open>The field laws\<close>

lemma bit_MASK1: "bit (MASK1 n p) k \<longleftrightarrow> p \<le> k \<and> k < p + n \<and> k < 32"
  by (auto simp: MASK1_def bit_push_bit_iff bit_not_iff bit_mask_iff)

lemma bit_get_field: "bit (get_field n p i) k \<longleftrightarrow> k < n \<and> bit i (p + k)"
  by (auto simp: get_field_def bit_and_iff bit_MASK1 bit_drop_bit_eq dest: bit_imp_le_length)

lemma bit_set_field:
  "bit (set_field n p i u) k \<longleftrightarrow>
     k < 32 \<and> (if p \<le> k \<and> k < p + n then bit u (k - p) else bit i k)"
  by (auto simp: set_field_def bit_and_iff bit_or_iff MASK0_def bit_not_iff bit_MASK1 bit_push_bit_iff
      dest: bit_imp_le_length)

lemma get_set_same:
  assumes "p + n \<le> 32"
  shows "get_field n p (set_field n p i u) = take_bit n u"
  using assms by (intro bit_eqI) (auto simp: bit_get_field bit_set_field bit_take_bit_iff)

lemma get_set_other:
  assumes "p' + n' \<le> p \<or> p + n \<le> p'"
  shows "get_field n' p' (set_field n p i u) = get_field n' p' i"
  using assms by (intro bit_eqI) (auto simp: bit_get_field bit_set_field dest: bit_imp_le_length)

lemma take_bit_small: "x < 2 ^ n \<Longrightarrow> n < 32 \<Longrightarrow> take_bit n (x :: u32) = x"
proof -
  assume x: "x < 2 ^ n" and n: "n < 32"
  have "unat (of_nat (2 ^ n) :: u32) = 2 ^ n" using power_strict_increasing [OF n, of "2 :: nat"]
    by (intro unat_of_nat_small) simp
  then have "unat x < 2 ^ n" using x by (simp add: word_less_nat_alt)
  then show ?thesis
    by (simp add: word_unat_eq_iff unsigned_take_bit_eq take_bit_nat_eq_self)
qed

lemma bit_small: "x < 2 ^ n \<Longrightarrow> n < 32 \<Longrightarrow> bit (x :: u32) k \<Longrightarrow> k < n"
  using take_bit_small [of x n] bit_take_bit_iff [of n x k] by simp

text \<open>An instruction is its fields.\<close>

lemma fields_eqI:
  assumes "GET_OPCODE i = GET_OPCODE j" and "GETARG_A i = GETARG_A j"
    and "GETARG_B i = GETARG_B j" and "GETARG_C i = GETARG_C j"
  shows "i = j"
proof (rule bit_eqI)
  fix k
  assume "possible_bit TYPE(Instruction) k"
  then have k: "k < 32" by (simp add: possible_bit_def)
  have o': "k < 6 \<Longrightarrow> bit i k = bit j k"
    using arg_cong [OF assms(1), of "\<lambda>w. bit w k"] by (simp add: GET_OPCODE_def bit_get_field)
  have a: "6 \<le> k \<Longrightarrow> k < 14 \<Longrightarrow> bit i k = bit j k"
    using arg_cong [OF assms(2), of "\<lambda>w. bit w (k - 6)"] by (auto simp: GETARG_A_def bit_get_field)
  have c: "14 \<le> k \<Longrightarrow> k < 23 \<Longrightarrow> bit i k = bit j k"
    using arg_cong [OF assms(4), of "\<lambda>w. bit w (k - 14)"] by (auto simp: GETARG_C_def bit_get_field)
  have b: "23 \<le> k \<Longrightarrow> bit i k = bit j k"
    using arg_cong [OF assms(3), of "\<lambda>w. bit w (k - 23)"] k by (auto simp: GETARG_B_def bit_get_field)
  show "bit i k = bit j k" using o' a c b by linarith
qed

lemmas field_defs = GET_OPCODE_def SET_OPCODE_def GETARG_A_def SETARG_A_def GETARG_B_def SETARG_B_def
  GETARG_C_def SETARG_C_def GETARG_Bx_def SETARG_Bx_def

text \<open>What each \<open>SET\<close> macro leaves in each field.\<close>

lemma get_set_fields:
  "GETARG_A (SETARG_A i u) = take_bit 8 u" "GETARG_B (SETARG_B i u) = take_bit 9 u"
  "GETARG_C (SETARG_C i u) = take_bit 9 u" "GETARG_Bx (SETARG_Bx i u) = take_bit 18 u"
  "GET_OPCODE (SET_OPCODE i u) = take_bit 6 u"
  "GETARG_B (SETARG_A i u) = GETARG_B i" "GETARG_C (SETARG_A i u) = GETARG_C i"
  "GETARG_Bx (SETARG_A i u) = GETARG_Bx i" "GET_OPCODE (SETARG_A i u) = GET_OPCODE i"
  "GETARG_A (SETARG_B i u) = GETARG_A i" "GETARG_C (SETARG_B i u) = GETARG_C i"
  "GET_OPCODE (SETARG_B i u) = GET_OPCODE i"
  "GETARG_A (SETARG_C i u) = GETARG_A i" "GETARG_B (SETARG_C i u) = GETARG_B i"
  "GET_OPCODE (SETARG_C i u) = GET_OPCODE i"
  "GETARG_A (SETARG_Bx i u) = GETARG_A i" "GET_OPCODE (SETARG_Bx i u) = GET_OPCODE i"
  "GETARG_A (SET_OPCODE i u) = GETARG_A i" "GETARG_B (SET_OPCODE i u) = GETARG_B i"
  "GETARG_C (SET_OPCODE i u) = GETARG_C i" "GETARG_Bx (SET_OPCODE i u) = GETARG_Bx i"
  unfolding field_defs by (rule get_set_same get_set_other; simp)+

lemma get_create_ABC:
  assumes "op < 2 ^ 6" and "a < 2 ^ 8" and "b < 2 ^ 9" and "c < 2 ^ 9"
  shows "GET_OPCODE (CREATE_ABC op a b c) = op" and "GETARG_A (CREATE_ABC op a b c) = a"
    and "GETARG_B (CREATE_ABC op a b c) = b" and "GETARG_C (CREATE_ABC op a b c) = c"
proof -
  note small = bit_small [OF assms(1)] bit_small [OF assms(2)] bit_small [OF assms(3)] bit_small [OF assms(4)]
  show "GET_OPCODE (CREATE_ABC op a b c) = op" "GETARG_A (CREATE_ABC op a b c) = a"
    "GETARG_B (CREATE_ABC op a b c) = b" "GETARG_C (CREATE_ABC op a b c) = c"
    by (rule bit_eqI;
        use small in \<open>force simp: field_defs bit_get_field CREATE_ABC_def bit_or_iff bit_push_bit_iff
          dest: bit_imp_le_length\<close>)+
qed

lemma get_create_ABx:
  assumes "op < 2 ^ 6" and "a < 2 ^ 8" and "bx < 2 ^ 18"
  shows "GET_OPCODE (CREATE_ABx op a bx) = op" and "GETARG_A (CREATE_ABx op a bx) = a"
    and "GETARG_Bx (CREATE_ABx op a bx) = bx"
proof -
  note small = bit_small [OF assms(1)] bit_small [OF assms(2)] bit_small [OF assms(3)]
  show "GET_OPCODE (CREATE_ABx op a bx) = op" "GETARG_A (CREATE_ABx op a bx) = a"
    "GETARG_Bx (CREATE_ABx op a bx) = bx"
    by (rule bit_eqI;
        use small in \<open>force simp: field_defs bit_get_field CREATE_ABx_def bit_or_iff bit_push_bit_iff
          dest: bit_imp_le_length\<close>)+
qed

lemma opcode_of_num: "opcode_of (opcode_num op) = Some op"
  by (cases op) (simp_all add: opcode_of_def opcode_num_def opcodes_def NUM_OPCODES_def)

lemma opcode_num_less: "opcode_num op < 2 ^ 6"
  by (cases op) (simp_all add: opcode_num_def opcodes_def)

lemma inj_opnames: "inj luaP_opnames"
proof (rule injI)
  have all: "op \<in> set opcodes" for op by (cases op) (simp_all add: opcodes_def)
  have "distinct (map luaP_opnames opcodes)" by code_simp
  then have "inj_on luaP_opnames (set opcodes)" by (simp add: distinct_map)
  then show "luaP_opnames x = luaP_opnames y \<Longrightarrow> x = y" for x y
    using all by (simp add: inj_on_def)
qed

lemma mode_simps:
  "getOpMode op = (if op \<in> {OP_LOADK, OP_GETGLOBAL, OP_SETGLOBAL, OP_CLOSURE} then iABx
     else if op \<in> {OP_JMP, OP_FORLOOP, OP_FORPREP} then iAsBx else iABC)"
  "testTMode op \<longleftrightarrow> op \<in> {OP_EQ, OP_LT, OP_LE, OP_TEST, OP_TESTSET, OP_TFORLOOP}"
  "testAMode op \<longleftrightarrow> op \<notin> {OP_SETGLOBAL, OP_SETUPVAL, OP_SETTABLE, OP_JMP, OP_EQ, OP_LT, OP_LE,
     OP_RETURN, OP_TFORLOOP, OP_SETLIST, OP_CLOSE}"
  by (cases op; simp add: getOpMode_def testTMode_def testAMode_def opmode_def)+

lemma get_field_less: "n < 32 \<Longrightarrow> get_field n p i < 2 ^ n"
proof -
  assume n: "n < 32"
  have "get_field n p i = take_bit n (drop_bit p i)"
    by (rule bit_eqI) (auto simp: bit_get_field bit_take_bit_iff bit_drop_bit_eq)
  then have "unat (get_field n p i) < 2 ^ n" by (simp add: unsigned_take_bit_eq)
  moreover have "unat (of_nat (2 ^ n) :: u32) = 2 ^ n"
    using power_strict_increasing [OF n, of "2 :: nat"] by (intro unat_of_nat_small) simp
  ultimately show ?thesis by (simp add: word_less_nat_alt)
qed

lemma fields_less:
  "GET_OPCODE i < 2 ^ 6" "GETARG_A i < 2 ^ 8" "GETARG_B i < 2 ^ 9" "GETARG_C i < 2 ^ 9"
  "GETARG_Bx i < 2 ^ 18"
  using get_field_less [of 6 0 i] get_field_less [of 8 6 i] get_field_less [of 9 23 i]
    get_field_less [of 9 14 i] get_field_less [of 18 14 i]
  by (simp_all add: field_defs)

lemma sBx_bias:
  assumes "- 131071 \<le> b" and "b \<le> 131072"
  shows "of_int b + MAXARG_sBx < (2 ^ 18 :: u32)"
proof -
  have "of_int b + MAXARG_sBx = (of_nat (nat (b + 131071)) :: u32)"
    using assms by (simp add: MAXARG_sBx_def of_nat_nat)
  moreover have "nat (b + 131071) < 2 ^ 18" using assms by (simp add: nat_less_iff)
  ultimately show ?thesis
    by (simp add: word_less_nat_alt unat_of_nat_small)
qed

section \<open>Properties\<close>

text \<open>
  The fields of an instruction are independent: a \<open>SET\<close> macro writes the low bits of its
  argument to its own field, which the \<open>GET\<close> macro reads back, and changes no other field;
  and an instruction built by \<open>CREATE_ABC\<close> or \<open>CREATE_ABx\<close> has the fields it was built of.
\<close>

theorem instruction_fields:
  assumes "op < 2 ^ 6" and "a < 2 ^ 8" and "b < 2 ^ 9" and "c < 2 ^ 9" and "bx < 2 ^ 18"
  shows "(GETARG_A (SETARG_A i a) = a \<and> GETARG_B (SETARG_A i a) = GETARG_B i \<and>
      GETARG_C (SETARG_A i a) = GETARG_C i \<and> GET_OPCODE (SETARG_A i a) = GET_OPCODE i) \<and>
    (GETARG_B (SETARG_B i b) = b \<and> GETARG_A (SETARG_B i b) = GETARG_A i \<and>
      GETARG_C (SETARG_B i b) = GETARG_C i \<and> GET_OPCODE (SETARG_B i b) = GET_OPCODE i) \<and>
    (GETARG_C (SETARG_C i c) = c \<and> GETARG_A (SETARG_C i c) = GETARG_A i \<and>
      GETARG_B (SETARG_C i c) = GETARG_B i \<and> GET_OPCODE (SETARG_C i c) = GET_OPCODE i) \<and>
    (GETARG_Bx (SETARG_Bx i bx) = bx \<and> GETARG_A (SETARG_Bx i bx) = GETARG_A i \<and>
      GET_OPCODE (SETARG_Bx i bx) = GET_OPCODE i) \<and>
    (GET_OPCODE (SET_OPCODE i op) = op \<and> GETARG_A (SET_OPCODE i op) = GETARG_A i \<and>
      GETARG_Bx (SET_OPCODE i op) = GETARG_Bx i) \<and>
    CREATE_ABC (GET_OPCODE i) (GETARG_A i) (GETARG_B i) (GETARG_C i) = i \<and>
    (GET_OPCODE (CREATE_ABC op a b c) = op \<and> GETARG_A (CREATE_ABC op a b c) = a \<and>
      GETARG_B (CREATE_ABC op a b c) = b \<and> GETARG_C (CREATE_ABC op a b c) = c) \<and>
    (GET_OPCODE (CREATE_ABx op a bx) = op \<and> GETARG_A (CREATE_ABx op a bx) = a \<and>
      GETARG_Bx (CREATE_ABx op a bx) = bx)"
proof -
  have "CREATE_ABC (GET_OPCODE i) (GETARG_A i) (GETARG_B i) (GETARG_C i) = i"
    by (rule fields_eqI) (rule get_create_ABC [OF fields_less(1-4)])+
  moreover have "take_bit 6 op = op" "take_bit 8 a = a" "take_bit 9 b = b" "take_bit 9 c = c"
    "take_bit 18 bx = bx"
    by (rule take_bit_small, rule assms, simp)+
  ultimately show ?thesis
    using get_create_ABC [OF assms(1-4)] get_create_ABx [OF assms(1,2,5)]
    by (simp only: get_set_fields simp_thms)
qed

theorem instruction_fields_witness:
  "GETARG_B (SETARG_B 0xFFFFFFFF 5) = 5 \<and> GETARG_C (SETARG_B 0xFFFFFFFF 5) = GETARG_C 0xFFFFFFFF"
  using instruction_fields [of 1 2 5 4 6 "0xFFFFFFFF"] by simp

text \<open>
  The signed argument \<open>sBx\<close>, kept in excess 131071, reads back what was written for
  every jump offset from -131071 to 131072, and leaves the opcode and \<open>A\<close> alone.
\<close>

theorem signed_argument:
  assumes "- 131071 \<le> b" and "b \<le> 131072"
  shows "sint (GETARG_sBx (SETARG_sBx i (of_int b))) = b \<and>
    GET_OPCODE (SETARG_sBx i (of_int b)) = GET_OPCODE i \<and> GETARG_A (SETARG_sBx i (of_int b)) = GETARG_A i"
proof -
  have "GETARG_Bx (SETARG_Bx i (of_int b + MAXARG_sBx)) = of_int b + MAXARG_sBx"
    using take_bit_small [OF sBx_bias [OF assms]] by (simp add: get_set_fields)
  moreover have "sint (of_int b :: u32) = b"
    using assms by (simp add: signed_of_int signed_take_bit_int_eq_self)
  ultimately show ?thesis
    by (simp add: GETARG_sBx_def SETARG_sBx_def get_set_fields)
qed

theorem signed_argument_witness: "sint (GETARG_sBx (SETARG_sBx 22 (of_int (- 5)))) = - 5"
  using signed_argument [of "- 5" 22] by simp

text \<open>
  Every opcode survives the cast to its number and back, fits the opcode field, and the
  mode bytes of \<open>luaP_opmodes\<close> decode to the formats the comments of the enumeration give:
  four opcodes take \<open>Bx\<close>, three \<open>sBx\<close>, six are tests followed by a jump, eleven do not set
  register \<open>A\<close>. No two opcodes have the same name.
\<close>

theorem opcode_modes:
  "opcode_of (opcode_num op) = Some op \<and> opcode_num op < 2 ^ 6 \<and>
   getOpMode op = (if op \<in> {OP_LOADK, OP_GETGLOBAL, OP_SETGLOBAL, OP_CLOSURE} then iABx
     else if op \<in> {OP_JMP, OP_FORLOOP, OP_FORPREP} then iAsBx else iABC) \<and>
   (testTMode op \<longleftrightarrow> op \<in> {OP_EQ, OP_LT, OP_LE, OP_TEST, OP_TESTSET, OP_TFORLOOP}) \<and>
   (testAMode op \<longleftrightarrow> op \<notin> {OP_SETGLOBAL, OP_SETUPVAL, OP_SETTABLE, OP_JMP, OP_EQ, OP_LT, OP_LE,
     OP_RETURN, OP_TFORLOOP, OP_SETLIST, OP_CLOSE}) \<and> inj luaP_opnames"
  by (intro conjI opcode_of_num opcode_num_less mode_simps inj_opnames)

end
