(* ===== verification/Ieee.thy ===== *)
theory Ieee
  imports Prelude
begin

text \<open>
  The C conversions between \<open>double\<close> and the integer types, on IEEE-754 bit patterns: what
  \<open>(int)d\<close>, \<open>(ptrdiff_t)d\<close> and \<open>(double)i\<close> compute on x86-64, and the comparison \<open>==\<close>.
\<close>

definition dbl_exp :: "double \<Rightarrow> nat" where
  "dbl_exp d = unat (drop_bit 52 d AND 0x7FF)"

definition dbl_frac :: "double \<Rightarrow> nat" where
  "dbl_frac d = unat (d AND 0xFFFFFFFFFFFFF)"

definition dbl_neg :: "double \<Rightarrow> bool" where
  "dbl_neg d = bit d 63"

definition dbl_finite :: "double \<Rightarrow> bool" where
  "dbl_finite d \<longleftrightarrow> dbl_exp d \<noteq> 0x7FF"

definition dbl_nan :: "double \<Rightarrow> bool" where
  "dbl_nan d \<longleftrightarrow> dbl_exp d = 0x7FF \<and> dbl_frac d \<noteq> 0"

text \<open>Significand and exponent: the magnitude of a finite double is \<open>m * 2 ^ (x - 1075)\<close>.\<close>

definition dbl_mant :: "double \<Rightarrow> nat" where
  "dbl_mant d = (if dbl_exp d = 0 then dbl_frac d else dbl_frac d + 2 ^ 52)"

definition dbl_scale :: "double \<Rightarrow> nat" where
  "dbl_scale d = (if dbl_exp d = 0 then 1 else dbl_exp d)"

definition trunc_mag :: "double \<Rightarrow> nat" where
  "trunc_mag d =
     (if dbl_scale d \<ge> 1075 then dbl_mant d * 2 ^ (dbl_scale d - 1075)
      else dbl_mant d div 2 ^ (1075 - dbl_scale d))"

definition trunc_double :: "double \<Rightarrow> int" where
  "trunc_double d = (if dbl_neg d then - int (trunc_mag d) else int (trunc_mag d))"

text \<open>
  Out of range, infinite and not-a-number operands give the integer indefinite value, the
  least integer of the target type.
\<close>

definition double_to_s64 :: "double \<Rightarrow> u64" where
  "double_to_s64 d =
     (if dbl_finite d \<and> - (2 ^ 63) \<le> trunc_double d \<and> trunc_double d < 2 ^ 63
      then of_int (trunc_double d) else 0x8000000000000000)"

definition double_to_s32 :: "double \<Rightarrow> u32" where
  "double_to_s32 d =
     (if dbl_finite d \<and> - (2 ^ 31) \<le> trunc_double d \<and> trunc_double d < 2 ^ 31
      then of_int (trunc_double d) else 0x80000000)"

fun floor_log2 :: "nat \<Rightarrow> nat" where
  "floor_log2 n = (if n \<le> 1 then 0 else Suc (floor_log2 (n div 2)))"

declare floor_log2.simps [simp del]

text \<open>Division rounded to the nearest, ties to even.\<close>

definition round_div :: "nat \<Rightarrow> nat \<Rightarrow> nat" where
  "round_div a b =
     (let q = a div b; r = a mod b
      in if 2 * r > b \<or> (2 * r = b \<and> odd q) then Suc q else q)"

definition nat_to_double :: "nat \<Rightarrow> double" where
  "nat_to_double n =
     (if n = 0 then 0 else
      let l = floor_log2 n;
          q = (if l \<le> 52 then n * 2 ^ (52 - l) else round_div n (2 ^ (l - 52)))
      in of_nat ((l + 1023) * 2 ^ 52 + (q - 2 ^ 52)))"

definition int_to_double :: "int \<Rightarrow> double" where
  "int_to_double i = (if i < 0 then nat_to_double (nat (- i)) OR 0x8000000000000000 else nat_to_double (nat i))"

text \<open>The comparison \<open>==\<close>: no not-a-number is equal to anything, both zeros are equal.\<close>

definition dbl_eq :: "double \<Rightarrow> double \<Rightarrow> bool" where
  "dbl_eq a b \<longleftrightarrow> \<not> dbl_nan a \<and> \<not> dbl_nan b \<and>
     (a = b \<or> (a AND 0x7FFFFFFFFFFFFFFF = 0 \<and> b AND 0x7FFFFFFFFFFFFFFF = 0))"

section \<open>Small integers survive\<close>

lemma floor_log2_bounds: "0 < n \<Longrightarrow> 2 ^ floor_log2 n \<le> n \<and> n < 2 ^ Suc (floor_log2 n)"
proof (induction n rule: floor_log2.induct)
  case (1 n)
  show ?case
  proof (cases "n \<le> 1")
    case True
    with 1 have "n = 1" by simp
    then show ?thesis by (simp add: floor_log2.simps)
  next
    case False
    with 1 have "2 ^ floor_log2 (n div 2) \<le> n div 2" "n div 2 < 2 ^ Suc (floor_log2 (n div 2))" by auto
    then have "2 * 2 ^ floor_log2 (n div 2) \<le> n" "n < 4 * 2 ^ floor_log2 (n div 2)" by simp_all
    with False show ?thesis by (simp add: floor_log2.simps [of n])
  qed
qed

lemma unat_and_mask: "unat (x AND mask k :: u64) = unat x mod 2 ^ k"
  by (simp only: take_bit_eq_mask [symmetric] unsigned_take_bit_eq) (simp add: take_bit_eq_mod)

lemma dbl_exp_alt: "dbl_exp d = unat d div 2 ^ 52 mod 2 ^ 11"
proof -
  have "dbl_exp d = unat (drop_bit 52 d AND mask 11)" by (simp add: dbl_exp_def mask_eq_exp_minus_1)
  also have "\<dots> = drop_bit 52 (unat d) mod 2 ^ 11" by (simp only: unat_and_mask unat_drop_bit_eq)
  finally show ?thesis by (simp add: drop_bit_eq_div)
qed

lemma dbl_frac_alt: "dbl_frac d = unat d mod 2 ^ 52"
  using unat_and_mask [of d 52] by (simp add: dbl_frac_def mask_eq_exp_minus_1)

lemma dbl_neg_alt: "dbl_neg d \<longleftrightarrow> unat d \<ge> 2 ^ 63"
proof -
  have "unat d < 2 ^ 64" using unsigned_less [of d, where 'a = nat] by simp
  then have "unat d div 2 ^ 63 < 2" by (simp add: less_mult_imp_div_less)
  moreover have "bit d 63 \<longleftrightarrow> odd (unat d div 2 ^ 63)"
    using bit_unsigned_iff [of d 63, where 'a = nat] by (simp add: bit_iff_odd possible_bit_def)
  moreover have "unat d div 2 ^ 63 = 0 \<longleftrightarrow> unat d < 2 ^ 63" by (simp add: div_eq_0_iff)
  ultimately show ?thesis unfolding dbl_neg_def
    by (metis One_nat_def even_zero less_2_cases linorder_not_le odd_one)
qed

lemma nat_to_double_fields:
  assumes "0 < n" and "n < 2 ^ 53"
  shows "\<exists>l f. l \<le> 52 \<and> f < 2 ^ 52 \<and> f + 2 ^ 52 = n * 2 ^ (52 - l) \<and>
    unat (nat_to_double n) = (l + 1023) * 2 ^ 52 + f"
proof -
  define l where "l = floor_log2 n"
  have lb: "2 ^ l \<le> n" "n < 2 ^ Suc l" using floor_log2_bounds [OF assms(1)] by (simp_all add: l_def)
  have "(2 :: nat) ^ l < 2 ^ 53" using lb(1) assms(2) by linarith
  then have l: "l \<le> 52" using power_less_imp_less_exp [of "2 :: nat" l 53] by simp
  define f where "f = n * 2 ^ (52 - l) - 2 ^ 52"
  have p: "(2 :: nat) ^ l * 2 ^ (52 - l) = 2 ^ 52" "(2 :: nat) ^ Suc l * 2 ^ (52 - l) = 2 ^ 53"
    using l by (simp_all only: power_add [symmetric]) simp_all
  have "2 ^ 52 \<le> n * 2 ^ (52 - l)" using mult_le_mono1 [OF lb(1), of "2 ^ (52 - l)"] p by simp
  moreover have "n * 2 ^ (52 - l) < 2 ^ 53" unfolding p(2) [symmetric] by (rule mult_less_mono1 [OF lb(2)]) simp
  ultimately have f: "f + 2 ^ 52 = n * 2 ^ (52 - l)" "f < 2 ^ 52" by (simp_all add: f_def)
  have "(l + 1023) * 2 ^ 52 \<le> 1075 * 2 ^ 52" using l by simp
  then have "(l + 1023) * 2 ^ 52 + f < 2 ^ 64" using f(2) by simp
  then have "unat (of_nat ((l + 1023) * 2 ^ 52 + f) :: double) = (l + 1023) * 2 ^ 52 + f"
    by (intro unat_of_nat_small) simp
  moreover have "nat_to_double n = of_nat ((l + 1023) * 2 ^ 52 + f)"
    using assms(1) l by (simp only: nat_to_double_def Let_def l_def [symmetric] f_def) simp
  ultimately show ?thesis using l f by metis
qed

lemma trunc_mag_fields:
  assumes "unat d mod 2 ^ 63 = (l + 1023) * 2 ^ 52 + f" and "l \<le> 52" and "f < 2 ^ 52"
    and "f + 2 ^ 52 = n * 2 ^ (52 - l)"
  shows "trunc_mag d = n" and "dbl_finite d"
proof -
  have "unat d div 2 ^ 52 mod 2 ^ 11 = unat d mod 2 ^ 63 div 2 ^ 52"
    using div_mult2_eq mod_mult2_eq [of "unat d" "2 ^ 52" "2 ^ 11"] by simp
  also have "\<dots> = l + 1023" unfolding assms(1) using assms(3) by simp
  finally have e: "dbl_exp d = l + 1023" by (simp only: dbl_exp_alt)
  have "unat d mod 2 ^ 52 = unat d mod 2 ^ 63 mod 2 ^ 52"
    by (rule mod_mod_cancel [symmetric]) (simp add: le_imp_power_dvd)
  also have "\<dots> = f" unfolding assms(1) mod_mult_self3 using assms(3) by (rule mod_less)
  finally have f: "dbl_frac d = f" by (simp only: dbl_frac_alt)
  show "dbl_finite d" using e assms(2) by (simp add: dbl_finite_def)
  have m: "dbl_mant d = n * 2 ^ (52 - l)" using assms(4) by (simp only: dbl_mant_def e f) simp
  have s: "dbl_scale d = l + 1023" by (simp add: dbl_scale_def e)
  show "trunc_mag d = n"
  proof (cases "l = 52")
    case True
    then show ?thesis by (simp add: trunc_mag_def m s)
  next
    case False
    then have "\<not> l + 1023 \<ge> 1075" "1075 - (l + 1023) = 52 - l" using assms(2) by simp_all
    then show ?thesis by (simp add: trunc_mag_def m s)
  qed
qed

lemma nat_to_double_trunc:
  assumes "n < 2 ^ 53"
  shows "trunc_double (nat_to_double n) = int n" and "dbl_finite (nat_to_double n)"
    and "unat (nat_to_double n) < 2 ^ 63"
proof -
  have "trunc_double (nat_to_double n) = int n \<and> dbl_finite (nat_to_double n) \<and> unat (nat_to_double n) < 2 ^ 63"
  proof (cases "n = 0")
    case True
    then show ?thesis
      by (simp add: nat_to_double_def trunc_double_def trunc_mag_def dbl_mant_def dbl_scale_def
          dbl_exp_def dbl_frac_def dbl_finite_def dbl_neg_def)
  next
    case False
    then obtain l f where lf: "l \<le> 52" "f < 2 ^ 52" "f + 2 ^ 52 = n * 2 ^ (52 - l)"
      "unat (nat_to_double n) = (l + 1023) * 2 ^ 52 + f"
      using nat_to_double_fields [of n] assms by auto
    have "(l + 1023) * 2 ^ 52 \<le> 1075 * 2 ^ 52" using lf(1) by simp
    then have less: "unat (nat_to_double n) < 2 ^ 63" using lf(2) by (simp only: lf(4)) simp
    then have mod: "unat (nat_to_double n) mod 2 ^ 63 = (l + 1023) * 2 ^ 52 + f"
      using lf(4) by (simp only: mod_less)
    have "\<not> dbl_neg (nat_to_double n)" using less by (simp only: dbl_neg_alt linorder_not_le)
    then show ?thesis
      using trunc_mag_fields [OF mod lf(1-3)] less by (simp add: trunc_double_def)
  qed
  then show "trunc_double (nat_to_double n) = int n" and "dbl_finite (nat_to_double n)"
    and "unat (nat_to_double n) < 2 ^ 63" by simp_all
qed

lemma int_to_double_trunc:
  assumes "0 \<le> i" and "i < 2 ^ 53"
  shows "trunc_double (int_to_double i) = i" and "dbl_finite (int_to_double i)"
proof -
  have "nat i < 2 ^ 53" using assms(2) by (simp add: nat_less_iff)
  from nat_to_double_trunc [OF this] show "trunc_double (int_to_double i) = i" and "dbl_finite (int_to_double i)"
    using assms(1) by (simp_all add: int_to_double_def)
qed

lemma int_to_double_s64:
  assumes "0 \<le> i" and "i < 2 ^ 53"
  shows "double_to_s64 (int_to_double i) = of_int i"
  using int_to_double_trunc [OF assms] assms by (simp add: double_to_s64_def)

lemma int_to_double_s32:
  assumes "0 \<le> i" and "i < 2 ^ 31"
  shows "double_to_s32 (int_to_double i) = of_int i"
  using int_to_double_trunc [OF assms(1)] assms by (simp add: double_to_s32_def)

lemma int_to_double_inj:
  assumes "0 \<le> i" "i < 2 ^ 53" "0 \<le> j" "j < 2 ^ 53"
  shows "int_to_double i = int_to_double j \<longleftrightarrow> i = j"
  using int_to_double_trunc(1) assms by metis

end
