(* ===== verification/LuaObject.thy ===== *)
theory LuaObject
  imports LuaOpcodes Ieee
begin

text \<open>
  lobject.h and lobject.c of Lua: tagged values, function prototypes, the floating point byte,
  the binary logarithm, raw equality, the text of a chunk's name and the conversion of strings
  to numbers.

  Strings are interned (one address per content), so a string value is its bytes; the other
  collectable values are addresses. A C string is its bytes without the terminating zero.
\<close>

text \<open>Limits of llimits.h.\<close>

definition MAX_SIZET :: nat where "MAX_SIZET = 2 ^ 64 - 3"
definition MAX_INT :: int where "MAX_INT = 2 ^ 31 - 3"

section \<open>Values\<close>

datatype TValue =
    TNil
  | TBoolean u32
  | TLightUserdata addr
  | TNumber double
  | TString bytes
  | TTable addr
  | TFunction addr
  | TUserdata addr
  | TThread addr

fun ttype :: "TValue \<Rightarrow> u8" where
  "ttype TNil = 0" | "ttype (TBoolean _) = 1" | "ttype (TLightUserdata _) = 2"
| "ttype (TNumber _) = 3" | "ttype (TString _) = 4" | "ttype (TTable _) = 5"
| "ttype (TFunction _) = 6" | "ttype (TUserdata _) = 7" | "ttype (TThread _) = 8"

fun l_isfalse :: "TValue \<Rightarrow> bool" where
  "l_isfalse TNil = True"
| "l_isfalse (TBoolean b) = (b = 0)"
| "l_isfalse _ = False"

definition iscollectable :: "TValue \<Rightarrow> bool" where
  "iscollectable v \<longleftrightarrow> ttype v \<ge> 4"

fun gcvalue :: "TValue \<Rightarrow> (addr + bytes) option" where
  "gcvalue (TString s) = Some (Inr s)"
| "gcvalue (TTable a) = Some (Inl a)"
| "gcvalue (TFunction a) = Some (Inl a)"
| "gcvalue (TUserdata a) = Some (Inl a)"
| "gcvalue (TThread a) = Some (Inl a)"
| "gcvalue _ = None"

definition luaO_rawequalObj :: "TValue \<Rightarrow> TValue \<Rightarrow> bool" where
  "luaO_rawequalObj t1 t2 =
     (if ttype t1 \<noteq> ttype t2 then False else
      case (t1, t2) of
        (TNil, _) \<Rightarrow> True
      | (TNumber a, TNumber b) \<Rightarrow> dbl_eq a b
      | (TBoolean a, TBoolean b) \<Rightarrow> a = b
      | (TLightUserdata a, TLightUserdata b) \<Rightarrow> a = b
      | _ \<Rightarrow> gcvalue t1 = gcvalue t2)"

section \<open>Function prototypes\<close>

record LocVar =
  varname :: "bytes option"
  startpc :: u32
  endpc :: u32

text \<open>
  The arrays of a prototype carry their sizes (\<open>sizek\<close>, \<open>sizecode\<close>, ...); a string pointer
  may be null.
\<close>

datatype Proto = Proto
  (pk: "TValue list")
  (pcode: "Instruction list")
  (pp: "Proto list")
  (plineinfo: "u32 list")
  (plocvars: "LocVar list")
  (pupvalues: "bytes option list")
  (psource: "bytes option")
  (plinedefined: u32)
  (plastlinedefined: u32)
  (pnups: u8)
  (pnumparams: u8)
  (pis_vararg: u8)
  (pmaxstacksize: u8)

definition VARARG_HASARG :: u8 where "VARARG_HASARG = 1"
definition VARARG_ISVARARG :: u8 where "VARARG_ISVARARG = 2"
definition VARARG_NEEDSARG :: u8 where "VARARG_NEEDSARG = 4"

section \<open>The floating point byte\<close>

lemma unat_drop_bit_1: "unat (drop_bit 1 w :: u32) = unat w div 2"
  by (simp add: drop_bit_eq_div unat_div)

lemma half_up: "x \<noteq> -1 \<Longrightarrow> unat (drop_bit 1 (x + 1) :: u32) = (unat x + 1) div 2"
proof -
  assume "x \<noteq> -1"
  then have "unat (x + 1) = unat x + 1"
    by (metis Suc_eq_plus1 add.commute add_eq_0_iff unatSuc)
  moreover have "unat (drop_bit 1 (x + 1)) = unat (x + 1) div 2"
    by (rule unat_drop_bit_1)
  ultimately show ?thesis by (simp only:)
qed

function int2fb_loop :: "u32 \<Rightarrow> nat \<Rightarrow> u32 \<times> nat" where
  "int2fb_loop x e = (if x \<ge> 16 then int2fb_loop (drop_bit 1 (x + 1)) (e + 1) else (x, e))"
  by auto
termination
proof (relation "measure (\<lambda>(x, e). unat x)")
  show "((drop_bit 1 (x + 1), e + 1), (x, e)) \<in> measure (\<lambda>(x, e). unat x)" if "16 \<le> x" for x :: u32 and e :: nat
  proof (cases "x = -1")
    case False
    then show ?thesis using that half_up [OF False] by (simp add: word_le_nat_alt)
  qed (simp add: unsigned_minus_1_eq_mask)
qed simp

declare int2fb_loop.simps [simp del]

definition luaO_int2fb :: "u32 \<Rightarrow> u32" where
  "luaO_int2fb x = (let (x, e) = int2fb_loop x 0 in
     if x < 8 then x else push_bit 3 (of_nat (e + 1)) OR (x - 8))"

definition luaO_fb2int :: "u32 \<Rightarrow> u32" where
  "luaO_fb2int x = (let e = drop_bit 3 x AND 31 in
     if e = 0 then x else push_bit (unat (e - 1)) ((x AND 7) + 8))"

section \<open>Binary logarithm\<close>

definition log_2 :: "nat list" where
  "log_2 = [0, 1] @ replicate 2 2 @ replicate 4 3 @ replicate 8 4 @ replicate 16 5 @
     replicate 32 6 @ replicate 64 7 @ replicate 128 8"

function log2_loop :: "u32 \<Rightarrow> int \<Rightarrow> int" where
  "log2_loop x l = (if x \<ge> 256 then log2_loop (drop_bit 8 x) (l + 8) else l + int (log_2 ! unat x))"
  by auto
termination
  by (relation "measure (\<lambda>(x, l). unat x)")
    (simp_all add: word_le_nat_alt drop_bit_eq_div unat_div)

declare log2_loop.simps [simp del]

definition luaO_log2 :: "u32 \<Rightarrow> int" where
  "luaO_log2 x = log2_loop x (- 1)"

definition ceillog2 :: "u32 \<Rightarrow> int" where
  "ceillog2 x = luaO_log2 (x - 1) + 1"

section \<open>Chunk names\<close>

definition LUA_IDSIZE :: nat where "LUA_IDSIZE = 60"

definition strcspn :: "bytes \<Rightarrow> bytes \<Rightarrow> nat" where
  "strcspn s reject = length (takeWhile (\<lambda>c. c \<notin> set reject) s)"

text \<open>\<open>bufflen\<close> is a \<open>size_t\<close>: the subtractions wrap around.\<close>

definition luaO_chunkid :: "bytes \<Rightarrow> u64 \<Rightarrow> bytes" where
  "luaO_chunkid source bufflen =
     (case source of
        c # s \<Rightarrow>
          if c = of_char CHR ''='' then take (unat (bufflen - 1)) s
          else if c = of_char CHR ''@'' then
            (let bufflen = bufflen - 8; l = length s in
             if l > unat bufflen then ascii ''...'' @ drop (l - unat bufflen) s else s)
          else
            (let len = strcspn source [10, 13];
                 bufflen = bufflen - 17;
                 len = if len > unat bufflen then unat bufflen else len in
             ascii ''[string '' @ [34] @
             (if len < length source then take len source @ ascii ''...'' else source) @ [34] @ ascii '']'')
      | [] \<Rightarrow> ascii ''[string '' @ [34, 34] @ ascii '']'')"

section \<open>Strings to numbers\<close>

definition isspace :: "u8 \<Rightarrow> bool" where
  "isspace c \<longleftrightarrow> c = 32 \<or> (9 \<le> c \<and> c \<le> 13)"

text \<open>
  \<open>strtod\<close> and \<open>strtoul\<close> of the C library are parameters: the number read and how many
  characters were used.
\<close>

definition luaO_str2d :: "(bytes \<Rightarrow> double \<times> nat) \<Rightarrow> (bytes \<Rightarrow> u64 \<times> nat) \<Rightarrow> bytes \<Rightarrow> double option" where
  "luaO_str2d strtod strtoul16 s =
     (let (r, e) = strtod s in
      if e = 0 then None
      else let (r, e) =
             (if take 1 (drop e s) = [of_char CHR ''x''] \<or> take 1 (drop e s) = [of_char CHR ''X'']
              then let (u, e') = strtoul16 s in (int_to_double (uint u), e') else (r, e)) in
        if drop e s = [] then Some r
        else if dropWhile isspace (drop e s) \<noteq> [] then None
        else Some r)"

section \<open>Lemmas\<close>

lemma rawequal_simps [simp]:
  "luaO_rawequalObj (TNumber a) (TNumber b) = dbl_eq a b"
  "\<forall>n. t1 \<noteq> TNumber n \<Longrightarrow> luaO_rawequalObj t1 t2 \<longleftrightarrow> t1 = t2"
  "\<forall>n. t2 \<noteq> TNumber n \<Longrightarrow> luaO_rawequalObj t1 t2 \<longleftrightarrow> t1 = t2"
  by (simp add: luaO_rawequalObj_def) (cases t1; cases t2; auto simp: luaO_rawequalObj_def)+

text \<open>Each round of the loop halves \<open>x\<close>, rounding up: the result times the power of two is the
  least such multiple that reaches \<open>x\<close>.\<close>

lemma int2fb_loop_bounds:
  assumes "x < 2 ^ 32 - 1" and "int2fb_loop x e = (m, e')"
  shows "e \<le> e' \<and> unat x \<le> unat m * 2 ^ (e' - e) \<and> unat m * 2 ^ (e' - e) < unat x + 2 ^ (e' - e) \<and> m < 16 \<and>
    (e' \<noteq> e \<longrightarrow> 8 \<le> m)"
  using assms
proof (induction x e rule: int2fb_loop.induct)
  case (1 x e)
  show ?case
  proof (cases "16 \<le> x")
    case False
    then show ?thesis using "1.prems" by (simp add: int2fb_loop.simps [of x e])
  next
    case True
    let ?y = "drop_bit 1 (x + 1) :: u32"
    have y: "unat ?y = (unat x + 1) div 2" using "1.prems"(1) by (intro half_up) auto
    have eq: "int2fb_loop ?y (e + 1) = (m, e')" using "1.prems"(2) True by (simp add: int2fb_loop.simps [of x e])
    have "?y < 2 ^ 32 - 1" using y "1.prems"(1) by (simp add: word_less_nat_alt)
    from "1.IH" [OF True this eq]
    have IH: "e + 1 \<le> e'" "unat ?y \<le> unat m * 2 ^ (e' - (e + 1))"
      "unat m * 2 ^ (e' - (e + 1)) < unat ?y + 2 ^ (e' - (e + 1))" "m < 16" "e' \<noteq> e + 1 \<longrightarrow> 8 \<le> m"
      by auto
    define k where "k = e' - (e + 1)"
    have k: "e' - e = Suc k" using IH(1) by (simp add: k_def)
    have up: "unat x \<le> 2 * unat ?y" and low: "2 * unat ?y \<le> unat x + 1" unfolding y by simp_all
    have "8 \<le> m"
    proof (cases "e' = e + 1")
      case True
      then have "unat ?y = unat m" using IH(2,3) by simp
      moreover have "8 \<le> unat ?y" using \<open>16 \<le> x\<close> unfolding y by (simp add: word_le_nat_alt)
      ultimately show ?thesis by (simp add: word_le_nat_alt)
    qed (use IH(5) in simp)
    then show ?thesis using IH(1,4) up low IH(2,3) unfolding k k_def [symmetric]
      by (auto simp: algebra_simps)
  qed
qed

lemma drop_push: "b < 8 \<Longrightarrow> a < 2 ^ 29 \<Longrightarrow> drop_bit 3 (push_bit 3 a OR b :: u32) = a"
  "b < 8 \<Longrightarrow> (push_bit 3 a OR b) AND 7 = (b :: u32)"
proof -
  show "drop_bit 3 (push_bit 3 a OR b) = a" if "b < 8" "a < 2 ^ 29"
    using bit_small [of b 3] bit_small [OF that(2)] that(1)
    by (intro bit_eqI) (force simp: bit_drop_bit_eq bit_or_iff bit_push_bit_iff)
  show "(push_bit 3 a OR b) AND 7 = b" if "b < 8"
  proof -
    have "(push_bit 3 a OR b) AND 7 = take_bit 3 (push_bit 3 a OR b)"
      by (simp add: take_bit_eq_mask mask_eq_exp_minus_1)
    also have "\<dots> = b"
      using bit_small [of b 3] that
      by (intro bit_eqI) (auto simp: bit_take_bit_iff bit_or_iff bit_push_bit_iff)
    finally show ?thesis .
  qed
qed

lemma mask_small: "x < 32 \<Longrightarrow> x AND 31 = (x :: u32)"
  using take_bit_small [of x 5] by (simp add: take_bit_eq_mask mask_eq_exp_minus_1)

lemma fb_small: "x < 2 ^ 31 \<Longrightarrow> int2fb_loop x 0 = (m, e) \<Longrightarrow> 8 \<le> m \<Longrightarrow> unat m * 2 ^ e \<le> 2 ^ 31 \<and> e < 29"
proof -
  assume x: "x < 2 ^ 31" and eq: "int2fb_loop x 0 = (m, e)" and m: "8 \<le> m"
  have "x < 2 ^ 32 - 1" using x by (auto simp: word_less_nat_alt)
  then have b: "unat m * 2 ^ e < unat x + 2 ^ e" using int2fb_loop_bounds [OF _ eq] by simp
  have x': "unat x < 2 ^ 31" using x by (simp add: word_less_nat_alt)
  have m': "8 \<le> unat m" using m by (simp add: word_le_nat_alt)
  have "7 * 2 ^ e < (2 ^ 31 :: nat)"
  proof -
    have "8 * 2 ^ e \<le> unat m * 2 ^ e" using m' by simp
    then show ?thesis using b x' by linarith
  qed
  then have e: "e < 29"
    using power_increasing [of 29 e "2 :: nat"] by (cases "e < 29") simp_all
  have "(unat m - 1) * 2 ^ e < 2 ^ (31 - e) * 2 ^ e"
    using b x' e m' by (simp add: power_add [symmetric] diff_mult_distrib)
  then have "unat m - 1 < 2 ^ (31 - e)" by simp
  then have "unat m \<le> 2 ^ (31 - e)" by linarith
  then have "unat m * 2 ^ e \<le> 2 ^ (31 - e) * 2 ^ e" by simp
  then show ?thesis using e by (simp add: power_add [symmetric])
qed

lemma fb_round:
  assumes "x < 2 ^ 31" and "int2fb_loop x 0 = (m, e)"
  shows "unat (luaO_fb2int (luaO_int2fb x)) = unat m * 2 ^ e \<and> luaO_int2fb x < 256"
proof (cases "m < 8")
  case True
  have "x < 2 ^ 32 - 1" using assms(1) by (auto simp: word_less_nat_alt)
  then have "e = 0" using int2fb_loop_bounds [OF _ assms(2)] True by (auto simp: linorder_not_less)
  moreover have "drop_bit 3 m = 0" using True
    by (intro bit_eqI) (use bit_small [of m 3] in \<open>auto simp: bit_drop_bit_eq\<close>)
  ultimately show ?thesis using True assms(2)
    by (auto simp: luaO_int2fb_def luaO_fb2int_def word_less_nat_alt)
next
  case False
  then have m8: "8 \<le> m" by (simp add: linorder_not_less)
  have "x < 2 ^ 32 - 1" using assms(1) by (auto simp: word_less_nat_alt)
  then have m16: "m < 16" using int2fb_loop_bounds [OF _ assms(2)] by simp
  have bd: "unat m * 2 ^ e \<le> 2 ^ 31" "e < 29" using fb_small [OF assms m8] by auto
  define a where "a = (of_nat (e + 1) :: u32)"
  have ua: "unat a = e + 1" unfolding a_def using bd(2) by (intro unat_of_nat_small) simp
  have a: "a < 32" "a < 2 ^ 29" "a \<noteq> 0" using ua bd(2) by (auto simp: word_less_nat_alt)
  have um: "unat (m - 8) = unat m - 8" using m8 by (simp add: unat_sub word_le_nat_alt)
  have m7: "m - 8 < 8" using um m16 by (simp add: word_less_nat_alt)
  have fb: "luaO_int2fb x = push_bit 3 a OR (m - 8)"
    using assms(2) False by (simp add: luaO_int2fb_def a_def)
  have "luaO_fb2int (luaO_int2fb x) = push_bit e m"
    unfolding fb luaO_fb2int_def Let_def drop_push(1) [OF m7 a(2)] drop_push(2) [OF m7]
      mask_small [OF a(1)]
    using a ua by (simp add: unat_sub word_le_nat_alt)
  moreover have "unat (push_bit e m) = unat m * 2 ^ e"
  proof -
    have "push_bit e m = (of_nat (unat m * 2 ^ e) :: u32)" by (simp add: push_bit_eq_mult)
    then show ?thesis using bd(1) by (simp only:) (rule unat_of_nat_small, simp)
  qed
  moreover have "luaO_int2fb x < 256"
  proof -
    have "bit (luaO_int2fb x) k \<Longrightarrow> k < 8" for k
      using bit_small [of "m - 8" 3 k] bit_small [of a 5 "k - 3"] m7 a(1)
      by (auto simp: fb bit_or_iff bit_push_bit_iff)
    then have "take_bit 8 (luaO_int2fb x) = luaO_int2fb x"
      by (intro bit_eqI) (auto simp: bit_take_bit_iff)
    moreover have "unat (take_bit 8 (luaO_int2fb x)) < 2 ^ 8"
      using take_bit_nat_less_exp [of 8 "unat (luaO_int2fb x)"] by (simp add: unsigned_take_bit_eq)
    ultimately show ?thesis by (simp add: word_less_nat_alt)
  qed
  ultimately show ?thesis by simp
qed

lemma log_2_nth: "i < 256 \<Longrightarrow> log_2 ! i = (if i = 0 then 0 else if i < 2 then 1 else if i < 4 then 2
     else if i < 8 then 3 else if i < 16 then 4 else if i < 32 then 5 else if i < 64 then 6
     else if i < 128 then 7 else 8)"
proof -
  assume "i < 256"
  then consider "i < 2" | "2 \<le> i" "i < 4" | "4 \<le> i" "i < 8" | "8 \<le> i" "i < 16" | "16 \<le> i" "i < 32"
    | "32 \<le> i" "i < 64" | "64 \<le> i" "i < 128" | "128 \<le> i" by linarith
  then show ?thesis using \<open>i < 256\<close> by cases (simp_all add: log_2_def nth_append nth_Cons' less_diff_conv2)
qed

lemma log_2_bounds: "0 < i \<Longrightarrow> i < 256 \<Longrightarrow> \<exists>k. log_2 ! i = Suc k \<and> 2 ^ k \<le> i \<and> i < 2 ^ Suc k"
  by (simp add: log_2_nth split: if_splits)

lemma log2_loop_bounds:
  "x \<noteq> 0 \<Longrightarrow> \<exists>k. log2_loop x l = l + 1 + int k \<and> 2 ^ k \<le> unat x \<and> unat x < 2 ^ Suc k"
proof (induction x l rule: log2_loop.induct)
  case (1 x l)
  show ?case
  proof (cases "256 \<le> x")
    case True
    let ?y = "drop_bit 8 x :: u32"
    have y: "unat ?y = unat x div 256" by (simp add: drop_bit_eq_div unat_div)
    have "?y \<noteq> 0" using True y by (auto simp: word_le_nat_alt unat_eq_0 [symmetric])
    from "1.IH" [OF True this] obtain k where
      k: "log2_loop ?y (l + 8) = l + 8 + 1 + int k" "2 ^ k \<le> unat ?y" "unat ?y < 2 ^ Suc k" by blast
    have "2 ^ (k + 8) \<le> unat x" "unat x < 2 ^ Suc (k + 8)"
      using k(2,3) by (simp_all add: y power_add)
    then show ?thesis using k(1) True
      by (intro exI [of _ "k + 8"]) (simp add: log2_loop.simps [of x l])
  next
    case False
    then have "0 < unat x" "unat x < 256" using "1.prems" by (auto simp: word_less_nat_alt word_le_nat_alt unat_gt_0)
    from log_2_bounds [OF this] show ?thesis using False
      by (auto simp: log2_loop.simps [of x l])
  qed
qed

section \<open>Properties\<close>

text \<open>
  The floating point byte rounds up, by at most an eighth, and fits 8 bits: for every size
  \<open>x\<close> below \<open>2 ^ 31\<close>, decoding what \<open>luaO_int2fb\<close> codes is at least \<open>x\<close> and exceeds it by at most
  an eighth of itself.
\<close>

theorem int2fb_rounds_up:
  assumes "x < 2 ^ 31"
  shows "unat x \<le> unat (luaO_fb2int (luaO_int2fb x)) \<and>
    8 * (unat (luaO_fb2int (luaO_int2fb x)) - unat x) \<le> unat (luaO_fb2int (luaO_int2fb x)) \<and>
    luaO_int2fb x < 256 \<and> (x < 16 \<longrightarrow> luaO_fb2int (luaO_int2fb x) = x)"
proof -
  obtain m e where eq: "int2fb_loop x 0 = (m, e)" by fastforce
  have "x < 2 ^ 32 - 1" using assms by (auto simp: word_less_nat_alt)
  note b = int2fb_loop_bounds [OF this eq]
  note r = fb_round [OF assms eq]
  have "x < 16 \<Longrightarrow> m = x \<and> e = 0"
    using eq by (auto simp: int2fb_loop.simps [of x 0] split: if_splits)
  moreover have "8 * (unat m * 2 ^ e - unat x) \<le> unat m * 2 ^ e"
  proof (cases "e = 0")
    case False
    then have "8 * 2 ^ e \<le> unat m * 2 ^ e" using b by (simp add: word_le_nat_alt)
    moreover have "unat m * 2 ^ e < unat x + 2 ^ e" using b by simp
    ultimately show ?thesis by linarith
  qed (use b in simp)
  ultimately show ?thesis using b r by (auto simp: word_unat_eq_iff)
qed

theorem int2fb_rounds_up_witness: "unat (luaO_fb2int (luaO_int2fb 1000)) \<ge> 1000"
  using int2fb_rounds_up [of 1000] by simp

text \<open>
  \<open>luaO_log2\<close> with its table is the binary logarithm rounded down, and -1 at 0;
  \<open>ceillog2\<close> is the logarithm rounded up.
\<close>

theorem log2_correct:
  "luaO_log2 0 = - 1 \<and>
   (x \<noteq> 0 \<longrightarrow> 0 \<le> luaO_log2 x \<and> 2 ^ nat (luaO_log2 x) \<le> unat x \<and> unat x < 2 ^ Suc (nat (luaO_log2 x))) \<and>
   (x \<noteq> 0 \<longrightarrow> 0 \<le> ceillog2 x \<and> unat x \<le> 2 ^ nat (ceillog2 x) \<and>
     (x \<noteq> 1 \<longrightarrow> 2 ^ nat (ceillog2 x - 1) < unat x))"
proof (intro conjI impI)
  show zero: "luaO_log2 0 = - 1" by (simp add: luaO_log2_def log2_loop.simps [of 0] log_2_def)
  have L: "\<exists>k. luaO_log2 y = int k \<and> 2 ^ k \<le> unat y \<and> unat y < 2 ^ Suc k" if "y \<noteq> 0" for y
    using log2_loop_bounds [OF that, of "- 1"] by (simp add: luaO_log2_def)
  {
    assume "x \<noteq> 0"
    from L [OF this] show "0 \<le> luaO_log2 x" "2 ^ nat (luaO_log2 x) \<le> unat x"
      "unat x < 2 ^ Suc (nat (luaO_log2 x))" by auto
  }
  assume x: "x \<noteq> 0"
  have ux: "unat (x - 1) = unat x - 1" using x by (simp add: unat_sub word_le_nat_alt Suc_le_eq unat_gt_0)
  have pos: "0 < unat x" using x by (simp add: unat_gt_0)
  show "0 \<le> ceillog2 x" "unat x \<le> 2 ^ nat (ceillog2 x)"
  proof -
    have "0 \<le> ceillog2 x \<and> unat x \<le> 2 ^ nat (ceillog2 x)"
    proof (cases "x = 1")
      case False
      then have "x - 1 \<noteq> 0" by simp
      from L [OF this] show ?thesis using ux pos by (auto simp: ceillog2_def nat_add_distrib)
    qed (use zero in \<open>simp add: ceillog2_def\<close>)
    then show "0 \<le> ceillog2 x" "unat x \<le> 2 ^ nat (ceillog2 x)" by auto
  qed
  assume "x \<noteq> 1"
  then have "x - 1 \<noteq> 0" by simp
  from L [OF this] show "2 ^ nat (ceillog2 x - 1) < unat x" using ux pos by (auto simp: ceillog2_def)
qed

text \<open>
  What \<open>luaO_chunkid\<close> writes for a chunk's name, with its terminating zero, fits the
  buffer of \<open>bufflen\<close> bytes, for any name and any buffer of at least 18 bytes.
\<close>

theorem chunkid_fits:
  assumes "18 \<le> bufflen"
  shows "length (luaO_chunkid source bufflen) + 1 \<le> unat bufflen"
proof -
  have b: "unat (bufflen - 1) = unat bufflen - 1" "unat (bufflen - 8) = unat bufflen - 8"
    "unat (bufflen - 17) = unat bufflen - 17" "18 \<le> unat bufflen"
    using assms by (simp_all add: unat_sub word_le_nat_alt)
  have "strcspn s r \<le> length s" for s r by (simp add: strcspn_def length_takeWhile_le)
  then show ?thesis using b
    by (auto simp: luaO_chunkid_def ascii_def Let_def min_def split: list.split)
qed

theorem chunkid_fits_witness: "length (luaO_chunkid (replicate 500 65) 60) < 60"
  using chunkid_fits [of 60 "replicate 500 65"] by simp

text \<open>
  \<open>luaO_rawequalObj\<close> is equality of values except on numbers, where it is the comparison of
  doubles: a NaN is not equal to itself and the two zeros are equal.
\<close>

theorem rawequal_correct:
  "luaO_rawequalObj t1 t2 \<longleftrightarrow>
     (case (t1, t2) of (TNumber a, TNumber b) \<Rightarrow> dbl_eq a b | _ \<Rightarrow> t1 = t2)"
  by (cases t1; cases t2) simp_all

end
