(* ===== verification/LuaDebug.thy ===== *)
theory LuaDebug
  imports LuaObject
begin

text \<open>
  The code checker of ldebug.c: \<open>precheck\<close>, \<open>symbexec\<close> and \<open>luaG_checkcode\<close>, and the names of
  values it finds for error messages (\<open>getobjname\<close>, with \<open>luaF_getlocalname\<close> of lfunc.c).

  Reads of \<open>code\<close>, \<open>k\<close> and \<open>p\<close> outside their arrays are the fault \<open>InvalidPointer\<close>. A failed
  check is \<open>Inr None\<close>; \<open>symbexec\<close> turns it into the instruction 0, as the code does. The
  \<open>int\<close>s of the code are integers: they stay within the size of the code plus a field.
\<close>

section \<open>Reading a prototype\<close>

definition at :: "'a list \<Rightarrow> int \<Rightarrow> 'a result" where
  "at xs i = (if 0 \<le> i \<and> i < int (length xs) then Inr (xs ! nat i) else Inl InvalidPointer)"

definition code_at :: "Proto \<Rightarrow> int \<Rightarrow> Instruction result" where
  "code_at pt = at (pcode pt)"

definition sizecode :: "Proto \<Rightarrow> int" where "sizecode pt = int (length (pcode pt))"
definition sizek :: "Proto \<Rightarrow> int" where "sizek pt = int (length (pk pt))"
definition sizep :: "Proto \<Rightarrow> int" where "sizep pt = int (length (pp pt))"
definition maxstack :: "Proto \<Rightarrow> int" where "maxstack pt = uint (pmaxstacksize pt)"

definition is_op :: "OpCode \<Rightarrow> Instruction \<Rightarrow> bool" where
  "is_op op i \<longleftrightarrow> GET_OPCODE i = opcode_num op"

definition MAXSTACK :: int where "MAXSTACK = 250"

section \<open>The checks\<close>

definition precheck :: "Proto \<Rightarrow> bool" where
  "precheck pt \<longleftrightarrow>
     maxstack pt \<le> MAXSTACK \<and>
     uint (pnumparams pt) + uint (pis_vararg pt AND VARARG_HASARG) \<le> maxstack pt \<and>
     (pis_vararg pt AND VARARG_NEEDSARG = 0 \<or> pis_vararg pt AND VARARG_HASARG \<noteq> 0) \<and>
     int (length (pupvalues pt)) \<le> uint (pnups pt) \<and>
     (int (length (plineinfo pt)) = sizecode pt \<or> length (plineinfo pt) = 0) \<and>
     sizecode pt > 0 \<and> is_op OP_RETURN (pcode pt ! nat (sizecode pt - 1))"

definition luaG_checkopenop :: "Instruction \<Rightarrow> bool" where
  "luaG_checkopenop i \<longleftrightarrow>
     (is_op OP_CALL i \<or> is_op OP_TAILCALL i \<or> is_op OP_RETURN i \<or> is_op OP_SETLIST i) \<and> GETARG_B i = 0"

definition checkreg :: "Proto \<Rightarrow> int \<Rightarrow> bool" where
  "checkreg pt reg \<longleftrightarrow> reg < maxstack pt"

fun checkArgMode :: "Proto \<Rightarrow> u32 \<Rightarrow> OpArgMask \<Rightarrow> bool" where
  "checkArgMode pt r OpArgN = (r = 0)"
| "checkArgMode pt r OpArgU = True"
| "checkArgMode pt r OpArgR = checkreg pt (uint r)"
| "checkArgMode pt r OpArgK = (if ISK r then uint (INDEXK r) < sizek pt else uint r < maxstack pt)"

definition check :: "bool \<Rightarrow> 'a option result \<Rightarrow> 'a option result" where
  "check b r = (if b then r else Inr None)"

section \<open>Symbolic execution\<close>

definition setlist_count :: "Instruction \<Rightarrow> bool" where
  "setlist_count d \<longleftrightarrow> is_op OP_SETLIST d \<and> GETARG_C d = 0"

text \<open>How many instructions just before \<open>dest\<close> look like a SETLIST followed by its count.\<close>

fun setlists_before :: "Proto \<Rightarrow> nat \<Rightarrow> nat result" where
  "setlists_before pt 0 = Inr 0"
| "setlists_before pt (Suc d) = rbind (code_at pt (int d)) (\<lambda>i.
     if setlist_count i then rbind (setlists_before pt d) (\<lambda>j. Inr (Suc j)) else Inr 0)"

definition checkargs :: "Proto \<Rightarrow> int \<Rightarrow> Instruction \<Rightarrow> OpCode \<Rightarrow> (int \<times> int) option result" where
  "checkargs pt pc i op =
     (case getOpMode op of
        iABC \<Rightarrow>
          check (checkArgMode pt (GETARG_B i) (getBMode op))
         (check (checkArgMode pt (GETARG_C i) (getCMode op))
         (Inr (Some (uint (GETARG_B i), uint (GETARG_C i)))))
      | iABx \<Rightarrow>
          check (getBMode op \<noteq> OpArgK \<or> uint (GETARG_Bx i) < sizek pt)
         (Inr (Some (uint (GETARG_Bx i), 0)))
      | iAsBx \<Rightarrow>
          let b = sint (GETARG_sBx i) in
          if getBMode op = OpArgR then
            let dest = pc + 1 + b in
            check (0 \<le> dest \<and> dest < sizecode pt)
           (if dest > 0 then rbind (setlists_before pt (nat dest)) (\<lambda>j. check (even j) (Inr (Some (b, 0))))
            else Inr (Some (b, 0)))
          else Inr (Some (b, 0)))"

text \<open>The instructions that follow an OP_CLOSURE, one for each upvalue.\<close>

fun checkpseudo :: "Proto \<Rightarrow> int \<Rightarrow> nat \<Rightarrow> bool result" where
  "checkpseudo pt pc 0 = Inr True"
| "checkpseudo pt pc (Suc n) = rbind (code_at pt (pc + 1)) (\<lambda>i.
     if is_op OP_GETUPVAL i \<or> is_op OP_MOVE i then checkpseudo pt (pc + 1) n else Inr False)"

definition LUA_MULTRET :: int where "LUA_MULTRET = - 1"

definition NO_REG_int :: int where "NO_REG_int = uint NO_REG"

text \<open>
  The \<open>switch\<close> on the opcode: the new \<open>pc\<close> (before the loop's increment) and \<open>last\<close>.
\<close>

definition symbexec_op ::
    "Proto \<Rightarrow> int \<Rightarrow> int \<Rightarrow> int \<Rightarrow> int \<Rightarrow> OpCode \<Rightarrow> int \<Rightarrow> int \<Rightarrow> int \<Rightarrow> (int \<times> int) option result" where
  "symbexec_op pt lastpc reg pc last' op a b c =
     (let done = Inr (Some (pc, last'));
          jump = (let dest = pc + 1 + b in
                  if reg \<noteq> NO_REG_int \<and> pc < dest \<and> dest \<le> lastpc then Inr (Some (pc + b, last')) else done)
      in case op of
        OP_LOADBOOL \<Rightarrow>
          if c = 1 then check (pc + 2 < sizecode pt)
            (rbind (code_at pt (pc + 1)) (\<lambda>i. check (\<not> is_op OP_SETLIST i \<or> GETARG_C i \<noteq> 0) done))
          else done
      | OP_LOADNIL \<Rightarrow> if a \<le> reg \<and> reg \<le> b then Inr (Some (pc, pc)) else done
      | OP_GETUPVAL \<Rightarrow> check (b < uint (pnups pt)) done
      | OP_SETUPVAL \<Rightarrow> check (b < uint (pnups pt)) done
      | OP_GETGLOBAL \<Rightarrow> rbind (at (pk pt) b) (\<lambda>v. check (ttype v = 4) done)
      | OP_SETGLOBAL \<Rightarrow> rbind (at (pk pt) b) (\<lambda>v. check (ttype v = 4) done)
      | OP_SELF \<Rightarrow> check (checkreg pt (a + 1)) (if reg = a + 1 then Inr (Some (pc, pc)) else done)
      | OP_CONCAT \<Rightarrow> check (b < c) done
      | OP_TFORLOOP \<Rightarrow> check (c \<ge> 1) (check (checkreg pt (a + 2 + c))
          (if reg \<ge> a + 2 then Inr (Some (pc, pc)) else done))
      | OP_FORLOOP \<Rightarrow> check (checkreg pt (a + 3)) jump
      | OP_FORPREP \<Rightarrow> check (checkreg pt (a + 3)) jump
      | OP_JMP \<Rightarrow> jump
      | OP_RETURN \<Rightarrow> (let b = b - 1 in check (b \<le> 0 \<or> checkreg pt (a + b - 1)) done)
      | OP_SETLIST \<Rightarrow> check (b \<le> 0 \<or> checkreg pt (a + b))
          (if c = 0 then check (pc + 1 < sizecode pt - 1) (Inr (Some (pc + 1, last'))) else done)
      | OP_CLOSURE \<Rightarrow> check (b < sizep pt) (rbind (at (pp pt) b) (\<lambda>p.
          let nup = uint (pnups p) in
          check (pc + nup < sizecode pt) (rbind (checkpseudo pt pc (nat nup)) (\<lambda>ok. check ok
            (if reg \<noteq> NO_REG_int then Inr (Some (pc + nup, last')) else done)))))
      | OP_VARARG \<Rightarrow>
          check (pis_vararg pt AND VARARG_ISVARARG \<noteq> 0 \<and> pis_vararg pt AND VARARG_NEEDSARG = 0)
         (let b = b - 1 in
          if b = LUA_MULTRET then rbind (code_at pt (pc + 1)) (\<lambda>i. check (luaG_checkopenop i)
            (check (checkreg pt (a + b - 1)) done))
          else check (checkreg pt (a + b - 1)) done)
      | _ \<Rightarrow>
          if op = OP_CALL \<or> op = OP_TAILCALL then
            check (b = 0 \<or> checkreg pt (a + b - 1))
           (let c = c - 1;
                ret = (if reg \<ge> a then Inr (Some (pc, pc)) else done) in
            if c = LUA_MULTRET then rbind (code_at pt (pc + 1)) (\<lambda>i. check (luaG_checkopenop i) ret)
            else check (c = 0 \<or> checkreg pt (a + c - 1)) ret)
          else done)"

text \<open>One round of the loop.\<close>

definition symbexec_step :: "Proto \<Rightarrow> int \<Rightarrow> int \<Rightarrow> int \<Rightarrow> int \<Rightarrow> (int \<times> int) option result" where
  "symbexec_step pt lastpc reg pc last' =
     rbind (code_at pt pc) (\<lambda>i.
     let a = uint (GETARG_A i) in
     case opcode_of (GET_OPCODE i) of
       None \<Rightarrow> Inr None
     | Some op \<Rightarrow>
         check (checkreg pt a)
        (rbind (checkargs pt pc i op) (\<lambda>bc. case bc of None \<Rightarrow> Inr None | Some (b, c) \<Rightarrow>
         let last' = (if testAMode op \<and> a = reg then pc else last') in
         if testTMode op then
           check (pc + 2 < sizecode pt)
          (rbind (code_at pt (pc + 1)) (\<lambda>j. check (is_op OP_JMP j)
            (symbexec_op pt lastpc reg pc last' op a b c)))
         else symbexec_op pt lastpc reg pc last' op a b c)))"



text \<open>The increments of \<open>pc\<close> never go back.\<close>

lemma check_eq: "check b r = Inr (Some x) \<longleftrightarrow> b \<and> r = Inr (Some x)"
  by (simp add: check_def)

lemma symbexec_op_forward:
  assumes "symbexec_op pt lastpc reg pc last' op a b c = Inr (Some (pc', l'))"
  shows "pc \<le> pc' \<and> (l' = last' \<or> l' = pc)"
  using assms
  by (cases op) (auto simp: symbexec_op_def check_eq rbind_eq_Inr Let_def split: if_splits)

lemma symbexec_step_forward:
  assumes "symbexec_step pt lastpc reg pc last' = Inr (Some (pc', l'))"
  shows "pc \<le> pc' \<and> (l' = last' \<or> l' = pc)"
  using assms symbexec_op_forward
  by (auto simp: symbexec_step_def check_eq rbind_eq_Inr Let_def split: option.splits if_splits; blast)

function symbexec_loop :: "Proto \<Rightarrow> int \<Rightarrow> int \<Rightarrow> int \<Rightarrow> int \<Rightarrow> Instruction option result" where
  "symbexec_loop pt lastpc reg pc last' =
     (if pc < lastpc then
        case symbexec_step pt lastpc reg pc last' of
          Inl e \<Rightarrow> Inl e
        | Inr None \<Rightarrow> Inr None
        | Inr (Some (pc', l')) \<Rightarrow> symbexec_loop pt lastpc reg (pc' + 1) l'
      else rbind (code_at pt last') (\<lambda>i. Inr (Some i)))"
  by auto
termination
  by (relation "measure (\<lambda>(pt, lastpc, reg, pc, l). nat (lastpc - pc))")
    (auto dest!: symbexec_step_forward)

declare symbexec_loop.simps [simp del]

definition symbexec :: "Proto \<Rightarrow> int \<Rightarrow> int \<Rightarrow> Instruction result" where
  "symbexec pt lastpc reg =
     (if precheck pt then
        rbind (symbexec_loop pt lastpc reg 0 (sizecode pt - 1)) (\<lambda>r. Inr (case r of None \<Rightarrow> 0 | Some i \<Rightarrow> i))
      else Inr 0)"

definition luaG_checkcode :: "Proto \<Rightarrow> bool result" where
  "luaG_checkcode pt = rbind (symbexec pt (sizecode pt) NO_REG_int) (\<lambda>i. Inr (i \<noteq> 0))"


section \<open>No read is out of bounds\<close>

lemma isl_simps:
  "isl (at xs i) \<longleftrightarrow> \<not> (0 \<le> i \<and> i < int (length xs))"
  "isl (code_at pt i) \<longleftrightarrow> \<not> (0 \<le> i \<and> i < sizecode pt)"
  "isl (rbind r f) \<longleftrightarrow> isl r \<or> isl (f (projr r))"
  "isl (check b r') \<longleftrightarrow> b \<and> isl r'"
  by (simp_all add: at_def code_at_def sizecode_def check_def rbind_def split: sum.split)

lemma code_at_eq: "code_at pt i = Inr x \<longleftrightarrow> 0 \<le> i \<and> i < sizecode pt \<and> x = pcode pt ! nat i"
  by (auto simp: code_at_def at_def sizecode_def)

lemma setlists_before_ok: "int d \<le> sizecode pt \<Longrightarrow> \<not> isl (setlists_before pt d)"
  by (induction d) (simp_all add: isl_simps)

lemma checkpseudo_ok: "0 \<le> pc \<Longrightarrow> pc + int n < sizecode pt \<Longrightarrow> \<not> isl (checkpseudo pt pc n)"
  by (induction n arbitrary: pc) (simp_all add: isl_simps)

lemma checkargs_ok: "\<not> isl (checkargs pt pc i op)"
  by (simp add: checkargs_def Let_def isl_simps setlists_before_ok split: OpMode.split)

lemma checkargs_k:
  "checkargs pt pc i op = Inr (Some (b, c)) \<Longrightarrow> op = OP_GETGLOBAL \<or> op = OP_SETGLOBAL \<Longrightarrow> 0 \<le> b \<and> b < sizek pt"
  by (auto simp: checkargs_def check_eq mode_simps getBMode_def arg_mask_def opmode_def)

lemma checkargs_nonneg:
  "checkargs pt pc i op = Inr (Some (b, c)) \<Longrightarrow> getOpMode op \<noteq> iAsBx \<Longrightarrow> 0 \<le> b"
  by (cases "getOpMode op") (auto simp: checkargs_def check_eq)

text \<open>Only an OP_RETURN stands at the end of the code.\<close>

lemma opcode_of_eq: "opcode_of x = Some op \<longleftrightarrow> x = opcode_num op"
proof
  assume "opcode_of x = Some op"
  then have x: "unat x < 38" "op = opcodes ! unat x" by (auto simp: opcode_of_def NUM_OPCODES_def split: if_splits)
  have idx: "index_of (opcodes ! n) opcodes = n" if "n < 38" for n
  proof -
    have ii: "distinct ys \<Longrightarrow> m < length ys \<Longrightarrow> index_of (ys ! m) ys = m" for ys :: "OpCode list" and m
      by (induction ys arbitrary: m) (auto simp: nth_Cons split: nat.splits)
    have "distinct opcodes" by (simp add: opcodes_def)
    moreover have "length opcodes = 38" by (simp add: opcodes_def)
    ultimately show ?thesis using that ii by simp
  qed
  show "x = opcode_num op" using idx [OF x(1)] by (simp add: opcode_num_def x(2))
qed (simp add: opcode_of_num)

lemma opcode_num_inj: "opcode_num op = opcode_num op' \<longleftrightarrow> op = op'"
  by (metis opcode_of_num option.inject)

lemma is_op_opcode: "opcode_of (GET_OPCODE i) = Some op \<Longrightarrow> is_op op' i \<longleftrightarrow> op = op'"
  by (auto simp: opcode_of_eq is_op_def opcode_num_inj)

lemma not_at_end:
  assumes "precheck pt" and "code_at pt pc = Inr i" and "opcode_of (GET_OPCODE i) = Some op" and "op \<noteq> OP_RETURN"
  shows "pc + 1 < sizecode pt"
proof (rule ccontr)
  assume "\<not> ?thesis"
  then have "pc = sizecode pt - 1" using assms(2) by (auto simp: code_at_eq)
  then have "is_op OP_RETURN i" using assms(1,2) by (simp add: precheck_def code_at_eq)
  then show False using is_op_opcode [OF assms(3)] assms(4) by simp
qed

lemma symbexec_op_ok:
  assumes "precheck pt" and "code_at pt pc = Inr i" and "opcode_of (GET_OPCODE i) = Some op"
    and "checkargs pt pc i op = Inr (Some (b, c))"
  shows "\<not> isl (symbexec_op pt lastpc reg pc last' op a b c)"
proof -
  have pc: "0 \<le> pc" using assms(2) by (simp add: code_at_eq)
  have nx: "op \<noteq> OP_RETURN \<Longrightarrow> pc + 1 < sizecode pt" using not_at_end [OF assms(1-3)] .
  have k: "op = OP_GETGLOBAL \<or> op = OP_SETGLOBAL \<Longrightarrow> 0 \<le> b \<and> b < int (length (pk pt))"
    using checkargs_k [OF assms(4)] by (simp add: sizek_def)
  have cl: "op = OP_CLOSURE \<Longrightarrow> 0 \<le> b" using checkargs_nonneg [OF assms(4)] by (simp add: mode_simps)
  have ps: "pc + uint n < sizecode pt \<Longrightarrow> \<not> isl (checkpseudo pt pc (unat n))" for n :: u8
    using pc checkpseudo_ok [of pc "unat n" pt] by simp
  show ?thesis
    using pc nx k cl
    by (cases op) (simp_all add: symbexec_op_def Let_def isl_simps ps sizep_def)
qed

lemma symbexec_step_ok:
  assumes "precheck pt" and "0 \<le> pc" and "pc < sizecode pt"
  shows "\<not> isl (symbexec_step pt lastpc reg pc last')"
proof -
  obtain i where i: "code_at pt pc = Inr i" using assms(2,3) by (simp add: code_at_eq)
  have "\<not> isl (case projr (checkargs pt pc i op) of None \<Rightarrow> Inr None | Some (b, c) \<Rightarrow>
      if testTMode op then check (pc + 2 < sizecode pt) (rbind (code_at pt (pc + 1)) (\<lambda>j. check (is_op OP_JMP j)
        (symbexec_op pt lastpc reg pc l op (uint (GETARG_A i)) b c)))
      else symbexec_op pt lastpc reg pc l op (uint (GETARG_A i)) b c)"
    if "opcode_of (GET_OPCODE i) = Some op" for op l
  proof (cases "checkargs pt pc i op")
    case (Inr r)
    with symbexec_op_ok [OF assms(1) i that] assms(2) show ?thesis
      by (auto simp: isl_simps split: option.split)
  qed (use checkargs_ok [of pt pc i op] in simp)
  then show ?thesis
    by (auto simp: symbexec_step_def i Let_def isl_simps checkargs_ok split: option.split)
qed

lemma symbexec_loop_ok:
  assumes "precheck pt" and "lastpc \<le> sizecode pt" and "0 \<le> pc" and "0 \<le> last'" and "last' < sizecode pt"
  shows "\<not> isl (symbexec_loop pt lastpc reg pc last')"
  using assms
proof (induction pt lastpc reg pc last' rule: symbexec_loop.induct)
  case (1 pt lastpc reg pc last')
  show ?case
  proof (cases "pc < lastpc")
    case False
    then show ?thesis using "1.prems" by (simp add: symbexec_loop.simps [of pt lastpc reg pc] isl_simps)
  next
    case True
    have ok: "\<not> isl (symbexec_step pt lastpc reg pc last')"
      using "1.prems" True by (intro symbexec_step_ok) auto
    show ?thesis
    proof (cases "symbexec_step pt lastpc reg pc last'")
      case (Inr r)
      show ?thesis
      proof (cases r)
        case (Some pl)
        obtain pc' l' where pl: "pl = (pc', l')" by (cases pl)
        have s: "symbexec_step pt lastpc reg pc last' = Inr (Some (pc', l'))" using Inr Some pl by simp
        have "pc \<le> pc'" "l' = last' \<or> l' = pc" using symbexec_step_forward [OF s] by auto
        then have "\<not> isl (symbexec_loop pt lastpc reg (pc' + 1) l')"
          using "1.prems" True by (intro "1.IH" [OF True Inr Some pl [symmetric]]) auto
        then show ?thesis using True s by (simp add: symbexec_loop.simps [of pt lastpc reg pc])
      qed (use True Inr in \<open>simp add: symbexec_loop.simps [of pt lastpc reg pc]\<close>)
    qed (use ok in simp)
  qed
qed

lemma symbexec_ok:
  assumes "lastpc \<le> sizecode pt"
  shows "\<not> isl (symbexec pt lastpc reg)"
proof (cases "precheck pt")
  case True
  then have "0 < sizecode pt" by (simp add: precheck_def)
  with True assms have "\<not> isl (symbexec_loop pt lastpc reg 0 (sizecode pt - 1))"
    by (intro symbexec_loop_ok) auto
  then show ?thesis by (simp add: symbexec_def isl_simps)
qed (simp add: symbexec_def)

section \<open>What a successful check means\<close>

text \<open>The positions of instructions: the word after a SETLIST with \<open>C = 0\<close> is its count.\<close>

inductive instr_at :: "Proto \<Rightarrow> int \<Rightarrow> bool" for pt where
  start: "0 < sizecode pt \<Longrightarrow> instr_at pt 0"
| next_instr: "instr_at pt pc \<Longrightarrow> \<not> setlist_count (pcode pt ! nat pc) \<Longrightarrow> pc + 1 < sizecode pt \<Longrightarrow> instr_at pt (pc + 1)"
| skip: "instr_at pt pc \<Longrightarrow> setlist_count (pcode pt ! nat pc) \<Longrightarrow> pc + 2 < sizecode pt \<Longrightarrow> instr_at pt (pc + 2)"

lemma instr_at_range: "instr_at pt pc \<Longrightarrow> 0 \<le> pc \<and> pc < sizecode pt"
  by (induction rule: instr_at.induct) auto

lemma step_cases:
  assumes "symbexec_step pt lastpc reg pc last' = Inr (Some (pc', l'))"
  obtains i op b c lx where "code_at pt pc = Inr i" and "opcode_of (GET_OPCODE i) = Some op"
    and "checkreg pt (uint (GETARG_A i))" and "checkargs pt pc i op = Inr (Some (b, c))"
    and "lx = (if testAMode op \<and> uint (GETARG_A i) = reg then pc else last')"
    and "testTMode op \<longrightarrow> pc + 2 < sizecode pt \<and> is_op OP_JMP (pcode pt ! nat (pc + 1))"
    and "symbexec_op pt lastpc reg pc lx op (uint (GETARG_A i)) b c = Inr (Some (pc', l'))"
proof -
  let ?R = "\<lambda>i op b c. let lx = (if testAMode op \<and> uint (GETARG_A i) = reg then pc else last') in
      if testTMode op then check (pc + 2 < sizecode pt)
        (rbind (code_at pt (pc + 1)) (\<lambda>j. check (is_op OP_JMP j)
          (symbexec_op pt lastpc reg pc lx op (uint (GETARG_A i)) b c)))
      else symbexec_op pt lastpc reg pc lx op (uint (GETARG_A i)) b c"
  obtain i where i: "code_at pt pc = Inr i"
    using assms by (auto simp: symbexec_step_def rbind_eq_Inr)
  obtain op where op: "opcode_of (GET_OPCODE i) = Some op"
    using assms by (auto simp: symbexec_step_def i Let_def split: option.splits)
  have A: "checkreg pt (uint (GETARG_A i))"
    using assms by (auto simp: symbexec_step_def i op check_eq Let_def)
  obtain b c where args: "checkargs pt pc i op = Inr (Some (b, c))" and R: "?R i op b c = Inr (Some (pc', l'))"
    using assms by (auto simp: symbexec_step_def i op check_eq Let_def rbind_eq_Inr split: option.splits)
  show ?thesis
    using that [OF i op A args refl] R
    by (auto simp: Let_def check_eq rbind_eq_Inr code_at_eq split: if_splits)
qed

lemma checkargs_ABC:
  "checkargs pt pc i op = Inr (Some (b, c)) \<Longrightarrow> getOpMode op = iABC \<Longrightarrow>
    b = uint (GETARG_B i) \<and> c = uint (GETARG_C i) \<and> checkArgMode pt (GETARG_B i) (getBMode op) \<and>
    checkArgMode pt (GETARG_C i) (getCMode op)"
  by (auto simp: checkargs_def check_eq)

lemma step_pc:
  assumes "symbexec_step pt lastpc NO_REG_int pc last' = Inr (Some (pc', l'))"
  shows "pc' = (if setlist_count (pcode pt ! nat pc) then pc + 1 else pc)"
  using assms
proof (rule step_cases)
  fix i op b c lx
  assume i: "code_at pt pc = Inr i" and op: "opcode_of (GET_OPCODE i) = Some op"
    and args: "checkargs pt pc i op = Inr (Some (b, c))"
    and s: "symbexec_op pt lastpc NO_REG_int pc lx op (uint (GETARG_A i)) b c = Inr (Some (pc', l'))"
  have eq: "pcode pt ! nat pc = i" using i by (simp add: code_at_eq)
  show ?thesis
  proof (cases "op = OP_SETLIST")
    case True
    then have "c = uint (GETARG_C i)" using checkargs_ABC [OF args] by (simp add: mode_simps)
    then show ?thesis using s True op
      by (auto simp: eq symbexec_op_def Let_def check_eq setlist_count_def is_op_opcode uint_0_iff split: if_splits)
  next
    case False
    then have "\<not> setlist_count i" using op by (simp add: setlist_count_def is_op_opcode)
    moreover have "pc' = pc" using s False
      by (cases op) (auto simp: symbexec_op_def Let_def check_eq rbind_eq_Inr split: if_splits)
    ultimately show ?thesis using eq by simp
  qed
qed

lemma loop_unfold:
  assumes "symbexec_loop pt lastpc reg pc last' = Inr (Some x)" and "pc < lastpc"
  obtains pc' l' where "symbexec_step pt lastpc reg pc last' = Inr (Some (pc', l'))"
    and "symbexec_loop pt lastpc reg (pc' + 1) l' = Inr (Some x)"
  using assms by (auto simp: symbexec_loop.simps [of pt lastpc reg pc] split: sum.splits option.splits)

lemma loop_visits:
  assumes "symbexec_loop pt (sizecode pt) NO_REG_int 0 l = Inr (Some x)" and "instr_at pt pc"
  shows "\<exists>l. symbexec_loop pt (sizecode pt) NO_REG_int pc l = Inr (Some x)"
  using assms(2)
proof (induction rule: instr_at.induct)
  case start
  then show ?case using assms(1) by blast
next
  case (next_instr pc)
  then obtain l where l: "symbexec_loop pt (sizecode pt) NO_REG_int pc l = Inr (Some x)" by blast
  have "pc < sizecode pt" using instr_at_range [OF next_instr.hyps(1)] by simp
  with l obtain pc' l' where "symbexec_step pt (sizecode pt) NO_REG_int pc l = Inr (Some (pc', l'))"
    and "symbexec_loop pt (sizecode pt) NO_REG_int (pc' + 1) l' = Inr (Some x)" by (rule loop_unfold)
  then show ?case using step_pc [of pt _ pc l pc' l'] next_instr.hyps(2) by auto
next
  case (skip pc)
  then obtain l where l: "symbexec_loop pt (sizecode pt) NO_REG_int pc l = Inr (Some x)" by blast
  have "pc < sizecode pt" using instr_at_range [OF skip.hyps(1)] by simp
  with l obtain pc' l' where "symbexec_step pt (sizecode pt) NO_REG_int pc l = Inr (Some (pc', l'))"
    and "symbexec_loop pt (sizecode pt) NO_REG_int (pc' + 1) l' = Inr (Some x)" by (rule loop_unfold)
  moreover from this step_pc [OF this(1)] skip.hyps(2) have "pc' + 1 = pc + 2" by simp
  ultimately show ?case by auto
qed


lemma instr_or_count:
  assumes "d < nat (sizecode pt)"
  shows "instr_at pt (int d) \<or> (0 < d \<and> instr_at pt (int d - 1) \<and> setlist_count (pcode pt ! (d - 1)))"
  using assms
proof (induction d)
  case 0
  then show ?case by (auto intro: instr_at.start)
next
  case (Suc d)
  then consider "instr_at pt (int d)" | "0 < d" "instr_at pt (int d - 1)" "setlist_count (pcode pt ! (d - 1))"
    by force
  then show ?case
  proof cases
    case 1
    then show ?thesis using Suc.prems instr_at.next_instr [OF 1] by (cases "setlist_count (pcode pt ! d)") (auto simp: add.commute)
  next
    case 2
    then have "instr_at pt (int d - 1 + 2)"
      using Suc.prems by (intro instr_at.skip) (auto simp: nat_diff_distrib')
    then show ?thesis by (simp add: add.commute)
  qed
qed

text \<open>An even number of look-alikes before a position means it is no count.\<close>

lemma setlists_before_instr:
  assumes "setlists_before pt d = Inr j" and "d < nat (sizecode pt)"
  shows "(even j \<longrightarrow> instr_at pt (int d)) \<and>
    (odd j \<longrightarrow> 0 < d \<and> instr_at pt (int d - 1) \<and> setlist_count (pcode pt ! (d - 1)))"
  using assms
proof (induction d arbitrary: j)
  case 0
  then show ?case by (auto intro: instr_at.start)
next
  case (Suc d)
  show ?case
  proof (cases "setlist_count (pcode pt ! d)")
    case False
    then have "j = 0" using Suc.prems(1) by (auto simp: rbind_eq_Inr code_at_eq)
    then show ?thesis using instr_or_count [OF Suc.prems(2)] False by simp
  next
    case True
    then obtain j' where j': "setlists_before pt d = Inr j'" "j = Suc j'"
      using Suc.prems(1) by (auto simp: rbind_eq_Inr code_at_eq)
    have IH: "even j' \<Longrightarrow> instr_at pt (int d)"
      "odd j' \<Longrightarrow> 0 < d \<and> instr_at pt (int d - 1) \<and> setlist_count (pcode pt ! (d - 1))"
      using Suc.IH [OF j'(1)] Suc.prems(2) by auto
    show ?thesis
    proof (cases "even j'")
      case False
      then have "instr_at pt (int d - 1 + 2)"
        using Suc.prems(2) IH(2) by (intro instr_at.skip) (auto simp: nat_diff_distrib')
      then show ?thesis using False j'(2) by (simp add: add.commute)
    qed (use True IH(1) j'(2) in auto)
  qed
qed

lemma checkargs_jump:
  assumes "checkargs pt pc i op = Inr (Some (b, c))" and "getOpMode op = iAsBx"
  shows "b = sint (GETARG_sBx i) \<and> instr_at pt (pc + 1 + b)"
proof -
  have "getBMode op = OpArgR"
    using assms(2) by (cases op) (simp_all add: getBMode_def getOpMode_def arg_mask_def opmode_def)
  then have b: "b = sint (GETARG_sBx i)" "0 \<le> pc + 1 + b" "pc + 1 + b < sizecode pt"
    and j: "pc + 1 + b > 0 \<Longrightarrow> \<exists>j. setlists_before pt (nat (pc + 1 + b)) = Inr j \<and> even j"
    using assms by (auto simp: checkargs_def check_eq rbind_eq_Inr Let_def split: if_splits)
  show ?thesis
  proof (cases "pc + 1 + b > 0")
    case True
    then obtain j where "setlists_before pt (nat (pc + 1 + b)) = Inr j" "even j" using j by blast
    with setlists_before_instr [OF this(1)] b show ?thesis by auto
  next
    case False
    then have "pc + 1 + b = 0" using b by simp
    then show ?thesis using b by (auto intro: instr_at.start)
  qed
qed

text \<open>With no register traced, \<open>last\<close> never points to a MOVE.\<close>

lemma NO_REG_int_eq [simp]: "NO_REG_int = 255"
  by (simp add: NO_REG_int_def NO_REG_def MAXARG_A_def)

lemma step_last:
  assumes "symbexec_step pt lastpc NO_REG_int pc last' = Inr (Some (pc', l'))" and "precheck pt"
  shows "l' = last' \<or> (l' = pc \<and> pcode pt ! nat pc \<noteq> 0)"
  using assms(1)
proof (rule step_cases)
  fix i op b c lx
  assume i: "code_at pt pc = Inr i" and op: "opcode_of (GET_OPCODE i) = Some op"
    and A: "checkreg pt (uint (GETARG_A i))"
    and args: "checkargs pt pc i op = Inr (Some (b, c))"
    and lx: "lx = (if testAMode op \<and> uint (GETARG_A i) = NO_REG_int then pc else last')"
    and s: "symbexec_op pt lastpc NO_REG_int pc lx op (uint (GETARG_A i)) b c = Inr (Some (pc', l'))"
  have "uint (GETARG_A i) \<noteq> NO_REG_int"
    using A assms(2) by (auto simp: checkreg_def precheck_def MAXSTACK_def)
  then have lx: "lx = last'" using lx by simp
  show ?thesis
  proof (cases "op = OP_MOVE")
    case True
    then have "l' = last'" using s lx by (simp add: symbexec_op_def Let_def)
    then show ?thesis ..
  next
    case False
    have "i \<noteq> 0"
    proof
      assume "i = 0"
      then have "GET_OPCODE i = opcode_num OP_MOVE"
        by (simp add: GET_OPCODE_def get_field_def opcode_num_def opcodes_def)
      then show False using op False by (simp add: opcode_of_num)
    qed
    then show ?thesis using symbexec_op_forward [OF s] lx i by (auto simp: code_at_eq)
  qed
qed


text \<open>What \<open>last\<close> points to in the end was pointed to at the start or set by some step.\<close>

lemma loop_last:
  assumes "symbexec_loop pt lastpc reg pc last' = Inr (Some x)"
    and "P (pcode pt ! nat last')"
    and "\<And>pc l pc' l'. symbexec_step pt lastpc reg pc l = Inr (Some (pc', l')) \<Longrightarrow>
      l' = l \<or> (l' = pc \<and> P (pcode pt ! nat pc))"
  shows "P x"
  using assms
proof (induction pt lastpc reg pc last' rule: symbexec_loop.induct)
  case (1 pt lastpc reg pc last')
  show ?case
  proof (cases "pc < lastpc")
    case False
    then show ?thesis using "1.prems"
      by (simp add: symbexec_loop.simps [of pt lastpc _ pc] rbind_eq_Inr code_at_eq)
  next
    case True
    from "1.prems"(1) True obtain pc' l' where s: "symbexec_step pt lastpc reg pc last' = Inr (Some (pc', l'))"
      and l: "symbexec_loop pt lastpc reg (pc' + 1) l' = Inr (Some x)" by (rule loop_unfold)
    have "P (pcode pt ! nat l')" using "1.prems"(3) [OF s] "1.prems"(2) by auto
    from "1.IH" [OF True s refl refl l this] "1.prems"(3) show ?thesis .
  qed
qed

lemma checkcode_iff:
  "luaG_checkcode pt = Inr True \<longleftrightarrow>
     precheck pt \<and> (\<exists>i. symbexec_loop pt (sizecode pt) NO_REG_int 0 (sizecode pt - 1) = Inr (Some i))"
proof -
  have "i \<noteq> 0" if "precheck pt" "symbexec_loop pt (sizecode pt) NO_REG_int 0 (sizecode pt - 1) = Inr (Some i)" for i
  proof (rule loop_last [OF that(2), where P = "\<lambda>i. i \<noteq> 0", OF _ step_last [OF _ that(1)]])
    have "is_op OP_RETURN (pcode pt ! nat (sizecode pt - 1))" using that(1) by (simp add: precheck_def)
    then show "pcode pt ! nat (sizecode pt - 1) \<noteq> 0"
      by (auto simp: is_op_def GET_OPCODE_def get_field_def opcode_num_def opcodes_def)
  qed
  then show ?thesis
    by (fastforce simp: luaG_checkcode_def symbexec_def rbind_eq_Inr split: option.splits if_splits)
qed

lemma checked_step:
  assumes "luaG_checkcode pt = Inr True" and "instr_at pt pc"
  obtains l pc' l' where "symbexec_step pt (sizecode pt) NO_REG_int pc l = Inr (Some (pc', l'))"
proof -
  obtain x where "symbexec_loop pt (sizecode pt) NO_REG_int 0 (sizecode pt - 1) = Inr (Some x)"
    using assms(1) by (auto simp: checkcode_iff)
  from loop_visits [OF this assms(2)] obtain l where "symbexec_loop pt (sizecode pt) NO_REG_int pc l = Inr (Some x)" ..
  then show thesis using instr_at_range [OF assms(2)] that by (blast elim: loop_unfold)
qed

section \<open>Names of values\<close>

text \<open>
  The register traced: if what is found is a MOVE, it is a MOVE to that register (or the
  instruction 0 of a failed check).
\<close>

lemma step_move:
  assumes "symbexec_step pt lastpc reg pc last' = Inr (Some (pc', l'))"
  shows "l' = last' \<or> (l' = pc \<and> (is_op OP_MOVE (pcode pt ! nat pc) \<longrightarrow> uint (GETARG_A (pcode pt ! nat pc)) = reg))"
  using assms
proof (rule step_cases)
  fix i op b c lx
  assume i: "code_at pt pc = Inr i" and op: "opcode_of (GET_OPCODE i) = Some op"
    and lx: "lx = (if testAMode op \<and> uint (GETARG_A i) = reg then pc else last')"
    and s: "symbexec_op pt lastpc reg pc lx op (uint (GETARG_A i)) b c = Inr (Some (pc', l'))"
  have eq: "pcode pt ! nat pc = i" using i by (simp add: code_at_eq)
  have isop: "is_op op' i \<longleftrightarrow> op = op'" for op' using is_op_opcode [OF op] .
  show ?thesis
  proof (cases "op = OP_MOVE")
    case True
    then have "l' = lx" using s by (simp add: symbexec_op_def Let_def)
    then show ?thesis unfolding eq lx by auto
  next
    case False
    have "l' = last' \<or> l' = pc" using symbexec_op_forward [OF s] lx by (simp split: if_splits)
    moreover have "\<not> is_op OP_MOVE i" using isop False by blast
    ultimately show ?thesis unfolding eq by blast
  qed
qed

text \<open>
  What symbolic execution returns: 0 for failed checks, the final RETURN if no instruction
  changed the register, or an instruction that did and passed its checks.
\<close>

lemma symbexec_last:
  assumes "symbexec pt lastpc reg = Inr i"
    and "\<And>pc l pc' l'. symbexec_step pt lastpc reg pc l = Inr (Some (pc', l')) \<Longrightarrow>
      l' = l \<or> (l' = pc \<and> P (pcode pt ! nat pc))"
  shows "i = 0 \<or> is_op OP_RETURN i \<or> P i"
proof (cases "precheck pt")
  case True
  then have "is_op OP_RETURN (pcode pt ! nat (sizecode pt - 1))" by (simp add: precheck_def)
  then have fin: "is_op OP_RETURN (pcode pt ! nat (sizecode pt - 1)) \<or> P (pcode pt ! nat (sizecode pt - 1))" ..
  obtain r where r: "symbexec_loop pt lastpc reg 0 (sizecode pt - 1) = Inr r" "i = (case r of None \<Rightarrow> 0 | Some i \<Rightarrow> i)"
    using assms(1) True by (auto simp: symbexec_def rbind_eq_Inr)
  show ?thesis
  proof (cases r)
    case (Some x)
    with r(1) have "symbexec_loop pt lastpc reg 0 (sizecode pt - 1) = Inr (Some x)" by simp
    from loop_last [where P = "\<lambda>i. is_op OP_RETURN i \<or> P i", OF this fin] assms(2)
    have "is_op OP_RETURN x \<or> P x" by blast
    then show ?thesis using r(2) Some by simp
  qed (use r(2) in simp)
qed (use assms in \<open>simp add: symbexec_def\<close>)

lemma symbexec_move:
  assumes "symbexec pt lastpc reg = Inr i" and "is_op OP_MOVE i"
  shows "i = 0 \<or> uint (GETARG_A i) = reg"
  using symbexec_last [OF assms(1), where P = "\<lambda>i. is_op OP_MOVE i \<longrightarrow> uint (GETARG_A i) = reg", OF step_move]
    assms(2) by (auto simp: is_op_def opcode_num_inj)

text \<open>\<open>luaF_getlocalname\<close>: the \<open>n\<close>th variable active at \<open>pc\<close>.\<close>

fun getlocalname_loop :: "LocVar list \<Rightarrow> int \<Rightarrow> int \<Rightarrow> bytes option" where
  "getlocalname_loop [] local_number pc = None"
| "getlocalname_loop (v # vs) local_number pc =
     (if sint (startpc v) \<le> pc then
        if pc < sint (endpc v) then
          if local_number - 1 = 0 then varname v else getlocalname_loop vs (local_number - 1) pc
        else getlocalname_loop vs local_number pc
      else None)"

definition luaF_getlocalname :: "Proto \<Rightarrow> int \<Rightarrow> int \<Rightarrow> bytes option" where
  "luaF_getlocalname f = getlocalname_loop (plocvars f)"

definition kname :: "Proto \<Rightarrow> u32 \<Rightarrow> bytes result" where
  "kname p c =
     (if ISK c then rbind (at (pk p) (uint (INDEXK c))) (\<lambda>v.
        case v of TString s \<Rightarrow> Inr s | _ \<Rightarrow> Inr (ascii ''?''))
      else Inr (ascii ''?''))"

text \<open>
  \<open>getobjname\<close> for an active Lua function whose prototype is \<open>p\<close>, stopped at \<open>pc\<close>: the kind of
  the value in a stack position and its name. A missing upvalue name is the fault of the null
  pointer that \<open>getstr\<close> would get.
\<close>

function getobjname :: "Proto \<Rightarrow> int \<Rightarrow> int \<Rightarrow> (string \<times> bytes) option result" where
  "getobjname p pc stackpos =
     (case luaF_getlocalname p (stackpos + 1) pc of
        Some n \<Rightarrow> Inr (Some (''local'', n))
      | None \<Rightarrow>
          (case symbexec p pc stackpos of
             Inl e \<Rightarrow> Inl e
           | Inr i \<Rightarrow>
               if is_op OP_GETGLOBAL i then
                 rbind (at (pk p) (uint (GETARG_Bx i))) (\<lambda>v. case v of
                   TString s \<Rightarrow> Inr (Some (''global'', s)) | _ \<Rightarrow> Inl UnionMismatch)
               else if is_op OP_MOVE i then
                 if GETARG_B i < GETARG_A i then getobjname p pc (uint (GETARG_B i)) else Inr None
               else if is_op OP_GETTABLE i then
                 rbind (kname p (GETARG_C i)) (\<lambda>n. Inr (Some (''field'', n)))
               else if is_op OP_GETUPVAL i then
                 if pupvalues p = [] then Inr (Some (''upvalue'', ascii ''?''))
                 else rbind (at (pupvalues p) (uint (GETARG_B i))) (\<lambda>n. case n of
                   Some s \<Rightarrow> Inr (Some (''upvalue'', s)) | None \<Rightarrow> Inl InvalidPointer)
               else if is_op OP_SELF i then
                 rbind (kname p (GETARG_C i)) (\<lambda>n. Inr (Some (''method'', n)))
               else Inr None))"
  by auto
termination
proof (relation "measure (\<lambda>(p, pc, stackpos). nat stackpos)")
  fix p pc stackpos i
  assume s: "symbexec p pc stackpos = Inr i" and m: "is_op OP_MOVE i" and l: "GETARG_B i < GETARG_A i"
  have "i \<noteq> 0" using l by (auto simp: GETARG_A_def GETARG_B_def get_field_def)
  then have "stackpos = uint (GETARG_A i)" using symbexec_move [OF s m] by simp
  then show "((p, pc, uint (GETARG_B i)), (p, pc, stackpos)) \<in> measure (\<lambda>(p, pc, stackpos). nat stackpos)"
    using l by (simp add: word_less_nat_alt)
qed simp

declare getobjname.simps [simp del]

definition names_ok :: "Proto \<Rightarrow> Instruction \<Rightarrow> bool" where
  "names_ok pt i \<longleftrightarrow>
     (is_op OP_GETGLOBAL i \<longrightarrow> (\<exists>s. at (pk pt) (uint (GETARG_Bx i)) = Inr (TString s))) \<and>
     (is_op OP_GETTABLE i \<or> is_op OP_SELF i \<longrightarrow> \<not> isl (kname pt (GETARG_C i))) \<and>
     (is_op OP_GETUPVAL i \<longrightarrow> uint (GETARG_B i) < uint (pnups pt))"

lemma kname_ok: "checkArgMode pt c OpArgK \<Longrightarrow> \<not> isl (kname pt c)"
  by (auto simp: kname_def isl_simps sizek_def split: if_splits TValue.split)

lemma step_names:
  assumes "symbexec_step pt lastpc reg pc last' = Inr (Some (pc', l'))"
  shows "l' = last' \<or> (l' = pc \<and> names_ok pt (pcode pt ! nat pc))"
  using assms
proof (rule step_cases)
  fix i op b c lx
  assume i: "code_at pt pc = Inr i" and op: "opcode_of (GET_OPCODE i) = Some op"
    and args: "checkargs pt pc i op = Inr (Some (b, c))"
    and lx: "lx = (if testAMode op \<and> uint (GETARG_A i) = reg then pc else last')"
    and s: "symbexec_op pt lastpc reg pc lx op (uint (GETARG_A i)) b c = Inr (Some (pc', l'))"
  have isop: "is_op op' i \<longleftrightarrow> op = op'" for op' using is_op_opcode [OF op] .
  have eq: "pcode pt ! nat pc = i" using i by (simp add: code_at_eq)
  have C: "op = OP_GETTABLE \<or> op = OP_SELF \<Longrightarrow> checkArgMode pt (GETARG_C i) OpArgK"
    using checkargs_ABC [OF args] by (auto simp: mode_simps getCMode_def arg_mask_def opmode_def)
  have U: "op = OP_GETUPVAL \<Longrightarrow> uint (GETARG_B i) < uint (pnups pt)"
    using s checkargs_ABC [OF args] by (auto simp: symbexec_op_def check_eq mode_simps)
  have G: "\<exists>str. at (pk pt) (uint (GETARG_Bx i)) = Inr (TString str)" if gl: "op = OP_GETGLOBAL"
  proof -
    have "b = uint (GETARG_Bx i)" using args gl by (auto simp: checkargs_def check_eq mode_simps)
    then obtain v where v: "at (pk pt) (uint (GETARG_Bx i)) = Inr v" "ttype v = 4"
      using s gl by (auto simp: symbexec_op_def check_eq rbind_eq_Inr Let_def)
    then show ?thesis by (cases v) auto
  qed
  have "names_ok pt i" unfolding names_ok_def isop using C U G kname_ok by blast
  moreover have "l' = last' \<or> l' = pc" using symbexec_op_forward [OF s] lx by (simp split: if_splits)
  ultimately show ?thesis unfolding eq by blast
qed

lemma zero_is_move: "is_op OP_MOVE 0"
  by (simp add: is_op_def GET_OPCODE_def get_field_def opcode_num_def opcodes_def)

lemma getobjname_ok:
  assumes "pc \<le> sizecode pt"
    and "pupvalues pt = [] \<or> (int (length (pupvalues pt)) = uint (pnups pt) \<and> None \<notin> set (pupvalues pt))"
  shows "\<not> isl (getobjname pt pc stackpos)"
  using assms
proof (induction pt pc stackpos rule: getobjname.induct)
  case (1 p pc stackpos)
  show ?case
  proof (cases "luaF_getlocalname p (stackpos + 1) pc")
    case (Some n)
    then show ?thesis by (simp add: getobjname.simps [of p pc])
  next
    case None
    obtain i where s: "symbexec p pc stackpos = Inr i"
      using symbexec_ok [OF "1.prems"(1), of stackpos] by (cases "symbexec p pc stackpos") auto
    have op: "is_op op i \<Longrightarrow> is_op op' i \<longleftrightarrow> op = op'" for op op'
      by (auto simp: is_op_def opcode_num_inj)
    consider "is_op OP_MOVE i" | "is_op OP_RETURN i" | "\<not> is_op OP_MOVE i" "\<not> is_op OP_RETURN i" by blast
    then show ?thesis
    proof cases
      case 1
      then have n: "\<not> is_op OP_GETGLOBAL i" "is_op OP_MOVE i" by (simp_all add: op)
      show ?thesis
        using "1.IH" [OF None s n _ "1.prems"] n by (simp add: getobjname.simps [of p pc] None s)
    next
      case 2
      then have "\<not> is_op OP_GETGLOBAL i" "\<not> is_op OP_MOVE i" "\<not> is_op OP_GETTABLE i"
        "\<not> is_op OP_GETUPVAL i" "\<not> is_op OP_SELF i" by (simp_all add: op)
      then show ?thesis by (simp add: getobjname.simps [of p pc] None s)
    next
      case 3
      have "i = 0 \<or> is_op OP_RETURN i \<or> names_ok p i" by (rule symbexec_last [OF s]) (rule step_names)
      then have ok: "names_ok p i" using 3 zero_is_move by blast
      have up: "\<exists>str. at (pupvalues p) (uint (GETARG_B i)) = Inr (Some str)"
        if "is_op OP_GETUPVAL i" "pupvalues p \<noteq> []"
      proof -
        let ?b = "unat (GETARG_B i)"
        have lt: "uint (GETARG_B i) < int (length (pupvalues p))"
          using ok that "1.prems"(2) by (auto simp: names_ok_def)
        then have "nat (uint (GETARG_B i)) < length (pupvalues p)" by (subst nat_less_iff) simp_all
        then have b: "?b < length (pupvalues p)" by simp
        then have "pupvalues p ! ?b \<noteq> None" using "1.prems"(2) that(2) by (metis nth_mem)
        then show ?thesis using lt by (auto simp: at_def)
      qed
      show ?thesis
        using ok 3 up
        by (auto simp: getobjname.simps [of p pc] None s names_ok_def isl_simps(3))
    qed
  qed
qed

section \<open>Properties\<close>

text \<open>
  C13. Symbolic execution reads no instruction, constant or prototype outside its array and
  returns, whatever the code holds: every read is guarded by an earlier check.
\<close>

theorem symbexec_safe:
  assumes "lastpc \<le> sizecode pt"
  shows "\<exists>i. symbexec pt lastpc reg = Inr i"
  using symbexec_ok [OF assms, of reg] by (cases "symbexec pt lastpc reg") auto

theorem symbexec_safe_witness:
  "\<exists>i. symbexec (Proto [] [0xFFFFFFFF, 22] [] [] [] [] None 0 0 0 0 0 2) 2 255 = Inr i"
  by (rule symbexec_safe) (simp add: sizecode_def)

text \<open>
  The checker accepts exactly the code whose every check passes: the instruction it
  returns for success is never 0, the value it returns for failure.
\<close>

theorem checkcode_accepts:
  "luaG_checkcode pt = Inr (precheck pt \<and>
     (\<exists>i. symbexec_loop pt (sizecode pt) NO_REG_int 0 (sizecode pt - 1) = Inr (Some i)))"
proof -
  obtain r where r: "luaG_checkcode pt = Inr r"
    using symbexec_ok [of "sizecode pt" pt NO_REG_int]
    by (cases "symbexec pt (sizecode pt) NO_REG_int") (auto simp: luaG_checkcode_def)
  show ?thesis
  proof (cases r)
    case True
    then show ?thesis using r checkcode_iff [of pt] by simp
  next
    case False
    then show ?thesis using r checkcode_iff [of pt] by simp
  qed
qed

lemma code_closed:
  assumes "luaG_checkcode pt = Inr True" and "instr_at pt pc"
  shows "\<exists>op. let i = pcode pt ! nat pc in
     opcode_of (GET_OPCODE i) = Some op \<and> uint (GETARG_A i) < maxstack pt \<and>
     (getOpMode op = iABC \<longrightarrow>
        checkArgMode pt (GETARG_B i) (getBMode op) \<and> checkArgMode pt (GETARG_C i) (getCMode op)) \<and>
     (getOpMode op = iAsBx \<longrightarrow> instr_at pt (pc + 1 + sint (GETARG_sBx i))) \<and>
     (testTMode op \<longrightarrow> is_op OP_JMP (pcode pt ! nat (pc + 1)) \<and> instr_at pt (pc + 2)) \<and>
     (op = OP_LOADBOOL \<and> GETARG_C i = 1 \<longrightarrow> instr_at pt (pc + 2)) \<and>
     (setlist_count i \<longrightarrow> instr_at pt (pc + 2)) \<and>
     (op \<noteq> OP_RETURN \<and> \<not> setlist_count i \<longrightarrow> instr_at pt (pc + 1)) \<and>
     (op \<in> {OP_GETUPVAL, OP_SETUPVAL} \<longrightarrow> uint (GETARG_B i) < uint (pnups pt)) \<and>
     (op \<in> {OP_GETGLOBAL, OP_SETGLOBAL} \<longrightarrow> (\<exists>s. at (pk pt) (uint (GETARG_Bx i)) = Inr (TString s))) \<and>
     (op = OP_CLOSURE \<longrightarrow> uint (GETARG_Bx i) < sizep pt)"
  using assms
proof (rule checked_step)
  fix l pc' l'
  assume "symbexec_step pt (sizecode pt) NO_REG_int pc l = Inr (Some (pc', l'))"
  then show ?thesis
  proof (rule step_cases)
    fix i op b c lx
    assume i: "code_at pt pc = Inr i" and op: "opcode_of (GET_OPCODE i) = Some op"
      and A: "checkreg pt (uint (GETARG_A i))" and args: "checkargs pt pc i op = Inr (Some (b, c))"
      and T: "testTMode op \<longrightarrow> pc + 2 < sizecode pt \<and> is_op OP_JMP (pcode pt ! nat (pc + 1))"
      and s: "symbexec_op pt (sizecode pt) NO_REG_int pc lx op (uint (GETARG_A i)) b c = Inr (Some (pc', l'))"
    have pre: "precheck pt" using assms(1) by (simp add: checkcode_iff)
    have eq: "pcode pt ! nat pc = i" using i by (simp add: code_at_eq)
    have isop: "is_op op' i \<longleftrightarrow> op = op'" for op' using is_op_opcode [OF op] .
    have nx: "op \<noteq> OP_RETURN \<Longrightarrow> \<not> setlist_count i \<Longrightarrow> instr_at pt (pc + 1)"
      using instr_at.next_instr [OF assms(2)] not_at_end [OF pre i op] eq by blast
    have nx2: "instr_at pt (pc + 2)" if "op \<noteq> OP_RETURN" "\<not> setlist_count i" "pc + 2 < sizecode pt"
      "\<not> setlist_count (pcode pt ! nat (pc + 1))"
      using instr_at.next_instr [OF nx [OF that(1,2)] that(4)] that(3) by (simp add: add.assoc)
    have sl: "setlist_count i \<Longrightarrow> op = OP_SETLIST" using isop by (simp add: setlist_count_def)
    have jmp: "is_op OP_JMP j \<Longrightarrow> \<not> setlist_count j" for j
      by (simp add: is_op_def setlist_count_def opcode_num_def opcodes_def)
    have t: "testTMode op \<Longrightarrow> instr_at pt (pc + 2)"
      using T sl jmp by (intro nx2) (auto simp: mode_simps)
    have lb: "instr_at pt (pc + 2)" if "op = OP_LOADBOOL" "GETARG_C i = 1"
    proof -
      have c: "c = 1" using checkargs_ABC [OF args] that by (simp add: mode_simps)
      show ?thesis using s that sl c
        by (intro nx2) (auto simp: symbexec_op_def check_eq rbind_eq_Inr code_at_eq setlist_count_def)
    qed
    have st: "instr_at pt (pc + 2)" if "setlist_count i"
    proof -
      have "c = 0" using checkargs_ABC [OF args] sl [OF that] that by (simp add: mode_simps setlist_count_def)
      then have "pc + 2 < sizecode pt" using s sl [OF that] by (simp add: symbexec_op_def check_eq Let_def)
      then show ?thesis using instr_at.skip [OF assms(2)] that eq by simp
    qed
    have bABC: "b = uint (GETARG_B i)" if "getOpMode op = iABC" using checkargs_ABC [OF args that] by simp
    have bABx: "b = uint (GETARG_Bx i)" if "getOpMode op = iABx" using args that by (auto simp: checkargs_def check_eq)
    have up: "op \<in> {OP_GETUPVAL, OP_SETUPVAL} \<Longrightarrow> uint (GETARG_B i) < uint (pnups pt)"
      using s bABC by (auto simp: symbexec_op_def check_eq mode_simps)
    have tstr: "ttype v = 4 \<Longrightarrow> \<exists>str. v = TString str" for v by (cases v) auto
    have gl: "op \<in> {OP_GETGLOBAL, OP_SETGLOBAL} \<Longrightarrow> \<exists>str. at (pk pt) (uint (GETARG_Bx i)) = Inr (TString str)"
      using s bABx tstr by (fastforce simp: symbexec_op_def check_eq rbind_eq_Inr mode_simps)
    have cl: "op = OP_CLOSURE \<Longrightarrow> uint (GETARG_Bx i) < sizep pt"
      using s bABx by (auto simp: symbexec_op_def check_eq mode_simps)
    have jm: "getOpMode op = iAsBx \<Longrightarrow> instr_at pt (pc + 1 + sint (GETARG_sBx i))"
      using checkargs_jump [OF args] by auto
    have A': "uint (GETARG_A i) < maxstack pt" using A by (simp add: checkreg_def)
    show ?thesis
      unfolding Let_def eq
      by (rule exI [of _ op])
        (use op A' checkargs_ABC [OF args] jm T t lb st nx up gl cl in blast)
  qed
qed



text \<open>
  Looking for the name of a value for an error message returns, following moves to ever
  lower registers, and reads no constant or upvalue name outside its array, when the debug
  information names every upvalue or none.
\<close>

theorem getobjname_safe:
  assumes "pc \<le> sizecode pt"
    and "pupvalues pt = [] \<or> (int (length (pupvalues pt)) = uint (pnups pt) \<and> None \<notin> set (pupvalues pt))"
  shows "\<exists>r. getobjname pt pc stackpos = Inr r"
  using getobjname_ok [OF assms, of stackpos] by (cases "getobjname pt pc stackpos") auto

theorem getobjname_safe_witness:
  "\<exists>r. getobjname (Proto [] [CREATE_ABC 4 0 0 0, CREATE_ABC 30 0 1 0] [] [] [] [Some [120]] None 0 0 1 0 0 2) 1 0 = Inr r"
  by (rule getobjname_safe) (simp_all add: sizecode_def)

text \<open>
  The checker accepts code whose debug information names some upvalues but not all, and
  for such code the name lookup reads past the array of names.
\<close>

definition unnamed_upvalue :: Proto where
  "unnamed_upvalue = Proto [] [CREATE_ABC 4 0 1 0, CREATE_ABC 28 0 1 1, CREATE_ABC 30 0 1 0]
     [] [] [] [Some [120]] (Some [61]) 0 0 2 0 0 2"

theorem upvalue_name_out_of_bounds:
  "luaG_checkcode unnamed_upvalue = Inr True \<and> getobjname unnamed_upvalue 1 0 = Inl InvalidPointer"
  by code_simp

end
