(* ===== verification/LuaZio.thy ===== *)
theory LuaZio
  imports Prelude
begin

text \<open>
  lzio.c and lzio.h of Lua: buffered input streams over a reader function, and the two readers
  the libraries provide, \<open>getS\<close> of lauxlib.c and \<open>generic_reader\<close> of lbaselib.c.

  A reader maps its data to a block of bytes and its new data; the empty block stands for a
  null block or a size of 0, which both mean the end. \<open>z_buf\<close> is the block from \<open>p\<close> on, so \<open>n\<close>
  is its length; after \<open>zgetc\<close> met the end, \<open>n\<close> has wrapped around below zero, which \<open>z_under\<close>
  records: the next read would be out of bounds.
\<close>

type_synonym 'd reader = "'d \<Rightarrow> bytes \<times> 'd"

record 'd zio =
  z_buf :: bytes
  z_data :: 'd
  z_under :: bool

definition EOZ :: int where "EOZ = - 1"

definition luaZ_init :: "'d \<Rightarrow> 'd zio" where
  "luaZ_init d = \<lparr>z_buf = [], z_data = d, z_under = False\<rparr>"

definition luaZ_fill :: "'d reader \<Rightarrow> 'd zio \<Rightarrow> int \<times> 'd zio" where
  "luaZ_fill rd z =
     (case rd (z_data z) of
        ([], d) \<Rightarrow> (EOZ, z\<lparr>z_data := d\<rparr>)
      | (c # cs, d) \<Rightarrow> (uint c, z\<lparr>z_data := d, z_buf := cs\<rparr>))"

definition zgetc :: "'d reader \<Rightarrow> 'd zio \<Rightarrow> (int \<times> 'd zio) result" where
  "zgetc rd z =
     (if z_under z then Inl InvalidPointer
      else case z_buf z of
        c # cs \<Rightarrow> Inr (uint c, z\<lparr>z_buf := cs\<rparr>)
      | [] \<Rightarrow> (case luaZ_fill rd z of (c, z') \<Rightarrow> Inr (c, if c = EOZ then z'\<lparr>z_under := True\<rparr> else z')))"

lemma uint_not_EOZ [simp]: "uint (c :: u8) \<noteq> EOZ"
  using uint_ge_0 [of c] unfolding EOZ_def by linarith

definition luaZ_lookahead :: "'d reader \<Rightarrow> 'd zio \<Rightarrow> int \<times> 'd zio" where
  "luaZ_lookahead rd z =
     (case z_buf z of
        c # cs \<Rightarrow> (uint c, z)
      | [] \<Rightarrow> (case luaZ_fill rd z of (c, z') \<Rightarrow>
          if c = EOZ then (EOZ, z')
          else (c, z'\<lparr>z_buf := of_int c # z_buf z'\<rparr>)))"

lemma lookahead_buf: "luaZ_lookahead rd z = (c, z') \<Longrightarrow> c \<noteq> EOZ \<Longrightarrow> z_buf z' \<noteq> []"
  by (auto simp: luaZ_lookahead_def split: list.splits prod.splits if_splits)

text \<open>\<open>luaZ_read\<close>: how many bytes are missing, the bytes copied, and the stream after it.\<close>

function luaZ_read :: "'d reader \<Rightarrow> 'd zio \<Rightarrow> nat \<Rightarrow> nat \<times> bytes \<times> 'd zio" where
  "luaZ_read rd z n =
     (if n = 0 then (0, [], z)
      else case luaZ_lookahead rd z of (c, z') \<Rightarrow>
        if c = EOZ then (n, [], z')
        else
          let m = (if n \<le> length (z_buf z') then n else length (z_buf z'));
              b = take m (z_buf z')
          in case luaZ_read rd (z'\<lparr>z_buf := drop m (z_buf z')\<rparr>) (n - m) of
               (r, bs, z'') \<Rightarrow> (r, b @ bs, z''))"
  by auto
termination
  by (relation "measure (\<lambda>(rd, z, n). n)") (auto dest!: lookahead_buf [OF sym])

declare luaZ_read.simps [simp del]

section \<open>Readers\<close>

text \<open>\<open>getS\<close>: the whole string, then the end. \<open>generic_reader\<close>: the strings a Lua function
  returns, one for each call, up to its first nil or empty string.\<close>

definition getS :: "bytes reader" where
  "getS ls = (if length ls = 0 then ([], ls) else (ls, []))"

fun generic_reader :: "bytes list reader" where
  "generic_reader [] = ([], [])"
| "generic_reader (p # ps) = (p, ps)"

section \<open>The contract of a reader\<close>

text \<open>
  A reader delivers the bytes \<open>rest d\<close> in blocks. The laws say how one call splits them; what
  follows is what \<open>luaZ_read\<close> and \<open>zgetc\<close> promise their clients: the split does not matter.
\<close>

locale reader_stream =
  fixes rd :: "'d reader"
    and rest :: "'d \<Rightarrow> bytes"
  assumes block: "rd d = (b, d') \<Longrightarrow> b \<noteq> [] \<Longrightarrow> rest d = b @ rest d'"
    and finish: "rd d = ([], d') \<Longrightarrow> rest d = []"
begin

definition stream :: "'d zio \<Rightarrow> bytes" where
  "stream z = z_buf z @ rest (z_data z)"

lemma fill_stream:
  assumes "luaZ_fill rd z = (c, z')"
  shows "if rest (z_data z) = [] then c = EOZ else c \<noteq> EOZ \<and> c = uint (hd (rest (z_data z))) \<and>
    of_int c # stream z' = rest (z_data z)"
proof -
  obtain b d where rd: "rd (z_data z) = (b, d)" by (cases "rd (z_data z)")
  show ?thesis
  proof (cases b)
    case Nil
    then show ?thesis using assms rd finish [of "z_data z" d] by (simp add: luaZ_fill_def)
  next
    case (Cons c' cs)
    then show ?thesis using assms rd block [OF rd] by (auto simp: luaZ_fill_def stream_def)
  qed
qed

lemma lookahead_stream:
  assumes "luaZ_lookahead rd z = (c, z')"
  shows "if stream z = [] then c = EOZ
    else c \<noteq> EOZ \<and> c = uint (hd (stream z)) \<and> stream z' = stream z \<and> z_buf z' \<noteq> []"
proof (cases "z_buf z")
  case (Cons c' cs)
  then show ?thesis using assms by (auto simp: luaZ_lookahead_def stream_def)
next
  case Nil
  obtain c2 z2 where f: "luaZ_fill rd z = (c2, z2)" by (cases "luaZ_fill rd z")
  show ?thesis using assms Nil f fill_stream [OF f]
    by (auto simp: luaZ_lookahead_def stream_def split: if_splits)
qed

lemma read_stream:
  assumes "luaZ_read rd z n = (r, bs, z')"
  shows "r = n - length (stream z) \<and> bs = take n (stream z) \<and> (r = 0 \<longrightarrow> stream z' = drop n (stream z))"
  using assms
proof (induction n arbitrary: z r bs z' rule: less_induct)
  case (less n)
  show ?case
  proof (cases "n = 0")
    case True
    then show ?thesis using less.prems by (simp add: luaZ_read.simps)
  next
    case False
    obtain c z1 where la: "luaZ_lookahead rd z = (c, z1)" by (cases "luaZ_lookahead rd z")
    show ?thesis
    proof (cases "stream z = []")
      case True
      then have "c = EOZ" using lookahead_stream [OF la] by simp
      then show ?thesis using less.prems False la True by (simp add: luaZ_read.simps [of rd z n])
    next
      case nonempty: False
      then have c: "c \<noteq> EOZ" "stream z1 = stream z" "z_buf z1 \<noteq> []"
        using lookahead_stream [OF la] by auto
      define m where "m = (if n \<le> length (z_buf z1) then n else length (z_buf z1))"
      define z2 where "z2 = z1\<lparr>z_buf := drop m (z_buf z1)\<rparr>"
      have m: "0 < m" "m \<le> n" "m \<le> length (z_buf z1)" using c(3) False by (auto simp: m_def)
      obtain r2 bs2 z3 where rec: "luaZ_read rd z2 (n - m) = (r2, bs2, z3)" by (metis prod_cases3)
      have res: "r = r2" "bs = take m (z_buf z1) @ bs2" "z' = z3"
        using less.prems False la c(1) rec by (auto simp: luaZ_read.simps [of rd z n] m_def z2_def)
      have split: "stream z = take m (z_buf z1) @ stream z2"
        unfolding c(2) [symmetric] by (simp add: z2_def stream_def)
      have "take n (stream z) = take m (z_buf z1) @ take (n - m) (stream z2)"
        "drop n (stream z) = drop (n - m) (stream z2)" "length (stream z) = m + length (stream z2)"
        using split m by auto
      then show ?thesis using less.IH [OF _ rec] m res by auto
    qed
  qed
qed

lemma zgetc_stream:
  assumes "\<not> z_under z"
  shows "\<exists>c z'. zgetc rd z = Inr (c, z') \<and>
    (if stream z = [] then c = EOZ \<and> z_under z'
     else c = uint (hd (stream z)) \<and> stream z' = tl (stream z) \<and> \<not> z_under z')"
proof (cases "z_buf z")
  case (Cons c' cs)
  then show ?thesis using assms by (simp add: zgetc_def stream_def)
next
  case Nil
  obtain c z2 where f: "luaZ_fill rd z = (c, z2)" by (cases "luaZ_fill rd z")
  have "z_under z2 = z_under z" using f by (auto simp: luaZ_fill_def split: prod.splits list.splits)
  then show ?thesis using assms Nil f fill_stream [OF f]
    by (auto simp: zgetc_def stream_def split: if_splits) (metis list.sel)+
qed

end

interpretation string_reader: reader_stream getS id
  by unfold_locales (auto simp: getS_def split: if_splits)

definition pieces :: "bytes list \<Rightarrow> bytes" where
  "pieces ps = concat (takeWhile (\<lambda>p. p \<noteq> []) ps)"

interpretation piece_reader: reader_stream generic_reader pieces
proof
  show "pieces d = b @ pieces d'" if "generic_reader d = (b, d')" "b \<noteq> []" for d b d'
    using that by (cases d) (auto simp: pieces_def)
  show "pieces d = []" if "generic_reader d = ([], d')" for d d'
    using that by (cases d) (auto simp: pieces_def)
qed

end
