(* ===== verification/LuaDump.thy ===== *)
theory LuaDump
  imports LuaDebug LuaZio "HOL-Library.Sublist"
begin

text \<open>
  Precompiled chunks: \<open>luaU_dump\<close> of ldump.c and \<open>luaU_undump\<close> of lundump.c, on an x86-64
  host (4-byte \<open>int\<close>, 8-byte \<open>size_t\<close>, little endian).

  The writer is a function of the block and its data with an \<open>int\<close> status; the stream read is
  a \<open>zio\<close>. Allocation always succeeds. The depth counter \<open>nCcalls\<close> bounds the recursion of
  \<open>LoadFunction\<close>; errors are \<open>LuaError\<close> with the message thrown.
\<close>

section \<open>Integers in memory\<close>

definition le_bytes :: "nat \<Rightarrow> 'a::len word \<Rightarrow> bytes" where
  "le_bytes n w = map (\<lambda>i. ucast (drop_bit (8 * i) w)) [0..<n]"

definition of_le :: "bytes \<Rightarrow> 'a::len word" where
  "of_le bs = foldr (\<lambda>b w. ucast b OR push_bit 8 w) bs 0"

section \<open>Headers\<close>

definition LUA_SIGNATURE :: bytes where "LUA_SIGNATURE = 27 # ascii ''Lua''"
definition LUAC_VERSION :: u8 where "LUAC_VERSION = 0x51"
definition LUAC_FORMAT :: u8 where "LUAC_FORMAT = 0"
definition LUAC_HEADERSIZE :: nat where "LUAC_HEADERSIZE = 12"

definition luaU_header :: bytes where
  "luaU_header = LUA_SIGNATURE @ [LUAC_VERSION, LUAC_FORMAT, hd (le_bytes 4 (1 :: u32)), 4, 8, 4, 8, 0]"

section \<open>Dumping\<close>

record 'u DumpState =
  D_writer :: "bytes \<Rightarrow> 'u \<Rightarrow> u32 \<times> 'u"
  D_data :: 'u
  D_strip :: bool
  D_status :: u32

definition DumpBlock :: "bytes \<Rightarrow> 'u DumpState \<Rightarrow> 'u DumpState" where
  "DumpBlock b D =
     (if D_status D = 0 then
        case D_writer D b (D_data D) of (st, d) \<Rightarrow> D\<lparr>D_status := st, D_data := d\<rparr>
      else D)"

definition DumpChar :: "u8 \<Rightarrow> 'u DumpState \<Rightarrow> 'u DumpState" where
  "DumpChar x = DumpBlock [x]"

definition DumpInt :: "u32 \<Rightarrow> 'u DumpState \<Rightarrow> 'u DumpState" where
  "DumpInt x = DumpBlock (le_bytes 4 x)"

definition DumpNumber :: "double \<Rightarrow> 'u DumpState \<Rightarrow> 'u DumpState" where
  "DumpNumber x = DumpBlock (le_bytes 8 x)"

definition DumpVector :: "u32 list \<Rightarrow> 'u DumpState \<Rightarrow> 'u DumpState" where
  "DumpVector b D = DumpBlock (concat (map (le_bytes 4) b)) (DumpInt (of_nat (length b)) D)"

definition DumpString :: "bytes option \<Rightarrow> 'u DumpState \<Rightarrow> 'u DumpState" where
  "DumpString s D =
     (case s of
        None \<Rightarrow> DumpBlock (le_bytes 8 (0 :: u64)) D
      | Some str \<Rightarrow> DumpBlock (str @ [0]) (DumpBlock (le_bytes 8 (of_nat (length str + 1) :: u64)) D))"

definition DumpConstant :: "TValue \<Rightarrow> 'u DumpState \<Rightarrow> 'u DumpState" where
  "DumpConstant k D =
     (let D = DumpChar (ttype k) D in
      case k of
        TBoolean b \<Rightarrow> DumpChar (ucast b) D
      | TNumber n \<Rightarrow> DumpNumber n D
      | TString s \<Rightarrow> DumpString (Some s) D
      | _ \<Rightarrow> D)"

definition DumpLocVar :: "LocVar \<Rightarrow> 'u DumpState \<Rightarrow> 'u DumpState" where
  "DumpLocVar v D = DumpInt (endpc v) (DumpInt (startpc v) (DumpString (varname v) D))"

definition DumpDebug :: "Proto \<Rightarrow> 'u DumpState \<Rightarrow> 'u DumpState" where
  "DumpDebug f D =
     (let D = DumpVector (if D_strip D then [] else plineinfo f) D;
          vars = (if D_strip D then [] else plocvars f);
          D = fold DumpLocVar vars (DumpInt (of_nat (length vars)) D);
          ups = (if D_strip D then [] else pupvalues f)
      in fold DumpString ups (DumpInt (of_nat (length ups)) D))"

lemma size_inner [termination_simp]: "q \<in> set (pp f) \<Longrightarrow> size q < size f"
proof (cases f)
  case (Proto k code ps lines vars ups src l1 l2 nu np va ms)
  assume "q \<in> set (pp f)"
  then have "q \<in> set ps" using Proto by simp
  then have "size q \<le> size_list size ps" by (rule size_list_estimation') simp
  then show "size q < size f" by (simp add: Proto)
qed

fun DumpFunction :: "Proto \<Rightarrow> bytes option \<Rightarrow> 'u DumpState \<Rightarrow> 'u DumpState" where
  "DumpFunction f p D =
     (let D = DumpString (if psource f = p \<or> D_strip D then None else psource f) D;
          D = DumpInt (plinedefined f) D;
          D = DumpInt (plastlinedefined f) D;
          D = DumpChar (pnups f) D;
          D = DumpChar (pnumparams f) D;
          D = DumpChar (pis_vararg f) D;
          D = DumpChar (pmaxstacksize f) D;
          D = DumpVector (pcode f) D;
          D = fold DumpConstant (pk f) (DumpInt (of_nat (length (pk f))) D);
          D = fold (\<lambda>q D. DumpFunction q (psource f) D) (pp f) (DumpInt (of_nat (length (pp f))) D)
      in DumpDebug f D)"

declare DumpFunction.simps [simp del]

definition luaU_dump :: "(bytes \<Rightarrow> 'u \<Rightarrow> u32 \<times> 'u) \<Rightarrow> 'u \<Rightarrow> bool \<Rightarrow> Proto \<Rightarrow> u32 \<times> 'u" where
  "luaU_dump w data strip f =
     (let D = \<lparr>D_writer = w, D_data = data, D_strip = strip, D_status = 0\<rparr>;
          D = DumpFunction f None (DumpBlock luaU_header D)
      in (D_status D, D_data D))"

text \<open>The writer of \<open>string.dump\<close>: append to the buffer.\<close>

definition str_writer :: "bytes \<Rightarrow> bytes \<Rightarrow> u32 \<times> bytes" where
  "str_writer b buf = (0, buf @ b)"

section \<open>Loading\<close>

definition LUAI_MAXCCALLS :: nat where "LUAI_MAXCCALLS = 200"

record 'd LoadState =
  S_reader :: "'d reader"
  S_name :: string

definition load_error :: "'d LoadState \<Rightarrow> string \<Rightarrow> fault" where
  "load_error S why = LuaError (S_name S @ '': '' @ why @ '' in precompiled chunk'')"

definition LoadBlock :: "'d LoadState \<Rightarrow> nat \<Rightarrow> 'd zio \<Rightarrow> (bytes \<times> 'd zio) result" where
  "LoadBlock S sz z =
     (case luaZ_read (S_reader S) z sz of (r, bs, z') \<Rightarrow>
        if r \<noteq> 0 then Inl (load_error S ''unexpected end'') else Inr (bs, z'))"

definition LoadChar :: "'d LoadState \<Rightarrow> 'd zio \<Rightarrow> (u8 \<times> 'd zio) result" where
  "LoadChar S z = rbind (LoadBlock S 1 z) (\<lambda>(b, z). Inr (hd b, z))"

definition LoadInt :: "'d LoadState \<Rightarrow> 'd zio \<Rightarrow> (u32 \<times> 'd zio) result" where
  "LoadInt S z = rbind (LoadBlock S 4 z) (\<lambda>(b, z). let x = of_le b in
     if sint (x :: u32) < 0 then Inl (load_error S ''bad integer'') else Inr (x, z))"

definition LoadNumber :: "'d LoadState \<Rightarrow> 'd zio \<Rightarrow> (double \<times> 'd zio) result" where
  "LoadNumber S z = rbind (LoadBlock S 8 z) (\<lambda>(b, z). Inr (of_le b, z))"

definition LoadString :: "'d LoadState \<Rightarrow> 'd zio \<Rightarrow> (bytes option \<times> 'd zio) result" where
  "LoadString S z = rbind (LoadBlock S 8 z) (\<lambda>(b, z). let size = unat (of_le b :: u64) in
     if size = 0 then Inr (None, z)
     else rbind (LoadBlock S size z) (\<lambda>(s, z). Inr (Some (take (size - 1) s), z)))"

fun words4 :: "nat \<Rightarrow> bytes \<Rightarrow> u32 list" where
  "words4 0 bs = []"
| "words4 (Suc n) bs = of_le (take 4 bs) # words4 n (drop 4 bs)"

definition LoadVector :: "'d LoadState \<Rightarrow> 'd zio \<Rightarrow> (u32 list \<times> 'd zio) result" where
  "LoadVector S z = rbind (LoadInt S z) (\<lambda>(n, z).
     rbind (LoadBlock S (unat n * 4) z) (\<lambda>(b, z). Inr (words4 (unat n) b, z)))"

text \<open>The \<open>for\<close> loops that load \<open>n\<close> elements.\<close>

fun load_n :: "('z \<Rightarrow> ('a \<times> 'z) result) \<Rightarrow> nat \<Rightarrow> 'z \<Rightarrow> ('a list \<times> 'z) result" where
  "load_n g 0 z = Inr ([], z)"
| "load_n g (Suc n) z = rbind (g z) (\<lambda>(x, z). rbind (load_n g n z) (\<lambda>(xs, z). Inr (x # xs, z)))"

definition LoadConstant :: "'d LoadState \<Rightarrow> 'd zio \<Rightarrow> (TValue \<times> 'd zio) result" where
  "LoadConstant S z = rbind (LoadChar S z) (\<lambda>(t, z).
     if t = 0 then Inr (TNil, z)
     else if t = 1 then rbind (LoadChar S z) (\<lambda>(b, z). Inr (TBoolean (if b \<noteq> 0 then 1 else 0), z))
     else if t = 3 then rbind (LoadNumber S z) (\<lambda>(n, z). Inr (TNumber n, z))
     else if t = 4 then rbind (LoadString S z) (\<lambda>(s, z).
       case s of Some s \<Rightarrow> Inr (TString s, z) | None \<Rightarrow> Inl InvalidPointer)
     else Inl (load_error S ''bad constant''))"

text \<open>\<open>LoadConstants\<close>; \<open>loadf\<close> is \<open>LoadFunction\<close> for the functions defined inside.\<close>

definition LoadConstants ::
    "'d LoadState \<Rightarrow> ('d zio \<Rightarrow> (Proto \<times> 'd zio) result) \<Rightarrow> 'd zio \<Rightarrow> ((TValue list \<times> Proto list) \<times> 'd zio) result" where
  "LoadConstants S loadf z = rbind (LoadInt S z) (\<lambda>(n, z).
     rbind (load_n (LoadConstant S) (unat n) z) (\<lambda>(k, z).
     rbind (LoadInt S z) (\<lambda>(n, z).
     rbind (load_n loadf (unat n) z) (\<lambda>(p, z). Inr ((k, p), z)))))"

definition LoadLocVar :: "'d LoadState \<Rightarrow> 'd zio \<Rightarrow> (LocVar \<times> 'd zio) result" where
  "LoadLocVar S z = rbind (LoadString S z) (\<lambda>(name, z).
     rbind (LoadInt S z) (\<lambda>(s, z).
     rbind (LoadInt S z) (\<lambda>(e, z). Inr (\<lparr>varname = name, startpc = s, endpc = e\<rparr>, z))))"

definition LoadDebug ::
    "'d LoadState \<Rightarrow> 'd zio \<Rightarrow> ((u32 list \<times> LocVar list \<times> bytes option list) \<times> 'd zio) result" where
  "LoadDebug S z = rbind (LoadVector S z) (\<lambda>(lines, z).
     rbind (LoadInt S z) (\<lambda>(n, z).
     rbind (load_n (LoadLocVar S) (unat n) z) (\<lambda>(vars, z).
     rbind (LoadInt S z) (\<lambda>(n, z).
     rbind (load_n (LoadString S) (unat n) z) (\<lambda>(ups, z). Inr ((lines, vars, ups), z))))))"

text \<open>
  A chunk can hold a string constant of size 0, which the code stores as a null pointer and
  dereferences at its first use; the model stops at the load, with \<open>InvalidPointer\<close>.
\<close>

function LoadFunction :: "'d LoadState \<Rightarrow> nat \<Rightarrow> bytes option \<Rightarrow> 'd zio \<Rightarrow> (Proto \<times> 'd zio) result" where
  "LoadFunction S nCcalls p z =
     (if nCcalls + 1 > LUAI_MAXCCALLS then Inl (load_error S ''code too deep'')
      else rbind (LoadString S z) (\<lambda>(src, z).
        let src = (case src of None \<Rightarrow> p | Some s \<Rightarrow> Some s) in
        rbind (LoadInt S z) (\<lambda>(linedefined, z).
        rbind (LoadInt S z) (\<lambda>(lastlinedefined, z).
        rbind (LoadChar S z) (\<lambda>(nups, z).
        rbind (LoadChar S z) (\<lambda>(numparams, z).
        rbind (LoadChar S z) (\<lambda>(is_vararg, z).
        rbind (LoadChar S z) (\<lambda>(maxstacksize, z).
        rbind (LoadVector S z) (\<lambda>(code, z).
        rbind (LoadConstants S (LoadFunction S (nCcalls + 1) src) z) (\<lambda>((k, ps), z).
        rbind (LoadDebug S z) (\<lambda>((lines, vars, ups), z).
        let f = Proto k code ps lines vars ups src linedefined lastlinedefined nups numparams
                  is_vararg maxstacksize
        in rbind (luaG_checkcode f) (\<lambda>ok.
           if ok then Inr (f, z) else Inl (load_error S ''bad code'')))))))))))))"
  by auto
termination
  by (relation "measure (\<lambda>(S, nCcalls, p, z). LUAI_MAXCCALLS - nCcalls)") auto

declare LoadFunction.simps [simp del]

definition LoadHeader :: "'d LoadState \<Rightarrow> 'd zio \<Rightarrow> (unit \<times> 'd zio) result" where
  "LoadHeader S z = rbind (LoadBlock S LUAC_HEADERSIZE z) (\<lambda>(s, z).
     if luaU_header \<noteq> s then Inl (load_error S ''bad header'') else Inr ((), z))"

definition chunk_name :: "string \<Rightarrow> string" where
  "chunk_name name =
     (case name of
        c # cs \<Rightarrow> if c = CHR ''@'' \<or> c = CHR ''='' then cs
                 else if of_char c = hd LUA_SIGNATURE then ''binary string'' else name
      | [] \<Rightarrow> name)"

definition luaU_undump :: "'d reader \<Rightarrow> nat \<Rightarrow> string \<Rightarrow> 'd zio \<Rightarrow> (Proto \<times> 'd zio) result" where
  "luaU_undump rd nCcalls name z =
     (let S = \<lparr>S_reader = rd, S_name = chunk_name name\<rparr> in
      rbind (LoadHeader S z) (\<lambda>(_, z). LoadFunction S nCcalls (Some (ascii ''=?'')) z))"


section \<open>Bytes of integers\<close>

lemma bit_of_le:
  "bit (of_le bs :: 'a::len word) k \<longleftrightarrow> k < LENGTH('a) \<and> k div 8 < length bs \<and> bit (bs ! (k div 8)) (k mod 8)"
proof (induction bs arbitrary: k)
  case Nil
  then show ?case by (simp add: of_le_def)
next
  case (Cons b bs)
  have eq: "of_le (b # bs) = (ucast b OR push_bit 8 (of_le bs) :: 'a word)" by (simp add: of_le_def)
  show ?case
  proof (cases "k < 8")
    case True
    then show ?thesis
      by (auto simp: eq bit_or_iff bit_ucast_iff bit_push_bit_iff possible_bit_def dest: bit_imp_le_length)
  next
    case False
    then have "k div 8 = Suc ((k - 8) div 8)" "k mod 8 = (k - 8) mod 8"
      by (simp_all add: le_div_geq le_mod_geq)
    moreover have "\<not> bit b k" using False by (auto dest: bit_imp_le_length)
    ultimately show ?thesis using False
      by (auto simp: eq bit_or_iff bit_ucast_iff bit_push_bit_iff possible_bit_def Cons.IH)
  qed
qed

lemma length_le_bytes [simp]: "length (le_bytes n w) = n"
  by (simp add: le_bytes_def)

lemma of_le_le_bytes:
  fixes w :: "'a::len word"
  assumes "LENGTH('a) \<le> 8 * n"
  shows "of_le (le_bytes n w) = w"
proof (rule bit_eqI)
  fix k
  assume "possible_bit TYPE('a word) k"
  then have k: "k < LENGTH('a)" by (simp add: possible_bit_def)
  then have "k div 8 < n" using assms by (simp add: div_less_iff_less_mult)
  moreover have "8 * (k div 8) + k mod 8 = k" by simp
  ultimately show "bit (of_le (le_bytes n w) :: 'a word) k = bit w k"
    using k by (simp add: bit_of_le le_bytes_def bit_ucast_iff bit_drop_bit_eq possible_bit_def)
qed

lemma of_le_le_bytes_simps [simp]:
  "of_le (le_bytes 4 (x :: u32)) = x" "of_le (le_bytes 8 (y :: u64)) = y"
  by (rule of_le_le_bytes; simp)+

lemma words4_concat: "words4 (length ws) (concat (map (le_bytes 4) ws)) = ws"
  by (induction ws) simp_all

section \<open>Readers of a coding\<close>

text \<open>
  \<open>g\<close> reads \<open>x\<close> off every stream that starts with \<open>bs\<close>, leaving the rest, and fails with
  \<open>eof\<close> on every stream that stops inside \<open>bs\<close>.
\<close>

definition codes ::
    "('z \<Rightarrow> bytes) \<Rightarrow> fault \<Rightarrow> ('z \<Rightarrow> ('a \<times> 'z) result) \<Rightarrow> 'a \<Rightarrow> bytes \<Rightarrow> bool" where
  "codes st eof g x bs \<longleftrightarrow>
     (\<forall>z r. st z = bs @ r \<longrightarrow> (\<exists>z'. g z = Inr (x, z') \<and> st z' = r)) \<and>
     (\<forall>z. strict_prefix (st z) bs \<longrightarrow> g z = Inl eof)"

lemma codes_ok: "codes st eof g x bs \<Longrightarrow> st z = bs @ r \<Longrightarrow> \<exists>z'. g z = Inr (x, z') \<and> st z' = r"
  and codes_eof: "codes st eof g x bs \<Longrightarrow> strict_prefix (st z) bs \<Longrightarrow> g z = Inl eof"
  by (auto simp: codes_def)

named_theorems codes

lemma codes_return [codes]: "codes st eof (\<lambda>z. Inr (x, z)) x []"
  by (simp add: codes_def)

lemma codes_bind [codes]:
  assumes "codes st eof g x bs" and "codes st eof (f x) y bs'"
  shows "codes st eof (\<lambda>z. rbind (g z) (\<lambda>(v, z). f v z)) y (bs @ bs')"
proof -
  have "\<exists>z'. rbind (g z) (\<lambda>(v, z). f v z) = Inr (y, z') \<and> st z' = r" if z: "st z = (bs @ bs') @ r" for z r
  proof -
    from z codes_ok [OF assms(1), of z "bs' @ r"] obtain z1 where "g z = Inr (x, z1)" "st z1 = bs' @ r" by auto
    then show ?thesis using codes_ok [OF assms(2), of z1 r] by auto
  qed
  moreover have "rbind (g z) (\<lambda>(v, z). f v z) = Inl eof" if z: "strict_prefix (st z) (bs @ bs')" for z
  proof (cases "strict_prefix (st z) bs")
    case True
    then show ?thesis using codes_eof [OF assms(1)] by simp
  next
    case False
    then have "prefix bs (st z)"
      using z prefix_same_cases [of "st z" "bs @ bs'" bs] by (auto simp: strict_prefix_def)
    then obtain r where "st z = bs @ r" by (auto simp: prefix_def)
    moreover from this have "strict_prefix r bs'" using z by (auto simp: strict_prefix_def)
    ultimately have r: "st z = bs @ r" "strict_prefix r bs'" by simp_all
    with codes_ok [OF assms(1) r(1)] obtain z1 where "g z = Inr (x, z1)" "st z1 = r" by auto
    then show ?thesis using codes_eof [OF assms(2), of z1] r(2) by simp
  qed
  ultimately show ?thesis by (simp add: codes_def)
qed

lemma codes_n [codes]:
  assumes "list_all (\<lambda>x. codes st eof g (h x) (f x)) xs"
  shows "codes st eof (load_n g (length xs)) (map h xs) (concat (map f xs))"
  using assms
proof (induction xs)
  case Nil
  then show ?case using codes_return by simp
next
  case (Cons x xs)
  have "codes st eof (\<lambda>z. rbind (g z) (\<lambda>(v, z). rbind (load_n g (length xs) z) (\<lambda>(vs, z). Inr (v # vs, z))))
      (h x # map h xs) (f x @ (concat (map f xs) @ []))"
    using Cons by (intro codes_bind [where x = "h x"] codes_bind [where x = "map h xs"] codes_return) simp_all
  then show ?case by simp
qed

lemma codes_cong: "codes st eof g x bs \<Longrightarrow> (\<And>z. g z = g' z) \<Longrightarrow> codes st eof g' x bs"
  by (simp add: codes_def)

section \<open>The coding of a function\<close>

definition enc_vector :: "u32 list \<Rightarrow> bytes" where
  "enc_vector ws = le_bytes 4 (of_nat (length ws) :: u32) @ concat (map (le_bytes 4) ws)"

definition enc_string :: "bytes option \<Rightarrow> bytes" where
  "enc_string s = (case s of None \<Rightarrow> le_bytes 8 (0 :: u64)
     | Some str \<Rightarrow> le_bytes 8 (of_nat (length str + 1) :: u64) @ str @ [0])"

definition enc_constant :: "TValue \<Rightarrow> bytes" where
  "enc_constant k = ttype k #
     (case k of TBoolean b \<Rightarrow> [ucast b] | TNumber n \<Rightarrow> le_bytes 8 n | TString s \<Rightarrow> enc_string (Some s) | _ \<Rightarrow> [])"

definition enc_list :: "('a \<Rightarrow> bytes) \<Rightarrow> 'a list \<Rightarrow> bytes" where
  "enc_list f xs = le_bytes 4 (of_nat (length xs) :: u32) @ concat (map f xs)"

lemma enc_list_cong [fundef_cong]:
  "xs = ys \<Longrightarrow> (\<And>x. x \<in> set ys \<Longrightarrow> f x = g x) \<Longrightarrow> enc_list f xs = enc_list g ys"
  by (simp add: enc_list_def cong: map_cong)

definition enc_locvar :: "LocVar \<Rightarrow> bytes" where
  "enc_locvar v = enc_string (varname v) @ le_bytes 4 (startpc v) @ le_bytes 4 (endpc v)"

definition enc_debug :: "bool \<Rightarrow> Proto \<Rightarrow> bytes" where
  "enc_debug strip f =
     enc_vector (if strip then [] else plineinfo f) @
     enc_list enc_locvar (if strip then [] else plocvars f) @
     enc_list enc_string (if strip then [] else pupvalues f)"

fun enc_function :: "bool \<Rightarrow> Proto \<Rightarrow> bytes option \<Rightarrow> bytes" where
  "enc_function strip f p =
     enc_string (if psource f = p \<or> strip then None else psource f) @
     le_bytes 4 (plinedefined f) @ le_bytes 4 (plastlinedefined f) @
     [pnups f] @ [pnumparams f] @ [pis_vararg f] @ [pmaxstacksize f] @
     enc_vector (pcode f) @ enc_list enc_constant (pk f) @
     enc_list (\<lambda>q. enc_function strip q (psource f)) (pp f) @ enc_debug strip f"

declare enc_function.simps [simp del]

text \<open>
  The contract of a writer: it takes every block and appends it to what it holds. Under it a
  dump holds the coding.
\<close>

locale sink =
  fixes w :: "bytes \<Rightarrow> 'u \<Rightarrow> u32 \<times> 'u"
    and out :: "'u \<Rightarrow> bytes"
  assumes accepts: "w b d = (st, d') \<Longrightarrow> st = 0 \<and> out d' = out d @ b"
begin

definition writes :: "'u DumpState \<Rightarrow> 'u DumpState \<Rightarrow> bytes \<Rightarrow> bool" where
  "writes D D' bs \<longleftrightarrow> D_writer D' = w \<and> D_strip D' = D_strip D \<and>
     D_status D' = 0 \<and> out (D_data D') = out (D_data D) @ bs"

lemma writes_refl: "D_writer D = w \<Longrightarrow> D_status D = 0 \<Longrightarrow> writes D D []"
  by (simp add: writes_def)

lemma writes_eq: "writes D D' bs \<Longrightarrow> bs = bs' \<Longrightarrow> writes D D' bs'"
  by simp

lemma writes_block: "writes D D1 a \<Longrightarrow> writes D (DumpBlock b D1) (a @ b)"
  using accepts [of b "D_data D1"] by (auto simp: writes_def DumpBlock_def split: prod.split)

lemma writes_char: "writes D D1 a \<Longrightarrow> writes D (DumpChar x D1) (a @ [x])"
  unfolding DumpChar_def by (rule writes_block)

lemma writes_int: "writes D D1 a \<Longrightarrow> writes D (DumpInt x D1) (a @ le_bytes 4 x)"
  unfolding DumpInt_def by (rule writes_block)

lemma writes_vector: "writes D D1 a \<Longrightarrow> writes D (DumpVector x D1) (a @ enc_vector x)"
  unfolding DumpVector_def enc_vector_def append_assoc [symmetric] by (intro writes_block writes_int)

lemma writes_string: "writes D D1 a \<Longrightarrow> writes D (DumpString s D1) (a @ enc_string s)"
proof (cases s)
  case (Some str)
  assume "writes D D1 a"
  then have "writes D (DumpString s D1) ((a @ le_bytes 8 (of_nat (length str + 1) :: u64)) @ (str @ [0]))"
    unfolding DumpString_def Some option.case by (intro writes_block)
  then show ?thesis by (simp add: Some enc_string_def)
qed (simp add: DumpString_def enc_string_def writes_block)

lemma writes_constant: "writes D D1 a \<Longrightarrow> writes D (DumpConstant k D1) (a @ enc_constant k)"
proof -
  assume D1: "writes D D1 a"
  note c = writes_char [OF D1]
  show ?thesis
    using c writes_char [OF c] writes_block [OF c] writes_string [OF c]
    by (cases k) (simp_all add: DumpConstant_def enc_constant_def DumpNumber_def)
qed

lemma writes_fold:
  assumes "\<And>x D1 a. x \<in> set xs \<Longrightarrow> writes D D1 a \<Longrightarrow> writes D (F x D1) (a @ f x)" and "writes D D1 a"
  shows "writes D (fold F xs D1) (a @ concat (map f xs))"
  using assms
proof (induction xs arbitrary: D1 a)
  case (Cons x xs)
  from Cons.IH [OF Cons.prems(1) Cons.prems(1) [of x, OF _ Cons.prems(2)]] show ?case by simp
qed simp

lemma writes_list:
  assumes "\<And>x D1 a. x \<in> set xs \<Longrightarrow> writes D D1 a \<Longrightarrow> writes D (F x D1) (a @ f x)" and "writes D D1 a"
  shows "writes D (fold F xs (DumpInt (of_nat (length xs)) D1)) (a @ enc_list f xs)"
  using writes_fold [OF assms(1) writes_int [OF assms(2), of "of_nat (length xs)"]]
  by (simp add: enc_list_def)

lemma writes_locvar: "writes D D1 a \<Longrightarrow> writes D (DumpLocVar v D1) (a @ enc_locvar v)"
  unfolding DumpLocVar_def enc_locvar_def append_assoc [symmetric] by (intro writes_int writes_string)

lemma writes_debug:
  assumes "writes D D1 a"
  shows "writes D (DumpDebug f D1) (a @ enc_debug (D_strip D) f)"
proof -
  let ?lines = "if D_strip D then [] else plineinfo f"
  let ?vars = "if D_strip D then [] else plocvars f"
  let ?ups = "if D_strip D then [] else pupvalues f"
  have strip: "writes D E b \<Longrightarrow> D_strip E = D_strip D" for E b by (simp add: writes_def)
  have 1: "writes D (DumpVector ?lines D1) (a @ enc_vector ?lines)" using assms by (rule writes_vector)
  note 2 = writes_list [where xs = ?vars, OF writes_locvar 1]
  note 3 = writes_list [where xs = ?ups, OF writes_string 2]
  show ?thesis
    using 3 strip [OF assms] strip [OF 1] strip [OF 2] by (simp add: DumpDebug_def enc_debug_def Let_def)
qed

lemma writes_function:
  "writes D D1 a \<Longrightarrow> writes D (DumpFunction f p D1) (a @ enc_function (D_strip D) f p)"
proof (induction "D_strip D" f p arbitrary: D1 a rule: enc_function.induct)
  case (1 f p)
  have strip: "D_strip D1 = D_strip D" using "1.prems" by (simp add: writes_def)
  have ps: "writes D (DumpFunction q (psource f) D2) (b @ enc_function (D_strip D) q (psource f))"
    if "q \<in> set (pp f)" "writes D D2 b" for q D2 b
    using "1.hyps" [OF that(1) that(2)] .
  show ?case
    unfolding DumpFunction.simps [of f p D1] enc_function.simps [of _ f p] Let_def strip append_assoc [symmetric]
    by (intro writes_debug writes_list writes_vector writes_char writes_int writes_string writes_constant
        ps "1.prems") assumption+
qed

lemma dump_out: "luaU_dump w data strip f = (st, data') \<Longrightarrow>
    st = 0 \<and> out data' = out data @ luaU_header @ enc_function strip f None"
proof -
  assume d: "luaU_dump w data strip f = (st, data')"
  define D :: "'u DumpState" where "D = \<lparr>D_writer = w, D_data = data, D_strip = strip, D_status = 0\<rparr>"
  have "writes D (DumpFunction f None (DumpBlock luaU_header D)) (([] @ luaU_header) @ enc_function (D_strip D) f None)"
    by (intro writes_function writes_block writes_refl) (simp_all add: D_def)
  then show ?thesis using d by (simp add: writes_def luaU_dump_def D_def Let_def)
qed

end

interpretation str: sink str_writer id
  by unfold_locales (simp_all add: str_writer_def)


section \<open>What can be loaded\<close>

definition int_ok :: "u32 \<Rightarrow> bool" where
  "int_ok x \<longleftrightarrow> 0 \<le> sint x"

definition string_ok :: "bytes option \<Rightarrow> bool" where
  "string_ok s \<longleftrightarrow> (case s of None \<Rightarrow> True | Some str \<Rightarrow> length str + 1 < 2 ^ 64)"

definition constant_ok :: "TValue \<Rightarrow> bool" where
  "constant_ok k \<longleftrightarrow> (case k of TNil \<Rightarrow> True | TBoolean b \<Rightarrow> b = 0 \<or> b = 1 | TNumber _ \<Rightarrow> True
     | TString s \<Rightarrow> string_ok (Some s) | _ \<Rightarrow> False)"

definition locvar_ok :: "LocVar \<Rightarrow> bool" where
  "locvar_ok v \<longleftrightarrow> string_ok (varname v) \<and> int_ok (startpc v) \<and> int_ok (endpc v)"

text \<open>A prototype as the parser makes it: sizes are \<open>int\<close>s, constants are constants, the source
  is known and the code passes the checker, here and in every function inside.\<close>

fun function_ok :: "Proto \<Rightarrow> bool" where
  "function_ok f \<longleftrightarrow>
     list_all constant_ok (pk f) \<and> length (pk f) < 2 ^ 31 \<and> length (pcode f) < 2 ^ 31 \<and>
     length (pp f) < 2 ^ 31 \<and> length (plineinfo f) < 2 ^ 31 \<and>
     list_all locvar_ok (plocvars f) \<and> length (plocvars f) < 2 ^ 31 \<and>
     list_all string_ok (pupvalues f) \<and> length (pupvalues f) < 2 ^ 31 \<and>
     psource f \<noteq> None \<and> string_ok (psource f) \<and> int_ok (plinedefined f) \<and> int_ok (plastlinedefined f) \<and>
     luaG_checkcode f = Inr True \<and> list_all function_ok (pp f)"

declare function_ok.simps [simp del]

fun depth :: "Proto \<Rightarrow> nat" where
  "depth f = Suc (foldr max (map depth (pp f)) 0)"

declare depth.simps [simp del]

lemma depth_inner: "q \<in> set (pp f) \<Longrightarrow> depth q < depth f"
proof -
  have "x \<in> set xs \<Longrightarrow> x \<le> foldr max xs 0" for x :: nat and xs
    by (induction xs) auto
  then show "q \<in> set (pp f) \<Longrightarrow> depth q < depth f"
    by (simp add: depth.simps [of f] less_Suc_eq_le)
qed

text \<open>What is left of a function dumped without its debug information.\<close>

fun stripped :: "Proto \<Rightarrow> Proto" where
  "stripped f = Proto (pk f) (pcode f) (map stripped (pp f)) [] [] [] (Some (ascii ''=?''))
     (plinedefined f) (plastlinedefined f) (pnups f) (pnumparams f) (pis_vararg f) (pmaxstacksize f)"

declare stripped.simps [simp del]

lemma stripped_sel [simp]:
  "pk (stripped f) = pk f" "pcode (stripped f) = pcode f" "pnups (stripped f) = pnups f"
  "pp (stripped f) = map stripped (pp f)" "plineinfo (stripped f) = []" "plocvars (stripped f) = []"
  "pupvalues (stripped f) = []" "psource (stripped f) = Some (ascii ''=?'')"
  "plinedefined (stripped f) = plinedefined f" "plastlinedefined (stripped f) = plastlinedefined f"
  "pnumparams (stripped f) = pnumparams f" "pis_vararg (stripped f) = pis_vararg f"
  "pmaxstacksize (stripped f) = pmaxstacksize f"
  by (simp_all add: stripped.simps [of f])

text \<open>The checker does not look at what is stripped.\<close>

lemma strip_sizes [simp]:
  "sizecode (stripped f) = sizecode f" "sizek (stripped f) = sizek f" "sizep (stripped f) = sizep f"
  "maxstack (stripped f) = maxstack f" "checkreg (stripped f) = checkreg f" "code_at (stripped f) = code_at f"
  by (simp_all add: sizecode_def sizek_def sizep_def maxstack_def checkreg_def fun_eq_iff code_at_def)

lemma strip_setlists [simp]: "setlists_before (stripped f) d = setlists_before f d"
  by (induction d) (simp_all cong: if_cong)

lemma strip_pseudo [simp]: "checkpseudo (stripped f) pc n = checkpseudo f pc n"
  by (induction n arbitrary: pc) (simp_all cong: if_cong)

lemma strip_ArgMode [simp]: "checkArgMode (stripped f) r m = checkArgMode f r m"
  by (cases m) simp_all

lemma at_map: "rbind (at (map h xs) i) F = rbind (at xs i) (\<lambda>x. F (h x))"
  by (auto simp: at_def)

lemma strip_args [simp]: "checkargs (stripped f) pc i op = checkargs f pc i op"
  unfolding checkargs_def strip_sizes strip_ArgMode strip_setlists ..

lemma strip_op [simp]:
  "symbexec_op (stripped f) lastpc reg pc l op a b c = symbexec_op f lastpc reg pc l op a b c"
  unfolding symbexec_op_def strip_sizes strip_pseudo stripped_sel at_map Let_def ..

lemma strip_step [simp]: "symbexec_step (stripped f) lastpc reg pc l = symbexec_step f lastpc reg pc l"
  unfolding symbexec_step_def strip_sizes strip_args strip_op ..

lemma strip_loop [simp]: "symbexec_loop (stripped f) lastpc reg pc l = symbexec_loop f lastpc reg pc l"
proof (induction f lastpc reg pc l rule: symbexec_loop.induct)
  case (1 f lastpc reg pc l)
  then show ?case
    by (auto simp: symbexec_loop.simps [of _ lastpc reg pc l] split: sum.split option.split prod.split)
qed

lemma strip_check: "luaG_checkcode f = Inr True \<Longrightarrow> luaG_checkcode (stripped f) = Inr True"
  by (auto simp: checkcode_iff precheck_def)

section \<open>Loading what was dumped\<close>

context reader_stream begin

definition loader :: "'d LoadState \<Rightarrow> ('d zio \<Rightarrow> ('a \<times> 'd zio) result) \<Rightarrow> 'a \<Rightarrow> bytes \<Rightarrow> bool" where
  "loader S g x bs \<longleftrightarrow> codes stream (load_error S ''unexpected end'') g x bs"

lemma loader_return: "loader S (\<lambda>z. Inr (x, z)) x []"
  by (simp add: loader_def codes_return)

lemma loader_bind: "loader S g x bs \<Longrightarrow> loader S (f x) y bs' \<Longrightarrow>
    loader S (\<lambda>z. rbind (g z) (\<lambda>(v, z). f v z)) y (bs @ bs')"
  by (simp add: loader_def codes_bind)

lemma loader_last: "loader S g x bs \<Longrightarrow> loader S (f x) y [] \<Longrightarrow>
    loader S (\<lambda>z. rbind (g z) (\<lambda>(v, z). f v z)) y bs"
  using loader_bind [of S g x bs f y "[]"] by simp

lemma loader_block: "S_reader S = rd \<Longrightarrow> length bs = n \<Longrightarrow> loader S (LoadBlock S n) bs bs"
proof -
  assume S: "S_reader S = rd" and n: "length bs = n"
  have ok: "\<exists>z'. LoadBlock S n z = Inr (bs, z') \<and> stream z' = r" if "stream z = bs @ r" for z r
  proof -
    obtain m b z' where read: "luaZ_read rd z n = (m, b, z')" by (metis prod_cases3)
    then show ?thesis using read_stream [OF read] that n by (simp add: LoadBlock_def S)
  qed
  have "LoadBlock S n z = Inl (load_error S ''unexpected end'')" if "strict_prefix (stream z) bs" for z
  proof -
    obtain m b z' where read: "luaZ_read rd z n = (m, b, z')" by (metis prod_cases3)
    moreover have "length (stream z) < n" using prefix_length_less [OF that] n by simp
    ultimately show ?thesis using read_stream [OF read] by (simp add: LoadBlock_def S)
  qed
  with ok show ?thesis by (simp add: loader_def codes_def)
qed

lemma loader_char: "S_reader S = rd \<Longrightarrow> loader S (LoadChar S) x [x]"
  unfolding LoadChar_def [abs_def]
  by (rule loader_last [OF loader_block [of S "[x]"]]) (simp_all add: loader_return)

lemma loader_int: "S_reader S = rd \<Longrightarrow> int_ok x \<Longrightarrow> loader S (LoadInt S) x (le_bytes 4 x)"
  unfolding LoadInt_def [abs_def]
  by (rule loader_last [OF loader_block [of S "le_bytes 4 x"]]) (simp_all add: loader_return int_ok_def)

lemma loader_number: "S_reader S = rd \<Longrightarrow> loader S (LoadNumber S) x (le_bytes 8 x)"
  unfolding LoadNumber_def [abs_def]
  by (rule loader_last [OF loader_block [of S "le_bytes 8 x"]]) (simp_all add: loader_return)

lemma loader_string: "S_reader S = rd \<Longrightarrow> string_ok s \<Longrightarrow> loader S (LoadString S) s (enc_string s)"
proof (cases s)
  case None
  assume S: "S_reader S = rd"
  show ?thesis
    unfolding LoadString_def [abs_def] enc_string_def None option.case
    by (rule loader_last [OF loader_block [OF S]]) (simp_all add: loader_return)
next
  case (Some str)
  assume S: "S_reader S = rd" and ok: "string_ok s"
  have "unat (of_nat (length str + 1) :: u64) = length str + 1"
    using ok Some by (intro unat_of_nat_small) (simp add: string_ok_def)
  then have size: "unat (1 + word_of_nat (length str) :: u64) = length str + 1" by (simp add: add.commute)
  show ?thesis
    unfolding LoadString_def [abs_def] enc_string_def Some option.case
    by (rule loader_bind [OF loader_block [OF S]], simp, simp add: size,
        rule loader_last [OF loader_block [OF S]], simp, simp add: loader_return)
qed

lemma int_ok_size: "n < 2 ^ 31 \<Longrightarrow> int_ok (of_nat n) \<and> unat (of_nat n :: u32) = n"
  by (simp add: int_ok_def unat_of_nat_small sint_of_nat_small)

lemma loader_vector:
  assumes S: "S_reader S = rd" and n: "length ws < 2 ^ 31"
  shows "loader S (LoadVector S) ws (enc_vector ws)"
proof -
  have len: "length (concat (map (le_bytes 4) ws)) = length ws * 4"
    by (induction ws) simp_all
  show ?thesis
    unfolding LoadVector_def [abs_def] enc_vector_def
    by (rule loader_bind [OF loader_int [OF S]], use int_ok_size [OF n] in simp,
        rule loader_last [OF loader_block [OF S]], use int_ok_size [OF n] len in simp,
        use int_ok_size [OF n] in \<open>simp add: words4_concat loader_return\<close>)
qed

lemma loader_n:
  "(\<And>x. x \<in> set xs \<Longrightarrow> loader S g (h x) (f x)) \<Longrightarrow> loader S (load_n g (length xs)) (map h xs) (concat (map f xs))"
  by (simp add: loader_def codes_n list_all_iff)

lemma loader_list:
  assumes S: "S_reader S = rd" and n: "length xs < 2 ^ 31"
    and "\<And>x. x \<in> set xs \<Longrightarrow> loader S g (h x) (f x)"
    and "loader S (F (map h xs)) y bs"
  shows "loader S (\<lambda>z. rbind (LoadInt S z) (\<lambda>(n, z). rbind (load_n g (unat n) z) (\<lambda>(v, z). F v z))) y
    (enc_list f xs @ bs)"
proof -
  note size = int_ok_size [OF n]
  have "loader S (\<lambda>z. rbind (load_n g (unat (of_nat (length xs) :: u32)) z) (\<lambda>(v, z). F v z)) y
      (concat (map f xs) @ bs)"
    using loader_bind [where f = F, OF loader_n [OF assms(3)] assms(4)] size by simp
  with loader_bind [where f = "\<lambda>n z. rbind (load_n g (unat n) z) (\<lambda>(v, z). F v z)",
      OF loader_int [OF S]] size
  show ?thesis by (simp add: enc_list_def)
qed

lemma loader_constant:
  assumes S: "S_reader S = rd" and k: "constant_ok k"
  shows "loader S (LoadConstant S) k (enc_constant k)"
proof -
  have app: "enc_constant k = [ttype k] @
      (case k of TBoolean b \<Rightarrow> [ucast b] | TNumber n \<Rightarrow> le_bytes 8 n | TString s \<Rightarrow> enc_string (Some s) | _ \<Rightarrow> [])"
    by (simp add: enc_constant_def)
  show ?thesis
    unfolding LoadConstant_def [abs_def] app
  proof (rule loader_bind [OF loader_char [OF S]], cases k)
    case (TBoolean b)
    then have "b = 0 \<or> b = 1" using k by (simp add: constant_ok_def)
    then show "loader S (\<lambda>z. if ttype k = 0 then Inr (TNil, z)
        else if ttype k = 1 then rbind (LoadChar S z) (\<lambda>(b, z). Inr (TBoolean (if b \<noteq> 0 then 1 else 0), z))
        else if ttype k = 3 then rbind (LoadNumber S z) (\<lambda>(n, z). Inr (TNumber n, z))
        else if ttype k = 4 then rbind (LoadString S z) (\<lambda>(s, z).
          case s of Some s \<Rightarrow> Inr (TString s, z) | None \<Rightarrow> Inl InvalidPointer)
        else Inl (load_error S ''bad constant'')) k
      (case k of TBoolean b \<Rightarrow> [ucast b] | TNumber n \<Rightarrow> le_bytes 8 n | TString s \<Rightarrow> enc_string (Some s) | _ \<Rightarrow> [])"
      using loader_last [OF loader_char [OF S], of "\<lambda>b z. Inr (TBoolean (if b \<noteq> 0 then 1 else 0), z)" "ucast b" k]
        TBoolean by (auto simp: loader_return)
  qed (use k in \<open>auto simp: constant_ok_def loader_return intro: loader_last loader_number [OF S] loader_string [OF S]\<close>)
qed

lemma loader_locvar:
  assumes S: "S_reader S = rd" and v: "locvar_ok v"
  shows "loader S (LoadLocVar S) v (enc_locvar v)"
  using v unfolding LoadLocVar_def [abs_def] enc_locvar_def locvar_ok_def
  by (intro loader_bind [OF loader_string [OF S]] loader_bind [OF loader_int [OF S]]
      loader_last [OF loader_int [OF S]]) (cases v, simp_all add: loader_return)+

lemma loader_constants:
  assumes S: "S_reader S = rd" and "length ks < 2 ^ 31" "length ps < 2 ^ 31" "list_all constant_ok ks"
    and "\<And>q. q \<in> set ps \<Longrightarrow> loader S loadf (h q) (e q)"
  shows "loader S (LoadConstants S loadf) (ks, map h ps) (enc_list enc_constant ks @ enc_list e ps)"
proof -
  have ks: "x \<in> set ks \<Longrightarrow> loader S (LoadConstant S) x (enc_constant x)" for x
    using loader_constant [OF S] assms(4) by (simp add: list_all_iff)
  have "loader S (\<lambda>z. rbind (LoadInt S z) (\<lambda>(n, z). rbind (load_n loadf (unat n) z)
      (\<lambda>(p, z). Inr ((ks, p), z)))) (ks, map h ps) (enc_list e ps @ [])"
    by (rule loader_list [OF S assms(3,5)]) (simp_all add: loader_return)
  then have "loader S (\<lambda>z. rbind (LoadInt S z) (\<lambda>(n, z). rbind (load_n loadf (unat n) z)
      (\<lambda>(p, z). Inr ((map (\<lambda>x. x) ks, p), z)))) (ks, map h ps) (enc_list e ps)" by simp
  with loader_list [where F = "\<lambda>k z. rbind (LoadInt S z) (\<lambda>(n, z).
       rbind (load_n loadf (unat n) z) (\<lambda>(p, z). Inr ((k, p), z)))" and h = "\<lambda>x. x", OF S assms(2) ks]
  show ?thesis unfolding LoadConstants_def [abs_def] by blast
qed

lemma loader_debug:
  assumes S: "S_reader S = rd" and f: "function_ok f"
  shows "loader S (LoadDebug S)
    (if strip then ([], [], []) else (plineinfo f, plocvars f, pupvalues f)) (enc_debug strip f)"
proof -
  define ls where "ls = (if strip then [] else plineinfo f)"
  define vs where "vs = (if strip then [] else plocvars f)"
  define us where "us = (if strip then [] else pupvalues f)"
  have n: "length ls < 2 ^ 31" "length vs < 2 ^ 31" "length us < 2 ^ 31"
    using f by (simp_all add: ls_def vs_def us_def function_ok.simps [of f])
  have v: "x \<in> set vs \<Longrightarrow> loader S (LoadLocVar S) x (enc_locvar x)" for x
    using f loader_locvar [OF S] by (auto simp: vs_def function_ok.simps [of f] list_all_iff split: if_splits)
  have u: "x \<in> set us \<Longrightarrow> loader S (LoadString S) x (enc_string x)" for x
    using f loader_string [OF S] by (auto simp: us_def function_ok.simps [of f] list_all_iff split: if_splits)
  have 1: "loader S (\<lambda>z. rbind (LoadInt S z) (\<lambda>(n, z). rbind (load_n (LoadString S) (unat n) z)
      (\<lambda>(ups, z). Inr ((ls, map (\<lambda>x. x) vs, ups), z)))) (ls, vs, us) (enc_list enc_string us @ [])"
    by (rule loader_list [where h = "\<lambda>x. x", OF S n(3) u]) (simp_all add: loader_return)
  have 2: "loader S (\<lambda>z. rbind (LoadInt S z) (\<lambda>(n, z). rbind (load_n (LoadLocVar S) (unat n) z)
      (\<lambda>(vars, z). rbind (LoadInt S z) (\<lambda>(n, z). rbind (load_n (LoadString S) (unat n) z)
      (\<lambda>(ups, z). Inr ((ls, vars, ups), z)))))) (ls, vs, us) (enc_list enc_locvar vs @ enc_list enc_string us @ [])"
    using loader_list [where h = "\<lambda>x. x" and F = "\<lambda>vars z. rbind (LoadInt S z) (\<lambda>(n, z).
      rbind (load_n (LoadString S) (unat n) z) (\<lambda>(ups, z). Inr ((ls, vars, ups), z)))", OF S n(2) v 1] .
  have "loader S (LoadDebug S) (ls, vs, us) (enc_vector ls @ (enc_list enc_locvar vs @ enc_list enc_string us @ []))"
    unfolding LoadDebug_def [abs_def]
    by (rule loader_bind [OF loader_vector [OF S n(1)]]) (rule 2)
  moreover have "(if strip then ([], [], []) else (plineinfo f, plocvars f, pupvalues f)) = (ls, vs, us)"
    by (simp add: ls_def vs_def us_def)
  ultimately show ?thesis by (simp add: enc_debug_def ls_def vs_def us_def)
qed

lemma loader_function:
  assumes "S_reader S = rd" and "function_ok f" and "nCcalls + depth f \<le> LUAI_MAXCCALLS"
    and "if strip then p = Some (ascii ''=?'') else psource f = pd \<longrightarrow> p = pd"
  shows "loader S (LoadFunction S nCcalls p) (if strip then stripped f else f) (enc_function strip f pd)"
  using assms
proof (induction strip f pd arbitrary: nCcalls p rule: enc_function.induct)
  case (1 strip f pd)
  note S = "1.prems"(1) and ok = "1.prems"(2) and deep = "1.prems"(3) and srcs = "1.prems"(4)
  let ?h = "\<lambda>q. if strip then stripped q else q"
  let ?src = "psource (?h f)"
  have len: "length (pcode f) < 2 ^ 31" "length (pk f) < 2 ^ 31" "length (pp f) < 2 ^ 31"
    "list_all constant_ok (pk f)" "int_ok (plinedefined f)" "int_ok (plastlinedefined f)"
    using ok by (simp_all add: function_ok.simps [of f])
  have more: "nCcalls + 1 \<le> LUAI_MAXCCALLS" using deep depth.simps [of f] by simp
  have "loader S (LoadFunction S (nCcalls + 1) ?src) (?h q) (enc_function strip q (psource f))" if "q \<in> set (pp f)" for q
  proof (rule "1.IH" [OF that S])
    show "function_ok q" using ok that by (simp add: function_ok.simps [of f] list_all_iff)
    show "nCcalls + 1 + depth q \<le> LUAI_MAXCCALLS" using deep depth_inner [OF that] by simp
    show "if strip then ?src = Some (ascii ''=?'') else psource q = psource f \<longrightarrow> ?src = psource f" by simp
  qed
  note inner = loader_constants [OF S len(2,3,4) this]
  have chk: "luaG_checkcode (?h f) = Inr True"
    using ok strip_check [of f] by (simp add: function_ok.simps [of f])
  have src: "string_ok (if psource f = pd \<or> strip then None else psource f)"
    using ok by (simp add: function_ok.simps [of f] string_ok_def)
  have srcv: "(case (if psource f = pd \<or> strip then None else psource f) of None \<Rightarrow> p | Some s \<Rightarrow> Some s) = ?src"
    using srcs ok by (auto simp: function_ok.simps [of f] split: option.split)
  have whole: "Proto (pk f) (pcode f) (map ?h (pp f))
      (fst dbg) (fst (snd dbg)) (snd (snd dbg)) ?src (plinedefined f) (plastlinedefined f) (pnups f)
      (pnumparams f) (pis_vararg f) (pmaxstacksize f) = ?h f"
    if "dbg = (if strip then ([], [], []) else (plineinfo f, plocvars f, pupvalues f))" for dbg
    using that by (cases f) (simp add: stripped.simps)
  let ?rest = "enc_function strip f pd"
  have bytes: "enc_function strip f pd =
     enc_string (if psource f = pd \<or> strip then None else psource f) @
     le_bytes 4 (plinedefined f) @ le_bytes 4 (plastlinedefined f) @
     [pnups f] @ [pnumparams f] @ [pis_vararg f] @ [pmaxstacksize f] @
     enc_vector (pcode f) @ (enc_list enc_constant (pk f) @
     enc_list (\<lambda>q. enc_function strip q (psource f)) (pp f)) @ enc_debug strip f"
    by (simp add: enc_function.simps [of strip f pd])
  have body: "LoadFunction S nCcalls p = (\<lambda>z. rbind (LoadString S z) (\<lambda>(src, z).
        let src = (case src of None \<Rightarrow> p | Some s \<Rightarrow> Some s) in
        rbind (LoadInt S z) (\<lambda>(linedefined, z).
        rbind (LoadInt S z) (\<lambda>(lastlinedefined, z).
        rbind (LoadChar S z) (\<lambda>(nups, z).
        rbind (LoadChar S z) (\<lambda>(numparams, z).
        rbind (LoadChar S z) (\<lambda>(is_vararg, z).
        rbind (LoadChar S z) (\<lambda>(maxstacksize, z).
        rbind (LoadVector S z) (\<lambda>(code, z).
        rbind (LoadConstants S (LoadFunction S (nCcalls + 1) src) z) (\<lambda>((k, ps), z).
        rbind (LoadDebug S z) (\<lambda>((lines, vars, ups), z).
        let f = Proto k code ps lines vars ups src linedefined lastlinedefined nups numparams
                  is_vararg maxstacksize
        in rbind (luaG_checkcode f) (\<lambda>ok.
           if ok then Inr (f, z) else Inl (load_error S ''bad code'')))))))))))))"
    using more by (simp add: fun_eq_iff LoadFunction.simps [of S nCcalls p])
  show ?case
    unfolding body bytes
    by (rule loader_bind [OF loader_string [OF S src]], unfold srcv Let_def,
        rule loader_bind [OF loader_int [OF S len(5)]], rule loader_bind [OF loader_int [OF S len(6)]],
        (rule loader_bind [OF loader_char [OF S]])+, rule loader_bind [OF loader_vector [OF S len(1)]],
        rule loader_bind [OF inner], assumption, unfold prod.case, rule loader_last [OF loader_debug [OF S ok, of strip]])
      (use whole [OF refl] chk in \<open>simp add: case_prod_beta loader_return\<close>)
qed

lemma loader_undump:
  assumes "S_reader S = rd" and f: "function_ok f" and "nCcalls + depth f \<le> LUAI_MAXCCALLS"
  shows "loader S (\<lambda>z. rbind (LoadHeader S z) (\<lambda>(_, z). LoadFunction S nCcalls (Some (ascii ''=?'')) z))
    (if strip then stripped f else f) (luaU_header @ enc_function strip f None)"
proof (rule loader_bind)
  have "loader S (LoadHeader S) () (luaU_header)"
    unfolding LoadHeader_def [abs_def]
    by (rule loader_last [OF loader_block [OF assms(1), of luaU_header]])
      (simp_all add: loader_return LUAC_HEADERSIZE_def luaU_header_def LUA_SIGNATURE_def ascii_def)
  then show "loader S (LoadHeader S) () (luaU_header)" .
  show "loader S (LoadFunction S nCcalls (Some (ascii ''=?''))) (if strip then stripped f else f) (enc_function strip f None)"
    using f by (intro loader_function [OF assms]) (simp add: function_ok.simps [of f])
qed

lemma undump_ok:
  assumes "function_ok f" and "nCcalls + depth f \<le> LUAI_MAXCCALLS"
    and "stream z = luaU_header @ enc_function strip f None @ r"
  shows "\<exists>z'. luaU_undump rd nCcalls name z = Inr (if strip then stripped f else f, z') \<and> stream z' = r"
  using codes_ok [OF loader_undump [of "\<lparr>S_reader = rd, S_name = chunk_name name\<rparr>" f nCcalls strip,
      unfolded loader_def, OF _ assms(1,2)], of z r] assms(3)
  by (simp add: luaU_undump_def Let_def)

lemma undump_eof:
  assumes "function_ok f" and "nCcalls + depth f \<le> LUAI_MAXCCALLS"
    and "strict_prefix (stream z) (luaU_header @ enc_function strip f None)"
  shows "luaU_undump rd nCcalls name z = Inl (LuaError (chunk_name name @ '': unexpected end in precompiled chunk''))"
  using codes_eof [OF loader_undump [of "\<lparr>S_reader = rd, S_name = chunk_name name\<rparr>" f nCcalls strip,
      unfolded loader_def, OF _ assms(1,2)], of z] assms(3)
  by (simp add: luaU_undump_def load_error_def Let_def)

end

lemma dump_stopped: "D_status D \<noteq> 0 \<Longrightarrow> DumpFunction f p (D :: 'u DumpState) = D"
proof (induction f arbitrary: p D rule: measure_induct_rule [of size])
  case (less f)
  have block: "D_status D \<noteq> 0 \<Longrightarrow> DumpBlock b D = D" for b and D :: "'u DumpState" by (simp add: DumpBlock_def)
  have fold_id: "(\<And>x. x \<in> set xs \<Longrightarrow> F x E = E) \<Longrightarrow> fold F xs E = E"
    for F :: "'x \<Rightarrow> 'u DumpState \<Rightarrow> 'u DumpState" and xs E by (induction xs) simp_all
  have str: "DumpString s E = E" and chr: "DumpChar c E = E" and int: "DumpInt i E = E"
    and vec: "DumpVector ws E = E" if "D_status E \<noteq> 0" for s c i ws and E :: "'u DumpState"
    using that by (simp_all add: DumpString_def DumpChar_def DumpInt_def DumpVector_def block split: option.split)
  have con: "DumpConstant k E = E" if "D_status E \<noteq> 0" for k and E :: "'u DumpState"
    using that by (cases k) (simp_all add: DumpConstant_def chr str DumpNumber_def block)
  have loc: "DumpLocVar v E = E" if "D_status E \<noteq> 0" for v and E :: "'u DumpState"
    using that by (simp add: DumpLocVar_def int str)
  have dbg: "DumpDebug f E = E" if "D_status E \<noteq> 0" for E :: "'u DumpState"
    using that by (simp add: DumpDebug_def vec int str loc fold_id Let_def)
  have ps: "fold (\<lambda>q D. DumpFunction q (psource f) D) (pp f) D = D"
    using less.IH [OF size_inner less.prems] by (intro fold_id)
  have ks: "fold DumpConstant (pk f) D = D" using con [OF less.prems] by (intro fold_id)
  show ?case
    unfolding DumpFunction.simps [of f p D] Let_def str [OF less.prems] int [OF less.prems]
      chr [OF less.prems] vec [OF less.prems] ks ps dbg [OF less.prems] ..
qed

section \<open>Properties\<close>

definition sample_function :: Proto where
  "sample_function = Proto [TString [104, 105], TNumber 0] [1, 0x100001E]
     [Proto [] [0x80001E] [] [7] [] [] (Some [64]) 7 7 0 0 0 2]
     [3, 4] [\<lparr>varname = Some [120], startpc = 1, endpc = 2\<rparr>] [] (Some [64]) 0 9 0 0 2 2"

lemma sample_ok: "function_ok sample_function" "depth sample_function = 2"
proof -
  have "luaG_checkcode sample_function = Inr True"
    "luaG_checkcode (Proto [] [0x80001E] [] [7] [] [] (Some [64]) 7 7 0 0 0 2) = Inr True"
    by code_simp+
  then show "function_ok sample_function" "depth sample_function = 2"
    by (simp_all add: sample_function_def function_ok.simps depth.simps constant_ok_def locvar_ok_def
        string_ok_def int_ok_def)
qed

text \<open>
  C22. A dumped function loads back: \<open>luaU_undump\<close> of what \<open>luaU_dump\<close> writes returns the same
  prototype, or its stripped form when the debug information was left out, whichever way the
  reader splits the bytes into blocks. (The functions must nest no deeper than the C calls
  left, and be what the compiler produces: valid code, a source name, sizes within \<open>int\<close>.)
\<close>

theorem dump_undump:
  assumes "function_ok f" and "nCcalls + depth f \<le> LUAI_MAXCCALLS"
    and "luaU_dump str_writer [] strip f = (st, bs)"
  shows "st = 0 \<and>
    (\<exists>z. luaU_undump getS nCcalls name (luaZ_init bs) = Inr (if strip then stripped f else f, z)) \<and>
    (\<forall>ps. [] \<notin> set ps \<and> concat ps = bs \<longrightarrow>
      (\<exists>z. luaU_undump generic_reader nCcalls name (luaZ_init ps) = Inr (if strip then stripped f else f, z)))"
proof (intro conjI allI impI)
  have d: "st = 0" "bs = luaU_header @ enc_function strip f None"
    using str.dump_out [OF assms(3)] by simp_all
  then show "st = 0" by simp
  have "string_reader.stream (luaZ_init bs) = luaU_header @ enc_function strip f None @ []"
    by (simp add: string_reader.stream_def luaZ_init_def d)
  from string_reader.undump_ok [OF assms(1,2) this]
  show "\<exists>z. luaU_undump getS nCcalls name (luaZ_init bs) = Inr (if strip then stripped f else f, z)" by blast
  fix ps
  assume ps: "[] \<notin> set ps \<and> concat ps = bs"
  have "takeWhile (\<lambda>p. p \<noteq> []) ps = ps" using ps by (intro takeWhile_eq_all_conv [THEN iffD2]) auto
  then have "piece_reader.stream (luaZ_init ps) = luaU_header @ enc_function strip f None @ []"
    using ps d by (simp add: piece_reader.stream_def luaZ_init_def pieces_def del: takeWhile_eq_all_conv)
  from piece_reader.undump_ok [OF assms(1,2) this]
  show "\<exists>z. luaU_undump generic_reader nCcalls name (luaZ_init ps) = Inr (if strip then stripped f else f, z)"
    by blast
qed

theorem dump_undump_witness:
  "\<exists>z. luaU_undump getS 0 ''=x'' (luaZ_init (snd (luaU_dump str_writer [] True sample_function))) =
    Inr (stripped sample_function, z)"
  using dump_undump [OF sample_ok(1), of 0 True "fst (luaU_dump str_writer [] True sample_function)"
      "snd (luaU_dump str_writer [] True sample_function)" "''=x''"] sample_ok(2)
  by (simp add: LUAI_MAXCCALLS_def)

text \<open>
  A chunk cut short is refused, wherever it is cut: loading a proper prefix of a dump fails
  with the error for an unexpected end, never with another error or a function.
\<close>

theorem truncated_chunk_refused:
  assumes "function_ok f" and "nCcalls + depth f \<le> LUAI_MAXCCALLS"
    and "luaU_dump str_writer [] strip f = (st, bs)" and "n < length bs"
  shows "luaU_undump getS nCcalls name (luaZ_init (take n bs)) =
    Inl (LuaError (chunk_name name @ '': unexpected end in precompiled chunk''))"
proof -
  have d: "bs = luaU_header @ enc_function strip f None"
    using str.dump_out [OF assms(3)] by simp
  have "strict_prefix (take n bs) bs" using assms(4) by (metis append_take_drop_id prefixI strict_prefixI take_eq_Nil
        drop_eq_Nil not_le append_self_conv)
  then have "strict_prefix (string_reader.stream (luaZ_init (take n bs))) (luaU_header @ enc_function strip f None)"
    by (simp add: string_reader.stream_def luaZ_init_def d)
  from string_reader.undump_eof [OF assms(1,2) this] show ?thesis .
qed

theorem truncated_chunk_refused_witness:
  "luaU_undump getS 0 ''=x'' (luaZ_init (take 5 (snd (luaU_dump str_writer [] False sample_function)))) =
    Inl (LuaError ''x: unexpected end in precompiled chunk'')"
proof -
  have "luaU_dump str_writer [] False sample_function =
      (0, luaU_header @ enc_function False sample_function None)"
    using str.dump_out [of "[]" False sample_function] by (cases "luaU_dump str_writer [] False sample_function") auto
  moreover have "length luaU_header = 12" by (simp add: luaU_header_def LUA_SIGNATURE_def ascii_def)
  ultimately show ?thesis
    using truncated_chunk_refused [OF sample_ok(1), of 0 False 0 _ 5 "''=x''"] sample_ok(2)
    by (simp add: LUAI_MAXCCALLS_def chunk_name_def)
qed

text \<open>
  When the writer fails, dumping stops: after a block that the writer refuses it is not
  called again, and its status and data are what \<open>luaU_dump\<close> returns.
\<close>

theorem dump_stops_on_error:
  assumes "D_status D \<noteq> 0"
  shows "DumpFunction f p (D :: 'u DumpState) = D \<and>
    (w luaU_header data = (st, d) \<and> st \<noteq> 0 \<longrightarrow> luaU_dump w data strip f = (st, d))"
  using assms by (auto simp: dump_stopped luaU_dump_def Let_def DumpBlock_def)

theorem dump_stops_on_error_witness:
  "luaU_dump (\<lambda>b n. (7, n + length b)) 0 False sample_function = (7, 12)"
proof -
  have "length luaU_header = 12" by (simp add: luaU_header_def LUA_SIGNATURE_def ascii_def)
  then show ?thesis
    using dump_stops_on_error [of "\<lparr>D_writer = \<lambda>b n. (7, n), D_data = 0 :: nat, D_strip = False, D_status = 7\<rparr>"
        sample_function None "\<lambda>b n. (7, n + length b)" 0 7 12 False]
    by simp
qed

end
