(* ===== verification/LuaLex.thy ===== *)
theory LuaLex
  imports LuaObject LuaZio
begin

text \<open>
  The lexical analyser, llex.c and llex.h, reading from a string (the reader \<open>getS\<close>), with
  \<open>addquoted\<close> of lstrlib.c, which writes the strings it reads.

  \<open>ls_buff\<close> holds the \<open>n\<close> characters of the token buffer and \<open>ls_buffsize\<close> its size;
  \<open>ls_names\<close> is the set of strings anchored in the function's table. The C library's
  \<open>strtod\<close>, \<open>strtoul\<close> and \<open>localeconv\<close> are parameters. Characters are classified as in the C
  locale.
\<close>

section \<open>Tokens\<close>

datatype RESERVED =
    TK_AND | TK_BREAK
  | TK_DO | TK_ELSE | TK_ELSEIF | TK_END | TK_FALSE | TK_FOR | TK_FUNCTION
  | TK_IF | TK_IN | TK_LOCAL | TK_NIL | TK_NOT | TK_OR | TK_REPEAT
  | TK_RETURN | TK_THEN | TK_TRUE | TK_UNTIL | TK_WHILE
  | TK_CONCAT | TK_DOTS | TK_EQ | TK_GE | TK_LE | TK_NE | TK_NUMBER
  | TK_NAME | TK_STRING | TK_EOS

text \<open>A token is a character or a reserved value (in C, an \<open>int\<close> below or from \<open>FIRST_RESERVED\<close>).\<close>

datatype token = TK_CHAR int | TK RESERVED

fun luaX_tokens :: "RESERVED \<Rightarrow> string" where
  "luaX_tokens TK_AND = ''and''" | "luaX_tokens TK_BREAK = ''break''" | "luaX_tokens TK_DO = ''do''"
| "luaX_tokens TK_ELSE = ''else''" | "luaX_tokens TK_ELSEIF = ''elseif''" | "luaX_tokens TK_END = ''end''"
| "luaX_tokens TK_FALSE = ''false''" | "luaX_tokens TK_FOR = ''for''"
| "luaX_tokens TK_FUNCTION = ''function''" | "luaX_tokens TK_IF = ''if''" | "luaX_tokens TK_IN = ''in''"
| "luaX_tokens TK_LOCAL = ''local''" | "luaX_tokens TK_NIL = ''nil''" | "luaX_tokens TK_NOT = ''not''"
| "luaX_tokens TK_OR = ''or''" | "luaX_tokens TK_REPEAT = ''repeat''" | "luaX_tokens TK_RETURN = ''return''"
| "luaX_tokens TK_THEN = ''then''" | "luaX_tokens TK_TRUE = ''true''" | "luaX_tokens TK_UNTIL = ''until''"
| "luaX_tokens TK_WHILE = ''while''" | "luaX_tokens TK_CONCAT = ''..''" | "luaX_tokens TK_DOTS = ''...''"
| "luaX_tokens TK_EQ = ''==''" | "luaX_tokens TK_GE = ''>=''" | "luaX_tokens TK_LE = ''<=''"
| "luaX_tokens TK_NE = ''~=''" | "luaX_tokens TK_NUMBER = ''<number>''" | "luaX_tokens TK_NAME = ''<name>''"
| "luaX_tokens TK_STRING = ''<string>''" | "luaX_tokens TK_EOS = ''<eof>''"

text \<open>The reserved words that \<open>luaX_init\<close> marks, in their order.\<close>

definition reserved_words :: "RESERVED list" where
  "reserved_words = [TK_AND, TK_BREAK, TK_DO, TK_ELSE, TK_ELSEIF, TK_END, TK_FALSE, TK_FOR, TK_FUNCTION,
     TK_IF, TK_IN, TK_LOCAL, TK_NIL, TK_NOT, TK_OR, TK_REPEAT, TK_RETURN, TK_THEN, TK_TRUE, TK_UNTIL, TK_WHILE]"

definition luaX_init :: "bytes \<Rightarrow> RESERVED option" where
  "luaX_init = map_of (map (\<lambda>t. (ascii (luaX_tokens t), t)) reserved_words)"

datatype SemInfo = SemNone | SemNumber double | SemString bytes

record Token =
  token :: token
  seminfo :: SemInfo

record LexState =
  current :: int
  linenumber :: int
  lastline :: int
  tk :: Token
  lookahead :: Token
  ls_z :: "bytes zio"
  ls_buff :: bytes
  ls_buffsize :: nat
  ls_source :: bytes
  decpoint :: u8
  ls_names :: "bytes set"

record clib =
  strtod :: "bytes \<Rightarrow> double \<times> nat"
  strtoul16 :: "bytes \<Rightarrow> u64 \<times> nat"
  decimal_point :: u8

definition LUA_MINBUFFER :: nat where "LUA_MINBUFFER = 32"
definition MAXSRC :: u64 where "MAXSRC = 80"

section \<open>Character classes\<close>

definition ischar :: "char \<Rightarrow> int \<Rightarrow> bool" where
  "ischar ch c \<longleftrightarrow> c = of_char ch"

definition isdigit :: "int \<Rightarrow> bool" where "isdigit c \<longleftrightarrow> 48 \<le> c \<and> c \<le> 57"
definition isalpha :: "int \<Rightarrow> bool" where "isalpha c \<longleftrightarrow> (65 \<le> c \<and> c \<le> 90) \<or> (97 \<le> c \<and> c \<le> 122)"
definition isalnum :: "int \<Rightarrow> bool" where "isalnum c \<longleftrightarrow> isalpha c \<or> isdigit c"
definition iscntrl :: "int \<Rightarrow> bool" where "iscntrl c \<longleftrightarrow> (0 \<le> c \<and> c < 32) \<or> c = 127"
definition is_space :: "int \<Rightarrow> bool" where "is_space c \<longleftrightarrow> c = 32 \<or> (9 \<le> c \<and> c \<le> 13)"

section \<open>Errors and the buffer\<close>

definition next_char :: "LexState \<Rightarrow> LexState result" where
  "next_char ls = rbind (zgetc getS (ls_z ls)) (\<lambda>(c, z). Inr (ls\<lparr>current := c, ls_z := z\<rparr>))"

definition currIsNewline :: "LexState \<Rightarrow> bool" where
  "currIsNewline ls \<longleftrightarrow> current ls = 10 \<or> current ls = 13"

text \<open>\<open>file:line: msg\<close>, as \<open>luaX_lexerror\<close> throws it when no token is named.\<close>

definition error_at :: "LexState \<Rightarrow> string \<Rightarrow> bytes" where
  "error_at ls msg = luaO_chunkid (ls_source ls) MAXSRC @ ascii '':'' @ format_d (linenumber ls) @ ascii '': '' @ ascii msg"

definition throw_msg :: "bytes \<Rightarrow> 'a result" where
  "throw_msg m = Inl (LuaError (map (\<lambda>b. char_of (unat b)) m))"

definition save :: "LexState \<Rightarrow> u8 \<Rightarrow> LexState result" where
  "save ls c =
     (if length (ls_buff ls) + 1 > ls_buffsize ls then
        if ls_buffsize ls \<ge> MAX_SIZET div 2 then throw_msg (error_at ls ''lexical element too long'')
        else Inr (ls\<lparr>ls_buffsize := ls_buffsize ls * 2, ls_buff := ls_buff ls @ [c]\<rparr>)
      else Inr (ls\<lparr>ls_buff := ls_buff ls @ [c]\<rparr>))"

definition luaX_token2str :: "token \<Rightarrow> bytes" where
  "luaX_token2str t =
     (case t of
        TK_CHAR c \<Rightarrow> if iscntrl c then ascii ''char('' @ format_d c @ ascii '')'' else takeWhile (\<lambda>b. b \<noteq> 0) [of_int c]
      | TK r \<Rightarrow> ascii (luaX_tokens r))"

definition txtToken :: "LexState \<Rightarrow> token \<Rightarrow> bytes result" where
  "txtToken ls t =
     (if t \<in> {TK TK_NAME, TK TK_STRING, TK TK_NUMBER}
      then rbind (save ls 0) (\<lambda>ls. Inr (takeWhile (\<lambda>b. b \<noteq> 0) (ls_buff ls)))
      else Inr (luaX_token2str t))"

definition luaX_lexerror :: "LexState \<Rightarrow> string \<Rightarrow> token \<Rightarrow> 'a result" where
  "luaX_lexerror ls msg t =
     (if t = TK_CHAR 0 then throw_msg (error_at ls msg)
      else rbind (txtToken ls t) (\<lambda>txt. throw_msg (error_at ls msg @ ascii '' near '' @ [39] @ txt @ [39])))"

definition luaX_syntaxerror :: "LexState \<Rightarrow> string \<Rightarrow> 'a result" where
  "luaX_syntaxerror ls msg = luaX_lexerror ls msg (token (tk ls))"

text \<open>Characters kept in the buffer are those read, never the end of the stream.\<close>

definition save_and_next :: "LexState \<Rightarrow> LexState result" where
  "save_and_next ls = rbind (save ls (of_int (current ls))) next_char"

definition reset_buffer :: "LexState \<Rightarrow> LexState" where
  "reset_buffer ls = ls\<lparr>ls_buff := []\<rparr>"

definition reset_unless :: "bool \<Rightarrow> LexState \<Rightarrow> LexState" where
  "reset_unless keep ls = (if keep then ls else reset_buffer ls)"

definition luaX_newstring :: "LexState \<Rightarrow> bytes \<Rightarrow> LexState" where
  "luaX_newstring ls str = ls\<lparr>ls_names := insert str (ls_names ls)\<rparr>"

definition inclinenumber :: "LexState \<Rightarrow> LexState result" where
  "inclinenumber ls =
     (let old = current ls in
      rbind (next_char ls) (\<lambda>ls.
      rbind (if currIsNewline ls \<and> current ls \<noteq> old then next_char ls else Inr ls) (\<lambda>ls.
      let ls = ls\<lparr>linenumber := linenumber ls + 1\<rparr> in
      if linenumber ls \<ge> MAX_INT then luaX_syntaxerror ls ''chunk has too many lines'' else Inr ls)))"

definition no_token :: Token where
  "no_token = \<lparr>token = TK TK_EOS, seminfo = SemNone\<rparr>"

text \<open>\<open>t\<close> is not initialised by the code; its value is the argument \<open>t\<close>.\<close>

definition luaX_setinput :: "Token \<Rightarrow> bytes zio \<Rightarrow> bytes \<Rightarrow> LexState result" where
  "luaX_setinput t z source =
     next_char \<lparr>current = 0, linenumber = 1, lastline = 1, tk = t, lookahead = no_token, ls_z = z, ls_buff = [],
       ls_buffsize = LUA_MINBUFFER, ls_source = source, decpoint = 46, ls_names = {}\<rparr>"

section \<open>Progress\<close>

text \<open>The calls of \<open>next\<close> left: one for each character not yet read, and one that meets the end.\<close>

definition todo :: "LexState \<Rightarrow> nat" where
  "todo ls = (if z_under (ls_z ls) then 0 else Suc (length (string_reader.stream (ls_z ls))))"

lemma next_char_ok:
  assumes "\<not> z_under (ls_z ls)"
  obtains ls' where "next_char ls = Inr ls'"
    and "ls' = ls\<lparr>current := current ls', ls_z := ls_z ls'\<rparr>"
    and "string_reader.stream (ls_z ls) = [] \<Longrightarrow> current ls' = EOZ \<and> z_under (ls_z ls')"
    and "\<And>c cs. string_reader.stream (ls_z ls) = c # cs \<Longrightarrow>
      current ls' = uint c \<and> string_reader.stream (ls_z ls') = cs \<and> \<not> z_under (ls_z ls')"
proof -
  obtain c z where g: "zgetc getS (ls_z ls) = Inr (c, z)"
    "if string_reader.stream (ls_z ls) = [] then c = EOZ \<and> z_under z
     else c = uint (hd (string_reader.stream (ls_z ls))) \<and> string_reader.stream z = tl (string_reader.stream (ls_z ls)) \<and> \<not> z_under z"
    using string_reader.zgetc_stream [OF assms] by blast
  show thesis
    by (rule that [of "ls\<lparr>current := c, ls_z := z\<rparr>"]) (use g in \<open>auto simp: next_char_def split: if_splits\<close>)
qed


lemma next_todo: "next_char ls = Inr ls' \<Longrightarrow> todo ls' < todo ls"
proof -
  assume n: "next_char ls = Inr ls'"
  have u: "\<not> z_under (ls_z ls)" using n by (auto simp: next_char_def zgetc_def)
  then obtain ls2 where ls2: "next_char ls = Inr ls2"
    "string_reader.stream (ls_z ls) = [] \<Longrightarrow> z_under (ls_z ls2)"
    "\<And>c cs. string_reader.stream (ls_z ls) = c # cs \<Longrightarrow> string_reader.stream (ls_z ls2) = cs"
    by (rule next_char_ok) blast
  with n have "ls2 = ls'" by simp
  then show ?thesis using ls2 u by (cases "string_reader.stream (ls_z ls)") (auto simp: todo_def)
qed

lemma save_keeps: "save ls c = Inr ls' \<Longrightarrow>
    current ls' = current ls \<and> ls_z ls' = ls_z ls \<and> ls_buff ls' = ls_buff ls @ [c]"
  by (auto simp: save_def throw_msg_def split: if_splits)

lemma todo_update [simp]:
  "todo (ls\<lparr>linenumber := n\<rparr>) = todo ls" "todo (ls\<lparr>ls_buff := b\<rparr>) = todo ls"
  "todo (reset_buffer ls) = todo ls" "todo (reset_unless keep ls) = todo ls" "todo (luaX_newstring ls s) = todo ls"
  by (simp_all add: todo_def reset_buffer_def reset_unless_def luaX_newstring_def)

lemma save_todo: "save ls c = Inr ls' \<Longrightarrow> todo ls' = todo ls"
  using save_keeps by (simp add: todo_def)

lemma save_and_next_todo: "save_and_next ls = Inr ls' \<Longrightarrow> todo ls' < todo ls"
  by (auto simp: save_and_next_def rbind_eq_Inr dest!: next_todo save_todo)

lemma error_Inl [simp]:
  "luaX_lexerror ls msg t \<noteq> Inr x" "luaX_syntaxerror ls msg \<noteq> Inr x" "throw_msg m \<noteq> Inr x"
  by (auto simp: luaX_syntaxerror_def luaX_lexerror_def throw_msg_def rbind_eq_Inr)

lemma newline_not_EOZ: "currIsNewline ls \<Longrightarrow> current ls \<noteq> EOZ"
  by (auto simp: currIsNewline_def EOZ_def)

lemma inclinenumber_todo: "inclinenumber ls = Inr ls' \<Longrightarrow> todo ls' < todo ls"
proof -
  assume "inclinenumber ls = Inr ls'"
  then obtain ls1 where n: "next_char ls = Inr ls1"
    and r: "rbind (if currIsNewline ls1 \<and> current ls1 \<noteq> current ls then next_char ls1 else Inr ls1) (\<lambda>ls.
      let ls = ls\<lparr>linenumber := linenumber ls + 1\<rparr> in
      if linenumber ls \<ge> MAX_INT then luaX_syntaxerror ls ''chunk has too many lines'' else Inr ls) = Inr ls'"
    unfolding inclinenumber_def Let_def rbind_eq_Inr by blast
  from r obtain ls2 where ls2: "(if currIsNewline ls1 \<and> current ls1 \<noteq> current ls then next_char ls1 else Inr ls1) = Inr ls2"
    and ls': "ls' = ls2\<lparr>linenumber := linenumber ls2 + 1\<rparr>"
    unfolding rbind_eq_Inr Let_def by (auto split: if_splits)
  have "todo ls2 \<le> todo ls1"
    using ls2 next_todo [of ls1 ls2] by (auto split: if_splits)
  then show ?thesis using next_todo [OF n] ls' by simp
qed

section \<open>Numerals, long strings and strings\<close>

text \<open>\<open>while (P(ls->current)) save_and_next(ls)\<close>\<close>

function save_while :: "(int \<Rightarrow> bool) \<Rightarrow> LexState \<Rightarrow> LexState result" where
  "save_while P ls =
     (if P (current ls) then rbind (save_and_next ls) (\<lambda>ls. save_while P ls) else Inr ls)"
  by auto
termination
  by (relation "measure (\<lambda>(P, ls). todo ls)") (auto dest: save_and_next_todo)

declare save_while.simps [simp del]

text \<open>\<open>strchr\<close> also finds the terminating zero of its string.\<close>

definition check_next :: "LexState \<Rightarrow> string \<Rightarrow> (bool \<times> LexState) result" where
  "check_next ls s =
     (if current ls \<in> set (map of_char s) \<or> current ls = 0
      then rbind (save_and_next ls) (\<lambda>ls. Inr (True, ls)) else Inr (False, ls))"

definition buffreplace :: "LexState \<Rightarrow> u8 \<Rightarrow> u8 \<Rightarrow> LexState" where
  "buffreplace ls from to = ls\<lparr>ls_buff := map (\<lambda>c. if c = from then to else c) (ls_buff ls)\<rparr>"

text \<open>The buffer as a C string.\<close>

definition buff_text :: "LexState \<Rightarrow> bytes" where
  "buff_text ls = takeWhile (\<lambda>b. b \<noteq> 0) (ls_buff ls)"

definition str2d :: "clib \<Rightarrow> LexState \<Rightarrow> double option" where
  "str2d C ls = luaO_str2d (strtod C) (strtoul16 C) (buff_text ls)"

definition trydecpoint :: "clib \<Rightarrow> LexState \<Rightarrow> (double \<times> LexState) result" where
  "trydecpoint C ls =
     (let old = decpoint ls;
          ls = ls\<lparr>decpoint := decimal_point C\<rparr>;
          ls = buffreplace ls old (decpoint ls) in
      case str2d C ls of
        Some r \<Rightarrow> Inr (r, ls)
      | None \<Rightarrow> luaX_lexerror (buffreplace ls (decpoint ls) 46) ''malformed number'' (TK TK_NUMBER))"

definition read_numeral :: "clib \<Rightarrow> LexState \<Rightarrow> (double \<times> LexState) result" where
  "read_numeral C ls =
     rbind (save_and_next ls) (\<lambda>ls.
     rbind (save_while (\<lambda>c. isdigit c \<or> ischar CHR ''.'' c) ls) (\<lambda>ls.
     rbind (check_next ls ''Ee'') (\<lambda>(e, ls).
     rbind (if e then rbind (check_next ls ''+-'') (\<lambda>(_, ls). Inr ls) else Inr ls) (\<lambda>ls.
     rbind (save_while (\<lambda>c. isalnum c \<or> ischar CHR ''_'' c) ls) (\<lambda>ls.
     rbind (save ls 0) (\<lambda>ls.
     let ls = buffreplace ls 46 (decpoint ls) in
     case str2d C ls of Some r \<Rightarrow> Inr (r, ls) | None \<Rightarrow> trydecpoint C ls))))))"

function count_eqs :: "int \<Rightarrow> LexState \<Rightarrow> (int \<times> LexState) result" where
  "count_eqs count ls =
     (if ischar CHR ''='' (current ls) then rbind (save_and_next ls) (\<lambda>ls. count_eqs (count + 1) ls)
      else Inr (count, ls))"
  by auto
termination
  by (relation "measure (\<lambda>(n, ls). todo ls)") (auto dest: save_and_next_todo)

declare count_eqs.simps [simp del]

definition skip_sep :: "LexState \<Rightarrow> (int \<times> LexState) result" where
  "skip_sep ls =
     (let s = current ls in
      rbind (save_and_next ls) (\<lambda>ls.
      rbind (count_eqs 0 ls) (\<lambda>(count, ls).
      Inr (if current ls = s then count else - count - 1, ls))))"

lemma count_eqs_todo: "count_eqs n ls = Inr (m, ls') \<Longrightarrow> todo ls' \<le> todo ls"
proof (induction n ls rule: count_eqs.induct)
  case (1 n ls)
  show ?case
  proof (cases "ischar CHR ''='' (current ls)")
    case True
    then obtain ls1 where s: "save_and_next ls = Inr ls1" "count_eqs (n + 1) ls1 = Inr (m, ls')"
      using "1.prems" by (auto simp: count_eqs.simps [of n ls] rbind_eq_Inr)
    then show ?thesis using "1.IH" [OF True s] save_and_next_todo [OF s(1)] by simp
  qed (use "1.prems" in \<open>simp add: count_eqs.simps [of n ls]\<close>)
qed

lemma skip_sep_todo: "skip_sep ls = Inr (m, ls') \<Longrightarrow> todo ls' < todo ls"
  by (auto simp: skip_sep_def rbind_eq_Inr Let_def dest!: save_and_next_todo count_eqs_todo)

text \<open>The loop of \<open>read_long_string\<close>; \<open>keep\<close> is false in a comment (\<open>seminfo\<close> is null).\<close>

function long_string_loop :: "bool \<Rightarrow> int \<Rightarrow> LexState \<Rightarrow> LexState result" where
  "long_string_loop keep sep ls =
     (if current ls = EOZ then
        luaX_lexerror ls (if keep then ''unfinished long string'' else ''unfinished long comment'') (TK TK_EOS)
      else if ischar CHR ''['' (current ls) then
        rbind (skip_sep ls) (\<lambda>(n, ls').
          if n = sep then
            rbind (save_and_next ls') (\<lambda>ls'.
              if sep = 0 then luaX_lexerror ls' ''nesting of [[...]] is deprecated'' (TK_CHAR 91)
              else long_string_loop keep sep ls')
          else long_string_loop keep sep ls')
      else if ischar CHR '']'' (current ls) then
        rbind (skip_sep ls) (\<lambda>(n, ls').
          if n = sep then save_and_next ls' else long_string_loop keep sep ls')
      else if currIsNewline ls then
        rbind (save ls 10) (\<lambda>ls'.
        rbind (inclinenumber ls') (\<lambda>ls'.
        long_string_loop keep sep (reset_unless keep ls')))
      else rbind (if keep then save_and_next ls else next_char ls) (\<lambda>ls'. long_string_loop keep sep ls'))"
  by auto
termination
  by (relation "measure (\<lambda>(k, n, ls). todo ls)")
    (auto dest!: save_and_next_todo skip_sep_todo inclinenumber_todo save_todo next_todo split: if_splits)

declare long_string_loop.simps [simp del]

lemma long_string_todo: "long_string_loop keep sep ls = Inr ls' \<Longrightarrow> todo ls' < todo ls"
proof (induction keep sep ls rule: long_string_loop.induct)
  case (1 keep sep ls)
  from "1.prems" consider
      (open_sep) n ls1 where "skip_sep ls = Inr (n, ls1)" "n \<noteq> sep" "long_string_loop keep sep ls1 = Inr ls'"
        "current ls \<noteq> EOZ" "ischar CHR ''['' (current ls)"
    | (nested) n ls1 ls2 where "skip_sep ls = Inr (n, ls1)" "n = sep" "save_and_next ls1 = Inr ls2" "sep \<noteq> 0"
        "long_string_loop keep sep ls2 = Inr ls'" "current ls \<noteq> EOZ" "ischar CHR ''['' (current ls)"
    | (close) n ls1 where "skip_sep ls = Inr (n, ls1)" "save_and_next ls1 = Inr ls'"
    | (no_close) n ls1 where "skip_sep ls = Inr (n, ls1)" "n \<noteq> sep" "long_string_loop keep sep ls1 = Inr ls'"
        "current ls \<noteq> EOZ" "\<not> ischar CHR ''['' (current ls)" "ischar CHR '']'' (current ls)"
    | (line) ls1 ls2 where "save ls 10 = Inr ls1" "inclinenumber ls1 = Inr ls2"
        "long_string_loop keep sep (reset_unless keep ls2) = Inr ls'"
        "current ls \<noteq> EOZ" "\<not> ischar CHR ''['' (current ls)" "\<not> ischar CHR '']'' (current ls)" "currIsNewline ls"
    | (other) ls1 where "(if keep then save_and_next ls else next_char ls) = Inr ls1"
        "long_string_loop keep sep ls1 = Inr ls'"
        "current ls \<noteq> EOZ" "\<not> ischar CHR ''['' (current ls)" "\<not> ischar CHR '']'' (current ls)" "\<not> currIsNewline ls"
    by (auto simp: long_string_loop.simps [of keep sep ls] rbind_eq_Inr split: if_splits)
  then show ?case
  proof cases
    case open_sep
    with "1.IH"(2) [OF open_sep(4,5,1) refl] skip_sep_todo [OF open_sep(1)] show ?thesis by simp
  next
    case nested
    with "1.IH"(1) [OF nested(6,7,1) refl nested(2,3,4,5)] skip_sep_todo [OF nested(1)] save_and_next_todo [OF nested(3)]
    show ?thesis by simp
  next
    case close
    then show ?thesis using skip_sep_todo [OF close(1)] save_and_next_todo [OF close(2)] by simp
  next
    case no_close
    with "1.IH"(3) [OF no_close(4,5,6,1) refl] skip_sep_todo [OF no_close(1)] show ?thesis by simp
  next
    case line
    with "1.IH"(4) [OF line(4-7) line(1,2)] inclinenumber_todo [OF line(2)] save_todo [OF line(1)]
    show ?thesis by simp
  next
    case other
    with "1.IH"(5) [OF other(3-6)] save_and_next_todo [of ls ls1] next_todo [of ls ls1]
    show ?thesis by (auto split: if_splits)
  qed
qed

definition read_long_string :: "bool \<Rightarrow> int \<Rightarrow> LexState \<Rightarrow> (bytes \<times> LexState) result" where
  "read_long_string keep sep ls =
     rbind (save_and_next ls) (\<lambda>ls.
     rbind (if currIsNewline ls then inclinenumber ls else Inr ls) (\<lambda>ls.
     rbind (long_string_loop keep sep ls) (\<lambda>ls.
     if keep then
       let s = take (length (ls_buff ls) - 2 * (2 + nat sep)) (drop (2 + nat sep) (ls_buff ls))
       in Inr (s, luaX_newstring ls s)
     else Inr ([], ls))))"

text \<open>At most three digits of an escape.\<close>

fun escape_digits :: "nat \<Rightarrow> int \<Rightarrow> LexState \<Rightarrow> (int \<times> LexState) result" where
  "escape_digits 0 c ls = Inr (c, ls)"
| "escape_digits (Suc n) c ls =
     (if isdigit (current ls)
      then rbind (next_char ls) (\<lambda>ls'. escape_digits n (10 * c + (current ls - 48)) ls')
      else Inr (c, ls))"

definition simple_escape :: "int \<Rightarrow> u8 option" where
  "simple_escape c =
     map_of [(of_char CHR ''a'', 7), (of_char CHR ''b'', 8), (of_char CHR ''f'', 12), (of_char CHR ''n'', 10),
       (of_char CHR ''r'', 13), (of_char CHR ''t'', 9), (of_char CHR ''v'', 11)] c"

definition read_escape :: "LexState \<Rightarrow> LexState result" where
  "read_escape ls =
     rbind (next_char ls) (\<lambda>ls.
     case simple_escape (current ls) of
       Some c \<Rightarrow> rbind (save ls c) next_char
     | None \<Rightarrow>
         if currIsNewline ls then rbind (save ls 10) inclinenumber
         else if current ls = EOZ then Inr ls
         else if \<not> isdigit (current ls) then save_and_next ls
         else rbind (escape_digits 3 0 ls) (\<lambda>(c, ls).
           if c > 255 then luaX_lexerror ls ''escape sequence too large'' (TK TK_STRING)
           else save ls (of_int c)))"

lemma escape_digits_todo: "escape_digits n c ls = Inr (c', ls') \<Longrightarrow> todo ls' \<le> todo ls"
  by (induction n c ls rule: escape_digits.induct)
    (fastforce simp: rbind_eq_Inr dest: next_todo split: if_splits)+

lemma read_escape_todo: "read_escape ls = Inr ls' \<Longrightarrow> todo ls' < todo ls"
  by (auto simp: read_escape_def rbind_eq_Inr split: option.splits if_splits
      dest!: next_todo save_todo inclinenumber_todo save_and_next_todo escape_digits_todo)

function read_string_loop :: "int \<Rightarrow> LexState \<Rightarrow> LexState result" where
  "read_string_loop del ls =
     (if current ls = del then Inr ls
      else if current ls = EOZ then luaX_lexerror ls ''unfinished string'' (TK TK_EOS)
      else if currIsNewline ls then luaX_lexerror ls ''unfinished string'' (TK TK_STRING)
      else rbind (if current ls = 92 then read_escape ls else save_and_next ls) (\<lambda>ls. read_string_loop del ls))"
  by auto
termination
  by (relation "measure (\<lambda>(d, ls). todo ls)")
    (auto dest!: save_and_next_todo read_escape_todo split: if_splits)

declare read_string_loop.simps [simp del]

definition read_string :: "int \<Rightarrow> LexState \<Rightarrow> (bytes \<times> LexState) result" where
  "read_string del ls =
     rbind (save_and_next ls) (\<lambda>ls.
     rbind (read_string_loop del ls) (\<lambda>ls.
     rbind (save_and_next ls) (\<lambda>ls.
     let s = take (length (ls_buff ls) - 2) (drop 1 (ls_buff ls)) in Inr (s, luaX_newstring ls s))))"


section \<open>The analyser\<close>

text \<open>The rest of a short comment.\<close>

function skip_line :: "LexState \<Rightarrow> LexState result" where
  "skip_line ls =
     (if \<not> currIsNewline ls \<and> current ls \<noteq> EOZ then rbind (next_char ls) (\<lambda>ls. skip_line ls) else Inr ls)"
  by auto
termination
  by (relation "measure todo") (auto dest: next_todo)

declare skip_line.simps [simp del]

lemma skip_line_todo: "skip_line ls = Inr ls' \<Longrightarrow> todo ls' \<le> todo ls"
proof (induction ls rule: skip_line.induct)
  case (1 ls)
  show ?case
  proof (cases "\<not> currIsNewline ls \<and> current ls \<noteq> EOZ")
    case True
    then obtain ls1 where n: "next_char ls = Inr ls1" "skip_line ls1 = Inr ls'"
      using "1.prems" by (auto simp: skip_line.simps [of ls] rbind_eq_Inr)
    then show ?thesis using "1.IH" [OF True n] next_todo [OF n(1)] by simp
  next
    case False
    then have "skip_line ls = Inr ls" unfolding skip_line.simps [of ls] by (rule if_not_P)
    then show ?thesis using "1.prems" by simp
  qed
qed

text \<open>A comment, from its second \<open>-\<close> on.\<close>

definition skip_comment :: "LexState \<Rightarrow> LexState result" where
  "skip_comment ls =
     rbind (next_char ls) (\<lambda>ls.
     if ischar CHR ''['' (current ls) then
       rbind (skip_sep ls) (\<lambda>(sep, ls).
       let ls = reset_buffer ls in
       if sep \<ge> 0 then rbind (read_long_string False sep ls) (\<lambda>(_, ls). Inr (reset_buffer ls))
       else skip_line ls)
     else skip_line ls)"

lemma read_long_string_todo: "read_long_string keep sep ls = Inr (s, ls') \<Longrightarrow> todo ls' < todo ls"
proof -
  assume "read_long_string keep sep ls = Inr (s, ls')"
  then obtain ls1 ls2 ls3 where n: "save_and_next ls = Inr ls1"
    "(if currIsNewline ls1 then inclinenumber ls1 else Inr ls1) = Inr ls2"
    "long_string_loop keep sep ls2 = Inr ls3"
    and r: "(if keep then
       let s = take (length (ls_buff ls3) - 2 * (2 + nat sep)) (drop (2 + nat sep) (ls_buff ls3))
       in Inr (s, luaX_newstring ls3 s)
     else Inr ([], ls3)) = (Inr (s, ls') :: (bytes \<times> LexState) result)"
    unfolding read_long_string_def rbind_eq_Inr by blast
  from r have n4: "todo ls' = todo ls3" by (cases keep) (auto simp: Let_def)
  have "todo ls2 \<le> todo ls1" using n(2) inclinenumber_todo [of ls1 ls2] by (auto split: if_splits)
  then show ?thesis using save_and_next_todo [OF n(1)] long_string_todo [OF n(3)] n4 by simp
qed

lemma skip_comment_todo: "skip_comment ls = Inr ls' \<Longrightarrow> todo ls' < todo ls"
proof -
  assume "skip_comment ls = Inr ls'"
  then obtain ls1 where n: "next_char ls = Inr ls1"
    and r: "(if ischar CHR ''['' (current ls1) then rbind (skip_sep ls1) (\<lambda>(sep, ls).
        if sep \<ge> 0 then rbind (read_long_string False sep (reset_buffer ls)) (\<lambda>(_, ls). Inr (reset_buffer ls))
        else skip_line (reset_buffer ls)) else skip_line ls1) = Inr ls'"
    unfolding skip_comment_def rbind_eq_Inr Let_def by blast
  have "todo ls' \<le> todo ls1"
  proof (cases "ischar CHR ''['' (current ls1)")
    case True
    then obtain sep ls2 where s: "skip_sep ls1 = Inr (sep, ls2)"
      and r2: "(if sep \<ge> 0 then rbind (read_long_string False sep (reset_buffer ls2)) (\<lambda>(_, ls). Inr (reset_buffer ls))
        else skip_line (reset_buffer ls2)) = Inr ls'"
      using r by (auto simp: rbind_eq_Inr)
    have "todo ls' \<le> todo ls2"
      using r2 skip_line_todo [of "reset_buffer ls2" ls'] read_long_string_todo [of False sep "reset_buffer ls2"]
      by (cases "sep \<ge> 0") (fastforce simp: rbind_eq_Inr)+
    then show ?thesis using skip_sep_todo [OF s] by simp
  qed (use r skip_line_todo in simp)
  then show ?thesis using next_todo [OF n] by simp
qed

text \<open>A token of one character, or of two if \<open>=\<close> follows.\<close>

definition char_or_equal :: "LexState \<Rightarrow> RESERVED \<Rightarrow> (token \<times> LexState) result" where
  "char_or_equal ls two =
     (let one = TK_CHAR (current ls) in
      rbind (next_char ls) (\<lambda>ls.
      if \<not> ischar CHR ''='' (current ls) then Inr (one, ls)
      else rbind (next_char ls) (\<lambda>ls. Inr (TK two, ls))))"

definition read_dots :: "clib \<Rightarrow> SemInfo \<Rightarrow> LexState \<Rightarrow> (token \<times> SemInfo \<times> LexState) result" where
  "read_dots C sem ls =
     rbind (save_and_next ls) (\<lambda>ls.
     rbind (check_next ls ''.'') (\<lambda>(two, ls).
     if two then
       rbind (check_next ls ''.'') (\<lambda>(three, ls). Inr (TK (if three then TK_DOTS else TK_CONCAT), sem, ls))
     else if \<not> isdigit (current ls) then Inr (TK_CHAR 46, sem, ls)
     else rbind (read_numeral C ls) (\<lambda>(r, ls). Inr (TK TK_NUMBER, SemNumber r, ls))))"

definition read_name :: "SemInfo \<Rightarrow> LexState \<Rightarrow> (token \<times> SemInfo \<times> LexState) result" where
  "read_name sem ls =
     rbind (save_and_next ls) (\<lambda>ls.
     rbind (save_while (\<lambda>c. isalnum c \<or> ischar CHR ''_'' c) ls) (\<lambda>ls.
     let s = ls_buff ls; ls = luaX_newstring ls s in
     case luaX_init s of
       Some r \<Rightarrow> Inr (TK r, sem, ls)
     | None \<Rightarrow> Inr (TK TK_NAME, SemString s, ls)))"

function llex_loop :: "clib \<Rightarrow> SemInfo \<Rightarrow> LexState \<Rightarrow> (token \<times> SemInfo \<times> LexState) result" where
  "llex_loop C sem ls =
     (let c = current ls in
      if currIsNewline ls then rbind (inclinenumber ls) (\<lambda>ls. llex_loop C sem ls)
      else if ischar CHR ''-'' c then
        rbind (next_char ls) (\<lambda>ls'.
        if \<not> ischar CHR ''-'' (current ls') then Inr (TK_CHAR c, sem, ls')
        else rbind (skip_comment ls') (\<lambda>ls'. llex_loop C sem ls'))
      else if ischar CHR ''['' c then
        rbind (skip_sep ls) (\<lambda>(sep, ls).
        if sep \<ge> 0 then rbind (read_long_string True sep ls) (\<lambda>(s, ls). Inr (TK TK_STRING, SemString s, ls))
        else if sep = - 1 then Inr (TK_CHAR c, sem, ls)
        else luaX_lexerror ls ''invalid long string delimiter'' (TK TK_STRING))
      else if ischar CHR ''='' c then rbind (char_or_equal ls TK_EQ) (\<lambda>(t, ls). Inr (t, sem, ls))
      else if ischar CHR ''<'' c then rbind (char_or_equal ls TK_LE) (\<lambda>(t, ls). Inr (t, sem, ls))
      else if ischar CHR ''>'' c then rbind (char_or_equal ls TK_GE) (\<lambda>(t, ls). Inr (t, sem, ls))
      else if ischar CHR ''~'' c then rbind (char_or_equal ls TK_NE) (\<lambda>(t, ls). Inr (t, sem, ls))
      else if c = 34 \<or> c = 39 then
        rbind (read_string c ls) (\<lambda>(s, ls). Inr (TK TK_STRING, SemString s, ls))
      else if ischar CHR ''.'' c then read_dots C sem ls
      else if c = EOZ then Inr (TK TK_EOS, sem, ls)
      else if is_space c then rbind (next_char ls) (\<lambda>ls. llex_loop C sem ls)
      else if isdigit c then rbind (read_numeral C ls) (\<lambda>(r, ls). Inr (TK TK_NUMBER, SemNumber r, ls))
      else if isalpha c \<or> ischar CHR ''_'' c then read_name sem ls
      else rbind (next_char ls) (\<lambda>ls. Inr (TK_CHAR c, sem, ls)))"
  by auto
termination
  by (relation "measure (\<lambda>(C, sem, ls). todo ls)")
    (auto dest!: next_todo inclinenumber_todo skip_comment_todo)

declare llex_loop.simps [simp del]

definition llex :: "clib \<Rightarrow> SemInfo \<Rightarrow> LexState \<Rightarrow> (token \<times> SemInfo \<times> LexState) result" where
  "llex C sem ls = llex_loop C sem (reset_buffer ls)"

definition luaX_next :: "clib \<Rightarrow> LexState \<Rightarrow> LexState result" where
  "luaX_next C ls =
     (let ls = ls\<lparr>lastline := linenumber ls\<rparr> in
      if token (lookahead ls) \<noteq> TK TK_EOS then
        Inr (ls\<lparr>tk := lookahead ls, lookahead := (lookahead ls)\<lparr>token := TK TK_EOS\<rparr>\<rparr>)
      else rbind (llex C (seminfo (tk ls)) ls) (\<lambda>(t, sem, ls). Inr (ls\<lparr>tk := \<lparr>token = t, seminfo = sem\<rparr>\<rparr>)))"

definition luaX_lookahead :: "clib \<Rightarrow> LexState \<Rightarrow> LexState result" where
  "luaX_lookahead C ls =
     rbind (llex C (seminfo (lookahead ls)) ls) (\<lambda>(t, sem, ls). Inr (ls\<lparr>lookahead := \<lparr>token = t, seminfo = sem\<rparr>\<rparr>))"

text \<open>\<open>addquoted\<close> of lstrlib.c: the format \<open>%q\<close>.\<close>

definition quote_char :: "u8 \<Rightarrow> bytes" where
  "quote_char c =
     (if c = 34 \<or> c = 92 \<or> c = 10 then [92, c]
      else if c = 13 then 92 # ascii ''r''
      else if c = 0 then 92 # ascii ''000''
      else [c])"


definition addquoted :: "bytes \<Rightarrow> bytes" where
  "addquoted s = [34] @ concat (map quote_char s) @ [34]"

end
