(* ===== verification/LuaLexSpec.thy ===== *)
theory LuaLexSpec
  imports LuaLex
begin

text \<open>
  What the lexical analyser promises: it never reads past the end of its stream, scanning always
  ends, and a string written by \<open>addquoted\<close> is read back as it was.
\<close>

section \<open>The stream is not read past its end\<close>

definition ls_at :: "Token \<Rightarrow> LexState \<Rightarrow> bool" where
  "ls_at L ls \<longleftrightarrow> (z_under (ls_z ls) \<longrightarrow> current ls = EOZ) \<and> lookahead ls = L"

definition fine :: "Token \<Rightarrow> ('a \<Rightarrow> LexState) \<Rightarrow> 'a result \<Rightarrow> bool" where
  "fine L f r \<longleftrightarrow> (case r of Inl e \<Rightarrow> \<exists>m. e = LuaError m | Inr x \<Rightarrow> ls_at L (f x))"

lemma fine_Inr [simp]: "fine L f (Inr x) \<longleftrightarrow> ls_at L (f x)"
  by (simp add: fine_def)

lemma fine_bind: "fine L f r \<Longrightarrow> (\<And>x. r = Inr x \<Longrightarrow> ls_at L (f x) \<Longrightarrow> fine L g (h x)) \<Longrightarrow> fine L g (rbind r h)"
  by (cases r) (auto simp: fine_def)

lemma fine_throw [simp]: "fine L f (throw_msg m)"
  by (simp add: fine_def throw_msg_def)

lemma save_lookahead: "save ls c = Inr ls' \<Longrightarrow> lookahead ls' = lookahead ls"
  by (auto simp: save_def throw_msg_def split: if_splits)

lemma fine_save: "ls_at L ls \<Longrightarrow> fine L (\<lambda>x. x) (save ls c)"
  by (simp add: save_def ls_at_def)

lemma fine_error [simp]: "fine L f (luaX_lexerror ls msg t)" "fine L f (luaX_syntaxerror ls msg)"
proof -
  have "fine L f (luaX_lexerror ls msg t)" for t
  proof (cases "save ls 0")
    case (Inl e)
    then have "\<exists>m. e = LuaError m" by (auto simp: save_def throw_msg_def split: if_splits)
    then show ?thesis using Inl by (auto simp: luaX_lexerror_def txtToken_def fine_def throw_msg_def)
  qed (simp add: luaX_lexerror_def txtToken_def)
  then show "fine L f (luaX_lexerror ls msg t)" "fine L f (luaX_syntaxerror ls msg)"
    by (simp_all add: luaX_syntaxerror_def)
qed

lemma ls_at_update [simp]:
  "ls_at L (ls\<lparr>linenumber := n\<rparr>) = ls_at L ls" "ls_at L (ls\<lparr>ls_buff := b\<rparr>) = ls_at L ls"
  "ls_at L (reset_buffer ls) = ls_at L ls" "ls_at L (reset_unless keep ls) = ls_at L ls"
  "ls_at L (luaX_newstring ls s) = ls_at L ls" "ls_at L (ls\<lparr>decpoint := d\<rparr>) = ls_at L ls"
  "ls_at L (buffreplace ls a b') = ls_at L ls" "ls_at L (ls\<lparr>lastline := n\<rparr>) = ls_at L ls"
  "ls_at L (ls\<lparr>tk := tok\<rparr>) = ls_at L ls"
  by (simp_all add: ls_at_def reset_buffer_def reset_unless_def luaX_newstring_def buffreplace_def)

lemma fine_next: "ls_at L ls \<Longrightarrow> current ls \<noteq> EOZ \<Longrightarrow> fine L (\<lambda>x. x) (next_char ls)"
proof -
  assume a: "ls_at L ls" "current ls \<noteq> EOZ"
  then have "\<not> z_under (ls_z ls)" by (simp add: ls_at_def)
  then obtain ls' where ls': "next_char ls = Inr ls'" "ls' = ls\<lparr>current := current ls', ls_z := ls_z ls'\<rparr>"
    "string_reader.stream (ls_z ls) = [] \<Longrightarrow> current ls' = EOZ"
    "\<And>c cs. string_reader.stream (ls_z ls) = c # cs \<Longrightarrow> \<not> z_under (ls_z ls')"
    by (rule next_char_ok) blast
  have "lookahead ls' = L" by (subst ls'(2)) (use a in \<open>simp add: ls_at_def\<close>)
  then show ?thesis using ls' by (cases "string_reader.stream (ls_z ls)") (auto simp: ls_at_def)
qed

lemma fine_save_and_next: "ls_at L ls \<Longrightarrow> current ls \<noteq> EOZ \<Longrightarrow> fine L (\<lambda>x. x) (save_and_next ls)"
  unfolding save_and_next_def
  by (rule fine_bind [OF fine_save]) (auto dest!: save_keeps intro: fine_next)

lemma class_not_EOZ:
  "isdigit c \<Longrightarrow> c \<noteq> EOZ" "isalpha c \<Longrightarrow> c \<noteq> EOZ" "isalnum c \<Longrightarrow> c \<noteq> EOZ" "is_space c \<Longrightarrow> c \<noteq> EOZ"
  "ischar ch c \<Longrightarrow> c \<noteq> EOZ"
proof -
  have "(of_char ch :: int) = int (of_char ch)" by (rule of_nat_of_char [symmetric])
  then show "ischar ch c \<Longrightarrow> c \<noteq> EOZ" by (simp add: ischar_def EOZ_def)
qed (auto simp: isdigit_def isalpha_def isalnum_def is_space_def EOZ_def)

lemma class_EOZ [simp]:
  "\<not> isdigit EOZ" "\<not> isalpha EOZ" "\<not> isalnum EOZ" "\<not> is_space EOZ" "\<not> ischar ch EOZ"
  using class_not_EOZ by blast+

lemma fine_inclinenumber: "ls_at L ls \<Longrightarrow> current ls \<noteq> EOZ \<Longrightarrow> fine L (\<lambda>x. x) (inclinenumber ls)"
  unfolding inclinenumber_def Let_def
  by (rule fine_bind [OF fine_next], simp, simp, rule fine_bind [where f = "\<lambda>x. x"])
    (auto intro!: fine_next dest: newline_not_EOZ)


lemma fine_save_while: "(\<And>c. P c \<Longrightarrow> c \<noteq> EOZ) \<Longrightarrow> ls_at L ls \<Longrightarrow> fine L (\<lambda>x. x) (save_while P ls)"
proof (induction P ls rule: save_while.induct)
  case (1 P ls)
  then show ?case
    by (auto simp: save_while.simps [of P ls] intro!: fine_bind [OF fine_save_and_next])
qed

lemma fine_check_next: "ls_at L ls \<Longrightarrow> fine L snd (check_next ls s)"
proof -
  assume ok: "ls_at L ls"
  have "of_char c \<noteq> EOZ" for c using class_not_EOZ(5) [of c "of_char c"] by (simp add: ischar_def)
  then have "current ls \<in> set (map of_char s) \<or> current ls = 0 \<Longrightarrow> current ls \<noteq> EOZ"
    by (auto simp: EOZ_def)
  then show ?thesis using ok
    unfolding check_next_def by (auto intro: fine_bind [OF fine_save_and_next])
qed

lemma fine_trydecpoint: "ls_at L ls \<Longrightarrow> fine L snd (trydecpoint C ls)"
  by (simp add: trydecpoint_def Let_def split: option.split)

lemma fine_read_numeral: "ls_at L ls \<Longrightarrow> current ls \<noteq> EOZ \<Longrightarrow> fine L snd (read_numeral C ls)"
proof -
  assume ls: "ls_at L ls" "current ls \<noteq> EOZ"
  have tail: "fine L snd (rbind (save_while (\<lambda>c. isalnum c \<or> ischar CHR ''_'' c) ls) (\<lambda>ls.
     rbind (save ls 0) (\<lambda>ls.
     let ls = buffreplace ls 46 (decpoint ls) in
     case str2d C ls of Some r \<Rightarrow> Inr (r, ls) | None \<Rightarrow> trydecpoint C ls)))" if "ls_at L ls" for ls
    by (intro fine_bind [OF fine_save_while] fine_bind [OF fine_save] that)
      (auto simp: Let_def class_not_EOZ intro: fine_trydecpoint split: option.split)
  have e: "fine L (\<lambda>x. x) (if e then rbind (check_next ls ''+-'') (\<lambda>(_, ls). Inr ls) else Inr ls)" if "ls_at L ls" for e ls
    using that fine_bind [OF fine_check_next [OF that, of "''+-''"], of "\<lambda>x. x" "\<lambda>(_, ls). Inr ls"] by (auto simp: case_prod_beta)
  have mid: "fine L snd (rbind (check_next ls ''Ee'') (\<lambda>(e, ls).
     rbind (if e then rbind (check_next ls ''+-'') (\<lambda>(_, ls). Inr ls) else Inr ls) (\<lambda>ls.
     rbind (save_while (\<lambda>c. isalnum c \<or> ischar CHR ''_'' c) ls) (\<lambda>ls.
     rbind (save ls 0) (\<lambda>ls.
     let ls = buffreplace ls 46 (decpoint ls) in
     case str2d C ls of Some r \<Rightarrow> Inr (r, ls) | None \<Rightarrow> trydecpoint C ls)))))" if "ls_at L ls" for ls
    unfolding case_prod_beta [abs_def]
    by (rule fine_bind [OF fine_check_next [OF that]], rule fine_bind [OF e [unfolded case_prod_beta]], assumption,
        rule tail, simp)
  show ?thesis
    unfolding read_numeral_def
    by (rule fine_bind [OF fine_save_and_next [OF ls]], rule fine_bind [OF fine_save_while])
      (auto simp: class_not_EOZ intro: mid)
qed

lemma fine_count_eqs: "ls_at L ls \<Longrightarrow> fine L snd (count_eqs n ls)"
proof (induction n ls rule: count_eqs.induct)
  case (1 n ls)
  then show ?case
    by (auto simp: count_eqs.simps [of n ls] class_not_EOZ intro!: fine_bind [OF fine_save_and_next])
qed

lemma fine_skip_sep: "ls_at L ls \<Longrightarrow> current ls \<noteq> EOZ \<Longrightarrow> fine L snd (skip_sep ls)"
  unfolding skip_sep_def Let_def case_prod_beta [abs_def]
  by (rule fine_bind [OF fine_save_and_next], assumption, assumption, rule fine_bind [OF fine_count_eqs]) auto

lemma count_eqs_nonneg: "count_eqs n ls = Inr (m, ls') \<Longrightarrow> n \<le> m"
proof (induction n ls rule: count_eqs.induct)
  case (1 n ls)
  then show ?case
    by (fastforce simp: count_eqs.simps [of n ls] rbind_eq_Inr split: if_splits)
qed

lemma skip_sep_current: "skip_sep ls = Inr (n, ls') \<Longrightarrow> 0 \<le> n \<Longrightarrow> current ls' = current ls"
  by (auto simp: skip_sep_def Let_def rbind_eq_Inr dest!: count_eqs_nonneg split: if_splits)

lemma fine_long_string_loop: "ls_at L ls \<Longrightarrow> 0 \<le> sep \<Longrightarrow> fine L (\<lambda>x. x) (long_string_loop keep sep ls)"
proof (induction keep sep ls rule: long_string_loop.induct)
  case (1 keep sep ls)
  note ok = "1.prems"(1) and sep = "1.prems"(2)
  show ?case
  proof (cases "current ls = EOZ")
    case True
    then show ?thesis by (simp add: long_string_loop.simps [of keep sep ls])
  next
    case False
    note c = this
    consider (op) "ischar CHR ''['' (current ls)" | (cl) "\<not> ischar CHR ''['' (current ls)" "ischar CHR '']'' (current ls)"
      | (nl) "\<not> ischar CHR ''['' (current ls)" "\<not> ischar CHR '']'' (current ls)" "currIsNewline ls"
      | (ot) "\<not> ischar CHR ''['' (current ls)" "\<not> ischar CHR '']'' (current ls)" "\<not> currIsNewline ls" by blast
    then show ?thesis
    proof cases
      case op
      have "fine L (\<lambda>x. x) (case x of (n, ls') \<Rightarrow> if n = sep then
            rbind (save_and_next ls') (\<lambda>ls'.
              if sep = 0 then luaX_lexerror ls' ''nesting of [[...]] is deprecated'' (TK_CHAR 91)
              else long_string_loop keep sep ls')
          else long_string_loop keep sep ls')" if x: "skip_sep ls = Inr x" "ls_at L (snd x)" for x
      proof (cases x)
        case (Pair n ls1)
        have cur: "n = sep \<Longrightarrow> current ls1 \<noteq> EOZ" using skip_sep_current [of ls n ls1] x Pair sep c by simp
        have 1: "fine L (\<lambda>x. x) (rbind (save_and_next ls1) (\<lambda>ls'.
              if sep = 0 then luaX_lexerror ls' ''nesting of [[...]] is deprecated'' (TK_CHAR 91)
              else long_string_loop keep sep ls'))" if "n = sep"
          by (rule fine_bind [OF fine_save_and_next])
            (use "1.IH"(1) [OF c op x(1) Pair [symmetric] that] x(2) Pair cur that sep in auto)
        have 2: "n \<noteq> sep \<Longrightarrow> fine L (\<lambda>x. x) (long_string_loop keep sep ls1)"
          using "1.IH"(2) [OF c op x(1) Pair [symmetric]] x(2) Pair sep by simp
        show ?thesis using 1 2 Pair by simp
      qed
      then show ?thesis
        using c op ok by (simp add: long_string_loop.simps [of keep sep ls] fine_bind [OF fine_skip_sep])
    next
      case cl
      have "fine L (\<lambda>x. x) (case x of (n, ls') \<Rightarrow> if n = sep then save_and_next ls' else long_string_loop keep sep ls')"
        if x: "skip_sep ls = Inr x" "ls_at L (snd x)" for x
      proof (cases x)
        case (Pair n ls1)
        have cur: "n = sep \<Longrightarrow> current ls1 \<noteq> EOZ" using skip_sep_current [of ls n ls1] x Pair sep c by simp
        then show ?thesis
          using "1.IH"(3) [OF c cl x(1) Pair [symmetric]] x(2) Pair sep by (auto intro: fine_save_and_next)
      qed
      then show ?thesis
        using c cl ok by (simp add: long_string_loop.simps [of keep sep ls] fine_bind [OF fine_skip_sep])
    next
      case nl
      have "fine L (\<lambda>x. x) (rbind (inclinenumber ls1) (\<lambda>ls'. long_string_loop keep sep (reset_unless keep ls')))"
        if s: "save ls 10 = Inr ls1" for ls1
      proof (rule fine_bind [OF fine_inclinenumber])
        show "ls_at L ls1" "current ls1 \<noteq> EOZ" using save_keeps [OF s] save_lookahead [OF s] ok c by (simp_all add: ls_at_def)
        show "fine L (\<lambda>x. x) (long_string_loop keep sep (reset_unless keep ls2))"
          if "inclinenumber ls1 = Inr ls2" "ls_at L ls2" for ls2
          using "1.IH"(4) [OF c nl s that(1)] that(2) sep by simp
      qed
      then show ?thesis
        using c nl ok by (simp add: long_string_loop.simps [of keep sep ls] fine_bind [OF fine_save])
    next
      case ot
      have "fine L (\<lambda>x. x) (if keep then save_and_next ls else next_char ls)"
        using ok c by (simp add: fine_save_and_next fine_next)
      then show ?thesis
        using c ot "1.IH"(5) [OF c ot] sep
        by (simp add: long_string_loop.simps [of keep sep ls] fine_bind)
    qed
  qed
qed


lemma fine_read_long_string:
  assumes "ls_at L ls" and "current ls \<noteq> EOZ" and "0 \<le> sep"
  shows "fine L snd (read_long_string keep sep ls)"
proof -
  have nl: "fine L (\<lambda>x. x) (if currIsNewline ls then inclinenumber ls else Inr ls)" if "ls_at L ls" for ls
    using that by (simp add: fine_inclinenumber newline_not_EOZ)
  show ?thesis
    unfolding read_long_string_def
    by (rule fine_bind [OF fine_save_and_next [OF assms(1,2)]], rule fine_bind [OF nl], assumption,
        rule fine_bind [OF fine_long_string_loop [OF _ assms(3)]]) (auto simp: Let_def)
qed

lemma fine_escape_digits: "ls_at L ls \<Longrightarrow> fine L snd (escape_digits n c ls)"
proof (induction n c ls rule: escape_digits.induct)
  case (2 n c ls)
  then show ?case by (auto intro!: fine_bind [OF fine_next])
qed simp

lemma fine_read_escape: "ls_at L ls \<Longrightarrow> current ls \<noteq> EOZ \<Longrightarrow> fine L (\<lambda>x. x) (read_escape ls)"
proof -
  assume ls: "ls_at L ls" "current ls \<noteq> EOZ"
  have esc: "simple_escape EOZ = None" by (simp add: simple_escape_def EOZ_def)
  have digits: "fine L (\<lambda>x. x) (rbind (escape_digits 3 0 ls) (\<lambda>(c, ls).
           if c > 255 then luaX_lexerror ls ''escape sequence too large'' (TK TK_STRING)
           else save ls (of_int c)))" if "ls_at L ls" for ls
    unfolding case_prod_beta [abs_def]
    by (rule fine_bind [OF fine_escape_digits [OF that]]) (auto intro: fine_save)
  have one: "fine L (\<lambda>x. x) (rbind (save ls c) next_char)" if "ls_at L ls" "current ls \<noteq> EOZ" for ls c
    by (rule fine_bind [OF fine_save [OF that(1)]]) (use that in \<open>auto dest!: save_keeps intro: fine_next\<close>)
  have line: "fine L (\<lambda>x. x) (rbind (save ls c) inclinenumber)" if "ls_at L ls" "current ls \<noteq> EOZ" for ls c
    by (rule fine_bind [OF fine_save [OF that(1)]]) (use that in \<open>auto dest!: save_keeps intro: fine_inclinenumber\<close>)
  have step: "fine L (\<lambda>x. x) (case simple_escape (current ls) of
       Some c \<Rightarrow> rbind (save ls c) next_char
     | None \<Rightarrow>
         if currIsNewline ls then rbind (save ls 10) inclinenumber
         else if current ls = EOZ then Inr ls
         else if \<not> isdigit (current ls) then save_and_next ls
         else rbind (escape_digits 3 0 ls) (\<lambda>(c, ls).
           if c > 255 then luaX_lexerror ls ''escape sequence too large'' (TK TK_STRING)
           else save ls (of_int c)))" if "ls_at L ls" for ls
    using that esc digits [OF that] newline_not_EOZ [of ls]
    by (cases "current ls = EOZ") (auto intro: one line fine_save_and_next split: option.split)
  show ?thesis
    unfolding read_escape_def by (rule fine_bind [OF fine_next [OF ls]]) (rule step)
qed

lemma fine_read_string_loop: "ls_at L ls \<Longrightarrow> fine L (\<lambda>x. x) (read_string_loop del ls)"
proof (induction del ls rule: read_string_loop.induct)
  case (1 del ls)
  have "current ls \<noteq> EOZ \<Longrightarrow> fine L (\<lambda>x. x) (if current ls = 92 then read_escape ls else save_and_next ls)"
    using "1.prems" by (simp add: fine_read_escape fine_save_and_next)
  then show ?case
    using "1.IH" "1.prems" by (auto simp: read_string_loop.simps [of del ls] intro!: fine_bind)
qed

lemma read_string_loop_current: "read_string_loop del ls = Inr ls' \<Longrightarrow> current ls' = del"
proof (induction del ls rule: read_string_loop.induct)
  case (1 del ls)
  then show ?case
    by (auto simp: read_string_loop.simps [of del ls] rbind_eq_Inr split: if_splits)
qed

lemma fine_read_string:
  assumes "ls_at L ls" and "current ls \<noteq> EOZ" and "del \<noteq> EOZ"
  shows "fine L snd (read_string del ls)"
  unfolding read_string_def
  by (rule fine_bind [OF fine_save_and_next [OF assms(1,2)]], rule fine_bind [OF fine_read_string_loop], assumption,
      rule fine_bind [OF fine_save_and_next]) (use assms(3) in \<open>auto simp: Let_def dest: read_string_loop_current\<close>)

lemma fine_skip_line: "ls_at L ls \<Longrightarrow> fine L (\<lambda>x. x) (skip_line ls)"
proof (induction ls rule: skip_line.induct)
  case (1 ls)
  show ?case
  proof (cases "\<not> currIsNewline ls \<and> current ls \<noteq> EOZ")
    case True
    then have eq: "skip_line ls = rbind (next_char ls) (\<lambda>ls. skip_line ls)"
      unfolding skip_line.simps [of ls] by (rule if_P)
    show ?thesis unfolding eq
      by (rule fine_bind [OF fine_next]) (use "1" True in auto)
  next
    case False
    then have "skip_line ls = Inr ls" unfolding skip_line.simps [of ls] by (rule if_not_P)
    then show ?thesis using "1.prems" by simp
  qed
qed

lemma fine_skip_comment: "ls_at L ls \<Longrightarrow> current ls \<noteq> EOZ \<Longrightarrow> fine L (\<lambda>x. x) (skip_comment ls)"
proof -
  assume ls: "ls_at L ls" "current ls \<noteq> EOZ"
  have long: "fine L (\<lambda>x. x) (rbind (skip_sep ls) (\<lambda>(sep, ls).
       let ls = reset_buffer ls in
       if sep \<ge> 0 then rbind (read_long_string False sep ls) (\<lambda>(_, ls). Inr (reset_buffer ls))
       else skip_line ls))" if "ls_at L ls" "ischar CHR ''['' (current ls)" for ls
  proof (rule fine_bind [OF fine_skip_sep [OF that(1)]])
    show c: "current ls \<noteq> EOZ" using that(2) by auto
    fix x
    assume x: "skip_sep ls = Inr x" "ls_at L (snd x)"
    obtain sep ls1 where p: "x = (sep, ls1)" by (cases x)
    have "fine L (\<lambda>x. x) (rbind (read_long_string False sep (reset_buffer ls1)) (\<lambda>(_, ls). Inr (reset_buffer ls)))"
      if "0 \<le> sep"
      unfolding case_prod_beta [abs_def]
      by (rule fine_bind [OF fine_read_long_string [OF _ _ that]])
        (use x p c skip_sep_current [of ls sep ls1] that in \<open>auto simp: reset_buffer_def\<close>)
    then show "fine L (\<lambda>x. x) (case x of (sep, ls) \<Rightarrow>
       let ls = reset_buffer ls in
       if sep \<ge> 0 then rbind (read_long_string False sep ls) (\<lambda>(_, ls). Inr (reset_buffer ls))
       else skip_line ls)"
      using x p by (simp add: Let_def fine_skip_line)
  qed
  show ?thesis
    unfolding skip_comment_def
    by (rule fine_bind [OF fine_next [OF ls]]) (use long fine_skip_line in simp)
qed

lemma fine_char_or_equal: "ls_at L ls \<Longrightarrow> current ls \<noteq> EOZ \<Longrightarrow> fine L snd (char_or_equal ls two)"
  unfolding char_or_equal_def Let_def
  by (rule fine_bind [OF fine_next], assumption, assumption)
    (auto intro!: fine_bind [OF fine_next] simp: class_not_EOZ)

lemma fine_read_dots: "ls_at L ls \<Longrightarrow> current ls \<noteq> EOZ \<Longrightarrow> fine L (\<lambda>x. snd (snd x)) (read_dots C sem ls)"
  unfolding read_dots_def case_prod_beta [abs_def]
  by (rule fine_bind [OF fine_save_and_next], assumption, assumption, rule fine_bind [OF fine_check_next], assumption)
    (auto intro!: fine_bind [OF fine_check_next] fine_bind [OF fine_read_numeral] simp: class_not_EOZ)

lemma fine_read_name: "ls_at L ls \<Longrightarrow> current ls \<noteq> EOZ \<Longrightarrow> fine L (\<lambda>x. snd (snd x)) (read_name sem ls)"
  unfolding read_name_def
  by (rule fine_bind [OF fine_save_and_next], assumption, assumption, rule fine_bind [OF fine_save_while])
    (auto simp: Let_def class_not_EOZ split: option.split)


lemma fine_pair: "fine L snd r \<Longrightarrow> fine L (\<lambda>x. snd (snd x)) (rbind r (\<lambda>(t, ls). Inr (f t, g t, ls)))"
  by (rule fine_bind) (auto simp: case_prod_beta)

lemma fine_llex_loop: "ls_at L ls \<Longrightarrow> fine L (\<lambda>x. snd (snd x)) (llex_loop C sem ls)"
proof (induction C sem ls rule: llex_loop.induct)
  case (1 C sem ls)
  note ok = "1.prems"
  show ?case
  proof (cases "current ls = EOZ")
    case True
    then show ?thesis using ok
      by (simp add: llex_loop.simps [of C sem ls] Let_def newline_not_EOZ [of ls] EOZ_def [symmetric])
        (auto simp: EOZ_def dest: newline_not_EOZ)
  next
    case c: False
    have minus: "fine L (\<lambda>x. snd (snd x)) (rbind (next_char ls) (\<lambda>ls'.
        if \<not> ischar CHR ''-'' (current ls') then Inr (TK_CHAR (current ls), sem, ls')
        else rbind (skip_comment ls') (\<lambda>ls'. llex_loop C sem ls')))"
      if "\<not> currIsNewline ls" "ischar CHR ''-'' (current ls)"
      by (rule fine_bind [OF fine_next [OF ok c]])
        (auto intro!: fine_bind [OF fine_skip_comment] "1.IH"(2) [OF refl that] simp: class_not_EOZ)
    have bracket: "fine L (\<lambda>x. snd (snd x)) (rbind (skip_sep ls) (\<lambda>(sep, ls).
        if sep \<ge> 0 then rbind (read_long_string True sep ls) (\<lambda>(s, ls). Inr (TK TK_STRING, SemString s, ls))
        else if sep = - 1 then Inr (TK_CHAR (current ls'), sem, ls)
        else luaX_lexerror ls ''invalid long string delimiter'' (TK TK_STRING)))" for ls'
    proof (rule fine_bind [OF fine_skip_sep [OF ok c]])
      fix x
      assume x: "skip_sep ls = Inr x" "ls_at L (snd x)"
      obtain sep ls1 where p: "x = (sep, ls1)" by (cases x)
      have "0 \<le> sep \<Longrightarrow> current ls1 \<noteq> EOZ" using skip_sep_current [of ls sep ls1] x p c by simp
      then show "fine L (\<lambda>x. snd (snd x)) (case x of (sep, ls) \<Rightarrow>
        if sep \<ge> 0 then rbind (read_long_string True sep ls) (\<lambda>(s, ls). Inr (TK TK_STRING, SemString s, ls))
        else if sep = - 1 then Inr (TK_CHAR (current ls'), sem, ls)
        else luaX_lexerror ls ''invalid long string delimiter'' (TK TK_STRING))"
        using x p by (auto intro: fine_pair [OF fine_read_long_string])
    qed
    have nl: "currIsNewline ls \<Longrightarrow> fine L (\<lambda>x. snd (snd x)) (rbind (inclinenumber ls) (\<lambda>ls. llex_loop C sem ls))"
      using fine_bind [OF fine_inclinenumber [OF ok c]] "1.IH"(1) [OF refl] by blast
    have sp: "fine L (\<lambda>x. snd (snd x)) (rbind (next_char ls) (\<lambda>ls. llex_loop C sem ls))"
      if "\<not> currIsNewline ls" "\<not> ischar CHR ''-'' (current ls)" "\<not> ischar CHR ''['' (current ls)"
        "\<not> ischar CHR ''='' (current ls)" "\<not> ischar CHR ''<'' (current ls)" "\<not> ischar CHR ''>'' (current ls)"
        "\<not> ischar CHR ''~'' (current ls)" "\<not> (current ls = 34 \<or> current ls = 39)"
        "\<not> ischar CHR ''.'' (current ls)" "is_space (current ls)"
      using fine_bind [OF fine_next [OF ok c]] "1.IH"(3) [OF refl that(1-9) c that(10)] by blast
    have ch: "fine L (\<lambda>x. snd (snd x)) (rbind (next_char ls) (\<lambda>ls. Inr (TK_CHAR (current ls'), sem, ls)))" for ls'
      using fine_bind [OF fine_next [OF ok c]] by (simp add: fine_bind [OF fine_next [OF ok c]])
    have str: "fine L (\<lambda>x. snd (snd x)) (rbind (read_string (current ls) ls) (\<lambda>(s, ls). Inr (TK TK_STRING, SemString s, ls)))"
      by (rule fine_pair [OF fine_read_string [OF ok c c]])
    have eqs: "fine L (\<lambda>x. snd (snd x)) (rbind (char_or_equal ls two) (\<lambda>(t, ls). Inr (t, sem, ls)))" for two
      by (rule fine_pair [OF fine_char_or_equal [OF ok c]])
    have num: "fine L (\<lambda>x. snd (snd x)) (rbind (read_numeral C ls) (\<lambda>(r, ls). Inr (TK TK_NUMBER, SemNumber r, ls)))"
      by (rule fine_pair [OF fine_read_numeral [OF ok c]])
    show ?thesis
      unfolding llex_loop.simps [of C sem ls] Let_def
      using minus bracket [of ls] nl sp ch [of ls] str eqs num fine_read_dots [OF ok c] fine_read_name [OF ok c] ok
      by simp
  qed
qed

text \<open>The calls of the parser.\<close>

definition ls_ok :: "LexState \<Rightarrow> bool" where
  "ls_ok ls \<longleftrightarrow> (z_under (ls_z ls) \<longrightarrow> current ls = EOZ)"

lemma ls_at_ok: "ls_at L ls \<longleftrightarrow> ls_ok ls \<and> lookahead ls = L"
  by (simp add: ls_at_def ls_ok_def)

lemma fine_llex:
  assumes "ls_ok ls"
  shows "fine (lookahead ls) (\<lambda>x. snd (snd x)) (llex C sem (ls\<lparr>lastline := n\<rparr>))"
    and "fine (lookahead ls) (\<lambda>x. snd (snd x)) (llex C sem ls)"
  using assms by (auto simp: llex_def intro!: fine_llex_loop) (simp_all add: ls_at_ok)

lemma ls_ok_update [simp]: "ls_ok (ls\<lparr>tk := t\<rparr>) = ls_ok ls" "ls_ok (ls\<lparr>lookahead := t\<rparr>) = ls_ok ls"
    "ls_ok (ls\<lparr>lastline := n\<rparr>) = ls_ok ls"
  by (simp_all add: ls_ok_def)

lemma luaX_next_ok:
  assumes "ls_ok ls"
  shows "case luaX_next C ls of Inr ls' \<Rightarrow> ls_ok ls' \<and> token (lookahead ls') = TK TK_EOS | Inl e \<Rightarrow> \<exists>m. e = LuaError m"
  using fine_llex(1) [OF assms, of C "seminfo (tk ls)" "linenumber ls"] assms
  by (cases "llex C (seminfo (tk ls)) (ls\<lparr>lastline := linenumber ls\<rparr>)")
    (auto simp: luaX_next_def Let_def fine_def ls_at_ok)

lemma luaX_lookahead_ok:
  assumes "ls_ok ls"
  shows "case luaX_lookahead C ls of Inr ls' \<Rightarrow> ls_ok ls' | Inl e \<Rightarrow> \<exists>m. e = LuaError m"
  using fine_llex(2) [OF assms, of C "seminfo (lookahead ls)"]
  by (cases "llex C (seminfo (lookahead ls)) ls") (auto simp: luaX_lookahead_def fine_def ls_at_ok)


section \<open>Scanning ends\<close>

lemma save_while_todo: "save_while P ls = Inr ls' \<Longrightarrow> todo ls' \<le> todo ls"
proof (induction P ls rule: save_while.induct)
  case (1 P ls)
  show ?case
  proof (cases "P (current ls)")
    case True
    then obtain ls1 where s: "save_and_next ls = Inr ls1" "save_while P ls1 = Inr ls'"
      using "1.prems" by (auto simp: save_while.simps [of P ls] rbind_eq_Inr)
    then show ?thesis using "1.IH" [OF True s] save_and_next_todo [OF s(1)] by simp
  qed (use "1.prems" in \<open>simp add: save_while.simps [of P ls]\<close>)
qed

lemma check_next_todo: "check_next ls s = Inr (b, ls') \<Longrightarrow> todo ls' \<le> todo ls"
  by (auto simp: check_next_def rbind_eq_Inr dest!: save_and_next_todo split: if_splits)

lemma todo_fields [simp]: "todo (ls\<lparr>decpoint := d\<rparr>) = todo ls" "todo (buffreplace ls a b) = todo ls"
  by (simp_all add: todo_def buffreplace_def)

lemma trydecpoint_todo: "trydecpoint C ls = Inr (r, ls') \<Longrightarrow> todo ls' = todo ls"
  by (auto simp: trydecpoint_def Let_def split: option.splits)

definition lowers :: "nat \<Rightarrow> ('a \<Rightarrow> LexState) \<Rightarrow> 'a result \<Rightarrow> bool" where
  "lowers n f r \<longleftrightarrow> (\<forall>x. r = Inr x \<longrightarrow> todo (f x) \<le> n)"

lemma lowersD: "lowers n f r \<Longrightarrow> r = Inr x \<Longrightarrow> todo (f x) \<le> n"
  by (simp add: lowers_def)

lemma lowers_Inr: "todo (f x) \<le> n \<Longrightarrow> lowers n f (Inr x)"
  by (simp add: lowers_def)

lemma lowers_bind: "(\<And>x. r = Inr x \<Longrightarrow> lowers n g (h x)) \<Longrightarrow> lowers n g (rbind r h)"
  by (auto simp: lowers_def rbind_eq_Inr)

lemma lowers_error [simp]: "lowers n f (luaX_lexerror ls msg t)"
  by (simp add: lowers_def)

lemma lowers_numeral_tail: "lowers (todo ls) snd (rbind (save_while (\<lambda>c. isalnum c \<or> ischar CHR ''_'' c) ls) (\<lambda>ls.
     rbind (save ls 0) (\<lambda>ls.
     let ls = buffreplace ls 46 (decpoint ls) in
     case str2d C ls of Some r \<Rightarrow> Inr (r, ls) | None \<Rightarrow> trydecpoint C ls)))"
  by (intro lowers_bind)
    (auto simp: Let_def lowers_def split: option.split dest!: save_while_todo save_todo trydecpoint_todo)

lemma lowers_read_numeral: "lowers (todo ls - 1) snd (read_numeral C ls)"
  unfolding read_numeral_def
proof (rule lowers_bind, rule lowers_bind, rule lowers_bind)
  fix ls1 ls2 x
  assume n: "save_and_next ls = Inr ls1"
    "save_while (\<lambda>c. isdigit c \<or> ischar CHR ''.'' c) ls1 = Inr ls2" "check_next ls2 ''Ee'' = Inr x"
  obtain e ls3 where x: "x = (e, ls3)" by (cases x)
  have le: "todo ls3 \<le> todo ls - 1"
    using save_and_next_todo [OF n(1)] save_while_todo [OF n(2)] check_next_todo [OF n(3) [unfolded x]] by simp
  have tail: "lowers (todo ls - 1) snd (rbind (save_while (\<lambda>c. isalnum c \<or> ischar CHR ''_'' c) ls4) (\<lambda>ls.
       rbind (save ls 0) (\<lambda>ls. let ls = buffreplace ls 46 (decpoint ls) in
       case str2d C ls of Some r \<Rightarrow> Inr (r, ls) | None \<Rightarrow> trydecpoint C ls)))" if "todo ls4 \<le> todo ls3" for ls4
    using lowers_numeral_tail [of ls4 C] that le by (fastforce simp: lowers_def)
  have "lowers (todo ls - 1) snd (rbind (if e then rbind (check_next ls3 ''+-'') (\<lambda>(_, ls). Inr ls) else Inr ls3) (\<lambda>ls.
       rbind (save_while (\<lambda>c. isalnum c \<or> ischar CHR ''_'' c) ls) (\<lambda>ls.
       rbind (save ls 0) (\<lambda>ls. let ls = buffreplace ls 46 (decpoint ls) in
       case str2d C ls of Some r \<Rightarrow> Inr (r, ls) | None \<Rightarrow> trydecpoint C ls))))"
  proof (rule lowers_bind, rule tail)
    fix ls4
    assume "(if e then rbind (check_next ls3 ''+-'') (\<lambda>(_, ls). Inr ls) else Inr ls3) = Inr ls4"
    then show "todo ls4 \<le> todo ls3" by (cases e) (auto simp: rbind_eq_Inr dest: check_next_todo)
  qed
  then show "lowers (todo ls - 1) snd (case x of (e, ls) \<Rightarrow>
       rbind (if e then rbind (check_next ls ''+-'') (\<lambda>(_, ls). Inr ls) else Inr ls) (\<lambda>ls.
       rbind (save_while (\<lambda>c. isalnum c \<or> ischar CHR ''_'' c) ls) (\<lambda>ls.
       rbind (save ls 0) (\<lambda>ls. let ls = buffreplace ls 46 (decpoint ls) in
       case str2d C ls of Some r \<Rightarrow> Inr (r, ls) | None \<Rightarrow> trydecpoint C ls))))"
    by (simp add: x)
qed

lemma read_numeral_todo:
  assumes "read_numeral C ls = Inr (r, ls')"
  shows "todo ls' < todo ls"
proof -
  obtain ls1 where "save_and_next ls = Inr ls1" using assms by (auto simp: read_numeral_def rbind_eq_Inr)
  then have "0 < todo ls" using save_and_next_todo by fastforce
  then show ?thesis using lowersD [OF lowers_read_numeral assms] by simp
qed

lemma read_string_loop_todo: "read_string_loop del ls = Inr ls' \<Longrightarrow> todo ls' \<le> todo ls"
proof (induction del ls rule: read_string_loop.induct)
  case (1 del ls)
  show ?case
  proof (cases "current ls = del")
    case False
    then obtain ls1 where s: "current ls \<noteq> EOZ" "\<not> currIsNewline ls"
      "(if current ls = 92 then read_escape ls else save_and_next ls) = Inr ls1" "read_string_loop del ls1 = Inr ls'"
      using "1.prems" by (auto simp: read_string_loop.simps [of del ls] rbind_eq_Inr split: if_splits)
    have "todo ls1 < todo ls" using s(3) read_escape_todo save_and_next_todo by (auto split: if_splits)
    then show ?thesis using "1.IH" [OF False s] by simp
  qed (use "1.prems" in \<open>simp add: read_string_loop.simps [of del ls]\<close>)
qed

lemma read_string_todo: "read_string del ls = Inr (s, ls') \<Longrightarrow> todo ls' < todo ls"
  by (auto simp: read_string_def rbind_eq_Inr Let_def dest!: save_and_next_todo read_string_loop_todo)

lemma char_or_equal_todo: "char_or_equal ls two = Inr (t, ls') \<Longrightarrow> todo ls' < todo ls"
  by (auto simp: char_or_equal_def rbind_eq_Inr Let_def dest!: next_todo split: if_splits)

lemma read_dots_todo: "read_dots C sem ls = Inr (t, s, ls') \<Longrightarrow> todo ls' < todo ls"
proof -
  assume d: "read_dots C sem ls = Inr (t, s, ls')"
  then obtain ls1 where s: "save_and_next ls = Inr ls1" by (auto simp: read_dots_def rbind_eq_Inr)
  have "lowers (todo ls1) (\<lambda>x. snd (snd x)) (read_dots C sem ls)"
    unfolding read_dots_def s rbind_simps
  proof (rule lowers_bind)
    fix x
    assume x: "check_next ls1 ''.'' = Inr x"
    obtain two ls2 where p: "x = (two, ls2)" by (cases x)
    then have le: "todo ls2 \<le> todo ls1" using check_next_todo x by simp
    have three: "lowers (todo ls1) (\<lambda>x. snd (snd x))
        (rbind (check_next ls2 ''.'') (\<lambda>(three, ls). Inr (TK (if three then TK_DOTS else TK_CONCAT), sem, ls)))"
      by (rule lowers_bind) (use le in \<open>force simp: lowers_def dest: check_next_todo\<close>)
    have num: "lowers (todo ls1) (\<lambda>x. snd (snd x))
        (rbind (read_numeral C ls2) (\<lambda>(r, ls). Inr (TK TK_NUMBER, SemNumber r, ls)))"
      by (rule lowers_bind) (use le in \<open>force simp: lowers_def dest: read_numeral_todo\<close>)
    show "lowers (todo ls1) (\<lambda>x. snd (snd x)) (case x of (two, ls) \<Rightarrow>
       if two then
         rbind (check_next ls ''.'') (\<lambda>(three, ls). Inr (TK (if three then TK_DOTS else TK_CONCAT), sem, ls))
       else if \<not> isdigit (current ls) then Inr (TK_CHAR 46, sem, ls)
       else rbind (read_numeral C ls) (\<lambda>(r, ls). Inr (TK TK_NUMBER, SemNumber r, ls)))"
      using three num le by (simp add: p lowers_Inr)
  qed
  from lowersD [OF this d] show ?thesis using save_and_next_todo [OF s] by simp
qed

lemma read_name_todo: "read_name sem ls = Inr (t, s, ls') \<Longrightarrow> todo ls' < todo ls"
  by (auto simp: read_name_def rbind_eq_Inr Let_def dest!: save_and_next_todo save_while_todo split: option.splits)


lemma pair_todo: "(\<And>y ls1. r = Inr (y, ls1) \<Longrightarrow> todo ls1 < n) \<Longrightarrow>
    rbind r (\<lambda>(y, ls). Inr (f y, g y, ls)) = Inr (t, s, ls') \<Longrightarrow> todo ls' < n"
  by (auto simp: rbind_eq_Inr)

lemma llex_loop_todo: "llex_loop C sem ls = Inr (t, s, ls') \<Longrightarrow> t = TK TK_EOS \<or> todo ls' < todo ls"
proof (induction C sem ls rule: llex_loop.induct)
  case (1 C sem ls)
  note r = "1.prems"
  let ?c = "current ls"
  note IH = "1.IH"
  show ?case
  proof (cases "currIsNewline ls")
    case True
    then obtain ls1 where "inclinenumber ls = Inr ls1" "llex_loop C sem ls1 = Inr (t, s, ls')"
      using r by (auto simp: llex_loop.simps [of C sem ls] rbind_eq_Inr Let_def)
    then show ?thesis using IH(1) [OF refl True] inclinenumber_todo [of ls ls1] by fastforce
  next
    case nl: False
    show ?thesis
    proof (cases "ischar CHR ''-'' ?c")
      case True
      then obtain ls1 where n: "next_char ls = Inr ls1"
        and m: "(if \<not> ischar CHR ''-'' (current ls1) then Inr (TK_CHAR ?c, sem, ls1)
          else rbind (skip_comment ls1) (\<lambda>ls'. llex_loop C sem ls')) = Inr (t, s, ls')"
        using r nl by (auto simp: llex_loop.simps [of C sem ls] rbind_eq_Inr Let_def)
      show ?thesis
      proof (cases "ischar CHR ''-'' (current ls1)")
        case c2: True
        then obtain ls2 where "skip_comment ls1 = Inr ls2" "llex_loop C sem ls2 = Inr (t, s, ls')"
          using m by (auto simp: rbind_eq_Inr)
        then show ?thesis
          using IH(2) [OF refl nl True n] c2 skip_comment_todo [of ls1 ls2] next_todo [OF n] by fastforce
      qed (use m next_todo [OF n] in simp)
    next
      case mi: False
      show ?thesis
      proof (cases "ischar CHR ''['' ?c")
        case True
        then obtain sep ls1 where "skip_sep ls = Inr (sep, ls1)"
          "(if sep \<ge> 0 then rbind (read_long_string True sep ls1) (\<lambda>(s, ls). Inr (TK TK_STRING, SemString s, ls))
            else if sep = - 1 then Inr (TK_CHAR ?c, sem, ls1)
            else luaX_lexerror ls1 ''invalid long string delimiter'' (TK TK_STRING)) = Inr (t, s, ls')"
          using r nl mi by (auto simp: llex_loop.simps [of C sem ls] rbind_eq_Inr Let_def)
        then show ?thesis
          by (auto simp: rbind_eq_Inr dest!: skip_sep_todo read_long_string_todo split: if_splits)
      next
        case br: False
        show ?thesis
        proof (cases "is_space ?c \<and> \<not> (?c = 34 \<or> ?c = 39)")
          case sp: True
          then have other: "\<not> ischar CHR ''='' ?c" "\<not> ischar CHR ''<'' ?c" "\<not> ischar CHR ''>'' ?c"
            "\<not> ischar CHR ''~'' ?c" "\<not> ischar CHR ''.'' ?c" "?c \<noteq> EOZ"
            by (auto simp: is_space_def ischar_def EOZ_def)
          then obtain ls1 where "next_char ls = Inr ls1" "llex_loop C sem ls1 = Inr (t, s, ls')"
            using r nl mi br sp by (auto simp: llex_loop.simps [of C sem ls] rbind_eq_Inr Let_def)
          then show ?thesis
            using IH(3) [OF refl nl mi br other(1-4) _ other(5,6)] sp next_todo [of ls ls1] by fastforce
        next
          case False
          then show ?thesis
            using r nl mi br
            by (auto simp: llex_loop.simps [of C sem ls] rbind_eq_Inr Let_def split: if_splits
                dest!: char_or_equal_todo read_string_todo read_dots_todo read_numeral_todo read_name_todo next_todo)
        qed
      qed
    qed
  qed
qed

section \<open>Reading what \<open>%q\<close> writes\<close>

text \<open>The state stands before the characters \<open>cs\<close>.\<close>

definition before :: "bytes \<Rightarrow> LexState \<Rightarrow> bool" where
  "before cs ls \<longleftrightarrow> (case cs of [] \<Rightarrow> current ls = EOZ
     | c # cs' \<Rightarrow> current ls = uint c \<and> string_reader.stream (ls_z ls) = cs' \<and> \<not> z_under (ls_z ls))"

text \<open>The buffer has room for \<open>n\<close> more characters.\<close>

definition room :: "nat \<Rightarrow> LexState \<Rightarrow> bool" where
  "room n ls \<longleftrightarrow> length (ls_buff ls) \<le> ls_buffsize ls \<and> 0 < ls_buffsize ls \<and> length (ls_buff ls) + n < 2 ^ 62"

lemma next_before: "before (c # cs) ls \<Longrightarrow> \<exists>ls'. next_char ls = Inr ls' \<and> before cs ls' \<and>
    ls' = ls\<lparr>current := current ls', ls_z := ls_z ls'\<rparr>"
proof -
  assume b: "before (c # cs) ls"
  then have "\<not> z_under (ls_z ls)" by (simp add: before_def)
  then obtain ls' where ls': "next_char ls = Inr ls'" "ls' = ls\<lparr>current := current ls', ls_z := ls_z ls'\<rparr>"
    "string_reader.stream (ls_z ls) = [] \<Longrightarrow> current ls' = EOZ \<and> z_under (ls_z ls')"
    "\<And>c cs. string_reader.stream (ls_z ls) = c # cs \<Longrightarrow>
      current ls' = uint c \<and> string_reader.stream (ls_z ls') = cs \<and> \<not> z_under (ls_z ls')"
    by (rule next_char_ok) blast
  have "before cs ls'" using b ls'(3,4) by (cases cs) (auto simp: before_def)
  then show ?thesis using ls'(1,2) by blast
qed

lemma save_room: "room (Suc n) ls \<Longrightarrow> \<exists>k. save ls c = Inr (ls\<lparr>ls_buffsize := k, ls_buff := ls_buff ls @ [c]\<rparr>) \<and>
    room n (ls\<lparr>ls_buffsize := k, ls_buff := ls_buff ls @ [c]\<rparr>)"
  by (cases ls) (auto simp: save_def room_def MAX_SIZET_def)


text \<open>From \<open>ls\<close> to \<open>ls'\<close> the characters \<open>b\<close> went to the buffer and \<open>k\<close> lines were counted; \<open>ls'\<close> stands
  before \<open>cs\<close>, with room for \<open>n\<close> characters.\<close>

definition moved :: "bytes \<Rightarrow> bytes \<Rightarrow> nat \<Rightarrow> nat \<Rightarrow> LexState \<Rightarrow> LexState \<Rightarrow> bool" where
  "moved cs b k n ls ls' \<longleftrightarrow> before cs ls' \<and> room n ls' \<and> ls_buff ls' = ls_buff ls @ b \<and>
     linenumber ls' = linenumber ls + int k \<and> lookahead ls' = lookahead ls"

lemma before_update [simp]:
  "before cs (ls\<lparr>linenumber := n\<rparr>) = before cs ls" "before cs (luaX_newstring ls s) = before cs ls"
  by (simp_all add: before_def luaX_newstring_def split: list.split)

lemma newstring_fields [simp]: "ls_buff (luaX_newstring ls s) = ls_buff ls"
  "linenumber (luaX_newstring ls s) = linenumber ls" "lookahead (luaX_newstring ls s) = lookahead ls"
  by (simp_all add: luaX_newstring_def)

lemma room_update [simp]:
  "room n (ls\<lparr>linenumber := l\<rparr>) = room n ls" "room n (luaX_newstring ls s) = room n ls"
  by (simp_all add: room_def luaX_newstring_def)

lemma moved_trans: "moved cs b k n ls ls1 \<Longrightarrow> moved cs' b' k' n' ls1 ls2 \<Longrightarrow> moved cs' (b @ b') (k + k') n' ls ls2"
  by (simp add: moved_def)

lemma next_moved:
  assumes "before (c # cs) ls" and "room n ls"
  obtains ls' where "next_char ls = Inr ls'" and "moved cs [] 0 n ls ls'"
proof -
  obtain ls' where ls': "next_char ls = Inr ls'" "before cs ls'" "ls' = ls\<lparr>current := current ls', ls_z := ls_z ls'\<rparr>"
    using next_before [OF assms(1)] by blast
  have "ls_buff ls' = ls_buff ls" "ls_buffsize ls' = ls_buffsize ls" "linenumber ls' = linenumber ls" "lookahead ls' = lookahead ls"
    by (subst ls'(3), simp)+
  then show thesis using that ls'(1,2) assms(2) by (simp add: moved_def room_def)
qed

lemma save_moved:
  assumes "before cs ls" and "room (Suc n) ls"
  obtains ls' where "save ls b = Inr ls'" and "moved cs [b] 0 n ls ls'" and "current ls' = current ls"
proof -
  obtain k where k: "save ls b = Inr (ls\<lparr>ls_buffsize := k, ls_buff := ls_buff ls @ [b]\<rparr>)"
    "room n (ls\<lparr>ls_buffsize := k, ls_buff := ls_buff ls @ [b]\<rparr>)"
    using save_room [OF assms(2)] by blast
  show thesis
    by (rule that [OF k(1)]) (use k(2) assms(1) in \<open>auto simp: moved_def before_def split: list.splits\<close>)
qed

lemma save_and_next_moved:
  assumes "before (c # cs) ls" and "room (Suc n) ls"
  obtains ls' where "save_and_next ls = Inr ls'" and "moved cs [c] 0 n ls ls'"
proof -
  obtain ls1 where ls1: "save ls c = Inr ls1" "moved (c # cs) [c] 0 n ls ls1"
    using save_moved [OF assms, of c] by blast
  then have b: "before (c # cs) ls1" "room n ls1" by (simp_all add: moved_def)
  obtain ls2 where ls2: "next_char ls1 = Inr ls2" "moved cs [] 0 n ls1 ls2"
    by (rule next_moved [OF b]) auto
  have "save_and_next ls = Inr ls2"
    using assms(1) ls1(1) ls2(1) by (simp add: save_and_next_def before_def)
  then show thesis using that moved_trans [OF ls1(2) ls2(2)] by simp
qed

lemma uint_code: "0 \<le> n \<Longrightarrow> n < 256 \<Longrightarrow> uint (c :: u8) = n \<longleftrightarrow> c = word_of_int n"
  by (auto simp: uint_word_of_int)

lemma inclinenumber_moved:
  assumes "before (10 # c # cs) ls" and "room n ls" and "c \<noteq> 13" and "linenumber ls + 1 < MAX_INT"
  obtains ls' where "inclinenumber ls = Inr ls'" and "moved (c # cs) [] 1 n ls ls'"
proof -
  obtain ls1 where ls1: "next_char ls = Inr ls1" "moved (c # cs) [] 0 n ls ls1"
    by (rule next_moved [OF assms(1,2)]) auto
  have cur: "current ls = 10" "current ls1 = uint c" using assms(1) ls1(2) by (simp_all add: before_def moved_def)
  have "uint c \<noteq> 13" using assms(3) by (simp add: uint_code)
  then have "\<not> (currIsNewline ls1 \<and> current ls1 \<noteq> current ls)" using cur by (simp add: currIsNewline_def)
  then have "inclinenumber ls = Inr (ls1\<lparr>linenumber := linenumber ls1 + 1\<rparr>)"
    using ls1 assms(4) by (auto simp: inclinenumber_def moved_def)
  moreover have "moved (c # cs) [] 1 n ls (ls1\<lparr>linenumber := linenumber ls1 + 1\<rparr>)"
    using ls1(2) by (simp add: moved_def)
  ultimately show thesis by (rule that)
qed


lemma simple_escape_simps [simp]: "simple_escape 34 = None" "simple_escape 92 = None" "simple_escape 10 = None"
    "simple_escape 48 = None" "simple_escape 114 = Some 13"
  by (simp_all add: simple_escape_def)

lemma read_escape_same:
  assumes "c = 34 \<or> c = 92" and "before (92 # c # cs) ls" and "room (Suc n) ls"
  obtains ls' where "read_escape ls = Inr ls'" and "moved cs [c] 0 n ls ls'"
proof -
  obtain ls1 where ls1: "next_char ls = Inr ls1" "moved (c # cs) [] 0 (Suc n) ls ls1"
    by (rule next_moved [OF assms(2,3)]) auto
  then have b: "before (c # cs) ls1" "room (Suc n) ls1" by (simp_all add: moved_def)
  obtain ls2 where ls2: "save_and_next ls1 = Inr ls2" "moved cs [c] 0 n ls1 ls2"
    by (rule save_and_next_moved [OF b]) auto
  have "current ls1 = uint c" using b(1) by (simp add: before_def)
  then have "read_escape ls = Inr ls2"
    using ls1(1) ls2(1) assms(1) by (auto simp: read_escape_def currIsNewline_def EOZ_def isdigit_def)
  then show thesis using that moved_trans [OF ls1(2) ls2(2)] by simp
qed

lemma read_escape_newline:
  assumes "before (92 # 10 # c # cs) ls" and "room (Suc n) ls" and "c \<noteq> 13" and "linenumber ls + 1 < MAX_INT"
  obtains ls' where "read_escape ls = Inr ls'" and "moved (c # cs) [10] 1 n ls ls'"
proof -
  obtain ls1 where ls1: "next_char ls = Inr ls1" "moved (10 # c # cs) [] 0 (Suc n) ls ls1"
    by (rule next_moved [OF assms(1,2)]) auto
  then have b: "before (10 # c # cs) ls1" "room (Suc n) ls1" by (simp_all add: moved_def)
  obtain ls2 where ls2: "save ls1 10 = Inr ls2" "moved (10 # c # cs) [10] 0 n ls1 ls2"
    by (rule save_moved [OF b]) auto
  have b2: "before (10 # c # cs) ls2" "room n ls2" "linenumber ls2 + 1 < MAX_INT"
    using ls1(2) ls2(2) assms(4) by (simp_all add: moved_def)
  obtain ls3 where ls3: "inclinenumber ls2 = Inr ls3" "moved (c # cs) [] 1 n ls2 ls3"
    by (rule inclinenumber_moved [OF b2(1,2) assms(3) b2(3)]) auto
  have "current ls1 = 10" using b(1) by (simp add: before_def)
  then have "read_escape ls = Inr ls3"
    using ls1(1) ls2(1) ls3(1) by (simp add: read_escape_def currIsNewline_def)
  then show thesis using that moved_trans [OF moved_trans [OF ls1(2) ls2(2)] ls3(2)] by simp
qed

lemma read_escape_return:
  assumes "before (92 # 114 # cs) ls" and "room (Suc n) ls"
  obtains ls' where "read_escape ls = Inr ls'" and "moved cs [13] 0 n ls ls'"
proof -
  obtain ls1 where ls1: "next_char ls = Inr ls1" "moved (114 # cs) [] 0 (Suc n) ls ls1"
    by (rule next_moved [OF assms(1,2)]) auto
  then have b: "before (114 # cs) ls1" "room (Suc n) ls1" by (simp_all add: moved_def)
  obtain ls2 where ls2: "save ls1 13 = Inr ls2" "moved (114 # cs) [13] 0 n ls1 ls2"
    by (rule save_moved [OF b]) auto
  then have b2: "before (114 # cs) ls2" "room n ls2" by (simp_all add: moved_def)
  obtain ls3 where ls3: "next_char ls2 = Inr ls3" "moved cs [] 0 n ls2 ls3"
    by (rule next_moved [OF b2]) auto
  have "current ls1 = 114" using b(1) by (simp add: before_def)
  then have "read_escape ls = Inr ls3"
    using ls1(1) ls2(1) ls3(1) by (simp add: read_escape_def)
  then show thesis using that moved_trans [OF moved_trans [OF ls1(2) ls2(2)] ls3(2)] by simp
qed

lemma escape_digits_zeros:
  assumes "before (replicate k 48 @ cs) ls" and "room n ls"
  obtains ls' where "escape_digits k 0 ls = Inr (0, ls')" and "moved cs [] 0 n ls ls'"
  using assms
proof (induction k arbitrary: ls thesis)
  case 0
  then show ?case by (simp add: moved_def)
next
  case (Suc k)
  have b: "before (48 # replicate k 48 @ cs) ls" using Suc.prems(2) by simp
  obtain ls1 where ls1: "next_char ls = Inr ls1" "moved (replicate k 48 @ cs) [] 0 n ls ls1"
    by (rule next_moved [OF b Suc.prems(3)]) auto
  then have b1: "before (replicate k 48 @ cs) ls1" "room n ls1" by (simp_all add: moved_def)
  obtain ls2 where ls2: "escape_digits k 0 ls1 = Inr (0, ls2)" "moved cs [] 0 n ls1 ls2"
    by (rule Suc.IH [OF _ b1]) auto
  have "escape_digits (Suc k) 0 ls = Inr (0, ls2)"
    using b ls1(1) ls2(1) by (simp add: before_def isdigit_def)
  then show ?case using Suc.prems(1) moved_trans [OF ls1(2) ls2(2)] by simp
qed

lemma read_escape_zero:
  assumes "before (92 # 48 # 48 # 48 # cs) ls" and "room (Suc n) ls"
  obtains ls' where "read_escape ls = Inr ls'" and "moved cs [0] 0 n ls ls'"
proof -
  obtain ls1 where ls1: "next_char ls = Inr ls1" "moved (48 # 48 # 48 # cs) [] 0 (Suc n) ls ls1"
    by (rule next_moved [OF assms(1,2)]) auto
  then have b: "before (replicate 3 48 @ cs) ls1" "room (Suc n) ls1" by (simp_all add: moved_def numeral_3_eq_3)
  obtain ls2 where ls2: "escape_digits 3 0 ls1 = Inr (0, ls2)" "moved cs [] 0 (Suc n) ls1 ls2"
    by (rule escape_digits_zeros [OF b]) auto
  then have b2: "before cs ls2" "room (Suc n) ls2" by (simp_all add: moved_def)
  obtain ls3 where ls3: "save ls2 0 = Inr ls3" "moved cs [0] 0 n ls2 ls3"
    by (rule save_moved [OF b2]) auto
  have "current ls1 = 48" using ls1(2) by (simp add: before_def moved_def)
  then have "read_escape ls = Inr ls3"
    using ls1(1) ls2(1) ls3(1) by (simp add: read_escape_def currIsNewline_def EOZ_def isdigit_def)
  then show thesis using that moved_trans [OF moved_trans [OF ls1(2) ls2(2)] ls3(2)] by simp
qed

text \<open>One character of a quoted string.\<close>

lemma read_quoted_char:
  assumes "before (quote_char c @ d # cs) ls" and "room (Suc n) ls" and "d \<noteq> 13"
    and "linenumber ls + (if c = 10 then 1 else 0) < MAX_INT"
  obtains ls' where "read_string_loop 34 ls = read_string_loop 34 ls'"
    and "moved (d # cs) [c] (if c = 10 then 1 else 0) n ls ls'"
proof -
  note [simp] = read_string_loop.simps [of 34 ls] currIsNewline_def EOZ_def
  note goal = that
  have escape: thesis if e: "read_escape ls = Inr ls'" "moved (d # cs) [c] (if c = 10 then 1 else 0) n ls ls'"
      and b: "before (92 # x) ls" for ls' x
    by (rule goal [OF _ e(2)]) (use e(1) b in \<open>simp add: before_def\<close>)
  consider "c = 34 \<or> c = 92" | "c = 10" | "c = 13" | "c = 0" | "c \<notin> {34, 92, 10, 13, 0}" by blast
  then show thesis
  proof cases
    case 1
    then have b: "before (92 # c # d # cs) ls" using assms(1) by (auto simp: quote_char_def)
    obtain ls' where "read_escape ls = Inr ls'" "moved (d # cs) [c] 0 n ls ls'"
      by (rule read_escape_same [OF 1 b assms(2)])
    with 1 b show ?thesis by (intro escape) auto
  next
    case 2
    then have b: "before (92 # 10 # d # cs) ls" "linenumber ls + 1 < MAX_INT"
      using assms(1,4) by (simp_all add: quote_char_def)
    obtain ls' where "read_escape ls = Inr ls'" "moved (d # cs) [10] 1 n ls ls'"
      by (rule read_escape_newline [OF b(1) assms(2,3) b(2)])
    with 2 b show ?thesis by (intro escape) auto
  next
    case 3
    then have b: "before (92 # 114 # d # cs) ls" using assms(1) by (simp add: quote_char_def ascii_def)
    obtain ls' where "read_escape ls = Inr ls'" "moved (d # cs) [13] 0 n ls ls'"
      by (rule read_escape_return [OF b assms(2)])
    with 3 b show ?thesis by (intro escape) auto
  next
    case 4
    then have b: "before (92 # 48 # 48 # 48 # d # cs) ls" using assms(1) by (simp add: quote_char_def ascii_def)
    obtain ls' where "read_escape ls = Inr ls'" "moved (d # cs) [0] 0 n ls ls'"
      by (rule read_escape_zero [OF b assms(2)])
    with 4 b show ?thesis by (intro escape) auto
  next
    case 5
    then have b: "before (c # d # cs) ls" using assms(1) by (simp add: quote_char_def)
    obtain ls' where "save_and_next ls = Inr ls'" "moved (d # cs) [c] 0 n ls ls'"
      by (rule save_and_next_moved [OF b assms(2)])
    moreover have "current ls \<noteq> 34" "current ls \<noteq> - 1" "current ls \<noteq> 10" "current ls \<noteq> 13" "current ls \<noteq> 92"
      using b 5 uint_not_EOZ [of c] by (simp_all add: before_def uint_code)
    ultimately show ?thesis using 5 by (intro goal) auto
  qed
qed

lemma quote_char_start: "quote_char c \<noteq> [] \<and> hd (quote_char c) \<noteq> 13"
  by (simp add: quote_char_def)

lemma quoted_start: obtains d cs where "concat (map quote_char s) @ 34 # r = d # cs" and "d \<noteq> 13"
proof (cases s)
  case (Cons c s')
  then show ?thesis using that [of "hd (quote_char c)" "tl (quote_char c) @ concat (map quote_char s') @ 34 # r"]
      quote_char_start [of c] by simp
qed (use that [of 34 r] in simp)

definition newlines :: "bytes \<Rightarrow> nat" where
  "newlines s = length (filter (\<lambda>c. c = 10) s)"

lemma read_quoted:
  assumes "before (concat (map quote_char s) @ 34 # r) ls" and "room (length s + n) ls"
    and "linenumber ls + int (newlines s) < MAX_INT"
  obtains ls' where "read_string_loop 34 ls = Inr ls'" and "moved (34 # r) s (newlines s) n ls ls'"
  using assms
proof (induction s arbitrary: ls thesis)
  case Nil
  then have "current ls = 34" by (simp add: before_def)
  with Nil show ?case by (simp add: read_string_loop.simps [of 34 ls] moved_def newlines_def)
next
  case (Cons c s)
  obtain d cs where d: "concat (map quote_char s) @ 34 # r = d # cs" "d \<noteq> 13" by (rule quoted_start)
  have b: "before (quote_char c @ d # cs) ls" "room (Suc (length s + n)) ls"
    "linenumber ls + (if c = 10 then 1 else 0) < MAX_INT"
    using Cons.prems(2-4) d(1) by (simp_all add: newlines_def split: if_splits)
  obtain ls1 where ls1: "read_string_loop 34 ls = read_string_loop 34 ls1"
    "moved (d # cs) [c] (if c = 10 then 1 else 0) (length s + n) ls ls1"
    by (rule read_quoted_char [OF b(1,2) d(2) b(3)])
  have b1: "before (concat (map quote_char s) @ 34 # r) ls1" "room (length s + n) ls1"
    "linenumber ls1 + int (newlines s) < MAX_INT"
    using ls1(2) d(1) Cons.prems(4) by (simp_all add: moved_def newlines_def split: if_splits)
  obtain ls2 where ls2: "read_string_loop 34 ls1 = Inr ls2" "moved (34 # r) s (newlines s) n ls1 ls2"
    by (rule Cons.IH [OF _ b1])
  have "moved (34 # r) (c # s) (newlines (c # s)) n ls ls2"
    using moved_trans [OF ls1(2) ls2(2)] by (simp add: newlines_def split: if_splits)
  then show ?case using Cons.prems(1) ls1(1) ls2(1) by simp
qed

lemma read_string_quoted:
  assumes "before (addquoted s @ r) ls" and "room (length s + 2) ls" and "ls_buff ls = []"
    and "linenumber ls + int (newlines s) < MAX_INT"
  obtains ls' where "read_string 34 ls = Inr (s, ls')" and "moved r ([34] @ s @ [34]) (newlines s) 0 ls ls'"
proof -
  have b: "before (34 # concat (map quote_char s) @ 34 # r) ls" "room (Suc (length s + 1)) ls"
    using assms(1,2) by (simp_all add: addquoted_def)
  obtain ls1 where ls1: "save_and_next ls = Inr ls1" "moved (concat (map quote_char s) @ 34 # r) [34] 0 (length s + 1) ls ls1"
    by (rule save_and_next_moved [OF b])
  then have b1: "before (concat (map quote_char s) @ 34 # r) ls1" "room (length s + 1) ls1"
    "linenumber ls1 + int (newlines s) < MAX_INT" using assms(4) by (simp_all add: moved_def)
  obtain ls2 where ls2: "read_string_loop 34 ls1 = Inr ls2" "moved (34 # r) s (newlines s) 1 ls1 ls2"
    by (rule read_quoted [OF b1])
  then have b2: "before (34 # r) ls2" "room (Suc 0) ls2" by (simp_all add: moved_def)
  obtain ls3 where ls3: "save_and_next ls2 = Inr ls3" "moved r [34] 0 0 ls2 ls3"
    by (rule save_and_next_moved [OF b2])
  have m: "moved r ([34] @ s @ [34]) (newlines s) 0 ls ls3"
    using moved_trans [OF moved_trans [OF ls1(2) ls2(2)] ls3(2)] by simp
  then have "read_string 34 ls = Inr (s, luaX_newstring ls3 s)"
    using ls1(1) ls2(1) ls3(1) assms(3) by (simp add: read_string_def moved_def)
  moreover have "moved r ([34] @ s @ [34]) (newlines s) 0 ls (luaX_newstring ls3 s)"
    using m by (simp add: moved_def)
  ultimately show thesis by (rule that)
qed

text \<open>C23. \<open>addquoted\<close> writes a string so that the analyser reads it back: \<open>luaX_next\<close> on the quoted
  text gives a string token with the same bytes, whatever they are, counts its line breaks, and
  stands before the text that followed.\<close>

theorem quoted_string_read_back:
  assumes "before (addquoted s @ r) ls" and "token (lookahead ls) = TK TK_EOS"
    and "0 < ls_buffsize ls" and "length s + 2 < 2 ^ 62" and "linenumber ls + int (newlines s) < MAX_INT"
  shows "\<exists>ls'. luaX_next C ls = Inr ls' \<and> tk ls' = \<lparr>token = TK TK_STRING, seminfo = SemString s\<rparr> \<and>
    before r ls' \<and> linenumber ls' = linenumber ls + int (newlines s)"
proof -
  let ?ls = "reset_buffer (ls\<lparr>lastline := linenumber ls\<rparr>)"
  have b: "before (addquoted s @ r) ?ls" "room (length s + 2) ?ls" "ls_buff ?ls = []"
    "linenumber ?ls + int (newlines s) < MAX_INT"
    using assms by (simp_all add: reset_buffer_def before_def room_def addquoted_def)
  obtain ls' where ls': "read_string 34 ?ls = Inr (s, ls')" "moved r ([34] @ s @ [34]) (newlines s) 0 ?ls ls'"
    by (rule read_string_quoted [OF b])
  have cur: "current ?ls = 34" using b(1) by (simp add: before_def addquoted_def)
  have loop: "llex_loop C sem ?ls = Inr (TK TK_STRING, SemString s, ls')" for sem
    unfolding llex_loop.simps [of C sem ?ls] Let_def
    using ls'(1) cur by (simp add: currIsNewline_def ischar_def)
  show ?thesis
    using loop ls'(2) assms(2) by (cases r) (simp_all add: luaX_next_def llex_def moved_def before_def reset_buffer_def)
qed

lemma setinput_before:
  obtains ls where "luaX_setinput t (luaZ_init cs) src = Inr ls" and "before cs ls" and "ls_ok ls"
    and "token (lookahead ls) = TK TK_EOS" and "ls_buffsize ls = LUA_MINBUFFER" and "linenumber ls = 1"
proof -
  let ?ls = "\<lparr>current = 0, linenumber = 1, lastline = 1, tk = t, lookahead = no_token, ls_z = luaZ_init cs, ls_buff = [],
       ls_buffsize = LUA_MINBUFFER, ls_source = src, decpoint = 46, ls_names = {}\<rparr>"
  have st: "string_reader.stream (luaZ_init cs) = cs" by (simp add: string_reader.stream_def luaZ_init_def)
  have u: "\<not> z_under (ls_z ?ls)" by (simp add: luaZ_init_def)
  obtain ls' where ls': "next_char ?ls = Inr ls'" "ls' = ?ls\<lparr>current := current ls', ls_z := ls_z ls'\<rparr>"
    "cs = [] \<Longrightarrow> current ls' = EOZ"
    "\<And>c r. cs = c # r \<Longrightarrow>
      current ls' = uint c \<and> string_reader.stream (ls_z ls') = r \<and> \<not> z_under (ls_z ls')"
    by (rule next_char_ok [OF u]) (auto simp: st)
  have "before cs ls'" "ls_ok ls'" using ls'(3,4) by (cases cs; simp add: before_def ls_ok_def)+
  moreover have "token (lookahead ls') = TK TK_EOS" "ls_buffsize ls' = LUA_MINBUFFER" "linenumber ls' = 1"
    by (subst ls'(2), simp add: no_token_def)+
  ultimately show thesis using that ls'(1) by (simp add: luaX_setinput_def)
qed

theorem quoted_string_read_back_witness:
  "\<forall>C t src. \<exists>ls ls'. luaX_setinput t (luaZ_init (addquoted [0, 49, 34, 92, 13, 10, 200] @ [59])) src = Inr ls \<and>
    luaX_next C ls = Inr ls' \<and>
    tk ls' = \<lparr>token = TK TK_STRING, seminfo = SemString [0, 49, 34, 92, 13, 10, 200]\<rparr> \<and> before [59] ls'"
proof (intro allI)
  fix C t src
  obtain ls where ls: "luaX_setinput t (luaZ_init (addquoted [0, 49, 34, 92, 13, 10, 200] @ [59])) src = Inr ls"
    "before (addquoted [0, 49, 34, 92, 13, 10, 200] @ [59]) ls"
    "token (lookahead ls) = TK TK_EOS" "ls_buffsize ls = LUA_MINBUFFER" "linenumber ls = 1"
    by (rule setinput_before)
  then show "\<exists>ls ls'. luaX_setinput t (luaZ_init (addquoted [0, 49, 34, 92, 13, 10, 200] @ [59])) src = Inr ls \<and>
      luaX_next C ls = Inr ls' \<and>
      tk ls' = \<lparr>token = TK TK_STRING, seminfo = SemString [0, 49, 34, 92, 13, 10, 200]\<rparr> \<and> before [59] ls'"
    using quoted_string_read_back [OF ls(2,3), of C]
    by (auto simp: LUA_MINBUFFER_def newlines_def MAX_INT_def)
qed

text \<open>C25. Scanning is safe: from the state \<open>luaX_setinput\<close> builds over any text, and after any calls of
  \<open>luaX_next\<close> and \<open>luaX_lookahead\<close>, each further call gives a new state of this kind or throws a Lua
  error; no character is read past the end of the stream.\<close>

theorem scanning_safe:
  "ls_ok ls \<Longrightarrow> (case luaX_next C ls of Inr ls' \<Rightarrow> ls_ok ls' | Inl e \<Rightarrow> \<exists>m. e = LuaError m) \<and>
    (case luaX_lookahead C ls of Inr ls' \<Rightarrow> ls_ok ls' | Inl e \<Rightarrow> \<exists>m. e = LuaError m) \<and>
    (\<exists>ls0. luaX_setinput t (luaZ_init cs) src = Inr ls0 \<and> ls_ok ls0)"
  using luaX_next_ok [of ls C] luaX_lookahead_ok [of ls C] setinput_before [of t cs src]
  by (auto split: sum.splits)

theorem scanning_safe_witness:
  "\<exists>ls. luaX_setinput no_token (luaZ_init [91, 61]) [61] = Inr ls \<and>
    (\<forall>C. case luaX_next C ls of Inr ls' \<Rightarrow> ls_ok ls' | Inl e \<Rightarrow> \<exists>m. e = LuaError m)"
  using scanning_safe setinput_before [of no_token "[91, 61]" "[61]"] by metis

text \<open>All tokens up to the end of the text, in at most \<open>n\<close> calls, as the parser asks for them.\<close>

fun lex_all :: "clib \<Rightarrow> nat \<Rightarrow> LexState \<Rightarrow> (Token list \<times> LexState) result" where
  "lex_all C 0 ls = Inl OutOfFuel"
| "lex_all C (Suc n) ls =
     rbind (luaX_next C ls) (\<lambda>ls.
     if token (tk ls) = TK TK_EOS then Inr ([], ls)
     else rbind (lex_all C n ls) (\<lambda>(ts, ls'). Inr (tk ls # ts, ls')))"

lemma luaX_next_todo:
  assumes "luaX_next C ls = Inr ls'" and "token (lookahead ls) = TK TK_EOS"
  shows "token (tk ls') = TK TK_EOS \<or> todo ls' < todo ls"
proof -
  let ?ls = "reset_buffer (ls\<lparr>lastline := linenumber ls\<rparr>)"
  obtain t s ls1 where l: "llex_loop C (seminfo (tk ls)) ?ls = Inr (t, s, ls1)" and ls': "ls' = ls1\<lparr>tk := \<lparr>token = t, seminfo = s\<rparr>\<rparr>"
    using assms by (auto simp: luaX_next_def llex_def rbind_eq_Inr)
  have "todo ?ls = todo ls" "todo ls' = todo ls1" by (simp_all add: todo_def reset_buffer_def ls')
  then show ?thesis using llex_loop_todo [OF l] ls' by simp
qed

text \<open>C24. Scanning any text ends: after at most as many calls as it has characters left, and one
  more, \<open>luaX_next\<close> has given the end of the stream or thrown an error.\<close>

theorem scanning_ends:
  assumes "ls_ok ls" and "token (lookahead ls) = TK TK_EOS" and "todo ls < n"
  shows "(\<exists>ts ls'. lex_all C n ls = Inr (ts, ls') \<and> token (tk ls') = TK TK_EOS \<and> length ts \<le> todo ls) \<or>
    (\<exists>m. lex_all C n ls = Inl (LuaError m))"
  using assms
proof (induction n arbitrary: ls)
  case (Suc n)
  show ?case
  proof (cases "luaX_next C ls")
    case (Inl e)
    then show ?thesis using luaX_next_ok [OF Suc.prems(1), of C] by auto
  next
    case (Inr ls1)
    then have ok: "ls_ok ls1" "token (lookahead ls1) = TK TK_EOS" using luaX_next_ok [OF Suc.prems(1), of C] by auto
    show ?thesis
    proof (cases "token (tk ls1) = TK TK_EOS")
      case False
      then have "todo ls1 < todo ls" using luaX_next_todo [OF Inr Suc.prems(2)] by simp
      with Suc.IH [OF ok] Suc.prems(3) False Inr show ?thesis by fastforce
    qed (simp add: Inr)
  qed
qed simp

theorem scanning_ends_witness:
  "\<exists>ls. luaX_setinput no_token (luaZ_init [120, 61, 91]) [61] = Inr ls \<and>
    (\<forall>C. (\<exists>ts ls'. lex_all C 100 ls = Inr (ts, ls') \<and> token (tk ls') = TK TK_EOS) \<or>
      (\<exists>m. lex_all C 100 ls = Inl (LuaError m)))"
proof -
  obtain ls where ls: "luaX_setinput no_token (luaZ_init [120, 61, 91]) [61] = Inr ls"
    "before [120, 61, 91] ls" "ls_ok ls" "token (lookahead ls) = TK TK_EOS"
    by (rule setinput_before)
  have "todo ls < 100" using ls(2) by (simp add: before_def todo_def)
  then show ?thesis using scanning_ends [OF ls(3,4)] ls(1) by blast
qed

text \<open>The analyser takes a zero byte for a dot (\<open>strchr\<close> in \<open>check_next\<close> finds the end of its
  string): a dot followed by two zero bytes is scanned as \<open>...\<close>.\<close>

theorem zero_bytes_scanned_as_dots:
  assumes "before (46 # 0 # 0 # r) ls" and "token (lookahead ls) = TK TK_EOS" and "0 < ls_buffsize ls"
  shows "\<exists>ls'. luaX_next C ls = Inr ls' \<and> token (tk ls') = TK TK_DOTS \<and> before r ls'"
proof -
  let ?ls = "reset_buffer (ls\<lparr>lastline := linenumber ls\<rparr>)"
  have b: "before (46 # 0 # 0 # r) ?ls" "room (Suc 2) ?ls"
    using assms by (simp_all add: reset_buffer_def before_def room_def)
  obtain ls1 where ls1: "save_and_next ?ls = Inr ls1" "moved (0 # 0 # r) [46] 0 2 ?ls ls1"
    by (rule save_and_next_moved [OF b])
  then have b1: "before (0 # 0 # r) ls1" "room (Suc 1) ls1" by (simp_all add: moved_def numeral_2_eq_2)
  obtain ls2 where ls2: "save_and_next ls1 = Inr ls2" "moved (0 # r) [0] 0 1 ls1 ls2"
    by (rule save_and_next_moved [OF b1])
  then have b2: "before (0 # r) ls2" "room (Suc 0) ls2" by (simp_all add: moved_def)
  obtain ls3 where ls3: "save_and_next ls2 = Inr ls3" "moved r [0] 0 0 ls2 ls3"
    by (rule save_and_next_moved [OF b2])
  have cur: "current ?ls = 46" "current ls1 = 0" "current ls2 = 0"
    using b(1) b1(1) b2(1) by (simp_all add: before_def)
  have dots: "read_dots C sem ?ls = Inr (TK TK_DOTS, sem, ls3)" for sem
    using ls1(1) ls2(1) ls3(1) cur by (simp add: read_dots_def check_next_def)
  have loop: "llex_loop C sem ?ls = Inr (TK TK_DOTS, sem, ls3)" for sem
    unfolding llex_loop.simps [of C sem ?ls] Let_def
    using dots cur by (simp add: currIsNewline_def ischar_def)
  show ?thesis
    using loop ls3(2) assms(2) by (cases r) (simp_all add: luaX_next_def llex_def moved_def before_def)
qed

theorem zero_bytes_scanned_as_dots_witness:
  "\<forall>C. \<exists>ls ls'. luaX_setinput no_token (luaZ_init [46, 0, 0]) [61] = Inr ls \<and> luaX_next C ls = Inr ls' \<and>
    token (tk ls') = TK TK_DOTS"
proof
  fix C
  obtain ls where ls: "luaX_setinput no_token (luaZ_init [46, 0, 0]) [61] = Inr ls"
    "before [46, 0, 0] ls" "token (lookahead ls) = TK TK_EOS" "ls_buffsize ls = LUA_MINBUFFER"
    by (rule setinput_before)
  then show "\<exists>ls ls'. luaX_setinput no_token (luaZ_init [46, 0, 0]) [61] = Inr ls \<and> luaX_next C ls = Inr ls' \<and>
      token (tk ls') = TK TK_DOTS"
    using zero_bytes_scanned_as_dots [OF ls(2,3), of C] by (auto simp: LUA_MINBUFFER_def)
qed

end
