(* ===== verification/LuaMatch.thy ===== *)
theory LuaMatch
  imports LuaLex
begin

text \<open>
  Pattern matching, lstrlib.c: the recursive backtracking matcher \<open>match\<close> with its captures.

  A C string is its bytes; a pointer into it is an index, and reading it past its terminating zero is
  a fault. \<open>None\<close> is the null pointer \<open>match\<close> returns when it fails. The functions that call \<open>match\<close>
  back, which C declares ahead of its definition, take it as the argument \<open>k\<close>. The array of captures
  starts with indeterminate entries, here pairs of zeros. Characters are classified as in the C
  locale. Error messages are without the position \<open>luaL_error\<close> puts before them.
\<close>

section \<open>Bytes of C strings\<close>

definition rd :: "bytes \<Rightarrow> nat \<Rightarrow> u8 result" where
  "rd P i = (if i < length P then Inr (P ! i) else if i = length P then Inr 0 else Inl InvalidPointer)"

text \<open>The \<open>n\<close> bytes from \<open>a\<close> on, as \<open>memcmp\<close> and \<open>lua_pushlstring\<close> read them.\<close>

definition mem :: "bytes \<Rightarrow> nat \<Rightarrow> nat \<Rightarrow> bytes result" where
  "mem S a n = (if a + n \<le> length S then Inr (take n (drop a S)) else Inl InvalidPointer)"

section \<open>Captures\<close>

definition LUA_MAXCAPTURES :: nat where "LUA_MAXCAPTURES = 32"
definition CAP_UNFINISHED :: int where "CAP_UNFINISHED = - 1"
definition CAP_POSITION :: int where "CAP_POSITION = - 2"
definition L_ESC :: u8 where "L_ESC = 37"

text \<open>A capture is the index it starts at and its length.\<close>

type_synonym capture = "nat \<times> int"

record MatchState =
  level :: nat
  capture :: "capture list"

text \<open>\<open>ms.level = 0\<close> over fresh captures.\<close>

definition new_match :: MatchState where
  "new_match = \<lparr>level = 0, capture = replicate LUA_MAXCAPTURES (0, 0)\<rparr>"

definition luaL_error :: "string \<Rightarrow> 'a result" where
  "luaL_error msg = Inl (LuaError msg)"

definition check_capture :: "MatchState \<Rightarrow> int \<Rightarrow> nat result" where
  "check_capture ms l =
     (let l = l - 49 in
      if l < 0 \<or> l \<ge> int (level ms) \<or> snd (capture ms ! nat l) = CAP_UNFINISHED
      then luaL_error ''invalid capture index''
      else Inr (nat l))"

fun to_close :: "capture list \<Rightarrow> nat \<Rightarrow> nat result" where
  "to_close cs 0 = luaL_error ''invalid pattern capture''"
| "to_close cs (Suc l) = (if snd (cs ! l) = CAP_UNFINISHED then Inr l else to_close cs l)"

definition capture_to_close :: "MatchState \<Rightarrow> nat result" where
  "capture_to_close ms = to_close (capture ms) (level ms)"

section \<open>Items of a pattern\<close>

text \<open>The loop that looks for the end of a set, from the character after \<open>[\<close> or \<open>[^\<close> on.\<close>

function set_end :: "bytes \<Rightarrow> nat \<Rightarrow> nat result" where
  "set_end P p =
     rbind (rd P p) (\<lambda>c.
     if c = 0 then luaL_error ''malformed pattern (missing ']')''
     else
       rbind (if c = L_ESC then rbind (rd P (p + 1)) (\<lambda>d. Inr (if d \<noteq> 0 then p + 2 else p + 1)) else Inr (p + 1))
       (\<lambda>p'. rbind (rd P p') (\<lambda>e. if e \<noteq> 93 then set_end P p' else Inr (p' + 1))))"
  by auto
termination
  by (relation "measure (\<lambda>(P, p). length P + 1 - p)")
    (auto simp: rbind_eq_Inr rd_def split: if_splits)

declare set_end.simps [simp del]

definition classend :: "bytes \<Rightarrow> nat \<Rightarrow> nat result" where
  "classend P p =
     rbind (rd P p) (\<lambda>c.
     if c = L_ESC then
       rbind (rd P (p + 1)) (\<lambda>d.
       if d = 0 then luaL_error ''malformed pattern (ends with '%')'' else Inr (p + 2))
     else if c = 91 then
       rbind (rd P (p + 1)) (\<lambda>d. set_end P (if d = 94 then p + 2 else p + 1))
     else Inr (p + 1))"

definition isupper :: "int \<Rightarrow> bool" where "isupper c \<longleftrightarrow> 65 \<le> c \<and> c \<le> 90"
definition islower :: "int \<Rightarrow> bool" where "islower c \<longleftrightarrow> 97 \<le> c \<and> c \<le> 122"
definition ispunct :: "int \<Rightarrow> bool" where "ispunct c \<longleftrightarrow> 32 < c \<and> c < 127 \<and> \<not> isalnum c"
definition isxdigit :: "int \<Rightarrow> bool" where
  "isxdigit c \<longleftrightarrow> isdigit c \<or> (65 \<le> c \<and> c \<le> 70) \<or> (97 \<le> c \<and> c \<le> 102)"
definition tolower :: "int \<Rightarrow> int" where "tolower c = (if isupper c then c + 32 else c)"
definition toupper :: "int \<Rightarrow> int" where "toupper c = (if islower c then c - 32 else c)"

text \<open>The test of a class letter, in lower case; none for another character.\<close>

definition class_test :: "int \<Rightarrow> (int \<Rightarrow> bool) option" where
  "class_test cl = map_of
     [(of_char CHR ''a'', isalpha), (of_char CHR ''c'', iscntrl), (of_char CHR ''d'', isdigit),
      (of_char CHR ''l'', islower), (of_char CHR ''p'', ispunct), (of_char CHR ''s'', is_space),
      (of_char CHR ''u'', isupper), (of_char CHR ''w'', isalnum), (of_char CHR ''x'', isxdigit),
      (of_char CHR ''z'', \<lambda>c. c = 0)] cl"

definition match_class :: "u8 \<Rightarrow> u8 \<Rightarrow> bool" where
  "match_class c cl =
     (case class_test (tolower (uint cl)) of
        Some test \<Rightarrow> if islower (uint cl) then test (uint c) else \<not> test (uint c)
      | None \<Rightarrow> cl = c)"

text \<open>The members of a set, from \<open>p\<close> to its closing bracket at \<open>ec\<close>.\<close>

function set_members :: "u8 \<Rightarrow> bytes \<Rightarrow> bool \<Rightarrow> nat \<Rightarrow> nat \<Rightarrow> bool result" where
  "set_members c P sig p ec =
     (if p < ec then
        rbind (rd P p) (\<lambda>d.
        if d = L_ESC then
          rbind (rd P (p + 1)) (\<lambda>cl.
          if match_class c cl then Inr sig else set_members c P sig (p + 2) ec)
        else
          rbind (rd P (p + 1)) (\<lambda>e.
          if e = 45 \<and> p + 2 < ec then
            rbind (rd P (p + 2)) (\<lambda>hi.
            if d \<le> c \<and> c \<le> hi then Inr sig else set_members c P sig (p + 3) ec)
          else if d = c then Inr sig
          else set_members c P sig (p + 1) ec))
      else Inr (\<not> sig))"
  by auto
termination
  by (relation "measure (\<lambda>(c, P, sig, p, ec). ec - p)") auto

declare set_members.simps [simp del]

definition matchbracketclass :: "u8 \<Rightarrow> bytes \<Rightarrow> nat \<Rightarrow> nat \<Rightarrow> bool result" where
  "matchbracketclass c P p ec =
     rbind (rd P (p + 1)) (\<lambda>d.
     if d = 94 then set_members c P False (p + 2) ec else set_members c P True (p + 1) ec)"

definition singlematch :: "u8 \<Rightarrow> bytes \<Rightarrow> nat \<Rightarrow> nat \<Rightarrow> bool result" where
  "singlematch c P p ep =
     rbind (rd P p) (\<lambda>d.
     if d = 46 then Inr True
     else if d = L_ESC then rbind (rd P (p + 1)) (\<lambda>e. Inr (match_class c e))
     else if d = 91 then matchbracketclass c P p (ep - 1)
     else Inr (d = c))"

text \<open>\<open>s < ms->src_end && singlematch(uchar(*s), p, ep)\<close>\<close>

definition single :: "bytes \<Rightarrow> bytes \<Rightarrow> nat \<Rightarrow> nat \<Rightarrow> nat \<Rightarrow> bool result" where
  "single S P s p ep =
     (if s < length S then rbind (rd S s) (\<lambda>c. singlematch c P p ep) else Inr False)"

section \<open>The matcher\<close>

text \<open>What \<open>match\<close> is given and gives: the captures, an index into the subject; the index reached,
  if any, and the captures.\<close>

type_synonym matcher = "MatchState \<Rightarrow> nat \<Rightarrow> (nat option \<times> MatchState) result"

text \<open>The scan of \<open>matchbalance\<close>, \<open>while (++s < ms->src_end)\<close>.\<close>

function balance_loop :: "bytes \<Rightarrow> u8 \<Rightarrow> u8 \<Rightarrow> int \<Rightarrow> nat \<Rightarrow> nat option result" where
  "balance_loop S b e cont s =
     (if s + 1 < length S then
        rbind (rd S (s + 1)) (\<lambda>c.
        if c = e then
          if cont - 1 = 0 then Inr (Some (s + 2)) else balance_loop S b e (cont - 1) (s + 1)
        else if c = b then balance_loop S b e (cont + 1) (s + 1)
        else balance_loop S b e cont (s + 1))
      else Inr None)"
  by auto
termination
  by (relation "measure (\<lambda>(S, b, e, n, s). length S - s)") auto

declare balance_loop.simps [simp del]

definition matchbalance :: "bytes \<Rightarrow> bytes \<Rightarrow> nat \<Rightarrow> nat \<Rightarrow> nat option result" where
  "matchbalance S P s p =
     rbind (rd P p) (\<lambda>b.
     if b = 0 then luaL_error ''unbalanced pattern''
     else
       rbind (rd P (p + 1)) (\<lambda>e.
       if e = 0 then luaL_error ''unbalanced pattern''
       else
         rbind (rd S s) (\<lambda>c.
         if c \<noteq> b then Inr None else balance_loop S b e 1 s)))"

text \<open>How often the item at \<open>p\<close> matches from \<open>s + i\<close> on, \<open>i\<close> included.\<close>

function max_count :: "bytes \<Rightarrow> bytes \<Rightarrow> nat \<Rightarrow> nat \<Rightarrow> nat \<Rightarrow> nat \<Rightarrow> nat result" where
  "max_count S P s p ep i =
     (if s + i < length S then
        rbind (rd S (s + i)) (\<lambda>c.
        rbind (singlematch c P p ep) (\<lambda>m.
        if m then max_count S P s p ep (i + 1) else Inr i))
      else Inr i)"
  by auto
termination
  by (relation "measure (\<lambda>(S, P, s, p, ep, i). length S - (s + i))") auto

declare max_count.simps [simp del]

fun max_try :: "matcher \<Rightarrow> MatchState \<Rightarrow> nat \<Rightarrow> nat \<Rightarrow> (nat option \<times> MatchState) result" where
  "max_try k ms s 0 = k ms s"
| "max_try k ms s (Suc i) =
     rbind (k ms (s + Suc i)) (\<lambda>(res, ms).
     if res \<noteq> None then Inr (res, ms) else max_try k ms s i)"

definition max_expand :: "matcher \<Rightarrow> bytes \<Rightarrow> bytes \<Rightarrow> MatchState \<Rightarrow> nat \<Rightarrow> nat \<Rightarrow> nat \<Rightarrow>
    (nat option \<times> MatchState) result" where
  "max_expand k S P ms s p ep =
     rbind (max_count S P s p ep 0) (\<lambda>i. max_try k ms s i)"

function min_expand :: "matcher \<Rightarrow> bytes \<Rightarrow> bytes \<Rightarrow> MatchState \<Rightarrow> nat \<Rightarrow> nat \<Rightarrow> nat \<Rightarrow>
    (nat option \<times> MatchState) result" where
  "min_expand k S P ms s p ep =
     rbind (k ms s) (\<lambda>(res, ms).
     if res \<noteq> None then Inr (res, ms)
     else rbind (single S P s p ep) (\<lambda>m.
       if m then min_expand k S P ms (s + 1) p ep else Inr (None, ms)))"
  by auto
termination
  by (relation "measure (\<lambda>(k, S, P, ms, s, p, ep). length S - s)") (auto simp: single_def split: if_splits)

declare min_expand.simps [simp del]

definition start_capture :: "matcher \<Rightarrow> MatchState \<Rightarrow> nat \<Rightarrow> int \<Rightarrow> (nat option \<times> MatchState) result" where
  "start_capture k ms s what =
     (if level ms \<ge> LUA_MAXCAPTURES then luaL_error ''too many captures''
      else
        rbind (k (ms\<lparr>capture := (capture ms)[level ms := (s, what)], level := level ms + 1\<rparr>) s) (\<lambda>(res, ms).
        Inr (res, if res = None then ms\<lparr>level := level ms - 1\<rparr> else ms)))"

definition set_len :: "MatchState \<Rightarrow> nat \<Rightarrow> int \<Rightarrow> MatchState" where
  "set_len ms l n = ms\<lparr>capture := (capture ms)[l := (fst (capture ms ! l), n)]\<rparr>"

definition end_capture :: "matcher \<Rightarrow> MatchState \<Rightarrow> nat \<Rightarrow> (nat option \<times> MatchState) result" where
  "end_capture k ms s =
     rbind (capture_to_close ms) (\<lambda>l.
     rbind (k (set_len ms l (int s - int (fst (capture ms ! l)))) s) (\<lambda>(res, ms).
     Inr (res, if res = None then set_len ms l CAP_UNFINISHED else ms)))"

text \<open>The length becomes a \<open>size_t\<close>, that of a position capture a huge one.\<close>

definition match_capture :: "bytes \<Rightarrow> MatchState \<Rightarrow> nat \<Rightarrow> int \<Rightarrow> nat option result" where
  "match_capture S ms s l =
     rbind (check_capture ms l) (\<lambda>l.
     let len = unat (of_int (snd (capture ms ! l)) :: u64) in
     if length S - s \<ge> len then
       rbind (mem S (fst (capture ms ! l)) len) (\<lambda>a.
       rbind (mem S s len) (\<lambda>b. Inr (if a = b then Some (s + len) else None)))
     else Inr None)"

text \<open>A pattern item with its suffix; \<open>k ms s p\<close> matches the rest.\<close>

definition match_default :: "(MatchState \<Rightarrow> nat \<Rightarrow> nat \<Rightarrow> (nat option \<times> MatchState) result) \<Rightarrow>
    bytes \<Rightarrow> bytes \<Rightarrow> MatchState \<Rightarrow> nat \<Rightarrow> nat \<Rightarrow> (nat option \<times> MatchState) result" where
  "match_default k S P ms s p =
     rbind (classend P p) (\<lambda>ep.
     rbind (single S P s p ep) (\<lambda>m.
     rbind (rd P ep) (\<lambda>c.
     if c = 63 then
       if m then
         rbind (k ms (s + 1) (ep + 1)) (\<lambda>(res, ms). if res \<noteq> None then Inr (res, ms) else k ms s (ep + 1))
       else k ms s (ep + 1)
     else if c = 42 then max_expand (\<lambda>ms s. k ms s (ep + 1)) S P ms s p ep
     else if c = 43 then if m then max_expand (\<lambda>ms s. k ms s (ep + 1)) S P ms (s + 1) p ep else Inr (None, ms)
     else if c = 45 then min_expand (\<lambda>ms s. k ms s (ep + 1)) S P ms s p ep
     else if \<not> m then Inr (None, ms)
     else k ms (s + 1) ep)))"

lemma set_end_gt: "set_end P p = Inr ep \<Longrightarrow> p < ep"
proof (induction P p rule: set_end.induct)
  case (1 P p)
  then show ?case
    by (fastforce simp: set_end.simps [of P p] rbind_eq_Inr luaL_error_def split: if_splits)
qed

lemma classend_gt: "classend P p = Inr ep \<Longrightarrow> p < ep"
  by (auto simp: classend_def rbind_eq_Inr luaL_error_def split: if_splits dest!: set_end_gt)

lemma match_default_cong [fundef_cong]:
  assumes "S = S'" and "P = P'" and "ms = ms'" and "s = s'" and "p = p'"
    and k: "\<And>ms s q. p' < q \<Longrightarrow> k ms s q = k' ms s q"
  shows "match_default k S P ms s p = match_default k' S' P' ms' s' p'"
proof -
  have ep: "(\<lambda>ms s. k ms s (ep + 1)) = (\<lambda>ms s. k' ms s (ep + 1))" "k ms s (ep + 1) = k' ms s (ep + 1)"
    "k ms s ep = k' ms s ep" if "classend P' p' = Inr ep" for ep ms s
    using classend_gt [OF that] k by (auto intro!: ext)
  show ?thesis
    unfolding match_default_def assms(1-5) by (intro rbind_cong refl) (simp only: ep)
qed

text \<open>The test of \<open>%f\<close>: the set at \<open>p\<close> holds the character at \<open>s\<close> and not the one before it.\<close>

definition at_frontier :: "bytes \<Rightarrow> bytes \<Rightarrow> nat \<Rightarrow> nat \<Rightarrow> nat \<Rightarrow> bool result" where
  "at_frontier S P s p ep =
     rbind (if s = 0 then Inr 0 else rd S (s - 1)) (\<lambda>previous.
     rbind (matchbracketclass previous P p (ep - 1)) (\<lambda>b.
     if b then Inr False else rbind (rd S s) (\<lambda>cur. matchbracketclass cur P p (ep - 1))))"

lemma captures_cong [fundef_cong]:
  "ms = ms' \<Longrightarrow> s = s' \<Longrightarrow> what = what' \<Longrightarrow> (\<And>ms s. k ms s = k' ms s) \<Longrightarrow>
    start_capture k ms s what = start_capture k' ms' s' what'"
  "ms = ms' \<Longrightarrow> s = s' \<Longrightarrow> (\<And>ms s. k ms s = k' ms s) \<Longrightarrow> end_capture k ms s = end_capture k' ms' s'"
  by (simp_all add: start_capture_def end_capture_def)

lemma rd_le: "rd P p = Inr c \<Longrightarrow> p \<le> length P"
  by (auto simp: rd_def split: if_splits)

function match :: "bytes \<Rightarrow> bytes \<Rightarrow> MatchState \<Rightarrow> nat \<Rightarrow> nat \<Rightarrow> (nat option \<times> MatchState) result" where
  "match S P ms s p =
     rbind (rd P p) (\<lambda>c.
     if c = 40 then
       rbind (rd P (p + 1)) (\<lambda>d.
       if d = 41 then start_capture (\<lambda>ms s. match S P ms s (p + 2)) ms s CAP_POSITION
       else start_capture (\<lambda>ms s. match S P ms s (p + 1)) ms s CAP_UNFINISHED)
     else if c = 41 then end_capture (\<lambda>ms s. match S P ms s (p + 1)) ms s
     else if c = L_ESC then
       rbind (rd P (p + 1)) (\<lambda>d.
       if d = 98 then
         rbind (matchbalance S P s (p + 2)) (\<lambda>r.
         case r of None \<Rightarrow> Inr (None, ms) | Some s' \<Rightarrow> match S P ms s' (p + 4))
       else if d = 102 then
         rbind (rd P (p + 2)) (\<lambda>e.
         if e \<noteq> 91 then luaL_error ''missing '[' after '%f' in pattern''
         else
           rbind (classend P (p + 2)) (\<lambda>ep.
           rbind (at_frontier S P s (p + 2) ep) (\<lambda>b.
           if b then match S P ms s ep else Inr (None, ms))))
       else if isdigit (uint d) then
         rbind (match_capture S ms s (uint d)) (\<lambda>r.
         case r of None \<Rightarrow> Inr (None, ms) | Some s' \<Rightarrow> match S P ms s' (p + 2))
       else match_default (match S P) S P ms s p)
     else if c = 0 then Inr (Some s, ms)
     else if c = 36 then
       rbind (rd P (p + 1)) (\<lambda>d.
       if d = 0 then Inr (if s = length S then Some s else None, ms)
       else match_default (match S P) S P ms s p)
     else match_default (match S P) S P ms s p)"
  by auto

termination
  by (relation "measure (\<lambda>(S, P, ms, s, p). length P + 1 - p)")
    (auto dest!: rd_le classend_gt)

declare match.simps [simp del]

section \<open>Memory safety of the items\<close>

text \<open>A result that is no fault: an error of Lua, or a value with \<open>Q\<close>.\<close>

definition safe :: "('a \<Rightarrow> bool) \<Rightarrow> 'a result \<Rightarrow> bool" where
  "safe Q r \<longleftrightarrow> (case r of Inl e \<Rightarrow> \<exists>m. e = LuaError m | Inr x \<Rightarrow> Q x)"

lemma safe_simps [simp]: "safe Q (Inr x) \<longleftrightarrow> Q x" "safe Q (luaL_error m)" "safe Q (Inl (LuaError m))"
  by (simp_all add: safe_def luaL_error_def)

lemma safe_bind: "safe Q r \<Longrightarrow> (\<And>x. r = Inr x \<Longrightarrow> Q x \<Longrightarrow> safe R (f x)) \<Longrightarrow> safe R (rbind r f)"
  by (cases r) (auto simp: safe_def)

lemma safe_mono: "safe Q r \<Longrightarrow> (\<And>x. r = Inr x \<Longrightarrow> Q x \<Longrightarrow> R x) \<Longrightarrow> safe R r"
  by (cases r) (auto simp: safe_def)

lemma safeD: "safe Q r \<Longrightarrow> r = Inr x \<Longrightarrow> Q x"
  by (simp add: safe_def)

lemma rd_bind: "p \<le> length P \<Longrightarrow> (\<And>c. rd P p = Inr c \<Longrightarrow> safe R (f c)) \<Longrightarrow> safe R (rbind (rd P p) f)"
  by (cases "p = length P") (auto simp: rd_def)

lemma rd_nonzero: "rd P p = Inr c \<Longrightarrow> c \<noteq> 0 \<Longrightarrow> p < length P"
  by (auto simp: rd_def split: if_splits)

lemma safe_set_end: "p \<le> length P \<Longrightarrow> safe (\<lambda>ep. p < ep \<and> ep \<le> length P) (set_end P p)"
proof (induction P p rule: set_end.induct)
  case (1 P p)
  show ?case
    unfolding set_end.simps [of P p]
  proof (rule rd_bind [OF "1.prems"])
    fix c
    assume c: "rd P p = Inr c"
    let ?skip = "if c = L_ESC then rbind (rd P (p + 1)) (\<lambda>d. Inr (if d \<noteq> 0 then p + 2 else p + 1)) else Inr (p + 1)"
    have "safe (\<lambda>ep. p < ep \<and> ep \<le> length P)
      (rbind ?skip (\<lambda>p'. rbind (rd P p') (\<lambda>e. if e \<noteq> 93 then set_end P p' else Inr (p' + 1))))" if "c \<noteq> 0"
    proof (rule safe_bind [where Q = "\<lambda>p'. p < p' \<and> p' \<le> length P"])
      show "safe (\<lambda>p'. p < p' \<and> p' \<le> length P) ?skip"
        using rd_nonzero [OF c that] by (auto intro!: rd_bind dest!: rd_nonzero)
      fix p'
      assume p': "?skip = Inr p'" "p < p' \<and> p' \<le> length P"
      show "safe (\<lambda>ep. p < ep \<and> ep \<le> length P) (rbind (rd P p') (\<lambda>e. if e \<noteq> 93 then set_end P p' else Inr (p' + 1)))"
      proof (rule rd_bind)
        fix e
        assume e: "rd P p' = Inr e"
        have "e \<noteq> 93 \<Longrightarrow> safe (\<lambda>ep. p < ep \<and> ep \<le> length P) (set_end P p')"
          by (rule safe_mono [OF "1.IH" [OF c that p'(1) e]]) (use p'(2) in auto)
        then show "safe (\<lambda>ep. p < ep \<and> ep \<le> length P) (if e \<noteq> 93 then set_end P p' else Inr (p' + 1))"
          using p'(2) rd_nonzero [OF e] by auto
      qed (use p'(2) in simp)
    qed
    then show "safe (\<lambda>ep. p < ep \<and> ep \<le> length P) (if c = 0 then luaL_error ''malformed pattern (missing ']')'' else
      rbind ?skip (\<lambda>p'. rbind (rd P p') (\<lambda>e. if e \<noteq> 93 then set_end P p' else Inr (p' + 1))))"
      by simp
  qed
qed

lemma safe_classend:
  assumes "rd P p = Inr c" and "c \<noteq> 0"
  shows "safe (\<lambda>ep. p < ep \<and> ep \<le> length P) (classend P p)"
proof -
  have p: "p < length P" by (rule rd_nonzero [OF assms])
  have 1: "safe (\<lambda>ep. p < ep \<and> ep \<le> length P)
      (rbind (rd P (p + 1)) (\<lambda>d. if d = 0 then luaL_error m else Inr (p + 2)))" if "c = L_ESC" for m
    using p that by (intro rd_bind) (auto simp: L_ESC_def dest!: rd_nonzero)
  have 2: "safe (\<lambda>ep. p < ep \<and> ep \<le> length P)
      (rbind (rd P (p + 1)) (\<lambda>d. set_end P (if d = 94 then p + 2 else p + 1)))"
  proof (rule rd_bind)
    fix d
    assume d: "rd P (p + 1) = Inr d"
    have "(if d = 94 then p + 2 else p + 1) \<le> length P" using rd_nonzero [OF d] p by auto
    from safe_set_end [OF this] show "safe (\<lambda>ep. p < ep \<and> ep \<le> length P)
        (set_end P (if d = 94 then p + 2 else p + 1))"
      by (rule safe_mono) (auto split: if_splits)
  qed (use p in simp)
  show ?thesis
    unfolding classend_def using assms p 1 2 by simp
qed

lemma set_members_total: "ec < length P \<Longrightarrow> \<exists>b. set_members c P sig p ec = Inr b"
proof (induction c P sig p ec rule: set_members.induct)
  case (1 c P sig p ec)
  show ?case
  proof (cases "p < ec")
    case True
    then have r: "rd P p = Inr (P ! p)" "rd P (p + 1) = Inr (P ! (p + 1))"
      "p + 2 < ec \<Longrightarrow> rd P (p + 2) = Inr (P ! (p + 2))"
      using "1.prems" by (simp_all add: rd_def)
    show ?thesis
      unfolding set_members.simps [of c P sig p ec]
      using "1.IH"(1) [OF True r(1) _ r(2)] "1.IH"(2) [OF True r(1) _ r(2) _ r(3)] "1.IH"(3) [OF True r(1) _ r(2)] "1.prems" True
      by (cases "P ! p = L_ESC"; cases "P ! (p + 1) = 45 \<and> p + 2 < ec"; cases "P ! p = c")
        (auto simp: r r [simplified])
  qed (simp add: set_members.simps [of c P sig p ec])
qed

lemma matchbracketclass_total: "p < length P \<Longrightarrow> ec < length P \<Longrightarrow> \<exists>b. matchbracketclass c P p ec = Inr b"
  using set_members_total [of ec P] by (simp add: matchbracketclass_def rd_def split: if_splits)

lemma single_total:
  assumes "rd P p = Inr d" and "d \<noteq> 0" and "classend P p = Inr ep"
  shows "\<exists>b. single S P s p ep = Inr b"
proof -
  have p: "p < length P" by (rule rd_nonzero [OF assms(1,2)])
  have "p < ep" "ep \<le> length P" using safeD [OF safe_classend [OF assms(1,2)] assms(3)] by auto
  then have "ep - 1 < length P" by simp
  then have "\<exists>b. singlematch c P p ep = Inr b" for c
    using assms(1) p matchbracketclass_total [of p P "ep - 1" c]
    by (auto simp: singlematch_def rd_def L_ESC_def)
  then show ?thesis by (auto simp: single_def rd_def)
qed

end
