(* ===== verification/LuaMatchSpec.thy ===== *)
theory LuaMatchSpec
  imports LuaMatch
begin

text \<open>
  What the matcher computes: a nondeterministic meaning of patterns, \<open>accepts\<close>, and the proof that
  \<open>match\<close> finds an accepting run whenever there is one, never reads outside its strings, and on
  failure leaves the captures as they were.
\<close>

section \<open>Elements of a pattern\<close>

datatype quantifier = One | Optional | Star | Plus | Lazy

definition quantifier_of :: "u8 \<Rightarrow> quantifier" where
  "quantifier_of c = (if c = 63 then Optional else if c = 42 then Star else if c = 43 then Plus
     else if c = 45 then Lazy else One)"

text \<open>The elements, with what follows them in the pattern where it is not a fixed distance away.\<close>

datatype element =
    Finish
  | Anchor
  | Open int nat
  | Close
  | Balanced
  | Frontier nat
  | Backref int
  | Item nat quantifier

definition item :: "bytes \<Rightarrow> nat \<Rightarrow> element result" where
  "item P p = rbind (classend P p) (\<lambda>ep. rbind (rd P ep) (\<lambda>c. Inr (Item ep (quantifier_of c))))"

definition element_at :: "bytes \<Rightarrow> nat \<Rightarrow> element result" where
  "element_at P p =
     rbind (rd P p) (\<lambda>c.
     if c = 40 then
       rbind (rd P (p + 1)) (\<lambda>d. Inr (if d = 41 then Open CAP_POSITION (p + 2) else Open CAP_UNFINISHED (p + 1)))
     else if c = 41 then Inr Close
     else if c = L_ESC then
       rbind (rd P (p + 1)) (\<lambda>d.
       if d = 98 then Inr Balanced
       else if d = 102 then
         rbind (rd P (p + 2)) (\<lambda>e.
         if e \<noteq> 91 then luaL_error ''missing '[' after '%f' in pattern''
         else rbind (classend P (p + 2)) (\<lambda>ep. Inr (Frontier ep)))
       else if isdigit (uint d) then Inr (Backref (uint d))
       else item P p)
     else if c = 0 then Inr Finish
     else if c = 36 then rbind (rd P (p + 1)) (\<lambda>d. if d = 0 then Inr Anchor else item P p)
     else item P p)"

definition match_item :: "(MatchState \<Rightarrow> nat \<Rightarrow> nat \<Rightarrow> (nat option \<times> MatchState) result) \<Rightarrow>
    bytes \<Rightarrow> bytes \<Rightarrow> MatchState \<Rightarrow> nat \<Rightarrow> nat \<Rightarrow> nat \<Rightarrow> quantifier \<Rightarrow> bool \<Rightarrow> (nat option \<times> MatchState) result" where
  "match_item k S P ms s p ep q m =
     (case q of
        Optional \<Rightarrow>
          if m then rbind (k ms (s + 1) (ep + 1)) (\<lambda>(res, ms). if res \<noteq> None then Inr (res, ms) else k ms s (ep + 1))
          else k ms s (ep + 1)
      | Star \<Rightarrow> max_expand (\<lambda>ms s. k ms s (ep + 1)) S P ms s p ep
      | Plus \<Rightarrow> if m then max_expand (\<lambda>ms s. k ms s (ep + 1)) S P ms (s + 1) p ep else Inr (None, ms)
      | Lazy \<Rightarrow> min_expand (\<lambda>ms s. k ms s (ep + 1)) S P ms s p ep
      | One \<Rightarrow> if \<not> m then Inr (None, ms) else k ms (s + 1) ep)"

definition match_element :: "(MatchState \<Rightarrow> nat \<Rightarrow> nat \<Rightarrow> (nat option \<times> MatchState) result) \<Rightarrow>
    bytes \<Rightarrow> bytes \<Rightarrow> MatchState \<Rightarrow> nat \<Rightarrow> nat \<Rightarrow> element \<Rightarrow> (nat option \<times> MatchState) result" where
  "match_element k S P ms s p a =
     (case a of
        Finish \<Rightarrow> Inr (Some s, ms)
      | Anchor \<Rightarrow> Inr (if s = length S then Some s else None, ms)
      | Open what q \<Rightarrow> start_capture (\<lambda>ms s. k ms s q) ms s what
      | Close \<Rightarrow> end_capture (\<lambda>ms s. k ms s (p + 1)) ms s
      | Balanced \<Rightarrow> rbind (matchbalance S P s (p + 2)) (\<lambda>r. case r of None \<Rightarrow> Inr (None, ms) | Some s' \<Rightarrow> k ms s' (p + 4))
      | Frontier ep \<Rightarrow> rbind (at_frontier S P s (p + 2) ep) (\<lambda>b. if b then k ms s ep else Inr (None, ms))
      | Backref l \<Rightarrow> rbind (match_capture S ms s l) (\<lambda>r. case r of None \<Rightarrow> Inr (None, ms) | Some s' \<Rightarrow> k ms s' (p + 2))
      | Item ep q \<Rightarrow> rbind (single S P s p ep) (\<lambda>m. match_item k S P ms s p ep q m))"

lemma match_default_item:
  assumes "rd P p = Inr c" and "c \<noteq> 0"
  shows "match_default k S P ms s p = rbind (item P p) (match_element k S P ms s p)"
proof (cases "classend P p")
  case (Inr ep)
  then have "p < ep" "ep \<le> length P" using safeD [OF safe_classend [OF assms]] by auto
  then have r: "\<exists>e. rd P ep = Inr e" by (simp add: rd_def)
  obtain m where m: "single S P s p ep = Inr m" using single_total [OF assms Inr] by blast
  show ?thesis
    using Inr r m by (auto simp: match_default_def item_def match_element_def match_item_def quantifier_of_def)
qed (simp add: match_default_def item_def)

lemma match_at: "match S P ms s p = rbind (element_at P p) (match_element (match S P) S P ms s p)"
proof (cases "rd P p")
  case (Inr c)
  have d: "c \<noteq> 0 \<Longrightarrow> match_default (match S P) S P ms s p = rbind (item P p) (match_element (match S P) S P ms s p)"
    by (rule match_default_item [OF Inr])
  have esc: "c = L_ESC \<Longrightarrow> ?thesis"
  proof -
    assume c: "c = L_ESC"
    have n: "L_ESC \<noteq> 40" "L_ESC \<noteq> 41" "L_ESC \<noteq> 0" by (simp_all add: L_ESC_def)
    show ?thesis
    proof (cases "rd P (p + 1)")
      case r1: (Inr d1)
      consider "d1 = 98" | "d1 = 102" | "d1 \<noteq> 98" "d1 \<noteq> 102" by blast
      then show ?thesis
      proof cases
        case 2
        then show ?thesis using c n Inr r1
          by (cases "rd P (p + 2)"; cases "classend P (p + 2)")
            (auto simp: match.simps [of S P ms s p] element_at_def match_element_def luaL_error_def)
      qed (use c n Inr r1 d in \<open>auto simp: match.simps [of S P ms s p] element_at_def match_element_def\<close>)
    qed (use c n Inr in \<open>simp add: match.simps [of S P ms s p] element_at_def\<close>)
  qed
  show ?thesis
  proof (cases "c = L_ESC")
    case False
    then show ?thesis using Inr d
      by (cases "rd P (p + 1)") (auto simp: match.simps [of S P ms s p] element_at_def match_element_def)
  qed (rule esc)
qed (simp add: match.simps [of S P ms s p] element_at_def)

section \<open>The meaning of patterns\<close>

text \<open>The captures in use.\<close>

definition live :: "MatchState \<Rightarrow> capture list" where
  "live ms = take (level ms) (capture ms)"

definition admissible :: "quantifier \<Rightarrow> nat \<Rightarrow> bool" where
  "admissible q n = (case q of One \<Rightarrow> n = 1 | Optional \<Rightarrow> n \<le> 1 | Plus \<Rightarrow> 1 \<le> n | _ \<Rightarrow> True)"

text \<open>\<open>accepts S P cs s p t cs'\<close>: with the captures \<open>cs\<close>, the pattern from \<open>p\<close> on can match the subject
  from \<open>s\<close> to \<open>t\<close> and leave the captures \<open>cs'\<close>. Nothing says which of several matches is taken.\<close>

inductive accepts :: "bytes \<Rightarrow> bytes \<Rightarrow> capture list \<Rightarrow> nat \<Rightarrow> nat \<Rightarrow> nat \<Rightarrow> capture list \<Rightarrow> bool"
  for S P where
  finish: "element_at P p = Inr Finish \<Longrightarrow> accepts S P cs s p s cs"
| anchor: "element_at P p = Inr Anchor \<Longrightarrow> s = length S \<Longrightarrow> accepts S P cs s p s cs"
| opened: "element_at P p = Inr (Open what q) \<Longrightarrow> accepts S P (cs @ [(s, what)]) s q t cs' \<Longrightarrow>
    accepts S P cs s p t cs'"
| closed: "element_at P p = Inr Close \<Longrightarrow> to_close cs (length cs) = Inr l \<Longrightarrow>
    accepts S P (cs[l := (fst (cs ! l), int s - int (fst (cs ! l)))]) s (p + 1) t cs' \<Longrightarrow> accepts S P cs s p t cs'"
| balanced: "element_at P p = Inr Balanced \<Longrightarrow> matchbalance S P s (p + 2) = Inr (Some s') \<Longrightarrow>
    accepts S P cs s' (p + 4) t cs' \<Longrightarrow> accepts S P cs s p t cs'"
| frontier: "element_at P p = Inr (Frontier ep) \<Longrightarrow> at_frontier S P s (p + 2) ep = Inr True \<Longrightarrow>
    accepts S P cs s ep t cs' \<Longrightarrow> accepts S P cs s p t cs'"
| backref: "element_at P p = Inr (Backref c) \<Longrightarrow> l = nat (c - 49) \<Longrightarrow> 49 \<le> c \<Longrightarrow> l < length cs \<Longrightarrow>
    cs ! l = (i, int n) \<Longrightarrow> s + n \<le> length S \<Longrightarrow> take n (drop s S) = take n (drop i S) \<Longrightarrow>
    accepts S P cs (s + n) (p + 2) t cs' \<Longrightarrow> accepts S P cs s p t cs'"
| repeated: "element_at P p = Inr (Item ep q) \<Longrightarrow> admissible q n \<Longrightarrow>
    (\<And>i. i < n \<Longrightarrow> single S P (s + i) p ep = Inr True) \<Longrightarrow>
    accepts S P cs (s + n) (if q = One then ep else ep + 1) t cs' \<Longrightarrow> accepts S P cs s p t cs'"

lemma accepts_at:
  assumes "element_at P p = Inr a"
  shows "accepts S P cs s p t cs' \<longleftrightarrow> (case a of
        Finish \<Rightarrow> t = s \<and> cs' = cs
      | Anchor \<Rightarrow> s = length S \<and> t = s \<and> cs' = cs
      | Open what q \<Rightarrow> accepts S P (cs @ [(s, what)]) s q t cs'
      | Close \<Rightarrow> (\<exists>l. to_close cs (length cs) = Inr l \<and>
          accepts S P (cs[l := (fst (cs ! l), int s - int (fst (cs ! l)))]) s (p + 1) t cs')
      | Balanced \<Rightarrow> (\<exists>s'. matchbalance S P s (p + 2) = Inr (Some s') \<and> accepts S P cs s' (p + 4) t cs')
      | Frontier ep \<Rightarrow> at_frontier S P s (p + 2) ep = Inr True \<and> accepts S P cs s ep t cs'
      | Backref c \<Rightarrow> (\<exists>i n. 49 \<le> c \<and> nat (c - 49) < length cs \<and> cs ! nat (c - 49) = (i, int n) \<and> s + n \<le> length S \<and>
          take n (drop s S) = take n (drop i S) \<and> accepts S P cs (s + n) (p + 2) t cs')
      | Item ep q \<Rightarrow> (\<exists>n. admissible q n \<and> (\<forall>i<n. single S P (s + i) p ep = Inr True) \<and>
          accepts S P cs (s + n) (if q = One then ep else ep + 1) t cs'))"
  unfolding accepts.simps [of S P cs s p t cs']
  using assms by (cases a) auto

section \<open>The contract of a matcher\<close>

text \<open>Captures in use start at or before \<open>s\<close>; closed ones end there at the latest.\<close>

definition valid :: "nat \<Rightarrow> MatchState \<Rightarrow> bool" where
  "valid s ms \<longleftrightarrow> length (capture ms) = LUA_MAXCAPTURES \<and> level ms \<le> LUA_MAXCAPTURES \<and>
     (\<forall>(i, n) \<in> set (live ms). i \<le> s \<and> (n = CAP_UNFINISHED \<or> n = CAP_POSITION \<or> (0 \<le> n \<and> int i + n \<le> int s)))"

text \<open>The outcome of a match from \<open>s\<close> that should accept as \<open>A\<close> says.\<close>

definition outcome :: "bytes \<Rightarrow> (capture list \<Rightarrow> nat \<Rightarrow> nat \<Rightarrow> capture list \<Rightarrow> bool) \<Rightarrow> MatchState \<Rightarrow> nat \<Rightarrow>
    nat option \<times> MatchState \<Rightarrow> bool" where
  "outcome S A ms s x \<longleftrightarrow> length (capture (snd x)) = LUA_MAXCAPTURES \<and> (case fst x of
       None \<Rightarrow> level (snd x) = level ms \<and> live (snd x) = live ms \<and> (\<forall>t cs. \<not> A (live ms) s t cs)
     | Some t \<Rightarrow> s \<le> t \<and> t \<le> length S \<and> valid t (snd x) \<and> A (live ms) s t (live (snd x)))"

definition contract :: "bytes \<Rightarrow> (capture list \<Rightarrow> nat \<Rightarrow> nat \<Rightarrow> capture list \<Rightarrow> bool) \<Rightarrow> matcher \<Rightarrow> bool" where
  "contract S A k \<longleftrightarrow> (\<forall>ms s. valid s ms \<longrightarrow> s \<le> length S \<longrightarrow> safe (outcome S A ms s) (k ms s))"

lemma contractD: "contract S A k \<Longrightarrow> valid s ms \<Longrightarrow> s \<le> length S \<Longrightarrow> safe (outcome S A ms s) (k ms s)"
  by (simp add: contract_def)

lemma valid_mono: "valid s ms \<Longrightarrow> s \<le> s' \<Longrightarrow> valid s' ms"
  unfolding valid_def by fastforce

lemma valid_live: "valid s ms \<Longrightarrow> length (capture ms') = LUA_MAXCAPTURES \<Longrightarrow> level ms' = level ms \<Longrightarrow>
    live ms' = live ms \<Longrightarrow> valid s ms'"
  by (simp add: valid_def)

lemma length_live: "valid s ms \<Longrightarrow> length (live ms) = level ms"
  by (simp add: valid_def live_def)

lemma outcome_None [simp]: "outcome S A ms s (None, ms') \<longleftrightarrow> length (capture ms') = LUA_MAXCAPTURES \<and>
    level ms' = level ms \<and> live ms' = live ms \<and> (\<forall>t cs. \<not> A (live ms) s t cs)"
  by (simp add: outcome_def)

lemma outcome_Some [simp]: "outcome S A ms s (Some t, ms') \<longleftrightarrow> s \<le> t \<and> t \<le> length S \<and> valid t ms' \<and> A (live ms) s t (live ms')"
  by (auto simp: outcome_def valid_def)

lemma safe_outcome:
  assumes "safe (outcome S A ms s) r" and "\<And>t cs. A (live ms) s t cs \<longleftrightarrow> B (live ms) s t cs"
  shows "safe (outcome S B ms s) r"
  using assms(1) by (rule safe_mono) (simp add: outcome_def assms(2) split: option.splits)

text \<open>A second attempt, when the first did not match.\<close>

lemma retry:
  assumes ms: "valid s ms" and first: "safe (outcome S A ms s) r"
    and second: "\<And>ms'. valid s ms' \<Longrightarrow> live ms' = live ms \<Longrightarrow> level ms' = level ms \<Longrightarrow> safe (outcome S B ms' s) (f ms')"
  shows "safe (outcome S (\<lambda>cs s t cs'. A cs s t cs' \<or> B cs s t cs') ms s)
    (rbind r (\<lambda>(res, ms). if res \<noteq> None then Inr (res, ms) else f ms))"
proof (rule safe_bind [OF first])
  fix x
  assume x: "outcome S A ms s x"
  show "safe (outcome S (\<lambda>cs s t cs'. A cs s t cs' \<or> B cs s t cs') ms s)
    (case x of (res, ms) \<Rightarrow> if res \<noteq> None then Inr (res, ms) else f ms)"
  proof (cases x)
    case (Pair res ms')
    show ?thesis
    proof (cases res)
      case None
      with x Pair have n: "length (capture ms') = LUA_MAXCAPTURES" "level ms' = level ms" "live ms' = live ms"
        "\<forall>t cs. \<not> A (live ms) s t cs" by auto
      have "safe (outcome S B ms' s) (f ms')"
        by (rule second) (use valid_live [OF ms] n in auto)
      then have "safe (outcome S (\<lambda>cs s t cs'. A cs s t cs' \<or> B cs s t cs') ms s) (f ms')"
        by (rule safe_mono) (use n in \<open>auto simp: outcome_def split: option.splits\<close>)
      then show ?thesis using Pair None by simp
    qed (use x Pair in simp)
  qed
qed

text \<open>A match from a later place is one from \<open>s\<close>.\<close>

lemma contract_from:
  assumes k: "contract S A k" and ms: "valid s ms" and n: "s + n \<le> length S"
  shows "safe (outcome S (\<lambda>cs s t cs'. A cs (s + n) t cs') ms s) (k ms (s + n))"
  using contractD [OF k valid_mono [OF ms] n]
  by (rule safe_mono) (auto simp: outcome_def split: option.splits)

lemma max_try_contract:
  assumes k: "contract S A k"
  shows "valid s ms \<Longrightarrow> s + i \<le> length S \<Longrightarrow>
    safe (outcome S (\<lambda>cs s t cs'. \<exists>n\<le>i. A cs (s + n) t cs') ms s) (max_try k ms s i)"
proof (induction i arbitrary: ms)
  case 0
  then show ?case using contract_from [OF k, of s ms 0] by simp
next
  case (Suc i)
  have "safe (outcome S (\<lambda>cs s t cs'. A cs (s + Suc i) t cs' \<or> (\<exists>n\<le>i. A cs (s + n) t cs')) ms s)
      (rbind (k ms (s + Suc i)) (\<lambda>(res, ms). if res \<noteq> None then Inr (res, ms) else max_try k ms s i))"
    by (rule retry [OF Suc.prems(1) contract_from [OF k Suc.prems]]) (use Suc in auto)
  then show ?case by (simp add: le_Suc_eq disj_commute ex_disj_distrib conj_disj_distribR)
qed

lemma max_count_spec:
  "(\<And>x. \<exists>b. single S P x p ep = Inr b) \<Longrightarrow> s + i \<le> length S \<Longrightarrow> \<exists>j. max_count S P s p ep i = Inr j \<and> i \<le> j \<and>
    s + j \<le> length S \<and> (\<forall>n. i \<le> n \<longrightarrow> n < j \<longrightarrow> single S P (s + n) p ep = Inr True) \<and> single S P (s + j) p ep = Inr False"
proof (induction S P s p ep i rule: max_count.induct)
  case (1 S P s p ep i)
  show ?case
  proof (cases "s + i < length S")
    case True
    then have r: "rd S (s + i) = Inr (S ! (s + i))" by (simp add: rd_def)
    obtain b where b: "single S P (s + i) p ep = Inr b" using "1.prems"(1) by blast
    then have m: "singlematch (S ! (s + i)) P p ep = Inr b" using True r by (simp add: single_def)
    show ?thesis
    proof (cases b)
      case b1: True
      obtain j where j: "max_count S P s p ep (i + 1) = Inr j" "i + 1 \<le> j" "s + j \<le> length S"
        "\<forall>n. i + 1 \<le> n \<longrightarrow> n < j \<longrightarrow> single S P (s + n) p ep = Inr True" "single S P (s + j) p ep = Inr False"
        using "1.IH" [OF True r m b1 "1.prems"(1)] True by auto
      have "\<forall>n. i \<le> n \<longrightarrow> n < j \<longrightarrow> single S P (s + n) p ep = Inr True"
        using j(4) b b1 by (metis Suc_eq_plus1 Suc_leI le_neq_implies_less)
      then show ?thesis
        using j b1 True by (simp add: max_count.simps [of S P s p ep i] r [simplified] m [simplified])
    next
      case False
      then show ?thesis
        using b True by (auto simp: max_count.simps [of S P s p ep i] r [simplified] m [simplified])
    qed
  next
    case False
    then have "single S P (s + i) p ep = Inr False" by (simp add: single_def)
    then show ?thesis using False "1.prems"(2) by (simp add: max_count.simps [of S P s p ep i])
  qed
qed

text \<open>Any number of repetitions, then \<open>A\<close>.\<close>

definition repeat :: "bytes \<Rightarrow> bytes \<Rightarrow> nat \<Rightarrow> nat \<Rightarrow> (nat \<Rightarrow> bool) \<Rightarrow>
    (capture list \<Rightarrow> nat \<Rightarrow> nat \<Rightarrow> capture list \<Rightarrow> bool) \<Rightarrow> capture list \<Rightarrow> nat \<Rightarrow> nat \<Rightarrow> capture list \<Rightarrow> bool" where
  "repeat S P p ep Q A cs s t cs' \<longleftrightarrow>
     (\<exists>n. Q n \<and> (\<forall>i<n. single S P (s + i) p ep = Inr True) \<and> A cs (s + n) t cs')"

lemma max_expand_contract:
  assumes k: "contract S A k" and one: "\<And>x. \<exists>b. single S P x p ep = Inr b" and ms: "valid s ms" "s \<le> length S"
  shows "safe (outcome S (repeat S P p ep (\<lambda>_. True) A) ms s) (max_expand k S P ms s p ep)"
proof -
  obtain j where j: "max_count S P s p ep 0 = Inr j" "s + j \<le> length S"
    "\<forall>n<j. single S P (s + n) p ep = Inr True" "single S P (s + j) p ep = Inr False"
    using max_count_spec [of S P p ep s 0] one ms by auto
  have "(\<exists>n\<le>j. A cs (s + n) t cs') \<longleftrightarrow> repeat S P p ep (\<lambda>_. True) A cs s t cs'" for cs t cs'
    unfolding repeat_def using j(3,4) by (metis Inr_inject less_imp_le_nat less_le_trans linorder_not_le)
  then have "safe (outcome S (repeat S P p ep (\<lambda>_. True) A) ms s) (max_try k ms s j)"
    by (rule safe_outcome [OF max_try_contract [OF k ms(1) j(2)]])
  then show ?thesis by (simp add: max_expand_def j(1))
qed

lemma ex_nat: "(\<exists>n. R n) \<longleftrightarrow> R 0 \<or> (\<exists>n. R (Suc n))"
  by (metis not0_implies_Suc)

lemma all_less_Suc: "(\<forall>i<Suc n. R i) \<longleftrightarrow> R 0 \<and> (\<forall>i<n. R (Suc i))"
  by (auto simp: less_Suc_eq_0_disj)

lemma repeat_unfold:
  "repeat S P p ep Q A cs s t cs' \<longleftrightarrow> Q 0 \<and> A cs s t cs' \<or>
     (single S P s p ep = Inr True \<and> repeat S P p ep (\<lambda>n. Q (Suc n)) A cs (s + 1) t cs')"
  unfolding repeat_def
  by (subst ex_nat) (simp only: all_less_Suc add_0_right add_Suc_shift Suc_eq_plus1 [symmetric] add_Suc_right add_Suc, blast)

lemma repeat_step:
  "repeat S P p ep (\<lambda>_. True) A cs s t cs' \<longleftrightarrow> A cs s t cs' \<or>
     (single S P s p ep = Inr True \<and> repeat S P p ep (\<lambda>_. True) A cs (s + 1) t cs')"
  unfolding repeat_unfold [of S P p ep "\<lambda>_. True" A cs s] by (simp only: simp_thms)

lemma repeat_never: "(\<And>n. \<not> Q n) \<Longrightarrow> \<not> repeat S P p ep Q A cs s t cs'"
  by (simp add: repeat_def)

lemma repeat_one:
  "repeat S P p ep (admissible One) A cs s t cs' \<longleftrightarrow> single S P s p ep = Inr True \<and> A cs (s + 1) t cs'"
  by (simp add: repeat_def admissible_def)

lemma repeat_optional:
  "repeat S P p ep (admissible Optional) A cs s t cs' \<longleftrightarrow> A cs s t cs' \<or> (single S P s p ep = Inr True \<and> A cs (s + 1) t cs')"
  unfolding repeat_unfold [of S P p ep "admissible Optional" A cs s] repeat_unfold [of S P p ep _ A cs "s + 1"]
  using repeat_never [of "\<lambda>n. admissible Optional (Suc (Suc n))" S P p ep A cs "s + 1 + 1" t cs']
  by (simp add: admissible_def)

lemma repeat_plus:
  "repeat S P p ep (admissible Plus) A cs s t cs' \<longleftrightarrow>
     single S P s p ep = Inr True \<and> repeat S P p ep (\<lambda>_. True) A cs (s + 1) t cs'"
  unfolding repeat_unfold [of S P p ep "admissible Plus" A cs s] by (simp add: admissible_def)

lemma repeat_any: "admissible Star = (\<lambda>_. True)" "admissible Lazy = (\<lambda>_. True)"
  by (simp_all add: admissible_def fun_eq_iff)

lemma min_expand_contract:
  assumes k: "contract S A k" and one: "\<And>x. \<exists>b. single S P x p ep = Inr b"
  shows "valid s ms \<Longrightarrow> s \<le> length S \<Longrightarrow> safe (outcome S (repeat S P p ep (\<lambda>_. True) A) ms s) (min_expand k S P ms s p ep)"
proof (induction "length S - s" arbitrary: ms s rule: less_induct)
  case less
  let ?B = "\<lambda>cs s t cs'. single S P s p ep = Inr True \<and> repeat S P p ep (\<lambda>_. True) A cs (s + 1) t cs'"
  have "safe (outcome S (\<lambda>cs s t cs'. A cs s t cs' \<or> ?B cs s t cs') ms s)
     (rbind (k ms s) (\<lambda>(res, ms). if res \<noteq> None then Inr (res, ms)
       else rbind (single S P s p ep) (\<lambda>m. if m then min_expand k S P ms (s + 1) p ep else Inr (None, ms))))"
  proof (rule retry [OF less.prems(1) contractD [OF k less.prems]])
    fix ms'
    assume ms': "valid s ms'" "live ms' = live ms" "level ms' = level ms"
    obtain m where m: "single S P s p ep = Inr m" using one by blast
    show "safe (outcome S ?B ms' s)
        (rbind (single S P s p ep) (\<lambda>m. if m then min_expand k S P ms' (s + 1) p ep else Inr (None, ms')))"
    proof (cases m)
      case True
      then have s: "s < length S" using m by (simp add: single_def split: if_splits)
      have "safe (outcome S (repeat S P p ep (\<lambda>_. True) A) ms' (s + 1)) (min_expand k S P ms' (s + 1) p ep)"
        by (rule less.hyps) (use s valid_mono [OF ms'(1)] in auto)
      then have "safe (outcome S ?B ms' s) (min_expand k S P ms' (s + 1) p ep)"
        by (rule safe_mono) (use m True in \<open>auto simp: outcome_def split: option.splits\<close>)
      then show ?thesis using m True by simp
    next
      case False
      then show ?thesis using m ms'(1) by (simp add: valid_def)
    qed
  qed
  then show ?case
    unfolding min_expand.simps [of k S P ms s p ep] by (rule safe_outcome) (rule repeat_step [symmetric])
qed

section \<open>Captures\<close>

lemma take_Suc_update: "n < length xs \<Longrightarrow> take (Suc n) (xs[n := x]) = take n xs @ [x]"
  by (simp add: take_Suc_conv_app_nth)

lemma take_one_less:
  assumes "take (Suc n) xs = take n ys @ [x]" and "n < length xs" and "n < length ys"
  shows "take n xs = take n ys"
proof -
  have "take n xs = take n (take (Suc n) xs)" by (simp add: take_take)
  also have "\<dots> = take n ys" unfolding assms(1) using assms(3) by simp
  finally show ?thesis .
qed

lemma start_capture_contract:
  assumes k: "contract S A k" and ms: "valid s ms" "s \<le> length S" and what: "what = CAP_POSITION \<or> what = CAP_UNFINISHED"
  shows "safe (outcome S (\<lambda>cs s t cs'. A (cs @ [(s, what)]) s t cs') ms s) (start_capture k ms s what)"
proof (cases "level ms \<ge> LUA_MAXCAPTURES")
  case False
  let ?ms = "ms\<lparr>capture := (capture ms)[level ms := (s, what)], level := level ms + 1\<rparr>"
  have l: "level ms < length (capture ms)" using False ms(1) by (simp add: valid_def)
  have live: "live ?ms = live ms @ [(s, what)]" using l by (simp add: live_def take_Suc_update)
  have v: "valid s ?ms" unfolding valid_def live using ms what False by (auto simp: valid_def)
  have "safe (outcome S (\<lambda>cs s t cs'. A (cs @ [(s, what)]) s t cs') ms s)
      (rbind (k ?ms s) (\<lambda>(res, ms). Inr (res, if res = None then ms\<lparr>level := level ms - 1\<rparr> else ms)))"
  proof (rule safe_bind [OF contractD [OF k v ms(2)]])
    fix x
    assume x: "outcome S A ?ms s x"
    obtain res ms' where p: "x = (res, ms')" by (cases x)
    show "safe (outcome S (\<lambda>cs s t cs'. A (cs @ [(s, what)]) s t cs') ms s)
        (case x of (res, ms) \<Rightarrow> Inr (res, if res = None then ms\<lparr>level := level ms - 1\<rparr> else ms))"
    proof (cases res)
      case None
      then have n: "length (capture ms') = LUA_MAXCAPTURES" "level ms' = Suc (level ms)" "live ms' = live ms @ [(s, what)]"
        "\<forall>t cs. \<not> A (live ms @ [(s, what)]) s t cs"
        using x p live by auto
      have "take (level ms) (capture ms') = live ms"
        using take_one_less [OF n(3) [unfolded live_def n(2)]] n(1) l ms(1) by (simp add: live_def valid_def)
      then show ?thesis using p None n by (simp add: live_def)
    qed (use x p live in simp)
  qed
  then show ?thesis using False by (simp add: start_capture_def)
qed (simp add: start_capture_def)

lemma to_close_take: "n \<le> length cs \<Longrightarrow> to_close (take n cs) n = to_close cs n"
proof -
  have "m \<le> n \<Longrightarrow> n \<le> length cs \<Longrightarrow> to_close (take n cs) m = to_close cs m" for m
    by (induction m) auto
  then show "n \<le> length cs \<Longrightarrow> ?thesis" by simp
qed

lemma to_close_open: "to_close cs n = Inr l \<Longrightarrow> l < n \<and> snd (cs ! l) = CAP_UNFINISHED"
  by (induction n) (auto simp: luaL_error_def less_Suc_eq split: if_splits)

lemma to_close_safe: "safe (\<lambda>_. True) (to_close cs n)"
  by (induction n) auto

lemma end_capture_contract:
  assumes k: "contract S A k" and ms: "valid s ms" "s \<le> length S"
  shows "safe (outcome S (\<lambda>cs s t cs'. \<exists>l. to_close cs (length cs) = Inr l \<and>
      A (cs[l := (fst (cs ! l), int s - int (fst (cs ! l)))]) s t cs') ms s) (end_capture k ms s)"
proof -
  have close: "capture_to_close ms = to_close (live ms) (length (live ms))"
    using ms(1) to_close_take [of "level ms" "capture ms"]
    by (simp add: capture_to_close_def length_live) (simp add: live_def valid_def)
  show ?thesis
    unfolding end_capture_def
  proof (rule safe_bind [where Q = "\<lambda>_. True"])
    show "safe (\<lambda>_. True) (capture_to_close ms)" by (simp add: close to_close_safe)
    fix l
    assume l: "capture_to_close ms = Inr l"
    then have tc: "to_close (live ms) (length (live ms)) = Inr l" by (simp add: close)
    have ln: "l < level ms" "snd (live ms ! l) = CAP_UNFINISHED"
      using to_close_open [OF tc] ms(1) by (simp_all add: length_live)
    have nth: "live ms ! l = capture ms ! l" using ln(1) by (simp add: live_def)
    have live_set: "live (set_len m l n) = (live m)[l := (fst (capture m ! l), n)]" for m n
      by (simp add: live_def set_len_def take_update_swap)
    let ?i = "fst (capture ms ! l)"
    let ?ms = "set_len ms l (int s - int ?i)"
    have i: "?i \<le> s"
    proof -
      have "capture ms ! l \<in> set (live ms)" using ln(1) ms(1) nth by (metis length_live nth_mem)
      then show ?thesis using ms(1) by (auto simp: valid_def)
    qed
    have v: "valid s ?ms"
      using ms(1) i unfolding valid_def live_set
      by (auto simp: set_len_def dest!: set_update_subset_insert [THEN subsetD])
    show "safe (outcome S (\<lambda>cs s t cs'. \<exists>l. to_close cs (length cs) = Inr l \<and>
      A (cs[l := (fst (cs ! l), int s - int (fst (cs ! l)))]) s t cs') ms s)
      (rbind (k ?ms s) (\<lambda>(res, ms). Inr (res, if res = None then set_len ms l CAP_UNFINISHED else ms)))"
    proof (rule safe_bind [OF contractD [OF k v ms(2)]])
      fix x
      assume x: "outcome S A ?ms s x"
      obtain res ms' where p: "x = (res, ms')" by (cases x)
      show "safe (outcome S (\<lambda>cs s t cs'. \<exists>l. to_close cs (length cs) = Inr l \<and>
          A (cs[l := (fst (cs ! l), int s - int (fst (cs ! l)))]) s t cs') ms s)
          (case x of (res, ms) \<Rightarrow> Inr (res, if res = None then set_len ms l CAP_UNFINISHED else ms))"
      proof (cases res)
        case None
        then have n: "length (capture ms') = LUA_MAXCAPTURES" "level ms' = level ms" "live ms' = live ?ms"
          "\<forall>t cs. \<not> A (live ?ms) s t cs"
          using x p by (auto simp: set_len_def)
        have "fst (capture ms' ! l) = fst (live ms' ! l)" using n(2) ln(1) by (simp add: live_def)
        also have "\<dots> = ?i" using n(3) ln(1) ms(1) by (simp add: live_set length_live)
        finally have "live (set_len ms' l CAP_UNFINISHED) = (live ms)[l := (?i, CAP_UNFINISHED)]"
          by (simp add: live_set n(3))
        also have "\<dots> = live ms" using ln nth by (metis list_update_id prod.collapse)
        finally have "live (set_len ms' l CAP_UNFINISHED) = live ms" .
        then show ?thesis using p None n tc nth by (simp add: live_set) (simp add: set_len_def)
      qed (use x p tc nth in \<open>simp add: live_set\<close>)
    qed
  qed
qed

lemma match_capture_contract:
  assumes ms: "valid s ms" "s \<le> length S" and small: "length S < 2 ^ 63"
  shows "safe (\<lambda>r. case r of
      None \<Rightarrow> \<not> (\<exists>i n. 49 \<le> c \<and> nat (c - 49) < length (live ms) \<and> live ms ! nat (c - 49) = (i, int n) \<and>
        s + n \<le> length S \<and> take n (drop s S) = take n (drop i S))
    | Some t \<Rightarrow> s \<le> t \<and> t \<le> length S \<and> (\<exists>i n. 49 \<le> c \<and> nat (c - 49) < length (live ms) \<and>
        live ms ! nat (c - 49) = (i, int n) \<and> t = s + n \<and> take n (drop s S) = take n (drop i S)))
    (match_capture S ms s c)"
proof (cases "c - 49 < 0 \<or> c - 49 \<ge> int (level ms) \<or> snd (capture ms ! nat (c - 49)) = CAP_UNFINISHED")
  case False
  let ?l = "nat (c - 49)"
  let ?i = "fst (capture ms ! ?l)"
  have l: "?l < level ms" "49 \<le> c" using False by auto
  have nth: "live ms ! ?l = capture ms ! ?l" using l(1) by (simp add: live_def)
  have len: "?l < length (live ms)" using l(1) ms(1) by (simp add: length_live)
  have "capture ms ! ?l \<in> set (live ms)" using nth_mem [OF len] nth by simp
  then have v: "snd (capture ms ! ?l) = CAP_POSITION \<or> (0 \<le> snd (capture ms ! ?l) \<and> int ?i + snd (capture ms ! ?l) \<le> int s)"
    using ms(1) False unfolding valid_def by (auto simp: case_prod_beta)
  have chk: "check_capture ms c = Inr ?l" using False by (simp add: check_capture_def Let_def)
  show ?thesis
  proof (cases "snd (capture ms ! ?l) = CAP_POSITION")
    case True
    then have "unat (of_int (snd (capture ms ! ?l)) :: u64) = 2 ^ 64 - 2" by (simp add: CAP_POSITION_def)
    moreover have "\<not> 2 ^ 64 - 2 \<le> length S - s" using small by simp
    ultimately have "match_capture S ms s c = Inr None"
      unfolding match_capture_def chk rbind_simps Let_def by (simp only: if_False)
    then show ?thesis using True nth by (auto simp: CAP_POSITION_def)
  next
    case pos: False
    then obtain n where n: "snd (capture ms ! ?l) = int n" "?i + n \<le> s"
      using v pos by (auto elim!: nonneg_int_cases)
    have "n < 2 ^ 63" using n(2) ms(2) small by simp
    then have u: "unat (of_int (snd (capture ms ! ?l)) :: u64) = n"
      by (simp add: n(1) unat_of_nat_small)
    have pair: "live ms ! ?l = (?i, int n)" unfolding nth n(1) [symmetric] by (rule prod.collapse [symmetric])
    have only: "live ms ! ?l = (i, int n') \<longleftrightarrow> i = ?i \<and> n' = n" for i n' using pair by auto
    show ?thesis
      using chk n(2) ms(2) l(2) len unfolding match_capture_def only
      by (auto simp: Let_def u mem_def)
  qed
next
  case True
  then have "match_capture S ms s c = luaL_error ''invalid capture index''"
    by (simp add: check_capture_def match_capture_def luaL_error_def Let_def)
  then show ?thesis by simp
qed

section \<open>Elements are read inside the pattern\<close>

lemma balance_loop_total: "s < length S \<Longrightarrow> \<exists>r. balance_loop S b e n s = Inr r \<and> (\<forall>t. r = Some t \<longrightarrow> s < t \<and> t \<le> length S)"
proof (induction S b e n s rule: balance_loop.induct)
  case (1 S b e n s)
  show ?case
  proof (cases "s + 1 < length S")
    case True
    then have r: "rd S (s + 1) = Inr (S ! (s + 1))" by (simp add: rd_def)
    have step: "(\<exists>r. balance_loop S b e n' (s + 1) = Inr r \<and> (\<forall>t. r = Some t \<longrightarrow> s + 1 < t \<and> t \<le> length S)) \<Longrightarrow>
        \<exists>r. balance_loop S b e n' (s + 1) = Inr r \<and> (\<forall>t. r = Some t \<longrightarrow> s < t \<and> t \<le> length S)" for n'
      by (elim exE conjE, intro exI conjI, assumption) auto
    consider "S ! (s + 1) = e" "n - 1 = 0" | "S ! (s + 1) = e" "n - 1 \<noteq> 0"
      | "S ! (s + 1) \<noteq> e" "S ! (s + 1) = b" | "S ! (s + 1) \<noteq> e" "S ! (s + 1) \<noteq> b" by blast
    then show ?thesis
    proof cases
      case 1
      then show ?thesis unfolding balance_loop.simps [of S b e n s] using True r by simp
    next
      case 2
      show ?thesis using step [OF "1.IH"(1) [OF True r 2 True]] 2 True r [simplified]
        by (simp add: balance_loop.simps [of S b e n s])
    next
      case 3
      show ?thesis using step [OF "1.IH"(2) [OF True r 3 True]] 3 True r [simplified]
        by (simp add: balance_loop.simps [of S b e n s])
    next
      case 4
      show ?thesis using step [OF "1.IH"(3) [OF True r 4 True]] 4 True r [simplified]
        by (simp add: balance_loop.simps [of S b e n s])
    qed
  qed (simp add: balance_loop.simps [of S b e n s])
qed

lemma safe_matchbalance:
  assumes "p \<le> length P" and "s \<le> length S"
  shows "safe (\<lambda>r. \<forall>t. r = Some t \<longrightarrow> s < t \<and> t \<le> length S \<and> p + 2 \<le> length P) (matchbalance S P s p)"
  unfolding matchbalance_def
proof (rule rd_bind [OF assms(1)])
  fix b
  assume b: "rd P p = Inr b"
  have "safe (\<lambda>r. \<forall>t. r = Some t \<longrightarrow> s < t \<and> t \<le> length S \<and> p + 2 \<le> length P)
     (rbind (rd P (p + 1)) (\<lambda>e. if e = 0 then luaL_error ''unbalanced pattern''
       else rbind (rd S s) (\<lambda>c. if c \<noteq> b then Inr None else balance_loop S b e 1 s)))" if "b \<noteq> 0"
  proof (rule rd_bind)
    fix e
    assume e: "rd P (p + 1) = Inr e"
    have "safe (\<lambda>r. \<forall>t. r = Some t \<longrightarrow> s < t \<and> t \<le> length S \<and> p + 2 \<le> length P)
        (rbind (rd S s) (\<lambda>c. if c \<noteq> b then Inr None else balance_loop S b e 1 s))" if "e \<noteq> 0"
    proof (rule rd_bind [OF assms(2)])
      fix c
      assume c: "rd S s = Inr c"
      have "c = b \<Longrightarrow> s < length S" using rd_nonzero [OF c] \<open>b \<noteq> 0\<close> by simp
      then show "safe (\<lambda>r. \<forall>t. r = Some t \<longrightarrow> s < t \<and> t \<le> length S \<and> p + 2 \<le> length P)
          (if c \<noteq> b then Inr None else balance_loop S b e 1 s)"
        using balance_loop_total [of s S b e 1] rd_nonzero [OF e that] by auto
    qed
    then show "safe (\<lambda>r. \<forall>t. r = Some t \<longrightarrow> s < t \<and> t \<le> length S \<and> p + 2 \<le> length P)
        (if e = 0 then luaL_error ''unbalanced pattern''
         else rbind (rd S s) (\<lambda>c. if c \<noteq> b then Inr None else balance_loop S b e 1 s))" by simp
  qed (use rd_nonzero [OF b that] in simp)
  then show "safe (\<lambda>r. \<forall>t. r = Some t \<longrightarrow> s < t \<and> t \<le> length S \<and> p + 2 \<le> length P)
     (if b = 0 then luaL_error ''unbalanced pattern''
      else rbind (rd P (p + 1)) (\<lambda>e. if e = 0 then luaL_error ''unbalanced pattern''
       else rbind (rd S s) (\<lambda>c. if c \<noteq> b then Inr None else balance_loop S b e 1 s)))" by simp
qed

text \<open>What an element found at \<open>p\<close> guarantees.\<close>

definition inside :: "bytes \<Rightarrow> nat \<Rightarrow> element \<Rightarrow> bool" where
  "inside P p a \<longleftrightarrow> (case a of
       Open what q \<Rightarrow> p < q \<and> q \<le> length P \<and> (what = CAP_POSITION \<or> what = CAP_UNFINISHED)
     | Close \<Rightarrow> p < length P
     | Balanced \<Rightarrow> p + 2 \<le> length P
     | Frontier ep \<Rightarrow> p < ep \<and> ep \<le> length P \<and> (\<forall>S s. s \<le> length S \<longrightarrow> (\<exists>b. at_frontier S P s (p + 2) ep = Inr b))
     | Backref c \<Rightarrow> p + 2 \<le> length P
     | Item ep q \<Rightarrow> p < ep \<and> ep \<le> length P \<and> (q \<noteq> One \<longrightarrow> ep < length P) \<and> (\<forall>S s. \<exists>b. single S P s p ep = Inr b)
     | _ \<Rightarrow> True)"

lemma safe_item:
  assumes "rd P p = Inr c" and "c \<noteq> 0"
  shows "safe (inside P p) (item P p)"
  unfolding item_def
proof (rule safe_bind [OF safe_classend [OF assms]])
  fix ep
  assume ep: "classend P p = Inr ep" "p < ep \<and> ep \<le> length P"
  show "safe (inside P p) (rbind (rd P ep) (\<lambda>c. Inr (Item ep (quantifier_of c))))"
  proof (rule rd_bind)
    fix e
    assume "rd P ep = Inr e"
    then have "quantifier_of e \<noteq> One \<Longrightarrow> ep < length P"
      using rd_nonzero by (auto simp: quantifier_of_def split: if_splits)
    then show "safe (inside P p) (Inr (Item ep (quantifier_of e)))"
      using ep single_total [OF assms ep(1)] by (simp add: inside_def)
  qed (use ep in simp)
qed

lemma at_frontier_total:
  assumes "p < length P" and "ep - 1 < length P" and "s \<le> length S"
  shows "\<exists>b. at_frontier S P s p ep = Inr b"
proof -
  obtain f where f: "\<And>c. matchbracketclass c P p (ep - 1) = Inr (f c)"
    using matchbracketclass_total [OF assms(1,2)] by metis
  have "\<exists>x. (if s = 0 then Inr 0 else rd S (s - 1)) = Inr x" "\<exists>x. rd S s = Inr x"
    using assms(3) by (auto simp: rd_def)
  then show ?thesis unfolding at_frontier_def using f by auto
qed

lemma safe_frontier:
  assumes "p + 2 \<le> length P"
  shows "safe (inside P p) (rbind (rd P (p + 2)) (\<lambda>e. if e \<noteq> 91 then luaL_error m
      else rbind (classend P (p + 2)) (\<lambda>ep. Inr (Frontier ep))))"
proof (rule rd_bind [OF assms])
  fix e
  assume e: "rd P (p + 2) = Inr e"
  have "safe (inside P p) (rbind (classend P (p + 2)) (\<lambda>ep. Inr (Frontier ep)))" if "e = 91"
  proof (rule safe_bind [OF safe_classend [OF e]])
    fix ep
    assume ep: "p + 2 < ep \<and> ep \<le> length P"
    then have "p + 2 < length P" "ep - 1 < length P" by auto
    then show "safe (inside P p) (Inr (Frontier ep))" using ep at_frontier_total by (simp add: inside_def)
  qed (use that in simp)
  then show "safe (inside P p) (if e \<noteq> 91 then luaL_error m else rbind (classend P (p + 2)) (\<lambda>ep. Inr (Frontier ep)))"
    by simp
qed

lemma safe_element: "p \<le> length P \<Longrightarrow> safe (inside P p) (element_at P p)"
  unfolding element_at_def
proof (rule rd_bind)
  fix c
  assume c: "rd P p = Inr c"
  have next_le: "p + 1 \<le> length P" if "c \<noteq> 0" using rd_nonzero [OF c that] by simp
  have item: "c \<noteq> 0 \<Longrightarrow> safe (inside P p) (item P p)" by (rule safe_item [OF c])
  have op: "safe (inside P p) (rbind (rd P (p + 1)) (\<lambda>d. Inr (if d = 41 then Open CAP_POSITION (p + 2) else Open CAP_UNFINISHED (p + 1))))"
    if "c = 40" using next_le that by (intro rd_bind) (auto simp: inside_def dest!: rd_nonzero)
  have anchor: "safe (inside P p) (rbind (rd P (p + 1)) (\<lambda>d. if d = 0 then Inr Anchor else item P p))" if "c = 36"
    using next_le item that by (intro rd_bind) (auto simp: inside_def)
  have esc: "safe (inside P p) (rbind (rd P (p + 1)) (\<lambda>d.
       if d = 98 then Inr Balanced
       else if d = 102 then
         rbind (rd P (p + 2)) (\<lambda>e.
         if e \<noteq> 91 then luaL_error m
         else rbind (classend P (p + 2)) (\<lambda>ep. Inr (Frontier ep)))
       else if isdigit (uint d) then Inr (Backref (uint d))
       else item P p))" if esc: "c \<noteq> 0" for m
  proof (rule rd_bind [OF next_le [OF esc]])
    fix d
    assume d: "rd P (p + 1) = Inr d"
    have le: "d \<noteq> 0 \<Longrightarrow> p + 2 \<le> length P" using rd_nonzero [OF d] by simp
    have "isdigit (uint d) \<Longrightarrow> d \<noteq> 0" by (auto simp: isdigit_def)
    then show "safe (inside P p) (if d = 98 then Inr Balanced
       else if d = 102 then
         rbind (rd P (p + 2)) (\<lambda>e. if e \<noteq> 91 then luaL_error m else rbind (classend P (p + 2)) (\<lambda>ep. Inr (Frontier ep)))
       else if isdigit (uint d) then Inr (Backref (uint d)) else item P p)"
      using le item [OF esc] safe_frontier by (auto simp: inside_def)
  qed
  show "safe (inside P p) (if c = 40 then
       rbind (rd P (p + 1)) (\<lambda>d. Inr (if d = 41 then Open CAP_POSITION (p + 2) else Open CAP_UNFINISHED (p + 1)))
     else if c = 41 then Inr Close
     else if c = L_ESC then
       rbind (rd P (p + 1)) (\<lambda>d.
       if d = 98 then Inr Balanced
       else if d = 102 then
         rbind (rd P (p + 2)) (\<lambda>e.
         if e \<noteq> 91 then luaL_error ''missing '[' after '%f' in pattern''
         else rbind (classend P (p + 2)) (\<lambda>ep. Inr (Frontier ep)))
       else if isdigit (uint d) then Inr (Backref (uint d))
       else item P p)
     else if c = 0 then Inr Finish
     else if c = 36 then rbind (rd P (p + 1)) (\<lambda>d. if d = 0 then Inr Anchor else item P p)
     else item P p)"
    using op anchor esc item next_le by (auto simp: inside_def L_ESC_def)
qed

section \<open>The matcher keeps its contract\<close>

lemma match_item_contract:
  assumes k: "\<And>q. p < q \<Longrightarrow> q \<le> length P \<Longrightarrow> contract S (\<lambda>cs s t cs'. accepts S P cs s q t cs') (\<lambda>ms s. k ms s q)"
    and e: "element_at P p = Inr (Item ep q)" and ins: "inside P p (Item ep q)"
    and ms: "valid s ms" "s \<le> length S" and m: "single S P s p ep = Inr m"
  shows "safe (outcome S (\<lambda>cs s t cs'. accepts S P cs s p t cs') ms s) (match_item k S P ms s p ep q m)"
proof -
  have ep: "p < ep" "ep \<le> length P" "q \<noteq> One \<Longrightarrow> ep + 1 \<le> length P" and one: "\<And>x. \<exists>b. single S P x p ep = Inr b"
    using ins by (auto simp: inside_def)
  let ?q = "if q = One then ep else ep + 1"
  let ?A = "\<lambda>cs s t cs'. accepts S P cs s ?q t cs'"
  have A: "accepts S P cs s p t cs' \<longleftrightarrow> repeat S P p ep (admissible q) ?A cs s t cs'" for cs s t cs'
    unfolding accepts_at [OF e] repeat_def by simp
  have s_m: "m \<Longrightarrow> s + 1 \<le> length S" using m by (simp add: single_def split: if_splits)
  have kq: "contract S ?A (\<lambda>ms s. k ms s ?q)" using k [of ?q] ep by (cases "q = One") auto
  have later: "safe (outcome S (\<lambda>cs s t cs'. R cs (s + 1) t cs') ms s) r"
    if "safe (outcome S R ms (s + 1)) r" for R r
    using that by (rule safe_mono) (auto simp: outcome_def split: option.splits)
  have none: "safe (outcome S R ms s) (Inr (None, ms))" if "\<And>t cs. \<not> R (live ms) s t cs" for R
    using that ms(1) by (simp add: valid_def)
  show ?thesis
  proof (cases q)
    case One
    have A1: "accepts S P cs s p t cs' \<longleftrightarrow> m \<and> ?A cs (s + 1) t cs'" for cs t cs'
      unfolding A One repeat_one using m by simp
    show ?thesis
    proof (cases m)
      case True
      have "safe (outcome S (\<lambda>cs s t cs'. ?A cs (s + 1) t cs') ms s) (k ms (s + 1) ?q)"
        by (rule later [OF contractD [OF kq valid_mono [OF ms(1)]]]) (use s_m True in auto)
      then have "safe (outcome S (\<lambda>cs s t cs'. accepts S P cs s p t cs') ms s) (k ms (s + 1) ?q)"
        by (rule safe_outcome) (use A1 True in simp)
      then show ?thesis using True One by (simp add: match_item_def)
    qed (use A1 One none in \<open>simp add: match_item_def\<close>)
  next
    case Star
    show ?thesis
      using safe_outcome [OF max_expand_contract [OF kq one ms]] A [unfolded Star repeat_any] Star
      by (simp add: match_item_def)
  next
    case Lazy
    show ?thesis
      using safe_outcome [OF min_expand_contract [OF kq one ms]] A [unfolded Lazy repeat_any] Lazy
      by (simp add: match_item_def)
  next
    case Plus
    let ?R = "repeat S P p ep (\<lambda>_. True) ?A"
    have A1: "accepts S P cs s p t cs' \<longleftrightarrow> m \<and> ?R cs (s + 1) t cs'" for cs t cs'
      unfolding A Plus repeat_plus using m by simp
    show ?thesis
    proof (cases m)
      case True
      have "safe (outcome S (\<lambda>cs s t cs'. ?R cs (s + 1) t cs') ms s) (max_expand (\<lambda>ms s. k ms s ?q) S P ms (s + 1) p ep)"
        by (rule later [OF max_expand_contract [OF kq one valid_mono [OF ms(1)]]]) (use s_m True in auto)
      then have "safe (outcome S (\<lambda>cs s t cs'. accepts S P cs s p t cs') ms s) (max_expand (\<lambda>ms s. k ms s ?q) S P ms (s + 1) p ep)"
        by (rule safe_outcome) (use A1 True in simp)
      then show ?thesis using True Plus by (simp add: match_item_def)
    qed (use A1 Plus none in \<open>simp add: match_item_def\<close>)
  next
    case Optional
    have A1: "accepts S P cs s p t cs' \<longleftrightarrow> ?A cs s t cs' \<or> (m \<and> ?A cs (s + 1) t cs')" for cs t cs'
      unfolding A Optional repeat_optional using m by simp
    show ?thesis
    proof (cases m)
      case True
      have "safe (outcome S (\<lambda>cs s t cs'. ?A cs (s + 1) t cs') ms s) (k ms (s + 1) ?q)"
        by (rule later [OF contractD [OF kq valid_mono [OF ms(1)]]]) (use s_m True in auto)
      from retry [OF ms(1) this contractD [OF kq _ ms(2)]]
      have "safe (outcome S (\<lambda>cs s t cs'. ?A cs (s + 1) t cs' \<or> ?A cs s t cs') ms s)
          (rbind (k ms (s + 1) ?q) (\<lambda>(res, ms). if res \<noteq> None then Inr (res, ms) else k ms s ?q))" by simp
      then have "safe (outcome S (\<lambda>cs s t cs'. accepts S P cs s p t cs') ms s)
          (rbind (k ms (s + 1) ?q) (\<lambda>(res, ms). if res \<noteq> None then Inr (res, ms) else k ms s ?q))"
        by (rule safe_outcome) (use A1 True in blast)
      moreover have "?q = ep + 1" using Optional by simp
      ultimately show ?thesis using True Optional by (simp only: match_item_def quantifier.case if_True)
    next
      case False
      have "safe (outcome S (\<lambda>cs s t cs'. accepts S P cs s p t cs') ms s) (k ms s ?q)"
        by (rule safe_outcome [OF contractD [OF kq ms]]) (use A1 False in simp)
      then show ?thesis using False Optional by (simp add: match_item_def)
    qed
  qed
qed

lemma match_element_contract:
  assumes k: "\<And>q. p < q \<Longrightarrow> q \<le> length P \<Longrightarrow> contract S (\<lambda>cs s t cs'. accepts S P cs s q t cs') (\<lambda>ms s. k ms s q)"
    and e: "element_at P p = Inr a" and ins: "inside P p a" and small: "length S < 2 ^ 63"
    and ms: "valid s ms" "s \<le> length S"
  shows "safe (outcome S (\<lambda>cs s t cs'. accepts S P cs s p t cs') ms s) (match_element k S P ms s p a)"
proof (cases a)
  case Finish
  then show ?thesis using ms by (simp add: match_element_def accepts_at [OF e])
next
  case Anchor
  then show ?thesis using ms by (auto simp: match_element_def accepts_at [OF e] valid_def)
next
  case (Open what q)
  then have "contract S (\<lambda>cs s t cs'. accepts S P cs s q t cs') (\<lambda>ms s. k ms s q)"
    "what = CAP_POSITION \<or> what = CAP_UNFINISHED" using ins k by (auto simp: inside_def)
  from start_capture_contract [OF this(1) ms this(2)]
  show ?thesis unfolding match_element_def Open element.case by (rule safe_outcome) (simp add: accepts_at [OF e] Open)
next
  case Close
  then have "contract S (\<lambda>cs s t cs'. accepts S P cs s (p + 1) t cs') (\<lambda>ms s. k ms s (p + 1))"
    using ins k by (auto simp: inside_def)
  from end_capture_contract [OF this ms]
  show ?thesis unfolding match_element_def Close element.case by (rule safe_outcome) (simp add: accepts_at [OF e] Close)
next
  case Balanced
  then have p: "p + 2 \<le> length P" using ins by (simp add: inside_def)
  show ?thesis unfolding match_element_def Balanced element.case
  proof (rule safe_bind [OF safe_matchbalance [OF p ms(2)]])
    fix r
    assume r: "matchbalance S P s (p + 2) = Inr r" "\<forall>t. r = Some t \<longrightarrow> s < t \<and> t \<le> length S \<and> p + 2 + 2 \<le> length P"
    have acc: "accepts S P cs s p t cs' \<longleftrightarrow> (\<exists>s'. r = Some s' \<and> accepts S P cs s' (p + 4) t cs')" for cs t cs'
      using r(1) by (simp add: accepts_at [OF e] Balanced)
    show "safe (outcome S (\<lambda>cs s t cs'. accepts S P cs s p t cs') ms s)
        (case r of None \<Rightarrow> Inr (None, ms) | Some s' \<Rightarrow> k ms s' (p + 4))"
    proof (cases r)
      case (Some s')
      have s': "s \<le> s'" "s' \<le> length S" "p < p + 4" "p + 4 \<le> length P" using r(2) Some by auto
      have "safe (outcome S (\<lambda>cs s t cs'. accepts S P cs s (p + 4) t cs') ms s') (k ms s' (p + 4))"
        by (rule contractD [OF k valid_mono [OF ms(1)]]) (use s' in auto)
      then have "safe (outcome S (\<lambda>cs s t cs'. accepts S P cs s p t cs') ms s) (k ms s' (p + 4))"
        by (rule safe_mono) (use s'(1) acc Some in \<open>auto simp: outcome_def split: option.splits\<close>)
      then show ?thesis using Some by simp
    qed (use ms acc in \<open>simp add: valid_def\<close>)
  qed
next
  case (Frontier ep)
  then have ep: "p < ep" "ep \<le> length P" "\<exists>b. at_frontier S P s (p + 2) ep = Inr b" using ins ms(2) by (auto simp: inside_def)
  then obtain b where b: "at_frontier S P s (p + 2) ep = Inr b" by blast
  have acc: "accepts S P cs s p t cs' \<longleftrightarrow> b \<and> accepts S P cs s ep t cs'" for cs t cs'
    using b by (simp add: accepts_at [OF e] Frontier)
  show ?thesis
    using safe_outcome [OF contractD [OF k [OF ep(1,2)] ms], of "\<lambda>cs s' t cs'. accepts S P cs s' p t cs'"] acc b ms
    by (cases b) (simp_all add: match_element_def Frontier valid_def)
next
  case (Backref c)
  then have p: "p < p + 2" "p + 2 \<le> length P" using ins by (auto simp: inside_def)
  show ?thesis unfolding match_element_def Backref element.case
  proof (rule safe_bind [OF match_capture_contract [OF ms small]])
    fix r
    let ?ref = "\<lambda>i n. 49 \<le> c \<and> nat (c - 49) < length (live ms) \<and> live ms ! nat (c - 49) = (i, int n)"
    assume r: "case r of
        None \<Rightarrow> \<not> (\<exists>i n. 49 \<le> c \<and> nat (c - 49) < length (live ms) \<and> live ms ! nat (c - 49) = (i, int n) \<and>
          s + n \<le> length S \<and> take n (drop s S) = take n (drop i S))
      | Some t \<Rightarrow> s \<le> t \<and> t \<le> length S \<and> (\<exists>i n. 49 \<le> c \<and> nat (c - 49) < length (live ms) \<and>
          live ms ! nat (c - 49) = (i, int n) \<and> t = s + n \<and> take n (drop s S) = take n (drop i S))"
    have acc: "accepts S P (live ms) s p t cs' \<longleftrightarrow> (\<exists>s'. r = Some s' \<and> accepts S P (live ms) s' (p + 2) t cs')" for t cs'
      using r by (cases r) (auto simp: accepts_at [OF e] Backref)
    show "safe (outcome S (\<lambda>cs s t cs'. accepts S P cs s p t cs') ms s)
        (case r of None \<Rightarrow> Inr (None, ms) | Some s' \<Rightarrow> k ms s' (p + 2))"
    proof (cases r)
      case (Some s')
      have s': "s \<le> s'" "s' \<le> length S" using r Some by auto
      have "safe (outcome S (\<lambda>cs s t cs'. accepts S P cs s (p + 2) t cs') ms s') (k ms s' (p + 2))"
        by (rule contractD [OF k valid_mono [OF ms(1)]]) (use s' p in auto)
      then have "safe (outcome S (\<lambda>cs s t cs'. accepts S P cs s p t cs') ms s) (k ms s' (p + 2))"
        by (rule safe_mono) (use s'(1) acc Some in \<open>auto simp: outcome_def split: option.splits\<close>)
      then show ?thesis using Some by simp
    qed (use ms acc in \<open>simp add: valid_def\<close>)
  qed
next
  case (Item ep q)
  then obtain m where m: "single S P s p ep = Inr m" using ins by (auto simp: inside_def)
  then show ?thesis
    using match_item_contract [OF k e [unfolded Item] ins [unfolded Item] ms m]
    by (simp add: match_element_def Item)
qed

lemma match_contract:
  assumes "length S < 2 ^ 63"
  shows "p \<le> length P \<Longrightarrow> contract S (\<lambda>cs s t cs'. accepts S P cs s p t cs') (\<lambda>ms s. match S P ms s p)"
proof (induction "length P - p" arbitrary: p rule: less_induct)
  case less
  have k: "contract S (\<lambda>cs s t cs'. accepts S P cs s q t cs') (\<lambda>ms s. match S P ms s q)"
    if "p < q" "q \<le> length P" for q using less.hyps [of q] that by simp
  show ?case
    unfolding contract_def
  proof (intro allI impI)
    fix ms s
    assume ms: "valid s ms" "s \<le> length S"
    show "safe (outcome S (\<lambda>cs s t cs'. accepts S P cs s p t cs') ms s) (match S P ms s p)"
      unfolding match_at [of S P ms s p]
      by (rule safe_bind [OF safe_element [OF less.prems]])
        (rule match_element_contract [OF k _ _ assms ms])
  qed
qed

lemma valid_new [simp]: "valid s new_match" "live new_match = []"
  by (simp_all add: valid_def new_match_def live_def)

text \<open>C26. The matcher is a correct search: for every subject and pattern, malformed ones included, it
  throws a Lua error or gives an answer without reading outside its strings; the answer is a place
  and captures that some run of the pattern accepts, and null only when no run accepts; the captures
  then in use lie between the start and that place, and after a failure they are what they were.\<close>

theorem match_refines_accepts:
  assumes "length S < 2 ^ 63" and "p \<le> length P" and "s \<le> length S" and "valid s ms"
  shows "case match S P ms s p of
      Inl e \<Rightarrow> \<exists>m. e = LuaError m
    | Inr (Some t, ms') \<Rightarrow> s \<le> t \<and> t \<le> length S \<and> valid t ms' \<and> accepts S P (live ms) s p t (live ms')
    | Inr (None, ms') \<Rightarrow> (\<forall>t cs. \<not> accepts S P (live ms) s p t cs) \<and> level ms' = level ms \<and> live ms' = live ms"
  using contractD [OF match_contract [OF assms(1,2)] assms(4,3)]
  by (auto simp: safe_def split: sum.splits option.splits)

theorem match_refines_accepts_witness:
  "\<exists>ms'. match [97, 98, 97] [40, 97, 43, 41, 46, 37, 49] new_match 0 0 = Inr (Some 3, ms') \<and> live ms' = [(0, 1)] \<and>
    accepts [97, 98, 97] [40, 97, 43, 41, 46, 37, 49] [] 0 0 3 [(0, 1)]"
proof -
  have "(case match [97, 98, 97] [40, 97, 43, 41, 46, 37, 49] new_match 0 0 of Inr (t, ms') \<Rightarrow> t = Some 3 \<and> live ms' = [(0, 1)]
    | Inl e \<Rightarrow> False)"
    by code_simp
  then obtain ms' where ms': "match [97, 98, 97] [40, 97, 43, 41, 46, 37, 49] new_match 0 0 = Inr (Some 3, ms')"
    "live ms' = [(0, 1)]" by (auto split: sum.splits)
  then show ?thesis
    using match_refines_accepts [of "[97, 98, 97]" 0 "[40, 97, 43, 41, 46, 37, 49]" 0 new_match] by simp
qed

end
