(* ===== verification/LuaStrlib.thy ===== *)
theory LuaStrlib
  imports LuaMatchSpec
begin

text \<open>
  The functions of lstrlib.c over the matcher (find, match, gmatch, gsub with a replacement string) and
  those on positions and single bytes.

  A function takes its arguments as the Lua stack holds them after the checks of their types and gives the
  values it pushes; \<open>free\<close> is the number of stack slots that can still be had, which \<open>luaL_checkstack\<close>
  asks for. A number pushed is kept as the integer it is. Error messages are without the
  position, function name and argument that lauxlib puts around them.
\<close>

datatype retval = RNil | RInt int | RStr bytes

definition luaL_checkstack :: "nat \<Rightarrow> nat \<Rightarrow> string \<Rightarrow> unit result" where
  "luaL_checkstack free n mes = (if n \<le> free then Inr () else luaL_error (''stack overflow ('' @ mes @ '')''))"

section \<open>Positions and bytes\<close>

definition posrelat :: "int \<Rightarrow> nat \<Rightarrow> int" where
  "posrelat pos len =
     (let pos = (if pos < 0 then pos + (int len + 1) else pos) in if pos \<ge> 0 then pos else 0)"

text \<open>An optional argument is \<open>None\<close> when it is absent.\<close>

definition optinteger :: "int option \<Rightarrow> int \<Rightarrow> int" where
  "optinteger arg d = (case arg of None \<Rightarrow> d | Some n \<Rightarrow> n)"

definition str_sub :: "bytes \<Rightarrow> int \<Rightarrow> int option \<Rightarrow> bytes result" where
  "str_sub s i j =
     (let l = length s;
          start = posrelat i l;
          fin = posrelat (optinteger j (- 1)) l;
          start = (if start < 1 then 1 else start);
          fin = (if fin > int l then int l else fin) in
      if start \<le> fin then mem s (nat (start - 1)) (nat (fin - start + 1)) else Inr [])"

fun reverse_from :: "bytes \<Rightarrow> nat \<Rightarrow> bytes" where
  "reverse_from s 0 = []"
| "reverse_from s (Suc l) = s ! l # reverse_from s l"

definition str_reverse :: "bytes \<Rightarrow> bytes" where
  "str_reverse s = reverse_from s (length s)"

definition str_lower :: "bytes \<Rightarrow> bytes" where
  "str_lower s = map (\<lambda>c. of_int (tolower (uint c))) s"

definition str_upper :: "bytes \<Rightarrow> bytes" where
  "str_upper s = map (\<lambda>c. of_int (toupper (uint c))) s"

fun rep_loop :: "bytes \<Rightarrow> nat \<Rightarrow> bytes" where
  "rep_loop s 0 = []"
| "rep_loop s (Suc n) = s @ rep_loop s n"

definition str_rep :: "bytes \<Rightarrow> int \<Rightarrow> bytes" where
  "str_rep s n = rep_loop s (nat n)"

text \<open>The number of bytes is an \<open>int\<close> of C.\<close>

definition str_byte :: "nat \<Rightarrow> bytes \<Rightarrow> int option \<Rightarrow> int option \<Rightarrow> int list result" where
  "str_byte free s i j =
     (let l = length s;
          posi = posrelat (optinteger i 1) l;
          pose = posrelat (optinteger j posi) l;
          posi = (if posi \<le> 0 then 1 else posi);
          pose = (if pose > int l then int l else pose) in
      if posi > pose then Inr []
      else
        let n = sint (of_int (pose - posi + 1) :: u32) in
        if posi + n \<le> pose then luaL_error ''string slice too long''
        else
          rbind (luaL_checkstack free (nat n) ''string slice too long'') (\<lambda>_.
          rbind (mem s (nat (posi - 1)) (nat n)) (\<lambda>b. Inr (map uint b))))"

fun str_char :: "int list \<Rightarrow> bytes result" where
  "str_char [] = Inr []"
| "str_char (c # cs) =
     (if uint (of_int c :: u8) = c then rbind (str_char cs) (\<lambda>b. Inr (of_int c # b))
      else luaL_error ''invalid value'')"

section \<open>Plain search\<close>

fun memchr :: "bytes \<Rightarrow> nat \<Rightarrow> u8 \<Rightarrow> nat \<Rightarrow> nat option result" where
  "memchr S a c 0 = Inr None"
| "memchr S a c (Suc n) = rbind (rd S a) (\<lambda>d. if d = c then Inr (Some a) else memchr S (a + 1) c n)"

lemma memchr_ge: "memchr S a c n = Inr (Some i) \<Longrightarrow> a \<le> i"
  by (induction S a c n rule: memchr.induct) (fastforce simp: rbind_eq_Inr split: if_splits)+

text \<open>The loop of \<open>lmemfind\<close>: \<open>l1\<close> places are left from \<open>a\<close> on, \<open>l2\<close> is one less than the length of \<open>T\<close>.\<close>

function lmemfind_loop :: "bytes \<Rightarrow> nat \<Rightarrow> nat \<Rightarrow> bytes \<Rightarrow> nat \<Rightarrow> nat option result" where
  "lmemfind_loop S a l1 T l2 =
     (if l1 > 0 then
        rbind (rd T 0) (\<lambda>c.
        rbind (memchr S a c l1) (\<lambda>r.
        case r of
          None \<Rightarrow> Inr None
        | Some i \<Rightarrow>
            rbind (mem S (i + 1) l2) (\<lambda>x.
            rbind (mem T 1 l2) (\<lambda>y.
            if x = y then Inr (Some i)
            else lmemfind_loop S (i + 1) (l1 - (i + 1 - a)) T l2))))
      else Inr None)"
  by auto
termination
  by (relation "measure (\<lambda>(S, a, l1, T, l2). l1)") (auto dest!: memchr_ge)

declare lmemfind_loop.simps [simp del]

definition lmemfind :: "bytes \<Rightarrow> nat \<Rightarrow> nat \<Rightarrow> bytes \<Rightarrow> nat option result" where
  "lmemfind S a l1 T =
     (if length T = 0 then Inr (Some a)
      else if length T > l1 then Inr None
      else lmemfind_loop S a (l1 - (length T - 1)) T (length T - 1))"

section \<open>Captures as values\<close>

text \<open>\<open>s\<close> is null when the whole match is not wanted; it is read only when it is.\<close>

definition push_onecapture :: "bytes \<Rightarrow> MatchState \<Rightarrow> nat \<Rightarrow> nat option \<Rightarrow> nat \<Rightarrow> retval result" where
  "push_onecapture S ms i s e =
     (if i \<ge> level ms then
        if i = 0 then
          (case s of None \<Rightarrow> Inl InvalidPointer | Some s \<Rightarrow> rbind (mem S s (e - s)) (\<lambda>x. Inr (RStr x)))
        else luaL_error ''invalid capture index''
      else
        let l = snd (capture ms ! i) in
        if l = CAP_UNFINISHED then luaL_error ''unfinished capture''
        else if l = CAP_POSITION then Inr (RInt (int (fst (capture ms ! i)) + 1))
        else rbind (mem S (fst (capture ms ! i)) (nat l)) (\<lambda>x. Inr (RStr x)))"

fun each :: "('a \<Rightarrow> 'b result) \<Rightarrow> 'a list \<Rightarrow> 'b list result" where
  "each f [] = Inr []"
| "each f (x # xs) = rbind (f x) (\<lambda>y. rbind (each f xs) (\<lambda>ys. Inr (y # ys)))"

definition push_captures :: "nat \<Rightarrow> bytes \<Rightarrow> MatchState \<Rightarrow> nat option \<Rightarrow> nat \<Rightarrow> retval list result" where
  "push_captures free S ms s e =
     (let nlevels = (if level ms = 0 \<and> s \<noteq> None then 1 else level ms) in
      rbind (luaL_checkstack free nlevels ''too many captures'') (\<lambda>_.
      each (\<lambda>i. push_onecapture S ms i s e) [0..<nlevels]))"

section \<open>find and match\<close>

definition SPECIALS :: bytes where
  "SPECIALS = ascii ''^$*+?.([%-''"

text \<open>\<open>strpbrk(p, SPECIALS) == NULL\<close>: the search ends at the first zero byte.\<close>

definition no_specials :: "bytes \<Rightarrow> bool" where
  "no_specials P \<longleftrightarrow> (\<forall>c \<in> set (takeWhile (\<lambda>c. c \<noteq> 0) P). c \<notin> set SPECIALS)"

function find_loop :: "nat \<Rightarrow> bool \<Rightarrow> bytes \<Rightarrow> bytes \<Rightarrow> nat \<Rightarrow> bool \<Rightarrow> MatchState \<Rightarrow> nat \<Rightarrow> retval list result" where
  "find_loop free is_find S P p anchor ms s1 =
     rbind (match S P (ms\<lparr>level := 0\<rparr>) s1 p) (\<lambda>(res, ms).
     case res of
       Some e \<Rightarrow>
         if is_find then
           rbind (push_captures free S ms None 0) (\<lambda>cs. Inr ([RInt (int s1 + 1), RInt (int e)] @ cs))
         else push_captures free S ms (Some s1) e
     | None \<Rightarrow>
         if s1 < length S \<and> \<not> anchor then find_loop free is_find S P p anchor ms (s1 + 1) else Inr [RNil])"
  by auto
termination
  by (relation "measure (\<lambda>(free, is_find, S, P, p, anchor, ms, s1). length S - s1)") auto

declare find_loop.simps [simp del]

definition find_plain :: "bytes \<Rightarrow> bytes \<Rightarrow> nat \<Rightarrow> retval list result" where
  "find_plain S P init =
     rbind (lmemfind S init (length S - init) P) (\<lambda>r.
     case r of
       Some s2 \<Rightarrow> Inr [RInt (int s2 + 1), RInt (int (s2 + length P))]
     | None \<Rightarrow> Inr [RNil])"

definition find_pattern :: "nat \<Rightarrow> bool \<Rightarrow> bytes \<Rightarrow> bytes \<Rightarrow> nat \<Rightarrow> retval list result" where
  "find_pattern free is_find S P init =
     rbind (rd P 0) (\<lambda>c.
     if c = 94 then find_loop free is_find S P 1 True new_match init
     else find_loop free is_find S P 0 False new_match init)"

definition str_find_aux :: "nat \<Rightarrow> bool \<Rightarrow> bytes \<Rightarrow> bytes \<Rightarrow> int option \<Rightarrow> bool \<Rightarrow> retval list result" where
  "str_find_aux free is_find S P i plain =
     (let init = posrelat (optinteger i 1) (length S) - 1;
          init = (if init < 0 then 0 else if init > int (length S) then int (length S) else init) in
      if is_find \<and> (plain \<or> no_specials P) then find_plain S P (nat init)
      else find_pattern free is_find S P (nat init))"

definition str_find :: "nat \<Rightarrow> bytes \<Rightarrow> bytes \<Rightarrow> int option \<Rightarrow> bool \<Rightarrow> retval list result" where
  "str_find free S P i plain = str_find_aux free True S P i plain"

definition str_match :: "nat \<Rightarrow> bytes \<Rightarrow> bytes \<Rightarrow> int option \<Rightarrow> retval list result" where
  "str_match free S P i = str_find_aux free False S P i False"

section \<open>gmatch\<close>

text \<open>The values of one call of the iterator, and the position its upvalue holds after it.\<close>

function gmatch_from :: "nat \<Rightarrow> bytes \<Rightarrow> bytes \<Rightarrow> nat \<Rightarrow> MatchState \<Rightarrow> nat \<Rightarrow> (retval list \<times> nat) result" where
  "gmatch_from free S P start ms src =
     (if src \<le> length S then
        rbind (match S P (ms\<lparr>level := 0\<rparr>) src 0) (\<lambda>(res, ms).
        case res of
          Some e \<Rightarrow>
            let newstart = (if e = src then e + 1 else e) in
            rbind (push_captures free S ms (Some src) e) (\<lambda>vs. Inr (vs, newstart))
        | None \<Rightarrow> gmatch_from free S P start ms (src + 1))
      else Inr ([], start))"
  by auto
termination
  by (relation "measure (\<lambda>(free, S, P, start, ms, src). length S + 1 - src)") auto

declare gmatch_from.simps [simp del]

definition gmatch_aux :: "nat \<Rightarrow> bytes \<Rightarrow> bytes \<Rightarrow> nat \<Rightarrow> (retval list \<times> nat) result" where
  "gmatch_aux free S P start = gmatch_from free S P start new_match start"

section \<open>gsub\<close>

text \<open>A capture added to the buffer: a position is written as a number (\<open>%.14g\<close> writes an integer below
  \<open>10 ^ 14\<close> in full).\<close>

definition addvalue :: "retval \<Rightarrow> bytes" where
  "addvalue v = (case v of RStr x \<Rightarrow> x | RInt i \<Rightarrow> format_d i | RNil \<Rightarrow> [])"

text \<open>The replacement string; after its last character the code reads the terminating zero.\<close>

fun add_s :: "bytes \<Rightarrow> MatchState \<Rightarrow> nat \<Rightarrow> nat \<Rightarrow> bytes \<Rightarrow> bytes result" where
  "add_s S ms s e [] = Inr []"
| "add_s S ms s e [c] = Inr [if c \<noteq> L_ESC then c else 0]"
| "add_s S ms s e (c # d # news) =
     (if c \<noteq> L_ESC then rbind (add_s S ms s e (d # news)) (\<lambda>b. Inr (c # b))
      else
        rbind (if \<not> isdigit (uint d) then Inr [d]
               else if d = 48 then mem S s (e - s)
               else rbind (push_onecapture S ms (nat (uint d - 49)) (Some s) e) (\<lambda>v. Inr (addvalue v))) (\<lambda>a.
        rbind (add_s S ms s e news) (\<lambda>b. Inr (a @ b))))"

text \<open>The rest of the subject is copied.\<close>

definition gsub_end :: "bytes \<Rightarrow> int \<Rightarrow> nat \<Rightarrow> bytes \<Rightarrow> (bytes \<times> int) result" where
  "gsub_end S n src b = rbind (mem S src (length S - src)) (\<lambda>x. Inr (b @ x, n))"

function gsub_loop :: "bytes \<Rightarrow> bytes \<Rightarrow> nat \<Rightarrow> bytes \<Rightarrow> bool \<Rightarrow> int \<Rightarrow> int \<Rightarrow> MatchState \<Rightarrow> nat \<Rightarrow> bytes \<Rightarrow>
    (bytes \<times> int) result" where
  "gsub_loop S P p R anchor max_s n ms src b =
     (if n < max_s then
        rbind (match S P (ms\<lparr>level := 0\<rparr>) src p) (\<lambda>(res, ms).
        rbind (case res of Some e \<Rightarrow> rbind (add_s S ms src e R) (\<lambda>v. Inr (n + 1, b @ v)) | None \<Rightarrow> Inr (n, b))
        (\<lambda>(n, b).
        if res \<noteq> None \<and> the res > src then
          if anchor then gsub_end S n (the res) b else gsub_loop S P p R anchor max_s n ms (the res) b
        else if src < length S then
          rbind (rd S src) (\<lambda>c.
          if anchor then gsub_end S n (src + 1) (b @ [c])
          else gsub_loop S P p R anchor max_s n ms (src + 1) (b @ [c]))
        else gsub_end S n src b))
      else gsub_end S n src b)"
  by auto
termination
  by (relation "measures [\<lambda>(S, P, p, R, anchor, max_s, n, ms, src, b). nat (max_s - n),
      \<lambda>(S, P, p, R, anchor, max_s, n, ms, src, b). length S - src]")
    (auto simp: rbind_eq_Inr split: option.splits)

declare gsub_loop.simps [simp del]

definition str_gsub :: "bytes \<Rightarrow> bytes \<Rightarrow> bytes \<Rightarrow> int option \<Rightarrow> (bytes \<times> int) result" where
  "str_gsub S P R i =
     (let max_s = sint (of_int (optinteger i (int (length S) + 1)) :: u32) in
      rbind (rd P 0) (\<lambda>c.
      if c = 94 then gsub_loop S P 1 R True max_s 0 new_match 0 []
      else gsub_loop S P 0 R False max_s 0 new_match 0 []))"

end
