(* ===== verification/LuaStrlibSpec.thy ===== *)
theory LuaStrlibSpec
  imports LuaStrlib
begin

text \<open>
  What the string functions promise: plain search finds the first occurrence and agrees with the
  matcher; results are of the documented types and inside the subject, and no call reads outside
  its strings; \<open>gmatch\<close> advances; \<open>gsub\<close> with \<open>%0\<close> changes nothing; \<open>byte\<close> and \<open>char\<close> are inverse.
\<close>

section \<open>Plain search\<close>

text \<open>\<open>P\<close> occurs in \<open>S\<close> at \<open>i\<close>; the first place from \<open>a\<close> on where it does.\<close>

definition occurs :: "bytes \<Rightarrow> bytes \<Rightarrow> nat \<Rightarrow> bool" where
  "occurs S P i \<longleftrightarrow> i + length P \<le> length S \<and> take (length P) (drop i S) = P"

definition first_at :: "bytes \<Rightarrow> bytes \<Rightarrow> nat \<Rightarrow> nat option \<Rightarrow> bool" where
  "first_at S P a r \<longleftrightarrow> (case r of
       Some i \<Rightarrow> a \<le> i \<and> occurs S P i \<and> (\<forall>j. a \<le> j \<longrightarrow> j < i \<longrightarrow> \<not> occurs S P j)
     | None \<Rightarrow> \<forall>j\<ge>a. \<not> occurs S P j)"

lemma first_at_unique: "first_at S P a r \<Longrightarrow> first_at S P a r' \<Longrightarrow> r = r'"
  by (cases r; cases r') (auto simp: first_at_def, metis linorder_neqE_nat)

lemma first_at_here: "a + length P \<le> length S \<Longrightarrow> occurs S P a \<Longrightarrow> first_at S P a (Some a)"
  by (simp add: first_at_def)

lemma first_at_later:
  assumes "first_at S P b r" and "a \<le> b" and "\<And>j. a \<le> j \<Longrightarrow> j < b \<Longrightarrow> \<not> occurs S P j"
  shows "first_at S P a r"
  using assms by (cases r) (auto simp: first_at_def, (metis le_trans linorder_not_le)+)

lemma occurs_Cons:
  "occurs S (c # T) i \<longleftrightarrow> i + length T < length S \<and> S ! i = c \<and> take (length T) (drop (i + 1) S) = T"
  by (cases "i < length S") (auto simp: occurs_def Cons_nth_drop_Suc [symmetric])

lemma memchr_spec:
  "a + n \<le> length S \<Longrightarrow> \<exists>r. memchr S a c n = Inr r \<and> (case r of
      Some i \<Rightarrow> a \<le> i \<and> i < a + n \<and> S ! i = c \<and> (\<forall>j. a \<le> j \<longrightarrow> j < i \<longrightarrow> S ! j \<noteq> c)
    | None \<Rightarrow> \<forall>j. a \<le> j \<longrightarrow> j < a + n \<longrightarrow> S ! j \<noteq> c)"
proof (induction n arbitrary: a)
  case (Suc n)
  have r: "rd S a = Inr (S ! a)" using Suc.prems by (simp add: rd_def)
  show ?case
  proof (cases "S ! a = c")
    case False
    obtain r' where r': "memchr S (a + 1) c n = Inr r'" "case r' of
        Some i \<Rightarrow> a + 1 \<le> i \<and> i < a + 1 + n \<and> S ! i = c \<and> (\<forall>j. a + 1 \<le> j \<longrightarrow> j < i \<longrightarrow> S ! j \<noteq> c)
      | None \<Rightarrow> \<forall>j. a + 1 \<le> j \<longrightarrow> j < a + 1 + n \<longrightarrow> S ! j \<noteq> c"
      using Suc.IH [of "a + 1"] Suc.prems by auto
    have ne: "S ! j \<noteq> c" if "\<forall>j. a + 1 \<le> j \<longrightarrow> j < i \<longrightarrow> S ! j \<noteq> c" "a \<le> j" "j < i" for i j
      using that False by (cases "j = a") auto
    show ?thesis
    proof (cases r')
      case None
      then show ?thesis using r r' False ne [of "a + Suc n"] by simp
    next
      case (Some i)
      then show ?thesis using r r' False ne [of i] by simp
    qed
  qed (use r in simp)
qed simp

lemma lmemfind_loop_spec:
  "a + l1 + length T = length S \<Longrightarrow> \<exists>r. lmemfind_loop S a l1 (c # T) (length T) = Inr r \<and> first_at S (c # T) a r"
proof (induction l1 arbitrary: a rule: less_induct)
  case (less l1)
  show ?case
  proof (cases "l1 > 0")
    case True
    obtain m where m: "memchr S a c l1 = Inr m" "case m of
        Some i \<Rightarrow> a \<le> i \<and> i < a + l1 \<and> S ! i = c \<and> (\<forall>j. a \<le> j \<longrightarrow> j < i \<longrightarrow> S ! j \<noteq> c)
      | None \<Rightarrow> \<forall>j. a \<le> j \<longrightarrow> j < a + l1 \<longrightarrow> S ! j \<noteq> c"
      using memchr_spec [of a l1 S c] less.prems by auto
    have step: "lmemfind_loop S a l1 (c # T) (length T) = (case m of None \<Rightarrow> Inr None | Some i \<Rightarrow>
        rbind (mem S (i + 1) (length T)) (\<lambda>x. if x = T then Inr (Some i)
          else lmemfind_loop S (i + 1) (l1 - (i + 1 - a)) (c # T) (length T)))"
      unfolding lmemfind_loop.simps [of S a l1] using True m(1) by (simp add: rd_def mem_def split: option.split)
    show ?thesis
    proof (cases m)
      case None
      have "\<not> occurs S (c # T) j" if "a \<le> j" for j
        using m(2) None that less.prems by (auto simp: occurs_Cons)
      then show ?thesis using step None by (simp add: first_at_def)
    next
      case (Some i)
      then have i: "a \<le> i" "i < a + l1" "S ! i = c" "\<And>j. a \<le> j \<Longrightarrow> j < i \<Longrightarrow> S ! j \<noteq> c" using m(2) by auto
      have mem: "mem S (i + 1) (length T) = Inr (take (length T) (drop (i + 1) S))"
        using i(2) less.prems by (simp add: mem_def)
      have before: "\<not> occurs S (c # T) j" if "a \<le> j" "j < i" for j using i(4) that by (auto simp: occurs_Cons)
      show ?thesis
      proof (cases "take (length T) (drop (i + 1) S) = T")
        case True
        then have "occurs S (c # T) i" using i less.prems by (simp add: occurs_Cons)
        then have "first_at S (c # T) a (Some i)" using i(1) before by (simp add: first_at_def)
        then show ?thesis using step Some mem True by simp
      next
        case False
        obtain r where r: "lmemfind_loop S (i + 1) (l1 - (i + 1 - a)) (c # T) (length T) = Inr r" "first_at S (c # T) (i + 1) r"
          using less.IH [of "l1 - (i + 1 - a)" "i + 1"] i(1,2) less.prems by fastforce
        have "\<not> occurs S (c # T) j" if "a \<le> j" "j < i + 1" for j
          using before [OF that(1)] False that(2) by (cases "j = i") (auto simp: occurs_Cons)
        then have "first_at S (c # T) a r" using first_at_later [OF r(2)] i(1) by simp
        then show ?thesis using step Some mem False r(1) by simp
      qed
    qed
  next
    case False
    then have "\<not> occurs S (c # T) j" if "a \<le> j" for j using that less.prems by (auto simp: occurs_Cons)
    moreover have "lmemfind_loop S a l1 (c # T) (length T) = Inr None"
      unfolding lmemfind_loop.simps [of S a l1] using False by simp
    ultimately show ?thesis by (simp add: first_at_def)
  qed
qed

lemma lmemfind_spec: "a \<le> length S \<Longrightarrow> \<exists>r. lmemfind S a (length S - a) P = Inr r \<and> first_at S P a r"
proof (cases P)
  case (Cons c T)
  assume a: "a \<le> length S"
  show ?thesis
  proof (cases "length P > length S - a")
    case True
    then have "\<not> occurs S P j" if "a \<le> j" for j using that Cons by (auto simp: occurs_def)
    then show ?thesis using True Cons by (simp add: lmemfind_def first_at_def)
  next
    case False
    then show ?thesis
      using lmemfind_loop_spec [of a "length S - a - length T" T S c] Cons a by (simp add: lmemfind_def)
  qed
qed (auto simp: lmemfind_def first_at_def occurs_def)

section \<open>Patterns without special characters\<close>

definition plain_pattern :: "bytes \<Rightarrow> bool" where
  "plain_pattern P \<longleftrightarrow> (\<forall>c \<in> set P. c \<notin> set SPECIALS \<and> c \<noteq> 41 \<and> c \<noteq> 0)"

lemma SPECIALS_bytes: "SPECIALS = [94, 36, 42, 43, 63, 46, 40, 91, 37, 45]"
  by (simp add: SPECIALS_def ascii_def)

lemma plain_element:
  assumes "plain_pattern P" and "p < length P"
  shows "element_at P p = Inr (Item (p + 1) One)" and "single S P s p (p + 1) = Inr (s < length S \<and> S ! s = P ! p)"
proof -
  have ok: "c \<notin> {94, 36, 42, 43, 63, 46, 40, 91, 37, 45, 41, 0}" if "c \<in> set P" for c
    using assms(1) that by (auto simp: plain_pattern_def SPECIALS_bytes)
  have c: "P ! p \<notin> {94, 36, 42, 43, 63, 46, 40, 91, 37, 45, 41, 0}" using assms(2) by (intro ok) simp
  have r: "rd P p = Inr (P ! p)" using assms(2) by (simp add: rd_def)
  have q: "\<exists>d. rd P (p + 1) = Inr d \<and> quantifier_of d = One"
  proof (cases "p + 1 < length P")
    case True
    then have "P ! (p + 1) \<notin> {94, 36, 42, 43, 63, 46, 40, 91, 37, 45, 41, 0}" by (intro ok) simp
    then show ?thesis using True by (simp add: rd_def quantifier_of_def)
  qed (use assms(2) in \<open>simp add: rd_def quantifier_of_def\<close>)
  have "classend P p = Inr (p + 1)" using c r by (simp add: classend_def L_ESC_def)
  then have "item P p = Inr (Item (p + 1) One)" using q by (auto simp: item_def)
  then show "element_at P p = Inr (Item (p + 1) One)" using c r by (simp add: element_at_def L_ESC_def)
  show "single S P s p (p + 1) = Inr (s < length S \<and> S ! s = P ! p)"
    using c r by (auto simp: single_def singlematch_def rd_def L_ESC_def)
qed

lemma match_plain:
  assumes "plain_pattern P"
  shows "p \<le> length P \<Longrightarrow> match S P ms s p =
    Inr (if occurs S (drop p P) s \<or> drop p P = [] then Some (s + (length P - p)) else None, ms)"
proof (induction "length P - p" arbitrary: p s)
  case 0
  then have "element_at P p = Inr Finish" by (simp add: element_at_def rd_def L_ESC_def)
  then show ?case using 0 by (simp add: match_at [of S P ms s p] match_element_def)
next
  case (Suc n)
  then have p: "p < length P" by simp
  have d: "drop p P = P ! p # drop (p + 1) P" using p by (simp add: Cons_nth_drop_Suc)
  have IH: "match S P ms (s + 1) (p + 1) =
      Inr (if occurs S (drop (p + 1) P) (s + 1) \<or> drop (p + 1) P = [] then Some (s + 1 + (length P - (p + 1))) else None, ms)"
    using Suc.hyps(1) [of "p + 1" "s + 1"] Suc.hyps(2) p by simp
  have occ: "occurs S (drop p P) s \<longleftrightarrow> s < length S \<and> S ! s = P ! p \<and> (occurs S (drop (p + 1) P) (s + 1) \<or> drop (p + 1) P = [])"
    unfolding d occurs_Cons by (auto simp: occurs_def)
  have "match S P ms s p = (if s < length S \<and> S ! s = P ! p then match S P ms (s + 1) (p + 1) else Inr (None, ms))"
    using plain_element [OF assms p]
    by (simp add: match_at [of S P ms s p] match_element_def match_item_def)
  also have "\<dots> = Inr (if occurs S (drop p P) s \<or> drop p P = [] then Some (s + (length P - p)) else None, ms)"
    using IH occ p d by auto
  finally show ?case .
qed

lemma find_loop_plain:
  assumes "plain_pattern P"
  shows "s \<le> length S \<Longrightarrow> \<exists>r. first_at S P s r \<and> find_loop free True S P 0 False ms s =
    Inr (case r of Some i \<Rightarrow> [RInt (int i + 1), RInt (int (i + length P))] | None \<Rightarrow> [RNil])"
proof (induction "length S - s" arbitrary: s ms rule: less_induct)
  case less
  have m: "match S P (ms\<lparr>level := 0\<rparr>) s 0 = Inr (if occurs S P s then Some (s + length P) else None, ms\<lparr>level := 0\<rparr>)"
    using match_plain [OF assms, of 0 S "ms\<lparr>level := 0\<rparr>" s] less.prems by (auto simp: occurs_def)
  show ?case
  proof (cases "occurs S P s")
    case True
    then have "first_at S P s (Some s)" by (simp add: first_at_def)
    moreover have "find_loop free True S P 0 False ms s = Inr [RInt (int s + 1), RInt (int (s + length P))]"
      using m True by (simp add: find_loop.simps [of free True S P 0 False ms s] push_captures_def luaL_checkstack_def)
    ultimately show ?thesis by (intro exI [of _ "Some s"]) simp
  next
    case F: False
    have l: "find_loop free True S P 0 False ms s =
        (if s < length S then find_loop free True S P 0 False (ms\<lparr>level := 0\<rparr>) (s + 1) else Inr [RNil])"
      using m F by (simp add: find_loop.simps [of free True S P 0 False ms s])
    show ?thesis
    proof (cases "s < length S")
      case True
      then obtain r where r: "first_at S P (s + 1) r" "find_loop free True S P 0 False (ms\<lparr>level := 0\<rparr>) (s + 1) =
          Inr (case r of Some i \<Rightarrow> [RInt (int i + 1), RInt (int (i + length P))] | None \<Rightarrow> [RNil])"
        using less.hyps [of "s + 1" "ms\<lparr>level := 0\<rparr>"] by fastforce
      have "first_at S P s r" using first_at_later [OF r(1)] F by (metis Suc_eq_plus1 le_add1 less_Suc_eq_le le_antisym)
      then show ?thesis using l r(2) True by auto
    next
      case False
      then have "\<not> occurs S P j" if "s \<le> j" for j
        using that F less.prems by (cases "j = s") (auto simp: occurs_def)
      then have "first_at S P s None" by (simp add: first_at_def)
      then show ?thesis using l False by (intro exI [of _ None]) simp
    qed
  qed
qed

text \<open>C27. For a pattern without special characters, closing parentheses and zero bytes, the plain search of
  \<open>find\<close> and the pattern matcher give the same answer from every start: the first occurrence.\<close>

theorem find_plain_agrees:
  assumes "plain_pattern P" and "i \<le> length S"
  shows "find_plain S P i = find_pattern free True S P i \<and> (\<exists>r. first_at S P i r \<and> find_plain S P i =
      Inr (case r of Some i \<Rightarrow> [RInt (int i + 1), RInt (int (i + length P))] | None \<Rightarrow> [RNil]))"
proof -
  obtain r where r: "first_at S P i r" "find_loop free True S P 0 False new_match i =
      Inr (case r of Some i \<Rightarrow> [RInt (int i + 1), RInt (int (i + length P))] | None \<Rightarrow> [RNil])"
    using find_loop_plain [OF assms] by blast
  obtain r' where r': "lmemfind S i (length S - i) P = Inr r'" "first_at S P i r'" using lmemfind_spec [OF assms(2)] by blast
  then have f: "find_plain S P i = Inr (case r of Some i \<Rightarrow> [RInt (int i + 1), RInt (int (i + length P))] | None \<Rightarrow> [RNil])"
    using first_at_unique [OF r(1) r'(2)] by (simp add: find_plain_def split: option.split)
  have "\<exists>c. rd P 0 = Inr c \<and> c \<noteq> 94"
    using assms(1) by (cases P) (auto simp: rd_def plain_pattern_def SPECIALS_bytes)
  then have "find_plain S P i = find_pattern free True S P i" using f r(2) by (auto simp: find_pattern_def)
  then show ?thesis using f r(1) by blast
qed

theorem find_plain_agrees_witness:
  "find_plain [97, 97, 98, 97, 98] [97, 98] 0 = find_pattern 0 True [97, 97, 98, 97, 98] [97, 98] 0 \<and>
    find_plain [97, 97, 98, 97, 98] [97, 98] 0 = Inr [RInt 2, RInt 3]"
proof -
  have "plain_pattern [97, 98]" by (simp add: plain_pattern_def SPECIALS_bytes)
  moreover have "find_plain [97, 97, 98, 97, 98] [97, 98] 0 = Inr [RInt 2, RInt 3]" by code_simp
  ultimately show ?thesis using find_plain_agrees [of "[97, 98]" 0 "[97, 97, 98, 97, 98]" 0] by simp
qed

section \<open>Results of the matcher's clients\<close>

lemma rbind_error [simp]: "rbind (luaL_error m) f = luaL_error m"
  by (simp add: luaL_error_def)

lemma valid_level0: "length (capture ms) = LUA_MAXCAPTURES \<Longrightarrow> valid s (ms\<lparr>level := 0\<rparr>)"
  by (simp add: valid_def live_def)

lemma live_level0 [simp]: "live (ms\<lparr>level := 0\<rparr>) = []"
  by (simp add: live_def)

lemma outcome_capture: "outcome S A ms s (res, ms') \<Longrightarrow> length (capture ms') = LUA_MAXCAPTURES"
  by (simp add: outcome_def)

text \<open>A captured value: a part of the subject or a position in it.\<close>

definition captured :: "bytes \<Rightarrow> retval \<Rightarrow> bool" where
  "captured S v \<longleftrightarrow> (case v of
       RNil \<Rightarrow> False
     | RInt i \<Rightarrow> 1 \<le> i \<and> i \<le> int (length S) + 1
     | RStr x \<Rightarrow> \<exists>a. a + length x \<le> length S \<and> x = take (length x) (drop a S))"

lemma mem_captured: "mem S a n = Inr x \<Longrightarrow> captured S (RStr x)"
  by (auto simp: captured_def mem_def split: if_splits intro!: exI [of _ a])

lemma push_onecapture_safe:
  assumes "valid t ms" and "t \<le> length S" and s: "\<And>s'. s = Some s' \<Longrightarrow> s' \<le> e \<and> e \<le> length S"
    and "s = None \<Longrightarrow> i < level ms"
  shows "safe (captured S) (push_onecapture S ms i s e)"
proof (cases "i < level ms")
  case True
  let ?c = "capture ms ! i"
  have "live ms ! i = ?c" "i < length (live ms)" using True assms(1) by (simp_all add: length_live) (simp add: live_def)
  then have "?c \<in> set (live ms)" by (metis nth_mem)
  then have c: "fst ?c \<le> t" "snd ?c = CAP_UNFINISHED \<or> snd ?c = CAP_POSITION \<or> (0 \<le> snd ?c \<and> int (fst ?c) + snd ?c \<le> int t)"
    using assms(1) by (auto simp: valid_def)
  show ?thesis
  proof (cases "snd ?c = CAP_UNFINISHED \<or> snd ?c = CAP_POSITION")
    case True
    then show ?thesis using \<open>i < level ms\<close> c(1) assms(2)
      by (auto simp: push_onecapture_def Let_def captured_def CAP_UNFINISHED_def CAP_POSITION_def)
  next
    case False
    then have le: "fst ?c + nat (snd ?c) \<le> length S" using c(2) assms(2) by auto
    then have "mem S (fst ?c) (nat (snd ?c)) = Inr (take (nat (snd ?c)) (drop (fst ?c) S))" by (simp add: mem_def)
    then show ?thesis using False \<open>i < level ms\<close> mem_captured
      by (simp add: push_onecapture_def Let_def del: take_drop)
  qed
next
  case False
  then obtain s' where s': "s = Some s'" "s' \<le> e" "e \<le> length S" using assms(4) s by (cases s) auto
  then have m: "mem S s' (e - s') = Inr (take (e - s') (drop s' S))" by (simp add: mem_def)
  have "safe (captured S) (rbind (mem S s' (e - s')) (\<lambda>x. Inr (RStr x)))"
    using mem_captured [OF m] by (simp add: m)
  then show ?thesis using False s'(1) by (simp add: push_onecapture_def)
qed

lemma each_safe: "(\<And>x. x \<in> set xs \<Longrightarrow> safe Q (f x)) \<Longrightarrow> safe (\<lambda>ys. length ys = length xs \<and> (\<forall>y\<in>set ys. Q y)) (each f xs)"
proof (induction xs)
  case (Cons x xs)
  show ?case
    unfolding each.simps
    by (rule safe_bind [OF Cons.prems], simp, rule safe_bind [OF Cons.IH]) (use Cons.prems in auto)
qed simp

lemma push_captures_safe:
  assumes "valid t ms" and "t \<le> length S" and "\<And>s'. s = Some s' \<Longrightarrow> s' \<le> e \<and> e \<le> length S"
  shows "safe (\<lambda>vs. length vs = (if level ms = 0 \<and> s \<noteq> None then 1 else level ms) \<and> (\<forall>v\<in>set vs. captured S v))
    (push_captures free S ms s e)"
proof -
  let ?n = "if level ms = 0 \<and> s \<noteq> None then 1 else level ms"
  have "safe (\<lambda>vs. length vs = length [0..<?n] \<and> (\<forall>v\<in>set vs. captured S v)) (each (\<lambda>i. push_onecapture S ms i s e) [0..<?n])"
    by (rule each_safe, rule push_onecapture_safe [OF assms(1,2)]) (use assms(3) in \<open>auto split: if_splits\<close>)
  then show ?thesis by (simp add: push_captures_def luaL_checkstack_def Let_def)
qed

text \<open>The matcher, called on captures of an earlier try.\<close>

lemma match_again:
  assumes "length S < 2 ^ 63" and "p \<le> length P" and "s \<le> length S" and "length (capture ms) = LUA_MAXCAPTURES"
  shows "safe (outcome S (\<lambda>cs s t cs'. accepts S P cs s p t cs') (ms\<lparr>level := 0\<rparr>) s) (match S P (ms\<lparr>level := 0\<rparr>) s p)"
  by (rule contractD [OF match_contract [OF assms(1,2)] valid_level0 [OF assms(4)] assms(3)])

definition find_result :: "bool \<Rightarrow> bytes \<Rightarrow> nat \<Rightarrow> retval list \<Rightarrow> bool" where
  "find_result is_find S i vs \<longleftrightarrow> vs = [RNil] \<or>
     (if is_find then \<exists>a e cs. vs = RInt a # RInt e # cs \<and> int i < a \<and> a - 1 \<le> e \<and> e \<le> int (length S) \<and>
        length cs \<le> LUA_MAXCAPTURES \<and> (\<forall>v\<in>set cs. captured S v)
      else vs \<noteq> [] \<and> length vs \<le> LUA_MAXCAPTURES \<and> (\<forall>v\<in>set vs. captured S v))"

lemma find_result_later: "find_result f S j vs \<Longrightarrow> i \<le> j \<Longrightarrow> find_result f S i vs"
  unfolding find_result_def by (cases f) auto

lemma find_loop_safe:
  assumes small: "length S < 2 ^ 63" and p: "p \<le> length P"
  shows "s1 \<le> length S \<Longrightarrow> length (capture ms) = LUA_MAXCAPTURES \<Longrightarrow>
    safe (find_result is_find S s1) (find_loop free is_find S P p anchor ms s1)"
proof (induction "length S - s1" arbitrary: s1 ms rule: less_induct)
  case less
  show ?case
    unfolding find_loop.simps [of free is_find S P p anchor ms s1]
  proof (rule safe_bind [OF match_again [OF small p less.prems]])
    fix x
    assume "outcome S (\<lambda>cs s t cs'. accepts S P cs s p t cs') (ms\<lparr>level := 0\<rparr>) s1 x"
    moreover obtain res ms' where x: "x = (res, ms')" by (cases x)
    ultimately have o: "outcome S (\<lambda>cs s t cs'. accepts S P cs s p t cs') (ms\<lparr>level := 0\<rparr>) s1 (res, ms')" by simp
    show "safe (find_result is_find S s1) (case x of (res, ms) \<Rightarrow> case res of
       Some e \<Rightarrow>
         if is_find then
           rbind (push_captures free S ms None 0) (\<lambda>cs. Inr ([RInt (int s1 + 1), RInt (int e)] @ cs))
         else push_captures free S ms (Some s1) e
     | None \<Rightarrow>
         if s1 < length S \<and> \<not> anchor then find_loop free is_find S P p anchor ms (s1 + 1) else Inr [RNil])"
    proof (cases res)
      case None
      have "safe (find_result is_find S s1) (find_loop free is_find S P p anchor ms' (s1 + 1))" if "s1 < length S"
        by (rule safe_mono [OF less.hyps find_result_later]) (use that outcome_capture [OF o] in auto)
      then show ?thesis using x None by (cases anchor) (simp_all add: find_result_def)
    next
      case (Some e)
      then have v: "s1 \<le> e" "e \<le> length S" "valid e ms'" using o by auto
      have l: "level ms' \<le> LUA_MAXCAPTURES" using v(3) by (simp add: valid_def)
      have 1: "safe (find_result True S s1) (rbind (push_captures free S ms' None 0) (\<lambda>cs. Inr ([RInt (int s1 + 1), RInt (int e)] @ cs)))"
        by (rule safe_bind [OF push_captures_safe [OF v(3,2)]]) (use v l in \<open>auto simp: find_result_def\<close>)
      have 2: "safe (find_result False S s1) (push_captures free S ms' (Some s1) e)"
        by (rule safe_mono [OF push_captures_safe [OF v(3,2)]])
          (use v l in \<open>auto simp: find_result_def LUA_MAXCAPTURES_def split: if_splits\<close>)
      show ?thesis using 1 2 x Some by (cases is_find) auto
    qed
  qed
qed

lemma start_position:
  obtains n where "nat (let init = posrelat (optinteger i 1) l - 1 in
      if init < 0 then 0 else if init > int l then int l else init) = n" and "n \<le> l"
  by (rule that [OF refl]) (auto simp: Let_def)

text \<open>C28. \<open>string.find\<close> and \<open>string.match\<close> give results of the documented types, or a Lua error, and read
  nothing outside their strings, for every subject, pattern and start: one nil, or for \<open>find\<close> the first and last
  position of the match, which lie in the subject and not before the start, and after them (for \<open>match\<close>
  alone) at most 32 captures, each a part of the subject or a position in it.\<close>

theorem find_match_typed:
  assumes "length S < 2 ^ 63"
  shows "case str_find_aux free is_find S P i plain of
      Inr vs \<Rightarrow> find_result is_find S 0 vs
    | Inl e \<Rightarrow> \<exists>m. e = LuaError m"
proof -
  obtain n where n: "nat (let init = posrelat (optinteger i 1) (length S) - 1 in
      if init < 0 then 0 else if init > int (length S) then int (length S) else init) = n" "n \<le> length S"
    by (rule start_position)
  have aux: "str_find_aux free is_find S P i plain =
      (if is_find \<and> (plain \<or> no_specials P) then find_plain S P n else find_pattern free is_find S P n)"
    by (simp only: str_find_aux_def Let_def n(1) [unfolded Let_def])
  obtain c where c: "rd P 0 = Inr c" by (cases P) (auto simp: rd_def)
  have "c = 94 \<Longrightarrow> 1 \<le> length P" using c by (cases P) (auto simp: rd_def)
  then have pat: "safe (find_result is_find S n) (find_pattern free is_find S P n)"
    using find_loop_safe [OF assms, of 1 P n new_match] find_loop_safe [OF assms, of 0 P n new_match] n(2)
    by (simp add: find_pattern_def c new_match_def)
  obtain r where r: "lmemfind S n (length S - n) P = Inr r" "first_at S P n r" using lmemfind_spec [OF n(2)] by blast
  have "safe (find_result True S n) (find_plain S P n)"
    using r by (auto simp: find_plain_def find_result_def first_at_def occurs_def split: option.splits)
  then have "safe (find_result is_find S 0) (str_find_aux free is_find S P i plain)"
    unfolding aux using pat by (auto intro: safe_mono find_result_later)
  then show ?thesis by (simp add: safe_def split: sum.splits)
qed

theorem find_match_typed_witness:
  "str_find_aux 8 True [97, 98, 99] [40, 46, 41, 99] None False = Inr [RInt 2, RInt 3, RStr [98]] \<and>
    find_result True [97, 98, 99] 0 [RInt 2, RInt 3, RStr [98]]"
proof -
  have e: "str_find_aux 8 True [97, 98, 99] [40, 46, 41, 99] None False = Inr [RInt 2, RInt 3, RStr [98]]" by code_simp
  then show ?thesis using find_match_typed [where S = "[97, 98, 99]" and free = 8 and is_find = True
        and P = "[40, 46, 41, 99]" and i = None and plain = False] by simp
qed

section \<open>gmatch\<close>

lemma gmatch_from_safe:
  assumes small: "length S < 2 ^ 63"
  shows "length (capture ms) = LUA_MAXCAPTURES \<Longrightarrow>
    safe (\<lambda>(vs, k). (vs = [] \<and> k = start) \<or> (vs \<noteq> [] \<and> src < k \<and> k \<le> length S + 1 \<and> (\<forall>v\<in>set vs. captured S v)))
      (gmatch_from free S P start ms src)"
proof (induction "length S + 1 - src" arbitrary: src ms rule: less_induct)
  case less
  let ?Q = "\<lambda>src (vs, k). (vs = [] \<and> k = start) \<or> (vs \<noteq> [] \<and> src < k \<and> k \<le> length S + 1 \<and> (\<forall>v\<in>set vs. captured S v))"
  show ?case
  proof (cases "src \<le> length S")
    case True
    have "safe (?Q src) (rbind (match S P (ms\<lparr>level := 0\<rparr>) src 0) (\<lambda>(res, ms).
        case res of
          Some e \<Rightarrow>
            let newstart = (if e = src then e + 1 else e) in
            rbind (push_captures free S ms (Some src) e) (\<lambda>vs. Inr (vs, newstart))
        | None \<Rightarrow> gmatch_from free S P start ms (src + 1)))"
    proof (rule safe_bind [OF match_again [OF small le0 True less.prems]])
      fix x
      assume "outcome S (\<lambda>cs s t cs'. accepts S P cs s 0 t cs') (ms\<lparr>level := 0\<rparr>) src x"
      moreover obtain res ms' where x: "x = (res, ms')" by (cases x)
      ultimately have o: "outcome S (\<lambda>cs s t cs'. accepts S P cs s 0 t cs') (ms\<lparr>level := 0\<rparr>) src (res, ms')" by simp
      show "safe (?Q src) (case x of (res, ms) \<Rightarrow> case res of
          Some e \<Rightarrow>
            let newstart = (if e = src then e + 1 else e) in
            rbind (push_captures free S ms (Some src) e) (\<lambda>vs. Inr (vs, newstart))
        | None \<Rightarrow> gmatch_from free S P start ms (src + 1))"
      proof (cases res)
        case None
        have "safe (?Q src) (gmatch_from free S P start ms' (src + 1))"
          by (rule safe_mono [OF less.hyps]) (use True outcome_capture [OF o] in auto)
        then show ?thesis using x None by simp
      next
        case (Some e)
        then have v: "src \<le> e" "e \<le> length S" "valid e ms'" using o by auto
        have "safe (?Q src) (rbind (push_captures free S ms' (Some src) e) (\<lambda>vs. Inr (vs, if e = src then e + 1 else e)))"
          by (rule safe_bind [OF push_captures_safe [OF v(3,2)]]) (use v in \<open>auto split: if_splits\<close>)
        then show ?thesis using x Some by simp
      qed
    qed
    then show ?thesis unfolding gmatch_from.simps [of free S P start ms src] using True by simp
  qed (simp add: gmatch_from.simps [of free S P start ms src])
qed

text \<open>The iterator of \<open>gmatch\<close> advances: a call that gives values moves the position it keeps
  strictly forward, at most one past the end, so the loop over it ends; a call that finds nothing leaves the position and gives no value; every value is a
  part of the subject or a position in it.\<close>

theorem gmatch_advances:
  assumes "length S < 2 ^ 63"
  shows "case gmatch_aux free S P start of
      Inr (vs, k) \<Rightarrow> (vs = [] \<and> k = start) \<or> (vs \<noteq> [] \<and> start < k \<and> k \<le> length S + 1 \<and> (\<forall>v\<in>set vs. captured S v))
    | Inl e \<Rightarrow> \<exists>m. e = LuaError m"
  using gmatch_from_safe [OF assms, of new_match start start free P]
  by (auto simp: gmatch_aux_def new_match_def safe_def split: sum.splits)

theorem gmatch_advances_witness:
  "gmatch_aux 8 [97, 32, 98] [37, 97, 42] 1 = Inr ([RStr []], 2) \<and> (1::nat) < 2"
proof -
  have e: "gmatch_aux 8 [97, 32, 98] [37, 97, 42] 1 = Inr ([RStr []], 2)" by code_simp
  then show ?thesis
    using gmatch_advances [where S = "[97, 32, 98]" and free = 8 and P = "[37, 97, 42]" and start = 1] by simp
qed

section \<open>gsub\<close>

lemma add_s_safe:
  "valid t ms \<Longrightarrow> t \<le> length S \<Longrightarrow> s \<le> e \<Longrightarrow> e \<le> length S \<Longrightarrow> safe (\<lambda>b. True) (add_s S ms s e R)"
proof (induction S ms s e R rule: add_s.induct)
  case (3 S ms s e c d news)
  have "safe (\<lambda>b. True) (push_onecapture S ms (nat (uint d - 49)) (Some s) e)"
    by (rule safe_mono [OF push_onecapture_safe [OF "3.prems"(1,2)]]) (use "3.prems" in auto)
  then have arg: "safe (\<lambda>b. True) (if \<not> isdigit (uint d) then Inr [d] else if d = 48 then mem S s (e - s)
      else rbind (push_onecapture S ms (nat (uint d - 49)) (Some s) e) (\<lambda>v. Inr (addvalue v)))"
    using "3.prems" by (auto simp: mem_def intro: safe_bind)
  have "safe (\<lambda>b. True) (rbind (if \<not> isdigit (uint d) then Inr [d] else if d = 48 then mem S s (e - s)
      else rbind (push_onecapture S ms (nat (uint d - 49)) (Some s) e) (\<lambda>v. Inr (addvalue v)))
      (\<lambda>a. rbind (add_s S ms s e news) (\<lambda>b. Inr (a @ b))))" if c: "c = L_ESC"
  proof (rule safe_bind [OF arg])
    fix a
    assume a: "(if \<not> isdigit (uint d) then Inr [d] else if d = 48 then mem S s (e - s)
      else rbind (push_onecapture S ms (nat (uint d - 49)) (Some s) e) (\<lambda>v. Inr (addvalue v))) = Inr a"
    show "safe (\<lambda>b. True) (rbind (add_s S ms s e news) (\<lambda>b. Inr (a @ b)))"
      by (rule safe_bind [OF "3.IH"(2) [OF _ a]]) (use "3.prems" c in auto)
  qed
  moreover have "safe (\<lambda>b. True) (rbind (add_s S ms s e (d # news)) (\<lambda>b. Inr (c # b)))" if "c \<noteq> L_ESC"
    by (rule safe_bind [OF "3.IH"(1)]) (use "3.prems" that in auto)
  ultimately show ?case by (cases "c = L_ESC") (simp_all only: add_s.simps simp_thms if_True if_False)
qed auto

lemma add_s_whole: "s \<le> e \<Longrightarrow> e \<le> length S \<Longrightarrow> add_s S ms s e [L_ESC, 48] = Inr (take (e - s) (drop s S))"
  by (simp add: isdigit_def mem_def)

lemma gsub_loop_safe:
  "length S < 2 ^ 63 \<Longrightarrow> p \<le> length P \<Longrightarrow> length (capture ms) = LUA_MAXCAPTURES \<Longrightarrow> src \<le> length S \<Longrightarrow>
    safe (\<lambda>(b', m). n \<le> m \<and> (R = [L_ESC, 48] \<longrightarrow> b' = b @ drop src S)) (gsub_loop S P p R anchor max_s n ms src b)"
proof (induction S P p R anchor max_s n ms src b rule: gsub_loop.induct)
  case (1 S P p R anchor max_s n ms src b)
  let ?Q = "\<lambda>n src b (b', m). n \<le> m \<and> (R = [L_ESC, 48] \<longrightarrow> b' = b @ drop src S)"
  have fin: "safe (?Q n src b) (gsub_end S n src b)" if "src \<le> length S" for n src b
    using that by (simp add: gsub_end_def mem_def)
  show ?case
  proof (cases "n < max_s")
    case n: True
    have "safe (?Q n src b) (rbind (match S P (ms\<lparr>level := 0\<rparr>) src p) (\<lambda>(res, ms).
        rbind (case res of Some e \<Rightarrow> rbind (add_s S ms src e R) (\<lambda>v. Inr (n + 1, b @ v)) | None \<Rightarrow> Inr (n, b))
        (\<lambda>(n, b).
        if res \<noteq> None \<and> the res > src then
          if anchor then gsub_end S n (the res) b else gsub_loop S P p R anchor max_s n ms (the res) b
        else if src < length S then
          rbind (rd S src) (\<lambda>c.
          if anchor then gsub_end S n (src + 1) (b @ [c])
          else gsub_loop S P p R anchor max_s n ms (src + 1) (b @ [c]))
        else gsub_end S n src b)))"
    proof (rule safe_bind [OF match_again [OF "1.prems"(1,2,4,3)]])
      fix x
      assume m: "match S P (ms\<lparr>level := 0\<rparr>) src p = Inr x"
        and "outcome S (\<lambda>cs s t cs'. accepts S P cs s p t cs') (ms\<lparr>level := 0\<rparr>) src x"
      moreover obtain res ms' where x: "x = (res, ms')" by (cases x)
      ultimately have o: "outcome S (\<lambda>cs s t cs'. accepts S P cs s p t cs') (ms\<lparr>level := 0\<rparr>) src (res, ms')" by simp
      let ?r = "case res of Some e \<Rightarrow> rbind (add_s S ms' src e R) (\<lambda>v. Inr (n + 1, b @ v)) | None \<Rightarrow> Inr (n, b)"
      let ?P = "\<lambda>(n', b'). n \<le> n' \<and> (R = [L_ESC, 48] \<longrightarrow> b' = (case res of Some e \<Rightarrow> b @ take (e - src) (drop src S) | None \<Rightarrow> b))"
      have e: "src \<le> e \<and> e \<le> length S \<and> valid e ms'" if "res = Some e" for e using o that by auto
      have r: "safe ?P ?r"
      proof (cases res)
        case (Some e')
        have "safe (\<lambda>v. R = [L_ESC, 48] \<longrightarrow> v = take (e' - src) (drop src S)) (add_s S ms' src e' R)"
          using add_s_safe [of e' ms' S src e' R] add_s_whole [of src e' S ms'] e [OF Some]
          by (cases "R = [L_ESC, 48]") auto
        then show ?thesis using Some by (auto intro: safe_bind)
      qed simp
      show "safe (?Q n src b) (case x of (res, ms) \<Rightarrow>
        rbind (case res of Some e \<Rightarrow> rbind (add_s S ms src e R) (\<lambda>v. Inr (n + 1, b @ v)) | None \<Rightarrow> Inr (n, b))
        (\<lambda>(n, b).
        if res \<noteq> None \<and> the res > src then
          if anchor then gsub_end S n (the res) b else gsub_loop S P p R anchor max_s n ms (the res) b
        else if src < length S then
          rbind (rd S src) (\<lambda>c.
          if anchor then gsub_end S n (src + 1) (b @ [c])
          else gsub_loop S P p R anchor max_s n ms (src + 1) (b @ [c]))
        else gsub_end S n src b))"
        unfolding x prod.case
      proof (rule safe_bind [OF r])
        fix y
        assume y: "?r = Inr y" "?P y"
        obtain n' b' where nb: "y = (n', b')" by (cases y)
        show "safe (?Q n src b) (case y of (n, b) \<Rightarrow>
        if res \<noteq> None \<and> the res > src then
          if anchor then gsub_end S n (the res) b else gsub_loop S P p R anchor max_s n ms' (the res) b
        else if src < length S then
          rbind (rd S src) (\<lambda>c.
          if anchor then gsub_end S n (src + 1) (b @ [c])
          else gsub_loop S P p R anchor max_s n ms' (src + 1) (b @ [c]))
        else gsub_end S n src b)"
          unfolding nb prod.case
        proof (cases "res \<noteq> None \<and> the res > src")
          case c: True
          then obtain e' where e': "res = Some e'" "src < e'" by auto
          have b': "n \<le> n'" "R = [L_ESC, 48] \<Longrightarrow> b' @ drop e' S = b @ drop src S"
            using y(2) e' by (auto simp: nb) (metis add_diff_inverse_nat append_take_drop_id drop_drop less_imp_le_nat not_le add.commute)
          have "safe (?Q n' e' b') (gsub_loop S P p R anchor max_s n' ms' e' b')" if "\<not> anchor"
            using "1.IH"(1) [OF n m x [symmetric] y(1) nb [symmetric] c that "1.prems"(1,2)] e [OF e'(1)] outcome_capture [OF o] e'
            by simp
          then have "safe (?Q n' e' b') (if anchor then gsub_end S n' e' b' else gsub_loop S P p R anchor max_s n' ms' e' b')"
            using fin [of e' n' b'] e [OF e'(1)] by simp
          then have "safe (?Q n src b) (if anchor then gsub_end S n' e' b' else gsub_loop S P p R anchor max_s n' ms' e' b')"
            by (rule safe_mono) (use b' in auto)
          then show "safe (?Q n src b) (if res \<noteq> None \<and> the res > src then
              if anchor then gsub_end S n' (the res) b' else gsub_loop S P p R anchor max_s n' ms' (the res) b'
            else if src < length S then rbind (rd S src) (\<lambda>c. if anchor then gsub_end S n' (src + 1) (b' @ [c])
              else gsub_loop S P p R anchor max_s n' ms' (src + 1) (b' @ [c]))
            else gsub_end S n' src b')" using e' by (cases anchor) simp_all
        next
          case c: False
          then have b': "n \<le> n'" "R = [L_ESC, 48] \<Longrightarrow> b' = b" using y(2) e by (auto simp: nb split: option.splits)
          have "safe (?Q n src b) (rbind (rd S src) (\<lambda>c. if anchor then gsub_end S n' (src + 1) (b' @ [c])
              else gsub_loop S P p R anchor max_s n' ms' (src + 1) (b' @ [c])))" if s: "src < length S"
          proof -
            have r: "rd S src = Inr (S ! src)" using s by (simp add: rd_def)
            have "safe (?Q n' (src + 1) (b' @ [S ! src])) (gsub_loop S P p R anchor max_s n' ms' (src + 1) (b' @ [S ! src]))"
              if "\<not> anchor"
              using "1.IH"(2) [OF n m x [symmetric] y(1) nb [symmetric] c s r that "1.prems"(1,2)] outcome_capture [OF o] s by simp
            then have "safe (?Q n' (src + 1) (b' @ [S ! src])) (if anchor then gsub_end S n' (src + 1) (b' @ [S ! src])
                else gsub_loop S P p R anchor max_s n' ms' (src + 1) (b' @ [S ! src]))"
              using fin [of "src + 1" n' "b' @ [S ! src]"] s by simp
            then have "safe (?Q n src b) (if anchor then gsub_end S n' (src + 1) (b' @ [S ! src])
                else gsub_loop S P p R anchor max_s n' ms' (src + 1) (b' @ [S ! src]))"
              by (rule safe_mono) (use b' s in \<open>auto simp: Cons_nth_drop_Suc\<close>)
            then show ?thesis by (simp add: r)
          qed
          moreover have "safe (?Q n src b) (gsub_end S n' src b')"
            by (rule safe_mono [OF fin]) (use "1.prems" b' in auto)
          ultimately show "safe (?Q n src b) (if res \<noteq> None \<and> the res > src then
              if anchor then gsub_end S n' (the res) b' else gsub_loop S P p R anchor max_s n' ms' (the res) b'
            else if src < length S then rbind (rd S src) (\<lambda>c. if anchor then gsub_end S n' (src + 1) (b' @ [c])
              else gsub_loop S P p R anchor max_s n' ms' (src + 1) (b' @ [c]))
            else gsub_end S n' src b')" unfolding if_not_P [OF c] by (cases "src < length S") (simp_all only: if_True if_False)
        qed
      qed
    qed
    then show ?thesis unfolding gsub_loop.simps [of S P p R anchor max_s n ms src b] using n by simp
  next
    case False
    then show ?thesis using fin "1.prems" by (simp add: gsub_loop.simps [of S P p R anchor max_s n ms src b])
  qed
qed

lemma str_gsub_safe:
  assumes "length S < 2 ^ 63"
  shows "safe (\<lambda>(b, n). 0 \<le> n \<and> (R = [L_ESC, 48] \<longrightarrow> b = S)) (str_gsub S P R i)"
proof -
  obtain c where c: "rd P 0 = Inr c" by (cases P) (auto simp: rd_def)
  have "c = 94 \<Longrightarrow> 1 \<le> length P" using c by (cases P) (auto simp: rd_def)
  then show ?thesis
    using gsub_loop_safe [OF assms, of 1 P new_match 0 0 R "[]"] gsub_loop_safe [OF assms, of 0 P new_match 0 0 R "[]"]
    by (simp add: str_gsub_def Let_def c new_match_def)
qed

text \<open>\<open>string.gsub\<close> with the replacement \<open>%0\<close> gives the subject back, whatever the pattern and the limit
  on the number of replacements: matches and the text between them are copied without loss, overlap or change of
  order. With any replacement string it ends, and reads nothing outside its strings.\<close>

theorem gsub_whole_match_identity:
  assumes "length S < 2 ^ 63"
  shows "(case str_gsub S P [L_ESC, 48] i of Inr (b, n) \<Rightarrow> b = S \<and> 0 \<le> n | Inl e \<Rightarrow> \<exists>m. e = LuaError m) \<and>
    (case str_gsub S P R i of Inr x \<Rightarrow> True | Inl e \<Rightarrow> \<exists>m. e = LuaError m)"
  using str_gsub_safe [OF assms, of "[L_ESC, 48]" P i] str_gsub_safe [OF assms, of R P i]
  by (auto simp: safe_def split: sum.splits)

theorem gsub_whole_match_identity_witness:
  "str_gsub [97, 98, 97, 99] [97, 46] [37, 48] None = Inr ([97, 98, 97, 99], 2)"
proof -
  have "case str_gsub [97, 98, 97, 99] [97, 46] [37, 48] None of Inr (b, n) \<Rightarrow> n = 2 | Inl e \<Rightarrow> False" by code_simp
  then show ?thesis
    using gsub_whole_match_identity [where S = "[97, 98, 97, 99]" and P = "[97, 46]" and i = None and R = "[]"]
    by (auto simp: L_ESC_def split: sum.splits)
qed

section \<open>Bytes\<close>

lemma str_char_bytes: "str_char (map uint b) = Inr b"
  by (induction b) (simp_all)

lemma sint_of_int_le: "0 \<le> k \<Longrightarrow> sint (of_int k :: u32) \<le> k"
  using signed_take_bit_int_greater_self_iff [of k 31] by (simp add: signed_of_int not_less [symmetric])

lemma reverse_from_rev: "n \<le> length s \<Longrightarrow> reverse_from s n = rev (take n s)"
  by (induction n) (simp_all add: take_Suc_conv_app_nth)

text \<open>\<open>string.byte\<close> and \<open>string.char\<close> are inverse on every range of positions, counted from either end and cut to the
  string: the bytes of the range, made a string again, are what \<open>string.sub\<close> gives for it; the
  one other outcome is an error when the range holds \<open>2 ^ 31\<close> bytes or more than the stack can take.\<close>

theorem byte_char_sub:
  assumes "str_byte free s (Some i) (Some j) = Inr bs"
  shows "str_char bs = str_sub s i (Some j)"
proof -
  let ?l = "length s"
  let ?a = "if posrelat i ?l \<le> 0 then 1 else posrelat i ?l"
  let ?b = "if posrelat j ?l > int ?l then int ?l else posrelat j ?l"
  have sub: "str_sub s i (Some j) = (if ?a \<le> ?b then mem s (nat (?a - 1)) (nat (?b - ?a + 1)) else Inr [])"
    by (simp add: str_sub_def optinteger_def Let_def)
  show ?thesis
  proof (cases "?a > ?b")
    case True
    then show ?thesis using assms sub by (simp add: str_byte_def optinteger_def Let_def)
  next
    case False
    let ?n = "sint (of_int (?b - ?a + 1) :: u32)"
    have r: "\<not> ?a + ?n \<le> ?b" "\<exists>x. mem s (nat (?a - 1)) (nat ?n) = Inr x \<and> bs = map uint x"
      using assms False by (auto simp: str_byte_def optinteger_def Let_def luaL_error_def rbind_eq_Inr split: if_splits)
    have "?n \<le> ?b - ?a + 1" by (rule sint_of_int_le) (use False in linarith)
    then have n: "?n = ?b - ?a + 1" using r(1) by linarith
    then obtain x where "mem s (nat (?a - 1)) (nat (?b - ?a + 1)) = Inr x" "bs = map uint x" using r(2) by metis
    then show ?thesis using sub False str_char_bytes by simp
  qed
qed

theorem byte_char_sub_witness:
  "str_byte 10 [104, 101, 108, 108, 111] (Some 2) (Some (- 2)) = Inr [101, 108, 108] \<and>
    str_char [101, 108, 108] = str_sub [104, 101, 108, 108, 111] 2 (Some (- 2))"
proof -
  have e: "str_byte 10 [104, 101, 108, 108, 111] (Some 2) (Some (- 2)) = Inr [101, 108, 108]" by code_simp
  then show ?thesis using byte_char_sub [OF e] by simp
qed

end
