(* ===== verification/LuaTable.thy ===== *)
theory LuaTable
  imports LuaObject
begin

text \<open>
  ltable.c of Lua (with Table and Node of lobject.h and the string hash of lstring.c): tables
  with an array part and a hash part, a chained scatter table with Brent's variation.

  A node pointer is an index into the vector of nodes, \<open>dummynode\<close> is the vector that is not there;
  the pointer to a value that the access functions return is a slot (\<open>None\<close> for
  \<open>luaO_nilobject\<close>). A walk along \<open>next\<close> that visits more nodes than there are is on a cycle and
  never ends: the fault \<open>Spins\<close>. Dead keys, which only the collector makes, and the memory of the
  vectors are left out.
\<close>

section \<open>Tables\<close>

record Node =
  i_val :: TValue
  i_key :: TValue
  i_next :: "nat option"

definition dummynode :: Node where
  "dummynode = \<lparr>i_val = TNil, i_key = TNil, i_next = None\<rparr>"

record Table =
  flags :: u8
  lsizenode :: nat
  metatable :: "addr option"
  array :: "TValue list"
  node :: "Node list option"
  lastfree :: int

definition MAXBITS :: nat where "MAXBITS = 26"
definition MAXASIZE :: nat where "MAXASIZE = 2 ^ MAXBITS"

definition sizenode :: "Table \<Rightarrow> nat" where
  "sizenode t = 2 ^ lsizenode t"

definition gnodes :: "Table \<Rightarrow> Node list" where
  "gnodes t = (case node t of None \<Rightarrow> [dummynode] | Some ns \<Rightarrow> ns)"

datatype slot = ArraySlot nat | NodeSlot nat

fun slot_value :: "Table \<Rightarrow> slot \<Rightarrow> TValue" where
  "slot_value t (ArraySlot i) = array t ! i"
| "slot_value t (NodeSlot i) = i_val (gnodes t ! i)"

definition value_at :: "Table \<Rightarrow> slot option \<Rightarrow> TValue" where
  "value_at t p = (case p of None \<Rightarrow> TNil | Some s \<Rightarrow> slot_value t s)"

text \<open>\<open>setobj\<close> through the pointer a setter returned.\<close>

fun setobj2t :: "Table \<Rightarrow> slot \<Rightarrow> TValue \<Rightarrow> Table" where
  "setobj2t t (ArraySlot i) v = t\<lparr>array := (array t)[i := v]\<rparr>"
| "setobj2t t (NodeSlot i) v = t\<lparr>node := Some ((gnodes t)[i := (gnodes t ! i)\<lparr>i_val := v\<rparr>])\<rparr>"

section \<open>Hashing\<close>

function hash_string_loop :: "bytes \<Rightarrow> nat \<Rightarrow> nat \<Rightarrow> u32 \<Rightarrow> u32" where
  "hash_string_loop str step l1 h =
     (if step = 0 \<or> l1 < step then h
      else hash_string_loop str step (l1 - step)
        (h XOR (push_bit 5 h + drop_bit 2 h + ucast (str ! (l1 - 1)))))"
  by auto
termination by (relation "measure (\<lambda>(str, step, l1, h). l1)") auto

declare hash_string_loop.simps [simp del]

definition hash_string :: "bytes \<Rightarrow> u32" where
  "hash_string str =
     (let l = length str in hash_string_loop str (l div 32 + 1) l (of_nat l))"

definition hashpow2 :: "Table \<Rightarrow> u32 \<Rightarrow> nat" where
  "hashpow2 t n = unat (n AND (of_nat (sizenode t) - 1))"

definition hashmod :: "Table \<Rightarrow> u32 \<Rightarrow> nat" where
  "hashmod t n = unat (n mod ((of_nat (sizenode t) - 1) OR 1))"

definition hashnum :: "Table \<Rightarrow> double \<Rightarrow> nat" where
  "hashnum t n = (if dbl_eq n 0 then 0 else hashmod t (ucast n + ucast (drop_bit 32 n)))"

text \<open>The switch on the type of a key; nil has no main position and is never asked for one.\<close>

fun mainposition :: "Table \<Rightarrow> TValue \<Rightarrow> nat" where
  "mainposition t (TNumber n) = hashnum t n"
| "mainposition t (TString s) = hashpow2 t (hash_string s)"
| "mainposition t (TBoolean b) = hashpow2 t b"
| "mainposition t (TLightUserdata p) = hashmod t (of_nat p)"
| "mainposition t (TTable p) = hashmod t (of_nat p)"
| "mainposition t (TFunction p) = hashmod t (of_nat p)"
| "mainposition t (TUserdata p) = hashmod t (of_nat p)"
| "mainposition t (TThread p) = hashmod t (of_nat p)"
| "mainposition t TNil = 0"

definition arrayindex :: "TValue \<Rightarrow> int" where
  "arrayindex key =
     (case key of
        TNumber n \<Rightarrow> (let k = sint (double_to_s32 n) in if dbl_eq (int_to_double k) n then k else - 1)
      | _ \<Rightarrow> - 1)"

section \<open>Searching\<close>

fun chain_search :: "nat \<Rightarrow> (TValue \<Rightarrow> bool) \<Rightarrow> Node list \<Rightarrow> nat \<Rightarrow> nat option result" where
  "chain_search 0 P ns i = Inl Spins"
| "chain_search (Suc f) P ns i =
     (if \<not> i < length ns then Inl InvalidPointer
      else if P (i_key (ns ! i)) then Inr (Some i)
      else (case i_next (ns ! i) of None \<Rightarrow> Inr None | Some j \<Rightarrow> chain_search f P ns j))"

definition search_from :: "Table \<Rightarrow> nat \<Rightarrow> (TValue \<Rightarrow> bool) \<Rightarrow> slot option result" where
  "search_from t n P =
     rbind (chain_search (length (gnodes t)) P (gnodes t) n) (\<lambda>r. Inr (map_option NodeSlot r))"

definition luaH_getnum :: "Table \<Rightarrow> u32 \<Rightarrow> slot option result" where
  "luaH_getnum t key =
     (if key - 1 < of_nat (length (array t)) then Inr (Some (ArraySlot (unat (key - 1))))
      else let nk = int_to_double (sint key) in
        search_from t (hashnum t nk) (\<lambda>k. case k of TNumber n \<Rightarrow> dbl_eq n nk | _ \<Rightarrow> False))"

definition luaH_getstr :: "Table \<Rightarrow> bytes \<Rightarrow> slot option result" where
  "luaH_getstr t key = search_from t (hashpow2 t (hash_string key)) (\<lambda>k. k = TString key)"

definition luaH_get :: "Table \<Rightarrow> TValue \<Rightarrow> slot option result" where
  "luaH_get t key =
     (let general = search_from t (mainposition t key) (\<lambda>k. luaO_rawequalObj k key) in
      case key of
        TNil \<Rightarrow> Inr None
      | TString s \<Rightarrow> luaH_getstr t s
      | TNumber n \<Rightarrow>
          (let k = double_to_s32 n in
           if dbl_eq (int_to_double (sint k)) n then luaH_getnum t k else general)
      | _ \<Rightarrow> general)"

section \<open>Traversal\<close>

definition findindex :: "Table \<Rightarrow> TValue \<Rightarrow> int result" where
  "findindex t key =
     (if key = TNil then Inr (- 1)
      else let i = arrayindex key in
        if 0 < i \<and> i \<le> int (length (array t)) then Inr (i - 1)
        else rbind (search_from t (mainposition t key) (\<lambda>k. luaO_rawequalObj k key))
          (\<lambda>r. case r of
             Some (NodeSlot n) \<Rightarrow> Inr (int n + int (length (array t)))
           | _ \<Rightarrow> Inl (LuaError ''invalid key to 'next' '')))"

fun next_in_array :: "TValue list \<Rightarrow> nat \<Rightarrow> (TValue \<times> TValue) option" where
  "next_in_array [] i = None"
| "next_in_array (v # vs) i =
     (if v \<noteq> TNil then Some (TNumber (int_to_double (int i + 1)), v) else next_in_array vs (i + 1))"

fun next_in_nodes :: "Node list \<Rightarrow> (TValue \<times> TValue) option" where
  "next_in_nodes [] = None"
| "next_in_nodes (n # ns) = (if i_val n \<noteq> TNil then Some (i_key n, i_val n) else next_in_nodes ns)"

definition luaH_next :: "Table \<Rightarrow> TValue \<Rightarrow> (TValue \<times> TValue) option result" where
  "luaH_next t key =
     rbind (findindex t key) (\<lambda>i.
       let i = nat (i + 1) in
       case next_in_array (drop i (array t)) i of
         Some r \<Rightarrow> Inr (Some r)
       | None \<Rightarrow> Inr (next_in_nodes (drop (i - length (array t)) (gnodes t))))"

section \<open>Rehash\<close>

text \<open>
  \<open>computesizes\<close>: \<open>nums ! i\<close> is the number of candidate keys above \<open>2 ^ (i - 1)\<close> and up to \<open>2 ^ i\<close>;
  the loop with \<open>i\<close>, \<open>twotoi\<close>, \<open>a\<close>, \<open>na\<close> and \<open>n\<close> walks down the list.
\<close>

fun computesizes_loop :: "nat \<Rightarrow> nat list \<Rightarrow> nat \<Rightarrow> nat \<Rightarrow> nat \<Rightarrow> nat \<Rightarrow> (nat \<times> nat) result" where
  "computesizes_loop narray nums twotoi a na n =
     (if twotoi div 2 < narray then
        (case nums of
           [] \<Rightarrow> Inl InvalidPointer
         | x # nums' \<Rightarrow>
             (let (a, na, n) =
                (if x > 0 then
                   (let a = a + x in if a > twotoi div 2 then (a, a, twotoi) else (a, na, n))
                 else (a, na, n))
              in if a = narray then Inr (na, n)
                 else computesizes_loop narray nums' (2 * twotoi) a na n))
      else Inr (na, n))"

declare computesizes_loop.simps [simp del]

text \<open>The result and the new \<open>*narray\<close>.\<close>

definition computesizes :: "nat list \<Rightarrow> nat \<Rightarrow> (nat \<times> nat) result" where
  "computesizes nums narray = computesizes_loop narray nums 1 0 0 0"

definition countint :: "TValue \<Rightarrow> nat list \<Rightarrow> nat list \<times> nat" where
  "countint key nums =
     (let k = arrayindex key in
      if 0 < k \<and> k \<le> int MAXASIZE
      then (let i = nat (ceillog2 (of_int k)) in (nums[i := nums ! i + 1], 1))
      else (nums, 0))"

text \<open>\<open>for (; i <= lim; i++) if (!ttisnil(&t->array[i-1])) lc++;\<close>\<close>

definition count_slice :: "TValue list \<Rightarrow> nat \<Rightarrow> nat \<Rightarrow> nat" where
  "count_slice arr i lim = length (filter (\<lambda>v. v \<noteq> TNil) (take (lim + 1 - i) (drop (i - 1) arr)))"

fun numusearray_loop :: "TValue list \<Rightarrow> nat list \<Rightarrow> nat \<Rightarrow> nat list \<Rightarrow> nat \<Rightarrow> nat list \<times> nat" where
  "numusearray_loop arr [] i nums ause = (nums, ause)"
| "numusearray_loop arr (lg # lgs) i nums ause =
     (let ttlg = 2 ^ lg; lim = (if ttlg > length arr then length arr else ttlg) in
      if ttlg > length arr \<and> i > lim then (nums, ause)
      else let lc = count_slice arr i lim in
        numusearray_loop arr lgs (max i (lim + 1)) (nums[lg := nums ! lg + lc]) (ause + lc))"

definition numusearray :: "Table \<Rightarrow> nat list \<Rightarrow> nat list \<times> nat" where
  "numusearray t nums = numusearray_loop (array t) [0..<MAXBITS + 1] 1 nums 0"

definition numusehash_step :: "Node \<Rightarrow> nat list \<times> nat \<times> nat \<Rightarrow> nat list \<times> nat \<times> nat" where
  "numusehash_step n = (\<lambda>(nums, ause, totaluse).
     if i_val n \<noteq> TNil then
       (let (nums, c) = countint (i_key n) nums in (nums, ause + c, totaluse + 1))
     else (nums, ause, totaluse))"

text \<open>From the last node to the first.\<close>

definition numusehash :: "Table \<Rightarrow> nat list \<Rightarrow> nat list \<times> nat \<times> nat" where
  "numusehash t nums = foldr numusehash_step (gnodes t) (nums, 0, 0)"

definition setarrayvector :: "Table \<Rightarrow> nat \<Rightarrow> Table" where
  "setarrayvector t n = t\<lparr>array := take n (array t) @ replicate (n - length (array t)) TNil\<rparr>"

definition setnodevector :: "Table \<Rightarrow> nat \<Rightarrow> Table result" where
  "setnodevector t n =
     (if n = 0 then Inr (t\<lparr>node := None, lsizenode := 0, lastfree := 0\<rparr>)
      else let lsize = ceillog2 (of_nat n) in
        if lsize > int MAXBITS then Inl (LuaError ''table overflow'')
        else let size = 2 ^ nat lsize in
          Inr (t\<lparr>node := Some (replicate size dummynode), lsizenode := nat lsize, lastfree := int size\<rparr>))"

text \<open>
  Inserting into a table may rehash it, which inserts into the table again; \<open>nk\<close> is the
  insertion of a new key that the inner calls use.
\<close>

type_synonym key_inserter = "Table \<Rightarrow> TValue \<Rightarrow> (Table \<times> slot) result"

definition set_with :: "key_inserter \<Rightarrow> Table \<Rightarrow> TValue \<Rightarrow> (Table \<times> slot) result" where
  "set_with nk t key =
     rbind (luaH_get t key) (\<lambda>p.
       let t = t\<lparr>flags := 0\<rparr> in
       case p of
         Some s \<Rightarrow> Inr (t, s)
       | None \<Rightarrow>
           (case key of
              TNil \<Rightarrow> Inl (LuaError ''table index is nil'')
            | TNumber n \<Rightarrow> (if \<not> dbl_eq n n then Inl (LuaError ''table index is NaN'') else nk t key)
            | _ \<Rightarrow> nk t key))"

definition setnum_with :: "key_inserter \<Rightarrow> Table \<Rightarrow> u32 \<Rightarrow> (Table \<times> slot) result" where
  "setnum_with nk t key =
     rbind (luaH_getnum t key) (\<lambda>p.
       case p of
         Some s \<Rightarrow> Inr (t, s)
       | None \<Rightarrow> nk t (TNumber (int_to_double (sint key))))"

definition put_num :: "key_inserter \<Rightarrow> nat \<times> TValue \<Rightarrow> Table \<Rightarrow> Table result" where
  "put_num nk = (\<lambda>(i, v) t.
     if v \<noteq> TNil then rbind (setnum_with nk t (of_nat (i + 1))) (\<lambda>(t, s). Inr (setobj2t t s v))
     else Inr t)"

definition put_node :: "key_inserter \<Rightarrow> Node \<Rightarrow> Table \<Rightarrow> Table result" where
  "put_node nk old t =
     (if i_val old \<noteq> TNil
      then rbind (set_with nk t (i_key old)) (\<lambda>(t, s). Inr (setobj2t t s (i_val old)))
      else Inr t)"

fun rfold :: "('a \<Rightarrow> 's \<Rightarrow> 's result) \<Rightarrow> 'a list \<Rightarrow> 's \<Rightarrow> 's result" where
  "rfold f [] s = Inr s"
| "rfold f (x # xs) s = rbind (f x s) (rfold f xs)"

definition resize_with :: "key_inserter \<Rightarrow> Table \<Rightarrow> nat \<Rightarrow> nat \<Rightarrow> Table result" where
  "resize_with nk t nasize nhsize =
     (let oldarray = array t; oldasize = length oldarray; nold = gnodes t;
          t = (if nasize > oldasize then setarrayvector t nasize else t) in
      rbind (setnodevector t nhsize) (\<lambda>t.
      rbind (if nasize < oldasize
             then rfold (put_num nk) (zip [nasize..<oldasize] (drop nasize oldarray))
                    (t\<lparr>array := take nasize oldarray\<rparr>)
             else Inr t)
        (rfold (put_node nk) (rev nold))))"

definition rehash_with :: "key_inserter \<Rightarrow> Table \<Rightarrow> TValue \<Rightarrow> Table result" where
  "rehash_with nk t ek =
     (let nums = replicate (MAXBITS + 1) 0;
          (nums, nasize) = numusearray t nums;
          totaluse = nasize;
          (nums, ause, use) = numusehash t nums;
          nasize = nasize + ause;
          totaluse = totaluse + use;
          (nums, c) = countint ek nums;
          nasize = nasize + c;
          totaluse = totaluse + 1 in
      rbind (computesizes nums nasize) (\<lambda>(na, nasize).
        resize_with nk t nasize (totaluse - na)))"

section \<open>Inserting\<close>

text \<open>\<open>while (t->lastfree-- > t->node)\<close>: the free node found, and the table with its \<open>lastfree\<close>.\<close>

fun getfreepos_loop :: "Node list \<Rightarrow> nat \<Rightarrow> int \<times> nat option" where
  "getfreepos_loop ns 0 = (- 1, None)"
| "getfreepos_loop ns (Suc i) = (if i_key (ns ! i) = TNil then (int i, Some i) else getfreepos_loop ns i)"

definition getfreepos :: "Table \<Rightarrow> Table \<times> nat option" where
  "getfreepos t =
     (if lastfree t > 0
      then (let (l, r) = getfreepos_loop (gnodes t) (nat (lastfree t)) in (t\<lparr>lastfree := l\<rparr>, r))
      else (t\<lparr>lastfree := lastfree t - 1\<rparr>, None))"

text \<open>\<open>while (gnext(othern) != mp) othern = gnext(othern);\<close>\<close>

fun find_previous :: "nat \<Rightarrow> Node list \<Rightarrow> nat \<Rightarrow> nat \<Rightarrow> nat result" where
  "find_previous 0 ns mp othern = Inl Spins"
| "find_previous (Suc f) ns mp othern =
     (if \<not> othern < length ns then Inl InvalidPointer
      else case i_next (ns ! othern) of
        None \<Rightarrow> Inl InvalidPointer
      | Some j \<Rightarrow> if j = mp then Inr othern else find_previous f ns mp j)"

definition set_key :: "Node list \<Rightarrow> nat \<Rightarrow> TValue \<Rightarrow> Node list" where
  "set_key ns i key = ns[i := (ns ! i)\<lparr>i_key := key\<rparr>]"

definition set_next :: "Node list \<Rightarrow> nat \<Rightarrow> nat option \<Rightarrow> Node list" where
  "set_next ns i j = ns[i := (ns ! i)\<lparr>i_next := j\<rparr>]"

text \<open>The two ways to place a key whose main position \<open>mp\<close> is taken, with the free node \<open>n\<close>.\<close>

definition move_colliding :: "Node list \<Rightarrow> nat \<Rightarrow> nat \<Rightarrow> nat \<Rightarrow> Node list" where
  "move_colliding ns othern mp n =
     (let ns = set_next ns othern (Some n);
          ns = ns[n := ns ! mp] in
      ns[mp := (ns ! mp)\<lparr>i_next := None, i_val := TNil\<rparr>])"

definition chain_free :: "Node list \<Rightarrow> nat \<Rightarrow> nat \<Rightarrow> Node list" where
  "chain_free ns mp n =
     (let ns = set_next ns n (i_next (ns ! mp)) in set_next ns mp (Some n))"

definition newkey_with :: "(Table \<Rightarrow> TValue \<Rightarrow> (Table \<times> slot) result) \<Rightarrow> Table \<Rightarrow> TValue \<Rightarrow> (Table \<times> slot) result" where
  "newkey_with grow t key =
     (let mp = mainposition t key in
      if i_val (gnodes t ! mp) \<noteq> TNil \<or> node t = None then
        (case getfreepos t of
           (t, None) \<Rightarrow> grow t key
         | (t, Some n) \<Rightarrow>
             (let ns = gnodes t; othern = mainposition t (i_key (ns ! mp)) in
              if othern \<noteq> mp then
                rbind (find_previous (length ns) ns mp othern) (\<lambda>othern.
                  Inr (t\<lparr>node := Some (set_key (move_colliding ns othern mp n) mp key)\<rparr>, NodeSlot mp))
              else Inr (t\<lparr>node := Some (set_key (chain_free ns mp n) n key)\<rparr>, NodeSlot n)))
      else Inr (t\<lparr>node := Some (set_key (gnodes t) mp key)\<rparr>, NodeSlot mp))"

text \<open>
  The nesting of rehashes is bounded by fuel; one level is enough, since a rehashed table has
  room for the keys put back and the new one.
\<close>

primrec newkey :: "nat \<Rightarrow> Table \<Rightarrow> TValue \<Rightarrow> (Table \<times> slot) result" where
  "newkey 0 = newkey_with (\<lambda>t key. Inl OutOfFuel)"
| "newkey (Suc f) = newkey_with (\<lambda>t key.
     rbind (rehash_with (newkey f) t key) (\<lambda>t. set_with (newkey f) t key))"

definition luaH_set :: "Table \<Rightarrow> TValue \<Rightarrow> (Table \<times> slot) result" where
  "luaH_set = set_with (newkey 1)"

definition luaH_setnum :: "Table \<Rightarrow> u32 \<Rightarrow> (Table \<times> slot) result" where
  "luaH_setnum = setnum_with (newkey 1)"

definition luaH_setstr :: "Table \<Rightarrow> bytes \<Rightarrow> (Table \<times> slot) result" where
  "luaH_setstr t key =
     rbind (luaH_getstr t key) (\<lambda>p. case p of
       Some s \<Rightarrow> Inr (t, s)
     | None \<Rightarrow> newkey 1 t (TString key))"

definition luaH_new :: "nat \<Rightarrow> nat \<Rightarrow> Table result" where
  "luaH_new narray nhash =
     (let t = \<lparr>flags = - 1, lsizenode = 0, metatable = None, array = [], node = None, lastfree = 0\<rparr> in
      setnodevector (setarrayvector t narray) nhash)"

definition luaH_resizearray :: "Table \<Rightarrow> nat \<Rightarrow> Table result" where
  "luaH_resizearray t nasize =
     (let nsize = (if node t = None then 0 else sizenode t) in resize_with (newkey 1) t nasize nsize)"

section \<open>Boundaries\<close>

text \<open>
  The unsigned counters stay at or below \<open>2 ^ 31\<close>, where neither \<open>j *= 2\<close> nor \<open>i + j\<close> wraps, so they are
  naturals here.
\<close>

definition present :: "Table \<Rightarrow> nat \<Rightarrow> bool result" where
  "present t j = rbind (luaH_getnum t (of_nat j)) (\<lambda>p. Inr (value_at t p \<noteq> TNil))"

text \<open>
  The linear search visits present keys only; one that outlasts the entries of the table is the
  fault \<open>Spins\<close>.
\<close>

fun linear_search :: "nat \<Rightarrow> Table \<Rightarrow> nat \<Rightarrow> nat result" where
  "linear_search 0 t i = Inl Spins"
| "linear_search (Suc f) t i = rbind (present t i) (\<lambda>b. if b then linear_search f t (i + 1) else Inr (i - 1))"

function binary_search :: "(nat \<Rightarrow> bool result) \<Rightarrow> nat \<Rightarrow> nat \<Rightarrow> nat result" where
  "binary_search p i j =
     (if j - i > 1
      then let m = (i + j) div 2 in rbind (p m) (\<lambda>b. if b then binary_search p m j else binary_search p i m)
      else Inr i)"
  by auto
termination by (relation "measure (\<lambda>(p, i, j). j - i)") auto

declare binary_search.simps [simp del]

text \<open>\<open>j\<close> doubles from at least 1 and stops above \<open>MAX_INT\<close>: 32 rounds are enough.\<close>

fun double_search :: "nat \<Rightarrow> Table \<Rightarrow> nat \<Rightarrow> nat \<Rightarrow> nat result" where
  "double_search 0 t i j = Inl OutOfFuel"
| "double_search (Suc f) t i j =
     rbind (present t j) (\<lambda>b.
       if b then
         (let i = j; j = 2 * j in
          if j > nat MAX_INT then linear_search (length (array t) + length (gnodes t) + 1) t 1
          else double_search f t i j)
       else binary_search (present t) i j)"

definition unbound_search :: "Table \<Rightarrow> nat \<Rightarrow> nat result" where
  "unbound_search t j = double_search 32 t j (j + 1)"

definition luaH_getn :: "Table \<Rightarrow> nat result" where
  "luaH_getn t =
     (let j = length (array t) in
      if j > 0 \<and> array t ! (j - 1) = TNil
      then binary_search (\<lambda>m. Inr (array t ! (m - 1) \<noteq> TNil)) 0 j
      else if node t = None then Inr j
      else unbound_search t j)"

end
