(* ===== verification/LuaVm.thy ===== *)
theory LuaVm
  imports LuaTable
begin

text \<open>
  lvm.c of Lua without the interpreter loop, with the metamethod lookup of ltm.c: conversions, indexing through
  metatables, comparison, concatenation and arithmetic. Calls of functions, the arithmetic of the
  floating point unit and \<open>strcoll\<close>, \<open>sprintf\<close>, \<open>strtod\<close> and \<open>strtoul\<close> are parameters.
\<close>

section \<open>The state of the interpreter\<close>

text \<open>
  An upvalue is open (it points to a slot of the stack) or closed (it holds its value). Addresses below
  \<open>next_addr\<close> are in use.
\<close>

datatype UpVal = Open nat | Closed TValue

record LClosure =
  cproto :: Proto
  cenv :: addr
  cupvals :: "addr list"

record world =
  stack :: "TValue list"
  tables :: "addr \<rightharpoonup> Table"
  udata_mt :: "addr \<rightharpoonup> addr option"
  basic_mt :: "u8 \<Rightarrow> addr option"
  closures :: "addr \<rightharpoonup> LClosure"
  upvals :: "addr \<rightharpoonup> UpVal"
  openupval :: "addr list"
  next_addr :: addr

text \<open>What a call of a function value with arguments does: its results and the new state, or an error.\<close>

type_synonym caller = "TValue \<Rightarrow> TValue list \<Rightarrow> world \<Rightarrow> (TValue list \<times> world) result"

section \<open>Metamethods\<close>

datatype TMS = TM_INDEX | TM_NEWINDEX | TM_GC | TM_MODE | TM_EQ | TM_ADD | TM_SUB | TM_MUL | TM_DIV | TM_MOD
  | TM_POW | TM_UNM | TM_LEN | TM_LT | TM_LE | TM_CONCAT | TM_CALL

fun tmname :: "TMS \<Rightarrow> bytes" where
  "tmname TM_INDEX = ascii ''__index''" | "tmname TM_NEWINDEX = ascii ''__newindex''"
| "tmname TM_GC = ascii ''__gc''" | "tmname TM_MODE = ascii ''__mode''" | "tmname TM_EQ = ascii ''__eq''"
| "tmname TM_ADD = ascii ''__add''" | "tmname TM_SUB = ascii ''__sub''" | "tmname TM_MUL = ascii ''__mul''"
| "tmname TM_DIV = ascii ''__div''" | "tmname TM_MOD = ascii ''__mod''" | "tmname TM_POW = ascii ''__pow''"
| "tmname TM_UNM = ascii ''__unm''" | "tmname TM_LEN = ascii ''__len''" | "tmname TM_LT = ascii ''__lt''"
| "tmname TM_LE = ascii ''__le''" | "tmname TM_CONCAT = ascii ''__concat''" | "tmname TM_CALL = ascii ''__call''"

text \<open>The bit of an event in the flags of a metatable, which cache the absence of a metamethod.\<close>

fun tm_bit :: "TMS \<Rightarrow> nat" where
  "tm_bit TM_INDEX = 0" | "tm_bit TM_NEWINDEX = 1" | "tm_bit TM_GC = 2" | "tm_bit TM_MODE = 3" | "tm_bit TM_EQ = 4"
| "tm_bit TM_ADD = 5" | "tm_bit TM_SUB = 6" | "tm_bit TM_MUL = 7" | "tm_bit TM_DIV = 8" | "tm_bit TM_MOD = 9"
| "tm_bit TM_POW = 10" | "tm_bit TM_UNM = 11" | "tm_bit TM_LEN = 12" | "tm_bit TM_LT = 13" | "tm_bit TM_LE = 14"
| "tm_bit TM_CONCAT = 15" | "tm_bit TM_CALL = 16"

definition luaT_gettm :: "world \<Rightarrow> addr \<Rightarrow> TMS \<Rightarrow> (TValue option \<times> world) result" where
  "luaT_gettm w events event =
     rbind (deref (tables w) events) (\<lambda>t.
     rbind (luaH_getstr t (tmname event)) (\<lambda>p.
       let tm = value_at t p in
       if tm = TNil
       then Inr (None, w\<lparr>tables := (tables w)(events \<mapsto> t\<lparr>flags := flags t OR push_bit (tm_bit event) 1\<rparr>)\<rparr>)
       else Inr (Some tm, w)))"

definition fasttm :: "world \<Rightarrow> addr option \<Rightarrow> TMS \<Rightarrow> (TValue option \<times> world) result" where
  "fasttm w et e =
     (case et of
        None \<Rightarrow> Inr (None, w)
      | Some a \<Rightarrow> rbind (deref (tables w) a) (\<lambda>t.
          if bit (flags t) (tm_bit e) then Inr (None, w) else luaT_gettm w a e))"

definition luaT_gettmbyobj :: "world \<Rightarrow> TValue \<Rightarrow> TMS \<Rightarrow> TValue result" where
  "luaT_gettmbyobj w o' event =
     rbind (case o' of
        TTable a \<Rightarrow> rbind (deref (tables w) a) (\<lambda>t. Inr (metatable t))
      | TUserdata a \<Rightarrow> deref (udata_mt w) a
      | _ \<Rightarrow> Inr (basic_mt w (ttype o')))
     (\<lambda>mt. case mt of
        None \<Rightarrow> Inr TNil
      | Some a \<Rightarrow> rbind (deref (tables w) a) (\<lambda>t.
          rbind (luaH_getstr t (tmname event)) (\<lambda>p. Inr (value_at t p))))"

text \<open>A call for one result: none is nil.\<close>

definition first_result :: "TValue list \<Rightarrow> TValue" where
  "first_result rs = (case rs of [] \<Rightarrow> TNil | r # _ \<Rightarrow> r)"

definition callTMres :: "caller \<Rightarrow> world \<Rightarrow> TValue \<Rightarrow> TValue \<Rightarrow> TValue \<Rightarrow> (TValue \<times> world) result" where
  "callTMres call w f p1 p2 = rbind (call f [p1, p2] w) (\<lambda>(rs, w). Inr (first_result rs, w))"

definition callTM :: "caller \<Rightarrow> world \<Rightarrow> TValue \<Rightarrow> TValue \<Rightarrow> TValue \<Rightarrow> TValue \<Rightarrow> world result" where
  "callTM call w f p1 p2 p3 = rbind (call f [p1, p2, p3] w) (\<lambda>(rs, w). Inr w)"

definition call_binTM :: "caller \<Rightarrow> world \<Rightarrow> TValue \<Rightarrow> TValue \<Rightarrow> TMS \<Rightarrow> (TValue \<times> world) option result" where
  "call_binTM call w p1 p2 event =
     rbind (luaT_gettmbyobj w p1 event) (\<lambda>tm.
     rbind (if tm = TNil then luaT_gettmbyobj w p2 event else Inr tm) (\<lambda>tm.
       if tm = TNil then Inr None
       else rbind (callTMres call w tm p1 p2) (\<lambda>r. Inr (Some r))))"

section \<open>Indexing\<close>

definition MAXTAGLOOP :: nat where "MAXTAGLOOP = 100"

definition isfunction :: "TValue \<Rightarrow> bool" where
  "isfunction v = (case v of TFunction a \<Rightarrow> True | _ \<Rightarrow> False)"

text \<open>The counter \<open>loop\<close> runs down from \<open>MAXTAGLOOP\<close>.\<close>

fun gettable_loop :: "nat \<Rightarrow> caller \<Rightarrow> world \<Rightarrow> TValue \<Rightarrow> TValue \<Rightarrow> (TValue \<times> world) result" where
  "gettable_loop 0 call w t key = Inl (LuaError ''loop in gettable'')"
| "gettable_loop (Suc n) call w t key =
     (let try = (\<lambda>tm w. if isfunction tm then callTMres call w tm t key else gettable_loop n call w tm key) in
      case t of
        TTable a \<Rightarrow>
          rbind (deref (tables w) a) (\<lambda>h.
          rbind (luaH_get h key) (\<lambda>p.
            let res = value_at h p in
            if res \<noteq> TNil then Inr (res, w)
            else rbind (fasttm w (metatable h) TM_INDEX) (\<lambda>(tm, w).
              case tm of None \<Rightarrow> Inr (res, w) | Some tm \<Rightarrow> try tm w)))
      | _ \<Rightarrow>
          rbind (luaT_gettmbyobj w t TM_INDEX) (\<lambda>tm.
            if tm = TNil then Inl (LuaError ''attempt to index'') else try tm w))"

definition luaV_gettable :: "caller \<Rightarrow> world \<Rightarrow> TValue \<Rightarrow> TValue \<Rightarrow> (TValue \<times> world) result" where
  "luaV_gettable = gettable_loop MAXTAGLOOP"

fun settable_loop :: "nat \<Rightarrow> caller \<Rightarrow> world \<Rightarrow> TValue \<Rightarrow> TValue \<Rightarrow> TValue \<Rightarrow> world result" where
  "settable_loop 0 call w t key val = Inl (LuaError ''loop in settable'')"
| "settable_loop (Suc n) call w t key val =
     (let try = (\<lambda>tm w. if isfunction tm then callTM call w tm t key val else settable_loop n call w tm key val) in
      case t of
        TTable a \<Rightarrow>
          rbind (deref (tables w) a) (\<lambda>h.
          rbind (luaH_set h key) (\<lambda>(h, s).
            let w = w\<lparr>tables := (tables w)(a \<mapsto> h)\<rparr>;
                store = (\<lambda>w. rbind (deref (tables w) a) (\<lambda>h. Inr (w\<lparr>tables := (tables w)(a \<mapsto> setobj2t h s val)\<rparr>))) in
            if slot_value h s \<noteq> TNil then store w
            else rbind (fasttm w (metatable h) TM_NEWINDEX) (\<lambda>(tm, w).
              case tm of None \<Rightarrow> store w | Some tm \<Rightarrow> try tm w)))
      | _ \<Rightarrow>
          rbind (luaT_gettmbyobj w t TM_NEWINDEX) (\<lambda>tm.
            if tm = TNil then Inl (LuaError ''attempt to index'') else try tm w))"

definition luaV_settable :: "caller \<Rightarrow> world \<Rightarrow> TValue \<Rightarrow> TValue \<Rightarrow> TValue \<Rightarrow> world result" where
  "luaV_settable = settable_loop MAXTAGLOOP"

section \<open>Comparison\<close>

text \<open>The order of doubles that are not NaN: sign and magnitude.\<close>

definition dbl_key :: "double \<Rightarrow> int" where
  "dbl_key d = (let m = int (unat (d AND 0x7FFFFFFFFFFFFFFF)) in if dbl_neg d then - m else m)"

definition dbl_lt :: "double \<Rightarrow> double \<Rightarrow> bool" where
  "dbl_lt a b \<longleftrightarrow> \<not> dbl_nan a \<and> \<not> dbl_nan b \<and> dbl_key a < dbl_key b"

definition dbl_le :: "double \<Rightarrow> double \<Rightarrow> bool" where
  "dbl_le a b \<longleftrightarrow> \<not> dbl_nan a \<and> \<not> dbl_nan b \<and> dbl_key a \<le> dbl_key b"

text \<open>The C string that starts at a place: up to the first zero byte.\<close>

definition c_str :: "bytes \<Rightarrow> bytes" where
  "c_str s = takeWhile (\<lambda>c. c \<noteq> 0) s"

text \<open>\<open>strcoll\<close> says how two C strings compare in the current locale; the pointers must stay inside the strings.\<close>

function l_strcmp :: "(bytes \<Rightarrow> bytes \<Rightarrow> int) \<Rightarrow> bytes \<Rightarrow> bytes \<Rightarrow> int result" where
  "l_strcmp strcoll l r =
     (let temp = strcoll (c_str l) (c_str r) in
      if temp \<noteq> 0 then Inr temp
      else let len = length (c_str l) in
        if len = length r then Inr (if len = length l then 0 else 1)
        else if len = length l then Inr (- 1)
        else if len > length r then Inl InvalidPointer
        else l_strcmp strcoll (drop (len + 1) l) (drop (len + 1) r))"
  by auto
termination
proof (relation "measure (\<lambda>(strcoll, l, r). length l)")
  fix strcoll :: "bytes \<Rightarrow> bytes \<Rightarrow> int" and l r :: bytes and temp len :: nat
  assume len: "len = length (c_str l)" "len \<noteq> length l"
  then have "len < length l" using length_takeWhile_le [of "\<lambda>c. c \<noteq> 0" l] by (simp add: c_str_def)
  then show "((strcoll, drop (len + 1) l, drop (len + 1) r), strcoll, l, r) \<in> measure (\<lambda>(strcoll, l, r). length l)"
    by simp
qed simp

declare l_strcmp.simps [simp del]

definition call_orderTM :: "caller \<Rightarrow> world \<Rightarrow> TValue \<Rightarrow> TValue \<Rightarrow> TMS \<Rightarrow> (bool \<times> world) option result" where
  "call_orderTM call w p1 p2 event =
     rbind (luaT_gettmbyobj w p1 event) (\<lambda>tm1.
       if tm1 = TNil then Inr None
       else rbind (luaT_gettmbyobj w p2 event) (\<lambda>tm2.
         if \<not> luaO_rawequalObj tm1 tm2 then Inr None
         else rbind (callTMres call w tm1 p1 p2) (\<lambda>(r, w). Inr (Some (\<not> l_isfalse r, w)))))"

definition luaV_lessthan ::
    "(bytes \<Rightarrow> bytes \<Rightarrow> int) \<Rightarrow> caller \<Rightarrow> world \<Rightarrow> TValue \<Rightarrow> TValue \<Rightarrow> (bool \<times> world) result" where
  "luaV_lessthan strcoll call w l r =
     (if ttype l \<noteq> ttype r then Inl (LuaError ''attempt to compare'')
      else case (l, r) of
        (TNumber a, TNumber b) \<Rightarrow> Inr (dbl_lt a b, w)
      | (TString a, TString b) \<Rightarrow> rbind (l_strcmp strcoll a b) (\<lambda>c. Inr (c < 0, w))
      | _ \<Rightarrow> rbind (call_orderTM call w l r TM_LT) (\<lambda>res. case res of
          Some r \<Rightarrow> Inr r
        | None \<Rightarrow> Inl (LuaError ''attempt to compare'')))"

definition lessequal ::
    "(bytes \<Rightarrow> bytes \<Rightarrow> int) \<Rightarrow> caller \<Rightarrow> world \<Rightarrow> TValue \<Rightarrow> TValue \<Rightarrow> (bool \<times> world) result" where
  "lessequal strcoll call w l r =
     (if ttype l \<noteq> ttype r then Inl (LuaError ''attempt to compare'')
      else case (l, r) of
        (TNumber a, TNumber b) \<Rightarrow> Inr (dbl_le a b, w)
      | (TString a, TString b) \<Rightarrow> rbind (l_strcmp strcoll a b) (\<lambda>c. Inr (c \<le> 0, w))
      | _ \<Rightarrow> rbind (call_orderTM call w l r TM_LE) (\<lambda>res. case res of
          Some r \<Rightarrow> Inr r
        | None \<Rightarrow> rbind (call_orderTM call w r l TM_LT) (\<lambda>res. case res of
            Some (b, w) \<Rightarrow> Inr (\<not> b, w)
          | None \<Rightarrow> Inl (LuaError ''attempt to compare''))))"

definition get_compTM :: "world \<Rightarrow> addr option \<Rightarrow> addr option \<Rightarrow> TMS \<Rightarrow> (TValue option \<times> world) result" where
  "get_compTM w mt1 mt2 event =
     rbind (fasttm w mt1 event) (\<lambda>(tm1, w). case tm1 of
       None \<Rightarrow> Inr (None, w)
     | Some tm1 \<Rightarrow>
         if mt1 = mt2 then Inr (Some tm1, w)
         else rbind (fasttm w mt2 event) (\<lambda>(tm2, w). case tm2 of
           None \<Rightarrow> Inr (None, w)
         | Some tm2 \<Rightarrow> Inr (if luaO_rawequalObj tm1 tm2 then Some tm1 else None, w)))"

definition luaV_equalval :: "caller \<Rightarrow> world \<Rightarrow> TValue \<Rightarrow> TValue \<Rightarrow> (bool \<times> world) result" where
  "luaV_equalval call w t1 t2 =
     (let try = (\<lambda>mt1 mt2. rbind (get_compTM w mt1 mt2 TM_EQ) (\<lambda>(tm, w). case tm of
          None \<Rightarrow> Inr (False, w)
        | Some tm \<Rightarrow> rbind (callTMres call w tm t1 t2) (\<lambda>(r, w). Inr (\<not> l_isfalse r, w)))) in
      case (t1, t2) of
        (TNil, _) \<Rightarrow> Inr (True, w)
      | (TNumber a, TNumber b) \<Rightarrow> Inr (dbl_eq a b, w)
      | (TBoolean a, TBoolean b) \<Rightarrow> Inr (a = b, w)
      | (TLightUserdata a, TLightUserdata b) \<Rightarrow> Inr (a = b, w)
      | (TUserdata a, TUserdata b) \<Rightarrow>
          if a = b then Inr (True, w)
          else rbind (deref (udata_mt w) a) (\<lambda>mt1. rbind (deref (udata_mt w) b) (\<lambda>mt2. try mt1 mt2))
      | (TTable a, TTable b) \<Rightarrow>
          if a = b then Inr (True, w)
          else rbind (deref (tables w) a) (\<lambda>h1. rbind (deref (tables w) b) (\<lambda>h2. try (metatable h1) (metatable h2)))
      | _ \<Rightarrow> Inr (gcvalue t1 = gcvalue t2, w))"

definition equalobj :: "caller \<Rightarrow> world \<Rightarrow> TValue \<Rightarrow> TValue \<Rightarrow> (bool \<times> world) result" where
  "equalobj call w o1 o2 = (if ttype o1 = ttype o2 then luaV_equalval call w o1 o2 else Inr (False, w))"

section \<open>Conversions\<close>

text \<open>
  What the C library and the floating point unit provide; \<open>c_number2str\<close> is \<open>sprintf\<close> with
  \<open>%.14g\<close>, \<open>c_arith\<close> the operators on doubles with \<open>pow\<close> and \<open>floor\<close>.
\<close>

record clib =
  c_strcoll :: "bytes \<Rightarrow> bytes \<Rightarrow> int"
  c_strtod :: "bytes \<Rightarrow> double \<times> nat"
  c_strtoul16 :: "bytes \<Rightarrow> u64 \<times> nat"
  c_number2str :: "double \<Rightarrow> bytes"
  c_arith :: "TMS \<Rightarrow> double \<Rightarrow> double \<Rightarrow> double"

definition luaV_tonumber :: "clib \<Rightarrow> TValue \<Rightarrow> double option" where
  "luaV_tonumber c obj =
     (case obj of
        TNumber n \<Rightarrow> Some n
      | TString s \<Rightarrow> luaO_str2d (c_strtod c) (c_strtoul16 c) (c_str s)
      | _ \<Rightarrow> None)"

text \<open>The macro \<open>tostring\<close> over \<open>luaV_tostring\<close>: the string the value is, or is turned into in place.\<close>

definition luaV_tostring :: "clib \<Rightarrow> TValue \<Rightarrow> bytes option" where
  "luaV_tostring c obj = (case obj of TNumber n \<Rightarrow> Some (c_number2str c n) | _ \<Rightarrow> None)"

definition tostring :: "clib \<Rightarrow> TValue \<Rightarrow> bytes option" where
  "tostring c obj = (case obj of TString s \<Rightarrow> Some s | _ \<Rightarrow> luaV_tostring c obj)"

section \<open>Concatenation\<close>

text \<open>
  The operands lie on the stack; here they are a list, the top of the stack first. A pass turns the
  topmost ones into one value. \<open>collect\<close> is the loop that goes on down while the operands are strings or
  numbers: the strings in their order, and the operands left.
\<close>

fun collect :: "clib \<Rightarrow> nat \<Rightarrow> bytes list \<Rightarrow> TValue list \<Rightarrow> (bytes list \<times> TValue list) result" where
  "collect c len strs [] = Inr (strs, [])"
| "collect c len strs (v # vs) =
     (case tostring c v of
        None \<Rightarrow> Inr (strs, v # vs)
      | Some s \<Rightarrow>
          if length s \<ge> MAX_SIZET - len then Inl (LuaError ''string length overflow'')
          else collect c (len + length s) (s # strs) vs)"

definition concat_pass :: "clib \<Rightarrow> caller \<Rightarrow> world \<Rightarrow> TValue \<Rightarrow> TValue \<Rightarrow> TValue list \<Rightarrow> (TValue list \<times> world) result" where
  "concat_pass c call w top1 top2 rest =
     (if tostring c top2 = None \<or> tostring c top1 = None then
        rbind (call_binTM call w top2 top1 TM_CONCAT) (\<lambda>r. case r of
          None \<Rightarrow> Inl (LuaError ''attempt to concatenate'')
        | Some (v, w) \<Rightarrow> Inr (v # rest, w))
      else let s1 = the (tostring c top1) in
        if s1 = [] then Inr (TString (the (tostring c top2)) # rest, w)
        else rbind (collect c (length s1) [s1] (top2 # rest)) (\<lambda>(strs, left).
          Inr (TString (concat strs) # left, w)))"

lemma collect_left: "collect c len strs vs = Inr (strs', left) \<Longrightarrow> length left \<le> length vs"
  by (induction c len strs vs rule: collect.induct) (auto split: option.splits if_splits)

lemma concat_pass_length:
  "concat_pass c call w top1 top2 rest = Inr (vs, w') \<Longrightarrow> length vs \<le> Suc (length rest)"
  by (auto simp: concat_pass_def Let_def rbind_eq_Inr split: if_splits option.splits dest!: collect_left)

text \<open>\<open>luaV_concat\<close>: passes until one value is left.\<close>

function luaV_concat :: "clib \<Rightarrow> caller \<Rightarrow> world \<Rightarrow> TValue list \<Rightarrow> (TValue \<times> world) result" where
  "luaV_concat c call w (top1 # top2 # rest) =
     rbind (concat_pass c call w top1 top2 rest) (\<lambda>(vs, w). luaV_concat c call w vs)"
| "luaV_concat c call w [v] = Inr (v, w)"
| "luaV_concat c call w [] = Inl InvalidPointer"
  by pat_completeness auto
termination
  by (relation "measure (\<lambda>(c, call, w, vs). length vs)") (auto dest: concat_pass_length)

section \<open>Arithmetic\<close>

definition Arith :: "clib \<Rightarrow> caller \<Rightarrow> world \<Rightarrow> TValue \<Rightarrow> TValue \<Rightarrow> TMS \<Rightarrow> (TValue \<times> world) result" where
  "Arith c call w rb rc op =
     (case (luaV_tonumber c rb, luaV_tonumber c rc) of
        (Some nb, Some nc) \<Rightarrow> Inr (TNumber (c_arith c op nb nc), w)
      | _ \<Rightarrow> rbind (call_binTM call w rb rc op) (\<lambda>r. case r of
          None \<Rightarrow> Inl (LuaError ''attempt to perform arithmetic'')
        | Some r \<Rightarrow> Inr r))"

end
