(* ===== verification/LuaTableSpec.thy ===== *)
theory LuaTableSpec
  imports LuaTable
begin

text \<open>
  Lua tables are finite maps: the invariant of the hash part, the search against a reference that
  looks at every entry, and the insertion of new keys while there is room.
\<close>

section \<open>Keys\<close>

text \<open>The keys a table can hold: neither nil nor a NaN.\<close>

definition okkey :: "TValue \<Rightarrow> bool" where
  "okkey k \<longleftrightarrow> k \<noteq> TNil \<and> luaO_rawequalObj k k"

lemma dbl_eq_sym: "dbl_eq a b \<Longrightarrow> dbl_eq b a"
  by (auto simp: dbl_eq_def)

lemma dbl_eq_trans: "dbl_eq a b \<Longrightarrow> dbl_eq b c \<Longrightarrow> dbl_eq a c"
  by (auto simp: dbl_eq_def)

lemma dbl_eq_zero: "dbl_eq a b \<Longrightarrow> dbl_eq a c \<longleftrightarrow> dbl_eq b c"
  using dbl_eq_sym dbl_eq_trans by blast

lemma rawequal_iff: "luaO_rawequalObj a b \<longleftrightarrow>
    (\<exists>x y. a = TNumber x \<and> b = TNumber y \<and> dbl_eq x y) \<or> (a = b \<and> (\<forall>x. a \<noteq> TNumber x))"
  by (cases a; cases b) simp_all

lemma rawequal_sym: "luaO_rawequalObj a b \<Longrightarrow> luaO_rawequalObj b a"
  by (auto simp: rawequal_iff intro: dbl_eq_sym)

lemma rawequal_trans: "luaO_rawequalObj a b \<Longrightarrow> luaO_rawequalObj b c \<Longrightarrow> luaO_rawequalObj a c"
  by (auto simp: rawequal_iff intro: dbl_eq_trans)

lemma rawequal_cong: "luaO_rawequalObj a b \<Longrightarrow> luaO_rawequalObj a c \<longleftrightarrow> luaO_rawequalObj b c"
  using rawequal_sym rawequal_trans by blast

lemma rawequal_okkey: "luaO_rawequalObj a b \<Longrightarrow> a \<noteq> TNil \<Longrightarrow> okkey a \<and> okkey b"
  using rawequal_sym [of a b] rawequal_trans [of a b a] rawequal_trans [of b a b]
  by (auto simp: okkey_def rawequal_iff)

lemma okkey_simps [simp]: "\<not> okkey TNil" "okkey (TString s)" "okkey (TNumber n) \<longleftrightarrow> dbl_eq n n"
  by (simp_all add: okkey_def)

lemma okkey_refl: "okkey k \<Longrightarrow> luaO_rawequalObj k k"
  by (simp add: okkey_def)

section \<open>Main positions\<close>

lemma unat_and_mask32: "unat (x AND mask k :: u32) = unat x mod 2 ^ k"
  by (simp only: take_bit_eq_mask [symmetric] unsigned_take_bit_eq) (simp add: take_bit_eq_mod)

lemma sizenode_minus_1: "of_nat (sizenode t) - 1 = (mask (lsizenode t) :: u32)"
  by (simp add: sizenode_def mask_eq_exp_minus_1)

lemma hashpow2_less: "hashpow2 t n < sizenode t"
  by (simp only: hashpow2_def sizenode_minus_1 unat_and_mask32) (simp add: sizenode_def)

lemma mask_or_1: "(mask k OR 1 :: u32) = (if k = 0 then 1 else mask k)"
  by (rule bit_word_eqI) (auto simp: bit_simps)

lemma hashmod_less:
  assumes "lsizenode t < 32"
  shows "hashmod t n < sizenode t"
proof -
  let ?m = "mask (lsizenode t) OR 1 :: u32"
  have u: "unat (mask (lsizenode t) :: u32) = 2 ^ lsizenode t - 1"
  proof -
    have "unat (mask (lsizenode t) :: u32) = unat (take_bit (lsizenode t) (- 1 :: u32))" by simp
    also have "\<dots> = take_bit (lsizenode t) (2 ^ 32 - 1)"
      by (simp only: unsigned_take_bit_eq) (simp add: unsigned_minus_1_eq_mask mask_eq_exp_minus_1)
    also have "\<dots> = 2 ^ lsizenode t - 1"
    proof -
      have "(2 :: nat) ^ 32 = 2 ^ (32 - lsizenode t) * 2 ^ lsizenode t"
        using assms by (simp only: power_add [symmetric]) simp
      moreover have "(2 :: nat) ^ lsizenode t \<le> 2 ^ 32" using assms by (intro power_increasing) simp_all
      ultimately have "(2 ^ 32 - 1 :: nat) = (2 ^ (32 - lsizenode t) - 1) * 2 ^ lsizenode t + (2 ^ lsizenode t - 1)"
        by (simp add: diff_mult_distrib)
      then show ?thesis by (simp only: take_bit_eq_mod mod_mult_self3) simp
    qed
    finally show ?thesis .
  qed
  have "0 < unat ?m \<and> unat ?m \<le> sizenode t"
  proof (cases "lsizenode t = 0")
    case False
    then have "(1 :: nat) < 2 ^ lsizenode t" by (intro one_less_power) simp_all
    then show ?thesis using False by (simp add: mask_or_1 u sizenode_def)
  qed (simp add: mask_or_1 sizenode_def)
  then show ?thesis
    by (simp only: hashmod_def sizenode_minus_1 unat_mod_distrib) (metis less_le_trans mod_less_divisor)
qed

lemma mainposition_less: "lsizenode t < 32 \<Longrightarrow> mainposition t k < sizenode t"
  by (cases k) (simp_all add: hashnum_def hashpow2_less hashmod_less, simp_all add: sizenode_def)

lemma hashnum_cong: "dbl_eq a b \<Longrightarrow> hashnum t a = hashnum t b"
  using dbl_eq_zero [of a b 0] by (auto simp: hashnum_def) (auto simp: dbl_eq_def dbl_nan_def dbl_exp_def)

lemma mainposition_cong: "luaO_rawequalObj a b \<Longrightarrow> mainposition t a = mainposition t b"
  by (auto simp: rawequal_iff intro: hashnum_cong)

lemma mainposition_size:
  "lsizenode t = lsizenode t' \<Longrightarrow> mainposition t = mainposition t'"
  by (rule ext, rename_tac k, case_tac k)
    (simp_all add: hashnum_def hashmod_def hashpow2_def sizenode_def)

section \<open>Integer keys\<close>

definition num :: "nat \<Rightarrow> TValue" where "num i = TNumber (int_to_double (int i))"

lemma not_nan_of_finite: "dbl_finite d \<Longrightarrow> \<not> dbl_nan d"
  by (simp add: dbl_finite_def dbl_nan_def)

lemma trunc_double_zero: "d AND 0x7FFFFFFFFFFFFFFF = 0 \<Longrightarrow> trunc_double d = 0"
proof -
  assume d: "d AND 0x7FFFFFFFFFFFFFFF = 0"
  have "unat d mod 2 ^ 63 = unat (d AND mask 63)" by (simp only: unat_and_mask)
  also have "\<dots> = 0" using d by (simp add: mask_eq_exp_minus_1)
  finally have z: "unat d mod 2 ^ 63 = 0" .
  have "unat d mod 2 ^ 52 = unat d mod 2 ^ 63 mod 2 ^ 52"
    by (rule mod_mod_cancel [symmetric]) (simp add: le_imp_power_dvd)
  then have "unat d mod 2 ^ 52 = 0" by (simp only: z mod_0)
  moreover have "unat d div 2 ^ 52 mod 2 ^ 11 = unat d mod 2 ^ 63 div 2 ^ 52"
    using div_mult2_eq mod_mult2_eq [of "unat d" "2 ^ 52" "2 ^ 11"] by simp
  then have "unat d div 2 ^ 52 mod 2 ^ 11 = 0" by (simp only: z div_0)
  ultimately have "dbl_frac d = 0" "dbl_exp d = 0" by (simp_all only: dbl_frac_alt dbl_exp_alt)
  then show ?thesis by (simp add: trunc_double_def trunc_mag_def dbl_mant_def dbl_scale_def)
qed

lemma num_okkey: "i < 2 ^ 31 \<Longrightarrow> dbl_eq (int_to_double (int i)) (int_to_double (int i))"
  using int_to_double_trunc(2) [of "int i"] by (auto simp: dbl_eq_def dest: not_nan_of_finite)

lemma okkey_num [simp]: "i < 2 ^ 31 \<Longrightarrow> okkey (num i)"
  by (simp add: num_def num_okkey)

lemma dbl_eq_num:
  assumes "0 < i" and "i < 2 ^ 31"
  shows "dbl_eq (int_to_double (int i)) n \<longleftrightarrow> n = int_to_double (int i)"
proof
  have "trunc_double (int_to_double (int i)) \<noteq> 0"
    using int_to_double_trunc(1) [of "int i"] assms by simp
  then show "n = int_to_double (int i)" if "dbl_eq (int_to_double (int i)) n"
    using that by (auto simp: dbl_eq_def dest: trunc_double_zero)
qed (use num_okkey assms in simp)

lemma rawequal_num:
  assumes "0 < i" and "i < 2 ^ 31"
  shows "luaO_rawequalObj (num i) k \<longleftrightarrow> k = num i"
  using dbl_eq_num [OF assms] by (cases k) (auto simp: num_def rawequal_iff)

lemma num_inj: "i < 2 ^ 31 \<Longrightarrow> j < 2 ^ 31 \<Longrightarrow> num i = num j \<longleftrightarrow> i = j"
  using int_to_double_inj [of "int i" "int j"] by (simp add: num_def)

lemma s32_num: "i < 2 ^ 31 \<Longrightarrow> double_to_s32 (int_to_double (int i)) = of_nat i"
  using int_to_double_s32 [of "int i"] by simp

lemma arrayindex_num: "i < 2 ^ 31 \<Longrightarrow> arrayindex (num i) = int i"
  by (simp add: arrayindex_def num_def Let_def s32_num sint_of_nat_small num_okkey)

lemma arrayindex_pos:
  assumes "0 < arrayindex k"
  shows "k = num (nat (arrayindex k))" "nat (arrayindex k) < 2 ^ 31"
proof -
  obtain n where k: "k = TNumber n" using assms by (cases k) (simp_all add: arrayindex_def)
  let ?i = "sint (double_to_s32 n)"
  have eq: "dbl_eq (int_to_double ?i) n" and ai: "arrayindex k = ?i"
    using assms by (auto simp: k arrayindex_def Let_def split: if_splits)
  have "?i < 2 ^ 31" using sint_lt [of "double_to_s32 n"] by simp
  then show less: "nat (arrayindex k) < 2 ^ 31" using assms by (simp add: ai nat_less_iff)
  show "k = num (nat (arrayindex k))"
    using dbl_eq_num [of "nat ?i" n] eq assms less by (simp add: k num_def ai [unfolded k])
qed

section \<open>Chains\<close>

text \<open>\<open>xs\<close> are the nodes on the chain from \<open>i\<close>, to its end.\<close>

fun path :: "Node list \<Rightarrow> nat \<Rightarrow> nat list \<Rightarrow> bool" where
  "path ns i [] = False"
| "path ns i (x # xs) = (x = i \<and> i < length ns \<and>
     (case i_next (ns ! i) of None \<Rightarrow> xs = [] | Some j \<Rightarrow> path ns j xs))"

lemma path_Cons: "path ns i xs \<Longrightarrow> \<exists>ys. xs = i # ys"
  by (cases xs) auto

lemma path_det: "path ns i xs \<Longrightarrow> path ns i ys \<Longrightarrow> xs = ys"
proof (induction xs arbitrary: i ys)
  case (Cons x xs)
  then show ?case by (cases ys) (auto split: option.splits)
qed simp

lemma path_less: "path ns i xs \<Longrightarrow> x \<in> set xs \<Longrightarrow> x < length ns"
  by (induction xs arbitrary: i) (auto split: option.splits)

lemma path_split: "path ns i (us @ k # vs) \<Longrightarrow> path ns k (k # vs)"
proof (induction us arbitrary: i)
  case (Cons u us)
  then show ?case by (cases us) (auto split: option.splits)
qed auto

lemma path_at: "path ns i xs \<Longrightarrow> k \<in> set xs \<Longrightarrow> \<exists>us vs. xs = us @ k # vs \<and> path ns k (k # vs)"
  using split_list [of k xs] path_split by metis

lemma path_distinct: "path ns i xs \<Longrightarrow> distinct xs"
proof (rule ccontr)
  assume p: "path ns i xs" and "\<not> distinct xs"
  then obtain us vs ws k where xs: "xs = us @ [k] @ vs @ [k] @ ws" using not_distinct_decomp by blast
  have "path ns k (k # vs @ k # ws)" using path_split [of ns i us k "vs @ k # ws"] p xs by simp
  moreover have "path ns k (k # ws)" using path_split [of ns i "us @ k # vs" k ws] p xs by simp
  ultimately have "k # vs @ k # ws = k # ws" by (rule path_det)
  then show False by simp
qed

lemma path_length: "path ns i xs \<Longrightarrow> length xs \<le> length ns"
proof -
  assume p: "path ns i xs"
  then have "card (set xs) \<le> card {..<length ns}"
    using path_less [OF p] by (intro card_mono) auto
  then show ?thesis using distinct_card [OF path_distinct [OF p]] by simp
qed

lemma chain_search_path:
  "path ns i xs \<Longrightarrow> length xs \<le> f \<Longrightarrow>
    chain_search f P ns i = Inr (find (\<lambda>x. P (i_key (ns ! x))) xs)"
proof (induction xs arbitrary: i f)
  case (Cons x xs)
  then obtain f' where "f = Suc f'" by (cases f) auto
  with Cons show ?case by (auto split: option.splits)
qed simp

lemma find_previous_path:
  "path ns i xs \<Longrightarrow> length xs \<le> f \<Longrightarrow> k \<in> set xs \<Longrightarrow> k \<noteq> i \<Longrightarrow>
    \<exists>p \<in> set xs. find_previous f ns k i = Inr p \<and> i_next (ns ! p) = Some k"
proof (induction xs arbitrary: i f)
  case (Cons x xs)
  then obtain f' where f: "f = Suc f'" by (cases f) auto
  from Cons.prems obtain j where j: "i_next (ns ! i) = Some j" "path ns j xs"
    by (auto split: option.splits)
  show ?case
  proof (cases "j = k")
    case True
    then show ?thesis using Cons.prems j by (auto simp: f)
  next
    case False
    then have "\<exists>p \<in> set xs. find_previous f' ns k j = Inr p \<and> i_next (ns ! p) = Some k"
      using Cons.prems j by (intro Cons.IH) (auto simp: f)
    then show ?thesis using False Cons.prems j by (auto simp: f)
  qed
qed simp

text \<open>A chain is the same in a vector that agrees on the links of its nodes.\<close>

lemma path_cong:
  "path ns i xs \<Longrightarrow> length ns' = length ns \<Longrightarrow>
    (\<And>x. x \<in> set xs \<Longrightarrow> i_next (ns' ! x) = i_next (ns ! x)) \<Longrightarrow> path ns' i xs"
  by (induction xs arbitrary: i) (auto split: option.splits)

text \<open>Linking the free node \<open>n\<close> behind \<open>m\<close>.\<close>

lemma path_insert:
  assumes "length ns' = length ns" and "n < length ns"
    and "i_next (ns' ! m) = Some n" and "i_next (ns' ! n) = i_next (ns ! m)"
    and "\<And>x. x \<noteq> m \<Longrightarrow> x \<noteq> n \<Longrightarrow> i_next (ns' ! x) = i_next (ns ! x)"
  shows "path ns i xs \<Longrightarrow> n \<notin> set xs \<Longrightarrow>
    path ns' i (concat (map (\<lambda>x. if x = m then [m, n] else [x]) xs))"
proof (induction xs arbitrary: i)
  case (Cons x xs)
  show ?case
  proof (cases "x = m")
    case True
    then show ?thesis using Cons assms(1-4) by (auto split: option.splits)
  next
    case False
    then have "i_next (ns' ! x) = i_next (ns ! x)" using Cons.prems assms(5) by auto
    then show ?thesis using Cons False assms(1) by (auto split: option.splits)
  qed
qed simp

text \<open>Moving the node \<open>p\<close> to the free node \<open>n\<close>, with the link of its predecessor \<open>q\<close>.\<close>

lemma path_move:
  assumes "length ns' = length ns" and "n < length ns" and "p \<noteq> n" and "q \<noteq> p" and "q \<noteq> n"
    and "i_next (ns' ! q) = Some n" and "i_next (ns' ! n) = i_next (ns ! p)"
    and "\<And>x. x \<noteq> q \<Longrightarrow> x \<noteq> n \<Longrightarrow> x \<noteq> p \<Longrightarrow> i_next (ns' ! x) = i_next (ns ! x)"
    and "i_next (ns ! q) = Some p"
    and "\<And>x. x < length ns \<Longrightarrow> i_next (ns ! x) = Some p \<Longrightarrow> x = q"
  shows "path ns i xs \<Longrightarrow> n \<notin> set xs \<Longrightarrow>
    path ns' (if i = p then n else i) (map (\<lambda>x. if x = p then n else x) xs)"
proof (induction xs arbitrary: i)
  case (Cons x xs)
  then have x: "x = i" "i < length ns" by simp_all
  show ?case
  proof (cases "i_next (ns ! i)")
    case None
    then show ?thesis using Cons.prems x assms(1-9) by (cases "i = p"; cases "i = q") auto
  next
    case (Some j)
    then have "path ns' (if j = p then n else j) (map (\<lambda>x. if x = p then n else x) xs)"
      using Cons x by auto
    moreover have "i_next (ns' ! (if i = p then n else i)) = Some (if j = p then n else j)"
    proof (cases "i = p")
      case True
      have "j \<noteq> p" using True Some assms(4,10) x by auto
      then show ?thesis using True Some assms(7) by simp
    next
      case False
      show ?thesis
      proof (cases "i = q")
        case True
        then show ?thesis using Some assms(4,6,9) by simp
      next
        case False
        then have "j \<noteq> p" using Some assms(10) x(2) by blast
        moreover have "i_next (ns' ! i) = i_next (ns ! i)"
          using False \<open>i \<noteq> p\<close> Cons.prems x assms(8) by simp
        ultimately show ?thesis using Some \<open>i \<noteq> p\<close> by simp
      qed
    qed
    moreover have "(if i = p then n else i) < length ns'" using x assms(1,2) by simp
    ultimately show ?thesis using x(1) by simp
  qed
qed simp

section \<open>The invariant of the hash part\<close>

text \<open>
  Free nodes are blank and on no chain; a node has at most one predecessor; the chain from the
  main position of a key leads to its node, and the node at the main position of a key is in
  its own main position (Brent's variation); no key is there twice.
\<close>

definition wf_nodes :: "(TValue \<Rightarrow> nat) \<Rightarrow> Node list \<Rightarrow> bool" where
  "wf_nodes mp ns \<longleftrightarrow>
     (\<forall>i < length ns. i_key (ns ! i) = TNil \<longrightarrow> i_next (ns ! i) = None \<and> i_val (ns ! i) = TNil) \<and>
     (\<forall>i < length ns. \<forall>j. i_next (ns ! i) = Some j \<longrightarrow> j < length ns \<and> i_key (ns ! j) \<noteq> TNil) \<and>
     (\<forall>i < length ns. \<forall>i' < length ns. \<forall>j. i_next (ns ! i) = Some j \<longrightarrow> i_next (ns ! i') = Some j \<longrightarrow> i = i') \<and>
     (\<forall>i < length ns. i_key (ns ! i) \<noteq> TNil \<longrightarrow>
        okkey (i_key (ns ! i)) \<and>
        (\<exists>xs. path ns (mp (i_key (ns ! i))) xs \<and> i \<in> set xs) \<and>
        i_key (ns ! mp (i_key (ns ! i))) \<noteq> TNil \<and>
        mp (i_key (ns ! mp (i_key (ns ! i)))) = mp (i_key (ns ! i))) \<and>
     (\<forall>i < length ns. \<forall>j < length ns. i_key (ns ! i) \<noteq> TNil \<longrightarrow>
        luaO_rawequalObj (i_key (ns ! i)) (i_key (ns ! j)) \<longrightarrow> i = j)"

lemma wf_nodesI:
  assumes "\<And>i. i < length ns \<Longrightarrow> i_key (ns ! i) = TNil \<Longrightarrow> i_next (ns ! i) = None \<and> i_val (ns ! i) = TNil"
    and "\<And>i j. i < length ns \<Longrightarrow> i_next (ns ! i) = Some j \<Longrightarrow> j < length ns \<and> i_key (ns ! j) \<noteq> TNil"
    and "\<And>i i' j. i < length ns \<Longrightarrow> i' < length ns \<Longrightarrow> i_next (ns ! i) = Some j \<Longrightarrow>
      i_next (ns ! i') = Some j \<Longrightarrow> i = i'"
    and "\<And>i. i < length ns \<Longrightarrow> i_key (ns ! i) \<noteq> TNil \<Longrightarrow> okkey (i_key (ns ! i))"
    and "\<And>i. i < length ns \<Longrightarrow> i_key (ns ! i) \<noteq> TNil \<Longrightarrow>
      \<exists>xs. path ns (mp (i_key (ns ! i))) xs \<and> i \<in> set xs"
    and "\<And>i. i < length ns \<Longrightarrow> i_key (ns ! i) \<noteq> TNil \<Longrightarrow>
      i_key (ns ! mp (i_key (ns ! i))) \<noteq> TNil \<and> mp (i_key (ns ! mp (i_key (ns ! i)))) = mp (i_key (ns ! i))"
    and "\<And>i j. i < length ns \<Longrightarrow> j < length ns \<Longrightarrow> i_key (ns ! i) \<noteq> TNil \<Longrightarrow>
      luaO_rawequalObj (i_key (ns ! i)) (i_key (ns ! j)) \<Longrightarrow> i = j"
  shows "wf_nodes mp ns"
  unfolding wf_nodes_def by (intro conjI allI impI) (use assms in blast)+

lemma wf_free: "wf_nodes mp ns \<Longrightarrow> i < length ns \<Longrightarrow> i_key (ns ! i) = TNil \<Longrightarrow> i_next (ns ! i) = None \<and> i_val (ns ! i) = TNil"
  unfolding wf_nodes_def by blast

lemma wf_next: "wf_nodes mp ns \<Longrightarrow> i < length ns \<Longrightarrow> i_next (ns ! i) = Some j \<Longrightarrow> j < length ns \<and> i_key (ns ! j) \<noteq> TNil"
  unfolding wf_nodes_def by blast

lemma wf_inj: "wf_nodes mp ns \<Longrightarrow> i < length ns \<Longrightarrow> i' < length ns \<Longrightarrow> i_next (ns ! i) = Some j \<Longrightarrow>
    i_next (ns ! i') = Some j \<Longrightarrow> i = i'"
  unfolding wf_nodes_def by blast

lemma wf_key: "wf_nodes mp ns \<Longrightarrow> i < length ns \<Longrightarrow> i_key (ns ! i) \<noteq> TNil \<Longrightarrow> okkey (i_key (ns ! i))"
  unfolding wf_nodes_def by blast

lemma wf_path: "wf_nodes mp ns \<Longrightarrow> i < length ns \<Longrightarrow> i_key (ns ! i) \<noteq> TNil \<Longrightarrow>
    \<exists>xs. path ns (mp (i_key (ns ! i))) xs \<and> i \<in> set xs"
  unfolding wf_nodes_def by blast

lemma wf_main: "wf_nodes mp ns \<Longrightarrow> i < length ns \<Longrightarrow> i_key (ns ! i) \<noteq> TNil \<Longrightarrow>
    i_key (ns ! mp (i_key (ns ! i))) \<noteq> TNil \<and> mp (i_key (ns ! mp (i_key (ns ! i)))) = mp (i_key (ns ! i))"
  unfolding wf_nodes_def by blast

lemma wf_unique: "wf_nodes mp ns \<Longrightarrow> i < length ns \<Longrightarrow> j < length ns \<Longrightarrow> i_key (ns ! i) \<noteq> TNil \<Longrightarrow>
    luaO_rawequalObj (i_key (ns ! i)) (i_key (ns ! j)) \<Longrightarrow> i = j"
  unfolding wf_nodes_def by blast

lemma path_exists:
  assumes "wf_nodes mp ns" and "i < length ns"
  shows "\<exists>xs. path ns i xs"
proof (cases "i_key (ns ! i) = TNil")
  case True
  then have "path ns i [i]" using wf_free [OF assms True] assms by simp
  then show ?thesis ..
next
  case False
  then obtain xs where "path ns (mp (i_key (ns ! i))) xs" "i \<in> set xs" using wf_path assms by blast
  then show ?thesis using path_at by blast
qed

text \<open>A chain visits used nodes only, after its first.\<close>

lemma path_used:
  assumes wf: "wf_nodes mp ns"
  shows "path ns i xs \<Longrightarrow> x \<in> set xs \<Longrightarrow> x \<noteq> i \<Longrightarrow> i_key (ns ! x) \<noteq> TNil"
proof (induction xs arbitrary: i)
  case (Cons y ys)
  show ?case
  proof (cases "i_next (ns ! i)")
    case None
    then show ?thesis using Cons.prems by simp
  next
    case (Some j)
    then have "path ns j ys" "x \<in> set ys" "i_key (ns ! j) \<noteq> TNil"
      using Cons.prems wf_next [OF wf _ Some] by auto
    then show ?thesis using Cons.IH by metis
  qed
qed simp

section \<open>The invariant of a table\<close>

definition in_array :: "Table \<Rightarrow> TValue \<Rightarrow> bool" where
  "in_array t k \<longleftrightarrow> 0 < arrayindex k \<and> arrayindex k \<le> int (length (array t))"

definition wf_table :: "Table \<Rightarrow> bool" where
  "wf_table t \<longleftrightarrow>
     length (array t) \<le> MAXASIZE \<and> lsizenode t \<le> MAXBITS \<and> length (gnodes t) = sizenode t \<and>
     wf_nodes (mainposition t) (gnodes t) \<and>
     (\<forall>n \<in> set (gnodes t). \<not> in_array t (i_key n)) \<and>
     (if node t = None then lastfree t \<le> 0
      else lastfree t \<le> int (sizenode t) \<and>
        (\<forall>i < sizenode t. lastfree t \<le> int i \<longrightarrow> i_key (gnodes t ! i) \<noteq> TNil))"

text \<open>The places of a table and their keys.\<close>

fun slot_key :: "Table \<Rightarrow> slot \<Rightarrow> TValue" where
  "slot_key t (ArraySlot i) = num (i + 1)"
| "slot_key t (NodeSlot i) = i_key (gnodes t ! i)"

definition slots :: "Table \<Rightarrow> slot list" where
  "slots t = map ArraySlot [0..<length (array t)] @
     map NodeSlot (filter (\<lambda>i. i_key (gnodes t ! i) \<noteq> TNil) [0..<length (gnodes t)])"

text \<open>The reference for the search: look at every place.\<close>

definition lookup_slot :: "Table \<Rightarrow> TValue \<Rightarrow> slot option" where
  "lookup_slot t k = find (\<lambda>s. luaO_rawequalObj (slot_key t s) k) (slots t)"

definition lookup :: "Table \<Rightarrow> TValue \<Rightarrow> TValue" where
  "lookup t k = value_at t (lookup_slot t k)"

lemma MAXASIZE_less: "n \<le> MAXASIZE \<Longrightarrow> n < 2 ^ 31"
  by (simp add: MAXASIZE_def MAXBITS_def)

lemma wf_table_lsize: "wf_table t \<Longrightarrow> lsizenode t < 32"
  by (simp add: wf_table_def MAXBITS_def)

lemma wf_table_mp: "wf_table t \<Longrightarrow> mainposition t k < length (gnodes t)"
  using mainposition_less [OF wf_table_lsize] by (simp add: wf_table_def)

lemma wf_table_nodes: "wf_table t \<Longrightarrow> wf_nodes (mainposition t) (gnodes t)"
  by (simp add: wf_table_def)

lemma in_slots: "s \<in> set (slots t) \<longleftrightarrow> (case s of
    ArraySlot i \<Rightarrow> i < length (array t)
  | NodeSlot i \<Rightarrow> i < length (gnodes t) \<and> i_key (gnodes t ! i) \<noteq> TNil)"
  by (cases s) (auto simp: slots_def)

lemma in_array_num: "0 < i \<Longrightarrow> i < 2 ^ 31 \<Longrightarrow> in_array t (num i) \<longleftrightarrow> i \<le> length (array t)"
  by (simp add: in_array_def arrayindex_num)

lemma in_array_cong: "luaO_rawequalObj a b \<Longrightarrow> in_array t a \<longleftrightarrow> in_array t b"
proof -
  have "in_array t b" if "luaO_rawequalObj a b" "in_array t a" for a b
  proof -
    have "0 < arrayindex a" using that(2) by (simp add: in_array_def)
    from arrayindex_pos [OF this] this that(1) have "b = a"
      using rawequal_num [of "nat (arrayindex a)" b] by simp
    then show ?thesis using that(2) by simp
  qed
  then show "luaO_rawequalObj a b \<Longrightarrow> ?thesis" using rawequal_sym by blast
qed

text \<open>No two places of a table have the same key.\<close>

lemma slots_unique:
  assumes wf: "wf_table t" and s: "s \<in> set (slots t)" and s': "s' \<in> set (slots t)"
    and eq: "luaO_rawequalObj (slot_key t s) (slot_key t s')"
  shows "s = s'"
proof -
  have len: "length (array t) < 2 ^ 31" using wf MAXASIZE_less by (simp add: wf_table_def)
  have arr: "in_array t (slot_key t (ArraySlot i))" if "ArraySlot i \<in> set (slots t)" for i
    using that len by (simp add: in_slots in_array_num)
  have nod: "\<not> in_array t (slot_key t (NodeSlot i))" if "NodeSlot i \<in> set (slots t)" for i
    using that wf by (auto simp: in_slots wf_table_def)
  show ?thesis
  proof (cases s; cases s')
    fix i j assume ij: "s = ArraySlot i" "s' = ArraySlot j"
    then have "i + 1 < 2 ^ 31" "j + 1 < 2 ^ 31" using s s' len by (simp_all add: in_slots)
    then show ?thesis using eq ij num_inj [of "j + 1" "i + 1"] rawequal_num [of "i + 1"] by simp
  next
    fix i j assume "s = NodeSlot i" "s' = NodeSlot j"
    then show ?thesis using s s' eq wf_unique [OF wf_table_nodes [OF wf], of i j] by (simp add: in_slots)
  qed (use arr nod s s' in_array_cong [OF eq] in auto)
qed

lemma find_unique:
  "x \<in> set xs \<Longrightarrow> P x \<Longrightarrow> (\<And>y. y \<in> set xs \<Longrightarrow> P y \<Longrightarrow> y = x) \<Longrightarrow> find P xs = Some x"
proof (induction xs)
  case (Cons a xs)
  show ?case
  proof (cases "P a")
    case True
    then show ?thesis using Cons.prems(3) [of a] by (simp del: not_None_eq)
  next
    case False
    then have "x \<noteq> a" using Cons.prems(2) by blast
    moreover have "find P xs = Some x"
    proof (rule Cons.IH)
      show "x \<in> set xs" using Cons.prems(1) \<open>x \<noteq> a\<close> by simp
      show "P x" by (rule Cons.prems(2))
      show "y = x" if "y \<in> set xs" "P y" for y by (rule Cons.prems(3)) (simp_all add: that)
    qed
    ultimately show ?thesis using False by simp
  qed
qed simp

lemma find_in: "find P xs = Some x \<Longrightarrow> x \<in> set xs \<and> P x"
  by (induction xs) (auto split: if_splits)

lemma lookup_slot_eq:
  assumes "wf_table t" and "s \<in> set (slots t)" and "luaO_rawequalObj (slot_key t s) k"
  shows "lookup_slot t k = Some s"
  unfolding lookup_slot_def
proof (rule find_unique, rule assms(2), rule assms(3))
  fix y assume "y \<in> set (slots t)" "luaO_rawequalObj (slot_key t y) k"
  then show "y = s"
    using slots_unique [OF assms(1)] assms(2,3) rawequal_sym rawequal_trans by metis
qed

lemma lookup_slot_Some:
  "lookup_slot t k = Some s \<Longrightarrow> s \<in> set (slots t) \<and> luaO_rawequalObj (slot_key t s) k"
  unfolding lookup_slot_def by (drule find_in) simp

lemma lookup_slot_None:
  "lookup_slot t k = None \<longleftrightarrow> (\<forall>s \<in> set (slots t). \<not> luaO_rawequalObj (slot_key t s) k)"
  by (auto simp: lookup_slot_def find_None_iff)

text \<open>The chain from the main position of a key is searched in full, and finds its node.\<close>

lemma search_from_nodes:
  assumes wf: "wf_table t" and ok: "okkey k" and P: "\<And>k'. P k' \<longleftrightarrow> luaO_rawequalObj k' k"
    and na: "\<not> in_array t k"
  shows "search_from t (mainposition t k) P = Inr (lookup_slot t k)"
proof -
  let ?ns = "gnodes t"
  note wfn = wf_table_nodes [OF wf]
  obtain xs where xs: "path ?ns (mainposition t k) xs"
    using path_exists [OF wfn wf_table_mp [OF wf]] by blast
  have len: "length (array t) < 2 ^ 31" using wf MAXASIZE_less by (simp add: wf_table_def)
  have "chain_search (length ?ns) P ?ns (mainposition t k) = Inr (find (\<lambda>x. P (i_key (?ns ! x))) xs)"
    using chain_search_path [OF xs path_length [OF xs]] .
  then have search: "search_from t (mainposition t k) P =
      Inr (map_option NodeSlot (find (\<lambda>x. luaO_rawequalObj (i_key (?ns ! x)) k) xs))"
    by (simp add: search_from_def P)
  have nil: "luaO_rawequalObj TNil k \<longleftrightarrow> False" using ok by (cases k) auto
  show ?thesis
  proof (cases "lookup_slot t k")
    case None
    have "\<not> luaO_rawequalObj (i_key (?ns ! x)) k" if "x \<in> set xs" for x
    proof (cases "i_key (?ns ! x) = TNil")
      case False
      then have "NodeSlot x \<in> set (slots t)" using path_less [OF xs that] by (simp add: in_slots)
      then show ?thesis using None by (force simp: lookup_slot_None)
    qed (simp add: nil)
    then have "find (\<lambda>x. luaO_rawequalObj (i_key (?ns ! x)) k) xs = None" by (simp add: find_None_iff)
    then show ?thesis using search None by simp
  next
    case (Some s)
    then have s: "s \<in> set (slots t)" "luaO_rawequalObj (slot_key t s) k"
      using lookup_slot_Some by blast+
    obtain i where i: "s = NodeSlot i"
    proof (cases s)
      case (ArraySlot i)
      then have "in_array t (slot_key t s)" using s len by (simp add: in_slots in_array_num)
      then show ?thesis using in_array_cong [OF s(2)] na by simp
    qed
    have il: "i < length ?ns" "i_key (?ns ! i) \<noteq> TNil" using s(1) by (simp_all add: i in_slots)
    have eq: "luaO_rawequalObj (i_key (?ns ! i)) k" using s(2) by (simp add: i)
    have "i \<in> set xs"
      using wf_path [OF wfn il] xs path_det mainposition_cong [OF eq] by metis
    have "find (\<lambda>x. luaO_rawequalObj (i_key (?ns ! x)) k) xs = Some i"
    proof (rule find_unique, rule \<open>i \<in> set xs\<close>, rule eq)
      fix y assume y: "y \<in> set xs" "luaO_rawequalObj (i_key (?ns ! y)) k"
      then have "luaO_rawequalObj (i_key (?ns ! i)) (i_key (?ns ! y))"
        using eq rawequal_sym rawequal_trans by blast
      from wf_unique [OF wfn il(1) path_less [OF xs y(1)] il(2) this] show "y = i" by simp
    qed
    then show ?thesis using search Some i by simp
  qed
qed

section \<open>Searching\<close>

lemma dbl_finite_or_sign: "dbl_finite (d OR 0x8000000000000000) \<longleftrightarrow> dbl_finite d"
proof -
  have "drop_bit 52 (0x8000000000000000 :: double) = 0x800" by simp
  moreover have "(0x800 AND 0x7FF :: double) = 0" by simp
  ultimately have "drop_bit 52 (d OR 0x8000000000000000) AND 0x7FF = drop_bit 52 d AND 0x7FF"
    by (simp only: drop_bit_or bit.conj_disj_distrib2 or.right_neutral)
  then show ?thesis by (simp only: dbl_finite_def dbl_exp_def)
qed

lemma int_okkey:
  assumes "\<bar>i\<bar> < 2 ^ 53"
  shows "dbl_eq (int_to_double i) (int_to_double i)"
proof -
  have "nat \<bar>i\<bar> < 2 ^ 53" using assms by (simp add: nat_less_iff)
  from nat_to_double_trunc(2) [OF this] have "dbl_finite (int_to_double i)"
    by (auto simp: int_to_double_def dbl_finite_or_sign)
  then show ?thesis by (auto simp: dbl_eq_def dest: not_nan_of_finite)
qed

lemma sint_okkey: "okkey (TNumber (int_to_double (sint (k :: u32))))"
  using sint_lt [of k] sint_ge [of k] by (simp add: int_okkey)

lemma unat_minus_1: "0 < unat k \<Longrightarrow> unat (k - 1 :: u32) = unat k - 1"
  by (simp add: unat_sub word_le_nat_alt)

lemma sint_unat: "unat (k :: u32) < 2 ^ 31 \<Longrightarrow> sint k = int (unat k)"
  using sint_of_nat_small [of "unat k", where 'a = 32] by simp

lemma getnum_range:
  assumes "n < 2 ^ 31"
  shows "k - 1 < (of_nat n :: u32) \<longleftrightarrow> 0 < sint k \<and> sint k \<le> int n"
proof -
  have n: "unat (of_nat n :: u32) = n" using assms by (intro unat_of_nat_small) simp
  have k: "unat k < 2 ^ 32" using unsigned_less [of k, where 'a = nat] by simp
  consider "unat k = 0" | "0 < unat k" "unat k < 2 ^ 31" | "2 ^ 31 \<le> unat k" by linarith
  then show ?thesis
  proof cases
    case 1
    then have "k = 0" by (simp add: unat_eq_0)
    then show ?thesis using assms
      by (simp add: word_less_nat_alt n unsigned_minus_1_eq_mask mask_eq_exp_minus_1)
  next
    case 2
    then have "sint k = int (unat k)" "unat (k - 1) = unat k - 1"
      using sint_unat [of k] unat_minus_1 [of k] by simp_all
    then show ?thesis using 2 by (simp only: word_less_nat_alt n) linarith
  next
    case 3
    then have "unat (k - 1) \<ge> 2 ^ 31 - 1" using unat_minus_1 [of k] by simp
    moreover have "sint k < 0"
    proof -
      have "unat k div 2 ^ 31 = 1" using 3 k by (simp add: div_nat_eqI)
      then have "bit k 31"
        using bit_unsigned_iff [of k 31, where 'a = nat] by (simp add: bit_iff_odd possible_bit_def)
      then show ?thesis using bit_last_iff [of k] by simp
    qed
    ultimately show ?thesis using assms by (simp add: word_less_nat_alt n)
  qed
qed

lemma getnum_lookup:
  assumes wf: "wf_table t"
  shows "luaH_getnum t key = Inr (lookup_slot t (TNumber (int_to_double (sint key))))"
proof -
  let ?k = "TNumber (int_to_double (sint key))"
  have len: "length (array t) < 2 ^ 31" using wf MAXASIZE_less by (simp add: wf_table_def)
  have small: "sint key < 2 ^ 31" using sint_lt [of key] by simp
  show ?thesis
  proof (cases "key - 1 < of_nat (length (array t))")
    case True
    then have r: "0 < sint key" "sint key \<le> int (length (array t))" using getnum_range [OF len] by simp_all
    define i where "i = unat (key - 1)"
    have "unat key < 2 ^ 31"
    proof (rule ccontr)
      assume "\<not> unat key < 2 ^ 31"
      moreover have "i < length (array t)" using True len
        by (simp add: i_def word_less_nat_alt unat_of_nat_small)
      ultimately show False using unat_minus_1 [of key] len by (simp add: i_def)
    qed
    then have s: "sint key = int (unat key)" by (rule sint_unat)
    have "0 < unat key" using r(1) s by linarith
    then have i: "sint key = int (i + 1)" using unat_minus_1 [of key] s unfolding i_def by linarith
    then have "lookup_slot t ?k = Some (ArraySlot i)"
      using r len by (intro lookup_slot_eq [OF wf]) (simp_all add: in_slots num_def int_okkey)
    then show ?thesis using True by (simp add: luaH_getnum_def i_def)
  next
    case False
    then have "\<not> (0 < sint key \<and> sint key \<le> int (length (array t)))" using getnum_range [OF len] by simp
    moreover have "in_array t ?k \<Longrightarrow> 0 < sint key \<and> sint key \<le> int (length (array t))"
    proof -
      assume a: "in_array t ?k"
      then have p: "0 < arrayindex ?k" by (simp add: in_array_def)
      then have "TNumber (int_to_double (sint key)) = num (nat (arrayindex ?k))" by (rule arrayindex_pos(1))
      then have "int_to_double (sint key) = int_to_double (int (nat (arrayindex ?k)))" by (simp add: num_def)
      moreover have "trunc_double (int_to_double (int (nat (arrayindex ?k)))) = arrayindex ?k"
        using arrayindex_pos(2) [OF p] p by (subst int_to_double_trunc) simp_all
      moreover have "trunc_double (int_to_double (sint key)) = sint key" if "0 \<le> sint key"
        using small that by (intro int_to_double_trunc) simp_all
      moreover have "0 \<le> sint key"
      proof (rule ccontr)
        assume n: "\<not> 0 \<le> sint key"
        have "trunc_double (int_to_double (sint key)) \<le> 0"
        proof -
          have "dbl_neg (int_to_double (sint key))" using n by (simp add: int_to_double_def dbl_neg_def bit_simps)
          then show ?thesis by (simp add: trunc_double_def)
        qed
        then show False using calculation p by simp
      qed
      ultimately show ?thesis using a by (simp add: in_array_def)
    qed
    ultimately have "\<not> in_array t ?k" by blast
    then have "search_from t (mainposition t ?k) (\<lambda>k'. case k' of TNumber n \<Rightarrow> dbl_eq n (int_to_double (sint key)) | _ \<Rightarrow> False)
        = Inr (lookup_slot t ?k)"
      by (intro search_from_nodes [OF wf sint_okkey]) (simp_all add: rawequal_iff split: TValue.splits)
    then show ?thesis using False by (simp add: luaH_getnum_def Let_def)
  qed
qed

lemma lookup_slot_cong: "luaO_rawequalObj k k' \<Longrightarrow> lookup_slot t k = lookup_slot t k'"
proof -
  assume "luaO_rawequalObj k k'"
  then have "luaO_rawequalObj x k \<longleftrightarrow> luaO_rawequalObj x k'" for x
    using rawequal_trans rawequal_sym by blast
  then show ?thesis by (simp add: lookup_slot_def)
qed

lemma getstr_lookup: "wf_table t \<Longrightarrow> luaH_getstr t s = Inr (lookup_slot t (TString s))"
  using search_from_nodes [of t "TString s" "\<lambda>k. k = TString s"]
  by (simp add: luaH_getstr_def in_array_def arrayindex_def)

lemma get_lookup:
  assumes wf: "wf_table t" and ok: "okkey k"
  shows "luaH_get t k = Inr (lookup_slot t k)"
proof (cases k)
  case (TNumber n)
  show ?thesis
  proof (cases "dbl_eq (int_to_double (sint (double_to_s32 n))) n")
    case True
    then have "lookup_slot t (TNumber (int_to_double (sint (double_to_s32 n)))) = lookup_slot t k"
      by (intro lookup_slot_cong) (simp add: TNumber)
    then show ?thesis using True getnum_lookup [OF wf, of "double_to_s32 n"]
      by (simp add: luaH_get_def Let_def TNumber)
  next
    case False
    then have "\<not> in_array t k" by (simp add: in_array_def arrayindex_def TNumber Let_def)
    then show ?thesis using False search_from_nodes [OF wf ok, of "\<lambda>k'. luaO_rawequalObj k' k"]
      by (simp add: luaH_get_def Let_def TNumber)
  qed
next
  case (TString s)
  then show ?thesis using getstr_lookup [OF wf] by (simp add: luaH_get_def)
qed (use ok search_from_nodes [OF wf ok, of "\<lambda>k'. luaO_rawequalObj k' k"] in
      \<open>simp_all add: luaH_get_def in_array_def arrayindex_def\<close>)

end
