(* ===== verification/LuaTableInsert.thy ===== *)
theory LuaTableInsert
  imports LuaTableSpec
begin

text \<open>
  Insertion into Lua tables: writing through a place, and the three ways \<open>newkey\<close> places a key
  while there is a free node, keep the invariant and the entries.
\<close>

section \<open>Entries\<close>

definition entries :: "Table \<Rightarrow> (TValue \<times> TValue) set" where
  "entries t = {(slot_key t s, slot_value t s) | s. s \<in> set (slots t) \<and> slot_value t s \<noteq> TNil}"

lemma lookup_entries:
  assumes "wf_table t"
  shows "v \<noteq> TNil \<Longrightarrow> lookup t k = v \<longleftrightarrow> (\<exists>k'. luaO_rawequalObj k' k \<and> (k', v) \<in> entries t)"
proof
  assume v: "v \<noteq> TNil" "lookup t k = v"
  then obtain s where s: "lookup_slot t k = Some s" by (cases "lookup_slot t k") (simp_all add: lookup_def value_at_def)
  then have "s \<in> set (slots t)" "luaO_rawequalObj (slot_key t s) k" using lookup_slot_Some by blast+
  moreover have "slot_value t s = v" using s v(2) by (simp add: lookup_def value_at_def)
  ultimately show "\<exists>k'. luaO_rawequalObj k' k \<and> (k', v) \<in> entries t" using v(1)
    by (auto simp: entries_def)
next
  assume "\<exists>k'. luaO_rawequalObj k' k \<and> (k', v) \<in> entries t"
  then obtain s where "s \<in> set (slots t)" "luaO_rawequalObj (slot_key t s) k" "slot_value t s = v"
    by (auto simp: entries_def)
  then show "lookup t k = v" using lookup_slot_eq [OF assms] by (simp add: lookup_def value_at_def)
qed

text \<open>Tables with the same entries are the same map.\<close>

lemma lookup_eqI:
  assumes "wf_table t" and "wf_table t'" and "entries t' = entries t"
  shows "lookup t' k = lookup t k"
proof (cases "lookup t k = TNil")
  case True
  then show ?thesis
    using lookup_entries [OF assms(2), of "lookup t' k" k] lookup_entries [OF assms(1), of "lookup t' k" k] assms(3)
    by (metis (no_types))
next
  case False
  then show ?thesis using lookup_entries [OF assms(2) False] lookup_entries [OF assms(1) False] assms(3) by metis
qed

definition node_entries :: "Node list \<Rightarrow> (TValue \<times> TValue) set" where
  "node_entries ns = {(i_key n, i_val n) | n. n \<in> set ns \<and> i_val n \<noteq> TNil}"

definition array_entries :: "TValue list \<Rightarrow> (TValue \<times> TValue) set" where
  "array_entries vs = {(num (i + 1), vs ! i) | i. i < length vs \<and> vs ! i \<noteq> TNil}"

lemma node_entries_alt:
  "node_entries ns = {(i_key (ns ! i), i_val (ns ! i)) | i. i < length ns \<and> i_val (ns ! i) \<noteq> TNil}"
  unfolding node_entries_def in_set_conv_nth by blast

lemma entries_split:
  assumes "wf_table t"
  shows "entries t = array_entries (array t) \<union> node_entries (gnodes t)"
proof -
  have used: "i_key (gnodes t ! i) \<noteq> TNil" if "i < length (gnodes t)" "i_val (gnodes t ! i) \<noteq> TNil" for i
    using wf_free [OF wf_table_nodes [OF assms] that(1)] that(2) by blast
  have s: "s \<in> set (slots t) \<longleftrightarrow> (\<exists>i < length (array t). s = ArraySlot i) \<or>
      (\<exists>i < length (gnodes t). i_key (gnodes t ! i) \<noteq> TNil \<and> s = NodeSlot i)" for s
    by (cases s) (auto simp: in_slots)
  show ?thesis
    by (auto simp: entries_def array_entries_def node_entries_alt s) (use used in force)+
qed

section \<open>Writing through a place\<close>

lemma wf_nodes_cong:
  assumes wf: "wf_nodes mp ns" and len: "length ns' = length ns"
    and eq: "\<And>i. i < length ns \<Longrightarrow> i_key (ns' ! i) = i_key (ns ! i) \<and> i_next (ns' ! i) = i_next (ns ! i)"
    and mp: "\<And>k. mp k < length ns"
    and val: "\<And>i. i < length ns \<Longrightarrow> i_key (ns ! i) = TNil \<Longrightarrow> i_val (ns' ! i) = TNil"
  shows "wf_nodes mp ns'"
proof (rule wf_nodesI)
  fix i assume i: "i < length ns'" "i_key (ns' ! i) \<noteq> TNil"
  then have i': "i < length ns" "i_key (ns ! i) \<noteq> TNil" using len eq by simp_all
  obtain xs where xs: "path ns (mp (i_key (ns ! i))) xs" "i \<in> set xs" using wf_path [OF wf i'] by blast
  have "path ns' (mp (i_key (ns ! i))) xs"
    by (rule path_cong [OF xs(1) len]) (use eq path_less [OF xs(1)] in blast)
  then show "\<exists>xs. path ns' (mp (i_key (ns' ! i))) xs \<and> i \<in> set xs" using xs eq [OF i'(1)] by auto
  show "i_key (ns' ! mp (i_key (ns' ! i))) \<noteq> TNil \<and> mp (i_key (ns' ! mp (i_key (ns' ! i)))) = mp (i_key (ns' ! i))"
    using wf_main [OF wf i'] eq [OF i'(1)] eq [OF mp] by simp
  show "okkey (i_key (ns' ! i))" using wf_key [OF wf i'] eq [OF i'(1)] by simp
next
  fix i assume "i < length ns'" "i_key (ns' ! i) = TNil"
  then have "i < length ns" "i_key (ns ! i) = TNil" using len eq by simp_all
  then show "i_next (ns' ! i) = None \<and> i_val (ns' ! i) = TNil"
    using wf_free [OF wf] eq val by simp
next
  fix i j assume "i < length ns'" "i_next (ns' ! i) = Some j"
  then have "j < length ns \<and> i_key (ns ! j) \<noteq> TNil" using len eq wf_next [OF wf, of i j] by simp
  then show "j < length ns' \<and> i_key (ns' ! j) \<noteq> TNil" using len eq by simp
next
  fix i i' j assume "i < length ns'" "i' < length ns'" "i_next (ns' ! i) = Some j" "i_next (ns' ! i') = Some j"
  then show "i = i'" using len eq wf_inj [OF wf, of i i' j] by simp
next
  fix i j assume "i < length ns'" "j < length ns'" "i_key (ns' ! i) \<noteq> TNil"
    "luaO_rawequalObj (i_key (ns' ! i)) (i_key (ns' ! j))"
  then show "i = j" using len eq wf_unique [OF wf, of i j] by simp
qed

lemma gnodes_upd [simp]:
  "gnodes (t\<lparr>array := a\<rparr>) = gnodes t" "gnodes (t\<lparr>node := Some ns\<rparr>) = ns"
  "gnodes (t\<lparr>lastfree := l\<rparr>) = gnodes t" "gnodes (t\<lparr>flags := f\<rparr>) = gnodes t"
  by (simp_all add: gnodes_def)

lemma gnodes_setobj: "s \<in> set (slots t) \<Longrightarrow> gnodes (setobj2t t s v) =
    (case s of ArraySlot i \<Rightarrow> gnodes t | NodeSlot i \<Rightarrow> (gnodes t)[i := (gnodes t ! i)\<lparr>i_val := v\<rparr>])"
  by (cases s) simp_all

lemma slots_node: "NodeSlot i \<in> set (slots t) \<Longrightarrow> node t \<noteq> None"
  by (cases "node t") (auto simp: in_slots gnodes_def dummynode_def)

lemma setobj_fields [simp]:
  "s \<in> set (slots t) \<Longrightarrow> node (setobj2t t s v) = None \<longleftrightarrow> node t = None"
  "lsizenode (setobj2t t s v) = lsizenode t"
  "lastfree (setobj2t t s v) = lastfree t"
  "length (array (setobj2t t s v)) = length (array t)"
  by (cases s; auto dest: slots_node)+

lemma setobj_slots:
  assumes "s \<in> set (slots t)"
  shows "slots (setobj2t t s v) = slots t" and "slot_key (setobj2t t s v) = slot_key t"
proof -
  have k: "i_key (gnodes (setobj2t t s v) ! i) = i_key (gnodes t ! i)" for i
    by (insert assms, cases s) (auto simp: nth_list_update in_slots split: slot.splits)
  show "slot_key (setobj2t t s v) = slot_key t"
    by (rule ext, rename_tac s', case_tac s') (simp_all add: k)
  have "length (gnodes (setobj2t t s v)) = length (gnodes t)" by (insert assms, cases s) simp_all
  then show "slots (setobj2t t s v) = slots t" using assms by (simp add: slots_def k)
qed

lemma setobj_value:
  "s \<in> set (slots t) \<Longrightarrow> slot_value (setobj2t t s v) s' = (if s' = s then v else slot_value t s')"
  by (cases s; cases s') (auto simp: in_slots nth_list_update)

lemma setobj_lookup:
  assumes "s \<in> set (slots t)"
  shows "lookup (setobj2t t s v) k = (if lookup_slot t k = Some s then v else lookup t k)"
proof -
  have "lookup_slot (setobj2t t s v) k = lookup_slot t k"
    by (simp add: lookup_slot_def setobj_slots [OF assms])
  then show ?thesis using setobj_value [OF assms]
    by (simp add: lookup_def value_at_def split: option.splits)
qed

lemma setobj_wf:
  assumes wf: "wf_table t" and s: "s \<in> set (slots t)"
  shows "wf_table (setobj2t t s v)"
proof -
  let ?t = "setobj2t t s v"
  have len: "length (gnodes ?t) = length (gnodes t)" by (insert s, cases s) simp_all
  have k: "i_key (gnodes ?t ! i) = i_key (gnodes t ! i) \<and> i_next (gnodes ?t ! i) = i_next (gnodes t ! i)" for i
    by (insert s, cases s) (auto simp: nth_list_update in_slots split: slot.splits)
  have mp: "mainposition ?t = mainposition t" by (rule mainposition_size) simp
  have "wf_nodes (mainposition t) (gnodes ?t)"
  proof (rule wf_nodes_cong [OF wf_table_nodes [OF wf] len])
    show "i_val (gnodes ?t ! i) = TNil" if "i < length (gnodes t)" "i_key (gnodes t ! i) = TNil" for i
    proof (cases s)
      case (NodeSlot j)
      then have "i \<noteq> j" using s that by (auto simp: in_slots)
      then show ?thesis using NodeSlot s that wf_free [OF wf_table_nodes [OF wf] that] by simp
    qed (use s wf_free [OF wf_table_nodes [OF wf] that] in simp)
  qed (use k wf_table_mp [OF wf] in simp_all)
  moreover have "\<forall>n \<in> set (gnodes ?t). \<not> in_array ?t (i_key n)"
    using wf k len by (simp add: wf_table_def all_set_conv_all_nth in_array_def)
  moreover have "sizenode ?t = sizenode t" by (simp add: sizenode_def)
  ultimately show ?thesis using wf k len s by (simp add: wf_table_def mp split: if_splits)
qed

section \<open>Placing a key\<close>

lemma wf_no_self:
  assumes wf: "wf_nodes mp ns" and i: "i < length ns"
  shows "i_next (ns ! i) \<noteq> Some i"
proof
  assume self: "i_next (ns ! i) = Some i"
  obtain xs where xs: "path ns i xs" using path_exists [OF wf i] ..
  then obtain ys where "xs = i # ys" "path ns i ys" using self by (cases xs) auto
  then show False using path_det [OF xs, of ys] by simp
qed

lemma free_no_pred: "wf_nodes mp ns \<Longrightarrow> x < length ns \<Longrightarrow> i_key (ns ! n) = TNil \<Longrightarrow> i_next (ns ! x) \<noteq> Some n"
  using wf_next by metis

text \<open>A free node is on no chain from the main position of a key.\<close>

lemma free_not_on_path:
  assumes "wf_nodes mp ns" and "i < length ns" and "i_key (ns ! i) \<noteq> TNil"
    and "path ns (mp (i_key (ns ! i))) xs" and "i_key (ns ! n) = TNil"
  shows "n \<notin> set xs"
  using path_used [OF assms(1,4), of n] wf_main [OF assms(1-3)] assms(5) by auto

text \<open>In place: the value at the main position is nil.\<close>

lemma wf_set_key:
  assumes wf: "wf_nodes mp ns" and mp: "\<And>k. mp k < length ns" and ok: "okkey key"
    and val: "i_val (ns ! mp key) = TNil"
    and new: "\<And>i. i < length ns \<Longrightarrow> i_key (ns ! i) \<noteq> TNil \<Longrightarrow> \<not> luaO_rawequalObj (i_key (ns ! i)) key"
  shows "wf_nodes mp (set_key ns (mp key) key)"
proof -
  let ?m = "mp key"
  let ?ns = "set_key ns ?m key"
  have nil: "key \<noteq> TNil" using ok by auto
  have n: "?ns ! i = (if i = ?m then (ns ! ?m)\<lparr>i_key := key\<rparr> else ns ! i)" for i
    by (cases "i = ?m") (simp_all add: set_key_def mp)
  have nx: "i_next (?ns ! i) = i_next (ns ! i)" for i by (simp add: n)
  have len: "length ?ns = length ns" by (simp add: set_key_def)
  have pth: "path ?ns i xs" if "path ns i xs" for i xs
    by (rule path_cong [OF that len]) (simp add: nx)
  show ?thesis
  proof (rule wf_nodesI, unfold len)
    fix i assume i: "i < length ns" "i_key (?ns ! i) = TNil"
    then have "i \<noteq> ?m" "i_key (ns ! i) = TNil" using nil by (auto simp: n split: if_splits)
    then show "i_next (?ns ! i) = None \<and> i_val (?ns ! i) = TNil" using wf_free [OF wf i(1)] by (simp add: n)
  next
    fix i j assume i: "i < length ns" "i_next (?ns ! i) = Some j"
    then have "j < length ns \<and> i_key (ns ! j) \<noteq> TNil" using wf_next [OF wf i(1)] by (simp add: nx)
    then show "j < length ns \<and> i_key (?ns ! j) \<noteq> TNil" using nil by (simp add: n)
  next
    fix i i' j assume "i < length ns" "i' < length ns" "i_next (?ns ! i) = Some j" "i_next (?ns ! i') = Some j"
    then show "i = i'" using wf_inj [OF wf, of i i' j] by (simp add: nx)
  next
    fix i assume i: "i < length ns" "i_key (?ns ! i) \<noteq> TNil"
    show "okkey (i_key (?ns ! i))" using i ok wf_key [OF wf i(1)] by (simp add: n split: if_splits)
    show "\<exists>xs. path ?ns (mp (i_key (?ns ! i))) xs \<and> i \<in> set xs"
    proof (cases "i = ?m")
      case True
      obtain xs where xs: "path ns ?m xs" using path_exists [OF wf mp] ..
      then have "?m \<in> set xs" using path_Cons by force
      then show ?thesis using pth [OF xs] True by (auto simp: n)
    next
      case False
      then show ?thesis using wf_path [OF wf i(1)] i(2) pth by (auto simp: n)
    qed
    show "i_key (?ns ! mp (i_key (?ns ! i))) \<noteq> TNil \<and>
        mp (i_key (?ns ! mp (i_key (?ns ! i)))) = mp (i_key (?ns ! i))"
      using i wf_main [OF wf i(1)] nil by (auto simp: n)
  next
    fix i j assume ij: "i < length ns" "j < length ns" "i_key (?ns ! i) \<noteq> TNil"
      and eq: "luaO_rawequalObj (i_key (?ns ! i)) (i_key (?ns ! j))"
    have "i_key (?ns ! j) \<noteq> TNil" using rawequal_okkey [OF eq ij(3)] by auto
    then show "i = j"
      using ij eq new [of i] new [of j] rawequal_sym [OF eq] wf_unique [OF wf ij(1,2)]
      by (auto simp: n split: if_splits)
  qed
qed

text \<open>Behind the colliding node, which is in its main position: the free node \<open>n\<close>.\<close>

lemma wf_chain_free:
  assumes wf: "wf_nodes mp ns" and mp: "\<And>k. mp k < length ns" and ok: "okkey key"
    and used: "i_key (ns ! mp key) \<noteq> TNil" and main: "mp (i_key (ns ! mp key)) = mp key"
    and n: "n < length ns" "i_key (ns ! n) = TNil"
    and new: "\<And>i. i < length ns \<Longrightarrow> i_key (ns ! i) \<noteq> TNil \<Longrightarrow> \<not> luaO_rawequalObj (i_key (ns ! i)) key"
  shows "wf_nodes mp (set_key (chain_free ns (mp key) n) n key)"
proof -
  let ?m = "mp key"
  let ?ns = "set_key (chain_free ns ?m n) n key"
  have nil: "key \<noteq> TNil" using ok by auto
  have nm: "n \<noteq> ?m" using used n by auto
  have len: "length ?ns = length ns" by (simp add: set_key_def chain_free_def set_next_def Let_def)
  have nth: "?ns ! i = (if i = n then (ns ! n)\<lparr>i_next := i_next (ns ! ?m), i_key := key\<rparr>
      else if i = ?m then (ns ! ?m)\<lparr>i_next := Some n\<rparr> else ns ! i)" for i
    using nm n mp by (simp add: set_key_def chain_free_def set_next_def Let_def nth_list_update)
  have key: "i_key (?ns ! i) = (if i = n then key else i_key (ns ! i))" for i by (simp add: nth)
  have pth: "path ?ns i (concat (map (\<lambda>x. if x = ?m then [?m, n] else [x]) xs))"
    if "path ns i xs" "n \<notin> set xs" for i xs
    by (rule path_insert [OF len n(1) _ _ _ that]) (use nm in \<open>simp_all add: nth\<close>)
  have nextm: "j < length ns \<and> i_key (ns ! j) \<noteq> TNil \<and> j \<noteq> n" if "i < length ns" "i_next (ns ! i) = Some j" for i j
    using wf_next [OF wf that] n(2) by auto
  show ?thesis
  proof (rule wf_nodesI, unfold len)
    fix i assume i: "i < length ns" "i_key (?ns ! i) = TNil"
    then have "i \<noteq> n" "i_key (ns ! i) = TNil" "i \<noteq> ?m" using nil used by (auto simp: key split: if_splits)
    then show "i_next (?ns ! i) = None \<and> i_val (?ns ! i) = TNil" using wf_free [OF wf i(1)] by (simp add: nth)
  next
    fix i j assume i: "i < length ns" "i_next (?ns ! i) = Some j"
    then show "j < length ns \<and> i_key (?ns ! j) \<noteq> TNil" using nextm mp n nil
      by (auto simp: nth key split: if_splits)
  next
    fix i i' j assume i: "i < length ns" "i' < length ns" "i_next (?ns ! i) = Some j" "i_next (?ns ! i') = Some j"
    have other: "i_next (ns ! (if x = n then ?m else x)) = Some j \<and> x \<noteq> ?m"
      if "i_next (?ns ! x) = Some j" "j \<noteq> n" for x
      using that nm by (auto simp: nth split: if_splits)
    have this_n: "x = ?m" if "i_next (?ns ! x) = Some j" "j = n" "x < length ns" for x
      using that nextm [of x n] nextm [of ?m n] mp by (auto simp: nth split: if_splits)
    show "i = i'"
    proof (cases "j = n")
      case True
      then show ?thesis using this_n i by blast
    next
      case False
      have "(if i = n then ?m else i) = (if i' = n then ?m else i')"
        by (rule wf_inj [OF wf]) (use i other [OF _ False] mp in auto)
      then show ?thesis using other [OF i(3) False] other [OF i(4) False] by (auto split: if_splits)
    qed
  next
    fix i assume i: "i < length ns" "i_key (?ns ! i) \<noteq> TNil"
    show "okkey (i_key (?ns ! i))" using i ok wf_key [OF wf i(1)] by (simp add: key split: if_splits)
    show "\<exists>xs. path ?ns (mp (i_key (?ns ! i))) xs \<and> i \<in> set xs"
    proof (cases "i = n")
      case True
      obtain xs where xs: "path ns ?m xs" "?m \<in> set xs" using wf_path [OF wf mp used] main by auto
      have "n \<notin> set xs" using free_not_on_path [OF wf mp used, of xs n] xs main n by simp
      from pth [OF xs(1) this] xs(2) show ?thesis using True by (intro exI conjI) (auto simp: key)
    next
      case False
      then have u: "i_key (ns ! i) \<noteq> TNil" using i by (simp add: key)
      obtain xs where xs: "path ns (mp (i_key (ns ! i))) xs" "i \<in> set xs" using wf_path [OF wf i(1) u] by blast
      from pth [OF xs(1) free_not_on_path [OF wf i(1) u xs(1) n(2)]] xs(2) show ?thesis
        using False by (intro exI [where x = "concat (map (\<lambda>x. if x = ?m then [?m, n] else [x]) xs)"] conjI)
          (auto simp: key)
    qed
    show "i_key (?ns ! mp (i_key (?ns ! i))) \<noteq> TNil \<and>
        mp (i_key (?ns ! mp (i_key (?ns ! i)))) = mp (i_key (?ns ! i))"
    proof (cases "i = n")
      case True
      then show ?thesis using used main nm by (simp add: key)
    next
      case False
      then have "i_key (ns ! i) \<noteq> TNil" using i by (simp add: key)
      with wf_main [OF wf i(1) this] n(2) False show ?thesis by (auto simp: key)
    qed
  next
    fix i j assume ij: "i < length ns" "j < length ns" "i_key (?ns ! i) \<noteq> TNil"
      and eq: "luaO_rawequalObj (i_key (?ns ! i)) (i_key (?ns ! j))"
    have "i_key (?ns ! j) \<noteq> TNil" using rawequal_okkey [OF eq ij(3)] by auto
    then show "i = j"
      using ij eq new [of i] new [of j] rawequal_sym [OF eq] wf_unique [OF wf ij(1,2)]
      by (auto simp: key split: if_splits)
  qed
qed

text \<open>
  The colliding node is out of its main position: it moves to the free node \<open>n\<close>, its predecessor
  \<open>q\<close> points there, and its place is for the new key.
\<close>

lemma wf_move:
  assumes wf: "wf_nodes mp ns" and mp: "\<And>k. mp k < length ns" and ok: "okkey key"
    and used: "i_key (ns ! mp key) \<noteq> TNil" and other: "mp (i_key (ns ! mp key)) \<noteq> mp key"
    and n: "n < length ns" "i_key (ns ! n) = TNil"
    and q: "q < length ns" "i_next (ns ! q) = Some (mp key)"
    and new: "\<And>i. i < length ns \<Longrightarrow> i_key (ns ! i) \<noteq> TNil \<Longrightarrow> \<not> luaO_rawequalObj (i_key (ns ! i)) key"
  shows "wf_nodes mp (set_key (move_colliding ns q (mp key) n) (mp key) key)"
proof -
  let ?m = "mp key"
  let ?ns = "set_key (move_colliding ns q ?m n) ?m key"
  have nil: "key \<noteq> TNil" using ok by auto
  have nm: "n \<noteq> ?m" using used n by auto
  have qm: "q \<noteq> ?m" using wf_no_self [OF wf q(1)] q(2) by auto
  have qn: "q \<noteq> n" using wf_free [OF wf n] q(2) by auto
  have len: "length ?ns = length ns" by (simp add: set_key_def move_colliding_def set_next_def Let_def)
  have nth: "?ns ! i = (if i = ?m then \<lparr>i_val = TNil, i_key = key, i_next = None\<rparr>
      else if i = n then ns ! ?m
      else if i = q then (ns ! q)\<lparr>i_next := Some n\<rparr> else ns ! i)" for i
    using nm qm qn n(1) q(1) mp [of key]
    by (simp add: set_key_def move_colliding_def set_next_def Let_def nth_list_update)
  have key: "i_key (?ns ! i) = (if i = ?m then key else if i = n then i_key (ns ! ?m) else i_key (ns ! i))" for i
    by (simp add: nth)
  have pth: "path ?ns (if i = ?m then n else i) (map (\<lambda>x. if x = ?m then n else x) xs)"
    if "path ns i xs" "n \<notin> set xs" for i xs
  proof (rule path_move [where q = q, OF len n(1) nm [symmetric] qm qn _ _ _ q(2) _ that])
    show "i_next (?ns ! q) = Some n" using qm qn by (simp add: nth)
    show "i_next (?ns ! n) = i_next (ns ! ?m)" using nm by (simp add: nth)
    show "i_next (?ns ! x) = i_next (ns ! x)" if "x \<noteq> q" "x \<noteq> n" "x \<noteq> ?m" for x
      using that by (simp add: nth)
    show "x = q" if "x < length ns" "i_next (ns ! x) = Some ?m" for x
      using wf_inj [OF wf that(1) q(1) that(2) q(2)] .
  qed
  have nextm: "j < length ns \<and> i_key (ns ! j) \<noteq> TNil \<and> j \<noteq> n" if "i < length ns" "i_next (ns ! i) = Some j" for i j
    using wf_next [OF wf that] n(2) by auto
  have not_m: "mp (i_key (ns ! i)) \<noteq> ?m" if "i < length ns" "i_key (ns ! i) \<noteq> TNil" for i
    using wf_main [OF wf that] other by auto
  text \<open>The old place of a used node other than the new key's.\<close>
  define old where "old i = (if i = n then ?m else i)" for i
  have old: "old i < length ns \<and> i_key (ns ! old i) \<noteq> TNil \<and> i_key (?ns ! i) = i_key (ns ! old i)"
    if "i < length ns" "i_key (?ns ! i) \<noteq> TNil" "i \<noteq> ?m" for i
    using that used mp nm by (auto simp: old_def key)
  have oldinj: "old i = old j \<Longrightarrow> i = j" if "i \<noteq> ?m" "j \<noteq> ?m" for i j
    using that by (auto simp: old_def split: if_splits)
  show ?thesis
  proof (rule wf_nodesI, unfold len)
    fix i assume i: "i < length ns" "i_key (?ns ! i) = TNil"
    then have "i \<noteq> n" "i_key (ns ! i) = TNil" "i \<noteq> ?m" using nil used nm by (auto simp: key split: if_splits)
    moreover have "i \<noteq> q" using calculation wf_free [OF wf i(1)] q(2) by auto
    ultimately show "i_next (?ns ! i) = None \<and> i_val (?ns ! i) = TNil" using wf_free [OF wf i(1)] by (simp add: nth)
  next
    fix i j assume i: "i < length ns" "i_next (?ns ! i) = Some j"
    have "j = n \<or> (j < length ns \<and> i_key (ns ! j) \<noteq> TNil)"
      using i nextm [of i j] nextm [of ?m j] mp by (auto simp: nth split: if_splits)
    then show "j < length ns \<and> i_key (?ns ! j) \<noteq> TNil" using nil used n nm by (auto simp: key)
  next
    fix i i' j assume i: "i < length ns" "i' < length ns" "i_next (?ns ! i) = Some j" "i_next (?ns ! i') = Some j"
    have to_n: "x = q" if "i_next (?ns ! x) = Some j" "j = n" "x < length ns" for x
      using that nextm [of x n] nextm [of ?m n] mp by (auto simp: nth split: if_splits)
    have to_other: "i_next (ns ! old x) = Some j \<and> x \<noteq> ?m" if "i_next (?ns ! x) = Some j" "j \<noteq> n" for x
      using that nm by (auto simp: nth old_def split: if_splits)
    show "i = i'"
    proof (cases "j = n")
      case True
      then show ?thesis using to_n i by blast
    next
      case False
      have "old i < length ns" "old i' < length ns" using i mp by (simp_all add: old_def)
      then have "old i = old i'" using wf_inj [OF wf] to_other [OF i(3) False] to_other [OF i(4) False] by blast
      then show ?thesis using oldinj to_other [OF i(3) False] to_other [OF i(4) False] by blast
    qed
  next
    fix i assume i: "i < length ns" "i_key (?ns ! i) \<noteq> TNil"
    show "okkey (i_key (?ns ! i))"
    proof (cases "i = ?m")
      case False
      then show ?thesis using old [OF i] wf_key [OF wf] by metis
    qed (simp add: key ok)
    show "\<exists>xs. path ?ns (mp (i_key (?ns ! i))) xs \<and> i \<in> set xs"
    proof (cases "i = ?m")
      case True
      then have "path ?ns (mp (i_key (?ns ! i))) [?m]" using mp len by (simp add: nth)
      then have "path ?ns (mp (i_key (?ns ! i))) [?m] \<and> i \<in> set [?m]" using True by (simp del: path.simps)
      then show ?thesis by blast
    next
      case False
      note o = old [OF i False]
      obtain xs where xs: "path ns (mp (i_key (ns ! old i))) xs" "old i \<in> set xs" using wf_path [OF wf] o by blast
      have nx: "n \<notin> set xs" using free_not_on_path [OF wf _ _ xs(1) n(2)] o by blast
      then have "i \<in> set (map (\<lambda>x. if x = ?m then n else x) xs)"
        using xs(2) False by (auto simp: old_def image_iff split: if_splits)
      then show ?thesis using pth [OF xs(1) nx] not_m [of "old i"] o by (intro exI conjI) auto
    qed
    show "i_key (?ns ! mp (i_key (?ns ! i))) \<noteq> TNil \<and>
        mp (i_key (?ns ! mp (i_key (?ns ! i)))) = mp (i_key (?ns ! i))"
    proof (cases "i = ?m")
      case False
      note o = old [OF i False]
      then have u: "old i < length ns" "i_key (ns ! old i) \<noteq> TNil" by simp_all
      have "mp (i_key (ns ! old i)) \<noteq> n" using wf_main [OF wf u] n(2) by auto
      then have "i_key (?ns ! mp (i_key (ns ! old i))) = i_key (ns ! mp (i_key (ns ! old i)))"
        using not_m [OF u] by (simp add: key)
      then show ?thesis using wf_main [OF wf u] o by simp
    qed (simp add: key nil)
  next
    fix i j assume ij: "i < length ns" "j < length ns" "i_key (?ns ! i) \<noteq> TNil"
      and eq: "luaO_rawequalObj (i_key (?ns ! i)) (i_key (?ns ! j))"
    have jn: "i_key (?ns ! j) \<noteq> TNil" using rawequal_okkey [OF eq ij(3)] by auto
    show "i = j"
    proof (cases "i = ?m"; cases "j = ?m")
      assume "i \<noteq> ?m" "j \<noteq> ?m"
      then show ?thesis using old [OF ij(1,3)] old [OF ij(2) jn] eq wf_unique [OF wf, of "old i" "old j"] oldinj by metis
    next
      assume "i = ?m" "j \<noteq> ?m"
      then show ?thesis using old [OF ij(2) jn] new [of "old j"] rawequal_sym [OF eq] by (simp add: key)
    next
      assume "i \<noteq> ?m" "j = ?m"
      then show ?thesis using old [OF ij(1,3)] new [of "old i"] eq by (simp add: key)
    qed simp
  qed
qed

section \<open>New keys\<close>

definition used :: "Node list \<Rightarrow> nat" where
  "used ns = length (filter (\<lambda>n. i_key n \<noteq> TNil) ns)"

lemma used_alt: "used ns = card {i. i < length ns \<and> i_key (ns ! i) \<noteq> TNil}"
  by (simp add: used_def length_filter_conv_card)

lemma used_le: "used ns \<le> length ns"
  by (simp add: used_def)

lemma used_insert:
  assumes "length ns' = length ns"
    and "\<And>i. i < length ns \<Longrightarrow> i \<noteq> n \<Longrightarrow> i_key (ns' ! i) \<noteq> TNil \<Longrightarrow> i_key (ns ! i) \<noteq> TNil"
  shows "used ns' \<le> Suc (used ns)"
proof -
  let ?S = "{i. i < length ns \<and> i_key (ns ! i) \<noteq> TNil}"
  have "card {i. i < length ns' \<and> i_key (ns' ! i) \<noteq> TNil} \<le> card (insert n ?S)"
    by (rule card_mono) (use assms in auto)
  also have "\<dots> \<le> Suc (card ?S)" by (simp add: card_insert_if)
  finally show ?thesis by (simp only: used_alt)
qed

lemma full_iff: "used ns = length ns \<longleftrightarrow> (\<forall>n \<in> set ns. i_key n \<noteq> TNil)"
  by (metis (mono_tags, lifting) used_def filter_True length_filter_less not_less_iff_gr_or_eq)

lemma getfreepos_loop_spec:
  "i \<le> length ns \<Longrightarrow> \<forall>j < length ns. i \<le> j \<longrightarrow> i_key (ns ! j) \<noteq> TNil \<Longrightarrow>
    (case getfreepos_loop ns i of
       (l, None) \<Rightarrow> l = - 1 \<and> (\<forall>n \<in> set ns. i_key n \<noteq> TNil)
     | (l, Some n) \<Rightarrow> l = int n \<and> n < length ns \<and> i_key (ns ! n) = TNil \<and>
         (\<forall>j < length ns. n < j \<longrightarrow> i_key (ns ! j) \<noteq> TNil))"
proof (induction i)
  case 0
  then show ?case by (simp add: all_set_conv_all_nth)
next
  case (Suc i)
  show ?case
  proof (cases "i_key (ns ! i) = TNil")
    case True
    then show ?thesis using Suc.prems by simp
  next
    case False
    then have "\<forall>j < length ns. i \<le> j \<longrightarrow> i_key (ns ! j) \<noteq> TNil"
      using Suc.prems(2) by (metis Suc_leI le_neq_implies_less)
    then show ?thesis using Suc.IH Suc.prems(1) False by simp
  qed
qed

lemma wf_lastfree_full:
  assumes "wf_table t" and "l \<le> int (sizenode t)" and "node t = None \<longrightarrow> l \<le> 0"
    and "node t \<noteq> None \<longrightarrow> (\<forall>n \<in> set (gnodes t). i_key n \<noteq> TNil)"
  shows "wf_table (t\<lparr>lastfree := l\<rparr>)"
proof -
  have "mainposition (t\<lparr>lastfree := l\<rparr>) = mainposition t" by (rule mainposition_size) simp
  moreover have "sizenode (t\<lparr>lastfree := l\<rparr>) = sizenode t" by (simp add: sizenode_def)
  ultimately show ?thesis using assms
    by (auto simp: wf_table_def in_array_def all_set_conv_all_nth split: if_splits)
qed

text \<open>What \<open>newkey\<close> promises: a place for the key, with no value yet, in a table with the same entries.\<close>

definition placed :: "Table \<Rightarrow> TValue \<Rightarrow> Table \<Rightarrow> slot \<Rightarrow> bool" where
  "placed t key t' s \<longleftrightarrow>
     wf_table t' \<and> s \<in> set (slots t') \<and> slot_key t' s = key \<and> slot_value t' s = TNil \<and>
     entries t' = entries t \<and> array t' = array t \<and> lsizenode t' = lsizenode t \<and>
     node t' \<noteq> None \<and> flags t' = flags t \<and> metatable t' = metatable t \<and>
     used (gnodes t') \<le> Suc (used (gnodes t))"

lemma placedI:
  assumes wf: "wf_table t" and na: "\<not> in_array t key" and key: "key \<noteq> TNil"
    and wfn: "wf_nodes (mainposition t) ns'" and len: "length ns' = length (gnodes t)"
    and l: "l \<le> int (sizenode t)" "\<forall>i < sizenode t. l \<le> int i \<longrightarrow> i_key (ns' ! i) \<noteq> TNil"
    and keys: "\<And>j. j < length ns' \<Longrightarrow> i_key (ns' ! j) = key \<or>
      (\<exists>j' < length (gnodes t). i_key (ns' ! j) = i_key (gnodes t ! j'))"
    and s: "i < length ns'" "i_key (ns' ! i) = key" "i_val (ns' ! i) = TNil"
    and ent: "node_entries ns' = node_entries (gnodes t)"
    and us: "used ns' \<le> Suc (used (gnodes t))"
    and t': "t' = t\<lparr>lastfree := l, node := Some ns'\<rparr>"
  shows "placed t key t' (NodeSlot i)"
proof -
  have g: "gnodes t' = ns'" by (simp add: t' gnodes_def)
  have mp: "mainposition t' = mainposition t" by (rule mainposition_size) (simp add: t')
  have sz: "sizenode t' = sizenode t" by (simp add: sizenode_def t')
  have ia: "in_array t' = in_array t" by (rule ext) (simp add: in_array_def t')
  have "\<forall>n \<in> set (gnodes t). \<not> in_array t (i_key n)" using wf by (simp add: wf_table_def)
  then have "\<not> in_array t (i_key n)" if "n \<in> set ns'" for n
    using keys na that by (metis in_set_conv_nth nth_mem)
  then have wf': "wf_table t'" using wf wfn len l by (simp add: wf_table_def g mp sz ia) (simp add: t')
  moreover have "entries t' = entries t" using ent by (simp add: entries_split wf wf' g) (simp add: t')
  ultimately show ?thesis using s key us by (simp add: placed_def in_slots g) (simp add: t')
qed

lemma node_entries_eqI:
  assumes "length ns' = length ns"
    and "\<And>i. i < length ns \<Longrightarrow> i_val (ns ! i) \<noteq> TNil \<Longrightarrow>
      \<exists>j < length ns. i_val (ns' ! j) = i_val (ns ! i) \<and> i_key (ns' ! j) = i_key (ns ! i)"
    and "\<And>i. i < length ns \<Longrightarrow> i_val (ns' ! i) \<noteq> TNil \<Longrightarrow>
      \<exists>j < length ns. i_val (ns ! j) = i_val (ns' ! i) \<and> i_key (ns ! j) = i_key (ns' ! i)"
  shows "node_entries ns' = node_entries ns"
proof (intro equalityI subsetI)
  fix x assume "x \<in> node_entries ns"
  then obtain i where i: "i < length ns" "i_val (ns ! i) \<noteq> TNil" "x = (i_key (ns ! i), i_val (ns ! i))"
    by (auto simp: node_entries_alt)
  from assms(2) [OF i(1,2)] obtain j where "j < length ns" "i_val (ns' ! j) = i_val (ns ! i)"
    "i_key (ns' ! j) = i_key (ns ! i)" by blast
  then show "x \<in> node_entries ns'" using i(2,3) assms(1) unfolding node_entries_alt by (auto intro!: exI [of _ j])
next
  fix x assume "x \<in> node_entries ns'"
  then obtain i where i: "i < length ns" "i_val (ns' ! i) \<noteq> TNil" "x = (i_key (ns' ! i), i_val (ns' ! i))"
    using assms(1) by (auto simp: node_entries_alt)
  from assms(3) [OF i(1,2)] obtain j where "j < length ns" "i_val (ns ! j) = i_val (ns' ! i)"
    "i_key (ns ! j) = i_key (ns' ! i)" by blast
  then show "x \<in> node_entries ns" using i(2,3) unfolding node_entries_alt by (auto intro!: exI [of _ j])
qed


lemma lookup_none_new:
  assumes "lookup_slot t key = None" and "i < length (gnodes t)" and "i_key (gnodes t ! i) \<noteq> TNil"
  shows "\<not> luaO_rawequalObj (i_key (gnodes t ! i)) key"
  using assms by (auto simp: lookup_slot_None in_slots dest!: bspec [where x = "NodeSlot i"])

lemma lookup_none_array:
  assumes wf: "wf_table t" and "lookup_slot t key = None"
  shows "\<not> in_array t key"
proof
  assume a: "in_array t key"
  let ?i = "nat (arrayindex key)"
  have k: "key = num ?i" "?i < 2 ^ 31" using arrayindex_pos [of key] a by (simp_all add: in_array_def)
  have "?i - 1 < length (array t)" "0 < ?i" using a by (auto simp: in_array_def)
  then have "ArraySlot (?i - 1) \<in> set (slots t)" "slot_key t (ArraySlot (?i - 1)) = key"
    using k(1) by (simp_all add: in_slots)
  moreover have "luaO_rawequalObj key key" using k by (metis okkey_num okkey_def)
  ultimately show False using assms(2) by (auto simp: lookup_slot_None)
qed

lemma place_main:
  assumes wf: "wf_table t" and ok: "okkey key" and new: "lookup_slot t key = None"
    and val: "i_val (gnodes t ! mainposition t key) = TNil" and nd: "node t \<noteq> None"
  shows "placed t key (t\<lparr>node := Some (set_key (gnodes t) (mainposition t key) key)\<rparr>) (NodeSlot (mainposition t key))"
proof -
  let ?m = "mainposition t key" and ?ns = "gnodes t"
  let ?ns' = "set_key ?ns ?m key"
  note mp = wf_table_mp [OF wf] and wfn = wf_table_nodes [OF wf]
  have nil: "key \<noteq> TNil" using ok by auto
  have nth: "?ns' ! i = (if i = ?m then (?ns ! ?m)\<lparr>i_key := key\<rparr> else ?ns ! i)" for i
    by (cases "i = ?m") (simp_all add: set_key_def mp)
  have len: "length ?ns' = length ?ns" by (simp add: set_key_def)
  have lf: "lastfree t \<le> int (sizenode t)" "\<forall>i < sizenode t. lastfree t \<le> int i \<longrightarrow> i_key (?ns ! i) \<noteq> TNil"
    using wf nd by (simp_all add: wf_table_def split: if_splits)
  show ?thesis
  proof (rule placedI [OF wf lookup_none_array [OF wf new] nil, where l = "lastfree t" and ns' = ?ns'])
    show "wf_nodes (mainposition t) ?ns'"
      by (rule wf_set_key [OF wfn mp ok val lookup_none_new [OF new]])
    show "\<forall>i < sizenode t. lastfree t \<le> int i \<longrightarrow> i_key (?ns' ! i) \<noteq> TNil" using lf(2) nil by (simp add: nth)
    show "i_key (?ns' ! j) = key \<or> (\<exists>j' < length ?ns. i_key (?ns' ! j) = i_key (?ns ! j'))"
      if "j < length ?ns'" for j
      using that by (cases "j = ?m") (auto simp: nth len)
    show "node_entries ?ns' = node_entries ?ns"
      by (rule node_entries_eqI [OF len]; rename_tac i; rule_tac x = i in exI) (use val in \<open>auto simp: nth\<close>)
    show "used ?ns' \<le> Suc (used ?ns)" by (rule used_insert [OF len, of ?m]) (simp add: nth)
  qed (use len lf mp val in \<open>simp_all add: nth\<close>)
qed

lemma place_behind:
  assumes wf: "wf_table t" and ok: "okkey key" and new: "lookup_slot t key = None"
    and val: "i_val (gnodes t ! mainposition t key) \<noteq> TNil"
    and main: "mainposition t (i_key (gnodes t ! mainposition t key)) = mainposition t key"
    and n: "n < length (gnodes t)" "i_key (gnodes t ! n) = TNil"
      "\<forall>j < length (gnodes t). n < j \<longrightarrow> i_key (gnodes t ! j) \<noteq> TNil"
  shows "placed t key (t\<lparr>lastfree := int n, node := Some (set_key (chain_free (gnodes t) (mainposition t key) n) n key)\<rparr>)
    (NodeSlot n)"
proof -
  let ?m = "mainposition t key" and ?ns = "gnodes t"
  let ?ns' = "set_key (chain_free ?ns ?m n) n key"
  note mp = wf_table_mp [OF wf] and wfn = wf_table_nodes [OF wf]
  have nil: "key \<noteq> TNil" using ok by auto
  have free: "i_val (?ns ! n) = TNil" using wf_free [OF wfn n(1,2)] by simp
  have us: "i_key (?ns ! ?m) \<noteq> TNil" using wf_free [OF wfn mp] val by blast
  have nm: "n \<noteq> ?m" using us n by auto
  have len: "length ?ns' = length ?ns" by (simp add: set_key_def chain_free_def set_next_def Let_def)
  have key: "i_key (?ns' ! i) = (if i = n then key else i_key (?ns ! i))"
    and vals: "i_val (?ns' ! i) = i_val (?ns ! i)" for i
    using nm n mp by (simp_all add: set_key_def chain_free_def set_next_def Let_def nth_list_update)
  have sz: "sizenode t = length ?ns" using wf by (simp add: wf_table_def)
  show ?thesis
  proof (rule placedI [OF wf lookup_none_array [OF wf new] nil, where l = "int n" and ns' = ?ns'])
    show "wf_nodes (mainposition t) ?ns'"
      by (rule wf_chain_free [OF wfn mp ok us main n(1,2) lookup_none_new [OF new]])
    show "\<forall>i < sizenode t. int n \<le> int i \<longrightarrow> i_key (?ns' ! i) \<noteq> TNil" using n nil by (simp add: key sz)
    show "i_key (?ns' ! j) = key \<or> (\<exists>j' < length ?ns. i_key (?ns' ! j) = i_key (?ns ! j'))"
      if "j < length ?ns'" for j
      using that by (cases "j = n") (auto simp: key len)
    show "node_entries ?ns' = node_entries ?ns"
      by (rule node_entries_eqI [OF len]; rename_tac i; rule_tac x = i in exI) (use free in \<open>auto simp: key vals\<close>)
    show "used ?ns' \<le> Suc (used ?ns)" by (rule used_insert [OF len, of n]) (simp add: key)
  qed (use len n free sz in \<open>simp_all add: key vals\<close>)
qed

lemma place_move:
  assumes wf: "wf_table t" and ok: "okkey key" and new: "lookup_slot t key = None"
    and val: "i_val (gnodes t ! mainposition t key) \<noteq> TNil"
    and other: "mainposition t (i_key (gnodes t ! mainposition t key)) \<noteq> mainposition t key"
    and n: "n < length (gnodes t)" "i_key (gnodes t ! n) = TNil"
      "\<forall>j < length (gnodes t). n < j \<longrightarrow> i_key (gnodes t ! j) \<noteq> TNil"
    and q: "q < length (gnodes t)" "i_next (gnodes t ! q) = Some (mainposition t key)"
  shows "placed t key (t\<lparr>lastfree := int n, node := Some (set_key (move_colliding (gnodes t) q (mainposition t key) n)
    (mainposition t key) key)\<rparr>) (NodeSlot (mainposition t key))"
proof -
  let ?m = "mainposition t key" and ?ns = "gnodes t"
  let ?ns' = "set_key (move_colliding ?ns q ?m n) ?m key"
  note mp = wf_table_mp [OF wf] and wfn = wf_table_nodes [OF wf]
  have nil: "key \<noteq> TNil" using ok by auto
  have free: "i_val (?ns ! n) = TNil" using wf_free [OF wfn n(1,2)] by simp
  have us: "i_key (?ns ! ?m) \<noteq> TNil" using wf_free [OF wfn mp] val by blast
  have nm: "n \<noteq> ?m" using us n by auto
  have qm: "q \<noteq> ?m" using wf_no_self [OF wfn q(1)] q(2) by auto
  have qn: "q \<noteq> n" using wf_free [OF wfn n(1,2)] q(2) by auto
  have len: "length ?ns' = length ?ns" by (simp add: set_key_def move_colliding_def set_next_def Let_def)
  have key: "i_key (?ns' ! i) = (if i = ?m then key else if i = n then i_key (?ns ! ?m) else i_key (?ns ! i))"
    and vals: "i_val (?ns' ! i) = (if i = ?m then TNil else if i = n then i_val (?ns ! ?m) else i_val (?ns ! i))" for i
    using nm qm qn n(1) q(1) mp [of key]
    by (simp_all add: set_key_def move_colliding_def set_next_def Let_def nth_list_update)
  have sz: "sizenode t = length ?ns" using wf by (simp add: wf_table_def)
  show ?thesis
  proof (rule placedI [OF wf lookup_none_array [OF wf new] nil, where l = "int n" and ns' = ?ns'])
    show "wf_nodes (mainposition t) ?ns'"
      by (rule wf_move [OF wfn mp ok us other n(1,2) q lookup_none_new [OF new]])
    show "\<forall>i < sizenode t. int n \<le> int i \<longrightarrow> i_key (?ns' ! i) \<noteq> TNil" using n nil us by (simp add: key sz)
    show "i_key (?ns' ! j) = key \<or> (\<exists>j' < length ?ns. i_key (?ns' ! j) = i_key (?ns ! j'))"
      if "j < length ?ns'" for j
      using that mp [of key] nm by (cases "j = ?m"; cases "j = n") (auto simp: key len)
    show "node_entries ?ns' = node_entries ?ns"
    proof (rule node_entries_eqI [OF len])
      fix i assume i: "i < length ?ns" "i_val (?ns ! i) \<noteq> TNil"
      show "\<exists>j < length ?ns. i_val (?ns' ! j) = i_val (?ns ! i) \<and> i_key (?ns' ! j) = i_key (?ns ! i)"
      proof (cases "i = ?m")
        case True
        then show ?thesis using n(1) nm by (intro exI [of _ n]) (simp add: key vals)
      next
        case False
        then have "i \<noteq> n" using i free by auto
        then show ?thesis using False i by (intro exI [of _ i]) (simp add: key vals)
      qed
    next
      fix i assume i: "i < length ?ns" "i_val (?ns' ! i) \<noteq> TNil"
      then have "i \<noteq> ?m" by (auto simp: vals)
      then show "\<exists>j < length ?ns. i_val (?ns ! j) = i_val (?ns' ! i) \<and> i_key (?ns ! j) = i_key (?ns' ! i)"
        using i mp [of key] by (intro exI [of _ "if i = n then ?m else i"]) (simp add: key vals)
    qed
    show "used ?ns' \<le> Suc (used ?ns)" by (rule used_insert [OF len, of n]) (use us in \<open>auto simp: key split: if_splits\<close>)
  qed (use len n sz mp in \<open>simp_all add: key vals\<close>)
qed

text \<open>Without a free node the table is as it was, but for the spent \<open>lastfree\<close>.\<close>

lemma getfreepos_spec:
  assumes wf: "wf_table t"
  obtains l where "getfreepos t = (t\<lparr>lastfree := l\<rparr>, None)" and "wf_table (t\<lparr>lastfree := l\<rparr>)"
      and "node t = None \<or> used (gnodes t) = length (gnodes t)"
  | n where "getfreepos t = (t\<lparr>lastfree := int n\<rparr>, Some n)" and "node t \<noteq> None"
      and "n < length (gnodes t)" and "i_key (gnodes t ! n) = TNil"
      and "\<forall>j < length (gnodes t). n < j \<longrightarrow> i_key (gnodes t ! j) \<noteq> TNil"
proof (cases "node t")
  case None
  then have "lastfree t \<le> 0" using wf by (simp add: wf_table_def)
  then show ?thesis using None wf
    by (intro that(1) [of "lastfree t - 1"]) (simp_all add: getfreepos_def wf_lastfree_full)
next
  case (Some ns)
  have lf: "lastfree t \<le> int (length (gnodes t))"
    "\<forall>j < length (gnodes t). lastfree t \<le> int j \<longrightarrow> i_key (gnodes t ! j) \<noteq> TNil"
    using wf Some by (simp_all add: wf_table_def)
  show ?thesis
  proof (cases "lastfree t > 0")
    case False
    then have full: "\<forall>n \<in> set (gnodes t). i_key n \<noteq> TNil" using lf(2) by (simp add: all_set_conv_all_nth)
    have full_sz: "sizenode t = length (gnodes t)" using wf by (simp add: wf_table_def)
    show ?thesis using full False wf Some lf(1)
      by (intro that(1) [of "lastfree t - 1"])
        (simp_all add: getfreepos_def wf_lastfree_full full_iff full_sz)
  next
    case True
    obtain l r where lr: "getfreepos_loop (gnodes t) (nat (lastfree t)) = (l, r)" by fastforce
    have "nat (lastfree t) \<le> length (gnodes t)" using lf(1) by simp
    moreover have "\<forall>j < length (gnodes t). nat (lastfree t) \<le> j \<longrightarrow> i_key (gnodes t ! j) \<noteq> TNil"
      using lf(2) by simp
    ultimately have spec: "case r of None \<Rightarrow> l = - 1 \<and> (\<forall>n \<in> set (gnodes t). i_key n \<noteq> TNil)
       | Some n \<Rightarrow> l = int n \<and> n < length (gnodes t) \<and> i_key (gnodes t ! n) = TNil \<and>
           (\<forall>j < length (gnodes t). n < j \<longrightarrow> i_key (gnodes t ! j) \<noteq> TNil)"
      using getfreepos_loop_spec [of "nat (lastfree t)" "gnodes t"] by (simp add: lr)
    show ?thesis
    proof (cases r)
      case None
      then show ?thesis using spec True lr wf
        by (intro that(1) [of l]) (simp_all add: getfreepos_def wf_lastfree_full full_iff)
    next
      case r: (Some n)
      then show ?thesis using spec True lr Some
        by (intro that(2) [of n]) (simp_all add: getfreepos_def)
    qed
  qed
qed

text \<open>
  \<open>newkey\<close> places the key, or hands over to \<open>grow\<close> when there is no hash part or all its nodes
  are used.
\<close>

lemma newkey_spec:
  assumes wf: "wf_table t" and ok: "okkey key" and new: "lookup_slot t key = None"
  obtains t' s where "newkey_with grow t key = Inr (t', s)" and "placed t key t' s" and "node t \<noteq> None"
  | l where "newkey_with grow t key = grow (t\<lparr>lastfree := l\<rparr>) key" and "wf_table (t\<lparr>lastfree := l\<rparr>)"
      and "node t = None \<or> used (gnodes t) = length (gnodes t)"
proof -
  let ?m = "mainposition t key"
  show ?thesis
  proof (cases "i_val (gnodes t ! ?m) \<noteq> TNil \<or> node t = None")
    case False
    then show ?thesis using place_main [OF wf ok new]
      by (intro that(1)) (auto simp: newkey_with_def Let_def)
  next
    case True
    show ?thesis
    proof (rule getfreepos_spec [OF wf])
      fix l assume "getfreepos t = (t\<lparr>lastfree := l\<rparr>, None)" "wf_table (t\<lparr>lastfree := l\<rparr>)"
        "node t = None \<or> used (gnodes t) = length (gnodes t)"
      then show ?thesis using True by (intro that(2) [of l]) (simp_all add: newkey_with_def Let_def)
    next
      fix n assume g: "getfreepos t = (t\<lparr>lastfree := int n\<rparr>, Some n)" and nd: "node t \<noteq> None"
        and n: "n < length (gnodes t)" "i_key (gnodes t ! n) = TNil"
          "\<forall>j < length (gnodes t). n < j \<longrightarrow> i_key (gnodes t ! j) \<noteq> TNil"
      have val: "i_val (gnodes t ! ?m) \<noteq> TNil" using True nd by argo
      have mp: "mainposition (t\<lparr>lastfree := int n\<rparr>) = mainposition t" by (rule mainposition_size) simp
      let ?o = "mainposition t (i_key (gnodes t ! ?m))"
      note wfn = wf_table_nodes [OF wf]
      show ?thesis
      proof (cases "?o = ?m")
        case main: True
        then have "newkey_with grow t key =
            Inr (t\<lparr>lastfree := int n, node := Some (set_key (chain_free (gnodes t) ?m n) n key)\<rparr>, NodeSlot n)"
          using val g by (simp add: newkey_with_def Let_def mp)
        then show ?thesis using place_behind [OF wf ok new val main n] nd by (rule that(1))
      next
        case other: False
        have us: "i_key (gnodes t ! ?m) \<noteq> TNil" using wf_free [OF wfn wf_table_mp [OF wf]] val by blast
        obtain xs where xs: "path (gnodes t) ?o xs" "?m \<in> set xs"
          using wf_path [OF wfn wf_table_mp [OF wf] us] by blast
        obtain q where q: "q \<in> set xs" "find_previous (length (gnodes t)) (gnodes t) ?m ?o = Inr q"
          "i_next (gnodes t ! q) = Some ?m"
          using find_previous_path [OF xs(1) path_length [OF xs(1)] xs(2)] other by metis
        have "newkey_with grow t key = Inr (t\<lparr>lastfree := int n,
            node := Some (set_key (move_colliding (gnodes t) q ?m n) ?m key)\<rparr>, NodeSlot ?m)"
          using val g other q(2) by (simp add: newkey_with_def Let_def mp)
        then show ?thesis
          using place_move [OF wf ok new val other n path_less [OF xs(1) q(1)] q(3)] nd by (rule that(1))
      qed
    qed
  qed
qed

end
