(* ===== verification/LuaTableSizes.thy ===== *)
theory LuaTableSizes
  imports LuaTableInsert
begin

text \<open>
  The counts of \<open>rehash\<close>: how many candidate keys there are for each power of two, and the new size
  of the array part that \<open>computesizes\<close> takes from them.
\<close>

section \<open>The optimal size\<close>

text \<open>The candidates up to \<open>2 ^ j\<close>.\<close>

definition below :: "nat list \<Rightarrow> nat \<Rightarrow> nat" where
  "below nums j = sum_list (take (Suc j) nums)"

definition good :: "nat list \<Rightarrow> nat \<Rightarrow> bool" where
  "good nums j \<longleftrightarrow> 2 ^ j div 2 < below nums j"

text \<open>The best size after the slices below \<open>i\<close>.\<close>

definition best :: "nat list \<Rightarrow> nat \<Rightarrow> nat \<Rightarrow> nat \<Rightarrow> bool" where
  "best nums i na n \<longleftrightarrow>
     (na = 0 \<and> n = 0 \<and> (\<forall>j < i. nums ! j > 0 \<longrightarrow> \<not> good nums j)) \<or>
     (\<exists>j < i. na = below nums j \<and> n = 2 ^ j \<and> good nums j \<and> (\<forall>j'. j < j' \<and> j' < i \<and> nums ! j' > 0 \<longrightarrow> \<not> good nums j'))"

lemma below_Suc: "i < length nums \<Longrightarrow> below nums i = sum_list (take i nums) + nums ! i"
  by (simp add: below_def take_Suc_conv_app_nth)

lemma best_step:
  assumes "best nums i na n" and "i < length nums"
  shows "best nums (Suc i) (if nums ! i > 0 \<and> good nums i then below nums i else na)
    (if nums ! i > 0 \<and> good nums i then 2 ^ i else n)"
proof (cases "nums ! i > 0 \<and> good nums i")
  case True
  then show ?thesis by (simp add: best_def) (metis lessI less_Suc_eq_le not_less)
next
  case False
  from assms(1) consider "na = 0" "n = 0" "\<forall>j < i. nums ! j > 0 \<longrightarrow> \<not> good nums j"
    | j where "j < i" "na = below nums j" "n = 2 ^ j" "good nums j"
        "\<forall>j'. j < j' \<and> j' < i \<and> nums ! j' > 0 \<longrightarrow> \<not> good nums j'"
    by (auto simp: best_def)
  then show ?thesis
  proof cases
    case 1
    then have "\<forall>j < Suc i. nums ! j > 0 \<longrightarrow> \<not> good nums j" using False by (metis less_Suc_eq)
    then show ?thesis using 1 False by (auto simp: best_def)
  next
    case 2
    then have "\<forall>j'. j < j' \<and> j' < Suc i \<and> nums ! j' > 0 \<longrightarrow> \<not> good nums j'"
      using False by (metis less_Suc_eq)
    then have "\<exists>j < Suc i. na = below nums j \<and> n = 2 ^ j \<and> good nums j \<and>
        (\<forall>j'. j < j' \<and> j' < Suc i \<and> nums ! j' > 0 \<longrightarrow> \<not> good nums j')"
      using 2 by (intro exI [of _ j]) simp
    then show ?thesis using False by (auto simp: best_def)
  qed
qed

lemma best_stop:
  assumes b: "best nums k na n" and k: "k \<le> m"
    and no: "\<And>j. k \<le> j \<Longrightarrow> j < m \<Longrightarrow> nums ! j > 0 \<Longrightarrow> \<not> good nums j"
  shows "best nums m na n"
proof -
  from b consider "na = 0" "n = 0" "\<forall>j < k. nums ! j > 0 \<longrightarrow> \<not> good nums j"
    | j where "j < k" "na = below nums j" "n = 2 ^ j" "good nums j"
        "\<forall>j'. j < j' \<and> j' < k \<and> nums ! j' > 0 \<longrightarrow> \<not> good nums j'"
    by (auto simp: best_def)
  then show ?thesis
  proof cases
    case 1
    then have "\<forall>j < m. nums ! j > 0 \<longrightarrow> \<not> good nums j" using no by (meson linorder_not_less)
    then show ?thesis using 1 by (simp add: best_def)
  next
    case 2
    then have "\<forall>j'. j < j' \<and> j' < m \<and> nums ! j' > 0 \<longrightarrow> \<not> good nums j'"
      using no by (meson linorder_not_less)
    moreover have "j < m" using 2(1) k by simp
    ultimately show ?thesis using 2(2-4) unfolding best_def by blast
  qed
qed

text \<open>Once the loop stops, the slices left are empty or too few.\<close>

lemma computesizes_loop_spec:
  assumes N: "sum_list nums = N"
  shows "i \<le> length nums \<Longrightarrow> best nums i na n \<Longrightarrow> i = 0 \<or> sum_list (take i nums) \<noteq> N \<Longrightarrow>
    \<exists>na' n'. computesizes_loop N (drop i nums) (2 ^ i) (sum_list (take i nums)) na n = Inr (na', n') \<and>
      best nums (length nums) na' n'"
proof (induction "length nums - i" arbitrary: i na n)
  case 0
  then have i: "i = length nums" by simp
  then have "i = 0" using 0 N by auto
  then have "N = 0" using i N by simp
  then show ?case using 0 i by (auto simp: computesizes_loop.simps)
next
  case (Suc d)
  then have i: "i < length nums" by simp
  have mono: "sum_list (take j nums) \<le> N" for j
    using N sum_list_append [of "take j nums" "drop j nums"] by simp
  note step = best_step [OF Suc.prems(2) i]
  let ?g = "nums ! i > 0 \<and> good nums i"
  let ?na = "if ?g then below nums i else na" and ?n = "if ?g then 2 ^ i else n"
  show ?case
  proof (cases "2 ^ i div 2 < N")
    case False
    have "\<not> good nums j" if "i \<le> j" for j
    proof -
      have "(2 :: nat) ^ i \<le> 2 ^ j" using that by (intro power_increasing) simp_all
      then have "N \<le> 2 ^ j div 2" using False div_le_mono [of "2 ^ i" "2 ^ j" 2] by linarith
      then show ?thesis using mono [of "Suc j"] by (simp add: good_def below_def)
    qed
    then have "best nums (length nums) na n" using best_stop [OF Suc.prems(2)] i by simp
    then show ?thesis using False by (simp add: computesizes_loop.simps)
  next
    case True
    have d: "drop i nums = nums ! i # drop (Suc i) nums" using i by (simp add: Cons_nth_drop_Suc)
    have s: "sum_list (take (Suc i) nums) = sum_list (take i nums) + nums ! i"
      using below_Suc [OF i] by (simp add: below_def)
    have loop: "computesizes_loop N (drop i nums) (2 ^ i) (sum_list (take i nums)) na n =
        (if sum_list (take (Suc i) nums) = N then Inr (?na, ?n)
         else computesizes_loop N (drop (Suc i) nums) (2 ^ Suc i) (sum_list (take (Suc i) nums)) ?na ?n)"
      using True by (subst computesizes_loop.simps) (auto simp: d s good_def below_Suc [OF i] Let_def)
    show ?thesis
    proof (cases "sum_list (take (Suc i) nums) = N")
      case fin: True
      have "nums ! j = 0" if "Suc i \<le> j" "j < length nums" for j
      proof -
        have "sum_list (drop (Suc i) nums) = 0"
          using N fin sum_list_append [of "take (Suc i) nums" "drop (Suc i) nums"] by simp
        moreover have "nums ! j \<in> set (drop (Suc i) nums)"
          using that by (auto simp: in_set_conv_nth intro!: exI [of _ "j - Suc i"])
        ultimately show ?thesis by (simp add: sum_list_eq_0_iff)
      qed
      then have "best nums (length nums) ?na ?n" by (intro best_stop [OF step]) (use i in simp_all)
      then show ?thesis using fin by (simp add: loop)
    next
      case False
      have "\<exists>na' n'. computesizes_loop N (drop (Suc i) nums) (2 ^ Suc i) (sum_list (take (Suc i) nums)) ?na ?n = Inr (na', n') \<and>
          best nums (length nums) na' n'"
        by (rule Suc.hyps(1)) (use Suc.hyps(2) i step False in simp_all)
      then show ?thesis using False by (simp only: loop if_False)
    qed
  qed
qed

lemma computesizes_best:
  "\<exists>na n. computesizes nums (sum_list nums) = Inr (na, n) \<and> best nums (length nums) na n"
  using computesizes_loop_spec [OF refl, of 0 nums 0 0] by (simp add: computesizes_def best_def)

text \<open>
  For distinct keys, which fill at most \<open>2 ^ j\<close> of the slots up to \<open>2 ^ j\<close>, the size is the largest power of
  two with more than half of its slots in use.
\<close>

lemma best_optimal:
  assumes b: "best nums (length nums) na n" and le: "\<And>j. below nums j \<le> 2 ^ j"
  shows "(n = 0 \<and> na = 0 \<and> (\<forall>j < length nums. \<not> good nums j)) \<or>
    (\<exists>j < length nums. n = 2 ^ j \<and> na = below nums j \<and> good nums j \<and>
      (\<forall>j'. j < j' \<and> j' < length nums \<longrightarrow> \<not> good nums j'))"
proof -
  have pos: "nums ! j > 0" if "good nums j" "j < length nums" for j
  proof (rule ccontr)
    assume z: "\<not> nums ! j > 0"
    show False
    proof (cases j)
      case 0
      then show False using that z below_Suc [OF that(2)] by (simp add: good_def)
    next
      case (Suc i)
      then have "below nums j = below nums i" using z below_Suc [OF that(2)] by (simp add: below_def)
      then show False using that(1) le [of i] Suc by (simp add: good_def)
    qed
  qed
  from b show ?thesis unfolding best_def using pos by blast
qed

section \<open>Counting\<close>

definition candidate :: "nat \<Rightarrow> TValue \<Rightarrow> bool" where
  "candidate n k \<longleftrightarrow> 0 < arrayindex k \<and> arrayindex k \<le> int n"

text \<open>The slice of an index: 0 for 1, and \<open>i\<close> for the indices above \<open>2 ^ (i - 1)\<close> and up to \<open>2 ^ i\<close>.\<close>

definition slice :: "nat \<Rightarrow> nat \<Rightarrow> bool" where
  "slice i k \<longleftrightarrow> 0 < k \<and> k \<le> 2 ^ i \<and> 2 ^ i div 2 < k"

definition key_slice :: "nat \<Rightarrow> TValue \<Rightarrow> bool" where
  "key_slice i k \<longleftrightarrow> slice i (nat (arrayindex k))"

lemma slice_unique: "slice i k \<Longrightarrow> slice j k \<Longrightarrow> i = j"
proof -
  have "False" if "slice i k" "slice j k" "i < j" for i j
  proof -
    have "(2 :: nat) ^ i \<le> 2 ^ (j - 1)" using that(3) by (intro power_increasing) simp_all
    also have "\<dots> = 2 ^ j div 2" using that(3) by (cases j) simp_all
    finally show False using that by (simp add: slice_def)
  qed
  then show "slice i k \<Longrightarrow> slice j k \<Longrightarrow> i = j" by (metis linorder_neqE_nat)
qed

lemma slice_ceillog2:
  assumes "0 < k" and "k < 2 ^ 31"
  shows "slice (nat (ceillog2 (of_nat k))) k"
proof -
  have u: "unat (of_nat k :: u32) = k" using assms by (intro unat_of_nat_small) simp
  then have nz: "(of_nat k :: u32) \<noteq> 0" using assms by (metis unat_0 less_numeral_extra(3))
  let ?l = "ceillog2 (of_nat k)"
  have l: "0 \<le> ?l" "k \<le> 2 ^ nat ?l" using log2_correct [of "of_nat k"] nz u by simp_all
  show ?thesis
  proof (cases "k = 1")
    case True
    then have "?l = 0" by (simp add: ceillog2_def luaO_log2_def log2_loop.simps [of 0] log_2_def)
    then show ?thesis using True by (simp add: slice_def)
  next
    case False
    then have "(of_nat k :: u32) \<noteq> 1" using u by (metis unsigned_1)
    then have gt: "2 ^ nat (?l - 1) < k" using log2_correct [of "of_nat k"] nz u by simp
    have "nat ?l \<noteq> 0"
    proof
      assume "nat ?l = 0"
      then have "k \<le> 1" using l(2) by simp
      then show False using False assms by linarith
    qed
    then obtain m where m: "nat ?l = Suc m" using not0_implies_Suc by blast
    then have "nat (?l - 1) = m" by linarith
    then show ?thesis using l(2) gt assms by (simp add: slice_def m)
  qed
qed

lemma slice_bound: "slice i k \<Longrightarrow> k \<le> 2 ^ b \<Longrightarrow> i \<le> b"
proof (rule ccontr)
  assume a: "slice i k" "k \<le> 2 ^ b" "\<not> i \<le> b"
  have "(2 :: nat) ^ b \<le> 2 ^ (i - 1)" using a(3) by (intro power_increasing) simp_all
  also have "\<dots> = 2 ^ i div 2" using a(3) by (cases i) simp_all
  finally show False using a by (simp add: slice_def)
qed

text \<open>\<open>nums\<close> counts the keys \<open>ks\<close>.\<close>

definition counted :: "nat list \<Rightarrow> TValue list \<Rightarrow> bool" where
  "counted nums ks \<longleftrightarrow> length nums = MAXBITS + 1 \<and>
     (\<forall>i \<le> MAXBITS. nums ! i = length (filter (key_slice i) ks))"

lemma candidate_slice:
  assumes "candidate MAXASIZE k"
  shows "\<exists>i \<le> MAXBITS. nat (ceillog2 (of_int (arrayindex k))) = i \<and> key_slice i k"
proof -
  let ?i = "nat (arrayindex k)"
  have i: "0 < ?i" "?i \<le> 2 ^ MAXBITS" "of_int (arrayindex k) = (of_nat ?i :: u32)"
    using assms by (auto simp: candidate_def MAXASIZE_def)
  have "?i < 2 ^ 31" using i(2) by (simp add: MAXBITS_def)
  then have "slice (nat (ceillog2 (of_nat ?i))) ?i" using slice_ceillog2 i(1) by blast
  then show ?thesis using slice_bound [OF _ i(2)] i(3) by (auto simp: key_slice_def)
qed

lemma not_candidate_slice: "i \<le> MAXBITS \<Longrightarrow> key_slice i k \<Longrightarrow> candidate MAXASIZE k"
proof -
  assume i: "i \<le> MAXBITS" "key_slice i k"
  have "(2 :: nat) ^ i \<le> MAXASIZE" using i(1) unfolding MAXASIZE_def by (intro power_increasing) simp_all
  moreover have "nat (arrayindex k) \<le> 2 ^ i" "0 < nat (arrayindex k)"
    using i(2) unfolding key_slice_def slice_def by blast+
  ultimately have "nat (arrayindex k) \<le> MAXASIZE" "0 < nat (arrayindex k)" by linarith+
  then show ?thesis by (auto simp: candidate_def)
qed

lemma countint_counted:
  assumes "counted nums ks"
  obtains nums' where "countint k nums = (nums', if candidate MAXASIZE k then 1 else 0)" and "counted nums' (k # ks)"
proof (cases "candidate MAXASIZE k")
  case True
  from candidate_slice [OF True] obtain i where i: "i \<le> MAXBITS" "nat (ceillog2 (of_int (arrayindex k))) = i" "key_slice i k"
    by blast
  let ?nums = "nums[i := nums ! i + 1]"
  have "counted ?nums (k # ks)"
    unfolding counted_def
  proof (intro conjI allI impI)
    fix j assume j: "j \<le> MAXBITS"
    have "key_slice j k \<longleftrightarrow> j = i" using i(3) slice_unique by (auto simp: key_slice_def)
    then show "?nums ! j = length (filter (key_slice j) (k # ks))"
      using assms i(1) j by (auto simp: counted_def nth_list_update)
  qed (use assms in \<open>simp add: counted_def\<close>)
  moreover have "countint k nums = (?nums, 1)" using True i(2) by (simp add: countint_def candidate_def Let_def)
  ultimately show ?thesis using that [of ?nums] True by simp
next
  case False
  then have "counted nums (k # ks)" using assms not_candidate_slice by (auto simp: counted_def)
  moreover have "countint k nums = (nums, 0)" using False by (auto simp: countint_def candidate_def Let_def)
  ultimately show ?thesis using that [of nums] False by simp
qed

lemma numusehash_counted:
  assumes "counted nums ks"
  shows "\<exists>nums'. foldr numusehash_step ns (nums, 0, 0) = (nums',
      length (filter (candidate MAXASIZE) (map i_key (filter (\<lambda>n. i_val n \<noteq> TNil) ns))),
      length (filter (\<lambda>n. i_val n \<noteq> TNil) ns)) \<and>
    counted nums' (map i_key (filter (\<lambda>n. i_val n \<noteq> TNil) ns) @ ks)"
proof (induction ns)
  case Nil
  then show ?case using assms by simp
next
  case (Cons n ns)
  then obtain nums' where nums': "foldr numusehash_step ns (nums, 0, 0) = (nums',
      length (filter (candidate MAXASIZE) (map i_key (filter (\<lambda>n. i_val n \<noteq> TNil) ns))),
      length (filter (\<lambda>n. i_val n \<noteq> TNil) ns))"
    "counted nums' (map i_key (filter (\<lambda>n. i_val n \<noteq> TNil) ns) @ ks)" by blast
  show ?case
  proof (cases "i_val n = TNil")
    case True
    then show ?thesis using nums' by (simp add: numusehash_step_def [of n])
  next
    case False
    from countint_counted [OF nums'(2), of "i_key n"] obtain nums'' where
      "countint (i_key n) nums' = (nums'', if candidate MAXASIZE (i_key n) then 1 else 0)"
      "counted nums'' (i_key n # map i_key (filter (\<lambda>n. i_val n \<noteq> TNil) ns) @ ks)" by blast
    then show ?thesis using nums'(1) False by (simp add: numusehash_step_def [of n])
  qed
qed

text \<open>The keys of the entries of a table.\<close>

definition array_items :: "nat \<Rightarrow> TValue list \<Rightarrow> (nat \<times> TValue) list" where
  "array_items i vs = zip [i..<i + length vs] vs"

definition keys_of :: "Table \<Rightarrow> TValue list" where
  "keys_of t =
     map (\<lambda>(i, v). num (i + 1)) (filter (\<lambda>(i, v). v \<noteq> TNil) (array_items 0 (array t))) @
     map i_key (filter (\<lambda>n. i_val n \<noteq> TNil) (gnodes t))"

lemma set_array_items: "(j, v) \<in> set (array_items i vs) \<longleftrightarrow> i \<le> j \<and> j < i + length vs \<and> v = vs ! (j - i)"
proof -
  have "(j, v) \<in> set (array_items i vs) \<longleftrightarrow> (\<exists>n < length vs. i + n = j \<and> vs ! n = v)"
    by (simp add: array_items_def in_set_zip) (metis nth_upt nat_add_left_cancel_less)
  also have "\<dots> \<longleftrightarrow> i \<le> j \<and> j < i + length vs \<and> v = vs ! (j - i)"
    by (auto intro!: exI [of _ "j - i"])
  finally show ?thesis .
qed

lemma array_items_append: "array_items i (us @ vs) = array_items i us @ array_items (i + length us) vs"
proof -
  have "[i..<i + length (us @ vs)] = [i..<i + length us] @ [i + length us..<i + length us + length vs]"
    using upt_add_eq_append [of i "i + length us" "length vs"] by (simp add: add.assoc)
  then show ?thesis by (simp add: array_items_def zip_append)
qed

lemma candidate_num: "0 < i \<Longrightarrow> i < 2 ^ 31 \<Longrightarrow> candidate n (num i) \<longleftrightarrow> i \<le> n"
  by (simp add: candidate_def arrayindex_num)

lemma filter_len_map: "length (filter P (map f xs)) = length (filter (P \<circ> f) xs)"
  by (simp add: filter_map)

lemma filter_len_filter: "length (filter P (filter Q xs)) = length (filter (\<lambda>x. Q x \<and> P x) xs)"
  by simp


lemma slice_pow: "slice i k \<longleftrightarrow> 2 ^ i div 2 < k \<and> k \<le> 2 ^ i"
  by (auto simp: slice_def)

lemma half_Suc: "(2 :: nat) ^ Suc i div 2 = 2 ^ i"
  by simp

lemma half_le: "(2 :: nat) ^ i div 2 \<le> 2 ^ i"
  by simp

lemma filter_items_all:
  "(\<And>j v. i \<le> j \<Longrightarrow> j < i + length vs \<Longrightarrow> P j) \<Longrightarrow>
    length (filter (\<lambda>(j, v). v \<noteq> TNil \<and> P j) (array_items i vs)) = length (filter (\<lambda>v. v \<noteq> TNil) vs)"
proof (induction vs arbitrary: i)
  case (Cons v vs)
  have "length (filter (\<lambda>(j, v). v \<noteq> TNil \<and> P j) (array_items (Suc i) vs)) = length (filter (\<lambda>v. v \<noteq> TNil) vs)"
    by (rule Cons.IH) (use Cons.prems in auto)
  then show ?case using array_items_append [of i "[v]" vs] Cons.prems [of i] by (simp add: array_items_def)
qed (simp add: array_items_def)

lemma filter_items_none:
  "(\<And>j. i \<le> j \<Longrightarrow> j < i + length vs \<Longrightarrow> \<not> P j) \<Longrightarrow>
    filter (\<lambda>(j, v). v \<noteq> TNil \<and> P j) (array_items i vs) = []"
  by (auto simp: filter_empty_conv set_array_items)

lemma count_slice_items:
  assumes "1 \<le> i"
  shows "count_slice arr i lim =
    length (filter (\<lambda>(j, v). v \<noteq> TNil \<and> (i \<le> j + 1 \<and> j + 1 \<le> lim)) (array_items 0 arr))"
proof -
  let ?P = "\<lambda>j. i \<le> j + 1 \<and> j + 1 \<le> lim"
  let ?a = "take (i - 1) arr" and ?m = "take (lim + 1 - i) (drop (i - 1) arr)"
    and ?r = "drop (lim + 1 - i) (drop (i - 1) arr)"
  have arr: "array_items 0 arr = array_items 0 ?a @ array_items (length ?a) ?m @ array_items (length ?a + length ?m) ?r"
    using array_items_append [of 0 ?a "?m @ ?r"] array_items_append [of "length ?a" ?m ?r]
    by (simp only: append_take_drop_id add_0)
  have "filter (\<lambda>(j, v). v \<noteq> TNil \<and> ?P j) (array_items 0 ?a) = []"
    by (rule filter_items_none) (use assms in auto)
  moreover have "filter (\<lambda>(j, v). v \<noteq> TNil \<and> ?P j) (array_items (length ?a + length ?m) ?r) = []"
    by (rule filter_items_none) (auto simp: min_def split: if_splits)
  moreover have "length (filter (\<lambda>(j, v). v \<noteq> TNil \<and> ?P j) (array_items (length ?a) ?m)) =
      length (filter (\<lambda>v. v \<noteq> TNil) ?m)"
    by (rule filter_items_all) (use assms in \<open>auto simp: min_def split: if_splits\<close>)
  ultimately show ?thesis by (simp only: arr filter_append length_append count_slice_def list.size add_0 add_0_right)
qed

text \<open>The elements of the array part in a slice, and those from a slice on.\<close>

definition in_slice :: "TValue list \<Rightarrow> nat \<Rightarrow> nat" where
  "in_slice arr i = length (filter (\<lambda>(j, v). v \<noteq> TNil \<and> slice i (j + 1)) (array_items 0 arr))"

definition from_slice :: "TValue list \<Rightarrow> nat \<Rightarrow> nat" where
  "from_slice arr i = length (filter (\<lambda>(j, v). v \<noteq> TNil \<and> 2 ^ i div 2 < j + 1) (array_items 0 arr))"

lemma filter_len_split:
  "length (filter (\<lambda>x. P x \<or> Q x) xs) = length (filter P xs) + length (filter Q xs)"
  if "\<And>x. \<not> (P x \<and> Q x)"
  using that by (induction xs) auto

lemma from_slice_Suc: "from_slice arr i = in_slice arr i + from_slice arr (Suc i)"
proof -
  have "(\<lambda>(j, v :: TValue). v \<noteq> TNil \<and> 2 ^ i div 2 < j + 1) =
      (\<lambda>x. (case x of (j, v) \<Rightarrow> v \<noteq> TNil \<and> slice i (j + 1)) \<or> (case x of (j, v) \<Rightarrow> v \<noteq> TNil \<and> 2 ^ Suc i div 2 < j + 1))"
    unfolding half_Suc slice_pow using half_le [of i] by (intro ext) (auto simp del: One_nat_def)
  then show ?thesis unfolding from_slice_def in_slice_def
    by (simp only:) (rule filter_len_split, unfold half_Suc slice_pow, auto)
qed

lemma slices_empty: "length arr \<le> 2 ^ i div 2 \<Longrightarrow> from_slice arr i = 0"
  unfolding from_slice_def by (subst filter_items_none) simp_all

lemma slice_empty: "length arr \<le> 2 ^ i div 2 \<Longrightarrow> i \<le> j \<Longrightarrow> in_slice arr j = 0"
proof -
  assume a: "length arr \<le> 2 ^ i div 2" "i \<le> j"
  have "(2 :: nat) ^ i \<le> 2 ^ j" using a(2) by (intro power_increasing) simp_all
  then have "length arr \<le> 2 ^ j div 2" using a(1) div_le_mono [of "2 ^ i" "2 ^ j" 2] by linarith
  then show ?thesis using slices_empty from_slice_Suc [of arr j] by simp
qed

lemma numusearray_loop_spec:
  assumes "length arr \<le> MAXASIZE"
  shows "lg \<le> MAXBITS + 1 \<Longrightarrow> length nums = MAXBITS + 1 \<Longrightarrow>
    \<exists>nums'. numusearray_loop arr [lg..<MAXBITS + 1] (1 + min (2 ^ lg div 2) (length arr)) nums ause =
        (nums', ause + from_slice arr lg) \<and> length nums' = MAXBITS + 1 \<and>
      (\<forall>i \<le> MAXBITS. nums' ! i = nums ! i + (if lg \<le> i then in_slice arr i else 0))"
proof (induction "MAXBITS + 1 - lg" arbitrary: lg nums ause)
  case 0
  then have "lg = MAXBITS + 1" by simp
  moreover have "from_slice arr (MAXBITS + 1) = 0" using assms by (intro slices_empty) (simp add: MAXASIZE_def)
  ultimately show ?case using 0 by simp
next
  case (Suc d)
  then have lg: "lg \<le> MAXBITS" by simp
  have upt: "[lg..<MAXBITS + 1] = lg # [Suc lg..<MAXBITS + 1]" using lg by (simp add: upt_conv_Cons)
  let ?i = "1 + min (2 ^ lg div 2) (length arr)"
  let ?lim = "if 2 ^ lg > length arr then length arr else 2 ^ lg"
  show ?case
  proof (cases "2 ^ lg > length arr \<and> ?i > ?lim")
    case True
    then have e: "length arr \<le> 2 ^ lg div 2" by (simp add: min_def split: if_splits)
    then show ?thesis using True Suc.prems slices_empty [OF e] slice_empty [OF e]
      by (simp only: upt numusearray_loop.simps Let_def if_True) auto
  next
    case False
    have "count_slice arr ?i ?lim = in_slice arr lg"
    proof -
      have "filter (\<lambda>(j, v). v \<noteq> TNil \<and> (?i \<le> j + 1 \<and> j + 1 \<le> ?lim)) (array_items 0 arr) =
          filter (\<lambda>(j, v). v \<noteq> TNil \<and> slice lg (j + 1)) (array_items 0 arr)"
        by (rule filter_cong [OF refl]) (auto simp: set_array_items slice_pow min_def split: if_splits)
      then show ?thesis by (simp only: in_slice_def count_slice_items [of ?i] le_add1)
    qed
    moreover have "max ?i (?lim + 1) = 1 + min (2 ^ Suc lg div 2) (length arr)"
      using half_le [of lg] by (auto simp: min_def max_def)
    ultimately have loop: "numusearray_loop arr [lg..<MAXBITS + 1] ?i nums ause =
        numusearray_loop arr [Suc lg..<MAXBITS + 1] (1 + min (2 ^ Suc lg div 2) (length arr))
          (nums[lg := nums ! lg + in_slice arr lg]) (ause + in_slice arr lg)"
      using False by (simp only: upt numusearray_loop.simps Let_def if_False)
    have "\<exists>nums'. numusearray_loop arr [Suc lg..<MAXBITS + 1] (1 + min (2 ^ Suc lg div 2) (length arr))
          (nums[lg := nums ! lg + in_slice arr lg]) (ause + in_slice arr lg) =
        (nums', ause + in_slice arr lg + from_slice arr (Suc lg)) \<and> length nums' = MAXBITS + 1 \<and>
      (\<forall>i \<le> MAXBITS. nums' ! i = (nums[lg := nums ! lg + in_slice arr lg]) ! i + (if Suc lg \<le> i then in_slice arr i else 0))"
      by (rule Suc.hyps(1)) (use Suc.hyps(2) Suc.prems lg in simp_all)
    then obtain nums' where n: "numusearray_loop arr [Suc lg..<MAXBITS + 1] (1 + min (2 ^ Suc lg div 2) (length arr))
          (nums[lg := nums ! lg + in_slice arr lg]) (ause + in_slice arr lg) =
        (nums', ause + in_slice arr lg + from_slice arr (Suc lg))" "length nums' = MAXBITS + 1"
      "\<And>i. i \<le> MAXBITS \<Longrightarrow> nums' ! i = (nums[lg := nums ! lg + in_slice arr lg]) ! i + (if Suc lg \<le> i then in_slice arr i else 0)"
      by blast
    show ?thesis
    proof (intro exI [of _ nums'] conjI allI impI)
      show "numusearray_loop arr [lg..<MAXBITS + 1] ?i nums ause = (nums', ause + from_slice arr lg)"
        by (simp only: loop n(1) from_slice_Suc [of arr lg] add.assoc)
      show "nums' ! i = nums ! i + (if lg \<le> i then in_slice arr i else 0)" if "i \<le> MAXBITS" for i
        using n(3) [OF that] Suc.prems(2) that lg by (cases "i = lg") auto
    qed (rule n(2))
  qed
qed

section \<open>All the keys\<close>

definition array_keys :: "TValue list \<Rightarrow> TValue list" where
  "array_keys arr = map (\<lambda>(i, v). num (i + 1)) (filter (\<lambda>(i, v). v \<noteq> TNil) (array_items 0 arr))"

definition node_keys :: "Node list \<Rightarrow> TValue list" where
  "node_keys ns = map i_key (filter (\<lambda>n. i_val n \<noteq> TNil) ns)"

lemma keys_of_alt: "keys_of t = array_keys (array t) @ node_keys (gnodes t)"
  by (simp add: keys_of_def array_keys_def node_keys_def)

lemma array_keys_count:
  assumes "length arr < 2 ^ 31" and "\<And>i. 0 < i \<Longrightarrow> i < 2 ^ 31 \<Longrightarrow> P (num i) \<longleftrightarrow> Q i"
  shows "length (filter P (array_keys arr)) = length (filter (\<lambda>(j, v). v \<noteq> TNil \<and> Q (j + 1)) (array_items 0 arr))"
proof -
  have "filter (\<lambda>(j, v). v \<noteq> TNil \<and> Q (j + 1)) (array_items 0 arr) =
      filter (\<lambda>(j, v). v \<noteq> TNil \<and> P (num (j + 1))) (array_items 0 arr)"
    using assms by (intro filter_cong) (auto simp: set_array_items)
  then show ?thesis by (simp add: array_keys_def filter_len_map o_def case_prod_unfold conj_commute)
qed

lemma numusearray_counted:
  assumes wf: "wf_table t"
  obtains nums where "numusearray t (replicate (MAXBITS + 1) 0) = (nums, length (array_keys (array t)))"
    and "counted nums (array_keys (array t))"
proof -
  let ?arr = "array t"
  have len: "length ?arr \<le> MAXASIZE" using wf by (simp add: wf_table_def)
  have len31: "length ?arr < 2 ^ 31" using len by (rule MAXASIZE_less)
  let ?z = "replicate (MAXBITS + 1) (0 :: nat)"
  have z: "?z ! i = 0" if "i \<le> MAXBITS" for i using that by (simp del: replicate_Suc)
  obtain nums where n: "numusearray_loop ?arr [0..<MAXBITS + 1] (1 + min (2 ^ 0 div 2) (length ?arr)) ?z 0 =
      (nums, 0 + from_slice ?arr 0)" "length nums = MAXBITS + 1"
      "\<forall>i \<le> MAXBITS. nums ! i = ?z ! i + (if 0 \<le> i then in_slice ?arr i else 0)"
    using numusearray_loop_spec [OF len, of 0 ?z 0] by (auto simp del: replicate_Suc upt_Suc)
  have i0: "1 + min (2 ^ 0 div 2) (length ?arr) = 1" by simp
  have "in_slice ?arr i = length (filter (key_slice i) (array_keys ?arr))" for i
    unfolding in_slice_def
    by (rule array_keys_count [OF len31, symmetric]) (simp add: key_slice_def arrayindex_num)
  then have "counted nums (array_keys ?arr)" using n z by (simp add: counted_def)
  moreover have "from_slice ?arr 0 = length (array_keys ?arr)"
    using array_keys_count [OF len31, of "\<lambda>k. True" "\<lambda>i. True"] by (simp add: from_slice_def)
  ultimately show ?thesis using that n(1) unfolding numusearray_def i0 by simp
qed

lemma candidate_pow_Suc:
  "candidate (2 ^ Suc j) k \<longleftrightarrow> candidate (2 ^ j) k \<or> key_slice (Suc j) k"
  unfolding candidate_def key_slice_def slice_def half_Suc by (auto simp: nat_le_iff)

lemma candidate_pow_disjoint: "\<not> (candidate (2 ^ j) k \<and> key_slice (Suc j) k)"
  unfolding candidate_def key_slice_def slice_def half_Suc by (auto simp: nat_le_iff)

lemma below_counted:
  assumes "counted nums ks"
  shows "j \<le> MAXBITS \<Longrightarrow> below nums j = length (filter (candidate (2 ^ j)) ks)"
proof (induction j)
  case 0
  have "candidate (2 ^ 0) = key_slice 0" by (rule ext) (auto simp: candidate_def key_slice_def slice_def)
  then show ?case using assms below_Suc [of 0 nums] by (simp add: counted_def)
next
  case (Suc j)
  have "below nums (Suc j) = below nums j + nums ! Suc j"
    using assms Suc.prems below_Suc [of "Suc j" nums] by (simp add: counted_def below_def)
  also have "\<dots> = length (filter (candidate (2 ^ j)) ks) + length (filter (key_slice (Suc j)) ks)"
    using Suc assms by (simp add: counted_def)
  also have "\<dots> = length (filter (\<lambda>k. candidate (2 ^ j) k \<or> key_slice (Suc j) k) ks)"
    by (rule filter_len_split [symmetric]) (rule candidate_pow_disjoint)
  finally show ?case by (simp only: candidate_pow_Suc)
qed

lemma sum_counted: "counted nums ks \<Longrightarrow> sum_list nums = length (filter (candidate MAXASIZE) ks)"
  using below_counted [of nums ks MAXBITS] by (simp add: counted_def below_def MAXASIZE_def)

text \<open>The sizes \<open>rehash\<close> asks for: the array part for its candidates, the hash part for all the other keys.\<close>

lemma rehash_with_sizes:
  assumes wf: "wf_table t"
  obtains n nums where "rehash_with nk t ek = resize_with nk t n (length (filter (\<lambda>k. \<not> candidate n k) (ek # keys_of t)))"
    and "n \<le> MAXASIZE" and "length nums = MAXBITS + 1"
    and "\<And>j. j \<le> MAXBITS \<Longrightarrow> below nums j = length (filter (candidate (2 ^ j)) (ek # keys_of t))"
    and "best nums (MAXBITS + 1) (length (filter (candidate n) (ek # keys_of t))) n"
proof -
  let ?a = "array_keys (array t)" and ?n = "node_keys (gnodes t)"
  let ?c = "if candidate MAXASIZE ek then 1 else 0 :: nat"
  obtain nums1 where n1: "numusearray t (replicate (MAXBITS + 1) 0) = (nums1, length ?a)" "counted nums1 ?a"
    using numusearray_counted [OF wf] .
  obtain nums2 where n2: "numusehash t nums1 = (nums2, length (filter (candidate MAXASIZE) ?n), length ?n)"
      "counted nums2 (?n @ ?a)"
    using numusehash_counted [OF n1(2), of "gnodes t"] by (auto simp: numusehash_def node_keys_def)
  obtain nums3 where n3: "countint ek nums2 = (nums3, ?c)" "counted nums3 (ek # ?n @ ?a)"
    using countint_counted [OF n2(2)] by blast
  have c3: "counted nums3 (ek # keys_of t)" using n3(2) by (simp add: counted_def keys_of_alt add.commute)
  have arr: "filter (candidate MAXASIZE) ?a = ?a"
  proof -
    have "candidate MAXASIZE k" if k: "k \<in> set ?a" for k
    proof -
      obtain i where i: "k = num (i + 1)" "i < length (array t)"
        using k by (auto simp: array_keys_def set_array_items)
      moreover have "length (array t) \<le> MAXASIZE" using wf by (simp add: wf_table_def)
      ultimately show ?thesis using MAXASIZE_less [of "i + 1"] candidate_num [of "i + 1" MAXASIZE] by simp
    qed
    then show ?thesis by simp
  qed
  have sum: "sum_list nums3 = length ?a + length (filter (candidate MAXASIZE) ?n) + ?c"
    using sum_counted [OF c3] arr by (simp add: keys_of_alt)
  obtain na n where comp: "computesizes nums3 (length ?a + length (filter (candidate MAXASIZE) ?n) + ?c) = Inr (na, n)"
      and best: "best nums3 (length nums3) na n"
    using computesizes_best [of nums3] unfolding sum by blast
  have len: "length nums3 = MAXBITS + 1" using c3 by (simp add: counted_def)
  have na: "na = length (filter (candidate n) (ek # keys_of t)) \<and> n \<le> MAXASIZE"
  proof -
    from best consider "na = 0" "n = 0" | j where "j \<le> MAXBITS" "na = below nums3 j" "n = 2 ^ j"
      by (auto simp: best_def len)
    then show ?thesis
    proof cases
      case 1
      then show ?thesis by (simp add: candidate_def)
    next
      case 2
      then show ?thesis using below_counted [OF c3 2(1)] unfolding MAXASIZE_def
        by (auto intro: power_increasing)
    qed
  qed
  have "length ?a + length ?n + 1 - na = length (filter (\<lambda>k. \<not> candidate n k) (ek # keys_of t))"
    using sum_length_filter_compl [of "candidate n" "ek # keys_of t"] na by (simp add: keys_of_alt)
  then have "rehash_with nk t ek = resize_with nk t n (length (filter (\<lambda>k. \<not> candidate n k) (ek # keys_of t)))"
    by (simp only: rehash_with_def Let_def n1(1) prod.case n2(1) n3(1) comp rbind_simps)
  then show ?thesis using that [of n nums3] na len best below_counted [OF c3] by (simp only: len)
qed

end
