(* ===== verification/LuaTableRehash.thy ===== *)
theory LuaTableRehash
  imports LuaTableSizes
begin

text \<open>
  Rehashing Lua tables: the counts behind the new sizes, the table put together again in them,
  and from these that setting a key is the update of a finite map.
\<close>

section \<open>Setting while there is room\<close>

definition room :: "Table \<Rightarrow> TValue \<Rightarrow> bool" where
  "room t key \<longleftrightarrow> in_array t key \<or> (node t \<noteq> None \<and> used (gnodes t) < length (gnodes t))"

definition located :: "Table \<Rightarrow> TValue \<Rightarrow> Table \<Rightarrow> slot \<Rightarrow> bool" where
  "located t key t' s \<longleftrightarrow>
     wf_table t' \<and> s \<in> set (slots t') \<and> luaO_rawequalObj (slot_key t' s) key \<and>
     (\<forall>k. lookup t' k = lookup t k)"

text \<open>The part of a table's shape that insertions keep while there is room.\<close>

definition same_shape :: "Table \<Rightarrow> Table \<Rightarrow> TValue \<Rightarrow> bool" where
  "same_shape t t' key \<longleftrightarrow> length (array t') = length (array t) \<and> lsizenode t' = lsizenode t \<and>
     (node t' = None \<longleftrightarrow> node t = None) \<and>
     used (gnodes t') \<le> used (gnodes t) + (if in_array t key then 0 else 1)"

lemma flags_table [simp]:
  "slot_value (t\<lparr>flags := f\<rparr>) s = slot_value t s" "slot_key (t\<lparr>flags := f\<rparr>) s = slot_key t s"
  "slots (t\<lparr>flags := f\<rparr>) = slots t" "lookup_slot (t\<lparr>flags := f\<rparr>) k = lookup_slot t k"
  "value_at (t\<lparr>flags := f\<rparr>) p = value_at t p" "entries (t\<lparr>flags := f\<rparr>) = entries t"
  "in_array (t\<lparr>flags := f\<rparr>) k = in_array t k" "lookup (t\<lparr>flags := f\<rparr>) k = lookup t k"
proof -
  show v: "slot_value (t\<lparr>flags := f\<rparr>) s = slot_value t s" for s by (cases s) simp_all
  show k: "slot_key (t\<lparr>flags := f\<rparr>) s = slot_key t s" for s by (cases s) simp_all
  show s: "slots (t\<lparr>flags := f\<rparr>) = slots t" by (simp add: slots_def)
  show l: "lookup_slot (t\<lparr>flags := f\<rparr>) k = lookup_slot t k" by (simp add: lookup_slot_def k s)
  show a: "value_at (t\<lparr>flags := f\<rparr>) p = value_at t p" for p by (simp add: value_at_def v split: option.split)
  show "entries (t\<lparr>flags := f\<rparr>) = entries t" by (simp add: entries_def k v s)
  show "in_array (t\<lparr>flags := f\<rparr>) k = in_array t k" by (simp add: in_array_def)
  show "lookup (t\<lparr>flags := f\<rparr>) k = lookup t k" by (simp add: lookup_def l a)
qed

lemma flags_wf [simp]: "wf_table (t\<lparr>flags := f\<rparr>) \<longleftrightarrow> wf_table t"
proof -
  have "mainposition (t\<lparr>flags := f\<rparr>) = mainposition t" by (rule mainposition_size) simp
  moreover have "in_array (t\<lparr>flags := f\<rparr>) = in_array t" by (rule ext) simp
  ultimately show ?thesis by (simp add: wf_table_def sizenode_def)
qed

lemma set_with_found:
  assumes wf: "wf_table t" and ok: "okkey key" and s: "lookup_slot t key = Some s"
  shows "set_with nk t key = Inr (t\<lparr>flags := 0\<rparr>, s)" and "located t key (t\<lparr>flags := 0\<rparr>) s"
    and "same_shape t (t\<lparr>flags := 0\<rparr>) key"
  using lookup_slot_Some [OF s] wf
  by (simp_all add: set_with_def get_lookup [OF wf ok] s located_def same_shape_def)

lemma set_with_new:
  assumes wf: "wf_table t" and ok: "okkey key" and s: "lookup_slot t key = None"
  shows "set_with nk t key = nk (t\<lparr>flags := 0\<rparr>) key"
  using ok unfolding set_with_def get_lookup [OF wf ok] s by (cases key) simp_all

lemma setnum_with_found:
  assumes wf: "wf_table t" and s: "lookup_slot t (TNumber (int_to_double (sint i))) = Some s"
  shows "setnum_with nk t i = Inr (t, s)"
  using getnum_lookup [OF wf, of i] s by (simp add: setnum_with_def)

lemma setnum_with_new:
  assumes wf: "wf_table t" and s: "lookup_slot t (TNumber (int_to_double (sint i))) = None"
  shows "setnum_with nk t i = nk t (TNumber (int_to_double (sint i)))"
  using getnum_lookup [OF wf, of i] s by (simp add: setnum_with_def)

lemma newkey_room:
  assumes wf: "wf_table t" and ok: "okkey key" and new: "lookup_slot t key = None" and room: "room t key"
  obtains t' s where "newkey_with g t key = Inr (t', s)" and "located t key t' s" and "same_shape t t' key"
proof (rule newkey_spec [OF wf ok new, of g])
  fix t' s assume n: "newkey_with g t key = Inr (t', s)" and p: "placed t key t' s" and nd: "node t \<noteq> None"
  have "located t key t' s"
    using p lookup_eqI [OF wf, of t'] okkey_refl [OF ok] by (simp add: placed_def located_def)
  moreover have "same_shape t t' key"
    using p nd lookup_none_array [OF wf new] by (auto simp: placed_def same_shape_def)
  ultimately show ?thesis using n that by blast
next
  assume "node t = None \<or> used (gnodes t) = length (gnodes t)"
  then show ?thesis using room lookup_none_array [OF wf new] by (auto simp: room_def)
qed

text \<open>A value put under a key.\<close>

definition stored :: "Table \<Rightarrow> TValue \<Rightarrow> TValue \<Rightarrow> Table \<Rightarrow> bool" where
  "stored t key v t' \<longleftrightarrow> wf_table t' \<and>
     (\<forall>k. lookup t' k = (if luaO_rawequalObj key k then v else lookup t k))"

lemma located_stored:
  assumes "located t key t' s"
  shows "stored t key v (setobj2t t' s v)"
proof -
  have t': "wf_table t'" "s \<in> set (slots t')" "luaO_rawequalObj (slot_key t' s) key"
    "lookup t' k = lookup t k" for k using assms by (simp_all add: located_def)
  have "lookup_slot t' k = Some s \<longleftrightarrow> luaO_rawequalObj key k" for k
    using lookup_slot_Some [of t' k s] lookup_slot_eq [OF t'(1,2)] t'(3) rawequal_trans rawequal_sym by blast
  then show ?thesis using setobj_wf [OF t'(1,2)] by (simp add: stored_def setobj_lookup [OF t'(2)] t'(4))
qed

lemma used_setobj:
  "s \<in> set (slots t) \<Longrightarrow> used (gnodes (setobj2t t s v)) = used (gnodes t)"
proof -
  assume s: "s \<in> set (slots t)"
  have k: "i_key (gnodes (setobj2t t s v) ! i) = i_key (gnodes t ! i)" for i
    by (insert s, cases s) (auto simp: nth_list_update in_slots)
  have "length (gnodes (setobj2t t s v)) = length (gnodes t)" by (insert s, cases s) simp_all
  then show ?thesis by (simp add: used_alt k)
qed

lemma same_shape_setobj:
  "located t key t' s \<Longrightarrow> same_shape t t' key \<Longrightarrow> same_shape t (setobj2t t' s v) key"
  by (simp add: same_shape_def located_def used_setobj)

lemma put_room:
  assumes wf: "wf_table t" and ok: "okkey key" and room: "room t key"
  obtains t' where "rbind (set_with (newkey_with g) t key) (\<lambda>(t, s). Inr (setobj2t t s v)) = Inr t'"
    and "stored t key v t'" and "same_shape t t' key"
proof (cases "lookup_slot t key")
  case (Some s)
  from set_with_found [OF wf ok Some] show ?thesis
    by (intro that [of "setobj2t (t\<lparr>flags := 0\<rparr>) s v"])
      (simp_all add: located_stored same_shape_setobj)
next
  case None
  have "room (t\<lparr>flags := 0\<rparr>) key" using room by (simp add: room_def)
  then obtain t' s where n: "newkey_with g (t\<lparr>flags := 0\<rparr>) key = Inr (t', s)"
      "located (t\<lparr>flags := 0\<rparr>) key t' s" "same_shape (t\<lparr>flags := 0\<rparr>) t' key"
    using newkey_room [of "t\<lparr>flags := 0\<rparr>" key g] wf ok None by auto
  then have "located t key t' s" "same_shape t t' key" by (simp_all add: located_def same_shape_def)
  then show ?thesis using n(1) set_with_new [OF wf ok None]
    by (intro that [of "setobj2t t' s v"]) (simp_all add: located_stored same_shape_setobj)
qed

lemma putnum_room:
  assumes wf: "wf_table t" and room: "room t (num (i + 1))" and i: "i + 1 < 2 ^ 31"
  obtains t' where "rbind (setnum_with (newkey_with g) t (of_nat (i + 1))) (\<lambda>(t, s). Inr (setobj2t t s v)) = Inr t'"
    and "stored t (num (i + 1)) v t'" and "same_shape t t' (num (i + 1))"
proof -
  have ok: "okkey (num (i + 1))" using i by simp
  have "sint (of_nat (i + 1) :: u32) = int (i + 1)" using i by (intro sint_of_nat_small) simp
  then have key: "TNumber (int_to_double (sint (of_nat (i + 1) :: u32))) = num (i + 1)" by (simp only: num_def)
  show ?thesis
  proof (cases "lookup_slot t (num (i + 1))")
    case (Some s)
    have "located t (num (i + 1)) t s" "same_shape t t (num (i + 1))"
      using lookup_slot_Some [OF Some] wf by (simp_all add: located_def same_shape_def)
    then show ?thesis using setnum_with_found [OF wf, of "of_nat (i + 1)", unfolded key, OF Some]
      by (intro that [of "setobj2t t s v"]) (simp_all add: located_stored same_shape_setobj)
  next
    case None
    obtain t' s where "newkey_with g t (num (i + 1)) = Inr (t', s)"
        "located t (num (i + 1)) t' s" "same_shape t t' (num (i + 1))"
      using newkey_room [OF wf ok None room] by blast
    then show ?thesis using setnum_with_new [OF wf, of "of_nat (i + 1)", unfolded key, OF None]
      by (intro that [of "setobj2t t' s v"]) (simp_all add: located_stored same_shape_setobj)
  qed
qed

section \<open>Putting back many\<close>

definition capacity :: "Table \<Rightarrow> nat" where
  "capacity t = (if node t = None then 0 else length (gnodes t))"

lemma same_shape_in_array: "same_shape t t' k \<Longrightarrow> in_array t' = in_array t"
  by (rule ext) (simp add: same_shape_def in_array_def)

lemma same_shape_capacity:
  "wf_table t \<Longrightarrow> wf_table t' \<Longrightarrow> same_shape t t' k \<Longrightarrow> capacity t' = capacity t"
  by (simp add: capacity_def same_shape_def wf_table_def sizenode_def)

definition same_size :: "Table \<Rightarrow> Table \<Rightarrow> bool" where
  "same_size t t' \<longleftrightarrow> length (array t') = length (array t) \<and> capacity t' = capacity t \<and>
     (node t' = None \<longleftrightarrow> node t = None)"

text \<open>The items of a list whose value is not nil, put one after the other into a table with room for them.\<close>

lemma rfold_stored:
  fixes f :: "'a \<Rightarrow> Table \<Rightarrow> Table result" and key val :: "'a \<Rightarrow> TValue"
  assumes skip: "\<And>x t. x \<in> set xs \<Longrightarrow> val x = TNil \<Longrightarrow> f x t = Inr t"
    and step: "\<And>x t. x \<in> set xs \<Longrightarrow> val x \<noteq> TNil \<Longrightarrow> wf_table t \<Longrightarrow> room t (key x) \<Longrightarrow>
      \<exists>t'. f x t = Inr t' \<and> stored t (key x) (val x) t' \<and> same_shape t t' (key x)"
  shows "wf_table t \<Longrightarrow>
    used (gnodes t) + length (filter (\<lambda>x. val x \<noteq> TNil \<and> \<not> in_array t (key x)) xs) \<le> capacity t \<or>
      (node t = None \<and> filter (\<lambda>x. val x \<noteq> TNil \<and> \<not> in_array t (key x)) xs = []) \<Longrightarrow>
    \<exists>t'. rfold f xs t = Inr t' \<and> wf_table t' \<and> same_size t t' \<and>
      used (gnodes t') \<le> used (gnodes t) + length (filter (\<lambda>x. val x \<noteq> TNil \<and> \<not> in_array t (key x)) xs) \<and>
      (\<forall>k. lookup t' k = (case find (\<lambda>x. val x \<noteq> TNil \<and> luaO_rawequalObj (key x) k) (rev xs) of
         Some x \<Rightarrow> val x | None \<Rightarrow> lookup t k))"
  using skip step
proof (induction xs arbitrary: t)
  case Nil
  then show ?case by (simp add: same_size_def)
next
  case (Cons x xs)
  let ?P = "\<lambda>k x. val x \<noteq> TNil \<and> luaO_rawequalObj (key x) k"
  have find_snoc: "find P (ys @ [z]) = (case find P ys of Some y \<Rightarrow> Some y | None \<Rightarrow> if P z then Some z else None)"
    for P and ys :: "'a list" and z by (induction ys) simp_all
  note skip' = Cons.prems(3) and step' = Cons.prems(4)
  show ?case
  proof (cases "val x = TNil")
    case True
    have "\<exists>t'. rfold f xs t = Inr t' \<and> wf_table t' \<and> same_size t t' \<and>
        used (gnodes t') \<le> used (gnodes t) + length (filter (\<lambda>x. val x \<noteq> TNil \<and> \<not> in_array t (key x)) xs) \<and>
        (\<forall>k. lookup t' k = (case find (?P k) (rev xs) of Some x \<Rightarrow> val x | None \<Rightarrow> lookup t k))"
      by (rule Cons.IH [OF Cons.prems(1)]) (use Cons.prems(2) True skip' step' in auto)
    moreover have "find (?P k) (rev (x # xs)) = find (?P k) (rev xs)" for k
      using True by (simp add: find_snoc split: option.split)
    ultimately show ?thesis using skip' [of x t] True by (simp only: rfold.simps filter.simps) simp
  next
    case False
    have "room t (key x)"
      using Cons.prems(2) False by (auto simp: room_def capacity_def split: if_splits)
    then obtain t1 where t1: "f x t = Inr t1" "stored t (key x) (val x) t1" "same_shape t t1 (key x)"
      using step' [of x t] False Cons.prems(1) by auto
    have wf1: "wf_table t1" using t1(2) by (simp add: stored_def)
    note ia = same_shape_in_array [OF t1(3)] and cap = same_shape_capacity [OF Cons.prems(1) wf1 t1(3)]
    have us: "used (gnodes t1) \<le> used (gnodes t) + (if in_array t (key x) then 0 else 1)"
      and nn: "node t1 = None \<longleftrightarrow> node t = None" and la: "length (array t1) = length (array t)"
      using t1(3) by (simp_all add: same_shape_def)
    have "\<exists>t'. rfold f xs t1 = Inr t' \<and> wf_table t' \<and> same_size t1 t' \<and>
        used (gnodes t') \<le> used (gnodes t1) + length (filter (\<lambda>x. val x \<noteq> TNil \<and> \<not> in_array t1 (key x)) xs) \<and>
        (\<forall>k. lookup t' k = (case find (?P k) (rev xs) of Some x \<Rightarrow> val x | None \<Rightarrow> lookup t1 k))"
    proof (rule Cons.IH [OF wf1])
      show "used (gnodes t1) + length (filter (\<lambda>x. val x \<noteq> TNil \<and> \<not> in_array t1 (key x)) xs) \<le> capacity t1 \<or>
          (node t1 = None \<and> filter (\<lambda>x. val x \<noteq> TNil \<and> \<not> in_array t1 (key x)) xs = [])"
        using Cons.prems(2) us False by (auto simp: ia cap nn split: if_splits)
    qed (use skip' step' in auto)
    then obtain t' where t': "rfold f xs t1 = Inr t'" "wf_table t'" "same_size t1 t'"
        "used (gnodes t') \<le> used (gnodes t1) + length (filter (\<lambda>x. val x \<noteq> TNil \<and> \<not> in_array t (key x)) xs)"
        "\<And>k. lookup t' k = (case find (?P k) (rev xs) of Some x \<Rightarrow> val x | None \<Rightarrow> lookup t1 k)"
      by (auto simp: ia)
    show ?thesis
    proof (intro exI [of _ t'] conjI allI)
      show "rfold f (x # xs) t = Inr t'" using t1(1) t'(1) by simp
      show "same_size t t'" using t'(3) la cap nn by (simp add: same_size_def)
      show "used (gnodes t') \<le> used (gnodes t) +
          length (filter (\<lambda>x. val x \<noteq> TNil \<and> \<not> in_array t (key x)) (x # xs))"
        using t'(4) us False by (simp split: if_splits)
      show "lookup t' k = (case find (?P k) (rev (x # xs)) of Some x \<Rightarrow> val x | None \<Rightarrow> lookup t k)" for k
        using t'(5) [of k] t1(2) False by (simp add: stored_def find_snoc split: option.splits)
    qed (rule t'(2))
  qed
qed

section \<open>A fresh hash part\<close>

lemma gnodes_None: "node t = None \<Longrightarrow> gnodes t = [dummynode]"
  by (simp add: gnodes_def)

lemma dummynode_simps [simp]: "i_key dummynode = TNil" "i_val dummynode = TNil" "i_next dummynode = None"
  by (simp_all add: dummynode_def)

lemma wf_blank: "wf_nodes mp (replicate n dummynode)"
  by (rule wf_nodesI) (auto split: if_splits)

text \<open>A table whose hash part is blank.\<close>

definition blank :: "Table \<Rightarrow> bool" where
  "blank t \<longleftrightarrow> gnodes t = replicate (sizenode t) dummynode \<and> lsizenode t \<le> MAXBITS \<and>
     length (array t) \<le> MAXASIZE \<and>
     (if node t = None then lastfree t \<le> 0 else lastfree t = int (sizenode t))"

lemma blank_wf: "blank t \<Longrightarrow> wf_table t"
  by (auto simp: blank_def wf_table_def wf_blank in_array_def arrayindex_def)

lemma blank_used: "blank t \<Longrightarrow> used (gnodes t) = 0"
  by (simp add: blank_def used_def)

lemma lookup_array:
  assumes wf: "wf_table t" and i: "i < length (array t)"
  shows "lookup t (num (i + 1)) = array t ! i"
proof -
  have "i + 1 < 2 ^ 31" using i wf MAXASIZE_less by (force simp: wf_table_def)
  then have "lookup_slot t (num (i + 1)) = Some (ArraySlot i)"
    using i okkey_num [of "i + 1"] by (intro lookup_slot_eq [OF wf]) (simp_all add: in_slots okkey_def)
  then show ?thesis by (simp add: lookup_def value_at_def)
qed

lemma in_array_num_of:
  assumes "in_array t k"
  obtains i where "i < length (array t)" and "k = num (i + 1)" and "i + 1 < 2 ^ 31"
proof -
  have k: "k = num (nat (arrayindex k))" "nat (arrayindex k) < 2 ^ 31"
    using arrayindex_pos [of k] assms by (simp_all add: in_array_def)
  show ?thesis using assms k by (intro that [of "nat (arrayindex k) - 1"]) (auto simp: in_array_def)
qed

lemma lookup_blank:
  assumes "blank t" and "\<not> in_array t k"
  shows "lookup t k = TNil"
proof -
  note wf = blank_wf [OF assms(1)]
  have "lookup_slot t k = None"
  proof (rule ccontr)
    assume "lookup_slot t k \<noteq> None"
    then obtain s where s: "s \<in> set (slots t)" "luaO_rawequalObj (slot_key t s) k"
      using lookup_slot_Some by blast
    show False
    proof (cases s)
      case (ArraySlot i)
      then have "i < length (array t)" using s(1) by (simp add: in_slots)
      moreover have "i + 1 < 2 ^ 31" using calculation wf MAXASIZE_less by (force simp: wf_table_def)
      ultimately have "in_array t (slot_key t s)" using ArraySlot by (simp add: in_array_num)
      then show False using in_array_cong [OF s(2)] assms(2) by simp
    next
      case (NodeSlot i)
      then show False using s(1) assms(1) by (auto simp: in_slots blank_def)
    qed
  qed
  then show ?thesis by (simp add: lookup_def value_at_def)
qed

lemma setnodevector_cases:
  assumes "n < 2 ^ 31" and "length (array t) \<le> MAXASIZE"
  obtains "setnodevector t n = Inl (LuaError ''table overflow'')" and "MAXASIZE < n"
  | t' where "setnodevector t n = Inr t'" and "blank t'" and "array t' = array t" and "n \<le> capacity t'"
      and "node t' = None \<longleftrightarrow> n = 0" and "metatable t' = metatable t" and "flags t' = flags t"
proof (cases "n = 0")
  case True
  then show ?thesis using assms
    by (intro that(2) [of "t\<lparr>node := None, lsizenode := 0, lastfree := 0\<rparr>"])
      (simp_all add: setnodevector_def blank_def gnodes_def sizenode_def)
next
  case False
  have u: "unat (of_nat n :: u32) = n" using assms by (intro unat_of_nat_small) simp
  then have nz: "(of_nat n :: u32) \<noteq> 0" using False by (metis unat_0)
  define l where "l = nat (ceillog2 (of_nat n))"
  have l: "ceillog2 (of_nat n) = int l" "n \<le> 2 ^ l" "n \<noteq> 1 \<Longrightarrow> 2 ^ nat (int l - 1) < n"
  proof -
    show c: "ceillog2 (of_nat n) = int l" using log2_correct [of "of_nat n"] nz by (simp add: l_def)
    show "n \<le> 2 ^ l" using log2_correct [of "of_nat n"] nz by (simp add: c u)
    show "2 ^ nat (int l - 1) < n" if "n \<noteq> 1"
    proof -
      have "(of_nat n :: u32) \<noteq> 1" using u that by (metis unsigned_1)
      then show ?thesis using log2_correct [of "of_nat n"] nz by (simp add: c u)
    qed
  qed
  show ?thesis
  proof (cases "l > MAXBITS")
    case True
    have "MAXBITS \<le> nat (int l - 1)" using True by simp
    then have "(2 :: nat) ^ MAXBITS \<le> 2 ^ nat (int l - 1)" by (intro power_increasing) simp_all
    moreover have "n \<noteq> 1"
    proof
      assume "n = 1"
      then have "l = 0" using zero_neq_one by (simp add: l_def ceillog2_def luaO_log2_def log2_loop.simps [of 0] log_2_def)
      then show False using True by simp
    qed
    ultimately have "MAXASIZE < n" using l(3) unfolding MAXASIZE_def by linarith
    then show ?thesis using True False l(1) by (intro that(1)) (simp_all add: setnodevector_def Let_def)
  next
    case le: False
    then show ?thesis using False assms l
      by (intro that(2) [of "t\<lparr>node := Some (replicate (2 ^ l) dummynode), lsizenode := l, lastfree := int (2 ^ l)\<rparr>"])
        (simp_all add: setnodevector_def blank_def gnodes_def sizenode_def capacity_def Let_def)
  qed
qed

section \<open>Resize\<close>

lemma in_array_candidate: "in_array t k \<longleftrightarrow> candidate (length (array t)) k"
  by (simp add: in_array_def candidate_def)

text \<open>How many entries do not go to an array part of \<open>n\<close> elements.\<close>

definition outside :: "nat \<Rightarrow> Table \<Rightarrow> nat" where
  "outside n t = length (filter (\<lambda>k. \<not> candidate n k) (keys_of t))"

lemma outside_split:
  assumes wf: "wf_table t"
  shows "outside n t =
    length (filter (\<lambda>(i, v). v \<noteq> TNil \<and> \<not> candidate n (num (i + 1))) (array_items (min n (length (array t))) (drop n (array t)))) +
    length (filter (\<lambda>nd. i_val nd \<noteq> TNil \<and> \<not> candidate n (i_key nd)) (gnodes t))"
proof -
  let ?P = "\<lambda>(i, v). v \<noteq> TNil \<and> \<not> candidate n (num (i + 1))"
  have len: "length (array t) < 2 ^ 31" using wf MAXASIZE_less by (simp add: wf_table_def)
  have "array_items 0 (array t) = array_items 0 (take n (array t)) @ array_items (min n (length (array t))) (drop n (array t))"
    using array_items_append [of 0 "take n (array t)" "drop n (array t)"] by (simp add: min.commute)
  moreover have "filter ?P (array_items 0 (take n (array t))) = []"
    using len by (auto simp: filter_empty_conv set_array_items candidate_num)
  ultimately have "length (filter ?P (array_items 0 (array t))) =
      length (filter ?P (array_items (min n (length (array t))) (drop n (array t))))" by simp
  moreover have "outside n t = length (filter ?P (array_items 0 (array t))) +
      length (filter (\<lambda>nd. i_val nd \<noteq> TNil \<and> \<not> candidate n (i_key nd)) (gnodes t))"
    by (simp add: outside_def keys_of_def filter_len_map o_def case_prod_unfold conj_commute)
  ultimately show ?thesis by simp
qed

text \<open>The items put back find what the old table held.\<close>

lemma find_node_item:
  assumes wf: "wf_table t" and ns: "set ns = set (gnodes t)"
  shows "find (\<lambda>n. i_val n \<noteq> TNil \<and> luaO_rawequalObj (i_key n) k) ns =
    (case lookup_slot t k of
       Some (NodeSlot i) \<Rightarrow> (if i_val (gnodes t ! i) \<noteq> TNil then Some (gnodes t ! i) else None)
     | _ \<Rightarrow> None)"
proof -
  have only: "lookup_slot t k = Some (NodeSlot i)"
    if "i < length (gnodes t)" "i_val (gnodes t ! i) \<noteq> TNil" "luaO_rawequalObj (i_key (gnodes t ! i)) k" for i
  proof -
    have "i_key (gnodes t ! i) \<noteq> TNil" using wf_free [OF wf_table_nodes [OF wf] that(1)] that(2) by blast
    then show ?thesis using that by (intro lookup_slot_eq [OF wf]) (simp_all add: in_slots)
  qed
  show ?thesis
  proof (cases "find (\<lambda>n. i_val n \<noteq> TNil \<and> luaO_rawequalObj (i_key n) k) ns")
    case (Some n)
    then have "n \<in> set (gnodes t) \<and> i_val n \<noteq> TNil \<and> luaO_rawequalObj (i_key n) k"
      using find_in [OF Some] ns by simp
    then show ?thesis using Some only by (auto simp: in_set_conv_nth)
  next
    case None
    then have no: "\<not> (i_val (gnodes t ! i) \<noteq> TNil \<and> luaO_rawequalObj (i_key (gnodes t ! i)) k)"
      if "i < length (gnodes t)" for i
      using that ns by (auto simp: find_None_iff)
    have "i_val (gnodes t ! i) = TNil" if "lookup_slot t k = Some (NodeSlot i)" for i
      using lookup_slot_Some [OF that] no [of i] by (auto simp: in_slots)
    then show ?thesis using None by (auto split: option.splits slot.splits)
  qed
qed

lemma find_array_item:
  assumes wf: "wf_table t" and xs: "set xs = set (array_items n (drop n (array t)))" and n: "n \<le> length (array t)"
  shows "find (\<lambda>(i, v). v \<noteq> TNil \<and> luaO_rawequalObj (num (i + 1)) k) xs =
    (case lookup_slot t k of
       Some (ArraySlot i) \<Rightarrow> (if n \<le> i \<and> array t ! i \<noteq> TNil then Some (i, array t ! i) else None)
     | _ \<Rightarrow> None)"
proof -
  let ?P = "\<lambda>(i, v). v \<noteq> TNil \<and> luaO_rawequalObj (num (i + 1)) k"
  have mem: "(i, v) \<in> set xs \<longleftrightarrow> n \<le> i \<and> i < length (array t) \<and> v = array t ! i" for i v
    using n by (auto simp: xs set_array_items)
  have only: "lookup_slot t k = Some (ArraySlot i)" if "i < length (array t)" "luaO_rawequalObj (num (i + 1)) k" for i
    using that by (intro lookup_slot_eq [OF wf]) (simp_all add: in_slots)
  show ?thesis
  proof (cases "find ?P xs")
    case (Some p)
    obtain i v where p: "p = (i, v)" by (cases p)
    have "(i, v) \<in> set xs" "v \<noteq> TNil" "luaO_rawequalObj (num (i + 1)) k" using find_in [OF Some] by (auto simp: p)
    then show ?thesis using Some only [of i] by (simp add: p mem)
  next
    case None
    have "\<not> (n \<le> i \<and> array t ! i \<noteq> TNil)" if "lookup_slot t k = Some (ArraySlot i)" for i
    proof
      assume a: "n \<le> i \<and> array t ! i \<noteq> TNil"
      have "i < length (array t)" "luaO_rawequalObj (num (i + 1)) k"
        using lookup_slot_Some [OF that] by (simp_all add: in_slots)
      then have "(i, array t ! i) \<in> set xs \<and> ?P (i, array t ! i)" using a by (simp add: mem)
      then show False using None by (auto simp: find_None_iff)
    qed
    then show ?thesis using None by (auto split: option.splits slot.splits)
  qed
qed

lemma put_node_step:
  assumes wf0: "wf_table t0" and n: "n \<in> set (gnodes t0)" "i_val n \<noteq> TNil"
    and "wf_table t" and "room t (i_key n)"
  shows "\<exists>t'. put_node (newkey_with g) n t = Inr t' \<and> stored t (i_key n) (i_val n) t' \<and> same_shape t t' (i_key n)"
proof -
  obtain i where i: "i < length (gnodes t0)" "n = gnodes t0 ! i" using n(1) by (auto simp: in_set_conv_nth)
  have "i_key n \<noteq> TNil" using wf_free [OF wf_table_nodes [OF wf0] i(1)] n(2) i(2) by blast
  then have "okkey (i_key n)" using wf_key [OF wf_table_nodes [OF wf0] i(1)] i(2) by simp
  from put_room [OF assms(4) this assms(5), where v = "i_val n" and g = g] show ?thesis
    using n(2) by (simp add: put_node_def) blast
qed

lemma put_num_step:
  assumes "v \<noteq> TNil" and "wf_table t" and "room t (num (i + 1))" and "i + 1 < 2 ^ 31"
  shows "\<exists>t'. put_num (newkey_with g) (i, v) t = Inr t' \<and> stored t (num (i + 1)) v t' \<and> same_shape t t' (num (i + 1))"
  using putnum_room [OF assms(2-4), where v = v and g = g] assms(1)
  by (simp add: put_num_def del: of_nat_Suc) blast

text \<open>The array part in its new size, the hash part blank.\<close>

definition resized :: "Table \<Rightarrow> nat \<Rightarrow> Table \<Rightarrow> bool" where
  "resized t n t' \<longleftrightarrow> blank t' \<and> array t' = take n (array t) @ replicate (n - length (array t)) TNil"

lemma resize_with_alt:
  assumes "nasize \<le> MAXASIZE" and "nhsize < 2 ^ 31" and wf: "wf_table t"
  obtains "resize_with nk t nasize nhsize = Inl (LuaError ''table overflow'')" and "MAXASIZE < nhsize"
  | t3 where "resized t nasize t3" and "nhsize \<le> capacity t3" and "node t3 = None \<longleftrightarrow> nhsize = 0"
      and "resize_with nk t nasize nhsize =
        rbind (rfold (put_num nk) (array_items (min nasize (length (array t))) (drop nasize (array t))) t3)
          (rfold (put_node nk) (rev (gnodes t)))"
proof -
  let ?t1 = "if nasize > length (array t) then setarrayvector t nasize else t"
  have len: "length (array ?t1) \<le> MAXASIZE"
    using assms by (simp add: setarrayvector_def wf_table_def min_def)
  show ?thesis
  proof (rule setnodevector_cases [OF assms(2) len])
    assume "setnodevector ?t1 nhsize = Inl (LuaError ''table overflow'')" "MAXASIZE < nhsize"
    then show ?thesis by (intro that(1)) (simp_all add: resize_with_def Let_def)
  next
    fix t2 assume t2: "setnodevector ?t1 nhsize = Inr t2" "blank t2" "array t2 = array ?t1" "nhsize \<le> capacity t2"
      "node t2 = None \<longleftrightarrow> nhsize = 0"
    show ?thesis
    proof (cases "nasize < length (array t)")
      case True
      let ?t3 = "t2\<lparr>array := take nasize (array t)\<rparr>"
      have "resized t nasize ?t3" using t2(2) True assms(1)
        by (simp add: resized_def blank_def sizenode_def split: if_splits)
      moreover have "capacity ?t3 = capacity t2" by (simp add: capacity_def)
      ultimately show ?thesis using True t2 by (intro that(2) [of ?t3])
        (simp_all add: resize_with_def Let_def array_items_def)
    next
      case False
      have "resized t nasize t2" using t2 False by (auto simp: resized_def setarrayvector_def)
      then show ?thesis using False t2 by (intro that(2) [of t2])
        (simp_all add: resize_with_def Let_def array_items_def)
    qed
  qed
qed

lemma lookup_resized:
  assumes wf: "wf_table t" and t3: "resized t nasize t3"
  shows "lookup t3 k = (case lookup_slot t k of
    Some (ArraySlot i) \<Rightarrow> (if i < min nasize (length (array t)) then array t ! i else TNil) | _ \<Rightarrow> TNil)"
proof -
  let ?n = "min nasize (length (array t))"
  have b3: "blank t3" and arr3: "array t3 = take nasize (array t) @ replicate (nasize - length (array t)) TNil"
    using t3 by (simp_all add: resized_def)
  have len3: "length (array t3) = nasize" by (simp add: arr3 min_def)
  note wf3 = blank_wf [OF b3]
  have lenA: "length (array t) < 2 ^ 31" using wf MAXASIZE_less by (simp add: wf_table_def)
  show ?thesis
  proof (cases "in_array t3 k")
    case True
    then obtain i where i: "i < length (array t3)" "k = num (i + 1)" "i + 1 < 2 ^ 31" by (rule in_array_num_of)
    have l3: "lookup t3 k = array t3 ! i" using lookup_array [OF wf3 i(1)] i(2) by simp
    show ?thesis
    proof (cases "i < length (array t)")
      case True
      have "lookup_slot t k = Some (ArraySlot i)"
        using True i okkey_num [of "i + 1"] by (intro lookup_slot_eq [OF wf]) (simp_all add: in_slots okkey_def)
      then show ?thesis using l3 i(1) True len3 by (simp add: arr3 nth_append)
    next
      case False
      have "lookup_slot t k \<noteq> Some (ArraySlot j)" for j
      proof
        assume "lookup_slot t k = Some (ArraySlot j)"
        then have "j < length (array t)" "luaO_rawequalObj (num (j + 1)) (num (i + 1))"
          using lookup_slot_Some [of t k] i(2) by (fastforce simp: in_slots)+
        moreover have "j + 1 < 2 ^ 31" using calculation(1) lenA by simp
        ultimately show False using False i(3) rawequal_num [of "j + 1" "num (i + 1)"] num_inj [of "i + 1" "j + 1"] by simp
      qed
      moreover have "array t3 ! i = TNil" using False i(1) len3 by (simp add: arr3 nth_append)
      ultimately show ?thesis using l3 by (auto split: option.splits slot.splits)
    qed
  next
    case False
    have "\<not> i < ?n" if "lookup_slot t k = Some (ArraySlot i)" for i
    proof
      assume i: "i < ?n"
      have "luaO_rawequalObj (num (i + 1)) k" using lookup_slot_Some [OF that] by simp
      moreover have "in_array t3 (num (i + 1))" using i lenA len3 by (subst in_array_num) simp_all
      ultimately show False using in_array_cong False by blast
    qed
    then show ?thesis using lookup_blank [OF b3 False] by (auto split: option.splits slot.splits)
  qed
qed

lemma resize_spec:
  assumes wf: "wf_table t" and na: "nasize \<le> MAXASIZE" and out: "outside nasize t \<le> nhsize" and nh: "nhsize < 2 ^ 31"
  obtains "resize_with (newkey_with g) t nasize nhsize = Inl (LuaError ''table overflow'')" and "MAXASIZE < nhsize"
  | t' where "resize_with (newkey_with g) t nasize nhsize = Inr t'" and "wf_table t'"
      and "length (array t') = nasize" and "\<And>k. lookup t' k = lookup t k"
      and "used (gnodes t') \<le> outside nasize t" and "nhsize \<le> capacity t'" and "node t' = None \<longleftrightarrow> nhsize = 0"
proof (rule resize_with_alt [OF na nh wf, of "newkey_with g"])
  assume "resize_with (newkey_with g) t nasize nhsize = Inl (LuaError ''table overflow'')" "MAXASIZE < nhsize"
  then show ?thesis by (rule that(1))
next
  let ?nk = "newkey_with g"
  fix t3 assume t3: "resized t nasize t3" "nhsize \<le> capacity t3" "node t3 = None \<longleftrightarrow> nhsize = 0"
    and eq: "resize_with ?nk t nasize nhsize =
        rbind (rfold (put_num ?nk) (array_items (min nasize (length (array t))) (drop nasize (array t))) t3)
          (rfold (put_node ?nk) (rev (gnodes t)))"
  let ?n = "min nasize (length (array t))"
  let ?xs = "array_items ?n (drop nasize (array t))"
  have b3: "blank t3" and arr3: "array t3 = take nasize (array t) @ replicate (nasize - length (array t)) TNil"
    using t3(1) by (simp_all add: resized_def)
  have len3: "length (array t3) = nasize" by (simp add: arr3 min_def)
  note wf3 = blank_wf [OF b3]
  have lenA: "length (array t) < 2 ^ 31" using wf MAXASIZE_less by (simp add: wf_table_def)
  have drop_eq: "drop nasize (array t) = drop ?n (array t)" by (simp add: min_def)
  have mem: "(i, v) \<in> set ?xs \<longleftrightarrow> ?n \<le> i \<and> i < length (array t) \<and> v = array t ! i" for i v
    by (auto simp: set_array_items drop_eq min_def)
  let ?c1 = "length (filter (\<lambda>(i, v). v \<noteq> TNil \<and> \<not> candidate nasize (num (i + 1))) ?xs)"
  let ?c2 = "length (filter (\<lambda>nd. i_val nd \<noteq> TNil \<and> \<not> candidate nasize (i_key nd)) (gnodes t))"
  have c: "outside nasize t = ?c1 + ?c2" by (rule outside_split [OF wf])
  have ia: "in_array t' k \<longleftrightarrow> candidate nasize k" if "length (array t') = nasize" for t' k
    using that by (simp add: in_array_candidate)
  have cap3: "?c1 + ?c2 \<le> capacity t3" using out c t3(2) by simp
  have "\<exists>t4. rfold (put_num ?nk) ?xs t3 = Inr t4 \<and> wf_table t4 \<and> same_size t3 t4 \<and>
      used (gnodes t4) \<le> used (gnodes t3) +
        length (filter (\<lambda>x. snd x \<noteq> TNil \<and> \<not> in_array t3 (num (fst x + 1))) ?xs) \<and>
      (\<forall>k. lookup t4 k = (case find (\<lambda>x. snd x \<noteq> TNil \<and> luaO_rawequalObj (num (fst x + 1)) k) (rev ?xs) of
         Some x \<Rightarrow> snd x | None \<Rightarrow> lookup t3 k))"
  proof (rule rfold_stored [OF _ _ wf3])
    show "put_num ?nk x t' = Inr t'" if "snd x = TNil" for x t'
      using that by (simp add: put_num_def case_prod_unfold)
    show "\<exists>t''. put_num ?nk x t' = Inr t'' \<and> stored t' (num (fst x + 1)) (snd x) t'' \<and> same_shape t' t'' (num (fst x + 1))"
      if x: "x \<in> set ?xs" "snd x \<noteq> TNil" "wf_table t'" "room t' (num (fst x + 1))" for x t'
    proof -
      obtain i v where iv: "x = (i, v)" by (cases x)
      then have "i + 1 < 2 ^ 31" using x(1) lenA by (simp add: mem)
      then show ?thesis using put_num_step [of v t' i g] x by (simp add: iv)
    qed
    show "used (gnodes t3) + length (filter (\<lambda>x. snd x \<noteq> TNil \<and> \<not> in_array t3 (num (fst x + 1))) ?xs) \<le> capacity t3 \<or>
        (node t3 = None \<and> filter (\<lambda>x. snd x \<noteq> TNil \<and> \<not> in_array t3 (num (fst x + 1))) ?xs = [])"
      using cap3 by (simp add: blank_used [OF b3] ia [OF len3] case_prod_unfold)
  qed
  then obtain t4 where t4: "rfold (put_num ?nk) ?xs t3 = Inr t4" "wf_table t4" "same_size t3 t4"
      "used (gnodes t4) \<le> ?c1"
      "\<And>k. lookup t4 k = (case find (\<lambda>(i, v). v \<noteq> TNil \<and> luaO_rawequalObj (num (i + 1)) k) (rev ?xs) of
         Some x \<Rightarrow> snd x | None \<Rightarrow> lookup t3 k)"
    by (auto simp: blank_used [OF b3] ia [OF len3] case_prod_unfold)
  have len4: "length (array t4) = nasize" using t4(3) len3 by (simp add: same_size_def)
  have "\<exists>t5. rfold (put_node ?nk) (rev (gnodes t)) t4 = Inr t5 \<and> wf_table t5 \<and> same_size t4 t5 \<and>
      used (gnodes t5) \<le> used (gnodes t4) +
        length (filter (\<lambda>n. i_val n \<noteq> TNil \<and> \<not> in_array t4 (i_key n)) (rev (gnodes t))) \<and>
      (\<forall>k. lookup t5 k = (case find (\<lambda>n. i_val n \<noteq> TNil \<and> luaO_rawequalObj (i_key n) k) (rev (rev (gnodes t))) of
         Some n \<Rightarrow> i_val n | None \<Rightarrow> lookup t4 k))"
  proof (rule rfold_stored [OF _ _ t4(2)])
    show "put_node ?nk n t' = Inr t'" if "i_val n = TNil" for n t'
      using that by (simp add: put_node_def)
    show "\<exists>t''. put_node ?nk n t' = Inr t'' \<and> stored t' (i_key n) (i_val n) t'' \<and> same_shape t' t'' (i_key n)"
      if "n \<in> set (rev (gnodes t))" "i_val n \<noteq> TNil" "wf_table t'" "room t' (i_key n)" for n t'
      using put_node_step [OF wf, of n t' g] that by simp
    have "?c2 = length (filter (\<lambda>n. i_val n \<noteq> TNil \<and> \<not> in_array t4 (i_key n)) (rev (gnodes t)))"
      by (simp add: rev_filter [symmetric] ia [OF len4])
    then show "used (gnodes t4) + length (filter (\<lambda>n. i_val n \<noteq> TNil \<and> \<not> in_array t4 (i_key n)) (rev (gnodes t))) \<le> capacity t4 \<or>
        (node t4 = None \<and> filter (\<lambda>n. i_val n \<noteq> TNil \<and> \<not> in_array t4 (i_key n)) (rev (gnodes t)) = [])"
      using cap3 t4(3,4) by (simp add: same_size_def)
  qed
  then obtain t5 where t5: "rfold (put_node ?nk) (rev (gnodes t)) t4 = Inr t5" "wf_table t5" "same_size t4 t5"
      "used (gnodes t5) \<le> used (gnodes t4) + ?c2"
      "\<And>k. lookup t5 k = (case find (\<lambda>n. i_val n \<noteq> TNil \<and> luaO_rawequalObj (i_key n) k) (gnodes t) of
         Some n \<Rightarrow> i_val n | None \<Rightarrow> lookup t4 k)"
    by (auto simp: rev_filter [symmetric] ia [OF len4])
  have look: "lookup t5 k = lookup t k" for k
  proof -
    note array3 = lookup_resized [OF wf t3(1), of k]
    have items: "find (\<lambda>(i, v). v \<noteq> TNil \<and> luaO_rawequalObj (num (i + 1)) k) (rev ?xs) =
        (case lookup_slot t k of
           Some (ArraySlot i) \<Rightarrow> (if ?n \<le> i \<and> array t ! i \<noteq> TNil then Some (i, array t ! i) else None) | _ \<Rightarrow> None)"
      by (rule find_array_item [OF wf]) (simp_all add: drop_eq [symmetric])
    show ?thesis unfolding t5(5) t4(5) array3 items find_node_item [OF wf refl]
      by (auto simp: lookup_def value_at_def split: option.splits slot.splits)
  qed
  show ?thesis
  proof (rule that(2) [of t5])
    show "resize_with ?nk t nasize nhsize = Inr t5" using eq t4(1) t5(1) by simp
  qed (use t5 t4(3,4) t3 len3 look c in \<open>simp_all add: same_size_def\<close>)
qed

section \<open>Rehash and set\<close>

lemma keys_of_length: "wf_table t \<Longrightarrow> length (keys_of t) \<le> 2 * MAXASIZE"
proof -
  assume wf: "wf_table t"
  have "length (array_keys (array t)) \<le> length (array t)"
    using length_filter_le [of "\<lambda>(i, v). v \<noteq> TNil" "array_items 0 (array t)"]
    by (simp add: array_keys_def array_items_def)
  moreover have "length (node_keys (gnodes t)) \<le> length (gnodes t)" by (simp add: node_keys_def)
  moreover have "length (gnodes t) \<le> MAXASIZE"
    using wf unfolding wf_table_def sizenode_def MAXASIZE_def by (auto intro: power_increasing)
  moreover have "length (array t) \<le> MAXASIZE" using wf by (simp add: wf_table_def)
  ultimately show ?thesis by (simp add: keys_of_alt)
qed

lemma rehash_spec:
  assumes wf: "wf_table t"
  obtains "rehash_with (newkey_with g) t ek = Inl (LuaError ''table overflow'')" and "MAXASIZE \<le> length (keys_of t)"
  | t' where "rehash_with (newkey_with g) t ek = Inr t'" and "wf_table t'"
      and "\<And>k. lookup t' k = lookup t k" and "room t' ek"
proof (rule rehash_with_sizes [OF wf])
  fix n nums
  let ?h = "length (filter (\<lambda>k. \<not> candidate n k) (ek # keys_of t))"
  assume eq: "rehash_with (newkey_with g) t ek = resize_with (newkey_with g) t n ?h" and n: "n \<le> MAXASIZE"
  have h: "?h = outside n t + (if candidate n ek then 0 else 1)" by (simp add: outside_def)
  have "?h \<le> length (ek # keys_of t)" by (rule length_filter_le)
  then have le: "?h \<le> Suc (length (keys_of t))" by simp
  then have small: "?h < 2 ^ 31" using keys_of_length [OF wf] by (simp add: MAXASIZE_def MAXBITS_def)
  have out: "outside n t \<le> ?h" unfolding h by simp
  show ?thesis
  proof (rule resize_spec [OF wf n out small, of g])
    assume "resize_with (newkey_with g) t n ?h = Inl (LuaError ''table overflow'')" "MAXASIZE < ?h"
    then show ?thesis using eq le by (intro that(1)) simp_all
  next
    fix t' assume t': "resize_with (newkey_with g) t n ?h = Inr t'" "wf_table t'" "length (array t') = n"
      "\<And>k. lookup t' k = lookup t k" "used (gnodes t') \<le> outside n t" "?h \<le> capacity t'"
      "node t' = None \<longleftrightarrow> ?h = 0"
    have "room t' ek"
    proof (cases "candidate n ek")
      case True
      then show ?thesis by (simp add: room_def in_array_candidate t'(3))
    next
      case False
      then have "node t' \<noteq> None" "used (gnodes t') < capacity t'" using t'(5-7) h by simp_all
      then show ?thesis by (auto simp: room_def capacity_def)
    qed
    then show ?thesis using t' eq by (intro that(2) [of t']) simp_all
  qed
qed

lemma lookup_lastfree:
  assumes "wf_table t" and "wf_table (t\<lparr>lastfree := l\<rparr>)"
  shows "lookup (t\<lparr>lastfree := l\<rparr>) k = lookup t k" and "keys_of (t\<lparr>lastfree := l\<rparr>) = keys_of t"
proof -
  have "slot_value (t\<lparr>lastfree := l\<rparr>) = slot_value t" "slot_key (t\<lparr>lastfree := l\<rparr>) = slot_key t"
    by (rule ext, rename_tac s, case_tac s; simp)+
  then have "entries (t\<lparr>lastfree := l\<rparr>) = entries t" by (simp add: entries_def slots_def)
  then show "lookup (t\<lparr>lastfree := l\<rparr>) k = lookup t k" by (rule lookup_eqI [OF assms])
  show "keys_of (t\<lparr>lastfree := l\<rparr>) = keys_of t" by (simp add: keys_of_def)
qed

lemma keys_of_flags [simp]: "keys_of (t\<lparr>flags := f\<rparr>) = keys_of t"
  by (simp add: keys_of_def)

text \<open>
  A new key is placed, at once or after one rehash; the calls inside the rehash never need
  another, so any further level of \<open>newkey\<close> gives the same.
\<close>

lemma newkey_Suc:
  assumes wf: "wf_table t" and ok: "okkey key" and new: "lookup_slot t key = None"
  obtains "newkey (Suc f) t key = Inl (LuaError ''table overflow'')" and "MAXASIZE \<le> length (keys_of t)"
  | t' s where "newkey (Suc f) t key = Inr (t', s)" and "located t key t' s"
proof -
  let ?grow = "\<lambda>t key. rbind (rehash_with (newkey f) t key) (\<lambda>t. set_with (newkey f) t key)"
  obtain g where g: "newkey f = newkey_with g" by (cases f) auto
  show ?thesis
  proof (rule newkey_spec [OF wf ok new, of ?grow])
    fix t' s assume n: "newkey_with ?grow t key = Inr (t', s)" "placed t key t' s"
    then have "located t key t' s"
      using lookup_eqI [OF wf, of t'] okkey_refl [OF ok] by (simp add: placed_def located_def)
    then show ?thesis using n(1) by (intro that(2) [of t' s]) simp_all
  next
    fix l assume n: "newkey_with ?grow t key = ?grow (t\<lparr>lastfree := l\<rparr>) key" and wf1: "wf_table (t\<lparr>lastfree := l\<rparr>)"
    let ?t = "t\<lparr>lastfree := l\<rparr>"
    note look = lookup_lastfree [OF wf wf1]
    show ?thesis
    proof (rule rehash_spec [OF wf1, of g key])
      assume "rehash_with (newkey_with g) ?t key = Inl (LuaError ''table overflow'')" "MAXASIZE \<le> length (keys_of ?t)"
      then show ?thesis using n by (intro that(1)) (simp_all add: g look)
    next
      fix t' assume t': "rehash_with (newkey_with g) ?t key = Inr t'" "wf_table t'"
        "\<And>k. lookup t' k = lookup ?t k" "room t' key"
      have eq: "newkey (Suc f) t key = set_with (newkey_with g) t' key" using n t'(1) by (simp add: g)
      show ?thesis
      proof (cases "lookup_slot t' key")
        case (Some s)
        have "located t key (t'\<lparr>flags := 0\<rparr>) s"
          using set_with_found(2) [OF t'(2) ok Some] t'(3) look by (simp add: located_def)
        then show ?thesis using set_with_found(1) [OF t'(2) ok Some] eq by (intro that(2)) simp_all
      next
        case None
        have "room (t'\<lparr>flags := 0\<rparr>) key" using t'(4) by (simp add: room_def)
        moreover have "wf_table (t'\<lparr>flags := 0\<rparr>)" "lookup_slot (t'\<lparr>flags := 0\<rparr>) key = None"
          using t'(2) None by simp_all
        ultimately obtain t2 s where "newkey_with g (t'\<lparr>flags := 0\<rparr>) key = Inr (t2, s)"
            "located (t'\<lparr>flags := 0\<rparr>) key t2 s"
          using newkey_room [OF _ ok] by metis
        then show ?thesis using set_with_new [OF t'(2) ok None] eq t'(3) look
          by (intro that(2)) (simp_all add: located_def)
      qed
    qed
  qed
qed

lemma luaH_set_spec:
  assumes wf: "wf_table t" and ok: "okkey key"
  obtains "luaH_set t key = Inl (LuaError ''table overflow'')" and "MAXASIZE \<le> length (keys_of t)"
  | t' s where "luaH_set t key = Inr (t', s)" and "located t key t' s"
proof (cases "lookup_slot t key")
  case (Some s)
  then show ?thesis using set_with_found [OF wf ok Some] by (intro that(2)) (simp_all add: luaH_set_def)
next
  case None
  have eq: "luaH_set t key = newkey (Suc 0) (t\<lparr>flags := 0\<rparr>) key"
    using set_with_new [OF wf ok None] by (simp only: luaH_set_def One_nat_def)
  have None': "lookup_slot (t\<lparr>flags := 0\<rparr>) key = None" using None by simp
  have wf0: "wf_table (t\<lparr>flags := 0\<rparr>)" using wf by simp
  show ?thesis
  proof (rule newkey_Suc [OF wf0 ok None', of 0])
    assume "newkey (Suc 0) (t\<lparr>flags := 0\<rparr>) key = Inl (LuaError ''table overflow'')"
      "MAXASIZE \<le> length (keys_of (t\<lparr>flags := 0\<rparr>))"
    then show ?thesis using eq by (intro that(1)) simp_all
  next
    fix t' s assume n: "newkey (Suc 0) (t\<lparr>flags := 0\<rparr>) key = Inr (t', s)" "located (t\<lparr>flags := 0\<rparr>) key t' s"
    then have "located t key t' s" by (simp add: located_def)
    then show ?thesis using n(1) eq by (intro that(2)) simp_all
  qed
qed

end
