(* ===== verification/LuaTableMap.thy ===== *)
theory LuaTableMap
  imports LuaTableRehash
begin

text \<open>
  What Lua tables promise: the search, the setters, creation and growth as operations on a finite
  map, the traversal of all entries, and the boundary that the length operator finds.
\<close>

section \<open>Traversal\<close>

text \<open>All entries in the order of the traversal.\<close>

definition contents :: "Table \<Rightarrow> (TValue \<times> TValue) list" where
  "contents t =
     filter (\<lambda>(k, v). v \<noteq> TNil)
       (zip (map (\<lambda>i. num (i + 1)) [0..<length (array t)]) (array t) @ map (\<lambda>n. (i_key n, i_val n)) (gnodes t))"

text \<open>Calling \<open>luaH_next\<close> until it has no more, from a key on.\<close>

fun traverse :: "nat \<Rightarrow> Table \<Rightarrow> TValue \<Rightarrow> (TValue \<times> TValue) list result" where
  "traverse 0 t k = Inl OutOfFuel"
| "traverse (Suc f) t k = rbind (luaH_next t k) (\<lambda>r. case r of
     None \<Rightarrow> Inr []
   | Some (k', v) \<Rightarrow> rbind (traverse f t k') (\<lambda>rest. Inr ((k', v) # rest)))"

text \<open>The places in the order of the traversal, used or not.\<close>

definition all_slots :: "Table \<Rightarrow> (TValue \<times> TValue) list" where
  "all_slots t = map (\<lambda>i. (num (i + 1), array t ! i)) [0..<length (array t)] @ map (\<lambda>n. (i_key n, i_val n)) (gnodes t)"

lemma contents_alt: "contents t = filter (\<lambda>(k, v). v \<noteq> TNil) (all_slots t)"
proof -
  have "zip (map (\<lambda>i. num (i + 1)) [0..<length (array t)]) (array t) =
      map (\<lambda>i. (num (i + 1), array t ! i)) [0..<length (array t)]"
    by (rule nth_equalityI) simp_all
  then show ?thesis by (simp add: contents_def all_slots_def)
qed

lemma next_in_nodes_find:
  "next_in_nodes ns = find (\<lambda>(k, v). v \<noteq> TNil) (map (\<lambda>n. (i_key n, i_val n)) ns)"
  by (induction ns) simp_all

lemma next_in_array_find:
  "next_in_array vs i = find (\<lambda>(k, v). v \<noteq> TNil) (map (\<lambda>j. (num (i + j + 1), vs ! j)) [0..<length vs])"
proof (induction vs arbitrary: i)
  case (Cons v vs)
  have m: "map (\<lambda>j. (num (i + j + 1), (v # vs) ! j)) [0..<length (v # vs)] =
      (num (i + 1), v) # map (\<lambda>j. (num (i + 1 + j + 1), vs ! j)) [0..<length vs]"
    by (rule nth_equalityI) (auto simp: nth_Cons split: nat.splits simp del: upt_Suc)
  have k: "TNumber (int_to_double (int i + 1)) = num (i + 1)" by (simp add: num_def add.commute)
  show ?case by (simp only: m next_in_array.simps k Cons.IH find.simps) simp
qed simp

lemma find_append: "find P (xs @ ys) = (case find P xs of Some x \<Rightarrow> Some x | None \<Rightarrow> find P ys)"
  by (induction xs) simp_all

lemma next_from:
  assumes "rbind (findindex t k) (\<lambda>i. Inr (nat (i + 1))) = Inr i"
  shows "luaH_next t k = Inr (find (\<lambda>(k, v). v \<noteq> TNil) (drop i (all_slots t)))"
proof -
  have "map (\<lambda>j. (num (i + j + 1), drop i (array t) ! j)) [0..<length (drop i (array t))] =
      drop i (map (\<lambda>i. (num (i + 1), array t ! i)) [0..<length (array t)])"
    by (rule nth_equalityI) (simp_all add: add.commute less_diff_conv)
  then show ?thesis using assms
    by (cases "findindex t k")
      (auto simp: luaH_next_def next_in_array_find next_in_nodes_find all_slots_def find_append drop_map Let_def
        split: option.splits)
qed

text \<open>The index of the key of a used place is its position, whatever its value.\<close>

lemma findindex_array:
  assumes wf: "wf_table t" and i: "i < length (array t)"
  shows "findindex t (num (i + 1)) = Inr (int i)"
proof -
  have "i + 1 < 2 ^ 31" using i wf MAXASIZE_less by (force simp: wf_table_def)
  then have "arrayindex (num (i + 1)) = int (i + 1)" by (rule arrayindex_num)
  then show ?thesis using i by (simp add: findindex_def num_def)
qed

lemma findindex_node:
  assumes wf: "wf_table t" and i: "i < length (gnodes t)" and key: "i_key (gnodes t ! i) \<noteq> TNil"
  shows "findindex t (i_key (gnodes t ! i)) = Inr (int (length (array t) + i))"
proof -
  let ?k = "i_key (gnodes t ! i)"
  have na: "\<not> in_array t ?k" using wf i by (simp add: wf_table_def)
  have ok: "okkey ?k" using wf_key [OF wf_table_nodes [OF wf] i key] .
  have "lookup_slot t ?k = Some (NodeSlot i)"
    using i key okkey_refl [OF ok] by (intro lookup_slot_eq [OF wf]) (simp_all add: in_slots)
  then have "search_from t (mainposition t ?k) (\<lambda>k'. luaO_rawequalObj k' ?k) = Inr (Some (NodeSlot i))"
    using search_from_nodes [OF wf ok _ na] by simp
  then show ?thesis using key na by (auto simp: findindex_def in_array_def Let_def)
qed

lemma findindex_slot:
  assumes wf: "wf_table t" and i: "i < length (all_slots t)" and v: "snd (all_slots t ! i) \<noteq> TNil"
  shows "findindex t (fst (all_slots t ! i)) = Inr (int i)"
proof (cases "i < length (array t)")
  case True
  then show ?thesis using findindex_array [OF wf True] by (simp add: all_slots_def nth_append)
next
  case False
  let ?i = "i - length (array t)"
  have n: "?i < length (gnodes t)" using i False by (simp add: all_slots_def)
  have a: "all_slots t ! i = (i_key (gnodes t ! ?i), i_val (gnodes t ! ?i))"
    using False n by (simp add: all_slots_def nth_append)
  then have "i_key (gnodes t ! ?i) \<noteq> TNil" using v wf_free [OF wf_table_nodes [OF wf] n] by auto
  then show ?thesis using findindex_node [OF wf n] False by (simp add: a)
qed

lemma traverse_from:
  assumes wf: "wf_table t"
  shows "length (all_slots t) - i < f \<Longrightarrow> rbind (findindex t k) (\<lambda>i. Inr (nat (i + 1))) = Inr i \<Longrightarrow>
    traverse f t k = Inr (filter (\<lambda>(k, v). v \<noteq> TNil) (drop i (all_slots t)))"
proof (induction f arbitrary: i k)
  case (Suc f)
  note nxt = next_from [OF Suc.prems(2)]
  show ?case
  proof (cases "find (\<lambda>(k, v). v \<noteq> TNil) (drop i (all_slots t))")
    case None
    then have "filter (\<lambda>(k, v). v \<noteq> TNil) (drop i (all_slots t)) = []"
      by (auto simp: find_None_iff filter_empty_conv)
    then show ?thesis using nxt None by simp
  next
    case (Some p)
    then obtain j where j: "j < length (drop i (all_slots t))" "p = drop i (all_slots t) ! j"
        "case p of (k, v) \<Rightarrow> v \<noteq> TNil" "\<forall>j' < j. \<not> (case drop i (all_slots t) ! j' of (k, v) \<Rightarrow> v \<noteq> TNil)"
      by (auto simp: find_Some_iff)
    let ?m = "i + j"
    have m: "?m < length (all_slots t)" "all_slots t ! ?m = p" using j(1,2) by simp_all
    obtain k' v where p: "p = (k', v)" by (cases p)
    have "findindex t k' = Inr (int ?m)" using findindex_slot [OF wf m(1)] m(2) j(3) by (simp add: p)
    then have idx: "rbind (findindex t k') (\<lambda>i. Inr (nat (i + 1))) = Inr (Suc ?m)" by (simp add: nat_add_distrib)
    have "traverse f t k' = Inr (filter (\<lambda>(k, v). v \<noteq> TNil) (drop (Suc ?m) (all_slots t)))"
      by (rule Suc.IH [OF _ idx]) (use Suc.prems(1) m(1) in linarith)
    moreover have "filter (\<lambda>(k, v). v \<noteq> TNil) (drop i (all_slots t)) =
        p # filter (\<lambda>(k, v). v \<noteq> TNil) (drop (Suc ?m) (all_slots t))"
    proof -
      have dr: "drop i (all_slots t) = take j (drop i (all_slots t)) @ p # drop (Suc ?m) (all_slots t)"
        using id_take_nth_drop [OF j(1)] j(2) by (simp add: add.commute)
      have "\<not> (case x of (k, v) \<Rightarrow> v \<noteq> TNil)" if x: "x \<in> set (take j (drop i (all_slots t)))" for x
      proof -
        obtain n where "n < length (take j (drop i (all_slots t)))" "x = take j (drop i (all_slots t)) ! n"
          using x by (auto simp: in_set_conv_nth simp del: length_take nth_take)
        then have n: "n < j" and xn: "x = drop i (all_slots t) ! n" by simp_all
        show ?thesis unfolding xn by (rule j(4) [rule_format, OF n])
      qed
      then have fl: "filter (\<lambda>(k, v). v \<noteq> TNil) (take j (drop i (all_slots t))) = []"
        by (simp add: filter_empty_conv)
      show ?thesis using j(3) by (subst dr) (simp add: fl del: drop_eq_Nil)
    qed
    ultimately show ?thesis using nxt Some by (simp add: p)
  qed
qed simp

section \<open>Boundaries\<close>

lemma present_lookup:
  assumes wf: "wf_table t" and j: "j < 2 ^ 31"
  shows "present t j = Inr (lookup t (num j) \<noteq> TNil)"
proof -
  have "sint (of_nat j :: u32) = int j" using j by (intro sint_of_nat_small) simp
  then have "luaH_getnum t (of_nat j) = Inr (lookup_slot t (num j))"
    using getnum_lookup [OF wf, of "of_nat j"] by (simp add: num_def)
  then show ?thesis by (simp add: present_def lookup_def)
qed

text \<open>A binary search between a place that holds and one that does not ends where they meet.\<close>

lemma binary_search_boundary:
  "i < j \<Longrightarrow> (i = 0 \<or> Q i) \<Longrightarrow> \<not> Q j \<Longrightarrow> (\<And>m. i < m \<Longrightarrow> m < j \<Longrightarrow> p m = Inr (Q m)) \<Longrightarrow>
    \<exists>n. binary_search p i j = Inr n \<and> i \<le> n \<and> n < j \<and> (n = 0 \<or> Q n) \<and> \<not> Q (n + 1)"
proof (induction p i j rule: binary_search.induct)
  case (1 p i j)
  show ?case
  proof (cases "j - i > 1")
    case True
    let ?m = "(i + j) div 2"
    have m: "i < ?m" "?m < j" using True by auto
    then have pm: "p ?m = Inr (Q ?m)" using "1.prems"(4) by blast
    show ?thesis
    proof (cases "Q ?m")
      case q: True
      have "\<exists>n. binary_search p ?m j = Inr n \<and> ?m \<le> n \<and> n < j \<and> (n = 0 \<or> Q n) \<and> \<not> Q (n + 1)"
        by (rule "1.IH"(1) [OF True refl pm]) (use q m "1.prems" in auto)
      then obtain n where "binary_search p ?m j = Inr n" "?m \<le> n" "n < j" "n = 0 \<or> Q n" "\<not> Q (n + 1)" by blast
      then show ?thesis using True pm q m
        by (intro exI [of _ n]) (simp add: binary_search.simps [of p i j] Let_def)
    next
      case q: False
      have "\<exists>n. binary_search p i ?m = Inr n \<and> i \<le> n \<and> n < ?m \<and> (n = 0 \<or> Q n) \<and> \<not> Q (n + 1)"
        by (rule "1.IH"(2) [OF True refl pm]) (use q m "1.prems" in auto)
      then obtain n where "binary_search p i ?m = Inr n" "i \<le> n" "n < ?m" "n = 0 \<or> Q n" "\<not> Q (n + 1)" by blast
      then show ?thesis using True pm q m
        by (intro exI [of _ n]) (simp add: binary_search.simps [of p i j] Let_def)
    qed
  next
    case False
    then have "j = i + 1" using "1.prems"(1) by simp
    then show ?thesis using "1.prems" False
      by (intro exI [of _ i]) (simp add: binary_search.simps [of p i "Suc i"])
  qed
qed

text \<open>Present keys are among the keys of the table, so there are not more than it has entries.\<close>

lemma lookup_in_keys:
  assumes wf: "wf_table t" and i: "0 < i" "i < 2 ^ 31" and v: "lookup t (num i) \<noteq> TNil"
  shows "num i \<in> set (keys_of t)"
proof -
  obtain s where s: "lookup_slot t (num i) = Some s" "slot_value t s \<noteq> TNil"
    using v by (cases "lookup_slot t (num i)") (simp_all add: lookup_def value_at_def)
  then have "s \<in> set (slots t)" "luaO_rawequalObj (slot_key t s) (num i)" using lookup_slot_Some by blast+
  then have k: "slot_key t s = num i" "s \<in> set (slots t)"
    using rawequal_num [OF i] rawequal_sym by blast+
  show ?thesis
  proof (cases s)
    case (ArraySlot j)
    then have "(j, array t ! j) \<in> set (array_items 0 (array t))" "array t ! j \<noteq> TNil"
      using k s(2) by (simp_all add: set_array_items in_slots)
    then show ?thesis using k(1) ArraySlot by (force simp: keys_of_alt array_keys_def)
  next
    case (NodeSlot j)
    then show ?thesis using k s(2) by (force simp: keys_of_alt node_keys_def in_slots)
  qed
qed

lemma keys_of_le: "length (keys_of t) \<le> length (array t) + length (gnodes t)"
  using length_filter_le [of "\<lambda>(i, v). v \<noteq> TNil" "array_items 0 (array t)"]
  by (simp add: keys_of_alt array_keys_def node_keys_def array_items_def add_mono)

lemma present_run:
  assumes wf: "wf_table t" and n: "n < 2 ^ 31" and v: "\<And>i. 0 < i \<Longrightarrow> i \<le> n \<Longrightarrow> lookup t (num i) \<noteq> TNil"
  shows "n \<le> length (array t) + length (gnodes t)"
proof -
  have "inj_on num {1..n}" using n num_inj by (auto simp: inj_on_def)
  then have "n = card (num ` {1..n})" by (simp add: card_image)
  also have "\<dots> \<le> card (set (keys_of t))"
    using lookup_in_keys [OF wf] v n by (intro card_mono) auto
  also have "\<dots> \<le> length (keys_of t)" by (rule card_length)
  finally show ?thesis using keys_of_le [of t] by linarith
qed

lemma linear_search_boundary:
  assumes wf: "wf_table t"
  shows "0 < i \<Longrightarrow> (\<And>j. 0 < j \<Longrightarrow> j < i \<Longrightarrow> lookup t (num j) \<noteq> TNil) \<Longrightarrow>
    length (array t) + length (gnodes t) + 2 \<le> f + i \<Longrightarrow>
    \<exists>n. linear_search f t i = Inr n \<and> (n = 0 \<or> lookup t (num n) \<noteq> TNil) \<and> lookup t (num (n + 1)) = TNil \<and> n + 1 < 2 ^ 31"
proof (induction f arbitrary: i)
  case 0
  have small: "length (array t) + length (gnodes t) + 2 < 2 ^ 31"
    using wf power_increasing [of "lsizenode t" MAXBITS "2 :: nat"]
    by (auto simp: wf_table_def sizenode_def MAXASIZE_def MAXBITS_def)
  have "length (array t) + length (gnodes t) + 1 \<le> length (array t) + length (gnodes t)"
    by (rule present_run [OF wf]) (use small 0 in auto)
  then show ?case by simp
next
  case (Suc f)
  have small: "length (array t) + length (gnodes t) + 2 < 2 ^ 31"
    using wf power_increasing [of "lsizenode t" MAXBITS "2 :: nat"]
    by (auto simp: wf_table_def sizenode_def MAXASIZE_def MAXBITS_def)
  have "i \<le> length (array t) + length (gnodes t) + 1"
  proof (rule ccontr)
    assume "\<not> i \<le> length (array t) + length (gnodes t) + 1"
    then have "length (array t) + length (gnodes t) + 1 \<le> length (array t) + length (gnodes t)"
      by (intro present_run [OF wf]) (use small Suc.prems in auto)
    then show False by simp
  qed
  then have i: "i < 2 ^ 31" using small by simp
  note p = present_lookup [OF wf i]
  show ?case
  proof (cases "lookup t (num i) = TNil")
    case True
    moreover have "i - 1 = 0 \<or> lookup t (num (i - 1)) \<noteq> TNil" using Suc.prems(1,2) by auto
    ultimately show ?thesis using p Suc.prems(1) i by (intro exI [of _ "i - 1"]) simp
  next
    case False
    have "\<exists>n. linear_search f t (i + 1) = Inr n \<and> (n = 0 \<or> lookup t (num n) \<noteq> TNil) \<and>
        lookup t (num (n + 1)) = TNil \<and> n + 1 < 2 ^ 31"
      by (rule Suc.IH) (use Suc.prems False in \<open>auto simp: less_Suc_eq\<close>)
    then show ?thesis using p False by simp
  qed
qed

lemma double_search_boundary:
  assumes wf: "wf_table t"
  shows "i < j \<Longrightarrow> j \<le> nat MAX_INT \<Longrightarrow> (i = 0 \<or> lookup t (num i) \<noteq> TNil) \<Longrightarrow> 2 ^ 31 \<le> j * 2 ^ f \<Longrightarrow>
    \<exists>n. double_search f t i j = Inr n \<and> (n = 0 \<or> lookup t (num n) \<noteq> TNil) \<and> lookup t (num (n + 1)) = TNil \<and> n + 1 < 2 ^ 31"
proof (induction f arbitrary: i j)
  case 0
  then show ?case by (simp add: MAX_INT_def)
next
  case (Suc f)
  have j31: "j < 2 ^ 31" using Suc.prems(2) by (simp add: MAX_INT_def)
  note p = present_lookup [OF wf j31]
  show ?case
  proof (cases "lookup t (num j) = TNil")
    case True
    have "\<exists>n. binary_search (present t) i j = Inr n \<and> i \<le> n \<and> n < j \<and>
        (n = 0 \<or> lookup t (num n) \<noteq> TNil) \<and> \<not> lookup t (num (n + 1)) \<noteq> TNil"
      by (rule binary_search_boundary) (use Suc.prems True present_lookup [OF wf] j31 in auto)
    then show ?thesis using p True j31 by (auto intro: less_le_trans)
  next
    case False
    show ?thesis
    proof (cases "2 * j > nat MAX_INT")
      case True
      have "\<exists>n. linear_search (length (array t) + length (gnodes t) + 1) t 1 = Inr n \<and>
          (n = 0 \<or> lookup t (num n) \<noteq> TNil) \<and> lookup t (num (n + 1)) = TNil \<and> n + 1 < 2 ^ 31"
        by (rule linear_search_boundary [OF wf]) auto
      then show ?thesis using p False True by (simp add: Let_def)
    next
      case le: False
      have "\<exists>n. double_search f t j (2 * j) = Inr n \<and> (n = 0 \<or> lookup t (num n) \<noteq> TNil) \<and>
          lookup t (num (n + 1)) = TNil \<and> n + 1 < 2 ^ 31"
        by (rule Suc.IH) (use Suc.prems False le in \<open>auto simp: algebra_simps\<close>)
      then show ?thesis using p False le by (simp add: Let_def)
    qed
  qed
qed

section \<open>Creation and growth of the array part\<close>

lemma new_spec:
  assumes "narray \<le> MAXASIZE" and "nhash \<le> MAXASIZE"
  obtains t where "luaH_new narray nhash = Inr t" and "wf_table t" and "\<And>k. lookup t k = TNil"
proof -
  let ?t = "setarrayvector \<lparr>flags = - 1, lsizenode = 0, metatable = None, array = [], node = None, lastfree = 0\<rparr> narray"
  have arr: "array ?t = replicate narray TNil" by (simp add: setarrayvector_def)
  have "nhash < 2 ^ 31" "length (array ?t) \<le> MAXASIZE" using assms MAXASIZE_less by (simp_all add: arr)
  then show ?thesis
  proof (rule setnodevector_cases)
    fix t' assume t': "setnodevector ?t nhash = Inr t'" "blank t'" "array t' = array ?t"
    have "lookup t' k = TNil" for k
    proof (cases "in_array t' k")
      case True
      then obtain i where "i < length (array t')" "k = num (i + 1)" by (rule in_array_num_of)
      then show ?thesis using lookup_array [OF blank_wf [OF t'(2)]] t'(3) arr by simp
    qed (rule lookup_blank [OF t'(2)])
    then show ?thesis using t' blank_wf by (intro that [of t']) (simp_all add: luaH_new_def)
  qed (use assms in simp)
qed

text \<open>Growing the array part (as the instruction that fills a table from a list does) keeps the map.\<close>

lemma resizearray_spec:
  assumes wf: "wf_table t" and n: "length (array t) \<le> n" "n \<le> MAXASIZE"
  obtains t' where "luaH_resizearray t n = Inr t'" and "wf_table t'" and "\<And>k. lookup t' k = lookup t k"
    and "length (array t') = n"
proof -
  let ?h = "if node t = None then 0 else sizenode t"
  obtain g where g: "newkey 1 = newkey_with g" by simp
  have "outside n t = length (filter (\<lambda>nd. i_val nd \<noteq> TNil \<and> \<not> candidate n (i_key nd)) (gnodes t))"
    using outside_split [OF wf, of n] n(1) by (simp add: array_items_def)
  also have "\<dots> \<le> ?h"
  proof (cases "node t")
    case (Some ns)
    then show ?thesis using wf length_filter_le [of _ "gnodes t"] by (simp add: wf_table_def)
  qed (simp add: gnodes_None)
  finally have out: "outside n t \<le> ?h" .
  have le: "?h \<le> MAXASIZE"
    using wf unfolding wf_table_def sizenode_def MAXASIZE_def by (auto intro: power_increasing)
  then have small: "?h < 2 ^ 31" by (rule MAXASIZE_less)
  show ?thesis
  proof (rule resize_spec [OF wf n(2) out small, of g])
    fix t' assume "resize_with (newkey_with g) t n ?h = Inr t'" "wf_table t'" "length (array t') = n"
      "\<And>k. lookup t' k = lookup t k"
    then show ?thesis using g by (intro that [of t']) (simp_all add: luaH_resizearray_def Let_def)
  qed (use le in simp)
qed

section \<open>Keys are distinct\<close>

lemma array_keys_nth: "array_keys vs = map (\<lambda>i. num (i + 1)) (filter (\<lambda>i. vs ! i \<noteq> TNil) [0..<length vs])"
proof -
  have "array_items 0 vs = map (\<lambda>i. (i, vs ! i)) [0..<length vs]"
    by (rule nth_equalityI) (simp_all add: array_items_def)
  then show ?thesis by (simp add: array_keys_def filter_map o_def)
qed

lemma node_keys_nth: "node_keys ns = map (\<lambda>i. i_key (ns ! i)) (filter (\<lambda>i. i_val (ns ! i) \<noteq> TNil) [0..<length ns])"
proof -
  have "node_keys (map ((!) ns) [0..<length ns]) =
      map (\<lambda>i. i_key (ns ! i)) (filter (\<lambda>i. i_val (ns ! i) \<noteq> TNil) [0..<length ns])"
    by (simp add: node_keys_def filter_map o_def del: map_nth)
  then show ?thesis by (simp only: map_nth)
qed

lemma keys_of_slots:
  "keys_of t = map (slot_key t) (filter (\<lambda>s. slot_value t s \<noteq> TNil)
    (map ArraySlot [0..<length (array t)] @ map NodeSlot [0..<length (gnodes t)]))"
  by (simp add: keys_of_alt array_keys_nth node_keys_nth filter_map o_def)

lemma keys_of_distinct:
  assumes wf: "wf_table t"
  shows "distinct (keys_of t)"
  unfolding keys_of_slots distinct_map
proof (intro conjI inj_onI)
  fix s s' assume s: "s \<in> set (filter (\<lambda>s. slot_value t s \<noteq> TNil) (map ArraySlot [0..<length (array t)] @ map NodeSlot [0..<length (gnodes t)]))"
    "s' \<in> set (filter (\<lambda>s. slot_value t s \<noteq> TNil) (map ArraySlot [0..<length (array t)] @ map NodeSlot [0..<length (gnodes t)]))"
    and eq: "slot_key t s = slot_key t s'"
  have key: "i_key (gnodes t ! i) \<noteq> TNil" if "i < length (gnodes t)" "i_val (gnodes t ! i) \<noteq> TNil" for i
    using wf_free [OF wf_table_nodes [OF wf] that(1)] that(2) by blast
  have sl: "s \<in> set (slots t)" "s' \<in> set (slots t)" using s key by (auto simp: in_slots)
  have len: "length (array t) < 2 ^ 31" using wf MAXASIZE_less by (simp add: wf_table_def)
  have "okkey (slot_key t s)"
  proof (cases s)
    case (ArraySlot i)
    then show ?thesis using sl(1) len by (simp add: in_slots)
  next
    case (NodeSlot i)
    then show ?thesis using sl(1) wf_key [OF wf_table_nodes [OF wf]] by (simp add: in_slots)
  qed
  then show "s = s'" using slots_unique [OF wf sl] okkey_refl eq by simp
qed (auto simp: distinct_map inj_on_def intro: distinct_filter)

text \<open>So at most \<open>2 ^ j\<close> keys are indices up to \<open>2 ^ j\<close>.\<close>

lemma candidates_le: "distinct ks \<Longrightarrow> length (filter (candidate n) ks) \<le> n"
proof -
  assume d: "distinct ks"
  let ?f = "filter (candidate n) ks"
  have "k = num (nat (arrayindex k))" if "candidate n k" for k
    using arrayindex_pos that by (auto simp: candidate_def)
  then have "inj_on (\<lambda>k. nat (arrayindex k)) (set ?f)" by (intro inj_onI) (metis (no_types, lifting) mem_Collect_eq set_filter)
  then have "card (set ?f) = card ((\<lambda>k. nat (arrayindex k)) ` set ?f)" by (simp add: card_image)
  also have "\<dots> \<le> card {1..n}" by (rule card_mono) (auto simp: candidate_def)
  finally show ?thesis using distinct_card [of ?f] d by simp
qed

section \<open>Properties\<close>

text \<open>An empty table, for the witnesses.\<close>

definition empty_table :: Table where
  "empty_table = (case luaH_new 2 0 of Inr t \<Rightarrow> t)"

lemma empty_table_wf: "wf_table empty_table" and empty_table_lookup: "lookup empty_table k = TNil"
proof -
  obtain t where "luaH_new 2 0 = Inr t" "wf_table t" "\<And>k. lookup t k = TNil"
    by (rule new_spec [of 2 0]) (simp_all add: MAXASIZE_def MAXBITS_def)
  then show "wf_table empty_table" and "lookup empty_table k = TNil" by (simp_all add: empty_table_def)
qed

lemma empty_table_eval: "empty_table = \<lparr>flags = - 1, lsizenode = 0, metatable = None,
    array = [TNil, TNil], node = None, lastfree = 0\<rparr>"
  by (simp add: empty_table_def luaH_new_def setarrayvector_def setnodevector_def numeral_2_eq_2)

text \<open>
  The hashed search is the linear search: for every table that satisfies the invariant and every
  key but nil and NaN, \<open>luaH_get\<close> faults nowhere and returns the place that a look at all places, in
  the array and in the nodes, finds; so do its versions for integers and for strings.
\<close>

theorem luaH_get_finds:
  assumes "wf_table t" and "okkey k"
  shows "luaH_get t k = Inr (find (\<lambda>s. luaO_rawequalObj (slot_key t s) k) (slots t)) \<and>
    luaH_getnum t i = Inr (find (\<lambda>s. luaO_rawequalObj (slot_key t s) (TNumber (int_to_double (sint i)))) (slots t)) \<and>
    luaH_getstr t str = Inr (find (\<lambda>s. slot_key t s = TString str) (slots t))"
  using get_lookup [OF assms] getnum_lookup [OF assms(1)] getstr_lookup [OF assms(1)]
  by (simp add: lookup_slot_def)

theorem luaH_get_finds_witness:
  "luaH_get empty_table (num 2) = Inr (Some (ArraySlot 1)) \<and> luaH_getstr empty_table [97] = Inr None"
proof -
  have "okkey (num 2)" by simp
  from luaH_get_finds [OF empty_table_wf this, of 0 "[97]"]
  have g: "luaH_get empty_table (num 2) = Inr (find (\<lambda>s. luaO_rawequalObj (slot_key empty_table s) (num 2)) (slots empty_table))"
    and s: "luaH_getstr empty_table [97] = Inr (find (\<lambda>s. slot_key empty_table s = TString [97]) (slots empty_table))"
    by blast+
  have sl: "slots empty_table = [ArraySlot 0, ArraySlot 1]"
    by (simp add: slots_def empty_table_eval gnodes_def numeral_2_eq_2)
  show ?thesis unfolding g s sl by (simp add: rawequal_num num_inj numeral_2_eq_2 [symmetric]) (simp add: num_def)
qed

text \<open>
  C15. Setting a key is the update of a finite map: on a table that satisfies the invariant,
  for a key that is neither nil nor NaN, \<open>luaH_set\<close> (rehash included) faults nowhere and
  returns a place such that after \<open>v\<close> is written through it the invariant holds, every key equal to
  \<open>k\<close> reads \<open>v\<close> and every other key reads what it did before; or it raises ``table overflow'', on a table
  of at least \<open>2 ^ 26\<close> entries.
\<close>

theorem luaH_set_updates:
  assumes "wf_table t" and "okkey k"
  shows "case luaH_set t k of
      Inl e \<Rightarrow> e = LuaError ''table overflow'' \<and> 2 ^ 26 \<le> length (keys_of t)
    | Inr (t', s) \<Rightarrow>
        (let t'' = setobj2t t' s v in
         wf_table t'' \<and>
         (\<forall>k'. okkey k' \<longrightarrow> rbind (luaH_get t'' k') (\<lambda>p. Inr (value_at t'' p)) =
            (if luaO_rawequalObj k k' then Inr v else rbind (luaH_get t k') (\<lambda>p. Inr (value_at t p)))))"
proof (rule luaH_set_spec [OF assms])
  fix t' s assume "luaH_set t k = Inr (t', s)" "located t k t' s"
  moreover from located_stored [OF this(2), of v] have st: "stored t k v (setobj2t t' s v)" .
  then have wf: "wf_table (setobj2t t' s v)" by (simp add: stored_def)
  moreover have "rbind (luaH_get (setobj2t t' s v) k') (\<lambda>p. Inr (value_at (setobj2t t' s v) p)) =
      (if luaO_rawequalObj k k' then Inr v else rbind (luaH_get t k') (\<lambda>p. Inr (value_at t p)))" if "okkey k'" for k'
    using get_lookup [OF wf that] get_lookup [OF assms(1) that] st by (simp add: stored_def lookup_def)
  ultimately show ?thesis by (simp add: Let_def)
qed (simp add: MAXASIZE_def MAXBITS_def)

theorem luaH_set_updates_witness:
  "\<exists>t' s. luaH_set empty_table (TString [104, 105]) = Inr (t', s) \<and>
    rbind (luaH_get (setobj2t t' s (TBoolean 1)) (TString [104, 105]))
      (\<lambda>p. Inr (value_at (setobj2t t' s (TBoolean 1)) p)) = Inr (TBoolean 1)"
proof -
  have "length (keys_of empty_table) = 0"
    by (simp add: keys_of_def array_items_def empty_table_eval gnodes_def numeral_2_eq_2)
  then show ?thesis
    using luaH_set_updates [OF empty_table_wf, of "TString [104, 105]" "TBoolean 1"]
    by (auto simp: Let_def split: sum.splits)
qed

text \<open>
  C16. \<open>luaH_next\<close> traverses the whole table: started with nil and called again with each key it returned, it
  gives the entries with their values (the array part first), each exactly once, and
  then reports the end; the keys are pairwise different and each reads its value.
\<close>

theorem luaH_next_traverses:
  assumes "wf_table t"
  shows "traverse (Suc (length (array t) + length (gnodes t))) t TNil = Inr (contents t) \<and>
    distinct (map fst (contents t)) \<and>
    (\<forall>k v. okkey k \<longrightarrow> v \<noteq> TNil \<longrightarrow>
      rbind (luaH_get t k) (\<lambda>p. Inr (value_at t p)) = Inr v \<longleftrightarrow>
      (\<exists>k'. luaO_rawequalObj k' k \<and> (k', v) \<in> set (contents t)))"
proof (intro conjI allI impI)
  have len: "length (all_slots t) = length (array t) + length (gnodes t)" by (simp add: all_slots_def)
  show "traverse (Suc (length (array t) + length (gnodes t))) t TNil = Inr (contents t)"
    using traverse_from [OF assms, of 0 "Suc (length (all_slots t))" TNil]
    by (simp add: contents_alt len findindex_def)
  have keys: "map fst (contents t) = keys_of t"
    by (simp add: contents_alt all_slots_def keys_of_alt array_keys_nth node_keys_def filter_map o_def case_prod_unfold)
  show "distinct (map fst (contents t))" unfolding keys by (rule keys_of_distinct [OF assms])
  fix k v assume kv: "okkey k" "v \<noteq> TNil"
  have "entries t = set (contents t)"
    by (auto simp: entries_split [OF assms] contents_alt all_slots_def array_entries_def node_entries_def)
  then show "rbind (luaH_get t k) (\<lambda>p. Inr (value_at t p)) = Inr v \<longleftrightarrow>
      (\<exists>k'. luaO_rawequalObj k' k \<and> (k', v) \<in> set (contents t))"
    using lookup_entries [OF assms kv(2)] by (simp add: get_lookup [OF assms kv(1)] lookup_def)
qed

theorem luaH_next_traverses_witness: "traverse 4 empty_table TNil = Inr []"
proof -
  have "contents empty_table = []" "length (array empty_table) + length (gnodes empty_table) = 3"
    by (simp_all add: contents_def empty_table_eval gnodes_def)
  then show ?thesis using luaH_next_traverses [OF empty_table_wf] by simp
qed

text \<open>
  C17. The length operator always returns, and returns a boundary: the element at the index it
  gives is present (or the index is 0) and the next one is nil.
\<close>

theorem luaH_getn_boundary:
  assumes "wf_table t"
  shows "\<exists>n. luaH_getn t = Inr n \<and> (n = 0 \<or> present t n = Inr True) \<and> present t (n + 1) = Inr False"
proof -
  let ?l = "length (array t)"
  have l: "?l \<le> MAXASIZE" using assms by (simp add: wf_table_def)
  have arr: "lookup t (num i) = array t ! (i - 1)" if "0 < i" "i \<le> ?l" for i
    using lookup_array [OF assms, of "i - 1"] that by simp
  have "\<exists>n. luaH_getn t = Inr n \<and> (n = 0 \<or> lookup t (num n) \<noteq> TNil) \<and> lookup t (num (n + 1)) = TNil \<and> n + 1 < 2 ^ 31"
  proof (cases "?l > 0 \<and> array t ! (?l - 1) = TNil")
    case True
    let ?Q = "\<lambda>m. array t ! (m - 1) \<noteq> TNil"
    have "\<exists>n. binary_search (\<lambda>m. Inr (?Q m)) 0 ?l = Inr n \<and> 0 \<le> n \<and> n < ?l \<and> (n = 0 \<or> ?Q n) \<and> \<not> ?Q (n + 1)"
      by (rule binary_search_boundary) (use True in auto)
    then obtain n where n: "binary_search (\<lambda>m. Inr (?Q m)) 0 ?l = Inr n" "n < ?l" "n = 0 \<or> ?Q n" "\<not> ?Q (n + 1)" by blast
    moreover have "n + 1 < 2 ^ 31" using n(2) l by (simp add: MAXASIZE_def MAXBITS_def)
    ultimately show ?thesis using True arr [of n] arr [of "n + 1"]
      by (intro exI [of _ n]) (auto simp: luaH_getn_def Let_def)
  next
    case False
    then have last: "?l = 0 \<or> lookup t (num ?l) \<noteq> TNil" using arr [of ?l] by auto
    show ?thesis
    proof (cases "node t")
      case None
      have "lookup t (num (?l + 1)) = TNil"
      proof (rule ccontr)
        assume "lookup t (num (?l + 1)) \<noteq> TNil"
        then have "num (?l + 1) \<in> set (keys_of t)"
          using l by (intro lookup_in_keys [OF assms]) (simp_all add: MAXASIZE_def MAXBITS_def)
        then obtain i where "i < ?l" "num (?l + 1) = num (i + 1)"
          by (auto simp: keys_of_alt array_keys_def node_keys_def set_array_items gnodes_None [OF None])
        then show False using num_inj [of "?l + 1" "i + 1"] l by (simp add: MAXASIZE_def MAXBITS_def)
      qed
      then show ?thesis using False last None l
        by (intro exI [of _ ?l]) (auto simp: luaH_getn_def Let_def MAXASIZE_def MAXBITS_def)
    next
      case (Some ns)
      have "\<exists>n. double_search 32 t ?l (?l + 1) = Inr n \<and> (n = 0 \<or> lookup t (num n) \<noteq> TNil) \<and>
          lookup t (num (n + 1)) = TNil \<and> n + 1 < 2 ^ 31"
        by (rule double_search_boundary [OF assms _ _ last]) (use l in \<open>simp_all add: MAX_INT_def MAXASIZE_def MAXBITS_def\<close>)
      then show ?thesis using False Some by (auto simp: luaH_getn_def Let_def unbound_search_def)
    qed
  qed
  then show ?thesis using present_lookup [OF assms] by auto
qed

theorem luaH_getn_boundary_witness: "luaH_getn empty_table = Inr 0"
proof -
  obtain n where n: "luaH_getn empty_table = Inr n" "n = 0 \<or> present empty_table n = Inr True"
    using luaH_getn_boundary [OF empty_table_wf] by blast
  have "n < 2"
    using n(1) binary_search_boundary [of 0 2 "\<lambda>m. False" "\<lambda>m. Inr False"]
    by (auto simp: luaH_getn_def empty_table_eval nth_Cons' binary_search.simps)
  then have "present empty_table n = Inr False"
    using present_lookup [OF empty_table_wf, of n] empty_table_lookup by simp
  then show ?thesis using n by simp
qed

text \<open>
  A rehash sizes the array part optimally: for a key that is not in the table, the new size is the largest power of
  two (up to \<open>2 ^ 26\<close>) with more than half of the indices up to it in use, counting the new key, or 0 when there is none;
  the hash part gets room for exactly the other keys.
\<close>

theorem rehash_sizes_optimal:
  assumes "wf_table t" and "okkey ek" and "luaH_get t ek = Inr None"
  shows "\<exists>n. rehash_with nk t ek = resize_with nk t n (length (filter (\<lambda>k. \<not> candidate n k) (ek # keys_of t))) \<and>
    (n = 0 \<or> (\<exists>j \<le> 26. n = 2 ^ j \<and> 2 ^ j div 2 < length (filter (candidate n) (ek # keys_of t)))) \<and>
    (\<forall>j \<le> 26. n < 2 ^ j \<longrightarrow> length (filter (candidate (2 ^ j)) (ek # keys_of t)) \<le> 2 ^ j div 2)"
proof (rule rehash_with_sizes [OF assms(1), of nk ek])
  fix n nums
  assume eq: "rehash_with nk t ek = resize_with nk t n (length (filter (\<lambda>k. \<not> candidate n k) (ek # keys_of t)))"
    and len: "length nums = MAXBITS + 1"
    and below: "\<And>j. j \<le> MAXBITS \<Longrightarrow> below nums j = length (filter (candidate (2 ^ j)) (ek # keys_of t))"
    and best: "best nums (MAXBITS + 1) (length (filter (candidate n) (ek # keys_of t))) n"
  have none: "lookup_slot t ek = None" using assms get_lookup [OF assms(1,2)] by simp
  have "ek \<notin> set (keys_of t)"
  proof
    assume "ek \<in> set (keys_of t)"
    then obtain s where s: "slot_key t s = ek" "slot_value t s \<noteq> TNil"
        "s \<in> set (map ArraySlot [0..<length (array t)] @ map NodeSlot [0..<length (gnodes t)])"
      by (auto simp: keys_of_slots)
    then have "s \<in> set (slots t)" using assms(2) by (auto simp: in_slots)
    then show False using none s(1) okkey_refl [OF assms(2)] by (auto simp: lookup_slot_None)
  qed
  then have "distinct (ek # keys_of t)" using keys_of_distinct [OF assms(1)] by simp
  note le = candidates_le [OF this]
  have all: "below nums j \<le> 2 ^ j" for j
  proof (cases "j \<le> MAXBITS")
    case False
    then have "below nums j = below nums MAXBITS" using len by (simp add: below_def)
    also have "\<dots> \<le> 2 ^ MAXBITS" using below [of MAXBITS] le by simp
    also have "\<dots> \<le> 2 ^ j" using False by (intro power_increasing) simp_all
    finally show ?thesis .
  qed (use below le in simp)
  have bound: "\<not> good nums j \<longleftrightarrow> length (filter (candidate (2 ^ j)) (ek # keys_of t)) \<le> 2 ^ j div 2" if "j \<le> 26" for j
    using below [of j] that by (simp add: good_def MAXBITS_def not_less)
  from best_optimal [OF best [folded len] all] consider
      "n = 0" "\<forall>j < length nums. \<not> good nums j"
    | j where "j < length nums" "n = 2 ^ j" "good nums j" "\<forall>j'. j < j' \<and> j' < length nums \<longrightarrow> \<not> good nums j'"
    by blast
  then show ?thesis
  proof cases
    case 1
    then show ?thesis using eq bound by (intro exI [of _ n]) (simp add: len MAXBITS_def)
  next
    case 2
    have j: "j \<le> 26" using 2(1) by (simp add: len MAXBITS_def)
    show ?thesis
    proof (intro exI [of _ n] conjI allI impI)
      show "n = 0 \<or> (\<exists>j \<le> 26. n = 2 ^ j \<and> 2 ^ j div 2 < length (filter (candidate n) (ek # keys_of t)))"
        using 2(2,3) j below [of j] by (auto simp: good_def MAXBITS_def)
      fix i :: nat assume i: "i \<le> 26" "n < 2 ^ i"
      have "j < i" using i(2) 2(2) by (metis power_strict_increasing_iff one_less_numeral_iff semiring_norm(76))
      then show "length (filter (candidate (2 ^ i)) (ek # keys_of t)) \<le> 2 ^ i div 2"
        using 2(4) bound [OF i(1)] i(1) by (simp add: len MAXBITS_def)
    qed (rule eq)
  qed
qed

theorem rehash_sizes_optimal_witness:
  "\<exists>n. rehash_with (newkey 0) empty_table (TBoolean 1) = resize_with (newkey 0) empty_table n 1 \<and> n = 0"
proof -
  have ok: "okkey (TBoolean 1)" by (simp add: okkey_def)
  have g: "luaH_get empty_table (TBoolean 1) = Inr None"
    by (simp add: luaH_get_def search_from_def empty_table_eval gnodes_def hashpow2_def sizenode_def)
  have k: "keys_of empty_table = []"
    by (simp add: keys_of_def array_items_def empty_table_eval gnodes_def numeral_2_eq_2)
  have c: "\<not> candidate n (TBoolean 1)" for n by (simp add: candidate_def arrayindex_def)
  from rehash_sizes_optimal [OF empty_table_wf ok g, of "newkey 0"] show ?thesis by (auto simp: k c)
qed

end
