(* ===== verification/LuaVmSpec.thy ===== *)
theory LuaVmSpec
  imports LuaVm LuaTableMap
begin

text \<open>
  What the operations of lvm.c promise: strings compare as bytes, comparisons are orders,
  concatenation in passes is concatenation from right to left, and the cache of absent
  metamethods is sound.
\<close>

section \<open>The order of strings\<close>

text \<open>The lexicographic comparison of byte strings, which in the C locale is also \<open>strcoll\<close> on strings without zero bytes.\<close>

fun lexcmp :: "bytes \<Rightarrow> bytes \<Rightarrow> int" where
  "lexcmp [] [] = 0"
| "lexcmp [] (d # r) = - 1"
| "lexcmp (c # l) [] = 1"
| "lexcmp (c # l) (d # r) = (if c < d then - 1 else if d < c then 1 else lexcmp l r)"

lemma lexcmp_same [simp]: "lexcmp l l = 0"
  by (induction l) simp_all

lemma lexcmp_0: "lexcmp l r = 0 \<longleftrightarrow> l = r"
  by (induction l r rule: lexcmp.induct) auto

lemma lexcmp_cases: "lexcmp l r = - 1 \<or> lexcmp l r = 0 \<or> lexcmp l r = 1"
  by (induction l r rule: lexcmp.induct) auto

lemma lexcmp_swap: "lexcmp r l = - lexcmp l r"
  by (induction l r rule: lexcmp.induct) auto

lemma lexcmp_trans: "lexcmp a b < 0 \<Longrightarrow> lexcmp b c < 0 \<Longrightarrow> lexcmp a c < 0"
proof (induction a b arbitrary: c rule: lexcmp.induct)
  case (2 d r)
  then show ?case by (cases c) simp_all
next
  case (4 x l y r)
  then show ?case by (cases c) (auto split: if_splits)
qed simp_all

lemma c_str_Cons: "c_str (c # l) = (if c = 0 then [] else c # c_str l)"
  by (simp add: c_str_def)

lemma c_str_Nil [simp]: "c_str [] = []"
  by (simp add: c_str_def)

lemma lexcmp_c_str: "lexcmp (c_str l) (c_str r) \<noteq> 0 \<Longrightarrow> lexcmp (c_str l) (c_str r) = lexcmp l r"
proof (induction l r rule: lexcmp.induct)
  case (4 c l d r)
  then show ?case by (auto simp: c_str_Cons word_gt_0 split: if_splits)
qed (auto simp: c_str_Cons split: if_splits)

lemma lexcmp_append: "lexcmp (p @ l) (p @ r) = lexcmp l r"
  by (induction p) simp_all

lemma c_str_split: "length (c_str l) \<noteq> length l \<Longrightarrow> l = c_str l @ 0 # drop (length (c_str l) + 1) l"
proof (induction l)
  case (Cons c l)
  then show ?case by (cases "c = 0") (simp_all add: c_str_Cons)
qed simp

lemma c_str_le: "length (c_str l) \<le> length l"
  by (simp add: c_str_def length_takeWhile_le)

lemma c_str_all: "length (c_str l) = length l \<Longrightarrow> c_str l = l"
  by (induction l) (auto simp: c_str_Cons split: if_splits)

lemma l_strcmp_C: "l_strcmp lexcmp l r = Inr (lexcmp l r)"
proof (induction "lexcmp" l r rule: l_strcmp.induct)
  case (1 l r)
  show ?case
  proof (cases "lexcmp (c_str l) (c_str r) = 0")
    case False
    then show ?thesis using lexcmp_c_str by (simp add: l_strcmp.simps [of lexcmp l r] Let_def)
  next
    case True
    then have eq: "c_str l = c_str r" by (simp add: lexcmp_0)
    let ?n = "length (c_str l)"
    have le: "?n \<le> length r" using c_str_le [of r] eq by simp
    consider "?n = length r" "?n = length l" | "?n = length r" "?n \<noteq> length l"
      | "?n \<noteq> length r" "?n = length l" | "?n \<noteq> length r" "?n \<noteq> length l" by blast
    then show ?thesis
    proof cases
      case 1
      have l: "c_str l = l" by (rule c_str_all) (use 1 in simp)
      have r: "c_str r = r" by (rule c_str_all) (use 1 eq in simp)
      show ?thesis using 1 True eq unfolding l r by (simp add: l_strcmp.simps [of lexcmp r r] l r)
    next
      case 2
      then have "r = c_str l" using c_str_all [of r] eq by simp
      with c_str_split [OF 2(2)] obtain x where "l = r @ 0 # x" by blast
      then have "lexcmp l r = 1" using lexcmp_append [of r "0 # x" "[]"] by simp
      then show ?thesis using 2 True by (simp add: l_strcmp.simps [of lexcmp l r] Let_def)
    next
      case 3
      then have l: "l = c_str r" using c_str_all [of l] eq by simp
      have "length (c_str r) \<noteq> length r" using 3 eq by simp
      from c_str_split [OF this] l obtain x where "r = l @ 0 # x" by blast
      then have "lexcmp l r = - 1" using lexcmp_append [of l "[]" "0 # x"] by simp
      then show ?thesis using 3 True by (simp add: l_strcmp.simps [of lexcmp l r] Let_def)
    next
      case 4
      have r: "length (c_str r) \<noteq> length r" using 4 eq by simp
      have "lexcmp l r = lexcmp (c_str l @ 0 # drop (?n + 1) l) (c_str l @ 0 # drop (?n + 1) r)"
        using c_str_split [OF 4(2)] c_str_split [OF r] eq by metis
      also have "\<dots> = lexcmp (drop (?n + 1) l) (drop (?n + 1) r)" by (simp add: lexcmp_append)
      finally have split: "lexcmp l r = lexcmp (drop (?n + 1) l) (drop (?n + 1) r)" .
      have "l_strcmp lexcmp (drop (?n + 1) l) (drop (?n + 1) r) = Inr (lexcmp (drop (?n + 1) l) (drop (?n + 1) r))"
        by (rule "1.hyps" [OF refl _ refl]) (use 4 le True in auto)
      then show ?thesis using 4 le True by (simp add: l_strcmp.simps [of lexcmp l r] Let_def split)
    qed
  qed
qed

lemma lexcmp_lexord: "lexcmp l r < 0 \<longleftrightarrow> (l, r) \<in> lexord {(a, b). a < b}"
  by (induction l r rule: lexcmp.induct) auto

text \<open>
  Strings, with zero bytes and all, compare as sequences of bytes in lexicographic order when \<open>strcoll\<close> is
  that of the C locale: the loop of \<open>l_strcmp\<close> over the pieces between zero bytes gives \<open><\<close>, \<open><=\<close> and
  \<open>==\<close> of the whole strings and never reads beyond them.
\<close>

theorem strings_compare_as_bytes:
  "luaV_lessthan lexcmp call w (TString l) (TString r) = Inr ((l, r) \<in> lexord {(a, b). a < b}, w) \<and>
   lessequal lexcmp call w (TString l) (TString r) = Inr (l = r \<or> (l, r) \<in> lexord {(a, b). a < b}, w) \<and>
   equalobj call w (TString l) (TString r) = Inr (l = r, w)"
proof -
  have "lexcmp l r \<le> 0 \<longleftrightarrow> l = r \<or> lexcmp l r < 0" using lexcmp_0 [of l r] by linarith
  then show ?thesis
    by (simp add: luaV_lessthan_def lessequal_def equalobj_def luaV_equalval_def l_strcmp_C
        flip: lexcmp_lexord)
qed

section \<open>The order of numbers\<close>

lemma dbl_lt_simps:
  "dbl_lt a b \<Longrightarrow> \<not> dbl_lt b a"
  "\<not> dbl_nan a \<Longrightarrow> \<not> dbl_nan b \<Longrightarrow> dbl_le a b \<longleftrightarrow> \<not> dbl_lt b a"
  "dbl_lt a b \<Longrightarrow> dbl_lt b c \<Longrightarrow> dbl_lt a c"
  "\<not> dbl_nan b \<Longrightarrow> dbl_lt a c \<Longrightarrow> dbl_lt a b \<or> dbl_lt b c"
  by (auto simp: dbl_lt_def dbl_le_def)

section \<open>Concatenation\<close>

text \<open>The reference: the two topmost operands, again and again.\<close>

definition concat2 :: "clib \<Rightarrow> caller \<Rightarrow> world \<Rightarrow> TValue \<Rightarrow> TValue \<Rightarrow> (TValue \<times> world) result" where
  "concat2 c call w v1 v2 =
     (case (tostring c v1, tostring c v2) of
        (Some s1, Some s2) \<Rightarrow>
          if s2 \<noteq> [] \<and> length s1 + length s2 \<ge> MAX_SIZET then Inl (LuaError ''string length overflow'')
          else Inr (TString (s1 @ s2), w)
      | _ \<Rightarrow> rbind (call_binTM call w v1 v2 TM_CONCAT) (\<lambda>r. case r of
          None \<Rightarrow> Inl (LuaError ''attempt to concatenate'')
        | Some r \<Rightarrow> Inr r))"

fun concat_right :: "clib \<Rightarrow> caller \<Rightarrow> world \<Rightarrow> TValue list \<Rightarrow> (TValue \<times> world) result" where
  "concat_right c call w [] = Inl InvalidPointer"
| "concat_right c call w [v] = Inr (v, w)"
| "concat_right c call w (top1 # top2 # rest) =
     rbind (concat2 c call w top2 top1) (\<lambda>(v, w). concat_right c call w (v # rest))"

lemma tostring_TString [simp]: "tostring c (TString s) = Some s"
  by (simp add: tostring_def)

lemma collect_right:
  assumes "concat strs \<noteq> []"
  shows "rbind (collect c (length (concat strs)) strs vs) (\<lambda>(strs, left). concat_right c call w (TString (concat strs) # left))
    = concat_right c call w (TString (concat strs) # vs)"
  using assms
proof (induction vs arbitrary: strs)
  case (Cons v vs)
  show ?case
  proof (cases "tostring c v")
    case (Some s)
    show ?thesis
    proof (cases "length s + length (concat strs) \<ge> MAX_SIZET")
      case True
      then have "MAX_SIZET - length (concat strs) \<le> length s" by linarith
      then show ?thesis using True Some Cons.prems by (simp add: concat2_def)
    next
      case False
      then have len: "\<not> MAX_SIZET - length (concat strs) \<le> length s" by linarith
      have "concat (s # strs) \<noteq> []" using Cons.prems by simp
      from Cons.IH [OF this] show ?thesis using Some False len Cons.prems by (simp add: concat2_def add.commute)
    qed
  qed simp
qed simp

lemma concat_pass_right:
  "rbind (concat_pass c call w top1 top2 rest) (\<lambda>(vs, w). concat_right c call w vs)
    = concat_right c call w (top1 # top2 # rest)"
proof (cases "tostring c top2 = None \<or> tostring c top1 = None")
  case True
  then show ?thesis
    by (auto simp: concat_pass_def concat2_def rbind_assoc split: option.splits intro!: rbind_cong)
next
  case False
  then obtain s1 s2 where s: "tostring c top1 = Some s1" "tostring c top2 = Some s2" by auto
  show ?thesis
  proof (cases "s1 = []")
    case False
    then have "concat [s1] \<noteq> []" by simp
    from collect_right [OF this, of c "top2 # rest" call w]
    have "rbind (collect c (length s1) [s1] (top2 # rest)) (\<lambda>(strs, left). concat_right c call w (TString (concat strs) # left))
      = concat_right c call w (TString s1 # top2 # rest)" by simp
    then show ?thesis using s False by (simp add: concat_pass_def concat2_def rbind_assoc case_prod_unfold)
  qed (use s in \<open>simp add: concat_pass_def concat2_def\<close>)
qed

text \<open>
  C19. Concatenation: taking as many strings as possible in each pass gives the value, the state and
  the errors (metamethods called, overflow of the length) of concatenating the two topmost operands again and
  again, from right to left.
\<close>

theorem luaV_concat_from_right: "luaV_concat c call w vs = concat_right c call w vs"
proof (induction c call w vs rule: luaV_concat.induct)
  case (1 c call w top1 top2 rest)
  show ?case
    unfolding luaV_concat.simps concat_pass_right [symmetric] by (rule rbind_cong [OF refl]) (use 1 in auto)
qed simp_all

section \<open>The cache of absent metamethods\<close>

text \<open>Inserting never sets a flag and never changes the metatable.\<close>

definition head_kept :: "Table \<Rightarrow> Table \<Rightarrow> bool" where
  "head_kept t t' \<longleftrightarrow> metatable t' = metatable t \<and> flags t' \<in> {flags t, 0}"

lemma head_kept_refl [simp]: "head_kept t t"
  by (simp add: head_kept_def)

lemma head_kept_trans: "head_kept t t' \<Longrightarrow> head_kept t' t'' \<Longrightarrow> head_kept t t''"
  by (auto simp: head_kept_def)

lemma setobj2t_head [simp]: "flags (setobj2t t s v) = flags t" "metatable (setobj2t t s v) = metatable t"
  by (cases s; simp)+

lemma rfold_head:
  assumes "rfold f xs t = Inr t'" and "\<And>x t t'. x \<in> set xs \<Longrightarrow> f x t = Inr t' \<Longrightarrow> head_kept t t'"
  shows "head_kept t t'"
  using assms
proof (induction xs arbitrary: t)
  case (Cons x xs)
  from Cons.prems(1) obtain t1 where t1: "f x t = Inr t1" "rfold f xs t1 = Inr t'"
    by (auto simp: rbind_eq_Inr)
  have "head_kept t t1" by (rule Cons.prems(2) [OF _ t1(1)]) simp
  moreover have "head_kept t1 t'" by (rule Cons.IH [OF t1(2)]) (rule Cons.prems(2), auto)
  ultimately show ?case by (rule head_kept_trans)
qed simp

lemma set_with_head:
  assumes "set_with nk t k = Inr (t', s)" and nk: "\<And>t k t' s. nk t k = Inr (t', s) \<Longrightarrow> head_kept t t'"
  shows "head_kept t t' \<and> flags t' = 0"
proof -
  from assms(1) have "t' = t\<lparr>flags := 0\<rparr> \<or> nk (t\<lparr>flags := 0\<rparr>) k = Inr (t', s)"
    unfolding set_with_def Let_def rbind_eq_Inr by (cases k) (auto split: option.splits if_splits)
  then show ?thesis
  proof
    assume "nk (t\<lparr>flags := 0\<rparr>) k = Inr (t', s)"
    from nk [OF this] show ?thesis by (auto simp: head_kept_def)
  qed (simp add: head_kept_def)
qed

lemma setnum_with_head:
  assumes "setnum_with nk t k = Inr (t', s)" and nk: "\<And>t k t' s. nk t k = Inr (t', s) \<Longrightarrow> head_kept t t'"
  shows "head_kept t t'"
  using assms(1) by (auto simp: setnum_with_def rbind_eq_Inr intro: nk split: option.splits)

lemma put_num_head:
  assumes "put_num nk x t = Inr t'" and nk: "\<And>t k t' s. nk t k = Inr (t', s) \<Longrightarrow> head_kept t t'"
  shows "head_kept t t'"
proof (cases x)
  case (Pair i v)
  show ?thesis
    using assms(1) unfolding Pair
    by (auto simp: put_num_def rbind_eq_Inr head_kept_def dest!: setnum_with_head [OF _ nk] split: if_splits)
qed

lemma put_node_head:
  assumes "put_node nk x t = Inr t'" and nk: "\<And>t k t' s. nk t k = Inr (t', s) \<Longrightarrow> head_kept t t'"
  shows "head_kept t t'"
  using assms(1) by (auto simp: put_node_def rbind_eq_Inr head_kept_def dest!: set_with_head [OF _ nk] split: if_splits)

lemma setnodevector_head: "setnodevector t n = Inr t' \<Longrightarrow> flags t' = flags t \<and> metatable t' = metatable t"
  by (auto simp: setnodevector_def Let_def split: if_splits)

lemma resize_with_head:
  assumes "resize_with nk t na nh = Inr t'" and nk: "\<And>t k t' s. nk t k = Inr (t', s) \<Longrightarrow> head_kept t t'"
  shows "head_kept t t'"
proof -
  obtain t1 t2 where t1: "setnodevector (if na > length (array t) then setarrayvector t na else t) nh = Inr t1"
    and t2: "(if na < length (array t)
             then rfold (put_num nk) (zip [na..<length (array t)] (drop na (array t))) (t1\<lparr>array := take na (array t)\<rparr>)
             else Inr t1) = Inr t2"
    and t3: "rfold (put_node nk) (rev (gnodes t)) t2 = Inr t'"
    using assms(1) unfolding resize_with_def Let_def rbind_eq_Inr by blast
  have a: "head_kept t t1" using setnodevector_head [OF t1] by (simp add: head_kept_def setarrayvector_def split: if_splits)
  have b: "head_kept t1 t2"
  proof (cases "na < length (array t)")
    case True
    then have "rfold (put_num nk) (zip [na..<length (array t)] (drop na (array t))) (t1\<lparr>array := take na (array t)\<rparr>) = Inr t2"
      using t2 by simp
    then have "head_kept (t1\<lparr>array := take na (array t)\<rparr>) t2"
      by (rule rfold_head) (erule put_num_head, erule nk)
    then show ?thesis by (simp add: head_kept_def)
  qed (use t2 in simp)
  have c: "head_kept t2 t'" by (rule rfold_head [OF t3]) (erule put_node_head, erule nk)
  show ?thesis by (rule head_kept_trans [OF head_kept_trans [OF a b] c])
qed

lemma getfreepos_head: "getfreepos t = (t', r) \<Longrightarrow> flags t' = flags t \<and> metatable t' = metatable t"
  by (auto simp: getfreepos_def split: if_splits prod.splits)

lemma newkey_with_head:
  assumes "newkey_with grow t k = Inr (t', s)" and grow: "\<And>t k t' s. grow t k = Inr (t', s) \<Longrightarrow> head_kept t t'"
  shows "head_kept t t'"
proof (cases "i_val (gnodes t ! mainposition t k) \<noteq> TNil \<or> node t = None")
  case True
  obtain t1 r where g: "getfreepos t = (t1, r)" by fastforce
  have h: "head_kept t t1" using getfreepos_head [OF g] by (simp add: head_kept_def)
  have "head_kept t1 t'"
    using assms(1) True g
    by (cases r) (auto simp: newkey_with_def Let_def rbind_eq_Inr head_kept_def dest!: grow split: if_splits)
  with h show ?thesis by (rule head_kept_trans)
next
  case False
  then show ?thesis using assms(1) by (auto simp: newkey_with_def Let_def head_kept_def)
qed

lemma newkey_head: "newkey f t k = Inr (t', s) \<Longrightarrow> head_kept t t'"
proof (induction f arbitrary: t k t' s)
  case 0
  then show ?case by (auto intro: newkey_with_head)
next
  case (Suc f)
  show ?case
  proof (rule newkey_with_head [OF Suc.prems [unfolded newkey.simps]])
    fix t k t' s assume "rbind (rehash_with (newkey f) t k) (\<lambda>t. set_with (newkey f) t k) = Inr (t', s)"
    then obtain t1 where t1: "rehash_with (newkey f) t k = Inr t1" "set_with (newkey f) t1 k = Inr (t', s)"
      by (auto simp: rbind_eq_Inr)
    have "head_kept t t1"
      using t1(1) by (auto simp: rehash_with_def Let_def rbind_eq_Inr split: prod.splits
          dest!: resize_with_head [OF _ Suc.IH])
    moreover have "head_kept t1 t'" using set_with_head [OF t1(2) Suc.IH] by simp
    ultimately show "head_kept t t'" by (rule head_kept_trans)
  qed
qed

lemma luaH_set_head:
  assumes "luaH_set t k = Inr (t', s)"
  shows "flags t' = 0" "metatable t' = metatable t"
proof -
  have "head_kept t t' \<and> flags t' = 0"
    by (rule set_with_head [OF assms [unfolded luaH_set_def]]) (rule newkey_head)
  then show "flags t' = 0" "metatable t' = metatable t" by (simp_all add: head_kept_def)
qed

lemma luaH_getstr_flags [simp]: "luaH_getstr (t\<lparr>flags := fl\<rparr>) s = luaH_getstr t s"
  by (simp add: luaH_getstr_def search_from_def gnodes_def hashpow2_def sizenode_def)

lemma value_at_flags [simp]: "value_at (t\<lparr>flags := fl\<rparr>) p = value_at t p"
  by (cases p; cases "the p") (simp_all add: value_at_def gnodes_def)

definition raw_tm :: "Table \<Rightarrow> TMS \<Rightarrow> TValue result" where
  "raw_tm t e = rbind (luaH_getstr t (tmname e)) (\<lambda>p. Inr (value_at t p))"

text \<open>A flag that is set says that the metamethod is absent, and no table is its own metatable.\<close>

definition cache_ok :: "world \<Rightarrow> bool" where
  "cache_ok w \<longleftrightarrow> (\<forall>a t e. tables w a = Some t \<longrightarrow> bit (flags t) (tm_bit e) \<longrightarrow> raw_tm t e = Inr TNil)"

definition no_own_metatable :: "world \<Rightarrow> bool" where
  "no_own_metatable w \<longleftrightarrow> (\<forall>a t. tables w a = Some t \<longrightarrow> metatable t \<noteq> Some a)"

lemma raw_tm_flags [simp]: "raw_tm (t\<lparr>flags := fl\<rparr>) e = raw_tm t e"
  by (simp add: raw_tm_def)

lemma cache_ok_upd:
  assumes "cache_ok w" and "\<And>e. bit (flags t) (tm_bit e) \<Longrightarrow> raw_tm t e = Inr TNil"
  shows "cache_ok (w\<lparr>tables := (tables w)(a \<mapsto> t)\<rparr>)"
  using assms by (auto simp: cache_ok_def)

lemma tm_bit_inj: "tm_bit e = tm_bit e' \<longleftrightarrow> e = e'"
  by (cases e; cases e'; simp)

lemma deref_Inr: "deref m a = Inr x \<longleftrightarrow> m a = Some x"
  by (simp add: deref_def split: option.splits)

text \<open>The macro with its cache finds what the search in the metatable finds.\<close>

lemma fasttm_found:
  assumes ok: "cache_ok w" and t: "tables w a = Some t" and f: "fasttm w (Some a) e = Inr (tm, w')"
  shows "raw_tm t e = Inr (case tm of None \<Rightarrow> TNil | Some v \<Rightarrow> v)" and "tm \<noteq> Some TNil" and "cache_ok w'"
    and "\<exists>fl. w' = w\<lparr>tables := (tables w)(a \<mapsto> t\<lparr>flags := fl\<rparr>)\<rparr>"
proof -
  have same: "w = w\<lparr>tables := (tables w)(a \<mapsto> t\<lparr>flags := flags t\<rparr>)\<rparr>"
    using t by (simp add: fun_upd_idem)
  then have same: "\<exists>fl. w = w\<lparr>tables := (tables w)(a \<mapsto> t\<lparr>flags := fl\<rparr>)\<rparr>" by blast
  have "raw_tm t e = Inr (case tm of None \<Rightarrow> TNil | Some v \<Rightarrow> v) \<and> tm \<noteq> Some TNil \<and> cache_ok w' \<and>
    (\<exists>fl. w' = w\<lparr>tables := (tables w)(a \<mapsto> t\<lparr>flags := fl\<rparr>)\<rparr>)"
  proof (cases "bit (flags t) (tm_bit e)")
    case True
    then have "tm = None" "w' = w" using f t by (simp_all add: fasttm_def deref_def)
    with True same show ?thesis using ok t by (auto simp: cache_ok_def)
  next
    case False
    then have g: "luaT_gettm w a e = Inr (tm, w')" using f t by (simp add: fasttm_def deref_def)
    then obtain p where p: "luaH_getstr t (tmname e) = Inr p" using t by (auto simp: luaT_gettm_def deref_def rbind_eq_Inr)
    then have raw: "raw_tm t e = Inr (value_at t p)" by (simp add: raw_tm_def)
    show ?thesis
    proof (cases "value_at t p = TNil")
      case True
      define fl where "fl = flags t OR push_bit (tm_bit e) 1"
      have w': "tm = None" "w' = w\<lparr>tables := (tables w)(a \<mapsto> t\<lparr>flags := fl\<rparr>)\<rparr>"
        using g t p True by (simp_all add: luaT_gettm_def deref_def fl_def)
      have "cache_ok w'"
        unfolding w' by (rule cache_ok_upd [OF ok])
          (use ok t raw True in \<open>auto simp: cache_ok_def fl_def bit_or_iff bit_exp_iff tm_bit_inj\<close>)
      then show ?thesis using w' raw True by auto
    next
      case False
      then have "tm = Some (value_at t p)" "w' = w" using g t p by (simp_all add: luaT_gettm_def deref_def)
      then show ?thesis using raw False ok same by auto
    qed
  qed
  then show "raw_tm t e = Inr (case tm of None \<Rightarrow> TNil | Some v \<Rightarrow> v)" "tm \<noteq> Some TNil" "cache_ok w'"
    "\<exists>fl. w' = w\<lparr>tables := (tables w)(a \<mapsto> t\<lparr>flags := fl\<rparr>)\<rparr>" by blast+
qed

lemma no_own_metatable_flags:
  assumes "no_own_metatable w" and "tables w a = Some t" and "metatable t' = metatable t"
  shows "no_own_metatable (w\<lparr>tables := (tables w)(a \<mapsto> t')\<rparr>)"
  using assms by (auto simp: no_own_metatable_def)

definition cache_inv :: "world \<Rightarrow> bool" where
  "cache_inv w \<longleftrightarrow> cache_ok w \<and> no_own_metatable w"

definition caller_keeps :: "(world \<Rightarrow> bool) \<Rightarrow> caller \<Rightarrow> bool" where
  "caller_keeps P call \<longleftrightarrow> (\<forall>f args w rs w'. P w \<longrightarrow> call f args w = Inr (rs, w') \<longrightarrow> P w')"

lemma fasttm_inv:
  assumes "fasttm w et e = Inr (tm, w')" and inv: "cache_inv w"
  shows "cache_inv w' \<and> (\<forall>a. et \<noteq> Some a \<longrightarrow> tables w' a = tables w a)"
proof (cases et)
  case None
  then show ?thesis using assms by (simp add: fasttm_def)
next
  case (Some a)
  then obtain t where t: "tables w a = Some t" using assms(1) by (auto simp: fasttm_def rbind_eq_Inr deref_Inr)
  have ok: "cache_ok w" "no_own_metatable w" using inv by (simp_all add: cache_inv_def)
  note found = fasttm_found [OF ok(1) t assms(1) [unfolded Some]]
  from found(4) obtain fl where "w' = w\<lparr>tables := (tables w)(a \<mapsto> t\<lparr>flags := fl\<rparr>)\<rparr>" by blast
  then show ?thesis
    using found(3) no_own_metatable_flags [OF ok(2) t, of "t\<lparr>flags := fl\<rparr>"] Some by (simp add: cache_inv_def)
qed

lemma inv_upd:
  assumes inv: "cache_inv w" and t: "tables w a = Some t" and "metatable t' = metatable t" "flags t' = 0"
  shows "cache_inv (w\<lparr>tables := (tables w)(a \<mapsto> t')\<rparr>)"
  using inv cache_ok_upd [of w t' a] no_own_metatable_flags [of w a t t'] assms by (simp add: cache_inv_def)

lemma gettable_inv:
  assumes keeps: "caller_keeps cache_inv call"
  shows "cache_inv w \<Longrightarrow> gettable_loop n call w t k = Inr (v, w') \<Longrightarrow> cache_inv w'"
proof (induction n arbitrary: w t)
  case (Suc n)
  have again: "cache_inv w'" if "cache_inv w1"
    "(if isfunction tm then callTMres call w1 tm t k else gettable_loop n call w1 tm k) = Inr (v, w')" for tm w1
    using that Suc.IH by (auto simp: callTMres_def rbind_eq_Inr intro: keeps [unfolded caller_keeps_def, rule_format] split: if_splits)
  show ?case
  proof (cases "\<exists>a. t = TTable a")
    case True
    then obtain a where t: "t = TTable a" by blast
    then obtain h p where h: "tables w a = Some h" "luaH_get h k = Inr p"
      using Suc.prems(2) by (auto simp: rbind_eq_Inr deref_Inr)
    show ?thesis
    proof (cases "value_at h p = TNil")
      case True
      then obtain tm w1 where f: "fasttm w (metatable h) TM_INDEX = Inr (tm, w1)"
        using Suc.prems(2) h t by (auto simp: rbind_eq_Inr deref_Inr Let_def)
      from fasttm_inv [OF this Suc.prems(1)] have inv: "cache_inv w1" by blast
      show ?thesis
        using Suc.prems(2) h t True f inv by (cases tm) (auto simp: deref_def Let_def intro: again)
    qed (use Suc.prems h t in \<open>simp add: deref_def Let_def\<close>)
  next
    case False
    then obtain tm where "luaT_gettmbyobj w t TM_INDEX = Inr tm" "tm \<noteq> TNil"
      "(if isfunction tm then callTMres call w tm t k else gettable_loop n call w tm k) = Inr (v, w')"
      using Suc.prems(2) by (cases t) (auto simp: rbind_eq_Inr Let_def split: if_splits)
    then show ?thesis using again Suc.prems(1) by blast
  qed
qed simp

lemma settable_inv:
  assumes keeps: "caller_keeps cache_inv call"
  shows "cache_inv w \<Longrightarrow> settable_loop n call w t k v = Inr w' \<Longrightarrow> cache_inv w'"
proof (induction n arbitrary: w t)
  case (Suc n)
  have again: "cache_inv w'" if "cache_inv w1"
    "(if isfunction tm then callTM call w1 tm t k v else settable_loop n call w1 tm k v) = Inr w'" for tm w1
    using that Suc.IH by (auto simp: callTM_def rbind_eq_Inr intro: keeps [unfolded caller_keeps_def, rule_format] split: if_splits)
  show ?case
  proof (cases "\<exists>a. t = TTable a")
    case True
    then obtain a where t: "t = TTable a" by blast
    then obtain h h1 s where h: "tables w a = Some h" "luaH_set h k = Inr (h1, s)"
      using Suc.prems(2) by (auto simp: rbind_eq_Inr deref_Inr)
    note head = luaH_set_head [OF h(2)]
    define w1 where "w1 = w\<lparr>tables := (tables w)(a \<mapsto> h1)\<rparr>"
    have inv1: "cache_inv w1" unfolding w1_def by (rule inv_upd [OF Suc.prems(1) h(1) head(2,1)])
    have a1: "tables w1 a = Some h1" by (simp add: w1_def)
    have own: "metatable h1 \<noteq> Some a" using inv1 a1 by (auto simp: cache_inv_def no_own_metatable_def)
    have store: "cache_inv w'" if "cache_inv w2" "tables w2 a = Some h1"
      "rbind (deref (tables w2) a) (\<lambda>h. Inr (w2\<lparr>tables := (tables w2)(a \<mapsto> setobj2t h s v)\<rparr>)) = Inr w'" for w2
      using that(3) inv_upd [OF that(1,2), of "setobj2t h1 s v"] head that(2) by (simp add: deref_def)
    show ?thesis
    proof (cases "slot_value h1 s = TNil")
      case True
      then obtain tm w2 where f: "fasttm w1 (metatable h1) TM_NEWINDEX = Inr (tm, w2)"
        using Suc.prems(2) h t by (auto simp: rbind_eq_Inr deref_Inr Let_def w1_def)
      from fasttm_inv [OF this inv1] own a1 have inv: "cache_inv w2" "tables w2 a = Some h1" by auto
      show ?thesis
      proof (cases tm)
        case None
        then show ?thesis using Suc.prems(2) h t True f store [OF inv]
          by (simp add: deref_def [of "tables w"] Let_def w1_def)
      next
        case (Some tm')
        then have "(if isfunction tm' then callTM call w2 tm' t k v else settable_loop n call w2 tm' k v) = Inr w'"
          using Suc.prems(2) h t True f by (simp add: deref_def [of "tables w"] Let_def w1_def split: if_splits)
        then show ?thesis by (rule again [OF inv(1)])
      qed
    next
      case False
      then show ?thesis using Suc.prems(2) h t store [OF inv1 a1]
        by (simp add: deref_def [of "tables w"] Let_def w1_def)
    qed
  next
    case False
    then obtain tm where "luaT_gettmbyobj w t TM_NEWINDEX = Inr tm" "tm \<noteq> TNil"
      "(if isfunction tm then callTM call w tm t k v else settable_loop n call w tm k v) = Inr w'"
      using Suc.prems(2) by (cases t) (auto simp: rbind_eq_Inr Let_def split: if_splits)
    then show ?thesis using again Suc.prems(1) by blast
  qed
qed simp


text \<open>Two empty tables, the second the metatable of the first.\<close>

definition two_tables :: world where
  "two_tables = \<lparr>stack = [], tables = [1 \<mapsto> empty_table\<lparr>metatable := Some 2\<rparr>, 2 \<mapsto> empty_table],
     udata_mt = Map.empty, basic_mt = (\<lambda>_. None), closures = Map.empty, upvals = Map.empty, openupval = [],
     next_addr = 3\<rparr>"

definition no_call :: caller where
  "no_call f args w = Inr ([], w)"

lemma empty_table_getstr: "luaH_getstr empty_table s = Inr None"
proof -
  have "slots empty_table = [ArraySlot 0, ArraySlot 1]"
    by (simp add: slots_def empty_table_eval gnodes_def numeral_2_eq_2)
  then show ?thesis
    unfolding getstr_lookup [OF empty_table_wf] lookup_slot_def by (simp add: rawequal_num num_def)
qed

lemma empty_table_flags: "flags empty_table = - 1"
  by (simp add: empty_table_eval)

lemma getstr_metatable [simp]: "luaH_getstr (t\<lparr>metatable := m\<rparr>) s = luaH_getstr t s"
  by (simp add: luaH_getstr_def search_from_def gnodes_def hashpow2_def sizenode_def)

lemma empty_table_own: "metatable empty_table = None"
  by (simp add: empty_table_eval)

lemma two_tables_inv: "cache_inv two_tables"
  by (auto simp: cache_inv_def cache_ok_def no_own_metatable_def two_tables_def raw_tm_def empty_table_getstr
      value_at_def empty_table_own split: if_splits)


text \<open>
  C20. A metatable that is its own metatable defeats the cache: storing \<open>__newindex\<close> into it, \<open>luaV_settable\<close>
  marks the metamethod as absent after \<open>luaH_set\<close> has reset the flags and before the value is written,
  so the metamethod is in the table and \<open>fasttm\<close> does not see it.
\<close>

theorem newindex_hidden_by_cache:
  assumes wf: "wf_table h" and h: "tables w a = Some h" and own: "metatable h = Some a"
    and absent: "luaH_getstr h (tmname TM_NEWINDEX) = Inr None" and f: "f \<noteq> TNil"
    and room: "length (keys_of h) < 2 ^ 26"
  shows "\<exists>w' h' p. luaV_settable call w (TTable a) (TString (tmname TM_NEWINDEX)) f = Inr w' \<and>
    tables w' a = Some h' \<and> luaH_getstr h' (tmname TM_NEWINDEX) = Inr p \<and> value_at h' p = f \<and>
    fasttm w' (Some a) TM_NEWINDEX = Inr (None, w')"
proof -
  let ?k = "TString (tmname TM_NEWINDEX)"
  have nil: "lookup h ?k = TNil" using absent getstr_lookup [OF wf] by (simp add: lookup_def value_at_def)
  have loop: "MAXTAGLOOP = Suc 99" by (simp add: MAXTAGLOOP_def)
  obtain h1 s where h1: "luaH_set h ?k = Inr (h1, s)" "located h ?k h1 s"
    using room by (rule_tac luaH_set_spec [OF wf, of ?k]) (auto simp: MAXASIZE_def MAXBITS_def)
  then have wf1: "wf_table h1" and sl: "lookup_slot h1 ?k = Some s" and nil1: "lookup h1 ?k = TNil"
    using nil lookup_slot_eq [of h1 s ?k] by (simp_all add: located_def)
  have get1: "luaH_getstr h1 (tmname TM_NEWINDEX) = Inr (Some s)" using getstr_lookup [OF wf1] sl by simp
  have v1: "slot_value h1 s = TNil" using nil1 sl by (simp add: lookup_def value_at_def)
  note head = luaH_set_head [OF h1(1)]
  define h2 where "h2 = (setobj2t h1 s f)\<lparr>flags := 2\<rparr>"
  have flags: "setobj2t (h1\<lparr>flags := 2\<rparr>) s f = h2" by (cases s) (simp_all add: h2_def gnodes_def)
  obtain w' where w': "luaV_settable call w (TTable a) ?k f = Inr w'" "tables w' = (tables w)(a \<mapsto> h2)"
    unfolding luaV_settable_def loop settable_loop.simps
    using h h1(1) v1 head own get1 flags
    by (simp add: deref_def Let_def fasttm_def luaT_gettm_def value_at_def)
  have st: "stored h ?k f (setobj2t h1 s f)" by (rule located_stored [OF h1(2)])
  then have "luaH_getstr h2 (tmname TM_NEWINDEX) = Inr (lookup_slot (setobj2t h1 s f) ?k)"
    using getstr_lookup [of "setobj2t h1 s f"] by (simp add: stored_def h2_def)
  moreover have "value_at h2 (lookup_slot (setobj2t h1 s f) ?k) = f"
    using st by (simp add: stored_def h2_def lookup_def)
  moreover have "fasttm w' (Some a) TM_NEWINDEX = Inr (None, w')"
    by (simp add: fasttm_def w' deref_def h2_def bit_numeral_rec)
  ultimately show ?thesis using w' by simp
qed

lemma metatable_wf: "wf_table (t\<lparr>metatable := m\<rparr>) \<longleftrightarrow> wf_table t"
proof -
  have "mainposition (t\<lparr>metatable := m\<rparr>) = mainposition t" by (rule mainposition_size) simp
  moreover have "in_array (t\<lparr>metatable := m\<rparr>) = in_array t" by (rule ext) (simp add: in_array_def)
  ultimately show ?thesis by (simp add: wf_table_def sizenode_def gnodes_def)
qed

theorem newindex_hidden_by_cache_witness:
  "\<exists>w'. luaV_settable no_call (two_tables\<lparr>tables := [2 \<mapsto> empty_table\<lparr>metatable := Some 2\<rparr>]\<rparr>)
      (TTable 2) (TString (tmname TM_NEWINDEX)) (TFunction 9) = Inr w' \<and>
    fasttm w' (Some 2) TM_NEWINDEX = Inr (None, w')"
proof -
  have "length (keys_of empty_table) = 0"
    by (simp add: keys_of_def array_items_def empty_table_eval gnodes_def numeral_2_eq_2)
  then have "length (keys_of (empty_table\<lparr>metatable := Some 2\<rparr>)) = 0"
    by (simp add: keys_of_def array_items_def gnodes_def)
  moreover have "wf_table (empty_table\<lparr>metatable := Some 2\<rparr>)" 
    using empty_table_wf metatable_wf by blast
  ultimately show ?thesis
    using newindex_hidden_by_cache [of "empty_table\<lparr>metatable := Some 2\<rparr>"
      "two_tables\<lparr>tables := [2 \<mapsto> empty_table\<lparr>metatable := Some 2\<rparr>]\<rparr>" 2 "TFunction 9" no_call]
    by (auto simp: empty_table_getstr)
qed

end
