(* ===== verification/LuaTablib.thy ===== *)
theory LuaTablib
  imports LuaVm
begin

text \<open>
  ltablib.c: the table library of Lua, on the tables of LuaTable and the state of LuaVm. The values a function keeps on
  the Lua stack are its local values here. Counters are integers: \<open>luaH_getn\<close> gives at most
  \<open>2 ^ 31 - 1\<close>; the one sum that can exceed an \<open>int\<close>, in \<open>auxsort\<close>, is checked.
\<close>

section \<open>Access by integer keys\<close>

definition lua_rawgeti :: "addr \<Rightarrow> world \<Rightarrow> int \<Rightarrow> TValue result" where
  "lua_rawgeti a w n =
     rbind (deref (tables w) a) (\<lambda>t. rbind (luaH_getnum t (of_int n)) (\<lambda>p. Inr (value_at t p)))"

definition lua_rawseti :: "addr \<Rightarrow> world \<Rightarrow> int \<Rightarrow> TValue \<Rightarrow> world result" where
  "lua_rawseti a w n v =
     rbind (deref (tables w) a) (\<lambda>t. rbind (luaH_setnum t (of_int n)) (\<lambda>(t, s).
       Inr (w\<lparr>tables := (tables w)(a \<mapsto> setobj2t t s v)\<rparr>)))"

text \<open>Arguments of a library function; one that is missing counts as nil where the code treats them alike.\<close>

definition arg :: "TValue list \<Rightarrow> nat \<Rightarrow> TValue" where
  "arg args n = (if n \<le> length args then args ! (n - 1) else TNil)"

definition aux_getn :: "world \<Rightarrow> TValue \<Rightarrow> (addr \<times> int) result" where
  "aux_getn w v =
     (case v of
        TTable a \<Rightarrow> rbind (deref (tables w) a) (\<lambda>t. rbind (luaH_getn t) (\<lambda>n. Inr (a, int n)))
      | _ \<Rightarrow> Inl (LuaError ''table expected''))"

definition luaL_checkint :: "clib \<Rightarrow> TValue \<Rightarrow> int result" where
  "luaL_checkint c v =
     (case luaV_tonumber c v of
        Some d \<Rightarrow> Inr (sint (ucast (double_to_s64 d) :: u32))
      | None \<Rightarrow> Inl (LuaError ''number expected''))"

definition luaL_optint :: "clib \<Rightarrow> TValue \<Rightarrow> int \<Rightarrow> int result" where
  "luaL_optint c v d = (if v = TNil then Inr d else luaL_checkint c v)"

section \<open>Iteration\<close>

text \<open>\<open>foreachi\<close> from index \<open>i\<close> with \<open>k\<close> indices to go; it returns the first result that is not nil.\<close>

fun foreachi_from :: "caller \<Rightarrow> addr \<Rightarrow> TValue \<Rightarrow> nat \<Rightarrow> int \<Rightarrow> world \<Rightarrow> (TValue list \<times> world) result" where
  "foreachi_from call a f 0 i w = Inr ([], w)"
| "foreachi_from call a f (Suc k) i w =
     rbind (lua_rawgeti a w i) (\<lambda>v.
     rbind (call f [TNumber (int_to_double i), v] w) (\<lambda>(rs, w).
       if first_result rs \<noteq> TNil then Inr ([first_result rs], w)
       else foreachi_from call a f k (i + 1) w))"

definition foreachi :: "caller \<Rightarrow> world \<Rightarrow> TValue list \<Rightarrow> (TValue list \<times> world) result" where
  "foreachi call w args =
     rbind (aux_getn w (arg args 1)) (\<lambda>(a, n).
       if isfunction (arg args 2) then foreachi_from call a (arg args 2) (nat n) 1 w
       else Inl (LuaError ''function expected''))"

text \<open>The traversals with \<open>lua_next\<close> are bounded by fuel: the function called may change the table.\<close>

fun foreach_from :: "nat \<Rightarrow> caller \<Rightarrow> addr \<Rightarrow> TValue \<Rightarrow> TValue \<Rightarrow> world \<Rightarrow> (TValue list \<times> world) result" where
  "foreach_from 0 call a f key w = Inl OutOfFuel"
| "foreach_from (Suc n) call a f key w =
     rbind (deref (tables w) a) (\<lambda>t.
     rbind (luaH_next t key) (\<lambda>r. case r of
       None \<Rightarrow> Inr ([], w)
     | Some (k, v) \<Rightarrow>
         rbind (call f [k, v] w) (\<lambda>(rs, w).
           if first_result rs \<noteq> TNil then Inr ([first_result rs], w)
           else foreach_from n call a f k w)))"

definition foreach :: "nat \<Rightarrow> caller \<Rightarrow> world \<Rightarrow> TValue list \<Rightarrow> (TValue list \<times> world) result" where
  "foreach fuel call w args =
     (case arg args 1 of
        TTable a \<Rightarrow>
          if isfunction (arg args 2) then foreach_from fuel call a (arg args 2) TNil w
          else Inl (LuaError ''function expected'')
      | _ \<Rightarrow> Inl (LuaError ''table expected''))"

fun maxn_from :: "nat \<Rightarrow> Table \<Rightarrow> TValue \<Rightarrow> double \<Rightarrow> double result" where
  "maxn_from 0 t key m = Inl OutOfFuel"
| "maxn_from (Suc n) t key m =
     rbind (luaH_next t key) (\<lambda>r. case r of
       None \<Rightarrow> Inr m
     | Some (k, v) \<Rightarrow> maxn_from n t k (case k of TNumber d \<Rightarrow> if dbl_lt m d then d else m | _ \<Rightarrow> m))"

text \<open>No call interferes with \<open>maxn\<close>: one round for each place of the table and one for the end.\<close>

definition maxn :: "world \<Rightarrow> TValue list \<Rightarrow> TValue list result" where
  "maxn w args =
     (case arg args 1 of
        TTable a \<Rightarrow> rbind (deref (tables w) a) (\<lambda>t.
          rbind (maxn_from (Suc (length (array t) + length (gnodes t))) t TNil 0) (\<lambda>m. Inr [TNumber m]))
      | _ \<Rightarrow> Inl (LuaError ''table expected''))"

definition getn :: "world \<Rightarrow> TValue list \<Rightarrow> TValue list result" where
  "getn w args = rbind (aux_getn w (arg args 1)) (\<lambda>(a, n). Inr [TNumber (int_to_double n)])"

text \<open>\<open>luaL_setn\<close> is a macro, so \<open>setn\<close> is compiled to an error.\<close>

definition setn :: "TValue list \<Rightarrow> TValue list result" where
  "setn args =
     (case arg args 1 of
        TTable a \<Rightarrow> Inl (LuaError ''setn is obsolete'')
      | _ \<Rightarrow> Inl (LuaError ''table expected''))"

section \<open>Inserting and removing\<close>

text \<open>Moving up the elements from \<open>i\<close> down to \<open>pos + 1\<close>: \<open>k\<close> steps.\<close>

fun move_up :: "addr \<Rightarrow> nat \<Rightarrow> int \<Rightarrow> world \<Rightarrow> world result" where
  "move_up a 0 i w = Inr w"
| "move_up a (Suc k) i w =
     rbind (lua_rawgeti a w (i - 1)) (\<lambda>v. rbind (lua_rawseti a w i v) (\<lambda>w. move_up a k (i - 1) w))"

definition tinsert :: "clib \<Rightarrow> world \<Rightarrow> TValue list \<Rightarrow> world result" where
  "tinsert c w args =
     rbind (aux_getn w (arg args 1)) (\<lambda>(a, n).
       let e = n + 1 in
       if length args = 2 then lua_rawseti a w e (arg args 2)
       else if length args = 3 then
         rbind (luaL_checkint c (arg args 2)) (\<lambda>pos.
         let e = (if pos > e then pos else e) in
         rbind (move_up a (nat (e - pos)) e w) (\<lambda>w. lua_rawseti a w pos (arg args 3)))
       else Inl (LuaError ''wrong number of arguments to insert''))"

fun move_down :: "addr \<Rightarrow> nat \<Rightarrow> int \<Rightarrow> world \<Rightarrow> world result" where
  "move_down a 0 pos w = Inr w"
| "move_down a (Suc k) pos w =
     rbind (lua_rawgeti a w (pos + 1)) (\<lambda>v. rbind (lua_rawseti a w pos v) (\<lambda>w. move_down a k (pos + 1) w))"

definition tremove :: "clib \<Rightarrow> world \<Rightarrow> TValue list \<Rightarrow> (TValue list \<times> world) result" where
  "tremove c w args =
     rbind (aux_getn w (arg args 1)) (\<lambda>(a, e).
     rbind (luaL_optint c (arg args 2) e) (\<lambda>pos.
       if \<not> (1 \<le> pos \<and> pos \<le> e) then Inr ([], w)
       else
         rbind (lua_rawgeti a w pos) (\<lambda>v.
         rbind (move_down a (nat (e - pos)) pos w) (\<lambda>w.
         rbind (lua_rawseti a w e TNil) (\<lambda>w. Inr ([v], w))))))"

section \<open>Concatenation\<close>

definition addfield :: "clib \<Rightarrow> addr \<Rightarrow> world \<Rightarrow> bytes \<Rightarrow> int \<Rightarrow> bytes result" where
  "addfield c a w b i =
     rbind (lua_rawgeti a w i) (\<lambda>v. case tostring c v of
       None \<Rightarrow> Inl (LuaError ''invalid value in table for concat'')
     | Some s \<Rightarrow> Inr (b @ s))"

fun addfields :: "clib \<Rightarrow> addr \<Rightarrow> world \<Rightarrow> bytes \<Rightarrow> nat \<Rightarrow> int \<Rightarrow> bytes \<Rightarrow> bytes result" where
  "addfields c a w sep 0 i b = Inr b"
| "addfields c a w sep (Suc k) i b =
     rbind (addfield c a w b i) (\<lambda>b. addfields c a w sep k (i + 1) (b @ sep))"

definition tconcat :: "clib \<Rightarrow> world \<Rightarrow> TValue list \<Rightarrow> TValue list result" where
  "tconcat c w args =
     rbind (if arg args 2 = TNil then Inr []
            else case tostring c (arg args 2) of None \<Rightarrow> Inl (LuaError ''string expected'') | Some s \<Rightarrow> Inr s) (\<lambda>sep.
     case arg args 1 of
       TTable a \<Rightarrow>
         rbind (luaL_optint c (arg args 3) 1) (\<lambda>i.
         rbind (if arg args 4 = TNil then rbind (aux_getn w (TTable a)) (\<lambda>(a, n). Inr n)
                else luaL_checkint c (arg args 4)) (\<lambda>last'.
         rbind (addfields c a w sep (nat (last' - i)) i []) (\<lambda>b.
         rbind (if i \<le> last' then addfield c a w b last' else Inr b) (\<lambda>b.
           Inr [TString b]))))
     | _ \<Rightarrow> Inl (LuaError ''table expected''))"

section \<open>Sorting\<close>

text \<open>
  The quicksort works on any array that is read and written by \<open>rd\<close> and \<open>wr\<close> and whose elements
  \<open>lt\<close> compares; these may fail, and \<open>lt\<close> may change the state \<open>s\<close>. \<open>p\<close> is the pivot.
\<close>

type_synonym ('s, 'v) getter = "'s \<Rightarrow> int \<Rightarrow> 'v result"
type_synonym ('s, 'v) setter = "'s \<Rightarrow> int \<Rightarrow> 'v \<Rightarrow> 's result"
type_synonym ('s, 'v) comparer = "'s \<Rightarrow> 'v \<Rightarrow> 'v \<Rightarrow> (bool \<times> 's) result"

function scan_up :: "('s, 'v) getter \<Rightarrow> ('s, 'v) comparer \<Rightarrow> int \<Rightarrow> 'v \<Rightarrow> 's \<Rightarrow> int \<Rightarrow> (int \<times> 'v \<times> 's) result" where
  "scan_up rd lt u p s i =
     rbind (rd s (i + 1)) (\<lambda>v.
     rbind (lt s v p) (\<lambda>(r, s).
       if \<not> r then Inr (i + 1, v, s)
       else if i + 1 > u then Inl (LuaError ''invalid order function for sorting'')
       else scan_up rd lt u p s (i + 1)))"
  by auto
termination by (relation "measure (\<lambda>(rd, lt, u, p, s, i). nat (u + 1 - i))") auto

function scan_down :: "('s, 'v) getter \<Rightarrow> ('s, 'v) comparer \<Rightarrow> int \<Rightarrow> 'v \<Rightarrow> 's \<Rightarrow> int \<Rightarrow> (int \<times> 'v \<times> 's) result" where
  "scan_down rd lt l p s j =
     rbind (rd s (j - 1)) (\<lambda>v.
     rbind (lt s p v) (\<lambda>(r, s).
       if \<not> r then Inr (j - 1, v, s)
       else if j - 1 < l then Inl (LuaError ''invalid order function for sorting'')
       else scan_down rd lt l p s (j - 1)))"
  by auto
termination by (relation "measure (\<lambda>(rd, lt, l, p, s, j). nat (j + 1 - l))") auto

declare scan_up.simps [simp del] scan_down.simps [simp del]

lemma scan_up_moves: "scan_up rd lt u p s i = Inr (i', v, s') \<Longrightarrow> i < i'"
proof (induction rd lt u p s i rule: scan_up.induct)
  case (1 rd lt u p s i)
  from "1.prems" show ?case
    by (subst (asm) scan_up.simps) (auto simp: rbind_eq_Inr split: if_splits dest!: "1.IH")
qed

lemma scan_down_moves: "scan_down rd lt l p s j = Inr (j', v, s') \<Longrightarrow> j' < j"
proof (induction rd lt l p s j rule: scan_down.induct)
  case (1 rd lt l p s j)
  from "1.prems" show ?case
    by (subst (asm) scan_down.simps) (auto simp: rbind_eq_Inr split: if_splits dest!: "1.IH")
qed

text \<open>The loop of the partition: the place where the scans met.\<close>

function part_loop :: "('s, 'v) getter \<Rightarrow> ('s, 'v) setter \<Rightarrow> ('s, 'v) comparer \<Rightarrow> int \<Rightarrow> int \<Rightarrow> 'v \<Rightarrow> 's \<Rightarrow>
    int \<Rightarrow> int \<Rightarrow> (int \<times> 's) result" where
  "part_loop rd wr lt l u p s i j =
     rbind (scan_up rd lt u p s i) (\<lambda>(i', vi, s').
     rbind (scan_down rd lt l p s' j) (\<lambda>(j', vj, s').
       if j' < i' then Inr (i', s')
       else
         rbind (wr s' i' vj) (\<lambda>s'.
         rbind (wr s' j' vi) (\<lambda>s'. part_loop rd wr lt l u p s' i' j'))))"
  by auto
termination
  by (relation "measure (\<lambda>(rd, wr, lt, l, u, p, s, i, j). nat (j - i))")
    (auto dest!: scan_up_moves scan_down_moves)

declare part_loop.simps [simp del]

text \<open>Sorting the ends, sorting the middle between them, and the partition around the middle.\<close>

definition order_ends :: "('s, 'v) getter \<Rightarrow> ('s, 'v) setter \<Rightarrow> ('s, 'v) comparer \<Rightarrow> 's \<Rightarrow> int \<Rightarrow> int \<Rightarrow> 's result" where
  "order_ends rd wr lt s l u =
     rbind (rd s l) (\<lambda>vl. rbind (rd s u) (\<lambda>vu. rbind (lt s vu vl) (\<lambda>(r, s).
       if r then rbind (wr s l vu) (\<lambda>s. wr s u vl) else Inr s)))"

definition order_middle :: "('s, 'v) getter \<Rightarrow> ('s, 'v) setter \<Rightarrow> ('s, 'v) comparer \<Rightarrow> 's \<Rightarrow> int \<Rightarrow> int \<Rightarrow> int \<Rightarrow> 's result" where
  "order_middle rd wr lt s l i u =
     rbind (rd s i) (\<lambda>vi. rbind (rd s l) (\<lambda>vl. rbind (lt s vi vl) (\<lambda>(r, s).
       if r then rbind (wr s i vl) (\<lambda>s. wr s l vi)
       else rbind (rd s u) (\<lambda>vu. rbind (lt s vu vi) (\<lambda>(r, s).
         if r then rbind (wr s i vu) (\<lambda>s. wr s u vi) else Inr s)))))"

definition split_at :: "('s, 'v) getter \<Rightarrow> ('s, 'v) setter \<Rightarrow> ('s, 'v) comparer \<Rightarrow> 's \<Rightarrow> int \<Rightarrow> int \<Rightarrow> int \<Rightarrow> (int \<times> 's) result" where
  "split_at rd wr lt s l i u =
     rbind (rd s i) (\<lambda>p. rbind (rd s (u - 1)) (\<lambda>v.
     rbind (wr s i v) (\<lambda>s. rbind (wr s (u - 1) p) (\<lambda>s.
     rbind (part_loop rd wr lt l u p s l (u - 1)) (\<lambda>(i, s).
     rbind (rd s (u - 1)) (\<lambda>x. rbind (rd s i) (\<lambda>y.
     rbind (wr s (u - 1) y) (\<lambda>s. rbind (wr s i x) (\<lambda>s. Inr (i, s))))))))))"

text \<open>
  \<open>auxsort\<close>: the recursion on the smaller part and the loop on the larger one both use
  a unit of fuel.
\<close>

fun auxsort :: "nat \<Rightarrow> ('s, 'v) getter \<Rightarrow> ('s, 'v) setter \<Rightarrow> ('s, 'v) comparer \<Rightarrow> 's \<Rightarrow> int \<Rightarrow> int \<Rightarrow> 's result" where
  "auxsort 0 rd wr lt s l u = Inl OutOfFuel"
| "auxsort (Suc f) rd wr lt s l u =
     (if \<not> l < u then Inr s else
      rbind (order_ends rd wr lt s l u) (\<lambda>s.
      if u - l = 1 then Inr s else
      if l + u \<ge> 2 ^ 31 then Inl SignedOverflow else
      rbind (order_middle rd wr lt s l ((l + u) div 2) u) (\<lambda>s.
      if u - l = 2 then Inr s else
      rbind (split_at rd wr lt s l ((l + u) div 2) u) (\<lambda>(i, s).
        if i - l < u - i
        then rbind (auxsort f rd wr lt s l (i - 1)) (\<lambda>s. auxsort f rd wr lt s (i + 1) u)
        else rbind (auxsort f rd wr lt s (i + 1) u) (\<lambda>s. auxsort f rd wr lt s l (i - 1))))))"

definition sort_comp :: "(bytes \<Rightarrow> bytes \<Rightarrow> int) \<Rightarrow> caller \<Rightarrow> TValue \<Rightarrow> world \<Rightarrow> TValue \<Rightarrow> TValue \<Rightarrow> (bool \<times> world) result" where
  "sort_comp strcoll call f w a b =
     (if f \<noteq> TNil then rbind (call f [a, b] w) (\<lambda>(rs, w). Inr (\<not> l_isfalse (first_result rs), w))
      else luaV_lessthan strcoll call w a b)"

definition sort_table :: "nat \<Rightarrow> (bytes \<Rightarrow> bytes \<Rightarrow> int) \<Rightarrow> caller \<Rightarrow> world \<Rightarrow> TValue list \<Rightarrow> world result" where
  "sort_table fuel strcoll call w args =
     rbind (aux_getn w (arg args 1)) (\<lambda>(a, n).
       if arg args 2 \<noteq> TNil \<and> \<not> isfunction (arg args 2) then Inl (LuaError ''function expected'')
       else auxsort fuel (lua_rawgeti a) (lua_rawseti a) (sort_comp strcoll call (arg args 2)) w 1 n)"

end
