(* ===== verification/LuaSort.thy ===== *)
theory LuaSort
  imports LuaTablib LuaVmSpec "HOL-Library.Multiset"
begin

text \<open>
  The sort of ltablib.c sorts: the interface it needs of an array and of an order (locale \<open>sortable\<close>), its
  correctness and termination over that interface, and its interpretations on tables of numbers and of strings.
\<close>

section \<open>Rearrangements of a segment\<close>

definition perm_within :: "int \<Rightarrow> int \<Rightarrow> (int \<Rightarrow> 'v) \<Rightarrow> (int \<Rightarrow> 'v) \<Rightarrow> bool" where
  "perm_within l u c c' \<longleftrightarrow> (\<forall>i. i < l \<or> u < i \<longrightarrow> c' i = c i) \<and>
     image_mset c' (mset_set {l..u}) = image_mset c (mset_set {l..u})"

lemma perm_within_refl [simp]: "perm_within l u c c"
  by (simp add: perm_within_def)

lemma perm_within_trans: "perm_within l u c c' \<Longrightarrow> perm_within l u c' c'' \<Longrightarrow> perm_within l u c c''"
  by (simp add: perm_within_def)

lemma perm_within_outside: "perm_within l u c c' \<Longrightarrow> i < l \<or> u < i \<Longrightarrow> c' i = c i"
  by (auto simp: perm_within_def)

lemma perm_within_mono:
  assumes p: "perm_within l u c c'" and "l' \<le> l" and "u \<le> u'"
  shows "perm_within l' u' c c'"
proof (cases "l \<le> u")
  case True
  have split: "{l'..u'} = {l..u} \<union> ({l'..u'} - {l..u})" using assms(2,3) True by auto
  have rest: "image_mset c' (mset_set ({l'..u'} - {l..u})) = image_mset c (mset_set ({l'..u'} - {l..u}))"
    by (rule image_mset_cong) (use p in \<open>auto simp: perm_within_def\<close>)
  have "image_mset c' (mset_set {l'..u'}) = image_mset c (mset_set {l'..u'})"
    by (subst (1 2) split, subst (1 2) mset_set_Union) (use p rest in \<open>auto simp: perm_within_def\<close>)
  then show ?thesis using assms by (auto simp: perm_within_def)
next
  case False
  then have "c' = c" using p by (force simp: perm_within_def)
  then show ?thesis by simp
qed

lemma perm_within_all:
  assumes p: "perm_within l u c c'" and q: "\<And>m. l \<le> m \<Longrightarrow> m \<le> u \<Longrightarrow> Q (c m)" and m: "l \<le> m" "m \<le> u"
  shows "Q (c' m)"
proof -
  have "c' m \<in># image_mset c' (mset_set {l..u})" using m by simp
  then have "c' m \<in># image_mset c (mset_set {l..u})" using p unfolding perm_within_def by metis
  then show ?thesis using q by auto
qed

lemma perm_within_swap:
  assumes "l \<le> i" "i \<le> u" "l \<le> j" "j \<le> u"
  shows "perm_within l u c (c(i := c j, j := c i))"
proof (cases "i = j")
  case False
  define R where "R = {l..u} - {i, j}"
  have R: "{l..u} = insert i (insert j R)" "finite R" "i \<notin> R" "j \<notin> R" using assms by (auto simp: R_def)
  have "image_mset (c(i := c j, j := c i)) (mset_set R) = image_mset c (mset_set R)"
    by (rule image_mset_cong) (use R in auto)
  then have "image_mset (c(i := c j, j := c i)) (mset_set {l..u}) = image_mset c (mset_set {l..u})"
    using R False by (simp add: add_mset_commute)
  then show ?thesis using assms by (auto simp: perm_within_def)
qed simp

section \<open>The interface\<close>

text \<open>
  \<open>holds s c\<close>: in the state \<open>s\<close> the array has the elements \<open>c i\<close> for the indices from \<open>lo\<close> to \<open>hi\<close>, all
  of which satisfy \<open>ok\<close>. On such elements \<open>lt\<close> decides a strict weak order.
\<close>

locale sortable =
  fixes rd :: "('s, 'v) getter" and wr :: "('s, 'v) setter" and lt :: "('s, 'v) comparer"
    and holds :: "'s \<Rightarrow> (int \<Rightarrow> 'v) \<Rightarrow> bool" and lo hi :: int and ok :: "'v \<Rightarrow> bool"
    and prec :: "'v \<Rightarrow> 'v \<Rightarrow> bool"
  assumes small: "holds s c \<Longrightarrow> hi < 2 ^ 30"
    and rd: "holds s c \<Longrightarrow> lo \<le> i \<Longrightarrow> i \<le> hi \<Longrightarrow> rd s i = Inr (c i)"
    and wr: "holds s c \<Longrightarrow> lo \<le> i \<Longrightarrow> i \<le> hi \<Longrightarrow> ok v \<Longrightarrow> \<exists>s'. wr s i v = Inr s' \<and> holds s' (c(i := v))"
    and lt: "holds s c \<Longrightarrow> ok a \<Longrightarrow> ok b \<Longrightarrow> \<exists>s'. lt s a b = Inr (prec a b, s') \<and> holds s' c"
    and okay: "holds s c \<Longrightarrow> lo \<le> i \<Longrightarrow> i \<le> hi \<Longrightarrow> ok (c i)"
    and asym: "ok a \<Longrightarrow> ok b \<Longrightarrow> prec a b \<Longrightarrow> \<not> prec b a"
    and weak: "ok a \<Longrightarrow> ok b \<Longrightarrow> ok d \<Longrightarrow> prec a d \<Longrightarrow> prec a b \<or> prec b d"
begin

lemma le_trans: "ok a \<Longrightarrow> ok b \<Longrightarrow> ok d \<Longrightarrow> \<not> prec b a \<Longrightarrow> \<not> prec d b \<Longrightarrow> \<not> prec d a"
  using weak by blast

lemma irrefl: "ok a \<Longrightarrow> \<not> prec a a"
  using asym by blast

lemma write_two:
  assumes h: "holds s c" and "lo \<le> i" "i \<le> hi" "lo \<le> j" "j \<le> hi" "ok v" "ok w"
  shows "\<exists>s'. rbind (wr s i v) (\<lambda>s. wr s j w) = Inr s' \<and> holds s' (c(i := v, j := w))"
proof -
  from wr [OF h, of i v] assms obtain s1 where s1: "wr s i v = Inr s1" "holds s1 (c(i := v))" by blast
  from wr [OF s1(2), of j w] assms obtain s2 where "wr s1 j w = Inr s2" "holds s2 (c(i := v, j := w))" by blast
  with s1 show ?thesis by simp
qed

text \<open>The scans stop at the first element that is not on their side of the pivot.\<close>

lemma scan_up_stops:
  assumes "holds s c" "ok p" "lo \<le> i + 1" "i < k" "k \<le> u" "u \<le> hi" "\<not> prec (c k) p"
  shows "\<exists>i' s'. scan_up rd lt u p s i = Inr (i', c i', s') \<and> holds s' c \<and> i < i' \<and> i' \<le> k \<and>
    \<not> prec (c i') p \<and> (\<forall>m. i < m \<longrightarrow> m < i' \<longrightarrow> prec (c m) p)"
  using assms
proof (induction "nat (k - i)" arbitrary: i s rule: less_induct)
  case less
  have i1: "lo \<le> i + 1" "i + 1 \<le> hi" using less.prems by simp_all
  from lt [OF less.prems(1) okay [OF less.prems(1) i1] less.prems(2)]
  obtain s1 where s1: "lt s (c (i + 1)) p = Inr (prec (c (i + 1)) p, s1)" "holds s1 c" by blast
  show ?case
  proof (cases "prec (c (i + 1)) p")
    case False
    then show ?thesis using rd [OF less.prems(1) i1] s1 less.prems(4) by (simp add: scan_up.simps [of rd lt u p s i])
  next
    case True
    then have k: "i + 1 < k" using less.prems(4,7) by (metis add1_zle_eq order_le_less)
    have "\<exists>i' s'. scan_up rd lt u p s1 (i + 1) = Inr (i', c i', s') \<and> holds s' c \<and> i + 1 < i' \<and> i' \<le> k \<and>
      \<not> prec (c i') p \<and> (\<forall>m. i + 1 < m \<longrightarrow> m < i' \<longrightarrow> prec (c m) p)"
      by (rule less.hyps) (use less.prems s1 k in auto)
    then obtain i' s' where r: "scan_up rd lt u p s1 (i + 1) = Inr (i', c i', s')" "holds s' c" "i + 1 < i'" "i' \<le> k"
      "\<not> prec (c i') p" "\<forall>m. i + 1 < m \<longrightarrow> m < i' \<longrightarrow> prec (c m) p" by blast
    have "scan_up rd lt u p s i = Inr (i', c i', s')"
      using rd [OF less.prems(1) i1] s1 True r(1) k less.prems(5) by (simp add: scan_up.simps [of rd lt u p s i])
    moreover have "prec (c m) p" if "i < m" "m < i'" for m
      using that r(6) True by (cases "m = i + 1") auto
    ultimately show ?thesis using r by auto
  qed
qed

lemma scan_down_stops:
  assumes "holds s c" "ok p" "j - 1 \<le> hi" "k < j" "l \<le> k" "lo \<le> l" "\<not> prec p (c k)"
  shows "\<exists>j' s'. scan_down rd lt l p s j = Inr (j', c j', s') \<and> holds s' c \<and> j' < j \<and> k \<le> j' \<and>
    \<not> prec p (c j') \<and> (\<forall>m. j' < m \<longrightarrow> m < j \<longrightarrow> prec p (c m))"
  using assms
proof (induction "nat (j - k)" arbitrary: j s rule: less_induct)
  case less
  have j1: "lo \<le> j - 1" "j - 1 \<le> hi" using less.prems by simp_all
  from lt [OF less.prems(1,2) okay [OF less.prems(1) j1]]
  obtain s1 where s1: "lt s p (c (j - 1)) = Inr (prec p (c (j - 1)), s1)" "holds s1 c" by blast
  show ?case
  proof (cases "prec p (c (j - 1))")
    case False
    then show ?thesis using rd [OF less.prems(1) j1] s1 less.prems(4) by (simp add: scan_down.simps [of rd lt l p s j])
  next
    case True
    then have k: "k < j - 1" using less.prems(4,7) by (cases "k = j - 1") auto
    have "\<exists>j' s'. scan_down rd lt l p s1 (j - 1) = Inr (j', c j', s') \<and> holds s' c \<and> j' < j - 1 \<and> k \<le> j' \<and>
      \<not> prec p (c j') \<and> (\<forall>m. j' < m \<longrightarrow> m < j - 1 \<longrightarrow> prec p (c m))"
      by (rule less.hyps) (use less.prems s1 k in auto)
    then obtain j' s' where r: "scan_down rd lt l p s1 (j - 1) = Inr (j', c j', s')" "holds s' c" "j' < j - 1" "k \<le> j'"
      "\<not> prec p (c j')" "\<forall>m. j' < m \<longrightarrow> m < j - 1 \<longrightarrow> prec p (c m)" by blast
    have "scan_down rd lt l p s j = Inr (j', c j', s')"
      using rd [OF less.prems(1) j1] s1 True r(1) k less.prems(5) by (simp add: scan_down.simps [of rd lt l p s j])
    moreover have "prec p (c m)" if "j' < m" "m < j" for m
      using that r(6) True by (cases "m = j - 1") auto
    ultimately show ?thesis using r by auto
  qed
qed


text \<open>The partition loop meets between the ends, with the smaller elements on its left.\<close>

lemma part_loop_meets:
  assumes "holds s c" "ok p" "lo \<le> l" "u \<le> hi" "l \<le> i" "i \<le> j" "j < u" "i = j \<longrightarrow> l < i \<and> j + 1 < u"
    and "\<And>m. l \<le> m \<Longrightarrow> m \<le> i \<Longrightarrow> \<not> prec p (c m)" and "\<And>m. j \<le> m \<Longrightarrow> m \<le> u \<Longrightarrow> \<not> prec (c m) p"
  shows "\<exists>i' s' c'. part_loop rd wr lt l u p s i j = Inr (i', s') \<and> holds s' c' \<and> perm_within (l + 1) (u - 2) c c' \<and>
    l < i' \<and> i' < u \<and> (\<forall>m. l \<le> m \<longrightarrow> m < i' \<longrightarrow> \<not> prec p (c' m)) \<and> (\<forall>m. i' \<le> m \<longrightarrow> m \<le> u \<longrightarrow> \<not> prec (c' m) p)"
  using assms
proof (induction "nat (j - i)" arbitrary: i j s c rule: less_induct)
  case less
  note h = less.prems(1) and left = less.prems(9) and right = less.prems(10)
  define ku kd where "ku = (if i < j then j else j + 1)" and "kd = (if i < j then i else i - 1)"
  have ku: "i < ku" "ku < u" "\<not> prec (c ku) p" using less.prems(5-8) right [of ku] by (auto simp: ku_def)
  have kd: "kd < j" "l \<le> kd" "\<not> prec p (c kd)" using less.prems(5-8) left [of kd] by (auto simp: kd_def)
  have okc: "ok (c m)" if "l \<le> m" "m \<le> u" for m using okay [OF h] that less.prems(3,4) by simp
  from scan_up_stops [OF h less.prems(2) _ ku(1), of u] ku less.prems(3-5)
  obtain i' s1 where up: "scan_up rd lt u p s i = Inr (i', c i', s1)" "holds s1 c" "i < i'" "i' \<le> ku"
    "\<not> prec (c i') p" "\<forall>m. i < m \<longrightarrow> m < i' \<longrightarrow> prec (c m) p" by auto
  from scan_down_stops [OF up(2) less.prems(2) _ kd(1), of l] kd less.prems(3,4,7)
  obtain j' s2 where down: "scan_down rd lt l p s1 j = Inr (j', c j', s2)" "holds s2 c" "j' < j" "kd \<le> j'"
    "\<not> prec p (c j')" "\<forall>m. j' < m \<longrightarrow> m < j \<longrightarrow> prec p (c m)" by auto
  have L: "\<not> prec p (c m)" if "l \<le> m" "m < i'" for m
    using left [of m] up(6) asym [OF okc less.prems(2)] that ku(2) up(4) by (cases "m \<le> i") auto
  have R: "\<not> prec (c m) p" if "j' < m" "m \<le> u" for m
    using right [of m] down(6) asym [OF less.prems(2) okc] that kd(2) down(4) by (cases "j \<le> m") auto
  show ?case
  proof (cases "j' < i'")
    case True
    have "part_loop rd wr lt l u p s i j = Inr (i', s2)"
      using up(1) down(1) True by (simp add: part_loop.simps [of rd wr lt l u p s i j])
    moreover have "\<not> prec (c m) p" if "i' \<le> m" "m \<le> u" for m using R [of m] True that by simp
    ultimately show ?thesis using down(2) L up(3,4) ku(2) less.prems(5) by (intro exI [of _ i'] exI [of _ s2] exI [of _ c]) auto
  next
    case False
    define c1 where "c1 = c(i' := c j', j' := c i')"
    have in_range: "l + 1 \<le> i'" "i' \<le> u - 2" "l + 1 \<le> j'" "j' \<le> u - 2"
      using up(3) down(3) less.prems(5,7) False by simp_all
    have ends: "ok (c j')" "ok (c i')" using okc in_range by simp_all
    from write_two [OF down(2), of i' j' "c j'" "c i'"] in_range ends less.prems(3,4)
    obtain s3 where s3: "rbind (wr s2 i' (c j')) (\<lambda>s. wr s j' (c i')) = Inr s3" "holds s3 c1" by (auto simp: c1_def)
    have step: "part_loop rd wr lt l u p s i j = part_loop rd wr lt l u p s3 i' j'"
      using up(1) down(1) False s3(1)
      by (simp add: part_loop.simps [of rd wr lt l u p s i j] rbind_assoc [symmetric])
    have "\<exists>i'' s' c'. part_loop rd wr lt l u p s3 i' j' = Inr (i'', s') \<and> holds s' c' \<and> perm_within (l + 1) (u - 2) c1 c' \<and>
      l < i'' \<and> i'' < u \<and> (\<forall>m. l \<le> m \<longrightarrow> m < i'' \<longrightarrow> \<not> prec p (c' m)) \<and> (\<forall>m. i'' \<le> m \<longrightarrow> m \<le> u \<longrightarrow> \<not> prec (c' m) p)"
    proof (rule less.hyps)
      show "nat (j' - i') < nat (j - i)" using up(3) down(3) False by simp
      show "\<not> prec p (c1 m)" if "l \<le> m" "m \<le> i'" for m
        using L [of m] down(5) False that by (cases "m = i'") (auto simp: c1_def)
      show "\<not> prec (c1 m) p" if "j' \<le> m" "m \<le> u" for m
        using R [of m] up(5) False that by (cases "m = j'") (auto simp: c1_def)
    qed (use less.prems s3 in_range up(3) False in auto)
    moreover have "perm_within (l + 1) (u - 2) c c1" unfolding c1_def by (rule perm_within_swap) (use in_range in auto)
    ultimately show ?thesis unfolding step using perm_within_trans by blast
  qed
qed

lemma split_at_splits:
  assumes h: "holds s c" and bounds: "lo \<le> l" "u \<le> hi" "l < i" "i < u - 1"
    and mid: "\<not> prec (c i) (c l)" "\<not> prec (c u) (c i)"
  shows "\<exists>k s' c'. split_at rd wr lt s l i u = Inr (k, s') \<and> holds s' c' \<and> perm_within l u c c' \<and> l < k \<and> k < u \<and>
    (\<forall>m. l \<le> m \<longrightarrow> m < k \<longrightarrow> \<not> prec (c' k) (c' m)) \<and> (\<forall>m. k < m \<longrightarrow> m \<le> u \<longrightarrow> \<not> prec (c' m) (c' k))"
proof -
  define p where "p = c i"
  define c1 where "c1 = c(i := c (u - 1), u - 1 := p)"
  have ok1: "ok p" "ok (c (u - 1))" unfolding p_def by (rule okay [OF h]; use bounds in simp)+
  have reads: "rd s i = Inr p" "rd s (u - 1) = Inr (c (u - 1))" unfolding p_def by (rule rd [OF h]; use bounds in simp)+
  from write_two [OF h, of i "u - 1" "c (u - 1)" p] ok1 bounds
  obtain s1 where s1: "rbind (wr s i (c (u - 1))) (\<lambda>s. wr s (u - 1) p) = Inr s1" "holds s1 c1" by (auto simp: c1_def)
  have p1: "perm_within l u c c1" unfolding c1_def p_def by (rule perm_within_swap) (use bounds in auto)
  have "\<exists>k s' c'. part_loop rd wr lt l u p s1 l (u - 1) = Inr (k, s') \<and> holds s' c' \<and> perm_within (l + 1) (u - 2) c1 c' \<and>
    l < k \<and> k < u \<and> (\<forall>m. l \<le> m \<longrightarrow> m < k \<longrightarrow> \<not> prec p (c' m)) \<and> (\<forall>m. k \<le> m \<longrightarrow> m \<le> u \<longrightarrow> \<not> prec (c' m) p)"
  proof (rule part_loop_meets [OF s1(2) ok1(1) bounds(1,2)])
    show "\<not> prec p (c1 m)" if "l \<le> m" "m \<le> l" for m using that mid bounds by (simp add: c1_def p_def)
    show "\<not> prec (c1 m) p" if "u - 1 \<le> m" "m \<le> u" for m
      using that mid bounds irrefl [OF ok1(1)] by (cases "m = u") (auto simp: c1_def p_def)
  qed (use bounds in auto)
  then obtain k s2 c2 where k: "part_loop rd wr lt l u p s1 l (u - 1) = Inr (k, s2)" "holds s2 c2"
    "perm_within (l + 1) (u - 2) c1 c2" "l < k" "k < u" "\<And>m. l \<le> m \<Longrightarrow> m < k \<Longrightarrow> \<not> prec p (c2 m)"
    "\<And>m. k \<le> m \<Longrightarrow> m \<le> u \<Longrightarrow> \<not> prec (c2 m) p" by blast
  have pivot: "c2 (u - 1) = p" using perm_within_outside [OF k(3), of "u - 1"] by (simp add: c1_def)
  define c3 where "c3 = c2(u - 1 := c2 k, k := p)"
  have reads2: "rd s2 (u - 1) = Inr p" "rd s2 k = Inr (c2 k)"
    unfolding pivot [symmetric] by (rule rd [OF k(2)]; use bounds k in simp)+
  have ok2: "ok (c2 k)" by (rule okay [OF k(2)]; use bounds k in simp)
  from write_two [OF k(2), of "u - 1" k "c2 k" p] ok1 ok2 bounds k(4,5)
  obtain s3 where s3: "rbind (wr s2 (u - 1) (c2 k)) (\<lambda>s. wr s k p) = Inr s3" "holds s3 c3" by (auto simp: c3_def)
  have "split_at rd wr lt s l i u = rbind (rbind (wr s i (c (u - 1))) (\<lambda>s. wr s (u - 1) p)) (\<lambda>s.
      rbind (part_loop rd wr lt l u p s l (u - 1)) (\<lambda>(i, s). rbind (rd s (u - 1)) (\<lambda>x. rbind (rd s i) (\<lambda>y.
      rbind (rbind (wr s (u - 1) y) (\<lambda>s. wr s i x)) (\<lambda>s. Inr (i, s))))))"
    using reads by (simp add: split_at_def rbind_assoc)
  then have run: "split_at rd wr lt s l i u = Inr (k, s3)" using s1(1) k(1) reads2 s3(1) by simp
  have "perm_within l u c2 c3"
    unfolding c3_def pivot [symmetric] by (rule perm_within_swap) (use bounds k in auto)
  moreover have "perm_within l u c1 c2" by (rule perm_within_mono [OF k(3)]) simp_all
  ultimately have "perm_within l u c c3" using perm_within_trans [OF p1] perm_within_trans by blast
  moreover have "\<not> prec (c3 k) (c3 m)" if "l \<le> m" "m < k" for m
    using k(6) [OF that] that k(5) by (auto simp: c3_def)
  moreover have "\<not> prec (c3 m) (c3 k)" if "k < m" "m \<le> u" for m
    using k(7) [of m] k(7) [of k] that k(5) by (cases "m = u - 1") (auto simp: c3_def)
  ultimately show ?thesis using run s3(2) k(4,5) by blast
qed

lemma order_ends_orders:
  assumes h: "holds s c" and bounds: "lo \<le> l" "u \<le> hi" "l < u"
  shows "\<exists>s' c'. order_ends rd wr lt s l u = Inr s' \<and> holds s' c' \<and> perm_within l u c c' \<and> \<not> prec (c' u) (c' l)"
proof -
  have reads: "rd s l = Inr (c l)" "rd s u = Inr (c u)" by (rule rd [OF h]; use bounds in simp)+
  have oks: "ok (c l)" "ok (c u)" by (rule okay [OF h]; use bounds in simp)+
  from lt [OF h oks(2,1)] obtain s1 where s1: "lt s (c u) (c l) = Inr (prec (c u) (c l), s1)" "holds s1 c" by blast
  show ?thesis
  proof (cases "prec (c u) (c l)")
    case True
    from write_two [OF s1(2), of l u "c u" "c l"] bounds oks
    obtain s2 where "rbind (wr s1 l (c u)) (\<lambda>s. wr s u (c l)) = Inr s2" "holds s2 (c(l := c u, u := c l))" by auto
    then show ?thesis using reads s1 True asym [OF oks(2,1)] bounds
      by (auto simp: order_ends_def intro!: exI [of _ "c(l := c u, u := c l)"] perm_within_swap)
  next
    case False
    then show ?thesis using reads s1 by (auto simp: order_ends_def intro!: exI [of _ c])
  qed
qed

lemma order_middle_orders:
  assumes h: "holds s c" and bounds: "lo \<le> l" "u \<le> hi" "l < i" "i < u" and ends: "\<not> prec (c u) (c l)"
  shows "\<exists>s' c'. order_middle rd wr lt s l i u = Inr s' \<and> holds s' c' \<and> perm_within l u c c' \<and>
    \<not> prec (c' i) (c' l) \<and> \<not> prec (c' u) (c' i)"
proof -
  have reads: "rd s l = Inr (c l)" "rd s i = Inr (c i)" by (rule rd [OF h]; use bounds in simp)+
  have oks: "ok (c l)" "ok (c i)" "ok (c u)" by (rule okay [OF h]; use bounds in simp)+
  from lt [OF h oks(2,1)] obtain s1 where s1: "lt s (c i) (c l) = Inr (prec (c i) (c l), s1)" "holds s1 c" by blast
  show ?thesis
  proof (cases "prec (c i) (c l)")
    case True
    from write_two [OF s1(2), of i l "c l" "c i"] bounds oks
    obtain s2 where "rbind (wr s1 i (c l)) (\<lambda>s. wr s l (c i)) = Inr s2" "holds s2 (c(i := c l, l := c i))" by auto
    then show ?thesis using reads s1 True asym [OF oks(2,1)] bounds ends
      by (auto simp: order_middle_def intro!: exI [of _ "c(i := c l, l := c i)"] perm_within_swap)
  next
    case False
    have read: "rd s1 u = Inr (c u)" by (rule rd [OF s1(2)]; use bounds in simp)
    from lt [OF s1(2) oks(3,2)] obtain s2 where s2: "lt s1 (c u) (c i) = Inr (prec (c u) (c i), s2)" "holds s2 c" by blast
    show ?thesis
    proof (cases "prec (c u) (c i)")
      case True
      from write_two [OF s2(2), of i u "c u" "c i"] bounds oks
      obtain s3 where "rbind (wr s2 i (c u)) (\<lambda>s. wr s u (c i)) = Inr s3" "holds s3 (c(i := c u, u := c i))" by auto
      then show ?thesis using reads read s1 s2 True False asym [OF oks(3,2)] bounds ends
        by (auto simp: order_middle_def intro!: exI [of _ "c(i := c u, u := c i)"] perm_within_swap)
    next
      case F: False
      then show ?thesis using reads read s1 s2 False by (auto simp: order_middle_def intro!: exI [of _ c])
    qed
  qed
qed

definition sorted_within :: "int \<Rightarrow> int \<Rightarrow> (int \<Rightarrow> 'v) \<Rightarrow> bool" where
  "sorted_within l u c \<longleftrightarrow> (\<forall>m n. l \<le> m \<longrightarrow> m < n \<longrightarrow> n \<le> u \<longrightarrow> \<not> prec (c n) (c m))"

lemma sorted_join:
  assumes left: "sorted_within l (k - 1) c" and right: "sorted_within (k + 1) u c"
    and oks: "\<And>m. l \<le> m \<Longrightarrow> m \<le> u \<Longrightarrow> ok (c m)" and k: "l \<le> k" "k \<le> u"
    and left_k: "\<And>m. l \<le> m \<Longrightarrow> m < k \<Longrightarrow> \<not> prec (c k) (c m)"
    and right_k: "\<And>m. k < m \<Longrightarrow> m \<le> u \<Longrightarrow> \<not> prec (c m) (c k)"
  shows "sorted_within l u c"
  unfolding sorted_within_def
proof (intro allI impI)
  fix m n assume mn: "l \<le> m" "m < n" "n \<le> u"
  consider "n < k" | "n = k" | "m = k" | "m < k" "k < n" | "k < m" using mn by linarith
  then show "\<not> prec (c n) (c m)"
  proof cases
    case 4
    then show ?thesis using le_trans [of "c m" "c k" "c n"] oks left_k right_k mn k by simp
  qed (use mn left right left_k right_k in \<open>auto simp: sorted_within_def\<close>)
qed

text \<open>Sorting the two parts around the place \<open>k\<close> of the pivot, in any order.\<close>

lemma sort_parts:
  assumes parts: "perm_within l (k - 1) c c1 \<and> perm_within (k + 1) u c1 c2 \<or> perm_within (k + 1) u c c1 \<and> perm_within l (k - 1) c1 c2"
    and sorted: "sorted_within l (k - 1) c2" "sorted_within (k + 1) u c2" and h: "holds s c2"
    and bounds: "lo \<le> l" "u \<le> hi" "l < k" "k < u"
    and left_k: "\<And>m. l \<le> m \<Longrightarrow> m < k \<Longrightarrow> \<not> prec (c k) (c m)"
    and right_k: "\<And>m. k < m \<Longrightarrow> m \<le> u \<Longrightarrow> \<not> prec (c m) (c k)"
  shows "perm_within l u c c2 \<and> sorted_within l u c2"
proof
  have "perm_within l u c c1 \<and> perm_within l u c1 c2"
    using parts bounds perm_within_mono [of l "k - 1" _ _ l u] perm_within_mono [of "k + 1" u _ _ l u] by auto
  then show "perm_within l u c c2" using perm_within_trans by blast
  have k: "c2 k = c k" using parts by (auto simp: perm_within_def)
  have left: "\<not> prec (c k) (c2 m)" if m: "l \<le> m" "m < k" for m
    using parts
  proof (elim disjE conjE)
    assume p: "perm_within l (k - 1) c c1" "perm_within (k + 1) u c1 c2"
    have "\<not> prec (c k) (c1 m)" by (rule perm_within_all [OF p(1)]) (use left_k m in auto)
    then show ?thesis using perm_within_outside [OF p(2), of m] m by simp
  next
    assume p: "perm_within (k + 1) u c c1" "perm_within l (k - 1) c1 c2"
    show ?thesis by (rule perm_within_all [OF p(2)]) (use left_k m perm_within_outside [OF p(1)] in auto)
  qed
  have right: "\<not> prec (c2 m) (c k)" if m: "k < m" "m \<le> u" for m
    using parts
  proof (elim disjE conjE)
    assume p: "perm_within (k + 1) u c c1" "perm_within l (k - 1) c1 c2"
    have "\<not> prec (c1 m) (c k)" by (rule perm_within_all [OF p(1)]) (use right_k m in auto)
    then show ?thesis using perm_within_outside [OF p(2), of m] m by simp
  next
    assume p: "perm_within l (k - 1) c c1" "perm_within (k + 1) u c1 c2"
    show ?thesis by (rule perm_within_all [OF p(2)]) (use right_k m perm_within_outside [OF p(1)] in auto)
  qed
  show "sorted_within l u c2"
    by (rule sorted_join [OF sorted okay [OF h]]) (use bounds k left right in auto)
qed

lemma auxsort_sorts:
  assumes "holds s c" "lo \<le> l" "u \<le> hi" "nat (u - l) < f"
  shows "\<exists>s' c'. auxsort f rd wr lt s l u = Inr s' \<and> holds s' c' \<and> perm_within l u c c' \<and> sorted_within l u c'"
  using assms
proof (induction f arbitrary: s c l u)
  case (Suc f)
  show ?case
  proof (cases "l < u")
    case False
    then show ?thesis using Suc.prems(1) by (auto simp: sorted_within_def intro!: exI [of _ s] exI [of _ c])
  next
    case True
    obtain s1 c1 where s1: "order_ends rd wr lt s l u = Inr s1" "holds s1 c1" "perm_within l u c c1" "\<not> prec (c1 u) (c1 l)"
      using order_ends_orders [OF Suc.prems(1-3) True] by blast
    show ?thesis
    proof (cases "u - l = 1")
      case one: True
      then have "m = l \<and> n = u" if "l \<le> m" "m < n" "n \<le> u" for m n using that by linarith
      then have "sorted_within l u c1" using s1(4) unfolding sorted_within_def by blast
      then show ?thesis using s1 one True by auto
    next
      case False
      define i where "i = (l + u) div 2"
      have i: "l < i" "i < u" and no: "\<not> 2 ^ 31 \<le> l + u" using True False Suc.prems(3) small [OF Suc.prems(1)] by (auto simp: i_def)
      obtain s2 c2 where s2: "order_middle rd wr lt s1 l i u = Inr s2" "holds s2 c2" "perm_within l u c1 c2"
        "\<not> prec (c2 i) (c2 l)" "\<not> prec (c2 u) (c2 i)"
        using order_middle_orders [OF s1(2) Suc.prems(2,3) i s1(4)] by blast
      have p2: "perm_within l u c c2" using perm_within_trans [OF s1(3) s2(3)] .
      show ?thesis
      proof (cases "u - l = 2")
        case two: True
        then have iu: "i = l + 1" "u = l + 2" using i by simp_all
        have "sorted_within l u c2"
        proof (rule sorted_join [of l i])
          show "\<And>m. l \<le> m \<Longrightarrow> m < i \<Longrightarrow> \<not> prec (c2 i) (c2 m)" using s2(4) iu(1) by (metis order_antisym zle_add1_eq_le)
          show "\<And>m. i < m \<Longrightarrow> m \<le> u \<Longrightarrow> \<not> prec (c2 m) (c2 i)"
            using s2(5) iu by (metis add.assoc one_add_one order_antisym zless_imp_add1_zle)
          show "\<And>m. l \<le> m \<Longrightarrow> m \<le> u \<Longrightarrow> ok (c2 m)" using okay [OF s2(2)] Suc.prems(2,3) by simp
        qed (use iu in \<open>auto simp: sorted_within_def\<close>)
        then show ?thesis using s1(1) s2 p2 two True no by (auto simp: i_def [symmetric])
      next
        case three: False
        then have "i < u - 1" using True False by (simp add: i_def)
        from split_at_splits [OF s2(2) Suc.prems(2,3) i(1) this s2(4,5)]
        obtain k s3 c3 where s3: "split_at rd wr lt s2 l i u = Inr (k, s3)" "holds s3 c3" "perm_within l u c2 c3"
          "l < k" "k < u" "\<And>m. l \<le> m \<Longrightarrow> m < k \<Longrightarrow> \<not> prec (c3 k) (c3 m)"
          "\<And>m. k < m \<Longrightarrow> m \<le> u \<Longrightarrow> \<not> prec (c3 m) (c3 k)" by blast
        have p3: "perm_within l u c c3" using perm_within_trans [OF p2 s3(3)] .
        have loop: "auxsort (Suc f) rd wr lt s l u =
            (if k - l < u - k
             then rbind (auxsort f rd wr lt s3 l (k - 1)) (\<lambda>s. auxsort f rd wr lt s (k + 1) u)
             else rbind (auxsort f rd wr lt s3 (k + 1) u) (\<lambda>s. auxsort f rd wr lt s l (k - 1)))"
          using s1(1) s2(1) s3(1) True False three no by (simp add: i_def [symmetric])
        have fuel: "nat (k - 1 - l) < f" "nat (u - (k + 1)) < f" "lo \<le> k + 1" "k - 1 \<le> hi"
          using s3(4,5) Suc.prems(2-4) by simp_all
        note sub = Suc.IH [OF _ Suc.prems(2) fuel(4,1)] Suc.IH [OF _ fuel(3) Suc.prems(3) fuel(2)]
        show ?thesis
        proof (cases "k - l < u - k")
          case True
          from sub(1) [OF s3(2)] obtain s4 c4 where s4: "auxsort f rd wr lt s3 l (k - 1) = Inr s4" "holds s4 c4"
            "perm_within l (k - 1) c3 c4" "sorted_within l (k - 1) c4" by blast
          from sub(2) [OF s4(2)] obtain s5 c5 where s5: "auxsort f rd wr lt s4 (k + 1) u = Inr s5" "holds s5 c5"
            "perm_within (k + 1) u c4 c5" "sorted_within (k + 1) u c5" by blast
          have "sorted_within l (k - 1) c5"
            using s4(4) perm_within_outside [OF s5(3)] by (simp add: sorted_within_def)
          then have "perm_within l u c3 c5 \<and> sorted_within l u c5"
            by (intro sort_parts [where c = c3 and ?c1.0 = c4 and k = k and s = s5]) (use s4(3) s5 s3 Suc.prems in auto)
          then show ?thesis using loop True s4(1) s5(1,2) perm_within_trans [OF p3] by auto
        next
          case False
          from sub(2) [OF s3(2)] obtain s4 c4 where s4: "auxsort f rd wr lt s3 (k + 1) u = Inr s4" "holds s4 c4"
            "perm_within (k + 1) u c3 c4" "sorted_within (k + 1) u c4" by blast
          from sub(1) [OF s4(2)] obtain s5 c5 where s5: "auxsort f rd wr lt s4 l (k - 1) = Inr s5" "holds s5 c5"
            "perm_within l (k - 1) c4 c5" "sorted_within l (k - 1) c5" by blast
          have "sorted_within (k + 1) u c5"
            using s4(4) perm_within_outside [OF s5(3)] by (simp add: sorted_within_def)
          then have "perm_within l u c3 c5 \<and> sorted_within l u c5"
            by (intro sort_parts [where c = c3 and ?c1.0 = c4 and k = k and s = s5]) (use s4(3) s5 s3 Suc.prems in auto)
          then show ?thesis using loop False s4(1) s5(1,2) perm_within_trans [OF p3] by auto
        qed
      qed
    qed
  qed
qed simp

end

section \<open>Tables as arrays\<close>

lemma getnum_num:
  assumes wf: "wf_table t" and i: "0 \<le> i" "i < 2 ^ 31"
  shows "luaH_getnum t (of_int i) = Inr (lookup_slot t (num (nat i)))"
proof -
  have "sint (of_int i :: u32) = i" using sint_of_nat_small [of "nat i", where 'a = 32] i by simp
  then show ?thesis using getnum_lookup [OF wf, of "of_int i"] i by (simp add: num_def)
qed

lemma setnum_num:
  assumes wf: "wf_table t" and i: "0 \<le> i" "i < 2 ^ 31"
  shows "setnum_with nk t (of_int i) =
    (case lookup_slot t (num (nat i)) of Some s \<Rightarrow> Inr (t, s) | None \<Rightarrow> nk t (num (nat i)))"
proof -
  have "sint (of_int i :: u32) = i" using sint_of_nat_small [of "nat i", where 'a = 32] i by simp
  then have "TNumber (int_to_double (sint (of_int i :: u32))) = num (nat i)" using i by (simp add: num_def)
  then show ?thesis
    using setnum_with_found [OF wf, of "of_int i"] setnum_with_new [OF wf, of "of_int i"] by (cases "lookup_slot t (num (nat i))") simp_all
qed

lemma lookup_slot_num_inj:
  assumes "lookup_slot t (num i) = Some s" "lookup_slot t (num j) = Some s" and "0 < i" "i < 2 ^ 31" "j < 2 ^ 31"
  shows "i = j"
proof -
  have "luaO_rawequalObj (slot_key t s) (num i)" "luaO_rawequalObj (slot_key t s) (num j)"
    using assms(1,2) lookup_slot_Some by blast+
  then have "luaO_rawequalObj (num i) (num j)" using rawequal_sym rawequal_trans by blast
  then show ?thesis using rawequal_num [OF assms(3,4)] num_inj [OF assms(4,5)] by simp
qed

text \<open>\<open>table_holds a ok n w c\<close>: the table at \<open>a\<close> has the elements \<open>c 1\<close> to \<open>c n\<close>, in places of its own.\<close>

definition table_holds :: "addr \<Rightarrow> (TValue \<Rightarrow> bool) \<Rightarrow> int \<Rightarrow> world \<Rightarrow> (int \<Rightarrow> TValue) \<Rightarrow> bool" where
  "table_holds a ok n w c \<longleftrightarrow> n < 2 ^ 30 \<and> (\<exists>t. tables w a = Some t \<and> wf_table t \<and>
     (\<forall>i. 1 \<le> i \<longrightarrow> i \<le> n \<longrightarrow> lookup_slot t (num (nat i)) \<noteq> None \<and> lookup t (num (nat i)) = c i \<and> ok (c i)))"

lemma table_holds_rd:
  assumes "table_holds a ok n w c" and i: "1 \<le> i" "i \<le> n"
  shows "lua_rawgeti a w i = Inr (c i)"
  using assms(1) i by (auto simp: table_holds_def lua_rawgeti_def deref_def getnum_num lookup_def)

lemma table_holds_wr:
  assumes "table_holds a ok n w c" and i: "1 \<le> i" "i \<le> n" and v: "ok v"
  shows "\<exists>w'. lua_rawseti a w i v = Inr w' \<and> table_holds a ok n w' (c(i := v))"
proof -
  obtain t where t: "tables w a = Some t" "wf_table t" and n: "n < 2 ^ 30"
    and el: "\<And>j. 1 \<le> j \<Longrightarrow> j \<le> n \<Longrightarrow> lookup_slot t (num (nat j)) \<noteq> None \<and> lookup t (num (nat j)) = c j \<and> ok (c j)"
    using assms(1) by (auto simp: table_holds_def)
  from el [OF i] obtain s where s: "lookup_slot t (num (nat i)) = Some s" by blast
  then have sl: "s \<in> set (slots t)" using lookup_slot_Some by blast
  let ?t = "setobj2t t s v"
  have set: "luaH_setnum t (of_int i) = Inr (t, s)"
    using setnum_num [OF t(2), of i] s i n by (simp add: luaH_setnum_def)
  have wf: "wf_table ?t" by (rule setobj_wf [OF t(2) sl])
  have same: "lookup_slot ?t k = lookup_slot t k" for k
    by (simp add: lookup_slot_def setobj_slots [OF sl])
  have "lookup_slot ?t (num (nat j)) \<noteq> None \<and> lookup ?t (num (nat j)) = (c(i := v)) j \<and> ok ((c(i := v)) j)"
    if j: "1 \<le> j" "j \<le> n" for j
  proof (cases "j = i")
    case True
    then show ?thesis using s v by (simp add: same setobj_lookup [OF sl])
  next
    case False
    moreover have "0 < nat i" "nat i < 2 ^ 31" "nat j < 2 ^ 31" using i j n by simp_all
    ultimately have "lookup_slot t (num (nat j)) \<noteq> Some s"
      using lookup_slot_num_inj [OF s, of "nat j"] i j by auto
    then show ?thesis using False el [OF j] by (simp add: same setobj_lookup [OF sl])
  qed
  then have "table_holds a ok n (w\<lparr>tables := (tables w)(a \<mapsto> ?t)\<rparr>) (c(i := v))"
    using wf n by (simp add: table_holds_def)
  then show ?thesis using t(1) set by (simp add: lua_rawseti_def deref_def)
qed

text \<open>
  A comparison (the operator \<open><\<close> or a function \<open>f\<close>) that decides a strict weak order on the values that
  satisfy \<open>ok\<close> and leaves the table at \<open>a\<close> alone.
\<close>

definition orders :: "(bytes \<Rightarrow> bytes \<Rightarrow> int) \<Rightarrow> caller \<Rightarrow> TValue \<Rightarrow> addr \<Rightarrow> (TValue \<Rightarrow> bool) \<Rightarrow>
    (TValue \<Rightarrow> TValue \<Rightarrow> bool) \<Rightarrow> bool" where
  "orders strcoll call f a ok prec \<longleftrightarrow>
     (\<forall>w x y. ok x \<longrightarrow> ok y \<longrightarrow> (\<exists>w'. sort_comp strcoll call f w x y = Inr (prec x y, w') \<and> tables w' a = tables w a)) \<and>
     (\<forall>x y. ok x \<longrightarrow> ok y \<longrightarrow> prec x y \<longrightarrow> \<not> prec y x) \<and>
     (\<forall>x y z. ok x \<longrightarrow> ok y \<longrightarrow> ok z \<longrightarrow> prec x z \<longrightarrow> prec x y \<or> prec y z)"

locale table_order =
  fixes strcoll :: "bytes \<Rightarrow> bytes \<Rightarrow> int" and call :: caller and f :: TValue and a :: addr
    and ok :: "TValue \<Rightarrow> bool" and prec :: "TValue \<Rightarrow> TValue \<Rightarrow> bool" and n :: int
  assumes orders: "orders strcoll call f a ok prec"

sublocale table_order \<subseteq> sortable "lua_rawgeti a" "lua_rawseti a" "sort_comp strcoll call f"
  "table_holds a ok n" 1 n ok prec
proof
  show "n < 2 ^ 30" if "table_holds a ok n s c" for s c
    using that by (simp add: table_holds_def)
  show "lua_rawgeti a s i = Inr (c i)" if "table_holds a ok n s c" "1 \<le> i" "i \<le> n" for s c i
    by (rule table_holds_rd [OF that])
  show "\<exists>s'. lua_rawseti a s i v = Inr s' \<and> table_holds a ok n s' (c(i := v))"
    if "table_holds a ok n s c" "1 \<le> i" "i \<le> n" "ok v" for s c i v
    by (rule table_holds_wr [OF that])
  show "\<exists>s'. sort_comp strcoll call f s x y = Inr (prec x y, s') \<and> table_holds a ok n s' c"
    if h: "table_holds a ok n s c" and "ok x" "ok y" for s c x y
  proof -
    from orders that(2,3) obtain w' where "sort_comp strcoll call f s x y = Inr (prec x y, w')" "tables w' a = tables s a"
      unfolding orders_def by blast
    then show ?thesis using h by (auto simp: table_holds_def)
  qed
  show "ok (c i)" if "table_holds a ok n s c" "1 \<le> i" "i \<le> n" for s c i
    using that by (auto simp: table_holds_def)
  show "\<not> prec y x" if "ok x" "ok y" "prec x y" for x y
    using that orders unfolding orders_def by blast
  show "prec x y \<or> prec y z" if "ok x" "ok y" "ok z" "prec x z" for x y z
    using that orders unfolding orders_def by blast
qed

context table_order
begin

lemma table_sorts:
  assumes "table_holds a ok n w c"
  shows "\<exists>w' c'. auxsort (Suc (nat n)) (lua_rawgeti a) (lua_rawseti a) (sort_comp strcoll call f) w 1 n = Inr w' \<and>
    table_holds a ok n w' c' \<and> perm_within 1 n c c' \<and>
    (\<forall>i j. 1 \<le> i \<longrightarrow> i < j \<longrightarrow> j \<le> n \<longrightarrow> \<not> prec (c' j) (c' i))"
  using auxsort_sorts [OF assms, of 1 n "Suc (nat n)"] by (auto simp: sorted_within_def simp del: auxsort.simps)

end

text \<open>The operator \<open><\<close> on numbers that are not NaN, and on strings with the C locale's \<open>strcoll\<close>.\<close>

definition ordinary :: "TValue \<Rightarrow> bool" where
  "ordinary v \<longleftrightarrow> (case v of TNumber d \<Rightarrow> \<not> dbl_nan d | _ \<Rightarrow> False)"

definition number_less :: "TValue \<Rightarrow> TValue \<Rightarrow> bool" where
  "number_less x y \<longleftrightarrow> (case (x, y) of (TNumber d, TNumber e) \<Rightarrow> dbl_lt d e | _ \<Rightarrow> False)"

lemma numbers_order: "orders strcoll call TNil a ordinary number_less"
  unfolding orders_def ordinary_def number_less_def sort_comp_def luaV_lessthan_def
  by (auto split: TValue.splits dest: dbl_lt_simps)

definition is_string :: "TValue \<Rightarrow> bool" where
  "is_string v \<longleftrightarrow> (case v of TString s \<Rightarrow> True | _ \<Rightarrow> False)"

definition string_less :: "TValue \<Rightarrow> TValue \<Rightarrow> bool" where
  "string_less x y \<longleftrightarrow> (case (x, y) of (TString s, TString r) \<Rightarrow> lexcmp s r < 0 | _ \<Rightarrow> False)"

lemma lexcmp_weak: "lexcmp a d < 0 \<Longrightarrow> lexcmp a b < 0 \<or> lexcmp b d < 0"
  using lexcmp_trans [of a d b] lexcmp_swap [of a b] lexcmp_cases [of a b] lexcmp_cases [of b d] lexcmp_0 [of a b]
    lexcmp_swap [of b d] lexcmp_0 [of b d] by fastforce

lemma strings_order: "orders lexcmp call TNil a is_string string_less"
  unfolding orders_def is_string_def string_less_def sort_comp_def luaV_lessthan_def
  by (auto split: TValue.splits simp: l_strcmp_C dest: lexcmp_weak) (metis lexcmp_swap neg_less_0_iff_less order_less_asym)

interpretation numbers: table_order strcoll call TNil a ordinary number_less n for strcoll call a n
  by unfold_locales (rule numbers_order)

interpretation strings: table_order lexcmp call TNil a is_string string_less n for call a n
  by unfold_locales (rule strings_order)

section \<open>The library function\<close>

definition elements :: "Table \<Rightarrow> nat \<Rightarrow> TValue list" where
  "elements t n = map (\<lambda>i. lookup t (num i)) [1..<Suc n]"

lemma elements_holds:
  assumes "tables w a = Some t" and "wf_table t" and "n < 2 ^ 30" and el: "\<And>x. x \<in> set (elements t n) \<Longrightarrow> ok x \<and> x \<noteq> TNil"
  shows "table_holds a ok (int n) w (\<lambda>i. lookup t (num (nat i)))"
proof -
  have "ok (lookup t (num (nat i))) \<and> lookup t (num (nat i)) \<noteq> TNil" if "1 \<le> i" "i \<le> int n" for i
  proof (rule el)
    have "nat i \<in> set [1..<Suc n]" using that by auto
    then show "lookup t (num (nat i)) \<in> set (elements t n)" unfolding elements_def set_map by (rule imageI)
  qed
  moreover have "lookup_slot t k \<noteq> None" if "lookup t k \<noteq> TNil" for k
    using that by (auto simp: lookup_def value_at_def split: option.splits)
  ultimately show ?thesis using assms(1-3) by (simp add: table_holds_def)
qed

lemma mset_elements: "mset (elements t n) = image_mset (\<lambda>i. lookup t (num (nat i))) (mset_set {1..int n})"
proof -
  have "mset_set {1..int n} = image_mset int (mset_set {1..n})"
    by (simp add: image_mset_mset_set image_int_atLeastAtMost)
  then show ?thesis
    by (simp add: elements_def image_mset.compositionality o_def atLeastLessThanSuc_atLeastAtMost del: upt_Suc)
qed

lemma sort_run:
  assumes sort: "\<exists>w' c'. auxsort (Suc n) (lua_rawgeti a) (lua_rawseti a) (sort_comp strcoll call f) w 1 (int n) = Inr w' \<and>
      table_holds a ok (int n) w' c' \<and> perm_within 1 (int n) (\<lambda>i. lookup t (num (nat i))) c' \<and>
      (\<forall>i j. 1 \<le> i \<longrightarrow> i < j \<longrightarrow> j \<le> int n \<longrightarrow> \<not> prec (c' j) (c' i))"
    and t: "tables w a = Some t" "luaH_getn t = Inr n" and f: "f = TNil \<or> isfunction f"
  shows "\<exists>w' t'. sort_table (Suc n) strcoll call w [TTable a, f] = Inr w' \<and> tables w' a = Some t' \<and> wf_table t' \<and>
    mset (elements t' n) = mset (elements t n) \<and> sorted_wrt (\<lambda>x y. \<not> prec y x) (elements t' n)"
proof -
  from sort obtain w' c' where s: "auxsort (Suc n) (lua_rawgeti a) (lua_rawseti a) (sort_comp strcoll call f) w 1 (int n) = Inr w'"
    "table_holds a ok (int n) w' c'" "perm_within 1 (int n) (\<lambda>i. lookup t (num (nat i))) c'"
    "\<And>i j. 1 \<le> i \<Longrightarrow> i < j \<Longrightarrow> j \<le> int n \<Longrightarrow> \<not> prec (c' j) (c' i)" by blast
  then obtain t' where t': "tables w' a = Some t'" "wf_table t'"
    and el: "\<And>i. 1 \<le> i \<Longrightarrow> i \<le> int n \<Longrightarrow> lookup t' (num (nat i)) = c' i" by (auto simp: table_holds_def)
  have run: "sort_table (Suc n) strcoll call w [TTable a, f] = Inr w'"
    using s(1) t f by (auto simp: sort_table_def aux_getn_def arg_def deref_def)
  have "image_mset (\<lambda>i. lookup t' (num (nat i))) (mset_set {1..int n}) = image_mset c' (mset_set {1..int n})"
    by (rule image_mset_cong) (use el in auto)
  then have "mset (elements t' n) = mset (elements t n)" using s(3) by (simp add: mset_elements perm_within_def)
  moreover have "sorted_wrt (\<lambda>x y. \<not> prec y x) (elements t' n)"
    unfolding sorted_wrt_iff_nth_less
  proof (intro allI impI)
    fix i j assume ij: "i < j" "j < length (elements t' n)"
    then have "elements t' n ! i = c' (int i + 1)" "elements t' n ! j = c' (int j + 1)"
      using el [of "int i + 1"] el [of "int j + 1"] by (simp_all add: elements_def nat_add_distrib del: upt_Suc)
    then show "\<not> prec (elements t' n ! j) (elements t' n ! i)" 
      using s(4) [of "int i + 1" "int j + 1"] ij by (simp add: elements_def del: upt_Suc)
  qed
  ultimately show ?thesis using run t' by blast
qed


text \<open>The array 2, 1.\<close>

definition two_one :: Table where
  "two_one = empty_table\<lparr>array := [TNumber 0x4000000000000000, TNumber 0x3FF0000000000000]\<rparr>"

lemma two_one_eval: "two_one = \<lparr>flags = - 1, lsizenode = 0, metatable = None,
    array = [TNumber 0x4000000000000000, TNumber 0x3FF0000000000000], node = None, lastfree = 0\<rparr>"
  by (simp add: two_one_def empty_table_eval)

lemma two_one_wf: "wf_table two_one"
proof -
  have "mainposition two_one = mainposition empty_table" by (rule mainposition_size) (simp add: two_one_def)
  moreover have "in_array two_one = in_array empty_table"
    by (rule ext) (simp add: in_array_def two_one_def empty_table_eval)
  ultimately show ?thesis using empty_table_wf
    by (simp add: wf_table_def two_one_def sizenode_def gnodes_def empty_table_eval)
qed

lemma two_one_elements: "elements two_one 2 = [TNumber 0x4000000000000000, TNumber 0x3FF0000000000000]"
  using lookup_array [OF two_one_wf, of 0] lookup_array [OF two_one_wf, of 1]
  by (simp add: elements_def two_one_eval numeral_2_eq_2)

lemma two_one_getn: "luaH_getn two_one = Inr 2"
  by (simp add: luaH_getn_def two_one_eval)


text \<open>
  Without a function, \<open>table.sort\<close> puts numbers (none of them NaN) in ascending order, and, in the C locale, strings
  in the lexicographic order of their bytes.
\<close>

theorem sort_table_default:
  assumes t: "tables w a = Some t" "wf_table t" "luaH_getn t = Inr n" "n < 2 ^ 30"
    and el: "(\<forall>x \<in> set (elements t n). ordinary x) \<or> (\<forall>x \<in> set (elements t n). is_string x)"
  shows "\<exists>w' t'. sort_table (Suc n) lexcmp call w [TTable a, TNil] = Inr w' \<and> tables w' a = Some t' \<and>
    mset (elements t' n) = mset (elements t n) \<and>
    (sorted_wrt (\<lambda>x y. \<not> number_less y x) (elements t' n) \<and> (\<forall>x \<in> set (elements t' n). ordinary x) \<or>
     sorted_wrt (\<lambda>x y. \<not> string_less y x) (elements t' n) \<and> (\<forall>x \<in> set (elements t' n). is_string x))"
  using el
proof
  assume o: "\<forall>x \<in> set (elements t n). ordinary x"
  then have "table_holds a ordinary (int n) w (\<lambda>i. lookup t (num (nat i)))"
    by (intro elements_holds [OF t(1,2,4)]) (auto simp: ordinary_def)
  from sort_run [OF numbers.table_sorts [OF this, of lexcmp call, unfolded nat_int] t(1,3)]
  show ?thesis using o by (metis set_mset_mset)
next
  assume o: "\<forall>x \<in> set (elements t n). is_string x"
  then have "table_holds a is_string (int n) w (\<lambda>i. lookup t (num (nat i)))"
    by (intro elements_holds [OF t(1,2,4)]) (auto simp: is_string_def)
  from sort_run [OF strings.table_sorts [OF this, of call, unfolded nat_int] t(1,3)]
  show ?thesis using o by (metis set_mset_mset)
qed

theorem sort_table_default_witness:
  "\<exists>w' t'. sort_table 3 lexcmp no_call (two_tables\<lparr>tables := [1 \<mapsto> two_one]\<rparr>) [TTable 1, TNil] = Inr w' \<and>
    tables w' 1 = Some t' \<and> mset (elements t' 2) = {#TNumber 0x3FF0000000000000, TNumber 0x4000000000000000#}"
proof -
  let ?w = "two_tables\<lparr>tables := [1 \<mapsto> two_one]\<rparr>"
  have w: "tables ?w 1 = Some two_one" and n: "(2::nat) < 2 ^ 30" by simp_all
  have "\<forall>x \<in> set (elements two_one 2). ordinary x"
    by (simp add: two_one_elements ordinary_def dbl_nan_def dbl_exp_def dbl_frac_def)
  then have el: "(\<forall>x \<in> set (elements two_one 2). ordinary x) \<or> (\<forall>x \<in> set (elements two_one 2). is_string x)" ..
  have three: "Suc 2 = 3" by simp
  from sort_table_default [OF w two_one_wf two_one_getn n el, of no_call, unfolded three]
  obtain w' t' where "sort_table 3 lexcmp no_call ?w [TTable 1, TNil] = Inr w'" "tables w' 1 = Some t'"
    "mset (elements t' 2) = mset (elements two_one 2)" by blast
  then show ?thesis by (auto simp: two_one_elements add_mset_commute)
qed

end
