(* ===== verification/LuaCode.thy ===== *)
theory LuaCode
  imports LuaVm LuaDebug "HOL-Library.Signed_Division"
begin

text \<open>
  The code generator of Lua (lcode.c): lists of jumps threaded through their own instructions, registers, constants and the
  code of expressions. The arrays of a prototype hold what is in use of them, so that \<open>fs->pc\<close> and
  \<open>fs->nk\<close> are lengths. A list of jumps that runs in a circle is never left: the loops over lists have
  fuel, one unit more than there are instructions. Assertions about the modes of the opcodes are left out.
\<close>

section \<open>State\<close>

text \<open>\<open>fs_haddr\<close> is the address of the table of constants, which stands for nil as a key.\<close>

record FuncState =
  fs_code :: "Instruction list"
  fs_lineinfo :: "u32 list"
  fs_k :: "TValue list"
  fs_maxstacksize :: int
  fs_h :: Table
  fs_haddr :: addr
  fs_lastline :: u32
  fs_lasttarget :: int
  fs_jpc :: int
  fs_freereg :: int
  fs_nactvar :: int

definition fs_pc :: "FuncState \<Rightarrow> int" where "fs_pc fs = int (length (fs_code fs))"

text \<open>A function as \<open>open_func\<close> starts it, at the address of its table of constants.\<close>

definition open_func :: "addr \<Rightarrow> u32 \<Rightarrow> FuncState result" where
  "open_func a line =
     rbind (luaH_new 0 0) (\<lambda>h.
       Inr \<lparr>fs_code = [], fs_lineinfo = [], fs_k = [], fs_maxstacksize = 2, fs_h = h, fs_haddr = a, fs_lastline = line,
         fs_lasttarget = - 1, fs_jpc = - 1, fs_freereg = 0, fs_nactvar = 0\<rparr>)"

datatype expkind = VVOID | VNIL | VTRUE | VFALSE | VK | VKNUM | VLOCAL | VUPVAL | VGLOBAL | VINDEXED | VJMP
  | VRELOCABLE | VNONRELOC | VCALL | VVARARG

text \<open>The members of the union are fields of their own: none is read as another.\<close>

record expdesc =
  e_k :: expkind
  e_info :: int
  e_aux :: int
  e_nval :: double
  e_t :: int
  e_f :: int

definition NO_JUMP :: int where "NO_JUMP = - 1"

definition hasjumps :: "expdesc \<Rightarrow> bool" where "hasjumps e \<longleftrightarrow> e_t e \<noteq> e_f e"

definition isnumeral :: "expdesc \<Rightarrow> bool" where
  "isnumeral e \<longleftrightarrow> e_k e = VKNUM \<and> e_t e = NO_JUMP \<and> e_f e = NO_JUMP"

definition instr :: "FuncState \<Rightarrow> int \<Rightarrow> Instruction result" where
  "instr fs pc = at (fs_code fs) pc"

definition set_instr :: "FuncState \<Rightarrow> int \<Rightarrow> Instruction \<Rightarrow> FuncState result" where
  "set_instr fs pc i = rbind (instr fs pc) (\<lambda>_. Inr (fs\<lparr>fs_code := (fs_code fs)[nat pc := i]\<rparr>))"

definition change :: "(Instruction \<Rightarrow> Instruction) \<Rightarrow> FuncState \<Rightarrow> int \<Rightarrow> FuncState result" where
  "change g fs pc = rbind (instr fs pc) (\<lambda>i. set_instr fs pc (g i))"

definition assert_that :: "bool \<Rightarrow> unit result" where
  "assert_that b = (if b then Inr () else Inl AssertFailed)"

section \<open>Lists of jumps\<close>

definition fixjump :: "FuncState \<Rightarrow> int \<Rightarrow> int \<Rightarrow> FuncState result" where
  "fixjump fs pc dest =
     rbind (assert_that (dest \<noteq> NO_JUMP)) (\<lambda>_.
     let offset = dest - (pc + 1) in
     if abs offset > sint MAXARG_sBx then Inl (LuaError ''control structure too long'')
     else change (\<lambda>i. SETARG_sBx i (of_int offset)) fs pc)"

definition luaK_getlabel :: "FuncState \<Rightarrow> int \<times> FuncState" where
  "luaK_getlabel fs = (fs_pc fs, fs\<lparr>fs_lasttarget := fs_pc fs\<rparr>)"

definition getjump :: "FuncState \<Rightarrow> int \<Rightarrow> int result" where
  "getjump fs pc = rbind (instr fs pc) (\<lambda>i.
     let offset = sint (GETARG_sBx i) in Inr (if offset = NO_JUMP then NO_JUMP else pc + 1 + offset))"

text \<open>The position of the instruction that controls a jump: the test before it, if there is one.\<close>

definition is_test :: "Instruction \<Rightarrow> bool result" where
  "is_test i = (case opcode_of (GET_OPCODE i) of Some op \<Rightarrow> Inr (testTMode op) | None \<Rightarrow> Inl InvalidPointer)"

definition getjumpcontrol :: "FuncState \<Rightarrow> int \<Rightarrow> int result" where
  "getjumpcontrol fs pc =
     (if pc \<ge> 1 then rbind (instr fs (pc - 1)) (\<lambda>i. rbind (is_test i) (\<lambda>b. Inr (if b then pc - 1 else pc)))
      else Inr pc)"

fun need_value_loop :: "nat \<Rightarrow> FuncState \<Rightarrow> int \<Rightarrow> bool result" where
  "need_value_loop 0 fs list = Inl OutOfFuel"
| "need_value_loop (Suc n) fs list =
     (if list = NO_JUMP then Inr False
      else rbind (getjumpcontrol fs list) (\<lambda>q. rbind (instr fs q) (\<lambda>i.
        if \<not> is_op OP_TESTSET i then Inr True
        else rbind (getjump fs list) (\<lambda>list. need_value_loop n fs list))))"

definition need_value :: "FuncState \<Rightarrow> int \<Rightarrow> bool result" where
  "need_value fs list = need_value_loop (length (fs_code fs) + 1) fs list"

definition NO_REG_code :: int where "NO_REG_code = uint NO_REG"

definition patchtestreg :: "FuncState \<Rightarrow> int \<Rightarrow> int \<Rightarrow> (bool \<times> FuncState) result" where
  "patchtestreg fs node' r =
     rbind (getjumpcontrol fs node') (\<lambda>q. rbind (instr fs q) (\<lambda>i.
       if \<not> is_op OP_TESTSET i then Inr (False, fs)
       else rbind (set_instr fs q
           (if r \<noteq> NO_REG_code \<and> r \<noteq> uint (GETARG_B i) then SETARG_A i (of_int r)
            else CREATE_ABC (opcode_num OP_TEST) (GETARG_B i) 0 (GETARG_C i)))
         (\<lambda>fs. Inr (True, fs))))"

fun removevalues_loop :: "nat \<Rightarrow> FuncState \<Rightarrow> int \<Rightarrow> FuncState result" where
  "removevalues_loop 0 fs list = Inl OutOfFuel"
| "removevalues_loop (Suc n) fs list =
     (if list = NO_JUMP then Inr fs
      else rbind (patchtestreg fs list NO_REG_code) (\<lambda>(b, fs).
        rbind (getjump fs list) (\<lambda>list. removevalues_loop n fs list)))"

definition removevalues :: "FuncState \<Rightarrow> int \<Rightarrow> FuncState result" where
  "removevalues fs list = removevalues_loop (length (fs_code fs) + 1) fs list"

fun patchlist_loop :: "nat \<Rightarrow> FuncState \<Rightarrow> int \<Rightarrow> int \<Rightarrow> int \<Rightarrow> int \<Rightarrow> FuncState result" where
  "patchlist_loop 0 fs list vtarget r dtarget = Inl OutOfFuel"
| "patchlist_loop (Suc n) fs list vtarget r dtarget =
     (if list = NO_JUMP then Inr fs
      else rbind (getjump fs list) (\<lambda>next'.
        rbind (patchtestreg fs list r) (\<lambda>(b, fs).
        rbind (fixjump fs list (if b then vtarget else dtarget)) (\<lambda>fs.
        patchlist_loop n fs next' vtarget r dtarget))))"

definition patchlistaux :: "FuncState \<Rightarrow> int \<Rightarrow> int \<Rightarrow> int \<Rightarrow> int \<Rightarrow> FuncState result" where
  "patchlistaux fs = patchlist_loop (length (fs_code fs) + 1) fs"

definition dischargejpc :: "FuncState \<Rightarrow> FuncState result" where
  "dischargejpc fs =
     rbind (patchlistaux fs (fs_jpc fs) (fs_pc fs) NO_REG_code (fs_pc fs)) (\<lambda>fs. Inr (fs\<lparr>fs_jpc := NO_JUMP\<rparr>))"

text \<open>The last jump of a list.\<close>

fun last_jump :: "nat \<Rightarrow> FuncState \<Rightarrow> int \<Rightarrow> int result" where
  "last_jump 0 fs list = Inl OutOfFuel"
| "last_jump (Suc n) fs list =
     rbind (getjump fs list) (\<lambda>next'. if next' = NO_JUMP then Inr list else last_jump n fs next')"

text \<open>The list \<open>l1\<close> as it is afterwards, and the state.\<close>

definition luaK_concat :: "FuncState \<Rightarrow> int \<Rightarrow> int \<Rightarrow> (int \<times> FuncState) result" where
  "luaK_concat fs l1 l2 =
     (if l2 = NO_JUMP then Inr (l1, fs)
      else if l1 = NO_JUMP then Inr (l2, fs)
      else rbind (last_jump (length (fs_code fs) + 1) fs l1) (\<lambda>list.
        rbind (fixjump fs list l2) (\<lambda>fs. Inr (l1, fs))))"

definition luaK_patchtohere :: "FuncState \<Rightarrow> int \<Rightarrow> FuncState result" where
  "luaK_patchtohere fs list =
     (let (l, fs) = luaK_getlabel fs in
      rbind (luaK_concat fs (fs_jpc fs) list) (\<lambda>(jpc, fs). Inr (fs\<lparr>fs_jpc := jpc\<rparr>)))"

definition luaK_patchlist :: "FuncState \<Rightarrow> int \<Rightarrow> int \<Rightarrow> FuncState result" where
  "luaK_patchlist fs list target =
     (if target = fs_pc fs then luaK_patchtohere fs list
      else rbind (assert_that (target < fs_pc fs)) (\<lambda>_. patchlistaux fs list target NO_REG_code target))"

section \<open>Emitting instructions\<close>

text \<open>The position of the instruction, and the state.\<close>

definition luaK_code :: "FuncState \<Rightarrow> Instruction \<Rightarrow> u32 \<Rightarrow> (int \<times> FuncState) result" where
  "luaK_code fs i line =
     rbind (dischargejpc fs) (\<lambda>fs.
       if fs_pc fs + 1 > MAX_INT then Inl (LuaError ''code size overflow'')
       else Inr (fs_pc fs, fs\<lparr>fs_code := fs_code fs @ [i], fs_lineinfo := fs_lineinfo fs @ [line]\<rparr>))"

definition luaK_codeABC :: "FuncState \<Rightarrow> OpCode \<Rightarrow> int \<Rightarrow> int \<Rightarrow> int \<Rightarrow> (int \<times> FuncState) result" where
  "luaK_codeABC fs op a b c = luaK_code fs (CREATE_ABC (opcode_num op) (of_int a) (of_int b) (of_int c)) (fs_lastline fs)"

definition luaK_codeABx :: "FuncState \<Rightarrow> OpCode \<Rightarrow> int \<Rightarrow> int \<Rightarrow> (int \<times> FuncState) result" where
  "luaK_codeABx fs op a bc = luaK_code fs (CREATE_ABx (opcode_num op) (of_int a) (of_int bc)) (fs_lastline fs)"

definition luaK_codeAsBx :: "FuncState \<Rightarrow> OpCode \<Rightarrow> int \<Rightarrow> int \<Rightarrow> (int \<times> FuncState) result" where
  "luaK_codeAsBx fs op a sbx = luaK_codeABx fs op a (sbx + sint MAXARG_sBx)"

definition luaK_fixline :: "FuncState \<Rightarrow> u32 \<Rightarrow> FuncState result" where
  "luaK_fixline fs line =
     rbind (at (fs_lineinfo fs) (fs_pc fs - 1)) (\<lambda>_. Inr (fs\<lparr>fs_lineinfo := (fs_lineinfo fs)[nat (fs_pc fs - 1) := line]\<rparr>))"

definition luaK_jump :: "FuncState \<Rightarrow> (int \<times> FuncState) result" where
  "luaK_jump fs =
     (let jpc = fs_jpc fs in
      rbind (luaK_codeAsBx (fs\<lparr>fs_jpc := NO_JUMP\<rparr>) OP_JMP 0 NO_JUMP) (\<lambda>(j, fs). luaK_concat fs j jpc))"

definition luaK_ret :: "FuncState \<Rightarrow> int \<Rightarrow> int \<Rightarrow> FuncState result" where
  "luaK_ret fs first nret = rbind (luaK_codeABC fs OP_RETURN first (nret + 1) 0) (\<lambda>(j, fs). Inr fs)"

definition condjump :: "FuncState \<Rightarrow> OpCode \<Rightarrow> int \<Rightarrow> int \<Rightarrow> int \<Rightarrow> (int \<times> FuncState) result" where
  "condjump fs op a b c = rbind (luaK_codeABC fs op a b c) (\<lambda>(j, fs). luaK_jump fs)"

text \<open>\<open>LOADNIL\<close> is merged with one just before it, unless control may come here from elsewhere.\<close>

definition luaK_nil :: "FuncState \<Rightarrow> int \<Rightarrow> int \<Rightarrow> FuncState result" where
  "luaK_nil fs from' n =
     (let emit = rbind (luaK_codeABC fs OP_LOADNIL from' (from' + n - 1) 0) (\<lambda>(j, fs). Inr fs) in
      if fs_pc fs > fs_lasttarget fs then
        if fs_pc fs = 0 then if from' \<ge> fs_nactvar fs then Inr fs else emit
        else rbind (instr fs (fs_pc fs - 1)) (\<lambda>previous.
          if is_op OP_LOADNIL previous then
            let pfrom = uint (GETARG_A previous); pto = uint (GETARG_B previous) in
            if pfrom \<le> from' \<and> from' \<le> pto + 1 then
              if from' + n - 1 > pto then set_instr fs (fs_pc fs - 1) (SETARG_B previous (of_int (from' + n - 1)))
              else Inr fs
            else emit
          else emit)
      else emit)"

definition luaK_setlist :: "FuncState \<Rightarrow> int \<Rightarrow> int \<Rightarrow> int \<Rightarrow> FuncState result" where
  "luaK_setlist fs base nelems tostore =
     (let c = (nelems - 1) sdiv 50 + 1; b = (if tostore = LUA_MULTRET then 0 else tostore) in
      rbind (assert_that (tostore \<noteq> 0)) (\<lambda>_.
      rbind (if c \<le> uint MAXARG_C then luaK_codeABC fs OP_SETLIST base b c
             else rbind (luaK_codeABC fs OP_SETLIST base b 0) (\<lambda>(j, fs). luaK_code fs (of_int c) (fs_lastline fs)))
        (\<lambda>(j, fs). Inr (fs\<lparr>fs_freereg := base + 1\<rparr>))))"

section \<open>Registers\<close>

definition luaK_checkstack :: "FuncState \<Rightarrow> int \<Rightarrow> FuncState result" where
  "luaK_checkstack fs n =
     (let newstack = fs_freereg fs + n in
      if newstack > fs_maxstacksize fs then
        if newstack \<ge> MAXSTACK then Inl (LuaError ''function or expression too complex'')
        else Inr (fs\<lparr>fs_maxstacksize := newstack\<rparr>)
      else Inr fs)"

definition luaK_reserveregs :: "FuncState \<Rightarrow> int \<Rightarrow> FuncState result" where
  "luaK_reserveregs fs n = rbind (luaK_checkstack fs n) (\<lambda>fs. Inr (fs\<lparr>fs_freereg := fs_freereg fs + n\<rparr>))"

definition freereg :: "FuncState \<Rightarrow> int \<Rightarrow> FuncState result" where
  "freereg fs r =
     (if \<not> ISK (of_int r) \<and> r \<ge> fs_nactvar fs then
        rbind (assert_that (r = fs_freereg fs - 1)) (\<lambda>_. Inr (fs\<lparr>fs_freereg := fs_freereg fs - 1\<rparr>))
      else Inr fs)"

definition freeexp :: "FuncState \<Rightarrow> expdesc \<Rightarrow> FuncState result" where
  "freeexp fs e = (if e_k e = VNONRELOC then freereg fs (e_info e) else Inr fs)"

section \<open>Constants\<close>

definition addk :: "FuncState \<Rightarrow> TValue \<Rightarrow> TValue \<Rightarrow> (int \<times> FuncState) result" where
  "addk fs key v =
     rbind (luaH_set (fs_h fs) key) (\<lambda>(h, s).
       case slot_value h s of
         TNumber d \<Rightarrow>
           let idx = sint (double_to_s32 d) in
           rbind (at (fs_k fs) idx) (\<lambda>old. rbind (assert_that (luaO_rawequalObj old v)) (\<lambda>_.
             Inr (idx, fs\<lparr>fs_h := h\<rparr>)))
       | _ \<Rightarrow>
           let nk = int (length (fs_k fs)) in
           if nk + 1 > uint MAXARG_Bx then Inl (LuaError ''constant table overflow'')
           else Inr (nk, fs\<lparr>fs_h := setobj2t h s (TNumber (int_to_double nk)), fs_k := fs_k fs @ [v]\<rparr>))"

definition luaK_stringK :: "FuncState \<Rightarrow> bytes \<Rightarrow> (int \<times> FuncState) result" where
  "luaK_stringK fs s = addk fs (TString s) (TString s)"

definition luaK_numberK :: "FuncState \<Rightarrow> double \<Rightarrow> (int \<times> FuncState) result" where
  "luaK_numberK fs r = addk fs (TNumber r) (TNumber r)"

definition boolK :: "FuncState \<Rightarrow> bool \<Rightarrow> (int \<times> FuncState) result" where
  "boolK fs b = (let v = TBoolean (if b then 1 else 0) in addk fs v v)"

definition nilK :: "FuncState \<Rightarrow> (int \<times> FuncState) result" where
  "nilK fs = addk fs (TTable (fs_haddr fs)) TNil"

section \<open>Expressions\<close>

text \<open>The functions on expressions give the expression and the state they leave.\<close>

definition luaK_setreturns :: "FuncState \<Rightarrow> expdesc \<Rightarrow> int \<Rightarrow> FuncState result" where
  "luaK_setreturns fs e nresults =
     (if e_k e = VCALL then change (\<lambda>i. SETARG_C i (of_int (nresults + 1))) fs (e_info e)
      else if e_k e = VVARARG then
        rbind (change (\<lambda>i. SETARG_B i (of_int (nresults + 1))) fs (e_info e)) (\<lambda>fs.
        rbind (change (\<lambda>i. SETARG_A i (of_int (fs_freereg fs))) fs (e_info e)) (\<lambda>fs. luaK_reserveregs fs 1))
      else Inr fs)"

definition luaK_setoneret :: "FuncState \<Rightarrow> expdesc \<Rightarrow> (expdesc \<times> FuncState) result" where
  "luaK_setoneret fs e =
     (if e_k e = VCALL then rbind (instr fs (e_info e)) (\<lambda>i. Inr (e\<lparr>e_k := VNONRELOC, e_info := uint (GETARG_A i)\<rparr>, fs))
      else if e_k e = VVARARG then
        rbind (change (\<lambda>i. SETARG_B i 2) fs (e_info e)) (\<lambda>fs. Inr (e\<lparr>e_k := VRELOCABLE\<rparr>, fs))
      else Inr (e, fs))"

definition luaK_dischargevars :: "FuncState \<Rightarrow> expdesc \<Rightarrow> (expdesc \<times> FuncState) result" where
  "luaK_dischargevars fs e =
     (let reloc = (\<lambda>(j, fs). Inr (e\<lparr>e_info := j, e_k := VRELOCABLE\<rparr>, fs)) in
      case e_k e of
        VLOCAL \<Rightarrow> Inr (e\<lparr>e_k := VNONRELOC\<rparr>, fs)
      | VUPVAL \<Rightarrow> rbind (luaK_codeABC fs OP_GETUPVAL 0 (e_info e) 0) reloc
      | VGLOBAL \<Rightarrow> rbind (luaK_codeABx fs OP_GETGLOBAL 0 (e_info e)) reloc
      | VINDEXED \<Rightarrow>
          rbind (freereg fs (e_aux e)) (\<lambda>fs. rbind (freereg fs (e_info e)) (\<lambda>fs.
          rbind (luaK_codeABC fs OP_GETTABLE 0 (e_info e) (e_aux e)) reloc))
      | VVARARG \<Rightarrow> luaK_setoneret fs e
      | VCALL \<Rightarrow> luaK_setoneret fs e
      | _ \<Rightarrow> Inr (e, fs))"

definition code_label :: "FuncState \<Rightarrow> int \<Rightarrow> int \<Rightarrow> int \<Rightarrow> (int \<times> FuncState) result" where
  "code_label fs a b jump = (let (l, fs) = luaK_getlabel fs in luaK_codeABC fs OP_LOADBOOL a b jump)"

definition discharge2reg :: "FuncState \<Rightarrow> expdesc \<Rightarrow> int \<Rightarrow> (expdesc \<times> FuncState) result" where
  "discharge2reg fs e r =
     rbind (luaK_dischargevars fs e) (\<lambda>(e, fs).
       let done = (\<lambda>fs. Inr (e\<lparr>e_info := r, e_k := VNONRELOC\<rparr>, fs));
           coded = (\<lambda>(j, fs). done fs) in
       case e_k e of
         VNIL \<Rightarrow> rbind (luaK_nil fs r 1) done
       | VFALSE \<Rightarrow> rbind (luaK_codeABC fs OP_LOADBOOL r 0 0) coded
       | VTRUE \<Rightarrow> rbind (luaK_codeABC fs OP_LOADBOOL r 1 0) coded
       | VK \<Rightarrow> rbind (luaK_codeABx fs OP_LOADK r (e_info e)) coded
       | VKNUM \<Rightarrow> rbind (luaK_numberK fs (e_nval e)) (\<lambda>(k, fs). rbind (luaK_codeABx fs OP_LOADK r k) coded)
       | VRELOCABLE \<Rightarrow> rbind (change (\<lambda>i. SETARG_A i (of_int r)) fs (e_info e)) done
       | VNONRELOC \<Rightarrow> if r \<noteq> e_info e then rbind (luaK_codeABC fs OP_MOVE r (e_info e) 0) coded else done fs
       | _ \<Rightarrow> rbind (assert_that (e_k e = VVOID \<or> e_k e = VJMP)) (\<lambda>_. Inr (e, fs)))"

definition discharge2anyreg :: "FuncState \<Rightarrow> expdesc \<Rightarrow> (expdesc \<times> FuncState) result" where
  "discharge2anyreg fs e =
     (if e_k e \<noteq> VNONRELOC then rbind (luaK_reserveregs fs 1) (\<lambda>fs. discharge2reg fs e (fs_freereg fs - 1))
      else Inr (e, fs))"

text \<open>Where jumps out of the expression have no value of their own, they go to instructions that load false and true.\<close>

definition exp2reg :: "FuncState \<Rightarrow> expdesc \<Rightarrow> int \<Rightarrow> (expdesc \<times> FuncState) result" where
  "exp2reg fs e r =
     rbind (discharge2reg fs e r) (\<lambda>(e, fs).
     rbind (if e_k e = VJMP then luaK_concat fs (e_t e) (e_info e) else Inr (e_t e, fs)) (\<lambda>(t, fs).
     let e = e\<lparr>e_t := t\<rparr> in
     rbind (if hasjumps e then
         rbind (need_value fs (e_t e)) (\<lambda>nt. rbind (if nt then Inr True else need_value fs (e_f e)) (\<lambda>need.
         rbind (if need then
             rbind (if e_k e = VJMP then Inr (NO_JUMP, fs) else luaK_jump fs) (\<lambda>(fj, fs).
             rbind (code_label fs r 0 1) (\<lambda>(p_f, fs).
             rbind (code_label fs r 1 0) (\<lambda>(p_t, fs).
             rbind (luaK_patchtohere fs fj) (\<lambda>fs. Inr (p_f, p_t, fs)))))
           else Inr (NO_JUMP, NO_JUMP, fs)) (\<lambda>(p_f, p_t, fs).
         let (final, fs) = luaK_getlabel fs in
         rbind (patchlistaux fs (e_f e) final r p_f) (\<lambda>fs. patchlistaux fs (e_t e) final r p_t))))
       else Inr fs) (\<lambda>fs.
     Inr (e\<lparr>e_f := NO_JUMP, e_t := NO_JUMP, e_info := r, e_k := VNONRELOC\<rparr>, fs))))"

definition luaK_exp2nextreg :: "FuncState \<Rightarrow> expdesc \<Rightarrow> (expdesc \<times> FuncState) result" where
  "luaK_exp2nextreg fs e =
     rbind (luaK_dischargevars fs e) (\<lambda>(e, fs). rbind (freeexp fs e) (\<lambda>fs. rbind (luaK_reserveregs fs 1) (\<lambda>fs.
     exp2reg fs e (fs_freereg fs - 1))))"

text \<open>The value returned, the register, is \<open>e_info\<close> of the expression.\<close>

definition luaK_exp2anyreg :: "FuncState \<Rightarrow> expdesc \<Rightarrow> (expdesc \<times> FuncState) result" where
  "luaK_exp2anyreg fs e =
     rbind (luaK_dischargevars fs e) (\<lambda>(e, fs).
       if e_k e = VNONRELOC \<and> \<not> hasjumps e then Inr (e, fs)
       else if e_k e = VNONRELOC \<and> e_info e \<ge> fs_nactvar fs then exp2reg fs e (e_info e)
       else luaK_exp2nextreg fs e)"

definition luaK_exp2val :: "FuncState \<Rightarrow> expdesc \<Rightarrow> (expdesc \<times> FuncState) result" where
  "luaK_exp2val fs e = (if hasjumps e then luaK_exp2anyreg fs e else luaK_dischargevars fs e)"

definition luaK_exp2RK :: "FuncState \<Rightarrow> expdesc \<Rightarrow> (int \<times> expdesc \<times> FuncState) result" where
  "luaK_exp2RK fs e =
     rbind (luaK_exp2val fs e) (\<lambda>(e, fs).
       let anyreg = rbind (luaK_exp2anyreg fs e) (\<lambda>(e, fs). Inr (e_info e, e, fs)); rkask = (\<lambda>k. uint (RKASK (of_int k))) in
       if e_k e \<in> {VKNUM, VTRUE, VFALSE, VNIL} then
         if int (length (fs_k fs)) \<le> uint MAXINDEXRK then
           rbind (if e_k e = VNIL then nilK fs else if e_k e = VKNUM then luaK_numberK fs (e_nval e) else boolK fs (e_k e = VTRUE))
             (\<lambda>(k, fs). Inr (rkask k, e\<lparr>e_info := k, e_k := VK\<rparr>, fs))
         else anyreg
       else if e_k e = VK then if e_info e \<le> uint MAXINDEXRK then Inr (rkask (e_info e), e, fs) else anyreg
       else anyreg)"

definition luaK_storevar :: "FuncState \<Rightarrow> expdesc \<Rightarrow> expdesc \<Rightarrow> (expdesc \<times> FuncState) result" where
  "luaK_storevar fs var ex =
     (let free = (\<lambda>ex (j, fs). rbind (freeexp fs ex) (\<lambda>fs. Inr (ex, fs))) in
      case e_k var of
        VLOCAL \<Rightarrow> rbind (freeexp fs ex) (\<lambda>fs. exp2reg fs ex (e_info var))
      | VUPVAL \<Rightarrow> rbind (luaK_exp2anyreg fs ex) (\<lambda>(ex, fs). rbind (luaK_codeABC fs OP_SETUPVAL (e_info ex) (e_info var) 0) (free ex))
      | VGLOBAL \<Rightarrow> rbind (luaK_exp2anyreg fs ex) (\<lambda>(ex, fs). rbind (luaK_codeABx fs OP_SETGLOBAL (e_info ex) (e_info var)) (free ex))
      | VINDEXED \<Rightarrow> rbind (luaK_exp2RK fs ex) (\<lambda>(r, ex, fs).
          rbind (luaK_codeABC fs OP_SETTABLE (e_info var) (e_aux var) r) (free ex))
      | _ \<Rightarrow> Inl AssertFailed)"

definition luaK_self :: "FuncState \<Rightarrow> expdesc \<Rightarrow> expdesc \<Rightarrow> (expdesc \<times> expdesc \<times> FuncState) result" where
  "luaK_self fs e key =
     rbind (luaK_exp2anyreg fs e) (\<lambda>(e, fs). rbind (freeexp fs e) (\<lambda>fs.
     let func = fs_freereg fs in
     rbind (luaK_reserveregs fs 2) (\<lambda>fs. rbind (luaK_exp2RK fs key) (\<lambda>(r, key, fs).
     rbind (luaK_codeABC fs OP_SELF func (e_info e) r) (\<lambda>(j, fs). rbind (freeexp fs key) (\<lambda>fs.
     Inr (e\<lparr>e_info := func, e_k := VNONRELOC\<rparr>, key, fs)))))))"

section \<open>Conditions\<close>

definition invertjump :: "FuncState \<Rightarrow> expdesc \<Rightarrow> FuncState result" where
  "invertjump fs e =
     rbind (getjumpcontrol fs (e_info e)) (\<lambda>q. rbind (instr fs q) (\<lambda>i. rbind (is_test i) (\<lambda>b.
     rbind (assert_that (b \<and> \<not> is_op OP_TESTSET i \<and> \<not> is_op OP_TEST i)) (\<lambda>_.
     set_instr fs q (SETARG_A i (if GETARG_A i = 0 then 1 else 0))))))"

definition jumponcond :: "FuncState \<Rightarrow> expdesc \<Rightarrow> int \<Rightarrow> (int \<times> expdesc \<times> FuncState) result" where
  "jumponcond fs e cond =
     (let general = rbind (discharge2anyreg fs e) (\<lambda>(e, fs). rbind (freeexp fs e) (\<lambda>fs.
          rbind (condjump fs OP_TESTSET NO_REG_code (e_info e) cond) (\<lambda>(j, fs). Inr (j, e, fs)))) in
      if e_k e = VRELOCABLE then
        rbind (instr fs (e_info e)) (\<lambda>ie.
          if is_op OP_NOT ie then
            rbind (condjump (fs\<lparr>fs_code := butlast (fs_code fs), fs_lineinfo := butlast (fs_lineinfo fs)\<rparr>)
              OP_TEST (uint (GETARG_B ie)) 0 (if cond = 0 then 1 else 0)) (\<lambda>(j, fs). Inr (j, e, fs))
          else general)
      else general)"

definition luaK_goiftrue :: "FuncState \<Rightarrow> expdesc \<Rightarrow> (expdesc \<times> FuncState) result" where
  "luaK_goiftrue fs e =
     rbind (luaK_dischargevars fs e) (\<lambda>(e, fs).
     rbind (if e_k e \<in> {VK, VKNUM, VTRUE} then Inr (NO_JUMP, e, fs)
            else if e_k e = VFALSE then rbind (luaK_jump fs) (\<lambda>(j, fs). Inr (j, e, fs))
            else if e_k e = VJMP then rbind (invertjump fs e) (\<lambda>fs. Inr (e_info e, e, fs))
            else jumponcond fs e 0) (\<lambda>(pc, e, fs).
     rbind (luaK_concat fs (e_f e) pc) (\<lambda>(l, fs). let e = e\<lparr>e_f := l\<rparr> in
     rbind (luaK_patchtohere fs (e_t e)) (\<lambda>fs. Inr (e\<lparr>e_t := NO_JUMP\<rparr>, fs)))))"

definition luaK_goiffalse :: "FuncState \<Rightarrow> expdesc \<Rightarrow> (expdesc \<times> FuncState) result" where
  "luaK_goiffalse fs e =
     rbind (luaK_dischargevars fs e) (\<lambda>(e, fs).
     rbind (if e_k e \<in> {VNIL, VFALSE} then Inr (NO_JUMP, e, fs)
            else if e_k e = VTRUE then rbind (luaK_jump fs) (\<lambda>(j, fs). Inr (j, e, fs))
            else if e_k e = VJMP then Inr (e_info e, e, fs)
            else jumponcond fs e 1) (\<lambda>(pc, e, fs).
     rbind (luaK_concat fs (e_t e) pc) (\<lambda>(l, fs). let e = e\<lparr>e_t := l\<rparr> in
     rbind (luaK_patchtohere fs (e_f e)) (\<lambda>fs. Inr (e\<lparr>e_f := NO_JUMP\<rparr>, fs)))))"

definition codenot :: "FuncState \<Rightarrow> expdesc \<Rightarrow> (expdesc \<times> FuncState) result" where
  "codenot fs e =
     rbind (luaK_dischargevars fs e) (\<lambda>(e, fs).
     rbind (if e_k e \<in> {VNIL, VFALSE} then Inr (e\<lparr>e_k := VTRUE\<rparr>, fs)
            else if e_k e \<in> {VK, VKNUM, VTRUE} then Inr (e\<lparr>e_k := VFALSE\<rparr>, fs)
            else if e_k e = VJMP then rbind (invertjump fs e) (\<lambda>fs. Inr (e, fs))
            else if e_k e \<in> {VRELOCABLE, VNONRELOC} then
              rbind (discharge2anyreg fs e) (\<lambda>(e, fs). rbind (freeexp fs e) (\<lambda>fs.
              rbind (luaK_codeABC fs OP_NOT 0 (e_info e) 0) (\<lambda>(j, fs). Inr (e\<lparr>e_info := j, e_k := VRELOCABLE\<rparr>, fs))))
            else Inl AssertFailed) (\<lambda>(e, fs).
     let e = e\<lparr>e_f := e_t e, e_t := e_f e\<rparr> in
     rbind (removevalues fs (e_f e)) (\<lambda>fs. rbind (removevalues fs (e_t e)) (\<lambda>fs. Inr (e, fs)))))"

definition luaK_indexed :: "FuncState \<Rightarrow> expdesc \<Rightarrow> expdesc \<Rightarrow> (expdesc \<times> expdesc \<times> FuncState) result" where
  "luaK_indexed fs t k = rbind (luaK_exp2RK fs k) (\<lambda>(r, k, fs). Inr (t\<lparr>e_aux := r, e_k := VINDEXED\<rparr>, k, fs))"

section \<open>Operators\<close>

datatype BinOpr = OPR_ADD | OPR_SUB | OPR_MUL | OPR_DIV | OPR_MOD | OPR_POW | OPR_CONCAT | OPR_NE | OPR_EQ
  | OPR_LT | OPR_LE | OPR_GT | OPR_GE | OPR_AND | OPR_OR | OPR_NOBINOPR

datatype UnOpr = OPR_MINUS | OPR_NOT | OPR_LEN | OPR_NOUNOPR

text \<open>The constant that an operation on numerals gives, if it can be computed here.\<close>

definition constfolding :: "clib \<Rightarrow> OpCode \<Rightarrow> expdesc \<Rightarrow> expdesc \<Rightarrow> expdesc option result" where
  "constfolding c op e1 e2 =
     (if \<not> isnumeral e1 \<or> \<not> isnumeral e2 then Inr None
      else
        let v1 = e_nval e1; v2 = e_nval e2;
            fold = (\<lambda>tm. let r = c_arith c tm v1 v2 in Inr (if dbl_nan r then None else Some (e1\<lparr>e_nval := r\<rparr>))) in
        case op of
          OP_ADD \<Rightarrow> fold TM_ADD | OP_SUB \<Rightarrow> fold TM_SUB | OP_MUL \<Rightarrow> fold TM_MUL
        | OP_DIV \<Rightarrow> if dbl_eq v2 0 then Inr None else fold TM_DIV
        | OP_MOD \<Rightarrow> if dbl_eq v2 0 then Inr None else fold TM_MOD
        | OP_POW \<Rightarrow> fold TM_POW | OP_UNM \<Rightarrow> fold TM_UNM
        | OP_LEN \<Rightarrow> Inr None
        | _ \<Rightarrow> Inl AssertFailed)"

definition codearith :: "clib \<Rightarrow> FuncState \<Rightarrow> OpCode \<Rightarrow> expdesc \<Rightarrow> expdesc \<Rightarrow> (expdesc \<times> FuncState) result" where
  "codearith c fs op e1 e2 =
     rbind (constfolding c op e1 e2) (\<lambda>r. case r of
       Some e1 \<Rightarrow> Inr (e1, fs)
     | None \<Rightarrow>
         rbind (if op \<noteq> OP_UNM \<and> op \<noteq> OP_LEN then luaK_exp2RK fs e2 else Inr (0, e2, fs)) (\<lambda>(o2, e2, fs).
         rbind (luaK_exp2RK fs e1) (\<lambda>(o1, e1, fs).
         rbind (if o1 > o2 then rbind (freeexp fs e1) (\<lambda>fs. freeexp fs e2)
                else rbind (freeexp fs e2) (\<lambda>fs. freeexp fs e1)) (\<lambda>fs.
         rbind (luaK_codeABC fs op 0 o1 o2) (\<lambda>(j, fs). Inr (e1\<lparr>e_info := j, e_k := VRELOCABLE\<rparr>, fs))))))"

definition codecomp :: "FuncState \<Rightarrow> OpCode \<Rightarrow> int \<Rightarrow> expdesc \<Rightarrow> expdesc \<Rightarrow> (expdesc \<times> FuncState) result" where
  "codecomp fs op cond e1 e2 =
     rbind (luaK_exp2RK fs e1) (\<lambda>(o1, e1, fs). rbind (luaK_exp2RK fs e2) (\<lambda>(o2, e2, fs).
     rbind (freeexp fs e2) (\<lambda>fs. rbind (freeexp fs e1) (\<lambda>fs.
     let swap = (cond = 0 \<and> op \<noteq> OP_EQ);
         (o1, o2, cond) = (if swap then (o2, o1, 1) else (o1, o2, cond)) in
     rbind (condjump fs op cond o1 o2) (\<lambda>(j, fs). Inr (e1\<lparr>e_info := j, e_k := VJMP\<rparr>, fs))))))"

definition luaK_prefix :: "clib \<Rightarrow> FuncState \<Rightarrow> UnOpr \<Rightarrow> expdesc \<Rightarrow> (expdesc \<times> FuncState) result" where
  "luaK_prefix c fs op e =
     (let e2 = \<lparr>e_k = VKNUM, e_info = 0, e_aux = 0, e_nval = 0, e_t = NO_JUMP, e_f = NO_JUMP\<rparr> in
      case op of
        OPR_MINUS \<Rightarrow> rbind (if \<not> isnumeral e then luaK_exp2anyreg fs e else Inr (e, fs)) (\<lambda>(e, fs). codearith c fs OP_UNM e e2)
      | OPR_NOT \<Rightarrow> codenot fs e
      | OPR_LEN \<Rightarrow> rbind (luaK_exp2anyreg fs e) (\<lambda>(e, fs). codearith c fs OP_LEN e e2)
      | OPR_NOUNOPR \<Rightarrow> Inl AssertFailed)"

definition luaK_infix :: "FuncState \<Rightarrow> BinOpr \<Rightarrow> expdesc \<Rightarrow> (expdesc \<times> FuncState) result" where
  "luaK_infix fs op v =
     (let rk = rbind (luaK_exp2RK fs v) (\<lambda>(r, v, fs). Inr (v, fs)) in
      if op = OPR_AND then luaK_goiftrue fs v
      else if op = OPR_OR then luaK_goiffalse fs v
      else if op = OPR_CONCAT then luaK_exp2nextreg fs v
      else if op \<in> {OPR_ADD, OPR_SUB, OPR_MUL, OPR_DIV, OPR_MOD, OPR_POW} then if \<not> isnumeral v then rk else Inr (v, fs)
      else rk)"

definition luaK_posfix :: "clib \<Rightarrow> FuncState \<Rightarrow> BinOpr \<Rightarrow> expdesc \<Rightarrow> expdesc \<Rightarrow> (expdesc \<times> FuncState) result" where
  "luaK_posfix c fs op e1 e2 =
     (case op of
        OPR_AND \<Rightarrow> rbind (assert_that (e_t e1 = NO_JUMP)) (\<lambda>_. rbind (luaK_dischargevars fs e2) (\<lambda>(e2, fs).
          rbind (luaK_concat fs (e_f e2) (e_f e1)) (\<lambda>(l, fs). Inr (e2\<lparr>e_f := l\<rparr>, fs))))
      | OPR_OR \<Rightarrow> rbind (assert_that (e_f e1 = NO_JUMP)) (\<lambda>_. rbind (luaK_dischargevars fs e2) (\<lambda>(e2, fs).
          rbind (luaK_concat fs (e_t e2) (e_t e1)) (\<lambda>(l, fs). Inr (e2\<lparr>e_t := l\<rparr>, fs))))
      | OPR_CONCAT \<Rightarrow> rbind (luaK_exp2val fs e2) (\<lambda>(e2, fs).
          let other = rbind (luaK_exp2nextreg fs e2) (\<lambda>(e2, fs). codearith c fs OP_CONCAT e1 e2) in
          if e_k e2 = VRELOCABLE then rbind (instr fs (e_info e2)) (\<lambda>i.
            if is_op OP_CONCAT i then
              rbind (assert_that (e_info e1 = uint (GETARG_B i) - 1)) (\<lambda>_. rbind (freeexp fs e1) (\<lambda>fs.
              rbind (change (\<lambda>i. SETARG_B i (of_int (e_info e1))) fs (e_info e2)) (\<lambda>fs.
              Inr (e1\<lparr>e_k := VRELOCABLE, e_info := e_info e2\<rparr>, fs))))
            else other)
          else other)
      | OPR_ADD \<Rightarrow> codearith c fs OP_ADD e1 e2
      | OPR_SUB \<Rightarrow> codearith c fs OP_SUB e1 e2
      | OPR_MUL \<Rightarrow> codearith c fs OP_MUL e1 e2
      | OPR_DIV \<Rightarrow> codearith c fs OP_DIV e1 e2
      | OPR_MOD \<Rightarrow> codearith c fs OP_MOD e1 e2
      | OPR_POW \<Rightarrow> codearith c fs OP_POW e1 e2
      | OPR_EQ \<Rightarrow> codecomp fs OP_EQ 1 e1 e2
      | OPR_NE \<Rightarrow> codecomp fs OP_EQ 0 e1 e2
      | OPR_LT \<Rightarrow> codecomp fs OP_LT 1 e1 e2
      | OPR_LE \<Rightarrow> codecomp fs OP_LE 1 e1 e2
      | OPR_GT \<Rightarrow> codecomp fs OP_LT 0 e1 e2
      | OPR_GE \<Rightarrow> codecomp fs OP_LE 0 e1 e2
      | OPR_NOBINOPR \<Rightarrow> Inl AssertFailed)"

end
