(* ===== verification/LuaFrame.thy ===== *)
theory LuaFrame
  imports LuaVm
begin

text \<open>
  The Lua stack and calls: growing the stack, entering a Lua function and returning its results (ldo.c), and
  the upvalues that are open on the stack (lfunc.c). The stack is a list of \<open>stacksize\<close> slots, a \<open>StkId\<close>
  an index into it; a slot beyond its end is the fault \<open>InvalidPointer\<close>.
\<close>

section \<open>The stack\<close>

definition EXTRA_STACK :: nat where "EXTRA_STACK = 5"

definition stack_last :: "world \<Rightarrow> int" where
  "stack_last w = int (length (stack w)) - int EXTRA_STACK - 1"

text \<open>New slots hold nil here; in the code they are uninitialised.\<close>

definition luaD_reallocstack :: "world \<Rightarrow> nat \<Rightarrow> world" where
  "luaD_reallocstack w newsize =
     (let realsize = newsize + 1 + EXTRA_STACK in
      w\<lparr>stack := take realsize (stack w) @ replicate (realsize - length (stack w)) TNil\<rparr>)"

definition luaD_growstack :: "world \<Rightarrow> nat \<Rightarrow> world" where
  "luaD_growstack w n =
     (if n \<le> length (stack w) then luaD_reallocstack w (2 * length (stack w))
      else luaD_reallocstack w (length (stack w) + n))"

definition luaD_checkstack :: "world \<Rightarrow> nat \<Rightarrow> nat \<Rightarrow> world" where
  "luaD_checkstack w tp n = (if stack_last w - int tp \<le> int n then luaD_growstack w n else w)"

definition put_slot :: "world \<Rightarrow> nat \<Rightarrow> TValue \<Rightarrow> world result" where
  "put_slot w i v = (if i < length (stack w) then Inr (w\<lparr>stack := (stack w)[i := v]\<rparr>) else Inl InvalidPointer)"

definition get_slot :: "world \<Rightarrow> nat \<Rightarrow> TValue result" where
  "get_slot w i = (if i < length (stack w) then Inr (stack w ! i) else Inl InvalidPointer)"

text \<open>Writing values to the slots from \<open>i\<close> on, one after the other.\<close>

fun put_slots :: "world \<Rightarrow> nat \<Rightarrow> TValue list \<Rightarrow> world result" where
  "put_slots w i [] = Inr w"
| "put_slots w i (v # vs) = rbind (put_slot w i v) (\<lambda>w. put_slots w (Suc i) vs)"

section \<open>Entering a Lua function\<close>

text \<open>The position of the instruction to execute next is not part of it here.\<close>

record CallInfo =
  ci_base :: nat
  ci_func :: nat
  ci_top :: nat
  ci_nresults :: int
  ci_tailcalls :: int

text \<open>Moving the fixed parameters past the arguments: \<open>k\<close> of them from \<open>lo\<close> on to the top.\<close>

fun move_fixed :: "world \<Rightarrow> nat \<Rightarrow> nat \<Rightarrow> nat \<Rightarrow> (nat \<times> world) result" where
  "move_fixed w lo tp 0 = Inr (tp, w)"
| "move_fixed w lo tp (Suc k) =
     rbind (get_slot w lo) (\<lambda>v.
     rbind (put_slot w tp v) (\<lambda>w.
     rbind (put_slot w lo TNil) (\<lambda>w. move_fixed w (Suc lo) (Suc tp) k)))"

fun put_args :: "Table \<Rightarrow> nat \<Rightarrow> TValue list \<Rightarrow> Table result" where
  "put_args t i [] = Inr t"
| "put_args t i (v # vs) =
     rbind (luaH_setnum t (of_nat (Suc i))) (\<lambda>(t, s). put_args (setobj2t t s v) (Suc i) vs)"

definition new_addr :: "world \<Rightarrow> addr \<times> world" where
  "new_addr w = (next_addr w, w\<lparr>next_addr := next_addr w + 1\<rparr>)"

text \<open>The table \<open>arg\<close> of functions compiled for the old style of varargs, with the extra arguments and their number.\<close>

definition make_arg_table :: "world \<Rightarrow> TValue list \<Rightarrow> (addr \<times> world) result" where
  "make_arg_table w extra =
     rbind (luaH_new (length extra) 1) (\<lambda>t.
     rbind (put_args t 0 extra) (\<lambda>t.
     rbind (luaH_setstr t (ascii ''n'')) (\<lambda>(t, s).
       let t = setobj2t t s (TNumber (int_to_double (int (length extra)))); (a, w) = new_addr w in
       Inr (a, w\<lparr>tables := (tables w)(a \<mapsto> t)\<rparr>))))"

text \<open>The new base, the new top and the state.\<close>

definition adjust_varargs :: "world \<Rightarrow> nat \<Rightarrow> Proto \<Rightarrow> int \<Rightarrow> (nat \<times> nat \<times> world) result" where
  "adjust_varargs w tp p actual =
     (let nfixargs = unat (pnumparams p); missing = nat (int nfixargs - actual) in
      rbind (put_slots w tp (replicate missing TNil)) (\<lambda>w.
      let tp = tp + missing; actual = nat (actual + int missing); nvar = actual - nfixargs in
      rbind (if pis_vararg p AND VARARG_NEEDSARG \<noteq> 0
             then rbind (make_arg_table w (take nvar (drop (tp - nvar) (stack w)))) (\<lambda>(a, w). Inr (Some a, w))
             else Inr (None, w)) (\<lambda>(htab, w).
      let base = tp in
      rbind (move_fixed w (tp - actual) tp nfixargs) (\<lambda>(tp, w).
        case htab of
          None \<Rightarrow> Inr (base, tp, w)
        | Some a \<Rightarrow> rbind (put_slot w tp (TTable a)) (\<lambda>w. Inr (base, Suc tp, w))))))"

text \<open>\<open>luaD_precall\<close> for a Lua function: the activation, whose top is also the new top of the stack.\<close>

definition precall_lua :: "world \<Rightarrow> nat \<Rightarrow> nat \<Rightarrow> Proto \<Rightarrow> int \<Rightarrow> (CallInfo \<times> world) result" where
  "precall_lua w func tp p nresults =
     (let w = luaD_checkstack w tp (unat (pmaxstacksize p)) in
      rbind (if pis_vararg p = 0 then
               let base = func + 1 in
               Inr (base, if tp > base + unat (pnumparams p) then base + unat (pnumparams p) else tp, w)
             else adjust_varargs w tp p (int tp - int func - 1)) (\<lambda>(base, tp, w).
      let citop = base + unat (pmaxstacksize p) in
      rbind (put_slots w tp (replicate (citop - tp) TNil)) (\<lambda>w.
        Inr (\<lparr>ci_base = base, ci_func = func, ci_top = citop, ci_nresults = nresults, ci_tailcalls = 0\<rparr>, w))))"

text \<open>
  A value that is not a function is called through its metamethod: a hole is opened at \<open>func\<close>
  for it. The result is the new top.
\<close>

fun shift_up :: "world \<Rightarrow> nat \<Rightarrow> nat \<Rightarrow> world result" where
  "shift_up w p 0 = Inr w"
| "shift_up w p (Suc k) =
     rbind (get_slot w (p - 1)) (\<lambda>v. rbind (put_slot w p v) (\<lambda>w. shift_up w (p - 1) k))"

definition tryfuncTM :: "world \<Rightarrow> nat \<Rightarrow> nat \<Rightarrow> (nat \<times> world) result" where
  "tryfuncTM w func tp =
     rbind (get_slot w func) (\<lambda>f.
     rbind (luaT_gettmbyobj w f TM_CALL) (\<lambda>tm.
       if \<not> isfunction tm then Inl (LuaError ''attempt to call'')
       else rbind (shift_up w tp (tp - func)) (\<lambda>w.
         rbind (put_slot (luaD_checkstack w tp 1) func tm) (\<lambda>w. Inr (tp + 1, w)))))"

text \<open>
  \<open>luaD_poscall\<close>: the results from \<open>first\<close> up to the top go to the slot of the function on,
  cut or filled with nil to the number wanted unless that is \<open>LUA_MULTRET\<close>, that is -1. The new top.
\<close>

function move_results :: "world \<Rightarrow> nat \<Rightarrow> nat \<Rightarrow> nat \<Rightarrow> int \<Rightarrow> (nat \<times> int \<times> world) result" where
  "move_results w res first tp i =
     (if i \<noteq> 0 \<and> first < tp then
        rbind (get_slot w first) (\<lambda>v. rbind (put_slot w res v) (\<lambda>w. move_results w (Suc res) (Suc first) tp (i - 1)))
      else Inr (res, i, w))"
  by auto
termination by (relation "measure (\<lambda>(w, res, first, tp, i). tp - first)") auto

declare move_results.simps [simp del]

definition luaD_poscall :: "world \<Rightarrow> CallInfo \<Rightarrow> nat \<Rightarrow> nat \<Rightarrow> (nat \<times> world) result" where
  "luaD_poscall w ci first tp =
     rbind (move_results w (ci_func ci) first tp (ci_nresults ci)) (\<lambda>(res, i, w).
     rbind (put_slots w res (replicate (nat i) TNil)) (\<lambda>w. Inr (res + nat i, w)))"

section \<open>Upvalues\<close>

text \<open>The list of open upvalues runs from the highest slot down.\<close>

definition open_level :: "world \<Rightarrow> addr \<Rightarrow> nat result" where
  "open_level w a = rbind (deref (upvals w) a) (\<lambda>u. case u of Open n \<Rightarrow> Inr n | Closed v \<Rightarrow> Inl AssertFailed)"

text \<open>The upvalue found, or the open upvalues at or above the level and below it.\<close>

fun find_open :: "world \<Rightarrow> nat \<Rightarrow> addr list \<Rightarrow> addr list \<Rightarrow> (addr + addr list \<times> addr list) result" where
  "find_open w level passed [] = Inr (Inr (passed, []))"
| "find_open w level passed (p # ps) =
     rbind (open_level w p) (\<lambda>n.
       if n < level then Inr (Inr (passed, p # ps))
       else if n = level then Inr (Inl p)
       else find_open w level (passed @ [p]) ps)"

definition luaF_findupval :: "world \<Rightarrow> nat \<Rightarrow> (addr \<times> world) result" where
  "luaF_findupval w level =
     rbind (find_open w level [] (openupval w)) (\<lambda>r. case r of
       Inl p \<Rightarrow> Inr (p, w)
     | Inr (passed, rest) \<Rightarrow>
         let (uv, w) = new_addr w in
         Inr (uv, w\<lparr>upvals := (upvals w)(uv \<mapsto> Open level), openupval := passed @ uv # rest\<rparr>))"

fun close_loop :: "nat \<Rightarrow> addr list \<Rightarrow> world \<Rightarrow> world result" where
  "close_loop level [] w = Inr (w\<lparr>openupval := []\<rparr>)"
| "close_loop level (p # ps) w =
     rbind (open_level w p) (\<lambda>n.
       if n < level then Inr (w\<lparr>openupval := p # ps\<rparr>)
       else rbind (get_slot w n) (\<lambda>v. close_loop level ps (w\<lparr>upvals := (upvals w)(p \<mapsto> Closed v)\<rparr>)))"

definition luaF_close :: "world \<Rightarrow> nat \<Rightarrow> world result" where
  "luaF_close w level = close_loop level (openupval w) w"

definition upval_get :: "world \<Rightarrow> addr \<Rightarrow> TValue result" where
  "upval_get w a = rbind (deref (upvals w) a) (\<lambda>u. case u of Open n \<Rightarrow> get_slot w n | Closed v \<Rightarrow> Inr v)"

definition upval_set :: "world \<Rightarrow> addr \<Rightarrow> TValue \<Rightarrow> world result" where
  "upval_set w a v = rbind (deref (upvals w) a) (\<lambda>u. case u of
     Open n \<Rightarrow> put_slot w n v
   | Closed v' \<Rightarrow> Inr (w\<lparr>upvals := (upvals w)(a \<mapsto> Closed v)\<rparr>))"

end
