(* ===== verification/LuaExec.thy ===== *)
theory LuaExec
  imports LuaFrame LuaDebug
begin

text \<open>
  The interpreter loop of lvm.c, \<open>luaV_execute\<close>, one definition for each group of opcodes, and the calls it makes
  through \<open>luaD_precall\<close> (ldo.c). A register outside the frame, an instruction, a constant, a prototype or an upvalue
  outside its array is \<open>Stray\<close>; every other fault, an error of Lua included, is a \<open>Fault\<close>.
  Functions written in C and the calls made for metamethods and iterators are the parameter \<open>call\<close>;
  hooks, coroutines and the collector are left out.
\<close>

section \<open>Frames\<close>

datatype stop = Stray | Fault fault

type_synonym 'a exec = "stop + 'a"

definition ebind :: "'a exec \<Rightarrow> ('a \<Rightarrow> 'b exec) \<Rightarrow> 'b exec" where
  "ebind r f = (case r of Inl e \<Rightarrow> Inl e | Inr x \<Rightarrow> f x)"

definition lift :: "'a result \<Rightarrow> 'a exec" where
  "lift r = (case r of Inl e \<Rightarrow> Inl (Fault e) | Inr x \<Rightarrow> Inr x)"

text \<open>An activation of a Lua function; \<open>f_pc\<close> is the position of its next instruction.\<close>

record frame =
  f_ci :: CallInfo
  f_cl :: LClosure
  f_pc :: nat

text \<open>
  The activation that runs, those it returns to within this \<open>luaV_execute\<close> (the local
  \<open>nexeccalls\<close> is one more than their number), and \<open>L->top\<close>.
\<close>

record vm =
  cur :: frame
  callers :: "frame list"
  vtop :: nat

datatype progress = Running vm world | Finished nat world

abbreviation f_base :: "frame \<Rightarrow> nat" where "f_base f \<equiv> ci_base (f_ci f)"
abbreviation f_proto :: "frame \<Rightarrow> Proto" where "f_proto f \<equiv> cproto (f_cl f)"

definition nregs :: "frame \<Rightarrow> nat" where "nregs f = unat (pmaxstacksize (f_proto f))"

definition fetch :: "frame \<Rightarrow> nat \<Rightarrow> Instruction exec" where
  "fetch f pc = (if pc < length (pcode (f_proto f)) then Inr (pcode (f_proto f) ! pc) else Inl Stray)"

definition konst :: "frame \<Rightarrow> nat \<Rightarrow> TValue exec" where
  "konst f n = (if n < length (pk (f_proto f)) then Inr (pk (f_proto f) ! n) else Inl Stray)"

definition upv :: "frame \<Rightarrow> nat \<Rightarrow> addr exec" where
  "upv f n = (if n < length (cupvals (f_cl f)) then Inr (cupvals (f_cl f) ! n) else Inl Stray)"

definition reg :: "frame \<Rightarrow> world \<Rightarrow> nat \<Rightarrow> TValue exec" where
  "reg f w i = (if i < nregs f \<and> f_base f + i < length (stack w) then Inr (stack w ! (f_base f + i)) else Inl Stray)"

text \<open>Writing may use \<open>extra\<close> slots above the frame: TFORLOOP needs two of the \<open>EXTRA_STACK\<close>.\<close>

definition set_reg_extra :: "nat \<Rightarrow> frame \<Rightarrow> world \<Rightarrow> nat \<Rightarrow> TValue \<Rightarrow> world exec" where
  "set_reg_extra extra f w i v =
     (if i < nregs f + extra \<and> f_base f + i < length (stack w)
      then Inr (w\<lparr>stack := (stack w)[f_base f + i := v]\<rparr>) else Inl Stray)"

abbreviation set_reg :: "frame \<Rightarrow> world \<Rightarrow> nat \<Rightarrow> TValue \<Rightarrow> world exec" where
  "set_reg \<equiv> set_reg_extra 0"

text \<open>A register or constant operand.\<close>

definition rk :: "frame \<Rightarrow> world \<Rightarrow> u32 \<Rightarrow> TValue exec" where
  "rk f w x = (if ISK x then konst f (unat (INDEXK x)) else reg f w (unat x))"

definition jump_to :: "nat \<Rightarrow> int \<Rightarrow> nat exec" where
  "jump_to pc d = (if 0 \<le> int pc + d then Inr (nat (int pc + d)) else Inl Stray)"

text \<open>A conditional jump: the jump is the next instruction, which is skipped otherwise.\<close>

definition cond_jump :: "frame \<Rightarrow> nat \<Rightarrow> bool \<Rightarrow> nat exec" where
  "cond_jump f pc b =
     (if b then ebind (fetch f pc) (\<lambda>j. jump_to (pc + 1) (sint (GETARG_sBx j))) else Inr (pc + 1))"

abbreviation argA :: "Instruction \<Rightarrow> nat" where "argA i \<equiv> unat (GETARG_A i)"
abbreviation argB :: "Instruction \<Rightarrow> nat" where "argB i \<equiv> unat (GETARG_B i)"
abbreviation argC :: "Instruction \<Rightarrow> nat" where "argC i \<equiv> unat (GETARG_C i)"
abbreviation argBx :: "Instruction \<Rightarrow> nat" where "argBx i \<equiv> unat (GETARG_Bx i)"

section \<open>Loads and upvalues\<close>

definition op_move :: "frame \<Rightarrow> world \<Rightarrow> Instruction \<Rightarrow> world exec" where
  "op_move f w i = ebind (reg f w (argB i)) (\<lambda>v. set_reg f w (argA i) v)"

definition op_loadk :: "frame \<Rightarrow> world \<Rightarrow> Instruction \<Rightarrow> world exec" where
  "op_loadk f w i = ebind (konst f (argBx i)) (\<lambda>v. set_reg f w (argA i) v)"

definition op_loadbool :: "frame \<Rightarrow> world \<Rightarrow> Instruction \<Rightarrow> nat \<Rightarrow> (nat \<times> world) exec" where
  "op_loadbool f w i pc =
     ebind (set_reg f w (argA i) (TBoolean (GETARG_B i))) (\<lambda>w. Inr (if GETARG_C i \<noteq> 0 then pc + 1 else pc, w))"

text \<open>\<open>n + 1\<close> registers from \<open>b\<close> down.\<close>

fun set_nils :: "frame \<Rightarrow> world \<Rightarrow> nat \<Rightarrow> nat \<Rightarrow> world exec" where
  "set_nils f w b 0 = set_reg f w b TNil"
| "set_nils f w b (Suc n) = ebind (set_reg f w b TNil) (\<lambda>w. set_nils f w (b - 1) n)"

definition op_loadnil :: "frame \<Rightarrow> world \<Rightarrow> Instruction \<Rightarrow> world exec" where
  "op_loadnil f w i = set_nils f w (argB i) (argB i - argA i)"

definition op_getupval :: "frame \<Rightarrow> world \<Rightarrow> Instruction \<Rightarrow> world exec" where
  "op_getupval f w i =
     ebind (upv f (argB i)) (\<lambda>u. ebind (lift (upval_get w u)) (\<lambda>v. set_reg f w (argA i) v))"

definition op_setupval :: "frame \<Rightarrow> world \<Rightarrow> Instruction \<Rightarrow> world exec" where
  "op_setupval f w i =
     ebind (upv f (argB i)) (\<lambda>u. ebind (reg f w (argA i)) (\<lambda>v. lift (upval_set w u v)))"

section \<open>Tables\<close>

definition op_getglobal :: "caller \<Rightarrow> frame \<Rightarrow> world \<Rightarrow> Instruction \<Rightarrow> world exec" where
  "op_getglobal call f w i =
     ebind (konst f (argBx i)) (\<lambda>key.
     ebind (lift (luaV_gettable call w (TTable (cenv (f_cl f))) key)) (\<lambda>(v, w). set_reg f w (argA i) v))"

definition op_gettable :: "caller \<Rightarrow> frame \<Rightarrow> world \<Rightarrow> Instruction \<Rightarrow> world exec" where
  "op_gettable call f w i =
     ebind (reg f w (argB i)) (\<lambda>t. ebind (rk f w (GETARG_C i)) (\<lambda>key.
     ebind (lift (luaV_gettable call w t key)) (\<lambda>(v, w). set_reg f w (argA i) v)))"

definition op_setglobal :: "caller \<Rightarrow> frame \<Rightarrow> world \<Rightarrow> Instruction \<Rightarrow> world exec" where
  "op_setglobal call f w i =
     ebind (konst f (argBx i)) (\<lambda>key. ebind (reg f w (argA i)) (\<lambda>v.
     lift (luaV_settable call w (TTable (cenv (f_cl f))) key v)))"

definition op_settable :: "caller \<Rightarrow> frame \<Rightarrow> world \<Rightarrow> Instruction \<Rightarrow> world exec" where
  "op_settable call f w i =
     ebind (reg f w (argA i)) (\<lambda>t. ebind (rk f w (GETARG_B i)) (\<lambda>key. ebind (rk f w (GETARG_C i)) (\<lambda>v.
     lift (luaV_settable call w t key v))))"

text \<open>A negative size of the array part is refused by the allocator.\<close>

definition op_newtable :: "frame \<Rightarrow> world \<Rightarrow> Instruction \<Rightarrow> world exec" where
  "op_newtable f w i =
     (let b = luaO_fb2int (GETARG_B i); c = luaO_fb2int (GETARG_C i) in
      if sint b < 0 then Inl (Fault (LuaError ''memory allocation error: block too big''))
      else ebind (lift (luaH_new (unat b) (unat c))) (\<lambda>t.
        let (a, w) = new_addr w in
        set_reg f (w\<lparr>tables := (tables w)(a \<mapsto> t)\<rparr>) (argA i) (TTable a)))"

definition op_self :: "caller \<Rightarrow> frame \<Rightarrow> world \<Rightarrow> Instruction \<Rightarrow> world exec" where
  "op_self call f w i =
     ebind (reg f w (argB i)) (\<lambda>rb. ebind (set_reg f w (argA i + 1) rb) (\<lambda>w. ebind (reg f w (argB i)) (\<lambda>t.
     ebind (rk f w (GETARG_C i)) (\<lambda>key.
     ebind (lift (luaV_gettable call w t key)) (\<lambda>(v, w). set_reg f w (argA i) v)))))"

section \<open>Arithmetic and strings\<close>

definition arith_op :: "clib \<Rightarrow> caller \<Rightarrow> TMS \<Rightarrow> frame \<Rightarrow> world \<Rightarrow> Instruction \<Rightarrow> world exec" where
  "arith_op c call tm f w i =
     ebind (rk f w (GETARG_B i)) (\<lambda>rb. ebind (rk f w (GETARG_C i)) (\<lambda>rc.
       case (rb, rc) of
         (TNumber nb, TNumber nc) \<Rightarrow> set_reg f w (argA i) (TNumber (c_arith c tm nb nc))
       | _ \<Rightarrow> ebind (lift (Arith c call w rb rc tm)) (\<lambda>(v, w). set_reg f w (argA i) v)))"

definition op_unm :: "clib \<Rightarrow> caller \<Rightarrow> frame \<Rightarrow> world \<Rightarrow> Instruction \<Rightarrow> world exec" where
  "op_unm c call f w i =
     ebind (reg f w (argB i)) (\<lambda>rb.
       case rb of
         TNumber nb \<Rightarrow> set_reg f w (argA i) (TNumber (c_arith c TM_UNM nb nb))
       | _ \<Rightarrow> ebind (lift (Arith c call w rb rb TM_UNM)) (\<lambda>(v, w). set_reg f w (argA i) v))"

definition op_not :: "frame \<Rightarrow> world \<Rightarrow> Instruction \<Rightarrow> world exec" where
  "op_not f w i =
     ebind (reg f w (argB i)) (\<lambda>rb. set_reg f w (argA i) (TBoolean (if l_isfalse rb then 1 else 0)))"

definition op_len :: "caller \<Rightarrow> frame \<Rightarrow> world \<Rightarrow> Instruction \<Rightarrow> world exec" where
  "op_len call f w i =
     ebind (reg f w (argB i)) (\<lambda>rb.
       case rb of
         TTable a \<Rightarrow> ebind (lift (deref (tables w) a)) (\<lambda>t. ebind (lift (luaH_getn t)) (\<lambda>n.
           set_reg f w (argA i) (TNumber (int_to_double (int n)))))
       | TString s \<Rightarrow> set_reg f w (argA i) (TNumber (int_to_double (int (length s))))
       | _ \<Rightarrow> ebind (lift (call_binTM call w rb TNil TM_LEN)) (\<lambda>r. case r of
           None \<Rightarrow> Inl (Fault (LuaError ''attempt to get length of''))
         | Some (v, w) \<Rightarrow> set_reg f w (argA i) v))"

fun regs :: "frame \<Rightarrow> world \<Rightarrow> nat \<Rightarrow> nat \<Rightarrow> TValue list exec" where
  "regs f w b 0 = Inr []"
| "regs f w b (Suc n) = ebind (reg f w b) (\<lambda>v. ebind (regs f w (Suc b) n) (\<lambda>vs. Inr (v # vs)))"

text \<open>
  The operands are the registers from \<open>B\<close> to \<open>C\<close>; \<open>luaV_concat\<close> leaves its value in the first. (Here the others keep
  their values; in the code they hold intermediate ones.)
\<close>

definition op_concat :: "clib \<Rightarrow> caller \<Rightarrow> frame \<Rightarrow> world \<Rightarrow> Instruction \<Rightarrow> world exec" where
  "op_concat c call f w i =
     ebind (regs f w (argB i) (argC i + 1 - argB i)) (\<lambda>vs.
     ebind (lift (luaV_concat c call w (rev vs))) (\<lambda>(v, w).
     ebind (set_reg f w (argB i) v) (\<lambda>w. set_reg f w (argA i) v)))"

section \<open>Tests and loops\<close>

definition op_jmp :: "world \<Rightarrow> Instruction \<Rightarrow> nat \<Rightarrow> (nat \<times> world) exec" where
  "op_jmp w i pc = ebind (jump_to pc (sint (GETARG_sBx i))) (\<lambda>pc. Inr (pc, w))"

text \<open>EQ, LT and LE differ in the comparison.\<close>

definition compare_op ::
    "(world \<Rightarrow> TValue \<Rightarrow> TValue \<Rightarrow> (bool \<times> world) result) \<Rightarrow> frame \<Rightarrow> world \<Rightarrow> Instruction \<Rightarrow> nat \<Rightarrow> (nat \<times> world) exec" where
  "compare_op cmp f w i pc =
     ebind (rk f w (GETARG_B i)) (\<lambda>rb. ebind (rk f w (GETARG_C i)) (\<lambda>rc.
     ebind (lift (cmp w rb rc)) (\<lambda>(res, w).
     ebind (cond_jump f pc ((if res then 1 else 0) = argA i)) (\<lambda>pc. Inr (pc, w)))))"

definition op_test :: "frame \<Rightarrow> world \<Rightarrow> Instruction \<Rightarrow> nat \<Rightarrow> (nat \<times> world) exec" where
  "op_test f w i pc =
     ebind (reg f w (argA i)) (\<lambda>ra.
     ebind (cond_jump f pc ((if l_isfalse ra then 1 else 0) \<noteq> argC i)) (\<lambda>pc. Inr (pc, w)))"

definition op_testset :: "frame \<Rightarrow> world \<Rightarrow> Instruction \<Rightarrow> nat \<Rightarrow> (nat \<times> world) exec" where
  "op_testset f w i pc =
     ebind (reg f w (argB i)) (\<lambda>rb.
       let b = ((if l_isfalse rb then 1 else 0) \<noteq> argC i) in
       ebind (if b then set_reg f w (argA i) rb else Inr w) (\<lambda>w.
       ebind (cond_jump f pc b) (\<lambda>pc. Inr (pc, w))))"

definition nvalue :: "TValue \<Rightarrow> double exec" where
  "nvalue v = (case v of TNumber n \<Rightarrow> Inr n | _ \<Rightarrow> Inl (Fault UnionMismatch))"

definition op_forloop :: "clib \<Rightarrow> frame \<Rightarrow> world \<Rightarrow> Instruction \<Rightarrow> nat \<Rightarrow> (nat \<times> world) exec" where
  "op_forloop c f w i pc =
     ebind (reg f w (argA i + 2)) (\<lambda>v. ebind (nvalue v) (\<lambda>step.
     ebind (reg f w (argA i)) (\<lambda>v. ebind (nvalue v) (\<lambda>idx.
     ebind (reg f w (argA i + 1)) (\<lambda>v. ebind (nvalue v) (\<lambda>limit.
       let idx = c_arith c TM_ADD idx step in
       if (if dbl_lt 0 step then dbl_le idx limit else dbl_le limit idx)
       then ebind (jump_to pc (sint (GETARG_sBx i))) (\<lambda>pc.
            ebind (set_reg f w (argA i) (TNumber idx)) (\<lambda>w.
            ebind (set_reg f w (argA i + 3) (TNumber idx)) (\<lambda>w. Inr (pc, w))))
       else Inr (pc, w)))))))"

text \<open>The macro \<open>tonumber\<close>: the register becomes the number.\<close>

definition for_number :: "clib \<Rightarrow> frame \<Rightarrow> world \<Rightarrow> nat \<Rightarrow> string \<Rightarrow> (double \<times> world) exec" where
  "for_number c f w r msg =
     ebind (reg f w r) (\<lambda>v. case luaV_tonumber c v of
       None \<Rightarrow> Inl (Fault (LuaError msg))
     | Some n \<Rightarrow> ebind (set_reg f w r (TNumber n)) (\<lambda>w. Inr (n, w)))"

definition op_forprep :: "clib \<Rightarrow> frame \<Rightarrow> world \<Rightarrow> Instruction \<Rightarrow> nat \<Rightarrow> (nat \<times> world) exec" where
  "op_forprep c f w i pc =
     ebind (for_number c f w (argA i) ''for initial value must be a number'') (\<lambda>(init, w).
     ebind (for_number c f w (argA i + 1) ''for limit must be a number'') (\<lambda>(limit, w).
     ebind (for_number c f w (argA i + 2) ''for step must be a number'') (\<lambda>(step, w).
     ebind (set_reg f w (argA i) (TNumber (c_arith c TM_SUB init step))) (\<lambda>w.
     ebind (jump_to pc (sint (GETARG_sBx i))) (\<lambda>pc. Inr (pc, w))))))"

fun set_regs :: "frame \<Rightarrow> world \<Rightarrow> nat \<Rightarrow> TValue list \<Rightarrow> world exec" where
  "set_regs f w r [] = Inr w"
| "set_regs f w r (v # vs) = ebind (set_reg f w r v) (\<lambda>w. set_regs f w (Suc r) vs)"

text \<open>The results of the iterator, cut or filled with nil to \<open>C\<close> of them, take the place of the function.\<close>

definition op_tforloop :: "caller \<Rightarrow> frame \<Rightarrow> world \<Rightarrow> Instruction \<Rightarrow> nat \<Rightarrow> (nat \<times> world) exec" where
  "op_tforloop call f w i pc =
     (let cb = argA i + 3 in
      ebind (reg f w (argA i + 2)) (\<lambda>v2. ebind (set_reg_extra 2 f w (cb + 2) v2) (\<lambda>w.
      ebind (reg f w (argA i + 1)) (\<lambda>v1. ebind (set_reg_extra 2 f w (cb + 1) v1) (\<lambda>w.
      ebind (reg f w (argA i)) (\<lambda>v0. ebind (set_reg_extra 2 f w cb v0) (\<lambda>w.
      ebind (lift (call v0 [v1, v2] w)) (\<lambda>(rs, w).
      ebind (set_regs f w cb (take (argC i) (rs @ replicate (argC i) TNil))) (\<lambda>w.
      ebind (reg f w cb) (\<lambda>v.
        if v \<noteq> TNil
        then ebind (set_reg f w (cb - 1) v) (\<lambda>w. ebind (cond_jump f pc True) (\<lambda>pc. Inr (pc, w)))
        else ebind (cond_jump f pc False) (\<lambda>pc. Inr (pc, w))))))))))))"

section \<open>Lists, closures and varargs\<close>

definition LFIELDS_PER_FLUSH :: int where "LFIELDS_PER_FLUSH = 50"

text \<open>With an open list of values the registers go on up to the top.\<close>

definition open_reg :: "frame \<Rightarrow> nat \<Rightarrow> world \<Rightarrow> nat \<Rightarrow> TValue exec" where
  "open_reg f tp w r = (if f_base f + r < tp \<and> f_base f + r < length (stack w) then Inr (stack w ! (f_base f + r)) else reg f w r)"

fun set_items :: "frame \<Rightarrow> nat \<Rightarrow> world \<Rightarrow> nat \<Rightarrow> Table \<Rightarrow> int \<Rightarrow> nat \<Rightarrow> Table exec" where
  "set_items f tp w a t last' 0 = Inr t"
| "set_items f tp w a t last' (Suc n) =
     ebind (open_reg f tp w (a + Suc n)) (\<lambda>v. ebind (lift (luaH_setnum t (of_int last'))) (\<lambda>(t, s).
     set_items f tp w a (setobj2t t s v) (last' - 1) n))"

definition fits_int :: "int \<Rightarrow> bool" where
  "fits_int x \<longleftrightarrow> - (2 ^ 31) \<le> x \<and> x < 2 ^ 31"

text \<open>The new top, which an open list resets, the position and the state.\<close>

definition op_setlist :: "frame \<Rightarrow> nat \<Rightarrow> world \<Rightarrow> Instruction \<Rightarrow> nat \<Rightarrow> (nat \<times> nat \<times> world) exec" where
  "op_setlist f tp w i pc =
     (let n = (if argB i = 0 then int tp - int (f_base f + argA i) - 1 else int (argB i));
          tp' = (if argB i = 0 then ci_top (f_ci f) else tp) in
      ebind (if argC i = 0 then ebind (fetch f pc) (\<lambda>j. Inr (sint j, pc + 1)) else Inr (int (argC i), pc)) (\<lambda>(c, pc).
      ebind (reg f w (argA i)) (\<lambda>ra. case ra of
        TTable a \<Rightarrow>
          let last' = (c - 1) * LFIELDS_PER_FLUSH + n in
          if \<not> (fits_int (c - 1) \<and> fits_int ((c - 1) * LFIELDS_PER_FLUSH) \<and> fits_int last')
          then Inl (Fault SignedOverflow)
          else ebind (lift (deref (tables w) a)) (\<lambda>h.
            ebind (if last' > int (length (array h)) then lift (luaH_resizearray h (nat last')) else Inr h) (\<lambda>h.
            ebind (set_items f tp w (argA i) h last' (nat n)) (\<lambda>h.
            Inr (tp', pc, w\<lparr>tables := (tables w)(a \<mapsto> h)\<rparr>))))
      | _ \<Rightarrow> Inr (tp', pc, w))))"

text \<open>The instructions after CLOSURE say where its upvalues come from.\<close>

fun closure_upvals :: "frame \<Rightarrow> world \<Rightarrow> nat \<Rightarrow> nat \<Rightarrow> (addr list \<times> world) exec" where
  "closure_upvals f w pc 0 = Inr ([], w)"
| "closure_upvals f w pc (Suc n) =
     ebind (fetch f pc) (\<lambda>j.
     ebind (if is_op OP_GETUPVAL j then ebind (upv f (argB j)) (\<lambda>u. Inr (u, w))
            else if is_op OP_MOVE j \<and> argB j < nregs f then lift (luaF_findupval w (f_base f + argB j))
            else Inl Stray) (\<lambda>(u, w).
     ebind (closure_upvals f w (pc + 1) n) (\<lambda>(us, w). Inr (u # us, w))))"

definition op_closure :: "frame \<Rightarrow> world \<Rightarrow> Instruction \<Rightarrow> nat \<Rightarrow> (nat \<times> world) exec" where
  "op_closure f w i pc =
     (if argBx i < length (pp (f_proto f)) then
        let p = pp (f_proto f) ! argBx i; nup = unat (pnups p); (a, w) = new_addr w in
        ebind (closure_upvals f w pc nup) (\<lambda>(us, w).
        ebind (set_reg f (w\<lparr>closures := (closures w)(a \<mapsto> \<lparr>cproto = p, cenv = cenv (f_cl f), cupvals = us\<rparr>)\<rparr>)
          (argA i) (TFunction a)) (\<lambda>w. Inr (pc + nup, w)))
      else Inl Stray)"

text \<open>The extra arguments lie right below the frame; \<open>k\<close> is the number of them already copied, an open list of them may pass the frame.\<close>

fun copy_varargs :: "frame \<Rightarrow> bool \<Rightarrow> world \<Rightarrow> nat \<Rightarrow> nat \<Rightarrow> nat \<Rightarrow> nat \<Rightarrow> world exec" where
  "copy_varargs f isopen w a n k 0 = Inr w"
| "copy_varargs f isopen w a n k (Suc m) =
     ebind (if k < n then
              if n - k \<le> f_base f \<and> f_base f + k - n < length (stack w) then Inr (stack w ! (f_base f + k - n)) else Inl Stray
            else Inr TNil) (\<lambda>v.
     ebind (set_reg_extra (if isopen then n else 0) f w (a + k) v) (\<lambda>w. copy_varargs f isopen w a n (Suc k) m))"

definition op_vararg :: "frame \<Rightarrow> nat \<Rightarrow> world \<Rightarrow> Instruction \<Rightarrow> (nat \<times> world) exec" where
  "op_vararg f tp w i =
     (let n = nat (int (f_base f) - int (ci_func (f_ci f)) - int (unat (pnumparams (f_proto f))) - 1) in
      if argB i = 0 then
        let w = luaD_checkstack w tp n in
        ebind (copy_varargs f True w (argA i) n 0 n) (\<lambda>w. Inr (f_base f + argA i + n, w))
      else ebind (copy_varargs f False w (argA i) n 0 (argB i - 1)) (\<lambda>w. Inr (tp, w)))"

section \<open>Calls\<close>

datatype precall = PCRLUA frame world | PCRC nat world

definition LUA_MINSTACK :: nat where "LUA_MINSTACK = 20"

text \<open>A C function leaves its results on the top of the stack.\<close>

definition precall_c :: "caller \<Rightarrow> world \<Rightarrow> nat \<Rightarrow> TValue \<Rightarrow> nat \<Rightarrow> int \<Rightarrow> (nat \<times> world) result" where
  "precall_c call w func fv tp nresults =
     (let w = luaD_checkstack w tp LUA_MINSTACK;
          ci = \<lparr>ci_base = func + 1, ci_func = func, ci_top = tp + LUA_MINSTACK, ci_nresults = nresults, ci_tailcalls = 0\<rparr> in
      rbind (call fv (take (tp - (func + 1)) (drop (func + 1) (stack w))) w) (\<lambda>(rs, w).
      rbind (put_slots (luaD_checkstack w tp (length rs)) tp rs) (\<lambda>w. luaD_poscall w ci tp (tp + length rs))))"

text \<open>A frame above the limit of the stack fails the assertion of \<open>luaD_precall\<close>.\<close>

definition luaD_precall :: "caller \<Rightarrow> world \<Rightarrow> nat \<Rightarrow> nat \<Rightarrow> int \<Rightarrow> precall result" where
  "luaD_precall call w func tp nresults =
     rbind (get_slot w func) (\<lambda>v.
     rbind (if isfunction v then Inr (tp, w) else tryfuncTM w func tp) (\<lambda>(tp, w).
     rbind (get_slot w func) (\<lambda>v. case v of
       TFunction a \<Rightarrow>
         (case closures w a of
            Some cl \<Rightarrow>
              rbind (precall_lua w func tp (cproto cl) nresults) (\<lambda>(ci, w).
                if int (ci_top ci) \<le> stack_last w then Inr (PCRLUA \<lparr>f_ci = ci, f_cl = cl, f_pc = 0\<rparr> w)
                else Inl AssertFailed)
          | None \<Rightarrow> rbind (precall_c call w func v tp nresults) (\<lambda>(tp, w). Inr (PCRC tp w)))
     | _ \<Rightarrow> Inl UnionMismatch)))"

text \<open>The registers \<open>a\<close> to \<open>a + n - 1\<close> are in the frame.\<close>

definition span :: "frame \<Rightarrow> world \<Rightarrow> nat \<Rightarrow> nat \<Rightarrow> unit exec" where
  "span f w a n = (if a + n \<le> nregs f \<and> f_base f + a + n \<le> length (stack w) then Inr () else Inl Stray)"

definition op_call :: "caller \<Rightarrow> vm \<Rightarrow> world \<Rightarrow> Instruction \<Rightarrow> nat \<Rightarrow> progress exec" where
  "op_call call m w i pc =
     (let f = (cur m)\<lparr>f_pc := pc\<rparr>; ra = f_base f + argA i; nresults = int (argC i) - 1;
          tp = (if argB i \<noteq> 0 then ra + argB i else vtop m) in
      ebind (span f w (argA i) (argB i)) (\<lambda>_.
      ebind (lift (luaD_precall call w ra tp nresults)) (\<lambda>r. case r of
        PCRLUA g w \<Rightarrow> Inr (Running \<lparr>cur = g, callers = f # callers m, vtop = ci_top (f_ci g)\<rparr> w)
      | PCRC tp w \<Rightarrow> Inr (Running \<lparr>cur = f, callers = callers m, vtop = (if nresults \<ge> 0 then ci_top (f_ci f) else tp)\<rparr> w))))"

text \<open>A tail call of a Lua function moves its new frame down over the one that ends.\<close>

definition op_tailcall :: "caller \<Rightarrow> vm \<Rightarrow> world \<Rightarrow> Instruction \<Rightarrow> nat \<Rightarrow> progress exec" where
  "op_tailcall call m w i pc =
     (let f = (cur m)\<lparr>f_pc := pc\<rparr>; ra = f_base f + argA i;
          tp = (if argB i \<noteq> 0 then ra + argB i else vtop m) in
      ebind (span f w (argA i) (argB i)) (\<lambda>_.
      if int (argC i) - 1 \<noteq> LUA_MULTRET then Inl (Fault AssertFailed) else
      ebind (lift (luaD_precall call w ra tp LUA_MULTRET)) (\<lambda>r. case r of
        PCRLUA g w \<Rightarrow>
          let func = ci_func (f_ci f); pfunc = ci_func (f_ci g) in
          ebind (lift (luaF_close w (f_base f))) (\<lambda>w.
          ebind (lift (move_results w func pfunc (ci_top (f_ci g)) (- 1))) (\<lambda>(tp, j, w).
          let ci = (f_ci f)\<lparr>ci_base := func + (f_base g - pfunc), ci_top := tp, ci_tailcalls := ci_tailcalls (f_ci f) + 1\<rparr> in
          Inr (Running \<lparr>cur = g\<lparr>f_ci := ci\<rparr>, callers = callers m, vtop = tp\<rparr> w)))
      | PCRC tp w \<Rightarrow> Inr (Running \<lparr>cur = f, callers = callers m, vtop = tp\<rparr> w))))"

definition op_return :: "vm \<Rightarrow> world \<Rightarrow> Instruction \<Rightarrow> progress exec" where
  "op_return m w i =
     (let f = cur m; ra = f_base f + argA i; tp = (if argB i \<noteq> 0 then ra + argB i - 1 else vtop m) in
      ebind (span f w (argA i) (argB i - 1)) (\<lambda>_.
      ebind (lift (luaF_close w (f_base f))) (\<lambda>w.
      ebind (lift (luaD_poscall w (f_ci f) ra tp)) (\<lambda>(res, w). case callers m of
        [] \<Rightarrow> Inr (Finished res w)
      | g # gs \<Rightarrow> Inr (Running \<lparr>cur = g, callers = gs,
          vtop = (if ci_nresults (f_ci f) \<noteq> LUA_MULTRET then ci_top (f_ci g) else res)\<rparr> w)))))"

section \<open>The loop\<close>

text \<open>Words that are no instructions are passed over: the \<open>switch\<close> has no default.\<close>

definition exec_op :: "clib \<Rightarrow> caller \<Rightarrow> vm \<Rightarrow> world \<Rightarrow> OpCode \<Rightarrow> Instruction \<Rightarrow> nat \<Rightarrow> progress exec" where
  "exec_op c call m w op i pc =
     (let f = cur m;
          go = (\<lambda>tp pc w. Inr (Running (m\<lparr>cur := f\<lparr>f_pc := pc\<rparr>, vtop := tp\<rparr>) w));
          plain = (\<lambda>r. ebind r (\<lambda>w. go (vtop m) pc w));
          branch = (\<lambda>r. ebind r (\<lambda>(pc, w). go (vtop m) pc w)) in
      case op of
        OP_MOVE \<Rightarrow> plain (op_move f w i)
      | OP_LOADK \<Rightarrow> plain (op_loadk f w i)
      | OP_LOADBOOL \<Rightarrow> branch (op_loadbool f w i pc)
      | OP_LOADNIL \<Rightarrow> plain (op_loadnil f w i)
      | OP_GETUPVAL \<Rightarrow> plain (op_getupval f w i)
      | OP_GETGLOBAL \<Rightarrow> plain (op_getglobal call f w i)
      | OP_GETTABLE \<Rightarrow> plain (op_gettable call f w i)
      | OP_SETGLOBAL \<Rightarrow> plain (op_setglobal call f w i)
      | OP_SETUPVAL \<Rightarrow> plain (op_setupval f w i)
      | OP_SETTABLE \<Rightarrow> plain (op_settable call f w i)
      | OP_NEWTABLE \<Rightarrow> plain (op_newtable f w i)
      | OP_SELF \<Rightarrow> plain (op_self call f w i)
      | OP_ADD \<Rightarrow> plain (arith_op c call TM_ADD f w i)
      | OP_SUB \<Rightarrow> plain (arith_op c call TM_SUB f w i)
      | OP_MUL \<Rightarrow> plain (arith_op c call TM_MUL f w i)
      | OP_DIV \<Rightarrow> plain (arith_op c call TM_DIV f w i)
      | OP_MOD \<Rightarrow> plain (arith_op c call TM_MOD f w i)
      | OP_POW \<Rightarrow> plain (arith_op c call TM_POW f w i)
      | OP_UNM \<Rightarrow> plain (op_unm c call f w i)
      | OP_NOT \<Rightarrow> plain (op_not f w i)
      | OP_LEN \<Rightarrow> plain (op_len call f w i)
      | OP_CONCAT \<Rightarrow> plain (op_concat c call f w i)
      | OP_JMP \<Rightarrow> branch (op_jmp w i pc)
      | OP_EQ \<Rightarrow> branch (compare_op (equalobj call) f w i pc)
      | OP_LT \<Rightarrow> branch (compare_op (luaV_lessthan (c_strcoll c) call) f w i pc)
      | OP_LE \<Rightarrow> branch (compare_op (lessequal (c_strcoll c) call) f w i pc)
      | OP_TEST \<Rightarrow> branch (op_test f w i pc)
      | OP_TESTSET \<Rightarrow> branch (op_testset f w i pc)
      | OP_CALL \<Rightarrow> op_call call m w i pc
      | OP_TAILCALL \<Rightarrow> op_tailcall call m w i pc
      | OP_RETURN \<Rightarrow> op_return m w i
      | OP_FORLOOP \<Rightarrow> branch (op_forloop c f w i pc)
      | OP_FORPREP \<Rightarrow> branch (op_forprep c f w i pc)
      | OP_TFORLOOP \<Rightarrow> ebind (op_tforloop call f w i pc) (\<lambda>(pc, w). go (ci_top (f_ci f)) pc w)
      | OP_SETLIST \<Rightarrow> ebind (op_setlist f (vtop m) w i pc) (\<lambda>(tp, pc, w). go tp pc w)
      | OP_CLOSE \<Rightarrow> plain (lift (luaF_close w (f_base f + argA i)))
      | OP_CLOSURE \<Rightarrow> branch (op_closure f w i pc)
      | OP_VARARG \<Rightarrow> ebind (op_vararg f (vtop m) w i) (\<lambda>(tp, w). go tp pc w))"

definition exec_step :: "clib \<Rightarrow> caller \<Rightarrow> vm \<Rightarrow> world \<Rightarrow> progress exec" where
  "exec_step c call m w =
     (let pc = f_pc (cur m) in
      ebind (fetch (cur m) pc) (\<lambda>i. case opcode_of (GET_OPCODE i) of
        None \<Rightarrow> Inr (Running (m\<lparr>cur := (cur m)\<lparr>f_pc := pc + 1\<rparr>\<rparr>) w)
      | Some op \<Rightarrow> exec_op c call m w op i (pc + 1)))"

text \<open>At most \<open>n\<close> instructions; a program need not end.\<close>

fun luaV_execute :: "nat \<Rightarrow> clib \<Rightarrow> caller \<Rightarrow> vm \<Rightarrow> world \<Rightarrow> (nat \<times> world) exec" where
  "luaV_execute 0 c call m w = Inl (Fault OutOfFuel)"
| "luaV_execute (Suc n) c call m w =
     ebind (exec_step c call m w) (\<lambda>r. case r of
       Running m w \<Rightarrow> luaV_execute n c call m w
     | Finished res w \<Rightarrow> Inr (res, w))"

end
