(* ===== verification/LuaFrameSpec.thy ===== *)
theory LuaFrameSpec
  imports LuaFrame LuaDebug
begin

text \<open>
  A Lua function gets a frame with its arguments that fits the stack, unless it is a vararg function called with
  too few arguments; closing upvalues keeps their values.
\<close>

section \<open>Writing to the stack\<close>

definition overwrite :: "'a list \<Rightarrow> nat \<Rightarrow> 'a list \<Rightarrow> 'a list" where
  "overwrite xs i vs = take i xs @ vs @ drop (i + length vs) xs"

lemma overwrite_length [simp]: "i + length vs \<le> length xs \<Longrightarrow> length (overwrite xs i vs) = length xs"
  by (simp add: overwrite_def)

lemma overwrite_nth: "i + length vs \<le> length xs \<Longrightarrow> j < length xs \<Longrightarrow>
    overwrite xs i vs ! j = (if i \<le> j \<and> j < i + length vs then vs ! (j - i) else xs ! j)"
  by (auto simp: overwrite_def nth_append)

lemma put_slots_overwrite:
  "i + length vs \<le> length (stack w) \<Longrightarrow> put_slots w i vs = Inr (w\<lparr>stack := overwrite (stack w) i vs\<rparr>)"
proof (induction vs arbitrary: w i)
  case Nil
  then show ?case by (simp add: overwrite_def)
next
  case (Cons v vs)
  then have "i < length (stack w)" by simp
  then have "overwrite ((stack w)[i := v]) (Suc i) vs = overwrite (stack w) i (v # vs)"
    by (simp add: overwrite_def take_Suc_conv_app_nth)
  with Cons show ?case by (simp add: put_slot_def)
qed

lemma put_slots_beyond:
  "i \<le> length (stack w) \<Longrightarrow> length (stack w) < i + length vs \<Longrightarrow> put_slots w i vs = Inl InvalidPointer"
proof (induction vs arbitrary: w i)
  case (Cons v vs)
  show ?case
  proof (cases "i < length (stack w)")
    case True
    then show ?thesis using Cons.IH [of "Suc i" "w\<lparr>stack := (stack w)[i := v]\<rparr>"] Cons.prems by (simp add: put_slot_def)
  qed (simp add: put_slot_def)
qed simp

lemma move_fixed_moves:
  assumes "lo + k \<le> tp" "tp + k \<le> length (stack w)"
  shows "\<exists>s. move_fixed w lo tp k = Inr (tp + k, w\<lparr>stack := s\<rparr>) \<and> length s = length (stack w) \<and>
    (\<forall>j. j < length s \<longrightarrow> s ! j = (if tp \<le> j \<and> j < tp + k then stack w ! (lo + (j - tp))
       else if lo \<le> j \<and> j < lo + k then TNil else stack w ! j))"
  using assms
proof (induction k arbitrary: w lo tp)
  case 0
  then show ?case by (auto intro!: exI [of _ "stack w"])
next
  case (Suc k)
  define s1 where "s1 = (stack w)[tp := stack w ! lo, lo := TNil]"
  have "lo < length (stack w)" "tp < length (stack w)" using Suc.prems by simp_all
  then have step: "move_fixed w lo tp (Suc k) = move_fixed (w\<lparr>stack := s1\<rparr>) (Suc lo) (Suc tp) k"
    by (simp add: get_slot_def put_slot_def s1_def)
  from Suc.IH [of "Suc lo" "Suc tp" "w\<lparr>stack := s1\<rparr>"] Suc.prems
  obtain s where s: "move_fixed (w\<lparr>stack := s1\<rparr>) (Suc lo) (Suc tp) k = Inr (Suc tp + k, w\<lparr>stack := s\<rparr>)" "length s = length s1"
    "\<And>j. j < length s \<Longrightarrow> s ! j = (if Suc tp \<le> j \<and> j < Suc tp + k then s1 ! (Suc lo + (j - Suc tp))
       else if Suc lo \<le> j \<and> j < Suc lo + k then TNil else s1 ! j)" by (auto simp: s1_def)
  have "s ! j = (if tp \<le> j \<and> j < tp + Suc k then stack w ! (lo + (j - tp))
       else if lo \<le> j \<and> j < lo + Suc k then TNil else stack w ! j)" if "j < length s" for j
  proof (cases "Suc tp \<le> j \<and> j < Suc tp + k")
    case True
    then have "s ! j = s1 ! (Suc lo + (j - Suc tp))" using s(3) [OF that] by simp
    moreover have "Suc lo + (j - Suc tp) = lo + (j - tp)" "lo + (j - tp) < tp" "lo + (j - tp) \<noteq> lo"
      using True Suc.prems by linarith+
    ultimately show ?thesis using True by (simp add: s1_def)
  next
    case False
    then show ?thesis using s(3) [OF that] Suc.prems that s(2) by (auto simp: s1_def nth_list_update)
  qed
  then show ?case using step s(1,2) by (auto simp: s1_def intro!: exI [of _ s])
qed

section \<open>Growing\<close>

lemma checkstack_room:
  assumes "int tp \<le> stack_last w"
  shows "int tp + int n < stack_last (luaD_checkstack w tp n)"
    and "length (stack w) \<le> length (stack (luaD_checkstack w tp n))"
    and "i < length (stack w) \<Longrightarrow> stack (luaD_checkstack w tp n) ! i = stack w ! i"
    and "\<exists>s. luaD_checkstack w tp n = w\<lparr>stack := s\<rparr>"
  using assms
  by (auto simp: luaD_checkstack_def luaD_growstack_def luaD_reallocstack_def stack_last_def EXTRA_STACK_def Let_def nth_append
      intro: exI [of _ "stack w"])

section \<open>Entering a function\<close>

abbreviation activation :: "nat \<Rightarrow> nat \<Rightarrow> nat \<Rightarrow> int \<Rightarrow> CallInfo" where
  "activation func base citop nr \<equiv>
     \<lparr>ci_base = base, ci_func = func, ci_top = citop, ci_nresults = nr, ci_tailcalls = 0\<rparr>"

lemma move_fixed_beyond:
  assumes "lo + k \<le> tp" "tp \<le> length (stack w)" "length (stack w) < tp + k"
  shows "move_fixed w lo tp k = Inl InvalidPointer"
  using assms
proof (induction k arbitrary: w lo tp)
  case (Suc k)
  show ?case
  proof (cases "tp < length (stack w)")
    case True
    define s1 where "s1 = (stack w)[tp := stack w ! lo, lo := TNil]"
    have "move_fixed w lo tp (Suc k) = move_fixed (w\<lparr>stack := s1\<rparr>) (Suc lo) (Suc tp) k"
      using True Suc.prems by (simp add: get_slot_def put_slot_def s1_def)
    moreover have "move_fixed (w\<lparr>stack := s1\<rparr>) (Suc lo) (Suc tp) k = Inl InvalidPointer"
      by (rule Suc.IH) (use True Suc.prems in \<open>simp_all add: s1_def\<close>)
    ultimately show ?thesis by simp
  next
    case False
    then show ?thesis using Suc.prems by (simp add: get_slot_def put_slot_def)
  qed
qed simp

lemma precheck_params:
  assumes "precheck p"
  shows "unat (pnumparams p) \<le> unat (pmaxstacksize p)"
proof -
  have "uint (pnumparams p) \<le> maxstack p" using assms uint_ge_0 [of "pis_vararg p AND VARARG_HASARG"]
    unfolding precheck_def by linarith
  then have "int (unat (pnumparams p)) \<le> int (unat (pmaxstacksize p))" by (simp add: maxstack_def)
  then show ?thesis by (simp only: of_nat_le_iff)
qed

lemma precall_fixed:
  assumes nk: "n = unat (pmaxstacksize p)" "k = unat (pnumparams p)" and p: "precheck p" "pis_vararg p = 0" and tp: "func < tp" "int tp \<le> stack_last w"
  shows "\<exists>w'. precall_lua w func tp p nr = Inr (activation func (func + 1) (func + 1 + n) nr, w') \<and>
    int (func + 1 + n) \<le> stack_last w' \<and>
    (\<forall>i < n. stack w' ! (func + 1 + i) =
       (if i < k \<and> func + 1 + i < tp then stack w ! (func + 1 + i) else TNil))"
proof -
  define w1 where "w1 = luaD_checkstack w tp n"
  note room = checkstack_room [OF tp(2), where n = n, folded w1_def]
  have big: "tp + n + 6 < length (stack w1)" using room(1) by (simp add: stack_last_def EXTRA_STACK_def)
  define tp1 where "tp1 = (if tp > func + 1 + k then func + 1 + k else tp)"
  have n: "k \<le> n" using precheck_params [OF p(1)] nk by simp
  have tp1: "func < tp1" "tp1 \<le> tp" "tp1 \<le> func + 1 + n" "tp \<le> length (stack w)"
    using tp n by (auto simp: tp1_def stack_last_def)
  let ?vs = "replicate (func + 1 + n - tp1) TNil"
  have fits: "tp1 + length ?vs \<le> length (stack w1)" using tp1 big by simp
  let ?w = "w1\<lparr>stack := overwrite (stack w1) tp1 ?vs\<rparr>"
  have "precall_lua w func tp p nr = Inr (activation func (func + 1) (func + 1 + n) nr, ?w)"
    unfolding precall_lua_def nk [symmetric] w1_def [symmetric] Let_def tp1_def [symmetric]
    using p(2) put_slots_overwrite [OF fits] by simp
  moreover have "int (func + 1 + n) \<le> stack_last ?w"
    using fits tp1 big by (simp add: stack_last_def EXTRA_STACK_def)
  moreover have "stack ?w ! (func + 1 + i) =
      (if i < k \<and> func + 1 + i < tp then stack w ! (func + 1 + i) else TNil)" if "i < n" for i
  proof -
    have "func + 1 + i < length (stack w1)" using that tp1 big by simp
    moreover have "func + 1 + i < tp1 \<longleftrightarrow> i < k \<and> func + 1 + i < tp" by (auto simp: tp1_def)
    ultimately show ?thesis using that fits tp1 room(3)
      by (cases "func + 1 + i < tp1") (auto simp: overwrite_nth)
  qed
  ultimately show ?thesis by blast
qed

lemma precall_vararg:
  assumes nk: "n = unat (pmaxstacksize p)" "k = unat (pnumparams p)" and p: "precheck p" "pis_vararg p \<noteq> 0" "pis_vararg p AND VARARG_NEEDSARG = 0"
    and tp: "func < tp" "int tp \<le> stack_last w" and enough: "func + 1 + k \<le> tp"
  shows "\<exists>w'. precall_lua w func tp p nr = Inr (activation func tp (tp + n) nr, w') \<and>
    int (tp + n) \<le> stack_last w' \<and>
    (\<forall>i < n. stack w' ! (tp + i) = (if i < k then stack w ! (func + 1 + i) else TNil)) \<and>
    (\<forall>j. func + 1 + k \<le> j \<longrightarrow> j < tp \<longrightarrow> stack w' ! j = stack w ! j)"
proof -
  define w1 where "w1 = luaD_checkstack w tp n"
  note room = checkstack_room [OF tp(2), where n = n, folded w1_def]
  have big: "tp + n + 6 < length (stack w1)" using room(1) by (simp add: stack_last_def EXTRA_STACK_def)
  have n: "k \<le> n" using precheck_params [OF p(1)] nk by simp
  have len: "tp \<le> length (stack w)" using tp by (simp add: stack_last_def)
  have "tp + k \<le> length (stack w1)" using n big by simp
  from move_fixed_moves [OF enough this] obtain s where
    s: "move_fixed w1 (func + 1) tp k = Inr (tp + k, w1\<lparr>stack := s\<rparr>)" "length s = length (stack w1)"
    "\<And>j. j < length s \<Longrightarrow> s ! j = (if tp \<le> j \<and> j < tp + k then stack w1 ! (func + 1 + (j - tp))
       else if func + 1 \<le> j \<and> j < func + 1 + k then TNil else stack w1 ! j)" by blast
  define ac where "ac = int tp - int func - 1"
  have act: "nat (int k - ac) = 0" "tp - nat ac = func + 1" "nat ac = tp - (func + 1)"
    unfolding ac_def using enough tp(1) by linarith+
  have adj: "adjust_varargs w1 tp p ac = Inr (tp, tp + k, w1\<lparr>stack := s\<rparr>)"
    unfolding adjust_varargs_def nk [symmetric] Let_def act
    using s(1) p(3) act(2) by simp
  let ?vs = "replicate (n - k) TNil"
  have fits: "tp + k + length ?vs \<le> length s" using n big s(2) by simp
  let ?w = "w1\<lparr>stack := overwrite s (tp + k) ?vs\<rparr>"
  have "put_slots (w1\<lparr>stack := s\<rparr>) (tp + k) ?vs = Inr ?w"
    using put_slots_overwrite [of "tp + k" ?vs "w1\<lparr>stack := s\<rparr>"] fits by simp
  then have "precall_lua w func tp p nr = Inr (activation func tp (tp + n) nr, ?w)"
    using p(2) adj by (simp add: precall_lua_def nk [symmetric] w1_def [symmetric] ac_def [symmetric] Let_def)
  moreover have "int (tp + n) \<le> stack_last ?w" using fits s(2) big by (simp add: stack_last_def EXTRA_STACK_def)
  moreover have "stack ?w ! (tp + i) = (if i < k then stack w ! (func + 1 + i) else TNil)" if i: "i < n" for i
  proof -
    have "tp + i < length s" using i big s(2) by simp
    moreover have "i < k \<Longrightarrow> stack w1 ! (func + 1 + i) = stack w ! (func + 1 + i)"
      using room(3) enough len by simp
    ultimately show ?thesis using i fits s(3) [of "tp + i"] by (simp add: overwrite_nth)
  qed
  moreover have "stack ?w ! j = stack w ! j" if j: "func + 1 + k \<le> j" "j < tp" for j
  proof -
    have "j < length s" using j len room(2) s(2) by simp
    then show ?thesis using j fits s(3) [of j] room(3) len by (simp add: overwrite_nth)
  qed
  ultimately show ?thesis by blast
qed

text \<open>
  C29. Entering a Lua function that the code checker accepts: unless it is a vararg function called with fewer arguments
  than it has parameters (or one of the old style, with the table \<open>arg\<close>), \<open>luaD_precall\<close> grows the stack so that the
  whole frame of the function, up to its \<open>maxstacksize\<close>, lies below the end of the stack, with the arguments in the
  first registers and nil in all others; the extra arguments stay right below the frame.
\<close>

theorem precall_frame:
  assumes p: "precheck p" "pis_vararg p AND VARARG_NEEDSARG = 0" and tp: "func < tp" "int tp \<le> stack_last w"
    and enough: "pis_vararg p = 0 \<or> func + 1 + unat (pnumparams p) \<le> tp"
  shows "\<exists>ci w'. precall_lua w func tp p nr = Inr (ci, w') \<and> ci_func ci = func \<and> func < ci_base ci \<and>
    ci_top ci = ci_base ci + unat (pmaxstacksize p) \<and> int (ci_top ci) \<le> stack_last w' \<and>
    (\<forall>i < unat (pmaxstacksize p). stack w' ! (ci_base ci + i) =
      (if i < unat (pnumparams p) \<and> func + 1 + i < tp then stack w ! (func + 1 + i) else TNil)) \<and>
    (pis_vararg p \<noteq> 0 \<longrightarrow> ci_base ci = tp \<and>
      (\<forall>j. func + 1 + unat (pnumparams p) \<le> j \<longrightarrow> j < tp \<longrightarrow> stack w' ! j = stack w ! j))"
proof (cases "pis_vararg p = 0")
  case True
  from precall_fixed [OF refl refl p(1) True tp] obtain w' where
    "precall_lua w func tp p nr = Inr (activation func (func + 1) (func + 1 + unat (pmaxstacksize p)) nr, w')"
    "int (func + 1 + unat (pmaxstacksize p)) \<le> stack_last w'"
    "\<forall>i < unat (pmaxstacksize p). stack w' ! (func + 1 + i) =
       (if i < unat (pnumparams p) \<and> func + 1 + i < tp then stack w ! (func + 1 + i) else TNil)" by blast
  then show ?thesis using True
    by (intro exI [of _ "activation func (func + 1) (func + 1 + unat (pmaxstacksize p)) nr"] exI [of _ w']) simp
next
  case False
  with enough have e: "func + 1 + unat (pnumparams p) \<le> tp" by blast
  from precall_vararg [OF refl refl p(1) False p(2) tp e] obtain w' where
    "precall_lua w func tp p nr = Inr (activation func tp (tp + unat (pmaxstacksize p)) nr, w')"
    "int (tp + unat (pmaxstacksize p)) \<le> stack_last w'"
    "\<forall>i < unat (pmaxstacksize p). stack w' ! (tp + i) = (if i < unat (pnumparams p) then stack w ! (func + 1 + i) else TNil)"
    "\<forall>j. func + 1 + unat (pnumparams p) \<le> j \<longrightarrow> j < tp \<longrightarrow> stack w' ! j = stack w ! j" by blast
  then show ?thesis using e tp
    by (intro exI [of _ "activation func tp (tp + unat (pmaxstacksize p)) nr"] exI [of _ w']) auto
qed

text \<open>A function of \<open>n\<close> parameters and registers that only returns.\<close>

definition returner :: "u8 \<Rightarrow> u8 \<Rightarrow> Proto" where
  "returner n va = Proto [] [0x80001E] [] [] [] [] None 0 0 0 n va n"

definition stack_of :: "nat \<Rightarrow> world" where
  "stack_of n = \<lparr>stack = replicate n TNil, tables = Map.empty, udata_mt = Map.empty, basic_mt = (\<lambda>_. None),
     closures = Map.empty, upvals = Map.empty, openupval = [], next_addr = 0\<rparr>"

lemma returner_precheck: "precheck (returner 2 0)" "precheck (returner 200 2)"
  by (simp_all add: precheck_def returner_def maxstack_def MAXSTACK_def VARARG_HASARG_def VARARG_NEEDSARG_def
      sizecode_def is_op_def GET_OPCODE_def get_field_def opcode_num_def opcodes_def MASK1_def mask_eq_exp_minus_1)

theorem precall_frame_witness:
  "\<exists>ci w'. precall_lua (stack_of 40) 3 5 (returner 2 0) 1 = Inr (ci, w') \<and> ci_top ci = ci_base ci + 2"
  using precall_frame [OF returner_precheck(1), of 3 5 "stack_of 40" 1]
  by (auto simp: returner_def stack_of_def stack_last_def EXTRA_STACK_def)

text \<open>
  C30. A vararg function called with fewer arguments than parameters overflows the stack: \<open>luaD_precall\<close> asks
  for \<open>maxstacksize\<close> slots above the arguments, but \<open>adjust_varargs\<close> first pushes the missing parameters, so that the
  frame can end beyond the allocated stack, which is then written.
\<close>

theorem vararg_frame_overflows:
  assumes p: "precheck p" "pis_vararg p \<noteq> 0" "pis_vararg p AND VARARG_NEEDSARG = 0"
    and tp: "func < tp" "int tp \<le> stack_last w" and few: "tp < func + 1 + unat (pnumparams p)"
    and size: "length (stack (luaD_checkstack w tp (unat (pmaxstacksize p)))) <
      func + 1 + unat (pnumparams p) + unat (pmaxstacksize p)"
  shows "precall_lua w func tp p nr = Inl InvalidPointer"
proof -
  define n k where "n = unat (pmaxstacksize p)" and "k = unat (pnumparams p)"
  define w1 where "w1 = luaD_checkstack w tp n"
  note room = checkstack_room [OF tp(2), where n = n, folded w1_def]
  have big: "tp + n + 6 < length (stack w1)" using room(1) by (simp add: stack_last_def EXTRA_STACK_def)
  have kn: "k \<le> n" using precheck_params [OF p(1)] by (simp add: n_def k_def)
  define m where "m = func + 1 + k - tp"
  have m: "tp + m = func + 1 + k" "m \<le> k" using few tp(1) by (simp_all add: m_def k_def)
  let ?vs = "replicate m TNil"
  have fits: "tp + length ?vs \<le> length (stack w1)" using big m kn by simp
  define s where "s = overwrite (stack w1) tp ?vs"
  have s: "length s = length (stack w1)" using fits by (simp add: s_def)
  define ac where "ac = int tp - int func - 1"
  have act: "nat (int k - ac) = m" "nat (ac + int m) = k" "tp + m - k = func + 1" "k - k = 0"
    unfolding ac_def using m few tp(1) by linarith+
  have adj: "adjust_varargs w1 tp p ac =
      rbind (move_fixed (w1\<lparr>stack := s\<rparr>) (func + 1) (tp + m) k) (\<lambda>(tp', w). Inr (tp + m, tp', w))"
    unfolding adjust_varargs_def k_def [symmetric] Let_def act
    using put_slots_overwrite [OF fits] p(3) by (simp add: s_def)
  have short: "length s < tp + m + n" using size s m by (simp add: w1_def n_def k_def)
  have pre: "precall_lua w func tp p nr = rbind (adjust_varargs w1 tp p ac) (\<lambda>(base, tp, w).
      rbind (put_slots w tp (replicate (base + n - tp) TNil)) (\<lambda>w. Inr (activation func base (base + n) nr, w)))"
    unfolding precall_lua_def n_def [symmetric] w1_def [symmetric] Let_def ac_def [symmetric] using p(2) by simp
  show ?thesis
  proof (cases "tp + m + k \<le> length s")
    case True
    from move_fixed_moves [of "func + 1" k "tp + m" "w1\<lparr>stack := s\<rparr>"] m True obtain s' where
      s': "move_fixed (w1\<lparr>stack := s\<rparr>) (func + 1) (tp + m) k = Inr (tp + m + k, w1\<lparr>stack := s'\<rparr>)" "length s' = length s"
      by auto
    have "put_slots (w1\<lparr>stack := s'\<rparr>) (tp + m + k) (replicate (tp + m + n - (tp + m + k)) TNil) = Inl InvalidPointer"
      by (rule put_slots_beyond) (use True s' short kn in auto)
    then show ?thesis using s'(1) by (simp add: pre adj)
  next
    case False
    have "move_fixed (w1\<lparr>stack := s\<rparr>) (func + 1) (tp + m) k = Inl InvalidPointer"
      by (rule move_fixed_beyond) (use m False big kn s in auto)
    then show ?thesis by (simp add: pre adj)
  qed
qed

theorem vararg_frame_overflows_witness:
  "precall_lua (stack_of 300) 0 1 (returner 200 2) 1 = Inl InvalidPointer"
  by (rule vararg_frame_overflows [OF returner_precheck(2)])
    (simp_all add: returner_def stack_of_def stack_last_def EXTRA_STACK_def VARARG_NEEDSARG_def luaD_checkstack_def)

section \<open>Returning\<close>

lemma move_results_moves:
  assumes "res < first" "first \<le> tp" "tp \<le> length (stack w)"
    and "m = (if i < 0 then tp - first else min (nat i) (tp - first))"
  shows "\<exists>s. move_results w res first tp i = Inr (res + m, i - int m, w\<lparr>stack := s\<rparr>) \<and> length s = length (stack w) \<and>
    (\<forall>j. j < length s \<longrightarrow> s ! j = (if res \<le> j \<and> j < res + m then stack w ! (first + (j - res)) else stack w ! j))"
  using assms
proof (induction m arbitrary: w res first i)
  case 0
  then have "\<not> (i \<noteq> 0 \<and> first < tp)" by (auto split: if_splits)
  then show ?case by (subst move_results.simps) (auto intro!: exI [of _ "stack w"])
next
  case (Suc m)
  then have more: "i \<noteq> 0" "first < tp" "first < length (stack w)" "res < length (stack w)" by (auto split: if_splits)
  define w1 where "w1 = w\<lparr>stack := (stack w)[res := stack w ! first]\<rparr>"
  have step: "move_results w res first tp i = move_results w1 (Suc res) (Suc first) tp (i - 1)"
    using more by (subst move_results.simps) (simp add: get_slot_def put_slot_def w1_def)
  have "m = (if i - 1 < 0 then tp - Suc first else min (nat (i - 1)) (tp - Suc first))"
    using Suc.prems(4) more by (auto split: if_splits)
  then obtain s where s: "move_results w1 (Suc res) (Suc first) tp (i - 1) = Inr (Suc res + m, i - 1 - int m, w1\<lparr>stack := s\<rparr>)"
    "length s = length (stack w1)"
    "\<And>j. j < length s \<Longrightarrow> s ! j =
       (if Suc res \<le> j \<and> j < Suc res + m then stack w1 ! (Suc first + (j - Suc res)) else stack w1 ! j)"
    using Suc.IH [of "Suc res" "Suc first" w1 "i - 1"] Suc.prems more by (auto simp: w1_def)
  have "s ! j = (if res \<le> j \<and> j < res + Suc m then stack w ! (first + (j - res)) else stack w ! j)" if "j < length s" for j
    using s(3) [OF that] Suc.prems(1) more by (auto simp: w1_def nth_list_update Suc_diff_Suc)
  then show ?case using step s(1,2) by (intro exI [of _ s]) (simp add: w1_def)
qed

text \<open>
  C31. Returning delivers exactly what the caller asked for: \<open>luaD_poscall\<close> puts the results, in order, into the slots from the called
  function on, as many as there are for \<open>LUA_MULTRET\<close> and else as many as wanted, cut or filled up with nil;
  the top is the slot after them and no other slot changes.
\<close>

theorem poscall_delivers:
  assumes pos: "ci_func ci < first" "first \<le> tp" "tp \<le> length (stack w)"
    and wanted: "- 1 \<le> ci_nresults ci" "ci_func ci + nat (ci_nresults ci) \<le> length (stack w)"
    and n: "n = (if ci_nresults ci = - 1 then tp - first else nat (ci_nresults ci))"
  shows "\<exists>s. luaD_poscall w ci first tp = Inr (ci_func ci + n, w\<lparr>stack := s\<rparr>) \<and> length s = length (stack w) \<and>
    (\<forall>j < n. s ! (ci_func ci + j) = (if first + j < tp then stack w ! (first + j) else TNil)) \<and>
    (\<forall>j < length s. j < ci_func ci \<or> ci_func ci + n \<le> j \<longrightarrow> s ! j = stack w ! j)"
proof -
  define res i where "res = ci_func ci" and "i = ci_nresults ci"
  define m where "m = (if i < 0 then tp - first else min (nat i) (tp - first))"
  from move_results_moves [OF pos m_def [unfolded i_def]] obtain s where
    s: "move_results w res first tp i = Inr (res + m, i - int m, w\<lparr>stack := s\<rparr>)" "length s = length (stack w)"
    "\<And>j. j < length s \<Longrightarrow> s ! j = (if res \<le> j \<and> j < res + m then stack w ! (first + (j - res)) else stack w ! j)"
    by (auto simp: res_def i_def)
  let ?vs = "replicate (nat (i - int m)) TNil"
  have fill: "m + nat (i - int m) = n" "m \<le> tp - first" "m < n \<Longrightarrow> m = tp - first"
    using wanted(1) n by (auto simp: m_def i_def)
  have len: "res + n \<le> length s" using wanted n pos s(2) by (auto simp: res_def split: if_splits)
  have fits: "res + m + length ?vs \<le> length s" using fill(1) len by simp
  have run: "luaD_poscall w ci first tp = Inr (res + n, w\<lparr>stack := overwrite s (res + m) ?vs\<rparr>)"
    using s(1) put_slots_overwrite [of "res + m" ?vs "w\<lparr>stack := s\<rparr>"] fits fill(1)
    by (simp add: luaD_poscall_def res_def i_def add.assoc)
  moreover have "overwrite s (res + m) ?vs ! (res + j) = (if first + j < tp then stack w ! (first + j) else TNil)" if "j < n" for j
  proof (cases "j < m")
    case True
    then have "first + j < tp" using fill(2) by linarith
    then show ?thesis using s(3) [of "res + j"] fits True that len by (simp add: overwrite_nth)
  next
    case False
    then have "\<not> first + j < tp" using fill(3) that by linarith
    then show ?thesis using that False fits fill(1) len by (simp add: overwrite_nth)
  qed
  moreover have "overwrite s (res + m) ?vs ! j = stack w ! j" if "j < length s" "j < res \<or> res + n \<le> j" for j
    using that s(3) [of j] fits fill by (auto simp: overwrite_nth)
  ultimately show ?thesis using s(2) fits unfolding res_def
    by (intro exI [of _ "overwrite s (res + m) ?vs"]) (simp add: res_def)
qed

theorem poscall_delivers_witness:
  "\<exists>s. luaD_poscall (stack_of 40) (activation 3 4 20 2) 9 10 = Inr (5, (stack_of 40)\<lparr>stack := s\<rparr>) \<and> s ! 3 = TNil \<and> s ! 4 = TNil"
  using poscall_delivers [of "activation 3 4 20 2" 9 10 "stack_of 40" 2]
  by (auto simp: stack_of_def numeral_2_eq_2 less_Suc_eq)

section \<open>Upvalues\<close>

definition level :: "world \<Rightarrow> addr \<Rightarrow> nat" where
  "level w a = (case upvals w a of Some (Open n) \<Rightarrow> n | _ \<Rightarrow> 0)"

text \<open>
  The list of open upvalues has all of them, at slots of the stack, the highest first and no slot twice; addresses from
  \<open>next_addr\<close> on are free.
\<close>

definition open_ok :: "world \<Rightarrow> bool" where
  "open_ok w \<longleftrightarrow> (\<forall>a \<in> set (openupval w). \<exists>n < length (stack w). upvals w a = Some (Open n)) \<and>
     sorted_wrt (\<lambda>a b. level w b < level w a) (openupval w) \<and>
     (\<forall>a n. upvals w a = Some (Open n) \<longrightarrow> a \<in> set (openupval w)) \<and>
     (\<forall>a. next_addr w \<le> a \<longrightarrow> upvals w a = None)"

lemma find_open_finds:
  assumes "\<forall>a \<in> set ps. \<exists>n. upvals w a = Some (Open n)" and "sorted_wrt (\<lambda>a b. level w b < level w a) ps"
  shows "(\<exists>p \<in> set ps. level w p = l \<and> find_open w l qs ps = Inr (Inl p)) \<or>
    (\<exists>hi lo. ps = hi @ lo \<and> (\<forall>a \<in> set hi. l < level w a) \<and> (\<forall>a \<in> set lo. level w a < l) \<and>
      find_open w l qs ps = Inr (Inr (qs @ hi, lo)))"
  using assms
proof (induction ps arbitrary: qs)
  case (Cons p ps)
  obtain n where n: "upvals w p = Some (Open n)" using Cons.prems(1) by auto
  then have lv: "level w p = n" "open_level w p = Inr n" by (simp_all add: level_def open_level_def deref_def)
  have rest: "\<forall>a \<in> set ps. \<exists>n. upvals w a = Some (Open n)" "sorted_wrt (\<lambda>a b. level w b < level w a) ps"
    and below: "\<And>a. a \<in> set ps \<Longrightarrow> level w a < n"
    using Cons.prems lv by simp_all
  consider "n < l" | "n = l" | "l < n" by linarith
  then show ?case
  proof cases
    case 1
    then have "\<forall>a \<in> set (p # ps). level w a < l" using below lv by force
    then show ?thesis using lv 1 by (intro disjI2 exI [of _ "[]"] exI [of _ "p # ps"]) simp
  next
    case 2
    then show ?thesis using lv by simp
  next
    case 3
    have step: "find_open w l qs (p # ps) = find_open w l (qs @ [p]) ps" using 3 lv by simp
    from Cons.IH [OF rest, of "qs @ [p]"] show ?thesis
    proof (elim disjE bexE exE conjE)
      fix hi lo assume h: "ps = hi @ lo" "\<forall>a \<in> set hi. l < level w a" "\<forall>a \<in> set lo. level w a < l"
        "find_open w l (qs @ [p]) ps = Inr (Inr ((qs @ [p]) @ hi, lo))"
      then show ?thesis using 3 lv step by (intro disjI2 exI [of _ "p # hi"] exI [of _ lo]) simp
    qed (use step in auto)
  qed
qed simp

text \<open>
  Closures share their upvalues: on a sound list of open upvalues \<open>luaF_findupval\<close> gives an upvalue that is open at the slot, the only
  one, which a second search finds again; other upvalues are untouched and the list stays sound.
\<close>

theorem findupval_shares:
  assumes ok: "open_ok w" and l: "l < length (stack w)"
  shows "\<exists>a w'. luaF_findupval w l = Inr (a, w') \<and> open_ok w' \<and> upvals w' a = Some (Open l) \<and>
    (\<forall>b. upvals w' b = Some (Open l) \<longrightarrow> b = a) \<and> (\<forall>b. b \<noteq> a \<longrightarrow> upvals w' b = upvals w b) \<and>
    luaF_findupval w' l = Inr (a, w')"
proof -
  let ?ps = "openupval w"
  have op: "\<forall>a \<in> set ?ps. \<exists>n. upvals w a = Some (Open n)" and sorted: "sorted_wrt (\<lambda>a b. level w b < level w a) ?ps"
    using ok by (auto simp: open_ok_def)
  have uniq: "b = p" if "p \<in> set ?ps" "level w p = l" "upvals w b = Some (Open l)" for p b
  proof -
    have "b \<in> set ?ps" "level w b = l" using that ok by (auto simp: open_ok_def level_def)
    then show ?thesis using sorted that by (auto simp: sorted_wrt_iff_nth_less in_set_conv_nth) (metis less_irrefl linorder_neqE_nat)
  qed
  from find_open_finds [OF op sorted, of l "[]"] show ?thesis
  proof (elim disjE bexE exE conjE)
    fix p assume p: "p \<in> set ?ps" "level w p = l" "find_open w l [] ?ps = Inr (Inl p)"
    then have "upvals w p = Some (Open l)" "luaF_findupval w l = Inr (p, w)"
      using op by (auto simp: level_def luaF_findupval_def)
    then show ?thesis using ok uniq p by blast
  next
    fix hi lo assume h: "?ps = hi @ lo" "\<forall>a \<in> set hi. l < level w a" "\<forall>a \<in> set lo. level w a < l"
      "find_open w l [] ?ps = Inr (Inr ([] @ hi, lo))"
    define a where "a = next_addr w"
    define w' where "w' = w\<lparr>next_addr := a + 1, upvals := (upvals w)(a \<mapsto> Open l), openupval := hi @ a # lo\<rparr>"
    have run: "luaF_findupval w l = Inr (a, w')"
      using h(4) by (simp add: luaF_findupval_def new_addr_def a_def w'_def)
    have fresh: "upvals w b = None" if "a \<le> b" for b using ok that by (simp add: open_ok_def a_def)
    then have notin: "a \<notin> set ?ps" using op by force
    have lv: "level w' b = (if b = a then l else level w b)" for b by (simp add: level_def w'_def)
    have same: "b \<noteq> a" if "b \<in> set ?ps" for b using that notin by blast
    have parts: "sorted_wrt (\<lambda>a b. level w b < level w a) hi" "sorted_wrt (\<lambda>a b. level w b < level w a) lo"
      using sorted h(1) by (simp_all add: sorted_wrt_append)
    have "sorted_wrt (\<lambda>a b. level w' b < level w' a) hi" "sorted_wrt (\<lambda>a b. level w' b < level w' a) lo"
      by (rule sorted_wrt_mono_rel [OF _ parts(1)] sorted_wrt_mono_rel [OF _ parts(2)]; use h(1) same lv in auto)+
    then have "sorted_wrt (\<lambda>a b. level w' b < level w' a) (hi @ a # lo)"
      using sorted h(1-3) same by (auto simp: sorted_wrt_append lv)
    moreover have "\<exists>n < length (stack w'). upvals w' b = Some (Open n)" if "b \<in> set (hi @ a # lo)" for b
    proof (cases "b = a")
      case False
      then have "b \<in> set ?ps" using that h(1) by auto
      then show ?thesis using ok False by (auto simp: open_ok_def w'_def)
    qed (use l in \<open>simp add: w'_def\<close>)
    moreover have "b \<in> set (hi @ a # lo)" if "upvals w' b = Some (Open n)" for b n
      using that ok h(1) by (auto simp: open_ok_def w'_def split: if_splits)
    moreover have "upvals w' b = None" if "next_addr w' \<le> b" for b using that fresh [of b] by (simp add: w'_def)
    ultimately have ok': "open_ok w'" unfolding open_ok_def by (simp add: w'_def)
    have "b = a" if "upvals w' b = Some (Open l)" for b
    proof (rule ccontr)
      assume "b \<noteq> a"
      then have "upvals w b = Some (Open l)" using that by (simp add: w'_def)
      moreover from this have "b \<in> set ?ps" using ok by (auto simp: open_ok_def)
      ultimately show False using h(1-3) by (auto simp: level_def)
    qed
    moreover have "luaF_findupval w' l = Inr (a, w')"
    proof -
      have "find_open w' l qs (hi' @ a # lo) = Inr (Inl a)" if "set hi' \<subseteq> set hi" for qs hi'
        using that
      proof (induction hi' arbitrary: qs)
        case Nil
        then show ?case by (simp add: open_level_def deref_def w'_def)
      next
        case (Cons b hi')
        then have b: "b \<in> set ?ps" "l < level w b" using h(1,2) by auto
        then obtain n where "upvals w b = Some (Open n)" using op by blast
        then have "open_level w' b = Inr n" "l < n" using same [OF b(1)] b(2)
          by (simp_all add: open_level_def deref_def w'_def level_def)
        then show ?case using Cons by simp
      qed
      then show ?thesis by (simp add: luaF_findupval_def) (simp add: w'_def)
    qed
    moreover have "upvals w' a = Some (Open l)" "\<forall>b. b \<noteq> a \<longrightarrow> upvals w' b = upvals w b" by (simp_all add: w'_def)
    ultimately show ?thesis using run ok' by blast
  qed
qed

theorem findupval_shares_witness:
  "\<exists>a w'. luaF_findupval (stack_of 40) 7 = Inr (a, w') \<and> luaF_findupval w' 7 = Inr (a, w')"
proof -
  have "open_ok (stack_of 40)" "7 < length (stack (stack_of 40))" by (simp_all add: open_ok_def stack_of_def)
  from findupval_shares [OF this] show ?thesis by blast
qed

lemma close_loop_closes:
  assumes "\<forall>a \<in> set ps. \<exists>n < length (stack w). upvals w a = Some (Open n)" and "sorted_wrt (\<lambda>a b. level w b < level w a) ps"
  shows "\<exists>hi lo w'. ps = hi @ lo \<and> (\<forall>a \<in> set hi. l \<le> level w a) \<and> (\<forall>a \<in> set lo. level w a < l) \<and>
    close_loop l ps w = Inr w' \<and> (stack w' = stack w \<and> openupval w' = lo \<and> next_addr w' = next_addr w) \<and>
    (\<forall>a. upvals w' a = (if a \<in> set hi then Some (Closed (stack w ! level w a)) else upvals w a))"
  using assms
proof (induction ps arbitrary: w)
  case Nil
  then show ?case by (auto intro!: exI [of _ "w\<lparr>openupval := []\<rparr>"])
next
  case (Cons p ps)
  obtain n where n: "upvals w p = Some (Open n)" "n < length (stack w)" using Cons.prems(1) by auto
  then have lv: "level w p = n" "open_level w p = Inr n" by (simp_all add: level_def open_level_def deref_def)
  have notin: "p \<notin> set ps" using Cons.prems(2) by auto
  show ?case
  proof (cases "n < l")
    case True
    then have "\<forall>a \<in> set (p # ps). level w a < l" using Cons.prems(2) lv by force
    then show ?thesis using lv True
      by (intro exI [of _ "[]"] exI [of _ "p # ps"] exI [of _ "w\<lparr>openupval := p # ps\<rparr>"]) simp
  next
    case False
    define w1 where "w1 = w\<lparr>upvals := (upvals w)(p \<mapsto> Closed (stack w ! n))\<rparr>"
    have same: "level w1 a = level w a" "upvals w1 a = upvals w a" if "a \<in> set ps" for a
      using that notin by (auto simp: level_def w1_def)
    have "\<forall>a \<in> set ps. \<exists>n < length (stack w1). upvals w1 a = Some (Open n)"
      using Cons.prems(1) same by (auto simp: w1_def)
    moreover have "sorted_wrt (\<lambda>a b. level w1 b < level w1 a) ps"
      by (rule sorted_wrt_mono_rel [of _ "\<lambda>a b. level w b < level w a"]) (use Cons.prems(2) same in auto)
    ultimately obtain hi lo w' where h: "ps = hi @ lo" "\<forall>a \<in> set hi. l \<le> level w1 a" "\<forall>a \<in> set lo. level w1 a < l"
      "close_loop l ps w1 = Inr w'" "stack w' = stack w1 \<and> openupval w' = lo \<and> next_addr w' = next_addr w1"
      "\<forall>a. upvals w' a = (if a \<in> set hi then Some (Closed (stack w1 ! level w1 a)) else upvals w1 a)"
      using Cons.IH by blast
    have "close_loop l (p # ps) w = Inr w'" using h(4) lv n False by (simp add: w1_def get_slot_def)
    moreover have "stack w' = stack w \<and> openupval w' = lo \<and> next_addr w' = next_addr w" using h(5) by (simp add: w1_def)
    moreover have "upvals w' a = (if a \<in> set (p # hi) then Some (Closed (stack w ! level w a)) else upvals w a)" for a
      using h(1,6) same lv notin by (auto simp: w1_def)
    ultimately show ?thesis using h(1-3) same lv False
      by (intro exI [of _ "p # hi"] exI [of _ lo] exI [of _ w']) auto
  qed
qed

text \<open>
  C32. Closing keeps the variables alive: \<open>luaF_close\<close> leaves every upvalue with the value it had, none of them open at or above the
  level any more, so that the stack slots there can be reused; the other open upvalues and the stack stay as they are.
\<close>

theorem close_keeps_values:
  assumes ok: "open_ok w"
  shows "\<exists>w'. luaF_close w l = Inr w' \<and> open_ok w' \<and> stack w' = stack w \<and> (\<forall>a. upval_get w' a = upval_get w a) \<and>
    (\<forall>a n. upvals w' a = Some (Open n) \<longleftrightarrow> upvals w a = Some (Open n) \<and> n < l)"
proof -
  have op: "\<forall>a \<in> set (openupval w). \<exists>n < length (stack w). upvals w a = Some (Open n)"
    and sorted: "sorted_wrt (\<lambda>a b. level w b < level w a) (openupval w)"
    and all: "\<And>a n. upvals w a = Some (Open n) \<Longrightarrow> a \<in> set (openupval w)"
    and free: "\<And>a. next_addr w \<le> a \<Longrightarrow> upvals w a = None"
    using ok by (auto simp: open_ok_def)
  from close_loop_closes [OF op sorted, of l] obtain hi lo w' where
    h: "openupval w = hi @ lo" "\<forall>a \<in> set hi. l \<le> level w a" "\<forall>a \<in> set lo. level w a < l"
      "close_loop l (openupval w) w = Inr w'" "stack w' = stack w \<and> openupval w' = lo \<and> next_addr w' = next_addr w"
      "\<And>a. upvals w' a = (if a \<in> set hi then Some (Closed (stack w ! level w a)) else upvals w a)" by auto
  have same: "stack w' = stack w" "openupval w' = lo" "next_addr w' = next_addr w" using h(5) by simp_all
  have disj: "a \<notin> set hi" if "a \<in> set lo" for a using that h(2,3) by fastforce
  have lv: "level w' a = level w a" if "a \<in> set lo" for a using disj [OF that] h(6) by (simp add: level_def)
  have "sorted_wrt (\<lambda>a b. level w' b < level w' a) lo"
    by (rule sorted_wrt_mono_rel [of _ "\<lambda>a b. level w b < level w a"])
      (use sorted h(1) lv in \<open>auto simp: sorted_wrt_append\<close>)
  moreover have "upvals w' a = None" if "next_addr w \<le> a" for a
    using free [OF that] op h(1,6) by force
  moreover have "a \<in> set lo" if "upvals w' a = Some (Open n)" for a n
    using that all [of a n] h(1,6) by (auto split: if_splits)
  moreover have "\<exists>n < length (stack w). upvals w' a = Some (Open n)" if "a \<in> set lo" for a
  proof -
    have "a \<in> set (openupval w)" "upvals w' a = upvals w a" using that h(1) disj [OF that] h(6) [of a] by simp_all
    then show ?thesis using op by simp
  qed
  ultimately have "open_ok w'" unfolding open_ok_def same by blast
  moreover have "upval_get w' a = upval_get w a" for a
  proof (cases "a \<in> set hi")
    case True
    then obtain n where "n < length (stack w)" "upvals w a = Some (Open n)" using op h(1) by auto
    then show ?thesis using True h(6) [of a] by (simp add: upval_get_def deref_def get_slot_def level_def)
  next
    case False
    moreover have "get_slot w' n = get_slot w n" for n by (simp add: get_slot_def same)
    ultimately show ?thesis using h(6) [of a] by (simp add: upval_get_def deref_def split: option.split UpVal.split)
  qed
  moreover have "upvals w' a = Some (Open n) \<longleftrightarrow> upvals w a = Some (Open n) \<and> n < l" for a n
  proof (cases "a \<in> set hi")
    case True
    then have "l \<le> level w a" using h(2) by blast
    then show ?thesis using True h(6) [of a] by (auto simp: level_def)
  next
    case False
    have "n < l" if "upvals w a = Some (Open n)"
    proof -
      have "a \<in> set lo" using all [OF that] h(1) False by simp
      then have "level w a < l" using h(3) by blast
      then show ?thesis using that by (simp add: level_def)
    qed
    then show ?thesis using False h(6) [of a] by auto
  qed
  ultimately show ?thesis using h(4) same by (auto simp: luaF_close_def)
qed

theorem close_keeps_values_witness:
  "\<exists>w'. luaF_close (stack_of 40) 7 = Inr w' \<and> stack w' = replicate 40 TNil"
proof -
  have "open_ok (stack_of 40)" by (simp add: open_ok_def stack_of_def)
  from close_keeps_values [OF this, of 7] show ?thesis by (auto simp: stack_of_def)
qed

end
