(* ===== verification/LuaExecSpec.thy ===== *)
theory LuaExecSpec
  imports LuaExec LuaFrameSpec LuaVmSpec
begin

text \<open>
  Code that the checker accepts keeps to its frame: no instruction of it, nor of any function it calls, uses a register, a
  constant, a prototype, an upvalue or an instruction that is not there.
\<close>

section \<open>What a result is like, if there is one\<close>

definition gives :: "('a \<Rightarrow> bool) \<Rightarrow> 'a result \<Rightarrow> bool" where
  "gives P r \<longleftrightarrow> (\<forall>x. r = Inr x \<longrightarrow> P x)"

lemma gives_rbind: "gives Q r \<Longrightarrow> (\<And>x. Q x \<Longrightarrow> gives P (f x)) \<Longrightarrow> gives P (rbind r f)"
  by (auto simp: gives_def rbind_eq_Inr)

lemma gives_pure: "gives (\<lambda>_. True) r"
  by (simp add: gives_def)

lemma gives_simps [simp]: "gives P (Inl e)" "gives P (Inr x) \<longleftrightarrow> P x"
  by (simp_all add: gives_def)

lemma gives_mono: "gives Q r \<Longrightarrow> (\<And>x. Q x \<Longrightarrow> P x) \<Longrightarrow> gives P r"
  by (auto simp: gives_def)

lemmas gives_skip = gives_rbind [OF gives_pure]

section \<open>What calls and table accesses keep\<close>

text \<open>A property of states that calls of functions and changes of tables keep.\<close>

definition stable :: "(world \<Rightarrow> bool) \<Rightarrow> caller \<Rightarrow> bool" where
  "stable I call \<longleftrightarrow> (\<forall>w T. I w \<longrightarrow> I (w\<lparr>tables := T\<rparr>)) \<and>
     (\<forall>f args w. I w \<longrightarrow> gives (\<lambda>x. I (snd x)) (call f args w))"

lemma stable_tables: "stable I call \<Longrightarrow> I w \<Longrightarrow> I (w\<lparr>tables := T\<rparr>)"
  by (simp add: stable_def)

lemma stable_call: "stable I call \<Longrightarrow> I w \<Longrightarrow> gives (\<lambda>x. I (snd x)) (call f args w)"
  by (simp add: stable_def)

lemma luaT_gettm_stable: "stable I call \<Longrightarrow> I w \<Longrightarrow> gives (\<lambda>x. I (snd x)) (luaT_gettm w a e)"
  unfolding luaT_gettm_def by (intro gives_skip) (simp add: Let_def stable_tables)

lemma fasttm_stable: "stable I call \<Longrightarrow> I w \<Longrightarrow> gives (\<lambda>x. I (snd x)) (fasttm w mt e)"
  by (cases mt) (auto simp: fasttm_def intro!: gives_skip luaT_gettm_stable)

lemma callTMres_stable: "stable I call \<Longrightarrow> I w \<Longrightarrow> gives (\<lambda>x. I (snd x)) (callTMres call w f p q)"
  unfolding callTMres_def by (rule gives_rbind, erule (1) stable_call) auto

lemma callTM_stable: "stable I call \<Longrightarrow> I w \<Longrightarrow> gives I (callTM call w f p q r)"
  unfolding callTM_def by (rule gives_rbind, erule (1) stable_call) auto

text \<open>An optional value with its state.\<close>

definition if_some :: "(world \<Rightarrow> bool) \<Rightarrow> ('a \<times> world) option \<Rightarrow> bool" where
  "if_some I x = (case x of None \<Rightarrow> True | Some (v, w) \<Rightarrow> I w)"

lemma if_some_simps [simp]: "if_some I None" "if_some I (Some x) \<longleftrightarrow> I (snd x)"
  by (auto simp: if_some_def split: prod.split)

lemma call_binTM_stable:
  assumes "stable I call" "I w"
  shows "gives (if_some I) (call_binTM call w p q e)"
  unfolding call_binTM_def
  by (intro gives_skip) (auto intro!: gives_rbind [OF callTMres_stable [OF assms]])

lemma call_orderTM_stable:
  assumes "stable I call" "I w"
  shows "gives (if_some I) (call_orderTM call w p q e)"
  unfolding call_orderTM_def
proof (rule gives_skip)
  fix tm1
  have "gives (if_some I) (rbind (callTMres call w tm1 p q) (\<lambda>(r, w). Inr (Some (\<not> l_isfalse r, w))))"
    by (rule gives_rbind [OF callTMres_stable [OF assms]]) auto
  then show "gives (if_some I) (if tm1 = TNil then Inr None else rbind (luaT_gettmbyobj w p2 e') (\<lambda>tm2.
      if \<not> luaO_rawequalObj tm1 tm2 then Inr None
      else rbind (callTMres call w tm1 p q) (\<lambda>(r, w). Inr (Some (\<not> l_isfalse r, w)))))" for p2 e'
    by (auto intro!: gives_skip)
qed

lemma attempt_stable:
  assumes "stable I call" "I w" and "gives (\<lambda>x. I (snd x)) (gettable_loop n call w tm k)"
  shows "gives (\<lambda>x. I (snd x)) (if isfunction tm then callTMres call w tm t k else gettable_loop n call w tm k)"
  using assms callTMres_stable by simp

lemma gettable_loop_stable:
  assumes st: "stable I call"
  shows "I w \<Longrightarrow> gives (\<lambda>x. I (snd x)) (gettable_loop n call w t k)"
proof (induction n arbitrary: w t)
  case (Suc n)
  note attempt = attempt_stable [OF st _ Suc.IH]
  show ?case
  proof (cases "\<exists>a. t = TTable a")
    case True
    then obtain a where t: "t = TTable a" by blast
    show ?thesis
      unfolding gettable_loop.simps Let_def t TValue.case
    proof (intro gives_skip)
      fix h p
      show "gives (\<lambda>x. I (snd x)) (if value_at h p \<noteq> TNil then Inr (value_at h p, w)
        else rbind (fasttm w (metatable h) TM_INDEX) (\<lambda>(tm, u). case tm of None \<Rightarrow> Inr (value_at h p, u)
          | Some tm \<Rightarrow> if isfunction tm then callTMres call u tm (TTable a) k else gettable_loop n call u tm k))"
        using Suc.prems by (auto intro!: gives_rbind [OF fasttm_stable [OF st Suc.prems]] Suc.IH callTMres_stable [OF st] split: option.split)
    qed
  next
    case False
    have "gives (\<lambda>x. I (snd x)) (rbind (luaT_gettmbyobj w t TM_INDEX) (\<lambda>tm. if tm = TNil then Inl (LuaError ''attempt to index'')
      else if isfunction tm then callTMres call w tm t k else gettable_loop n call w tm k))" for t
      using attempt [OF Suc.prems Suc.prems] by (auto intro!: gives_skip)
    note eqs = this [of t]
    show ?thesis using False by (cases t; insert eqs, hypsubst) (simp_all add: Let_def)
  qed
qed simp

lemma luaV_gettable_stable: "stable I call \<Longrightarrow> I w \<Longrightarrow> gives (\<lambda>x. I (snd x)) (luaV_gettable call w t k)"
  unfolding luaV_gettable_def by (rule gettable_loop_stable)

lemma settable_loop_stable:
  assumes st: "stable I call"
  shows "I w \<Longrightarrow> gives I (settable_loop n call w t k v)"
proof (induction n arbitrary: w t)
  case (Suc n)
  have attempt: "gives I (if isfunction tm then callTM call u tm t k v else settable_loop n call u tm k v)" if "I u" for tm u t
    using that Suc.IH callTM_stable [OF st] by simp
  have store: "gives I (rbind (deref (tables u) a) (\<lambda>h. Inr (u\<lparr>tables := T h\<rparr>)))" if "I u" for u a T
    by (rule gives_skip) (use stable_tables [OF st that] in simp)
  show ?case
  proof (cases "\<exists>a. t = TTable a")
    case True
    then obtain a where t: "t = TTable a" by blast
    have set: "gives I (if b then rbind (deref (tables u) a) (\<lambda>h. Inr (u\<lparr>tables := T u h\<rparr>))
        else rbind (fasttm u mt TM_NEWINDEX) (\<lambda>(tm, u). case tm of
          None \<Rightarrow> rbind (deref (tables u) a) (\<lambda>h. Inr (u\<lparr>tables := T u h\<rparr>))
        | Some tm \<Rightarrow> if isfunction tm then callTM call u tm (TTable a) k v else settable_loop n call u tm k v))"
      if u: "I u" for b u T mt
      using u by (auto intro!: store Suc.IH callTM_stable [OF st] gives_rbind [OF fasttm_stable [OF st u]] split: option.split)
    show ?thesis
      unfolding settable_loop.simps Let_def t TValue.case
    proof (intro gives_skip, unfold case_prod_unfold)
      fix h x
      show "gives I (if slot_value (fst x) (snd x) \<noteq> TNil
          then rbind (deref (tables (w\<lparr>tables := (tables w)(a \<mapsto> fst x)\<rparr>)) a)
            (\<lambda>h. Inr (w\<lparr>tables := (tables w)(a \<mapsto> fst x), tables := (tables (w\<lparr>tables := (tables w)(a \<mapsto> fst x)\<rparr>))(a \<mapsto> setobj2t h (snd x) v)\<rparr>))
          else rbind (fasttm (w\<lparr>tables := (tables w)(a \<mapsto> fst x)\<rparr>) (metatable (fst x)) TM_NEWINDEX) (\<lambda>y. case fst y of
            None \<Rightarrow> rbind (deref (tables (snd y)) a) (\<lambda>h. Inr (snd y\<lparr>tables := (tables (snd y))(a \<mapsto> setobj2t h (snd x) v)\<rparr>))
          | Some tm \<Rightarrow> if isfunction tm then callTM call (snd y) tm (TTable a) k v else settable_loop n call (snd y) tm k v))"
        using set [OF stable_tables [OF st Suc.prems], of "slot_value (fst x) (snd x) \<noteq> TNil" "(tables w)(a \<mapsto> fst x)"
          "\<lambda>u h. (tables u)(a \<mapsto> setobj2t h (snd x) v)" "metatable (fst x)"]
        unfolding case_prod_unfold .
    qed
  next
    case False
    have "gives I (rbind (luaT_gettmbyobj w t TM_NEWINDEX) (\<lambda>tm. if tm = TNil then Inl (LuaError ''attempt to index'')
      else if isfunction tm then callTM call w tm t k v else settable_loop n call w tm k v))" for t
      using attempt [OF Suc.prems] by (auto intro!: gives_skip)
    note eqs = this [of t]
    show ?thesis using False by (cases t; insert eqs, hypsubst) (simp_all add: Let_def)
  qed
qed simp

lemma luaV_settable_stable: "stable I call \<Longrightarrow> I w \<Longrightarrow> gives I (luaV_settable call w t k v)"
  unfolding luaV_settable_def by (rule settable_loop_stable)

lemma luaV_lessthan_stable:
  assumes "stable I call" "I w"
  shows "gives (\<lambda>x. I (snd x)) (luaV_lessthan sc call w l r)"
proof -
  have "gives (\<lambda>x. I (snd x)) (rbind (call_orderTM call w l r TM_LT) (\<lambda>res. case res of
      Some r \<Rightarrow> Inr r | None \<Rightarrow> Inl (LuaError ''attempt to compare'')))"
    by (rule gives_rbind [OF call_orderTM_stable [OF assms]]) (auto simp: if_some_def split: option.splits)
  then show ?thesis using assms(2) by (auto simp: luaV_lessthan_def intro!: gives_skip split: TValue.split)
qed

lemma lessequal_stable:
  assumes "stable I call" "I w"
  shows "gives (\<lambda>x. I (snd x)) (lessequal sc call w l r)"
proof -
  have "gives (\<lambda>x. I (snd x)) (rbind (call_orderTM call w r l TM_LT) (\<lambda>res. case res of
      Some (b, w) \<Rightarrow> Inr (\<not> b, w) | None \<Rightarrow> Inl (LuaError ''attempt to compare'')))"
    by (rule gives_rbind [OF call_orderTM_stable [OF assms]]) (auto simp: if_some_def split: option.splits)
  then have "gives (\<lambda>x. I (snd x)) (rbind (call_orderTM call w l r TM_LE) (\<lambda>res. case res of
          Some r \<Rightarrow> Inr r
        | None \<Rightarrow> rbind (call_orderTM call w r l TM_LT) (\<lambda>res. case res of
            Some (b, w) \<Rightarrow> Inr (\<not> b, w)
          | None \<Rightarrow> Inl (LuaError ''attempt to compare''))))"
    by (intro gives_rbind [OF call_orderTM_stable [OF assms]]) (auto simp: if_some_def split: option.splits)
  then show ?thesis using assms(2) by (auto simp: lessequal_def intro!: gives_skip split: TValue.split)
qed

lemma get_compTM_stable:
  assumes st: "stable I call" and w: "I w"
  shows "gives (\<lambda>x. I (snd x)) (get_compTM w m1 m2 e)"
proof -
  have "gives (\<lambda>x. I (snd x)) (rbind (fasttm u m2 e) (\<lambda>(tm2, w). case tm2 of None \<Rightarrow> Inr (None, w)
      | Some tm2 \<Rightarrow> Inr (if luaO_rawequalObj tm1 tm2 then Some tm1 else None, w)))" if u: "I u" for u tm1
    by (rule gives_rbind [OF fasttm_stable [OF st u]]) (auto split: option.split)
  then show ?thesis
    unfolding get_compTM_def by (intro gives_rbind [OF fasttm_stable [OF st w]]) (auto split: option.split)
qed

lemma equalobj_stable:
  assumes st: "stable I call" and w: "I w"
  shows "gives (\<lambda>x. I (snd x)) (equalobj call w l r)"
proof -
  have attempt: "gives (\<lambda>x. I (snd x)) (rbind (get_compTM w m1 m2 TM_EQ) (\<lambda>(tm, w). case tm of None \<Rightarrow> Inr (False, w)
      | Some tm \<Rightarrow> rbind (callTMres call w tm l r) (\<lambda>(r, w). Inr (\<not> l_isfalse r, w))))" for m1 m2 l r
    by (rule gives_rbind [OF get_compTM_stable [OF st w]])
      (auto intro!: gives_rbind [OF callTMres_stable [OF st]] split: option.split)
  note both = gives_rbind [OF gives_pure gives_rbind [OF gives_pure attempt]]
  show ?thesis
    using w by (cases l; cases r) (auto simp: equalobj_def luaV_equalval_def Let_def intro!: both)
qed

lemma concat_pass_stable:
  assumes "stable I call" "I w"
  shows "gives (\<lambda>x. I (snd x)) (concat_pass c call w a b rest)"
proof -
  have "gives (\<lambda>x. I (snd x)) (rbind (call_binTM call w b a TM_CONCAT) (\<lambda>r. case r of
      None \<Rightarrow> Inl (LuaError ''attempt to concatenate'') | Some (v, w) \<Rightarrow> Inr (v # rest, w)))"
    by (rule gives_rbind [OF call_binTM_stable [OF assms]]) (auto split: option.split)
  then show ?thesis using assms(2) by (auto simp: concat_pass_def Let_def intro!: gives_skip)
qed

lemma luaV_concat_stable: "stable I call \<Longrightarrow> I w \<Longrightarrow> gives (\<lambda>x. I (snd x)) (luaV_concat c call w vs)"
proof (induction c call w vs rule: luaV_concat.induct)
  case (1 c call w a b rest)
  show ?case
    unfolding luaV_concat.simps
    using concat_pass_stable [OF "1.prems", of c a b rest] "1.IH" "1.prems"(1)
    by (cases "concat_pass c call w a b rest") auto
qed simp_all

lemma Arith_stable:
  assumes "stable I call" "I w"
  shows "gives (\<lambda>x. I (snd x)) (Arith c call w a b e)"
proof -
  have "gives (\<lambda>x. I (snd x)) (rbind (call_binTM call w a b e) (\<lambda>r. case r of
      None \<Rightarrow> Inl (LuaError ''attempt to perform arithmetic'') | Some r \<Rightarrow> Inr r))"
    by (rule gives_rbind [OF call_binTM_stable [OF assms]]) (auto simp: if_some_def split: option.splits)
  then show ?thesis using assms(2) by (auto simp: Arith_def split: option.split)
qed

section \<open>The operands of checked code\<close>

lemma uint_less: "uint x < uint y \<longleftrightarrow> unat x < unat y"
  by (simp only: uint_nat of_nat_less_iff)

lemma uint_less_int: "uint x < int m \<longleftrightarrow> unat x < m"
  by (simp only: uint_nat of_nat_less_iff)

lemma checkreg_nat: "checkreg p (uint x) \<longleftrightarrow> unat x < unat (pmaxstacksize p)"
  by (simp add: checkreg_def maxstack_def uint_less)

lemma checkreg_add: "0 \<le> k \<Longrightarrow> checkreg p (uint x + k) \<longleftrightarrow> unat x + nat k < unat (pmaxstacksize p)"
  unfolding checkreg_def maxstack_def uint_nat by linarith

text \<open>What the checker makes sure of at an instruction with opcode \<open>op\<close>, besides its jumps.\<close>

definition operands_ok :: "Proto \<Rightarrow> nat \<Rightarrow> Instruction \<Rightarrow> OpCode \<Rightarrow> bool" where
  "operands_ok p pc i op \<longleftrightarrow> (let n = unat (pmaxstacksize p); next_open = luaG_checkopenop (pcode p ! (pc + 1)) in
     argA i < n \<and>
     (getOpMode op = iABC \<longrightarrow>
        checkArgMode p (GETARG_B i) (getBMode op) \<and> checkArgMode p (GETARG_C i) (getCMode op)) \<and>
     (op \<in> {OP_LOADK, OP_GETGLOBAL, OP_SETGLOBAL} \<longrightarrow> argBx i < length (pk p)) \<and>
     (op \<in> {OP_GETUPVAL, OP_SETUPVAL} \<longrightarrow> argB i < unat (pnups p)) \<and>
     (op = OP_SELF \<longrightarrow> argA i + 1 < n) \<and>
     (op = OP_CONCAT \<longrightarrow> argB i < argC i) \<and>
     (op = OP_TFORLOOP \<longrightarrow> 1 \<le> argC i \<and> argA i + 2 + argC i < n) \<and>
     (op \<in> {OP_FORLOOP, OP_FORPREP} \<longrightarrow> argA i + 3 < n) \<and>
     (op = OP_RETURN \<longrightarrow> argA i + (argB i - 1) \<le> n) \<and>
     (op = OP_SETLIST \<longrightarrow> argA i + argB i < n) \<and>
     (op \<in> {OP_CALL, OP_TAILCALL} \<longrightarrow> argA i + argB i \<le> n \<and> (argC i = 0 \<longrightarrow> next_open)) \<and>
     (op = OP_CLOSURE \<longrightarrow> argBx i < length (pp p) \<and>
        checkpseudo p (int pc) (unat (pnups (pp p ! argBx i))) = Inr True \<and>
        pc + unat (pnups (pp p ! argBx i)) < length (pcode p)) \<and>
     (op = OP_VARARG \<longrightarrow> (if argB i = 0 then next_open else argA i + (argB i - 1) \<le> n)))"

lemma checked_operands:
  assumes "luaG_checkcode p = Inr True" and "instr_at p (int pc)" and i: "i = pcode p ! pc"
  obtains op where "opcode_of (GET_OPCODE i) = Some op" and "operands_ok p pc i op"
proof -
  obtain l pc' l' where "symbexec_step p (sizecode p) NO_REG_int (int pc) l = Inr (Some (pc', l'))"
    using checked_step [OF assms(1,2)] .
  then obtain j op b c lx where j: "code_at p (int pc) = Inr j" and op: "opcode_of (GET_OPCODE j) = Some op"
    and A: "checkreg p (uint (GETARG_A j))" and args: "checkargs p (int pc) j op = Inr (Some (b, c))"
    and s: "symbexec_op p (sizecode p) NO_REG_int (int pc) lx op (uint (GETARG_A j)) b c = Inr (Some (pc', l'))"
    by (rule step_cases)
  have ij: "j = i" using j i by (simp add: code_at_eq)
  note op = op [unfolded ij] and args = args [unfolded ij] and s = s [unfolded ij]
  have A: "argA i < unat (pmaxstacksize p)" using A unfolding ij checkreg_nat .
  note abc = checkargs_ABC [OF args]
  have bx: "b = uint (GETARG_Bx i)" if "getOpMode op = iABx" using args that by (auto simp: checkargs_def check_eq)
  define na nb nc nbx n where "na = argA i" and "nb = argB i" and "nc = argC i" and "nbx = argBx i"
    and "n = unat (pmaxstacksize p)"
  then have u: "uint (GETARG_A i) = int na" "uint (GETARG_B i) = int nb" "uint (GETARG_C i) = int nc"
    "uint (GETARG_Bx i) = int nbx" "uint (pmaxstacksize p) = int n"
    and v: "argA i = na" "argB i = nb" "argC i = nc" "argBx i = nbx" "unat (pmaxstacksize p) = n"
    by (simp_all only: uint_nat)
  have ms: "maxstack p = int n" using u by (simp add: maxstack_def)
  note simps = operands_ok_def Let_def mode_simps symbexec_op_def check_eq checkreg_def ms code_at_eq rbind_eq_Inr
    at_def sizek_def sizep_def sizecode_def LUA_MULTRET_def uint_less v nat_add_distrib
  have A: "na < n" using A v by simp
  have U: "int nb < uint (pnups p) \<Longrightarrow> nb < unat (pnups p)" unfolding uint_nat of_nat_less_iff .
  have P: "int pc + uint (pnups q) < int m \<Longrightarrow> pc + unat (pnups q) < m" for q m unfolding uint_nat by linarith
  have "operands_ok p pc i op"
  proof (cases op)
    case OP_LOADK
    then show ?thesis using A args unfolding v u
      by (auto simp: operands_ok_def Let_def checkargs_def check_eq mode_simps sizek_def getBMode_def arg_mask_def opmode_def u v)
  next
    case OP_CALL
    then show ?thesis using A abc s unfolding u by (auto simp: simps split: if_splits)
  next
    case OP_TAILCALL
    then show ?thesis using A abc s unfolding u by (auto simp: simps split: if_splits)
  next
    case OP_VARARG
    then show ?thesis using A abc s unfolding u by (auto simp: simps split: if_splits)
  next
    case OP_CLOSURE
    then show ?thesis using A bx s P unfolding u by (auto simp: simps split: if_splits)
  next
    case OP_SETLIST
    then show ?thesis using A abc s unfolding u by (auto simp: simps split: if_splits)
  qed (use A abc bx s U in \<open>auto simp: simps u split: if_splits\<close>)
  with op show thesis by (rule that)
qed

section \<open>Frames that fit\<close>

text \<open>
  Code that is safe to run: the checker accepts it and the functions inside it, and no LOADBOOL has an operand \<open>C\<close> above 1
  (the checker takes that for no skip, the interpreter for a skip).
\<close>

inductive code_ok :: "Proto \<Rightarrow> bool" where
  code_ok: "luaG_checkcode p = Inr True \<Longrightarrow> \<forall>i \<in> set (pcode p). is_op OP_LOADBOOL i \<longrightarrow> GETARG_C i \<le> 1 \<Longrightarrow>
     \<forall>q \<in> set (pp p). code_ok q \<Longrightarrow> code_ok p"

inductive_cases code_okE: "code_ok p"

lemma code_okD:
  assumes "code_ok p"
  shows "luaG_checkcode p = Inr True" and "\<forall>i \<in> set (pcode p). is_op OP_LOADBOOL i \<longrightarrow> GETARG_C i \<le> 1"
    and "\<forall>q \<in> set (pp p). code_ok q"
  using assms by (blast elim: code_okE)+

definition good_closure :: "LClosure \<Rightarrow> bool" where
  "good_closure cl \<longleftrightarrow> code_ok (cproto cl) \<and> length (cupvals cl) = unat (pnups (cproto cl))"

text \<open>The stack has at least \<open>L\<close> slots and every closure has good code.\<close>

definition world_ok :: "nat \<Rightarrow> world \<Rightarrow> bool" where
  "world_ok L w \<longleftrightarrow> L \<le> length (stack w) \<and> (\<forall>a cl. closures w a = Some cl \<longrightarrow> good_closure cl)"

lemma world_ok_same: "world_ok L w \<Longrightarrow> length (stack w) \<le> length (stack w') \<Longrightarrow> closures w' = closures w \<Longrightarrow> world_ok L w'"
  by (auto simp: world_ok_def)

lemma world_ok_simps [simp]:
  "world_ok L (w\<lparr>tables := T\<rparr>) = world_ok L w" "world_ok L (w\<lparr>next_addr := a\<rparr>) = world_ok L w" "world_ok L (w\<lparr>upvals := U\<rparr>) = world_ok L w"
  "world_ok L (w\<lparr>openupval := os\<rparr>) = world_ok L w" "world_ok L (w\<lparr>stack := (stack w)[j := v]\<rparr>) = world_ok L w"
  by (simp_all add: world_ok_def)

text \<open>Calls keep what they find of the stack and make no bad closures.\<close>

definition good_call :: "caller \<Rightarrow> bool" where
  "good_call call \<longleftrightarrow> (\<forall>L f args w. world_ok L w \<longrightarrow> gives (\<lambda>x. world_ok L (snd x)) (call f args w))"

lemma good_call_stable: "good_call call \<Longrightarrow> stable (world_ok L) call"
  by (simp add: good_call_def stable_def)

definition fits :: "nat \<Rightarrow> frame \<Rightarrow> bool" where
  "fits L f \<longleftrightarrow> f_base f + nregs f + 6 \<le> L"

text \<open>Nothing is used that is not there, and a result has the property.\<close>

definition inside :: "('a \<Rightarrow> bool) \<Rightarrow> 'a exec \<Rightarrow> bool" where
  "inside P r \<longleftrightarrow> (case r of Inl e \<Rightarrow> e \<noteq> Stray | Inr x \<Rightarrow> P x)"

lemma inside_simps [simp]: "inside P (Inr x) \<longleftrightarrow> P x" "inside P (Inl (Fault e))"
  by (simp_all add: inside_def)

lemma inside_ebind: "inside Q r \<Longrightarrow> (\<And>x. Q x \<Longrightarrow> inside P (g x)) \<Longrightarrow> inside P (ebind r g)"
  by (cases r) (simp_all add: inside_def ebind_def)

lemma inside_lift: "gives P r \<Longrightarrow> inside P (lift r)"
  by (cases r) (simp_all add: inside_def lift_def gives_def)

lemma inside_pure_lift: "inside (\<lambda>_. True) (lift r)"
  by (cases r) (simp_all add: inside_def lift_def)

lemma inside_mono: "inside Q r \<Longrightarrow> (\<And>x. Q x \<Longrightarrow> P x) \<Longrightarrow> inside P r"
  by (cases r) (simp_all add: inside_def)

lemmas inside_after_lift = inside_ebind [OF inside_lift]
lemmas inside_after_pure = inside_ebind [OF inside_pure_lift]

lemma reg_safe: "world_ok L w \<Longrightarrow> fits L f \<Longrightarrow> n < nregs f \<Longrightarrow> inside (\<lambda>_. True) (reg f w n)"
  by (simp add: reg_def world_ok_def fits_def)

lemma set_safe: "world_ok L w \<Longrightarrow> fits L f \<Longrightarrow> n < nregs f + extra \<Longrightarrow> extra \<le> 6 \<Longrightarrow> inside (world_ok L) (set_reg_extra extra f w n v)"
  by (simp add: set_reg_extra_def) (simp add: world_ok_def fits_def)

lemma konst_safe: "n < length (pk (f_proto f)) \<Longrightarrow> inside (\<lambda>_. True) (konst f n)"
  by (simp add: konst_def)

lemma upv_safe: "n < length (cupvals (f_cl f)) \<Longrightarrow> inside (\<lambda>_. True) (upv f n)"
  by (simp add: upv_def)

lemma rk_safe: "world_ok L w \<Longrightarrow> fits L f \<Longrightarrow> checkArgMode (f_proto f) x OpArgK \<Longrightarrow> inside (\<lambda>_. True) (rk f w x)"
  by (auto simp: rk_def sizek_def maxstack_def uint_less uint_less_int nregs_def intro: konst_safe reg_safe split: if_splits)

lemma set_all_safe:
  "world_ok L w \<Longrightarrow> fits L f \<Longrightarrow> n + length vs \<le> nregs f \<Longrightarrow> inside (world_ok L) (set_regs f w n vs)"
proof (induction vs arbitrary: w n)
  case (Cons v vs)
  then show ?case by (auto intro!: inside_ebind [OF set_safe])
qed simp

lemma set_nils_safe: "world_ok L w \<Longrightarrow> fits L f \<Longrightarrow> b < nregs f \<Longrightarrow> inside (world_ok L) (set_nils f w b n)"
proof (induction n arbitrary: w b)
  case (Suc n)
  then show ?case by (auto intro!: inside_ebind [OF set_safe])
qed (auto intro: set_safe)

lemma regs_safe: "world_ok L w \<Longrightarrow> fits L f \<Longrightarrow> b + n \<le> nregs f \<Longrightarrow> inside (\<lambda>_. True) (regs f w b n)"
proof (induction n arbitrary: b)
  case (Suc n)
  have "inside (\<lambda>_. True) (ebind (regs f w (Suc b) n) (\<lambda>vs. Inr (v # vs)))" for v
    by (rule inside_ebind [OF Suc.IH]) (use Suc.prems in auto)
  then show ?case using Suc.prems by (auto intro!: inside_ebind [OF reg_safe])
qed simp

section \<open>The stack operations\<close>

lemma put_slot_inv: "world_ok L w \<Longrightarrow> gives (world_ok L) (put_slot w n v)"
  by (simp add: put_slot_def)

lemma checkstack_inv: "world_ok L w \<Longrightarrow> world_ok L (luaD_checkstack w tp n)"
  by (auto simp: world_ok_def luaD_checkstack_def luaD_growstack_def luaD_reallocstack_def Let_def)

lemma put_slots_inv: "world_ok L w \<Longrightarrow> gives (world_ok L) (put_slots w n vs)"
  by (induction vs arbitrary: w n) (auto intro!: gives_rbind [OF put_slot_inv])

lemma move_fixed_inv: "world_ok L w \<Longrightarrow> gives (\<lambda>x. world_ok L (snd x)) (move_fixed w lo tp k)"
proof (induction k arbitrary: w lo tp)
  case (Suc k)
  then show ?case
    unfolding move_fixed.simps by (intro gives_skip [where f = "\<lambda>v. rbind (put_slot w tp v) (F v)" for F]
      gives_rbind [OF put_slot_inv] Suc.IH)
qed simp

lemma move_results_inv: "world_ok L w \<Longrightarrow> gives (\<lambda>x. world_ok L (snd (snd x))) (move_results w res first tp j)"
proof (induction w res first tp j rule: move_results.induct)
  case (1 w res first tp j)
  have "gives (\<lambda>x. world_ok L (snd (snd x))) (rbind (put_slot w res v) (\<lambda>w. move_results w (Suc res) (Suc first) tp (j - 1)))"
    if "j \<noteq> 0" "first < tp" "get_slot w first = Inr v" for v
    using "1.IH" that put_slot_inv [OF "1.prems", of res v] by (cases "put_slot w res v") auto
  then show ?case
    using "1.prems" by (cases "get_slot w first") (simp_all add: move_results.simps [of w res first tp j])
qed

lemma poscall_inv: "world_ok L w \<Longrightarrow> gives (\<lambda>x. world_ok L (snd x)) (luaD_poscall w ci first tp)"
  unfolding luaD_poscall_def
  by (rule gives_rbind [OF move_results_inv]) (auto intro!: gives_rbind [OF put_slots_inv])

lemma close_inv: "world_ok L w \<Longrightarrow> gives (world_ok L) (luaF_close w n)"
proof -
  have "world_ok L w \<Longrightarrow> gives (world_ok L) (close_loop n ps w)" for ps
    by (induction ps arbitrary: w) (auto intro!: gives_skip)
  then show "world_ok L w \<Longrightarrow> gives (world_ok L) (luaF_close w n)" by (simp add: luaF_close_def)
qed

lemma findupval_inv: "world_ok L w \<Longrightarrow> gives (\<lambda>x. world_ok L (snd x)) (luaF_findupval w n)"
  unfolding luaF_findupval_def by (rule gives_skip) (auto simp: Let_def new_addr_def split: sum.split)

lemma upval_set_inv: "world_ok L w \<Longrightarrow> gives (world_ok L) (upval_set w u v)"
  unfolding upval_set_def by (rule gives_skip) (auto simp: put_slot_inv split: UpVal.split)

lemma shift_up_inv: "world_ok L w \<Longrightarrow> gives (world_ok L) (shift_up w n k)"
proof (induction k arbitrary: w n)
  case (Suc k)
  then show ?case
    unfolding shift_up.simps by (intro gives_skip [where f = "\<lambda>v. rbind (put_slot w n v) (F v)" for F]
      gives_rbind [OF put_slot_inv] Suc.IH)
qed simp

lemma tryfuncTM_inv: "world_ok L w \<Longrightarrow> gives (\<lambda>x. world_ok L (snd x)) (tryfuncTM w func tp)"
  unfolding tryfuncTM_def
  by (intro gives_skip) (auto intro!: gives_rbind [OF shift_up_inv] gives_rbind [OF put_slot_inv] checkstack_inv)

section \<open>The instructions\<close>

lemmas arg_modes = getBMode_def getCMode_def arg_mask_def opmode_def

lemma argR: "checkArgMode (f_proto f) x OpArgR \<longleftrightarrow> unat x < nregs f"
  by (simp add: checkreg_nat nregs_def)

lemma plain_safe:
  assumes w: "world_ok L w" and f: "fits L f" and ok: "operands_ok (f_proto f) pc i op"
    and nups: "length (cupvals (f_cl f)) = unat (pnups (f_proto f))"
  shows "op = OP_MOVE \<Longrightarrow> inside (world_ok L) (op_move f w i)"
    and "op = OP_LOADK \<Longrightarrow> inside (world_ok L) (op_loadk f w i)"
    and "op = OP_LOADNIL \<Longrightarrow> inside (world_ok L) (op_loadnil f w i)"
    and "op = OP_GETUPVAL \<Longrightarrow> inside (world_ok L) (op_getupval f w i)"
    and "op = OP_SETUPVAL \<Longrightarrow> inside (world_ok L) (op_setupval f w i)"
    and "op = OP_NEWTABLE \<Longrightarrow> inside (world_ok L) (op_newtable f w i)"
    and "op = OP_NOT \<Longrightarrow> inside (world_ok L) (op_not f w i)"
    and "op = OP_CLOSE \<Longrightarrow> inside (world_ok L) (lift (luaF_close w (f_base f + argA i)))"
proof -
  have A: "argA i < nregs f" using ok by (simp add: operands_ok_def nregs_def Let_def)
  note set = set_safe [OF _ f, where extra = 0, simplified]
  note regw = inside_ebind [OF reg_safe [OF w f]]
  note args = ok [unfolded operands_ok_def Let_def]
  show "op = OP_MOVE \<Longrightarrow> inside (world_ok L) (op_move f w i)"
    using args A w by (auto simp: op_move_def mode_simps arg_modes argR simp del: checkArgMode.simps intro!: regw set)
  show "op = OP_LOADK \<Longrightarrow> inside (world_ok L) (op_loadk f w i)"
    using args A w by (auto simp: op_loadk_def intro!: inside_ebind [OF konst_safe] set)
  show "op = OP_LOADNIL \<Longrightarrow> inside (world_ok L) (op_loadnil f w i)"
    using args A w by (auto simp: op_loadnil_def mode_simps arg_modes argR simp del: checkArgMode.simps intro!: set_nils_safe f)
  show "op = OP_GETUPVAL \<Longrightarrow> inside (world_ok L) (op_getupval f w i)"
    using args A w nups by (auto simp: op_getupval_def intro!: inside_ebind [OF upv_safe] inside_after_pure set)
  show "op = OP_SETUPVAL \<Longrightarrow> inside (world_ok L) (op_setupval f w i)"
    using args A w nups by (auto simp: op_setupval_def intro!: inside_ebind [OF upv_safe] regw inside_lift upval_set_inv)
  show "op = OP_NEWTABLE \<Longrightarrow> inside (world_ok L) (op_newtable f w i)"
    using A w by (auto simp: op_newtable_def Let_def new_addr_def intro!: inside_after_pure set)
  show "op = OP_NOT \<Longrightarrow> inside (world_ok L) (op_not f w i)"
    using args A w by (auto simp: op_not_def mode_simps arg_modes argR simp del: checkArgMode.simps intro!: regw set)
  show "op = OP_CLOSE \<Longrightarrow> inside (world_ok L) (lift (luaF_close w (f_base f + argA i)))"
    using close_inv [OF w] by (rule inside_lift)
qed

lemma meta_safe:
  assumes w: "world_ok L w" and f: "fits L f" and ok: "operands_ok (f_proto f) pc i op" and call: "good_call call"
  shows "op = OP_GETGLOBAL \<Longrightarrow> inside (world_ok L) (op_getglobal call f w i)"
    and "op = OP_GETTABLE \<Longrightarrow> inside (world_ok L) (op_gettable call f w i)"
    and "op = OP_SETGLOBAL \<Longrightarrow> inside (world_ok L) (op_setglobal call f w i)"
    and "op = OP_SETTABLE \<Longrightarrow> inside (world_ok L) (op_settable call f w i)"
    and "op = OP_SELF \<Longrightarrow> inside (world_ok L) (op_self call f w i)"
    and "op \<in> {OP_ADD, OP_SUB, OP_MUL, OP_DIV, OP_MOD, OP_POW} \<Longrightarrow> inside (world_ok L) (arith_op c call tm f w i)"
    and "op = OP_UNM \<Longrightarrow> inside (world_ok L) (op_unm c call f w i)"
    and "op = OP_LEN \<Longrightarrow> inside (world_ok L) (op_len call f w i)"
    and "op = OP_CONCAT \<Longrightarrow> inside (world_ok L) (op_concat c call f w i)"
proof -
  have A: "argA i < nregs f" using ok by (simp add: operands_ok_def nregs_def Let_def)
  note st = good_call_stable [OF call]
  note set = set_safe [OF _ f, where extra = 0, simplified]
  note regw = inside_ebind [OF reg_safe [OF w f]] and rkw = inside_ebind [OF rk_safe [OF w f]]
  note args = ok [unfolded operands_ok_def Let_def]
  note get = inside_after_lift [OF luaV_gettable_stable [OF st]]
  note put = inside_lift [OF luaV_settable_stable [OF st]]
  show "op = OP_GETGLOBAL \<Longrightarrow> inside (world_ok L) (op_getglobal call f w i)"
    using args A w by (auto simp: op_getglobal_def intro!: inside_ebind [OF konst_safe] get set)
  show "op = OP_GETTABLE \<Longrightarrow> inside (world_ok L) (op_gettable call f w i)"
    using args A w by (auto simp: op_gettable_def mode_simps arg_modes argR simp del: checkArgMode.simps intro!: regw rkw get set)
  show "op = OP_SETGLOBAL \<Longrightarrow> inside (world_ok L) (op_setglobal call f w i)"
    using args A w by (auto simp: op_setglobal_def intro!: inside_ebind [OF konst_safe] regw put)
  show "op = OP_SETTABLE \<Longrightarrow> inside (world_ok L) (op_settable call f w i)"
    using args A w by (auto simp: op_settable_def mode_simps arg_modes argR simp del: checkArgMode.simps intro!: regw rkw put)
  show "op = OP_SELF \<Longrightarrow> inside (world_ok L) (op_self call f w i)"
    using args A w
    by (auto simp: op_self_def mode_simps arg_modes argR nregs_def [symmetric] simp del: checkArgMode.simps
        intro!: regw set get inside_ebind [OF set] inside_ebind [OF reg_safe [OF _ f]] inside_ebind [OF rk_safe [OF _ f]])
  show "op \<in> {OP_ADD, OP_SUB, OP_MUL, OP_DIV, OP_MOD, OP_POW} \<Longrightarrow> inside (world_ok L) (arith_op c call tm f w i)"
  proof -
    assume op: "op \<in> {OP_ADD, OP_SUB, OP_MUL, OP_DIV, OP_MOD, OP_POW}"
    then have "checkArgMode (f_proto f) (GETARG_B i) OpArgK" "checkArgMode (f_proto f) (GETARG_C i) OpArgK"
      using args [THEN conjunct2, THEN conjunct1] by (auto simp: mode_simps arg_modes)
    moreover have slow: "inside (world_ok L) (ebind (lift (Arith c call w a b tm)) (\<lambda>(v, w). set_reg f w (argA i) v))" for a b
      using A by (auto intro!: inside_after_lift [OF Arith_stable [OF st w]] set)
    ultimately show ?thesis
      using set [OF w A] by (auto simp: arith_op_def intro!: rkw split: TValue.split)
  qed
  show "op = OP_UNM \<Longrightarrow> inside (world_ok L) (op_unm c call f w i)"
  proof -
    have slow: "inside (world_ok L) (ebind (lift (Arith c call w a b tm)) (\<lambda>(v, w). set_reg f w (argA i) v))" for a b tm
      using A by (auto intro!: inside_after_lift [OF Arith_stable [OF st w]] set)
    show "op = OP_UNM \<Longrightarrow> ?thesis"
      using args set [OF w A] slow
      by (auto simp: op_unm_def mode_simps arg_modes argR simp del: checkArgMode.simps intro!: regw split: TValue.split)
  qed
  show "op = OP_LEN \<Longrightarrow> inside (world_ok L) (op_len call f w i)"
  proof -
    have slow: "inside (world_ok L) (ebind (lift (call_binTM call w a TNil TM_LEN)) (\<lambda>r. case r of
           None \<Rightarrow> Inl (Fault (LuaError ''attempt to get length of''))
         | Some (v, w) \<Rightarrow> set_reg f w (argA i) v))" for a
      using A by (auto intro!: inside_after_lift [OF call_binTM_stable [OF st w]] set split: option.split)
    have tab: "inside (world_ok L) (ebind (lift (deref (tables w) a)) (\<lambda>t. ebind (lift (luaH_getn t)) (\<lambda>n.
           set_reg f w (argA i) (TNumber (int_to_double (int n))))))" for a
      using A w by (auto intro!: inside_after_pure set)
    show "op = OP_LEN \<Longrightarrow> ?thesis"
      using args set [OF w A] slow tab
      by (auto simp: op_len_def mode_simps arg_modes argR simp del: checkArgMode.simps intro!: regw split: TValue.split)
  qed
  show "op = OP_CONCAT \<Longrightarrow> inside (world_ok L) (op_concat c call f w i)"
    using args A w
    by (auto simp: op_concat_def mode_simps arg_modes argR simp del: checkArgMode.simps
        intro!: inside_ebind [OF regs_safe [OF w f]] inside_after_lift [OF luaV_concat_stable [OF st]] inside_ebind [OF set] set)
qed

section \<open>Where control goes\<close>

abbreviation pos :: "frame \<Rightarrow> nat \<Rightarrow> bool" where "pos f pc \<equiv> instr_at (f_proto f) (int pc)"

lemma fetch_safe: "pos f pc \<Longrightarrow> inside (\<lambda>i. i = pcode (f_proto f) ! pc) (fetch f pc)"
  using instr_at_range [of "f_proto f" "int pc"] by (simp add: fetch_def sizecode_def)

lemma closed_nat:
  assumes chk: "luaG_checkcode (f_proto f) = Inr True" and pc: "pos f pc" and i: "i = pcode (f_proto f) ! pc"
    and op: "opcode_of (GET_OPCODE i) = Some op"
  shows "getOpMode op = iAsBx \<Longrightarrow> inside (pos f) (jump_to (pc + 1) (sint (GETARG_sBx i)))"
    and "testTMode op \<Longrightarrow> is_op OP_JMP (pcode (f_proto f) ! (pc + 1)) \<and> pos f (pc + 2)"
    and "op = OP_LOADBOOL \<Longrightarrow> GETARG_C i = 1 \<Longrightarrow> pos f (pc + 2)"
    and "setlist_count i \<Longrightarrow> pos f (pc + 2)"
    and "op \<noteq> OP_RETURN \<Longrightarrow> \<not> setlist_count i \<Longrightarrow> pos f (pc + 1)"
proof -
  from code_closed [OF chk pc] obtain op' where h: "opcode_of (GET_OPCODE i) = Some op'"
    "getOpMode op' = iAsBx \<longrightarrow> instr_at (f_proto f) (int pc + 1 + sint (GETARG_sBx i))"
    "testTMode op' \<longrightarrow> is_op OP_JMP (pcode (f_proto f) ! nat (int pc + 1)) \<and> instr_at (f_proto f) (int pc + 2)"
    "op' = OP_LOADBOOL \<and> GETARG_C i = 1 \<longrightarrow> instr_at (f_proto f) (int pc + 2)"
    "setlist_count i \<longrightarrow> instr_at (f_proto f) (int pc + 2)"
    "op' \<noteq> OP_RETURN \<and> \<not> setlist_count i \<longrightarrow> instr_at (f_proto f) (int pc + 1)"
    unfolding Let_def nat_int i by blast
  have [simp]: "op' = op" using h(1) op by simp
  have nats: "int (pc + 2) = int pc + 2" "int (pc + 1) = int pc + 1" "nat (int pc + 1) = pc + 1" by simp_all
  show "getOpMode op = iAsBx \<Longrightarrow> inside (pos f) (jump_to (pc + 1) (sint (GETARG_sBx i)))"
    using h(2) instr_at_range [of "f_proto f" "int pc + 1 + sint (GETARG_sBx i)"]
    by (auto simp: jump_to_def add.assoc add.commute)
  show "testTMode op \<Longrightarrow> is_op OP_JMP (pcode (f_proto f) ! (pc + 1)) \<and> pos f (pc + 2)"
    using h(3) unfolding nats by simp
  show "op = OP_LOADBOOL \<Longrightarrow> GETARG_C i = 1 \<Longrightarrow> pos f (pc + 2)" using h(4) unfolding nats by simp
  show "setlist_count i \<Longrightarrow> pos f (pc + 2)" using h(5) unfolding nats by simp
  show "op \<noteq> OP_RETURN \<Longrightarrow> \<not> setlist_count i \<Longrightarrow> pos f (pc + 1)" using h(6) unfolding nats by simp
qed

lemma cond_jump_safe:
  assumes chk: "luaG_checkcode (f_proto f) = Inr True" and pc: "pos f pc"
    and op: "opcode_of (GET_OPCODE (pcode (f_proto f) ! pc)) = Some op" and t: "testTMode op"
  shows "inside (pos f) (cond_jump f (pc + 1) b)"
proof -
  note cl = closed_nat [OF chk pc refl op]
  have jmp: "is_op OP_JMP (pcode (f_proto f) ! (pc + 1))" and skip: "pos f (pc + 2)" using cl(2) t by simp_all
  have "\<not> is_op OP_SETLIST (pcode (f_proto f) ! pc)" using is_op_opcode [OF op] t by (auto simp: mode_simps)
  moreover have "op \<noteq> OP_RETURN" using t by (auto simp: mode_simps)
  ultimately have nx: "pos f (pc + 1)" using cl(5) by (simp add: setlist_count_def)
  have "opcode_of (GET_OPCODE (pcode (f_proto f) ! (pc + 1))) = Some OP_JMP"
    using jmp by (simp add: is_op_def opcode_of_eq)
  from closed_nat(1) [OF chk nx refl this]
  have "inside (pos f) (jump_to (pc + 1 + 1) (sint (GETARG_sBx (pcode (f_proto f) ! (pc + 1)))))" by (simp add: mode_simps)
  then have "inside (pos f) (ebind (fetch f (pc + 1)) (\<lambda>j. jump_to (pc + 1 + 1) (sint (GETARG_sBx j))))"
    by (intro inside_ebind [OF fetch_safe [OF nx]]) simp
  then show ?thesis using skip by (cases b) (simp_all add: cond_jump_def)
qed

text \<open>The words after a CLOSURE are instructions, and control goes on after them.\<close>

lemma pseudo_pos:
  assumes chk: "luaG_checkcode (f_proto f) = Inr True" and last': "pc + n < length (pcode (f_proto f))"
    and ps: "checkpseudo (f_proto f) (int pc) n = Inr True" and pc: "pos f (pc + 1)"
  shows "pos f (pc + 1 + n) \<and> (\<forall>k < n. pos f (pc + 1 + k) \<and>
    (is_op OP_GETUPVAL (pcode (f_proto f) ! (pc + 1 + k)) \<or> is_op OP_MOVE (pcode (f_proto f) ! (pc + 1 + k))))"
  using last' ps pc
proof (induction n arbitrary: pc)
  case (Suc n)
  let ?j = "pcode (f_proto f) ! (pc + 1)"
  have code: "code_at (f_proto f) (int pc + 1) = Inr ?j" using Suc.prems(1) by (simp add: code_at_eq sizecode_def nat_add_distrib)
  then have j: "is_op OP_GETUPVAL ?j \<or> is_op OP_MOVE ?j" and ps: "checkpseudo (f_proto f) (int (pc + 1)) n = Inr True"
    using Suc.prems(2) by (simp_all add: add.commute split: if_splits)
  then obtain op where op: "opcode_of (GET_OPCODE ?j) = Some op" "op = OP_GETUPVAL \<or> op = OP_MOVE"
    by (auto simp: is_op_def opcode_of_eq)
  then have "\<not> setlist_count ?j" using is_op_opcode [OF op(1)] by (auto simp: setlist_count_def)
  then have nx: "pos f (pc + 1 + 1)" using closed_nat(5) [OF chk Suc.prems(3) refl op(1)] op(2) by auto
  have IH: "pos f (pc + 1 + 1 + n) \<and> (\<forall>k < n. pos f (pc + 1 + 1 + k) \<and>
      (is_op OP_GETUPVAL (pcode (f_proto f) ! (pc + 1 + 1 + k)) \<or> is_op OP_MOVE (pcode (f_proto f) ! (pc + 1 + 1 + k))))"
    by (rule Suc.IH [OF _ ps nx]) (use Suc.prems(1) in simp)
  have "pos f (pc + 1 + k) \<and>
      (is_op OP_GETUPVAL (pcode (f_proto f) ! (pc + 1 + k)) \<or> is_op OP_MOVE (pcode (f_proto f) ! (pc + 1 + k)))" if "k < Suc n" for k
    using that IH Suc.prems(3) j by (cases k) auto
  then show ?case using IH by simp
qed simp

lemma closure_upvals_safe:
  assumes chk: "luaG_checkcode (f_proto f) = Inr True" and nups: "length (cupvals (f_cl f)) = unat (pnups (f_proto f))"
  shows "world_ok L w \<Longrightarrow> \<forall>k < n. pos f (pc + k) \<and>
    (is_op OP_GETUPVAL (pcode (f_proto f) ! (pc + k)) \<or> is_op OP_MOVE (pcode (f_proto f) ! (pc + k))) \<Longrightarrow>
    inside (\<lambda>(us, w). length us = n \<and> world_ok L w) (closure_upvals f w pc n)"
proof (induction n arbitrary: w pc)
  case (Suc n)
  let ?j = "pcode (f_proto f) ! pc"
  have pc: "pos f pc" and j: "is_op OP_GETUPVAL ?j \<or> is_op OP_MOVE ?j" using Suc.prems(2) by (metis add_0_right zero_less_Suc)+
  from checked_operands [OF chk pc refl] obtain op where op: "opcode_of (GET_OPCODE ?j) = Some op" "operands_ok (f_proto f) pc ?j op" .
  have up: "op = OP_GETUPVAL \<Longrightarrow> argB ?j < length (cupvals (f_cl f))" and mv: "op = OP_MOVE \<Longrightarrow> argB ?j < nregs f"
    using op(2) nups argR by (auto simp: operands_ok_def Let_def mode_simps arg_modes simp del: checkArgMode.simps)
  have next': "\<forall>k < n. pos f (pc + 1 + k) \<and>
    (is_op OP_GETUPVAL (pcode (f_proto f) ! (pc + 1 + k)) \<or> is_op OP_MOVE (pcode (f_proto f) ! (pc + 1 + k)))"
  proof (intro allI impI)
    fix k assume "k < n"
    then show "pos f (pc + 1 + k) \<and>
      (is_op OP_GETUPVAL (pcode (f_proto f) ! (pc + 1 + k)) \<or> is_op OP_MOVE (pcode (f_proto f) ! (pc + 1 + k)))"
      using Suc.prems(2) [rule_format, of "Suc k"] by simp
  qed
  have rest: "inside (\<lambda>(us, w). length us = Suc n \<and> world_ok L w) (ebind (closure_upvals f w (pc + 1) n) (\<lambda>(us, w). Inr (u # us, w)))"
    if "world_ok L w" for u w
    by (rule inside_ebind [OF Suc.IH [OF that next']]) auto
  have first: "inside (\<lambda>x. world_ok L (snd x)) (if is_op OP_GETUPVAL ?j then ebind (upv f (argB ?j)) (\<lambda>u. Inr (u, w))
      else if is_op OP_MOVE ?j \<and> argB ?j < nregs f then lift (luaF_findupval w (f_base f + argB ?j)) else Inl Stray)"
  proof (cases "is_op OP_GETUPVAL ?j")
    case True
    then have "op = OP_GETUPVAL" using is_op_opcode [OF op(1), of OP_GETUPVAL] by simp
    then show ?thesis using True Suc.prems(1) by (simp add: inside_ebind [OF upv_safe [OF up]])
  next
    case False
    then have m: "is_op OP_MOVE ?j" using j by blast
    then have "op = OP_MOVE" using is_op_opcode [OF op(1), of OP_MOVE] by simp
    then show ?thesis using False m mv inside_lift [OF findupval_inv [OF Suc.prems(1)]] by simp
  qed
  show ?case
    unfolding closure_upvals.simps
  proof (rule inside_ebind [OF fetch_safe [OF pc]])
    fix i assume i: "i = ?j"
    show "inside (\<lambda>(us, w). length us = Suc n \<and> world_ok L w)
      (ebind (if is_op OP_GETUPVAL i then ebind (upv f (argB i)) (\<lambda>u. Inr (u, w))
        else if is_op OP_MOVE i \<and> argB i < nregs f then lift (luaF_findupval w (f_base f + argB i)) else Inl Stray)
        (\<lambda>(u, w). ebind (closure_upvals f w (pc + 1) n) (\<lambda>(us, w). Inr (u # us, w))))"
      unfolding i by (rule inside_ebind [OF first]) (use rest in \<open>simp add: case_prod_unfold\<close>)
  qed
qed simp

text \<open>A good position and state.\<close>

abbreviation to_pos :: "nat \<Rightarrow> frame \<Rightarrow> (nat \<times> world) exec \<Rightarrow> bool" where
  "to_pos L f \<equiv> inside (\<lambda>(pc, w). pos f pc \<and> world_ok L w)"

lemma branch_safe:
  assumes w: "world_ok L w" and f: "fits L f" and chk: "luaG_checkcode (f_proto f) = Inr True" and pc: "pos f pc"
    and i: "i = pcode (f_proto f) ! pc" and op: "opcode_of (GET_OPCODE i) = Some op" and ok: "operands_ok (f_proto f) pc i op"
    and call: "good_call call"
  shows "op = OP_JMP \<Longrightarrow> to_pos L f (op_jmp w i (pc + 1))"
    and "op \<in> {OP_EQ, OP_LT, OP_LE} \<Longrightarrow> (\<And>w a b. world_ok L w \<Longrightarrow> gives (\<lambda>x. world_ok L (snd x)) (cmp w a b)) \<Longrightarrow>
      to_pos L f (compare_op cmp f w i (pc + 1))"
    and "op = OP_TEST \<Longrightarrow> to_pos L f (op_test f w i (pc + 1))"
    and "op = OP_TESTSET \<Longrightarrow> to_pos L f (op_testset f w i (pc + 1))"
    and "op = OP_FORLOOP \<Longrightarrow> to_pos L f (op_forloop c f w i (pc + 1))"
    and "op = OP_FORPREP \<Longrightarrow> to_pos L f (op_forprep c f w i (pc + 1))"
    and "op = OP_TFORLOOP \<Longrightarrow> to_pos L f (op_tforloop call f w i (pc + 1))"
proof -
  note args = ok [unfolded operands_ok_def Let_def]
  have A: "argA i < nregs f" using args by (simp add: nregs_def)
  note closed = closed_nat [OF chk pc i op]
  have jump: "getOpMode op = iAsBx \<Longrightarrow> world_ok L w \<Longrightarrow>
      to_pos L f (ebind (jump_to (pc + 1) (sint (GETARG_sBx i))) (\<lambda>pc. Inr (pc, w)))" for w
    by (rule inside_ebind [OF closed(1)]) simp_all
  have cond: "testTMode op \<Longrightarrow> world_ok L w \<Longrightarrow>
      to_pos L f (ebind (cond_jump f (pc + 1) b) (\<lambda>pc. Inr (pc, w)))" for w b
    by (rule inside_ebind [OF cond_jump_safe [OF chk pc op [unfolded i]]]) simp_all
  have next': "op = OP_FORLOOP \<Longrightarrow> pos f (pc + 1)" using closed(5) is_op_opcode [OF op] by (auto simp: setlist_count_def)
  note set = set_safe [OF _ f, where extra = 0, simplified]
  note regw = inside_ebind [OF reg_safe [OF _ f]] and rkw = inside_ebind [OF rk_safe [OF w f]]
  show "op = OP_JMP \<Longrightarrow> to_pos L f (op_jmp w i (pc + 1))"
    using jump [OF _ w] by (simp add: op_jmp_def mode_simps)
  show "op \<in> {OP_EQ, OP_LT, OP_LE} \<Longrightarrow> (\<And>w a b. world_ok L w \<Longrightarrow> gives (\<lambda>x. world_ok L (snd x)) (cmp w a b)) \<Longrightarrow> to_pos L f (compare_op cmp f w i (pc + 1))"
  proof -
    assume e: "op \<in> {OP_EQ, OP_LT, OP_LE}" and cmp: "\<And>w a b. world_ok L w \<Longrightarrow> gives (\<lambda>x. world_ok L (snd x)) (cmp w a b)"
    then have k: "checkArgMode (f_proto f) (GETARG_B i) OpArgK" "checkArgMode (f_proto f) (GETARG_C i) OpArgK" and t: "testTMode op"
      using args [THEN conjunct2, THEN conjunct1] by (auto simp: mode_simps arg_modes)
    show "to_pos L f (compare_op cmp f w i (pc + 1))"
      unfolding compare_op_def
    proof (rule rkw [OF k(1)], rule rkw [OF k(2)], rule inside_after_lift [OF cmp [OF w]])
      fix x assume "world_ok L (snd (x :: bool \<times> world))"
      then show "to_pos L f
        (case x of (res, w) \<Rightarrow> ebind (cond_jump f (pc + 1) ((if res then 1 else 0) = argA i)) (\<lambda>pc. Inr (pc, w)))"
        using cond [OF t] by (cases x) simp
    qed
  qed
  show "op = OP_TEST \<Longrightarrow> to_pos L f (op_test f w i (pc + 1))"
    unfolding op_test_def by (rule regw [OF w A]) (use cond [OF _ w] in \<open>simp add: mode_simps\<close>)
  show "op = OP_TESTSET \<Longrightarrow> to_pos L f (op_testset f w i (pc + 1))"
  proof -
    assume e: "op = OP_TESTSET"
    then have B: "argB i < nregs f" and t: "testTMode op"
      using args [THEN conjunct2, THEN conjunct1] by (simp_all add: mode_simps arg_modes checkreg_nat nregs_def)
    have "inside (world_ok L) (if b then set_reg f w (argA i) v else Inr w)" for b v using set [OF w A] w by simp
    then show "to_pos L f (op_testset f w i (pc + 1))"
      unfolding op_testset_def Let_def by (intro regw [OF w B] inside_ebind [OF _ cond [OF t]])
  qed
  show "op = OP_FORLOOP \<Longrightarrow> to_pos L f (op_forloop c f w i (pc + 1))"
  proof -
    assume e: "op = OP_FORLOOP"
    then have r: "argA i + 3 < nregs f" using args by (simp add: nregs_def)
    have num: "inside (\<lambda>_. True) (nvalue v)" for v by (simp add: nvalue_def split: TValue.split)
    show "to_pos L f (op_forloop c f w i (pc + 1))"
      unfolding op_forloop_def Let_def
    proof (intro regw [OF w] inside_ebind [OF num])
      fix step idx limit
      have "to_pos L f (ebind (jump_to (pc + 1) (sint (GETARG_sBx i))) (\<lambda>pc.
          ebind (set_reg f w (argA i) (TNumber idx)) (\<lambda>w.
          ebind (set_reg f w (argA i + 3) (TNumber idx)) (\<lambda>w. Inr (pc, w)))))" for idx
        using w A r e by (intro inside_ebind [OF closed(1)] inside_ebind [OF set]) (simp_all add: mode_simps)
      then show "to_pos L f (if if dbl_lt 0 step then dbl_le (c_arith c TM_ADD idx step) limit else dbl_le limit (c_arith c TM_ADD idx step)
        then ebind (jump_to (pc + 1) (sint (GETARG_sBx i))) (\<lambda>pc.
          ebind (set_reg f w (argA i) (TNumber (c_arith c TM_ADD idx step))) (\<lambda>w.
          ebind (set_reg f w (argA i + 3) (TNumber (c_arith c TM_ADD idx step))) (\<lambda>w. Inr (pc, w))))
        else Inr (pc + 1, w))"
        using next' [OF e] w by simp
    qed (use r in auto)
  qed
  show "op = OP_FORPREP \<Longrightarrow> to_pos L f (op_forprep c f w i (pc + 1))"
  proof -
    assume e: "op = OP_FORPREP"
    then have r: "argA i + 3 < nregs f" using args by (simp add: nregs_def)
    have num: "inside (\<lambda>x. world_ok L (snd x)) (for_number c f w n msg)" if "world_ok L w" "n < nregs f" for w n msg
      using that by (auto simp: for_number_def intro!: regw inside_ebind [OF set] split: option.split)
    show "to_pos L f (op_forprep c f w i (pc + 1))"
      unfolding op_forprep_def using r w jump e
      by (auto simp: mode_simps intro!: inside_ebind [OF num] inside_ebind [OF set] del: conjI)
  qed
  show "op = OP_TFORLOOP \<Longrightarrow> to_pos L f (op_tforloop call f w i (pc + 1))"
  proof -
    assume e: "op = OP_TFORLOOP"
    then have r: "1 \<le> argC i" "argA i + 2 + argC i < nregs f" and t: "testTMode op"
      using args by (simp_all add: nregs_def mode_simps)
    have set2: "inside (world_ok L) (set_reg_extra 2 f w n v)" if "world_ok L w" "n < nregs f + 2" for w n v
      using set_safe [OF that(1) f that(2)] by simp
    have res: "inside (world_ok L) (set_regs f w (argA i + 3) (take (argC i) (rs @ replicate (argC i) TNil)))" if "world_ok L w" for w rs
      by (rule set_all_safe [OF that f]) (use r in simp)
    have last': "to_pos L f (if v \<noteq> TNil
        then ebind (set_reg f w (argA i + 3 - 1) v) (\<lambda>w. ebind (cond_jump f (pc + 1) True) (\<lambda>pc. Inr (pc, w)))
        else ebind (cond_jump f (pc + 1) False) (\<lambda>pc. Inr (pc, w)))" if "world_ok L w" for w v
    proof -
      have "inside (world_ok L) (set_reg f w (argA i + 3 - 1) v)" using r by (intro set that) simp
      from inside_ebind [OF this cond [OF t]] show ?thesis using cond [OF t that] by simp
    qed
    have fin: "to_pos L f (ebind (set_regs f w (argA i + 3) (take (argC i) (rs @ replicate (argC i) TNil))) (\<lambda>w.
        ebind (reg f w (argA i + 3)) (\<lambda>v. if v \<noteq> TNil
          then ebind (set_reg f w (argA i + 3 - 1) v) (\<lambda>w. ebind (cond_jump f (pc + 1) True) (\<lambda>pc. Inr (pc, w)))
          else ebind (cond_jump f (pc + 1) False) (\<lambda>pc. Inr (pc, w)))))" if w: "world_ok L w" for w rs
      by (intro inside_ebind [OF res [OF w]] regw last') (use r in auto)
    show "to_pos L f (op_tforloop call f w i (pc + 1))"
      unfolding op_tforloop_def Let_def case_prod_unfold
      by (intro regw inside_ebind [OF set2] inside_after_lift [OF stable_call [OF good_call_stable [OF call]]] fin [unfolded case_prod_unfold])
        (use r A w in auto)
  qed
qed

lemma loadbool_safe:
  assumes w: "world_ok L w" and f: "fits L f" and code: "code_ok (f_proto f)" and pc: "pos f pc"
    and i: "i = pcode (f_proto f) ! pc" and op: "opcode_of (GET_OPCODE i) = Some OP_LOADBOOL" and ok: "operands_ok (f_proto f) pc i OP_LOADBOOL"
  shows "to_pos L f (op_loadbool f w i (pc + 1))"
proof -
  have chk: "luaG_checkcode (f_proto f) = Inr True" and mem: "\<forall>i \<in> set (pcode (f_proto f)). is_op OP_LOADBOOL i \<longrightarrow> GETARG_C i \<le> 1"
    using code_okD [OF code] by blast+
  note closed = closed_nat [OF chk pc i op]
  have "i \<in> set (pcode (f_proto f))" using instr_at_range [OF pc] i by (simp add: sizecode_def)
  then have "GETARG_C i \<le> 1" using mem op by (simp add: is_op_opcode)
  then have "GETARG_C i = 0 \<or> GETARG_C i = 1" by (simp add: word_le_nat_alt unat_eq_0 [symmetric] word_unat_eq_iff le_Suc_eq)
  moreover have "\<not> setlist_count i" using op by (simp add: setlist_count_def is_op_opcode)
  ultimately have "pos f (if GETARG_C i \<noteq> 0 then pc + 1 + 1 else pc + 1)" using closed(3,5) by auto
  moreover have "argA i < nregs f" using ok by (simp add: operands_ok_def nregs_def Let_def)
  ultimately show ?thesis unfolding op_loadbool_def by (intro inside_ebind [OF set_safe [OF w f]]) auto
qed

lemma closure_safe:
  assumes w: "world_ok L w" and f: "fits L f" and code: "code_ok (f_proto f)" and pc: "pos f pc"
    and i: "i = pcode (f_proto f) ! pc" and op: "opcode_of (GET_OPCODE i) = Some OP_CLOSURE" and ok: "operands_ok (f_proto f) pc i OP_CLOSURE"
    and nups: "length (cupvals (f_cl f)) = unat (pnups (f_proto f))"
  shows "to_pos L f (op_closure f w i (pc + 1))"
proof -
  let ?p = "pp (f_proto f) ! argBx i"
  let ?n = "unat (pnups ?p)"
  have chk: "luaG_checkcode (f_proto f) = Inr True" and sub: "\<forall>q \<in> set (pp (f_proto f)). code_ok q"
    using code_okD [OF code] by blast+
  have bx: "argBx i < length (pp (f_proto f))" and ps: "checkpseudo (f_proto f) (int pc) ?n = Inr True"
    and len: "pc + ?n < length (pcode (f_proto f))" and A: "argA i < nregs f"
    using ok by (simp_all add: operands_ok_def Let_def nregs_def)
  have "\<not> setlist_count i" using op by (simp add: setlist_count_def is_op_opcode)
  then have nx: "pos f (pc + 1)" using closed_nat(5) [OF chk pc i op] by simp
  note pseudo = pseudo_pos [OF chk len ps nx]
  have good: "code_ok ?p" using sub bx by simp
  have add: "world_ok L (w\<lparr>closures := (closures w)(a \<mapsto> \<lparr>cproto = ?p, cenv = e, cupvals = us\<rparr>)\<rparr>)"
    if "world_ok L w" "length us = ?n" for w a e us
    using that good by (auto simp: world_ok_def good_closure_def)
  have up: "inside (\<lambda>(us, w). length us = ?n \<and> world_ok L w) (closure_upvals f (w\<lparr>next_addr := a\<rparr>) (pc + 1) ?n)" for a
    by (rule closure_upvals_safe [OF chk nups]) (use w pseudo in auto)
  show ?thesis
    unfolding op_closure_def Let_def new_addr_def prod.case if_P [OF bx]
  proof (rule inside_ebind [OF up], unfold case_prod_unfold)
    fix x :: "addr list \<times> world" assume x: "length (fst x) = ?n \<and> world_ok L (snd x)"
    show "inside (\<lambda>p. pos f (fst p) \<and> world_ok L (snd p)) (ebind
        (set_reg f (snd x\<lparr>closures := (closures (snd x))(next_addr w \<mapsto> \<lparr>cproto = ?p, cenv = cenv (f_cl f), cupvals = fst x\<rparr>)\<rparr>)
          (argA i) (TFunction (next_addr w))) (\<lambda>w. Inr (pc + 1 + ?n, w)))"
      by (rule inside_ebind [OF set_safe [OF add f]]) (use x A pseudo in simp_all)
  qed
qed

lemma set_items_safe:
  "world_ok L w \<Longrightarrow> fits L f \<Longrightarrow> \<forall>k. 1 \<le> k \<longrightarrow> k \<le> n \<longrightarrow> a + k < nregs f \<or> f_base f + a + k < tp \<Longrightarrow> tp \<le> L \<Longrightarrow>
    inside (\<lambda>_. True) (set_items f tp w a t last' n)"
proof (induction n arbitrary: t last')
  case (Suc n)
  have r: "inside (\<lambda>_. True) (open_reg f tp w (a + Suc n))"
    using Suc.prems(3) [rule_format, of "Suc n"] reg_safe [OF Suc.prems(1,2), of "a + Suc n"] Suc.prems(1,4)
    by (auto simp: open_reg_def world_ok_def add.assoc)
  have "inside (\<lambda>_. True) (set_items f tp w a t l n)" for t l by (rule Suc.IH) (use Suc.prems in auto)
  then show ?case unfolding set_items.simps by (intro inside_ebind [OF r] inside_after_pure) auto
qed simp

lemma setlist_safe:
  assumes w: "world_ok L w" and f: "fits L f" and chk: "luaG_checkcode (f_proto f) = Inr True" and pc: "pos f pc"
    and i: "i = pcode (f_proto f) ! pc" and op: "opcode_of (GET_OPCODE i) = Some OP_SETLIST" and ok: "operands_ok (f_proto f) pc i OP_SETLIST"
    and tp: "tp \<le> L"
  shows "inside (\<lambda>(tp', pc', w'). pos f pc' \<and> world_ok L w' \<and> tp' = (if argB i = 0 then ci_top (f_ci f) else tp))
    (op_setlist f tp w i (pc + 1))"
proof -
  let ?tp = "if argB i = 0 then ci_top (f_ci f) else tp"
  let ?P = "\<lambda>(tp', pc', w'). pos f pc' \<and> world_ok L w' \<and> tp' = ?tp"
  let ?n = "if argB i = 0 then int tp - int (f_base f + argA i) - 1 else int (argB i)"
  have A: "argA i < nregs f" and AB: "argA i + argB i < nregs f" using ok by (simp_all add: operands_ok_def nregs_def Let_def)
  note closed = closed_nat [OF chk pc i op]
  have C: "setlist_count i \<longleftrightarrow> argC i = 0" using op by (simp add: setlist_count_def is_op_opcode unat_eq_0)
  have cnt: "inside (\<lambda>x. pos f (snd x)) (if argC i = 0 then ebind (fetch f (pc + 1)) (\<lambda>j. Inr (sint j, pc + 1 + 1)) else Inr (int (argC i), pc + 1))"
  proof (cases "argC i = 0")
    case True
    then have p2: "pos f (pc + 2)" using closed(4) C by simp
    then have "fetch f (pc + 1) = Inr (pcode (f_proto f) ! (pc + 1))"
      using instr_at_range [OF p2] by (simp add: fetch_def sizecode_def)
    then show ?thesis using True p2 by (simp add: ebind_def)
  qed (use closed(5) C in simp)
  have items: "inside (\<lambda>_. True) (set_items f tp w (argA i) t l (nat ?n))" for t l
  proof (rule set_items_safe [OF w f _ tp], intro allI impI)
    fix k assume k: "1 \<le> k" "k \<le> nat ?n"
    show "argA i + k < nregs f \<or> f_base f + argA i + k < tp"
    proof (cases "argB i = 0")
      case True
      then have "k \<le> nat (int tp - int (f_base f + argA i) - 1)" using k(2) by simp
      then show ?thesis using k(1) by linarith
    next
      case False
      then have "k \<le> nat (int (argB i))" using k(2) by argo
      then have "k \<le> argB i" unfolding nat_int .
      then show ?thesis using AB by linarith
    qed
  qed
  have upd: "inside ?P (ebind (lift (deref (tables w) a)) (\<lambda>h.
            ebind (if l > int (length (array h)) then lift (luaH_resizearray h (nat l)) else Inr h) (\<lambda>h.
            ebind (set_items f tp w (argA i) h l (nat ?n)) (\<lambda>h.
            Inr (?tp, q, w\<lparr>tables := (tables w)(a \<mapsto> h)\<rparr>)))))" if "pos f q" for a l q
  proof (intro inside_after_pure inside_ebind [OF items])
    fix h
    have "inside (\<lambda>_. True) (if l > int (length (array h)) then lift (luaH_resizearray h (nat l)) else Inr h)"
      by (simp add: inside_pure_lift)
    then show "inside ?P (ebind (if l > int (length (array h)) then lift (luaH_resizearray h (nat l)) else Inr h) (\<lambda>h.
            ebind (set_items f tp w (argA i) h l (nat ?n)) (\<lambda>h. Inr (?tp, q, w\<lparr>tables := (tables w)(a \<mapsto> h)\<rparr>))))"
      by (rule inside_ebind) (rule inside_ebind [OF items], use w that in simp)
  qed
  show ?thesis
    unfolding op_setlist_def Let_def
  proof (rule inside_ebind [OF cnt], unfold case_prod_unfold, rule inside_ebind [OF reg_safe [OF w f A]])
    fix x :: "int \<times> nat" and ra assume q: "pos f (snd x)"
    let ?l = "(fst x - 1) * LFIELDS_PER_FLUSH + ?n"
    have "inside ?P (if \<not> (fits_int (fst x - 1) \<and> fits_int ((fst x - 1) * LFIELDS_PER_FLUSH) \<and> fits_int ?l) then Inl (Fault SignedOverflow)
      else ebind (lift (deref (tables w) a)) (\<lambda>h.
            ebind (if ?l > int (length (array h)) then lift (luaH_resizearray h (nat ?l)) else Inr h) (\<lambda>h.
            ebind (set_items f tp w (argA i) h ?l (nat ?n)) (\<lambda>h.
            Inr (?tp, snd x, w\<lparr>tables := (tables w)(a \<mapsto> h)\<rparr>)))))" for a
      using upd [OF q] by simp
    then show "inside (\<lambda>p. pos f (fst (snd p)) \<and> world_ok L (snd (snd p)) \<and> fst p = ?tp)
      (case ra of
        TTable a \<Rightarrow>
          if \<not> (fits_int (fst x - 1) \<and> fits_int ((fst x - 1) * LFIELDS_PER_FLUSH) \<and> fits_int ?l) then Inl (Fault SignedOverflow)
          else ebind (lift (deref (tables w) a)) (\<lambda>h.
            ebind (if ?l > int (length (array h)) then lift (luaH_resizearray h (nat ?l)) else Inr h) (\<lambda>h.
            ebind (set_items f tp w (argA i) h ?l (nat ?n)) (\<lambda>h.
            Inr (?tp, snd x, w\<lparr>tables := (tables w)(a \<mapsto> h)\<rparr>))))
      | _ \<Rightarrow> Inr (?tp, snd x, w))"
      using w q by (cases ra) (simp_all add: case_prod_unfold)
  qed
qed

lemma copy_varargs_safe:
  assumes f: "f_base f + nregs f \<le> L" "n \<le> f_base f"
    and o': "isopen \<longrightarrow> a < nregs f \<and> f_base f + a + n \<le> L"
  shows "world_ok L w \<Longrightarrow> (if isopen then k + m \<le> n else a + k + m \<le> nregs f) \<Longrightarrow> inside (world_ok L) (copy_varargs f isopen w a n k m)"
proof (induction m arbitrary: w k)
  case (Suc m)
  have src: "inside (\<lambda>_. True) (if k < n then
      if n - k \<le> f_base f \<and> f_base f + k - n < length (stack w) then Inr (stack w ! (f_base f + k - n)) else Inl Stray
      else Inr TNil)"
    using f Suc.prems(1) by (auto simp: world_ok_def)
  have dst: "inside (world_ok L) (set_reg_extra (if isopen then n else 0) f w (a + k) v)" for v
    using f o' Suc.prems by (simp add: set_reg_extra_def split: if_splits) (auto simp: world_ok_def)
  show ?case
    unfolding copy_varargs.simps
    by (intro inside_ebind [OF src] inside_ebind [OF dst] Suc.IH) (use Suc.prems(2) in \<open>auto split: if_splits\<close>)
qed simp

lemma vararg_safe:
  assumes w: "world_ok L w" and f: "fits L f" and ok: "operands_ok (f_proto f) pc i OP_VARARG"
    and tp: "tp \<le> L" and top': "tp = ci_top (f_ci f)" "ci_top (f_ci f) = f_base f + nregs f"
  shows "inside (\<lambda>(tp', w'). world_ok L w' \<and> tp' \<le> length (stack w') \<and> (argB i \<noteq> 0 \<longrightarrow> tp' = tp)) (op_vararg f tp w i)"
proof -
  define n where "n = nat (int (f_base f) - int (ci_func (f_ci f)) - int (unat (pnumparams (f_proto f))) - 1)"
  have nb: "n \<le> f_base f" unfolding n_def by linarith
  have A: "argA i < nregs f" using ok by (simp add: operands_ok_def nregs_def Let_def)
  show ?thesis
  proof (cases "argB i = 0")
    case True
    define w1 where "w1 = luaD_checkstack w tp n"
    have "int tp \<le> stack_last w" using f w top' by (simp add: stack_last_def EXTRA_STACK_def fits_def world_ok_def)
    from checkstack_room [OF this, of n] have big: "tp + n + 6 < length (stack w1)" and len: "length (stack w) \<le> length (stack w1)"
      by (simp_all add: stack_last_def EXTRA_STACK_def w1_def)
    have w1: "world_ok (length (stack w1)) w1" using checkstack_inv [OF w, of tp n] by (simp add: world_ok_def w1_def)
    have L: "L \<le> length (stack w1)" using w len by (simp add: world_ok_def)
    have "inside (world_ok (length (stack w1))) (copy_varargs f True w1 (argA i) n 0 n)"
      by (rule copy_varargs_safe [OF _ nb _ w1]) (use big top' A in auto)
    then have "inside (\<lambda>(tp', w'). world_ok L w' \<and> tp' \<le> length (stack w'))
        (ebind (copy_varargs f True w1 (argA i) n 0 n) (\<lambda>w. Inr (f_base f + argA i + n, w)))"
      by (rule inside_ebind) (use big top' A L in \<open>auto simp: world_ok_def\<close>)
    then show ?thesis
      unfolding op_vararg_def Let_def n_def [symmetric] w1_def [symmetric] if_P [OF True] by (rule inside_mono) (use True in auto)
  next
    case False
    then have AB: "argA i + (argB i - 1) \<le> nregs f" using ok by (simp add: operands_ok_def nregs_def Let_def)
    have "inside (world_ok L) (copy_varargs f False w (argA i) n 0 (argB i - 1))"
      by (rule copy_varargs_safe [OF _ nb _ w]) (use f AB in \<open>auto simp: fits_def\<close>)
    then have "inside (\<lambda>(tp', w'). world_ok L w' \<and> tp' \<le> length (stack w') \<and> tp' = tp)
        (ebind (copy_varargs f False w (argA i) n 0 (argB i - 1)) (\<lambda>w. Inr (tp, w)))"
      by (rule inside_ebind) (use tp in \<open>auto simp: world_ok_def\<close>)
    then show ?thesis
      unfolding op_vararg_def Let_def n_def [symmetric] if_not_P [OF False] by (rule inside_mono) auto
  qed
qed

section \<open>Calls\<close>

lemma put_slots_end:
  "world_ok L w \<Longrightarrow> n \<le> length (stack w) \<Longrightarrow> gives (\<lambda>w'. world_ok L w' \<and> n + length vs \<le> length (stack w')) (put_slots w n vs)"
proof (induction vs arbitrary: w n)
  case (Cons v vs)
  show ?case
  proof (cases "n < length (stack w)")
    case True
    then show ?thesis using Cons.IH [of "w\<lparr>stack := (stack w)[n := v]\<rparr>" "Suc n"] Cons.prems by (simp add: put_slot_def)
  qed (simp add: put_slot_def)
qed simp

lemma move_results_end:
  "world_ok L w \<Longrightarrow> res \<le> length (stack w) \<Longrightarrow>
    gives (\<lambda>(res', j', w'). world_ok L w' \<and> res' \<le> length (stack w')) (move_results w res first tp j)"
proof (induction w res first tp j rule: move_results.induct)
  case (1 w res first tp j)
  show ?case
  proof (cases "j \<noteq> 0 \<and> first < tp \<and> first < length (stack w) \<and> res < length (stack w)")
    case True
    define w1 where "w1 = w\<lparr>stack := (stack w)[res := stack w ! first]\<rparr>"
    have ok: "get_slot w first = Inr (stack w ! first)" "put_slot w res (stack w ! first) = Inr w1"
      using True by (simp_all add: get_slot_def put_slot_def w1_def)
    have "gives (\<lambda>(res', j', w'). world_ok L w' \<and> res' \<le> length (stack w')) (move_results w1 (Suc res) (Suc first) tp (j - 1))"
      by (rule "1.IH" [OF _ ok]) (use True "1.prems" in \<open>simp_all add: w1_def\<close>)
    then show ?thesis using True ok by (simp add: move_results.simps [of w res first tp j])
  next
    case False
    then show ?thesis using "1.prems" by (auto simp: move_results.simps [of w res first tp j] get_slot_def put_slot_def)
  qed
qed

lemma poscall_end:
  assumes "world_ok L w" "ci_func ci \<le> length (stack w)"
  shows "gives (\<lambda>(t, w'). world_ok L w' \<and> t \<le> length (stack w')) (luaD_poscall w ci first tp)"
  unfolding luaD_poscall_def
proof (rule gives_rbind [OF move_results_end [OF assms]], clarify)
  fix res j w1 assume "world_ok L w1" "res \<le> length (stack w1)"
  from put_slots_end [OF this, of "replicate (nat j) TNil"]
  show "gives (\<lambda>(t, w'). world_ok L w' \<and> t \<le> length (stack w'))
    (rbind (put_slots w1 res (replicate (nat j) TNil)) (\<lambda>w. Inr (res + nat j, w)))"
    by (rule gives_rbind) simp
qed

lemma adjust_varargs_inv:
  assumes w: "world_ok L w"
  shows "gives (\<lambda>(base, tp', w'). world_ok L w' \<and> base = tp + nat (int (unat (pnumparams p)) - actual)) (adjust_varargs w tp p actual)"
  unfolding adjust_varargs_def Let_def
proof (rule gives_rbind [OF put_slots_inv [OF w]])
  fix w1 assume w1: "world_ok L w1"
  let ?n = "unat (pnumparams p)"
  let ?miss = "nat (int ?n - actual)"
  let ?act = "nat (actual + int ?miss)"
  let ?Q = "\<lambda>(base, tp', w'). world_ok L w' \<and> base = tp + ?miss"
  have arg: "gives (\<lambda>x. world_ok L (snd x)) (if b then rbind (make_arg_table w1 vs) (\<lambda>(a, w). Inr (Some a, w)) else Inr (None, w1))" for b vs
    using w1 by (auto simp: make_arg_table_def Let_def new_addr_def gives_def rbind_eq_Inr)
  have rest: "gives ?Q (rbind (move_fixed u lo (tp + ?miss) k) (\<lambda>(tp', w). case h of
      None \<Rightarrow> Inr (tp + ?miss, tp', w) | Some a \<Rightarrow> rbind (put_slot w tp' (TTable a)) (\<lambda>w. Inr (tp + ?miss, Suc tp', w))))"
    if "world_ok L u" for u lo k h
    by (rule gives_rbind [OF move_fixed_inv [OF that]]) (auto intro!: gives_rbind [OF put_slot_inv] split: option.split)
  show "gives ?Q (rbind (if pis_vararg p AND VARARG_NEEDSARG \<noteq> 0
             then rbind (make_arg_table w1 (take (?act - ?n) (drop (tp + ?miss - (?act - ?n)) (stack w1)))) (\<lambda>(a, w). Inr (Some a, w))
             else Inr (None, w1)) (\<lambda>(htab, w).
      rbind (move_fixed w (tp + ?miss - ?act) (tp + ?miss) ?n) (\<lambda>(tp', w).
        case htab of
          None \<Rightarrow> Inr (tp + ?miss, tp', w)
        | Some a \<Rightarrow> rbind (put_slot w tp' (TTable a)) (\<lambda>w. Inr (tp + ?miss, Suc tp', w)))))"
    by (rule gives_rbind [OF arg], unfold case_prod_unfold, rule rest [unfolded case_prod_unfold])
qed

lemma precall_lua_inv:
  assumes w: "world_ok L w"
  shows "gives (\<lambda>(ci, w'). world_ok L w' \<and> ci_func ci = func \<and> func < ci_base ci \<and>
    ci_top ci = ci_base ci + unat (pmaxstacksize p) \<and> ci_nresults ci = nr) (precall_lua w func tp p nr)"
proof -
  let ?w = "luaD_checkstack w tp (unat (pmaxstacksize p))"
  have entry: "gives (\<lambda>(base, tp', w'). world_ok L w' \<and> func < base) (if pis_vararg p = 0 then
       Inr (func + 1, if tp > func + 1 + unat (pnumparams p) then func + 1 + unat (pnumparams p) else tp, ?w)
     else adjust_varargs ?w tp p (int tp - int func - 1))"
  proof (cases "pis_vararg p = 0")
    case False
    have "func < tp + nat (int (unat (pnumparams p)) - (int tp - int func - 1))" by linarith
    then show ?thesis using False by (auto intro!: gives_mono [OF adjust_varargs_inv [OF checkstack_inv [OF w]]])
  qed (use checkstack_inv [OF w] in simp)
  show ?thesis
    unfolding precall_lua_def Let_def
    by (rule gives_rbind [OF entry]) (auto intro!: gives_rbind [OF put_slots_inv])
qed

definition precall_ok :: "nat \<Rightarrow> nat \<Rightarrow> int \<Rightarrow> precall \<Rightarrow> bool" where
  "precall_ok L func nr r = (case r of
     PCRLUA g w \<Rightarrow> world_ok L w \<and> good_closure (f_cl g) \<and> ci_func (f_ci g) = func \<and> func < f_base g \<and>
       ci_top (f_ci g) = f_base g + nregs g \<and> ci_nresults (f_ci g) = nr \<and> f_pc g = 0 \<and> fits (length (stack w)) g
   | PCRC t w \<Rightarrow> world_ok L w \<and> t \<le> length (stack w))"

lemma precall_c_inv:
  assumes w: "world_ok L w" and call: "good_call call" and func: "func \<le> L" and tp: "tp \<le> L"
  shows "gives (\<lambda>(t, w'). world_ok L w' \<and> t \<le> length (stack w')) (precall_c call w func fv tp nr)"
proof -
  let ?w = "luaD_checkstack w tp LUA_MINSTACK"
  let ?ci = "\<lparr>ci_base = func + 1, ci_func = func, ci_top = tp + LUA_MINSTACK, ci_nresults = nr, ci_tailcalls = 0\<rparr>"
  have w1: "world_ok L ?w" by (rule checkstack_inv [OF w])
  show ?thesis
    unfolding precall_c_def Let_def
  proof (rule gives_rbind [OF stable_call [OF good_call_stable [OF call] w1]], unfold case_prod_unfold)
    fix x :: "TValue list \<times> world" assume x: "world_ok L (snd x)"
    have w2: "world_ok L (luaD_checkstack (snd x) tp (length (fst x)))" by (rule checkstack_inv [OF x])
    show "gives (\<lambda>x. world_ok L (snd x) \<and> fst x \<le> length (stack (snd x)))
      (rbind (put_slots (luaD_checkstack (snd x) tp (length (fst x))) tp (fst x)) (\<lambda>w. luaD_poscall w ?ci tp (tp + length (fst x))))"
      by (rule gives_rbind [OF put_slots_inv [OF w2]], rule poscall_end [unfolded case_prod_unfold])
        (use func in \<open>auto simp: world_ok_def\<close>)
  qed
qed

lemma luaD_precall_inv:
  assumes w: "world_ok L w" and call: "good_call call" and func: "func < L" and tp: "tp \<le> L"
  shows "gives (precall_ok L func nr) (luaD_precall call w func tp nr)"
proof -
  have lua: "gives (precall_ok L func nr) (rbind (precall_lua u func tp (cproto cl) nr) (\<lambda>(ci, w).
      if int (ci_top ci) \<le> stack_last w then Inr (PCRLUA \<lparr>f_ci = ci, f_cl = cl, f_pc = 0\<rparr> w) else Inl AssertFailed))"
    if "world_ok L u" "closures u a = Some cl" for u a cl tp
  proof (rule gives_rbind [OF precall_lua_inv [OF that(1)]], unfold case_prod_unfold)
    fix x :: "CallInfo \<times> world"
    assume h: "world_ok L (snd x) \<and> ci_func (fst x) = func \<and> func < ci_base (fst x) \<and>
      ci_top (fst x) = ci_base (fst x) + unat (pmaxstacksize (cproto cl)) \<and> ci_nresults (fst x) = nr"
    have "good_closure cl" using that by (auto simp: world_ok_def)
    moreover have "ci_base (fst x) + unat (pmaxstacksize (cproto cl)) + 6 \<le> length (stack (snd x))"
      if "int (ci_top (fst x)) \<le> stack_last (snd x)"
      using that h unfolding stack_last_def EXTRA_STACK_def by linarith
    ultimately show "gives (precall_ok L func nr) (if int (ci_top (fst x)) \<le> stack_last (snd x)
        then Inr (PCRLUA \<lparr>f_ci = fst x, f_cl = cl, f_pc = 0\<rparr> (snd x)) else Inl AssertFailed)"
      using h by (auto simp: precall_ok_def nregs_def fits_def)
  qed
  have c: "gives (precall_ok L func nr) (rbind (precall_c call u func v tp nr) (\<lambda>(tp, w). Inr (PCRC tp w)))"
    if "world_ok L u" "tp \<le> length (stack u)" for u v tp
  proof -
    have "world_ok (length (stack u)) u" using that(1) by (simp add: world_ok_def)
    note precall_c_inv [OF this call, of func tp v nr]
    then have "gives (\<lambda>(t, w'). world_ok L w' \<and> t \<le> length (stack w')) (precall_c call u func v tp nr)"
      by (rule gives_mono) (use that func in \<open>auto simp: world_ok_def\<close>)
    then show ?thesis by (rule gives_rbind) (auto simp: precall_ok_def)
  qed
  have meta: "gives (\<lambda>x. world_ok L (snd x) \<and> fst x \<le> length (stack (snd x))) (if b then Inr (tp, w) else tryfuncTM w func tp)" for b
  proof -
    have "gives (\<lambda>x. world_ok L (snd x) \<and> fst x \<le> length (stack (snd x))) (tryfuncTM w func tp)"
      unfolding tryfuncTM_def
    proof (intro gives_skip)
      fix tm
      have "gives (\<lambda>x. world_ok L (snd x) \<and> fst x \<le> length (stack (snd x)))
          (rbind (put_slot (luaD_checkstack u tp 1) func tm) (\<lambda>w. Inr (tp + 1, w)))" if u: "world_ok L u" for u
      proof -
        have tpu: "tp \<le> length (stack u)" using u tp by (simp add: world_ok_def)
        have "tp + 1 \<le> length (stack (luaD_checkstack u tp 1))"
          using tpu by (auto simp: luaD_checkstack_def luaD_growstack_def luaD_reallocstack_def Let_def stack_last_def EXTRA_STACK_def)
        then show ?thesis using checkstack_inv [OF u, of tp 1] by (auto simp: put_slot_def)
      qed
      then show "gives (\<lambda>x. world_ok L (snd x) \<and> fst x \<le> length (stack (snd x))) (if \<not> isfunction tm then Inl (LuaError ''attempt to call'')
          else rbind (shift_up w tp (tp - func)) (\<lambda>w. rbind (put_slot (luaD_checkstack w tp 1) func tm) (\<lambda>w. Inr (tp + 1, w))))"
        using gives_rbind [OF shift_up_inv [OF w], of _ "\<lambda>w. rbind (put_slot (luaD_checkstack w tp 1) func tm) (\<lambda>w. Inr (tp + 1, w))"]
        by simp
    qed
    then show ?thesis using w tp by (auto simp: world_ok_def)
  qed
  show ?thesis
    unfolding luaD_precall_def
  proof (rule gives_skip, rule gives_rbind [OF meta], unfold case_prod_unfold, rule gives_skip)
    fix x :: "nat \<times> world" and v
    assume x: "world_ok L (snd x) \<and> fst x \<le> length (stack (snd x))"
    show "gives (precall_ok L func nr) (case v of
        TFunction a \<Rightarrow> (case closures (snd x) a of
            None \<Rightarrow> rbind (precall_c call (snd x) func v (fst x) nr) (\<lambda>p. Inr (PCRC (fst p) (snd p)))
          | Some cl \<Rightarrow> rbind (precall_lua (snd x) func (fst x) (cproto cl) nr) (\<lambda>p.
              if int (ci_top (fst p)) \<le> stack_last (snd p) then Inr (PCRLUA \<lparr>f_ci = fst p, f_cl = cl, f_pc = 0\<rparr> (snd p))
              else Inl AssertFailed))
      | _ \<Rightarrow> Inl UnionMismatch)"
      using x lua c by (auto simp: case_prod_unfold split: TValue.split option.split)
  qed
qed

section \<open>Machines\<close>

text \<open>The instruction to execute next uses a list of values up to the top.\<close>

definition opens :: "frame \<Rightarrow> bool" where
  "opens f \<longleftrightarrow> luaG_checkopenop (pcode (f_proto f) ! f_pc f)"

definition frame_ok :: "nat \<Rightarrow> frame \<Rightarrow> bool" where
  "frame_ok L f \<longleftrightarrow> good_closure (f_cl f) \<and> ci_func (f_ci f) < f_base f \<and> ci_top (f_ci f) = f_base f + nregs f \<and>
     fits L f \<and> pos f (f_pc f)"

text \<open>A function called for all its results returns to an instruction that takes them.\<close>

fun returns_to :: "frame \<Rightarrow> frame list \<Rightarrow> bool" where
  "returns_to f [] \<longleftrightarrow> True"
| "returns_to f (g # gs) \<longleftrightarrow> (ci_nresults (f_ci f) = LUA_MULTRET \<longrightarrow> opens g) \<and> returns_to g gs"

definition vm_ok :: "vm \<Rightarrow> world \<Rightarrow> bool" where
  "vm_ok m w \<longleftrightarrow> world_ok (length (stack w)) w \<and> (\<forall>g \<in> set (cur m # callers m). frame_ok (length (stack w)) g) \<and>
     returns_to (cur m) (callers m) \<and> vtop m \<le> length (stack w) \<and> (vtop m = ci_top (f_ci (cur m)) \<or> opens (cur m))"

lemma frame_ok_mono: "frame_ok L f \<Longrightarrow> L \<le> L' \<Longrightarrow> frame_ok L' f"
  by (simp add: frame_ok_def fits_def)

lemma vm_okI:
  assumes "world_ok L w" "frame_ok L f" "\<forall>g \<in> set gs. frame_ok L g" "returns_to f gs"
    and "tp \<le> length (stack w)" "tp = ci_top (f_ci f) \<or> opens f"
  shows "vm_ok \<lparr>cur = f, callers = gs, vtop = tp\<rparr> w"
proof -
  have "L \<le> length (stack w)" using assms(1) by (simp add: world_ok_def)
  then show ?thesis using assms frame_ok_mono by (auto simp: vm_ok_def world_ok_def)
qed

lemma returns_to_pc: "returns_to (f\<lparr>f_pc := q\<rparr>) gs = returns_to f gs"
  by (cases gs) simp_all

abbreviation running_ok :: "progress \<Rightarrow> bool" where
  "running_ok r \<equiv> (case r of Running m w \<Rightarrow> vm_ok m w | Finished t w \<Rightarrow> True)"

lemma advance_ok:
  assumes m: "vm_ok m w" and L: "L = length (stack w)" and w': "world_ok L w'" and pc: "pos (cur m) q"
    and tp: "tp \<le> length (stack w')" "tp = ci_top (f_ci (cur m)) \<or> opens ((cur m)\<lparr>f_pc := q\<rparr>)"
  shows "running_ok (Running (m\<lparr>cur := (cur m)\<lparr>f_pc := q\<rparr>, vtop := tp\<rparr>) w')"
proof -
  have "vm_ok \<lparr>cur = (cur m)\<lparr>f_pc := q\<rparr>, callers = callers m, vtop = tp\<rparr> w'"
    by (rule vm_okI [OF w']) (use m L pc tp in \<open>auto simp: vm_ok_def frame_ok_def returns_to_pc fits_def nregs_def\<close>)
  then show ?thesis by (cases m) simp
qed

lemma call_setup:
  assumes m: "vm_ok m w" and i: "i = pcode (f_proto (cur m)) ! f_pc (cur m)"
    and op: "opcode_of (GET_OPCODE i) = Some op" "op = OP_CALL \<or> op = OP_TAILCALL"
    and ok: "operands_ok (f_proto (cur m)) (f_pc (cur m)) i op"
  shows "world_ok (length (stack w)) w"
    and "frame_ok (length (stack w)) ((cur m)\<lparr>f_pc := f_pc (cur m) + 1\<rparr>)"
    and "inside (\<lambda>_. True) (span ((cur m)\<lparr>f_pc := f_pc (cur m) + 1\<rparr>) w (argA i) (argB i))"
    and "f_base (cur m) + argA i < length (stack w)"
    and "(if argB i \<noteq> 0 then f_base (cur m) + argA i + argB i else vtop m) \<le> length (stack w)"
    and "int (argC i) - 1 = LUA_MULTRET \<Longrightarrow> opens ((cur m)\<lparr>f_pc := f_pc (cur m) + 1\<rparr>)"
proof -
  let ?f = "(cur m)\<lparr>f_pc := f_pc (cur m) + 1\<rparr>"
  let ?L = "length (stack w)"
  have f: "frame_ok ?L (cur m)" and "world_ok ?L w" using m by (simp_all add: vm_ok_def)
  then show "world_ok ?L w" by simp
  have chk: "luaG_checkcode (f_proto (cur m)) = Inr True" using f code_okD(1) by (auto simp: frame_ok_def good_closure_def)
  have pc: "pos (cur m) (f_pc (cur m))" using f by (simp add: frame_ok_def)
  have args: "argA i < nregs (cur m)" "argA i + argB i \<le> nregs (cur m)" "argC i = 0 \<Longrightarrow> opens ?f"
    using ok op(2) by (auto simp: operands_ok_def Let_def nregs_def opens_def)
  have "\<not> setlist_count i" using op by (auto simp: setlist_count_def is_op_opcode)
  then have "pos (cur m) (f_pc (cur m) + 1)" using closed_nat(5) [OF chk pc i op(1)] op(2) by auto
  then show "frame_ok ?L ?f" using f by (simp add: frame_ok_def fits_def nregs_def)
  show "inside (\<lambda>_. True) (span ?f w (argA i) (argB i))"
    using f args by (simp add: span_def frame_ok_def fits_def nregs_def)
  show "f_base (cur m) + argA i < ?L" and "(if argB i \<noteq> 0 then f_base (cur m) + argA i + argB i else vtop m) \<le> ?L"
    using f args m by (auto simp: frame_ok_def fits_def vm_ok_def)
  show "opens ?f" if "int (argC i) - 1 = LUA_MULTRET"
  proof -
    have "argC i = 0" using that unfolding LUA_MULTRET_def by linarith
    then show ?thesis by (rule args(3))
  qed
qed

text \<open>The frame of a Lua function that was entered is good.\<close>

lemma precall_frame_ok:
  assumes "precall_ok L func nr (PCRLUA g w)"
  shows "frame_ok (length (stack w)) g" and "world_ok (length (stack w)) w" and "L \<le> length (stack w)" and "ci_func (f_ci g) = func"
    and "ci_nresults (f_ci g) = nr"
proof -
  have g: "world_ok L w" "good_closure (f_cl g)" "ci_func (f_ci g) < f_base g" "ci_top (f_ci g) = f_base g + nregs g"
    "f_pc g = 0" "fits (length (stack w)) g" "ci_func (f_ci g) = func" "ci_nresults (f_ci g) = nr"
    using assms by (simp_all add: precall_ok_def)
  have "luaG_checkcode (f_proto g) = Inr True" using g(2) code_okD(1) by (simp add: good_closure_def)
  then have "pos g 0" using instr_at.start by (auto simp: checkcode_iff precheck_def)
  then show "frame_ok (length (stack w)) g" using g by (simp add: frame_ok_def)
  show "world_ok (length (stack w)) w" "L \<le> length (stack w)" using g(1) by (simp_all add: world_ok_def)
  show "ci_func (f_ci g) = func" "ci_nresults (f_ci g) = nr" by (rule g)+
qed

lemma op_call_safe:
  assumes m: "vm_ok m w" and call: "good_call call"
    and i: "i = pcode (f_proto (cur m)) ! f_pc (cur m)" and op: "opcode_of (GET_OPCODE i) = Some OP_CALL"
    and ok: "operands_ok (f_proto (cur m)) (f_pc (cur m)) i OP_CALL"
  shows "inside running_ok (op_call call m w i (f_pc (cur m) + 1))"
proof -
  let ?f = "(cur m)\<lparr>f_pc := f_pc (cur m) + 1\<rparr>"
  let ?L = "length (stack w)"
  let ?nr = "int (argC i) - 1"
  let ?tp = "if argB i \<noteq> 0 then f_base ?f + argA i + argB i else vtop m"
  have f: "frame_ok ?L (cur m)" using m by (simp add: vm_ok_def)
  note prep = call_setup [OF m i op disjI1 [OF refl] ok]
  note w = prep(1) and f' = prep(2) and span = prep(3) and args = prep(6)
  have func: "f_base ?f + argA i < ?L" and tp: "?tp \<le> ?L" using prep(4,5) by (simp_all split: if_splits)
  note pre = luaD_precall_inv [OF w call func tp, of ?nr]
  show ?thesis
    unfolding op_call_def Let_def
  proof (rule inside_ebind [OF span], rule inside_after_lift [OF pre])
    fix r assume r: "precall_ok ?L (f_base ?f + argA i) ?nr r"
    show "inside running_ok (case r of
        PCRLUA g w \<Rightarrow> Inr (Running \<lparr>cur = g, callers = ?f # callers m, vtop = ci_top (f_ci g)\<rparr> w)
      | PCRC tp w \<Rightarrow> Inr (Running \<lparr>cur = ?f, callers = callers m, vtop = if 0 \<le> ?nr then ci_top (f_ci ?f) else tp\<rparr> w))"
    proof (cases r)
      case (PCRLUA g w')
      note g = precall_frame_ok [OF r [unfolded PCRLUA]]
      have "vm_ok \<lparr>cur = g, callers = ?f # callers m, vtop = ci_top (f_ci g)\<rparr> w'"
      proof (rule vm_okI [OF g(2,1)])
        show "\<forall>h \<in> set (?f # callers m). frame_ok (length (stack w')) h"
          using m frame_ok_mono [OF _ g(3)] f' by (simp add: vm_ok_def)
        show "returns_to g (?f # callers m)" using m prep(6) g(5) by (auto simp: vm_ok_def returns_to_pc)
        show "ci_top (f_ci g) \<le> length (stack w')" using g(1) by (simp add: frame_ok_def fits_def)
      qed simp
      then show ?thesis by (simp add: PCRLUA)
    next
      case (PCRC t w')
      have t: "world_ok ?L w'" "t \<le> length (stack w')" using r PCRC by (simp_all add: precall_ok_def)
      have "vm_ok \<lparr>cur = ?f, callers = callers m, vtop = if 0 \<le> ?nr then ci_top (f_ci ?f) else t\<rparr> w'"
      proof (rule vm_okI [OF t(1) f'])
        show "(if 0 \<le> ?nr then ci_top (f_ci ?f) else t) = ci_top (f_ci ?f) \<or> opens ?f"
        proof (cases "0 \<le> ?nr")
          case False
          then have "?nr = LUA_MULTRET" unfolding LUA_MULTRET_def by linarith
          then show ?thesis using prep(6) by blast
        qed simp
        have "ci_top (f_ci ?f) \<le> ?L" using f' by (simp add: frame_ok_def fits_def)
        then show "(if 0 \<le> ?nr then ci_top (f_ci ?f) else t) \<le> length (stack w')" using t by (simp add: world_ok_def)
      qed (use m in \<open>simp_all add: vm_ok_def returns_to_pc\<close>)
      then show ?thesis by (simp add: PCRC)
    qed
  qed
qed

lemma op_tailcall_safe:
  assumes m: "vm_ok m w" and call: "good_call call"
    and i: "i = pcode (f_proto (cur m)) ! f_pc (cur m)" and op: "opcode_of (GET_OPCODE i) = Some OP_TAILCALL"
    and ok: "operands_ok (f_proto (cur m)) (f_pc (cur m)) i OP_TAILCALL"
  shows "inside running_ok (op_tailcall call m w i (f_pc (cur m) + 1))"
proof -
  let ?f = "(cur m)\<lparr>f_pc := f_pc (cur m) + 1\<rparr>"
  let ?L = "length (stack w)"
  let ?tp = "if argB i \<noteq> 0 then f_base ?f + argA i + argB i else vtop m"
  have f: "frame_ok ?L (cur m)" using m by (simp add: vm_ok_def)
  note prep = call_setup [OF m i op disjI2 [OF refl] ok]
  note w = prep(1) and f' = prep(2) and span = prep(3)
  have func: "f_base ?f + argA i < ?L" and tp: "?tp \<le> ?L" using prep(4,5) by (simp_all split: if_splits)
  note pre = luaD_precall_inv [OF w call func tp, of LUA_MULTRET]
  show ?thesis
  proof (cases "int (argC i) - 1 = LUA_MULTRET")
    case False
    show ?thesis unfolding op_tailcall_def Let_def by (rule inside_ebind [OF span]) (use False in simp)
  next
    case True
    then have opn: "opens ?f" by (rule prep(6))
    let ?K = "\<lambda>r. case r of
        PCRLUA g w \<Rightarrow> ebind (lift (luaF_close w (f_base ?f))) (\<lambda>w.
          ebind (lift (move_results w (ci_func (f_ci ?f)) (ci_func (f_ci g)) (ci_top (f_ci g)) (- 1))) (\<lambda>(tp, j, w).
          Inr (Running \<lparr>cur = g\<lparr>f_ci := (f_ci ?f)\<lparr>ci_base := ci_func (f_ci ?f) + (f_base g - ci_func (f_ci g)), ci_top := tp,
            ci_tailcalls := ci_tailcalls (f_ci ?f) + 1\<rparr>\<rparr>, callers = callers m, vtop = tp\<rparr> w)))
      | PCRC tp w \<Rightarrow> Inr (Running \<lparr>cur = ?f, callers = callers m, vtop = tp\<rparr> w)"
    have K: "inside running_ok (?K r)" if r: "precall_ok ?L (f_base ?f + argA i) LUA_MULTRET r" for r
    proof (cases r)
      case (PCRC t w')
      have t: "world_ok ?L w'" "t \<le> length (stack w')" using r PCRC by (simp_all add: precall_ok_def)
      have "vm_ok \<lparr>cur = ?f, callers = callers m, vtop = t\<rparr> w'"
        by (rule vm_okI [OF t(1)]) (use t m f f' opn in \<open>auto simp: vm_ok_def returns_to_pc\<close>)
      then show ?thesis by (simp add: PCRC)
    next
      case (PCRLUA g w')
      note g = precall_frame_ok [OF r [unfolded PCRLUA]] and gf = precall_frame_ok(1) [OF r [unfolded PCRLUA], unfolded frame_ok_def]
      note w' = g(2) and L = g(3)
      have p0: "pos g (f_pc g)" using gf by blast
      have move: "gives (\<lambda>(t, j, w2). world_ok (length (stack w')) w2 \<and>
          t = ci_func (f_ci ?f) + (ci_top (f_ci g) - ci_func (f_ci g)))
          (move_results u (ci_func (f_ci ?f)) (ci_func (f_ci g)) (ci_top (f_ci g)) (- 1))"
        if u: "world_ok (length (stack w')) u" for u
      proof -
        have "ci_func (f_ci ?f) < ci_func (f_ci g)" "ci_func (f_ci g) \<le> ci_top (f_ci g)" "ci_top (f_ci g) \<le> length (stack u)"
          using f g u by (auto simp: frame_ok_def fits_def world_ok_def)
        from move_results_moves [OF this, of _ "- 1"] u show ?thesis by (auto simp: world_ok_def)
      qed
      have fin: "vm_ok \<lparr>cur = g\<lparr>f_ci := (f_ci ?f)\<lparr>ci_base := ci_func (f_ci ?f) + (f_base g - ci_func (f_ci g)), ci_top := t,
            ci_tailcalls := ci_tailcalls (f_ci ?f) + 1\<rparr>\<rparr>, callers = callers m, vtop = t\<rparr> w2"
        if w2: "world_ok (length (stack w')) w2" and t: "t = ci_func (f_ci ?f) + (ci_top (f_ci g) - ci_func (f_ci g))" for t w2
      proof (rule vm_okI [OF w2])
        have "ci_func (f_ci ?f) < ci_func (f_ci g)" using f g by (auto simp: frame_ok_def)
        then have new: "frame_ok (length (stack w')) (g\<lparr>f_ci := (f_ci ?f)\<lparr>ci_base := ci_func (f_ci ?f) + (f_base g - ci_func (f_ci g)), ci_top := t,
            ci_tailcalls := ci_tailcalls (f_ci ?f) + 1\<rparr>\<rparr>)" and "t \<le> length (stack w')"
          using g gf p0 t by (auto simp: frame_ok_def fits_def nregs_def)
        then show "frame_ok (length (stack w')) (g\<lparr>f_ci := (f_ci ?f)\<lparr>ci_base := ci_func (f_ci ?f) + (f_base g - ci_func (f_ci g)), ci_top := t,
            ci_tailcalls := ci_tailcalls (f_ci ?f) + 1\<rparr>\<rparr>)" and "t \<le> length (stack w2)"
          using w2 by (simp_all add: world_ok_def)
        show "\<forall>h \<in> set (callers m). frame_ok (length (stack w')) h" using m frame_ok_mono [OF _ L] by (simp add: vm_ok_def)
        show "returns_to (g\<lparr>f_ci := (f_ci ?f)\<lparr>ci_base := ci_func (f_ci ?f) + (f_base g - ci_func (f_ci g)), ci_top := t,
            ci_tailcalls := ci_tailcalls (f_ci ?f) + 1\<rparr>\<rparr>) (callers m)"
          using m by (cases "callers m") (simp_all add: vm_ok_def)
      qed simp
      have "inside running_ok (?K (PCRLUA g w'))"
        unfolding precall.case
        by (rule inside_after_lift [OF close_inv [OF w']], rule inside_after_lift [OF move], assumption) (use fin in auto)
      then show ?thesis by (simp only: PCRLUA)
    qed
    have neg: "\<not> int (argC i) - 1 \<noteq> LUA_MULTRET" using True by blast
    show ?thesis
      unfolding op_tailcall_def Let_def if_not_P [OF neg]
      by (rule inside_ebind [OF span], rule inside_after_lift [OF pre], rule K)
  qed
qed

lemma op_return_safe:
  assumes m: "vm_ok m w" and ok: "operands_ok (f_proto (cur m)) pc i OP_RETURN"
  shows "inside running_ok (op_return m w i)"
proof -
  let ?f = "cur m"
  let ?L = "length (stack w)"
  have f: "frame_ok ?L ?f" and w: "world_ok ?L w" using m by (simp_all add: vm_ok_def)
  have span: "inside (\<lambda>_. True) (span ?f w (argA i) (argB i - 1))"
    using f ok by (simp add: operands_ok_def Let_def span_def frame_ok_def fits_def nregs_def)
  have pos: "gives (\<lambda>(t, w'). world_ok ?L w' \<and> t \<le> length (stack w')) (luaD_poscall u (f_ci ?f) a b)" if "world_ok ?L u" for u a b
    by (rule poscall_end [OF that]) (use f that in \<open>auto simp: frame_ok_def fits_def world_ok_def\<close>)
  have fin: "inside running_ok (case callers m of [] \<Rightarrow> Inr (Finished t w')
      | g # gs \<Rightarrow> Inr (Running \<lparr>cur = g, callers = gs, vtop = if ci_nresults (f_ci ?f) \<noteq> LUA_MULTRET then ci_top (f_ci g) else t\<rparr> w'))"
    if t: "world_ok ?L w'" "t \<le> length (stack w')" for t w'
  proof (cases "callers m")
    case (Cons g gs)
    have "vm_ok \<lparr>cur = g, callers = gs, vtop = if ci_nresults (f_ci ?f) \<noteq> LUA_MULTRET then ci_top (f_ci g) else t\<rparr> w'"
      by (rule vm_okI [OF t(1)]) (use t m Cons in \<open>auto simp: vm_ok_def frame_ok_def fits_def world_ok_def\<close>)
    then show ?thesis by (simp add: Cons)
  qed simp
  show ?thesis
    unfolding op_return_def Let_def
  proof (rule inside_ebind [OF span], rule inside_after_lift [OF close_inv [OF w]], rule inside_after_lift [OF pos], assumption, unfold case_prod_unfold)
    fix x :: "nat \<times> world" assume "world_ok ?L (snd x) \<and> fst x \<le> length (stack (snd x))"
    then show "inside running_ok (case callers m of [] \<Rightarrow> Inr (Finished (fst x) (snd x))
      | g # gs \<Rightarrow> Inr (Running \<lparr>cur = g, callers = gs, vtop = if ci_nresults (f_ci ?f) \<noteq> LUA_MULTRET then ci_top (f_ci g) else fst x\<rparr> (snd x)))"
      using fin by blast
  qed
qed

section \<open>Running\<close>

text \<open>Instructions other than calls, returns and SETLIST find the top where the frame has it.\<close>

lemma not_open:
  assumes m: "vm_ok m w" and i: "i = pcode (f_proto (cur m)) ! f_pc (cur m)" and op: "opcode_of (GET_OPCODE i) = Some op"
    and no: "op \<notin> {OP_CALL, OP_TAILCALL, OP_RETURN, OP_SETLIST}"
  shows "vtop m = ci_top (f_ci (cur m))" and "pos (cur m) (f_pc (cur m) + 1)"
proof -
  have n: "\<not> is_op op' i" if "op' \<in> {OP_CALL, OP_TAILCALL, OP_RETURN, OP_SETLIST}" for op'
    using is_op_opcode [OF op] no that by auto
  then have "\<not> opens (cur m)" by (simp add: opens_def luaG_checkopenop_def i)
  then show "vtop m = ci_top (f_ci (cur m))" using m by (simp add: vm_ok_def)
  have f: "frame_ok (length (stack w)) (cur m)" using m by (simp add: vm_ok_def)
  then have "luaG_checkcode (f_proto (cur m)) = Inr True" using code_okD(1) by (auto simp: frame_ok_def good_closure_def)
  moreover have "\<not> setlist_count i" using n by (simp add: setlist_count_def)
  ultimately show "pos (cur m) (f_pc (cur m) + 1)" using closed_nat(5) [OF _ _ i op] f no by (auto simp: frame_ok_def)
qed

lemma exec_step_safe:
  assumes m: "vm_ok m w" and call: "good_call call"
  shows "inside running_ok (exec_step c call m w)"
proof -
  define f L pc i where "f = cur m" and "L = length (stack w)" and "pc = f_pc f" and "i = pcode (f_proto f) ! pc"
  have fr: "frame_ok L f" and w: "world_ok L w" using m by (simp_all add: vm_ok_def f_def L_def)
  have code: "code_ok (f_proto f)" and nups: "length (cupvals (f_cl f)) = unat (pnups (f_proto f))" and F: "fits L f"
    and ctop: "ci_top (f_ci f) = f_base f + nregs f" and p: "pos f pc"
    using fr by (simp_all add: frame_ok_def good_closure_def pc_def)
  note chk = code_okD(1) [OF code]
  from checked_operands [OF chk p i_def] obtain op where op: "opcode_of (GET_OPCODE i) = Some op" and ok: "operands_ok (f_proto f) pc i op" .
  have i: "i = pcode (f_proto (cur m)) ! f_pc (cur m)" by (simp add: i_def f_def pc_def)
  note no = not_open [OF m i op, folded f_def pc_def]
  have topL: "vtop m \<le> L" using m by (simp add: vm_ok_def L_def)
  have wl: "world_ok L w' \<Longrightarrow> L \<le> length (stack w')" for w' by (simp add: world_ok_def)
  have plain: "inside running_ok (ebind r (\<lambda>w. Inr (Running (m\<lparr>cur := f\<lparr>f_pc := pc + 1\<rparr>, vtop := vtop m\<rparr>) w)))"
    if r: "inside (world_ok L) r" and n: "op \<notin> {OP_CALL, OP_TAILCALL, OP_RETURN, OP_SETLIST}" for r
  proof (rule inside_ebind [OF r])
    fix u assume u: "world_ok L u"
    have "running_ok (Running (m\<lparr>cur := (cur m)\<lparr>f_pc := pc + 1\<rparr>, vtop := vtop m\<rparr>) u)"
      by (rule advance_ok [OF m L_def u]) (use no [OF n] topL wl [OF u] in \<open>auto simp: f_def\<close>)
    then show "inside running_ok (Inr (Running (m\<lparr>cur := f\<lparr>f_pc := pc + 1\<rparr>, vtop := vtop m\<rparr>) u))" by (simp add: f_def)
  qed
  have go: "running_ok (Running (m\<lparr>cur := f\<lparr>f_pc := q\<rparr>, vtop := tp\<rparr>) u)"
    if "world_ok L u" "pos f q" "tp \<le> length (stack u)" "tp = ci_top (f_ci f) \<or> opens (f\<lparr>f_pc := q\<rparr>)" for q tp u
    using advance_ok [OF m L_def that(1) that(2) [unfolded f_def] that(3) that(4) [unfolded f_def]] by (simp add: f_def)
  have branch: "inside running_ok (ebind r (\<lambda>(q, w). Inr (Running (m\<lparr>cur := f\<lparr>f_pc := q\<rparr>, vtop := vtop m\<rparr>) w)))"
    if r: "to_pos L f r" and n: "op \<notin> {OP_CALL, OP_TAILCALL, OP_RETURN, OP_SETLIST}" for r
  proof (rule inside_ebind [OF r], unfold case_prod_unfold)
    fix x assume x: "pos f (fst x) \<and> world_ok L (snd x)"
    show "inside running_ok (Inr (Running (m\<lparr>cur := f\<lparr>f_pc := fst x\<rparr>, vtop := vtop m\<rparr>) (snd x)))"
      using go [of "snd x" "fst x" "vtop m"] x no(1) [OF n] topL wl [of "snd x"] by simp
  qed
  note pl = plain_safe [OF w F ok nups] and me = meta_safe [OF w F ok call]
  note br = branch_safe [OF w F chk p i_def op ok call]
  have st: "stable (world_ok L) call" by (rule good_call_stable [OF call])
  have "inside running_ok (exec_op c call m w op i (pc + 1))"
  proof (cases op)
    case OP_LOADBOOL
    then show ?thesis
      using branch [OF loadbool_safe [OF w F code p i_def]] op ok by (simp add: exec_op_def Let_def flip: f_def)
  next
    case OP_CLOSURE
    then show ?thesis
      using branch [OF closure_safe [OF w F code p i_def _ _ nups]] op ok by (simp add: exec_op_def Let_def flip: f_def)
  next
    case OP_CALL
    then show ?thesis
      using op_call_safe [OF m call i] op ok by (simp add: exec_op_def Let_def f_def pc_def)
  next
    case OP_TAILCALL
    then show ?thesis
      using op_tailcall_safe [OF m call i] op ok by (simp add: exec_op_def Let_def f_def pc_def)
  next
    case OP_RETURN
    then show ?thesis
      using op_return_safe [OF m] ok by (simp add: exec_op_def Let_def f_def)
  next
    case OP_TFORLOOP
    have "inside running_ok (ebind (op_tforloop call f w i (pc + 1)) (\<lambda>(q, w). Inr (Running (m\<lparr>cur := f\<lparr>f_pc := q\<rparr>, vtop := ci_top (f_ci f)\<rparr>) w)))"
    proof (rule inside_ebind [OF br(7) [OF OP_TFORLOOP]], unfold case_prod_unfold)
      fix x assume x: "pos f (fst x) \<and> world_ok L (snd x)"
      show "inside running_ok (Inr (Running (m\<lparr>cur := f\<lparr>f_pc := fst x\<rparr>, vtop := ci_top (f_ci f)\<rparr>) (snd x)))"
        using go [of "snd x" "fst x" "ci_top (f_ci f)"] x F ctop wl [of "snd x"] by (simp add: fits_def)
    qed
    then show ?thesis by (simp add: OP_TFORLOOP exec_op_def Let_def flip: f_def)
  next
    case OP_SETLIST
    have "inside running_ok (ebind (op_setlist f (vtop m) w i (pc + 1)) (\<lambda>(tp, q, w). Inr (Running (m\<lparr>cur := f\<lparr>f_pc := q\<rparr>, vtop := tp\<rparr>) w)))"
    proof (rule inside_ebind [OF setlist_safe [OF w F chk p i_def op [unfolded OP_SETLIST] ok [unfolded OP_SETLIST] topL]], unfold case_prod_unfold)
      fix x assume x: "pos f (fst (snd x)) \<and> world_ok L (snd (snd x)) \<and> fst x = (if argB i = 0 then ci_top (f_ci f) else vtop m)"
      have "argB i \<noteq> 0 \<Longrightarrow> \<not> opens f"
        by (auto simp: opens_def luaG_checkopenop_def i_def pc_def)
      then have "fst x = ci_top (f_ci f)" using x m by (auto simp: vm_ok_def f_def)
      then show "inside running_ok (Inr (Running (m\<lparr>cur := f\<lparr>f_pc := fst (snd x)\<rparr>, vtop := fst x\<rparr>) (snd (snd x))))"
        using go [of "snd (snd x)" "fst (snd x)" "fst x"] x F ctop wl [of "snd (snd x)"] by (simp add: fits_def)
    qed
    then show ?thesis by (simp add: OP_SETLIST exec_op_def Let_def flip: f_def)
  next
    case OP_VARARG
    note n = no [unfolded OP_VARARG, simplified]
    have nx: "argB i = 0 \<Longrightarrow> opens (f\<lparr>f_pc := pc + 1\<rparr>)"
      using ok by (simp add: OP_VARARG operands_ok_def Let_def opens_def)
    have "inside running_ok (ebind (op_vararg f (vtop m) w i) (\<lambda>(tp, w). Inr (Running (m\<lparr>cur := f\<lparr>f_pc := pc + 1\<rparr>, vtop := tp\<rparr>) w)))"
    proof (rule inside_ebind [OF vararg_safe [OF w F ok [unfolded OP_VARARG] topL n(1) ctop]], unfold case_prod_unfold)
      fix x assume x: "world_ok L (snd x) \<and> fst x \<le> length (stack (snd x)) \<and> (argB i \<noteq> 0 \<longrightarrow> fst x = vtop m)"
      have p1: "pos f (pc + 1)" using n(2) by simp
      have "fst x = ci_top (f_ci f) \<or> opens (f\<lparr>f_pc := pc + 1\<rparr>)" using x n(1) nx by auto
      then show "inside running_ok (Inr (Running (m\<lparr>cur := f\<lparr>f_pc := pc + 1\<rparr>, vtop := fst x\<rparr>) (snd x)))"
        using go [OF _ p1, of "snd x" "fst x"] x by simp
    qed
    then show ?thesis by (simp add: OP_VARARG exec_op_def Let_def flip: f_def)
  qed (use plain [OF pl(1)] plain [OF pl(2)] plain [OF pl(3)] plain [OF pl(4)] plain [OF pl(5)] plain [OF pl(6)] plain [OF pl(7)] plain [OF pl(8)]
        plain [OF me(1)] plain [OF me(2)] plain [OF me(3)] plain [OF me(4)] plain [OF me(5)] plain [OF me(6)] plain [OF me(7)] plain [OF me(8)] plain [OF me(9)]
        branch [OF br(1)] branch [OF br(2)] branch [OF br(3)] branch [OF br(4)] branch [OF br(5)] branch [OF br(6)]
        equalobj_stable [OF st] luaV_lessthan_stable [OF st] lessequal_stable [OF st]
      in \<open>simp_all add: exec_op_def Let_def flip: f_def\<close>)
  then have "inside running_ok (ebind (fetch f pc) (\<lambda>i. case opcode_of (GET_OPCODE i) of
      None \<Rightarrow> Inr (Running (m\<lparr>cur := f\<lparr>f_pc := pc + 1\<rparr>\<rparr>) w) | Some op \<Rightarrow> exec_op c call m w op i (pc + 1)))"
    by (intro inside_ebind [OF fetch_safe [OF p]]) (simp add: op flip: i_def)
  then show ?thesis unfolding exec_step_def Let_def f_def pc_def .
qed

lemma run_safe:
  assumes call: "good_call call"
  shows "vm_ok m w \<Longrightarrow> inside (\<lambda>_. True) (luaV_execute n c call m w)"
proof (induction n arbitrary: m w)
  case (Suc n)
  show ?case
    unfolding luaV_execute.simps
    by (rule inside_ebind [OF exec_step_safe [OF Suc.prems call]]) (use Suc.IH in \<open>auto split: progress.splits\<close>)
qed simp

section \<open>Properties\<close>


text \<open>A state with a function at the bottom of its stack, and calls that do nothing.\<close>

definition world_with :: "Proto \<Rightarrow> world" where
  "world_with p = (stack_of 40)\<lparr>stack := TFunction 0 # replicate 39 TNil,
     closures := [0 \<mapsto> \<lparr>cproto = p, cenv = 1, cupvals = []\<rparr>]\<rparr>"

definition no_call :: caller where
  "no_call f args w = Inr ([], w)"

lemma no_call_good: "good_call no_call"
  by (simp add: good_call_def no_call_def)

lemma enter_world_with:
  assumes "pis_vararg p = 0" "pnumparams p = 2" "pmaxstacksize p = 2"
  shows "\<exists>f w'. luaD_precall no_call (world_with p) 0 1 0 = Inr (PCRLUA f w') \<and> f_pc f = 0 \<and> f_proto f = p \<and>
    f_base f = 1 \<and> length (stack w') = 40"
proof -
  have two: "replicate 2 TNil = [TNil, TNil]" by (simp add: numeral_2_eq_2)
  show ?thesis
    using assms
    by (simp add: luaD_precall_def world_with_def stack_of_def get_slot_def isfunction_def precall_lua_def luaD_checkstack_def
        stack_last_def EXTRA_STACK_def put_slot_def two)
qed


definition skipper :: Proto where
  "skipper = Proto [] [CREATE_ABC 2 0 0 2, CREATE_ABC 30 0 1 0] [] [] [] [] None 0 0 0 2 0 2"

text \<open>
  C34. The checker and the interpreter disagree on LOADBOOL: the checker looks at the instruction that is skipped only when the
  operand \<open>C\<close> is 1, the interpreter skips for every \<open>C\<close> but 0. A function that the checker
  accepts runs past the end of its code.
\<close>

theorem loadbool_leaves_code:
  "luaG_checkcode skipper = Inr True \<and>
   (\<exists>f w'. luaD_precall no_call (world_with skipper) 0 1 0 = Inr (PCRLUA f w') \<and>
     (\<forall>c. luaV_execute 2 c no_call \<lparr>cur = f, callers = [], vtop = ci_top (f_ci f)\<rparr> w' = Inl Stray))"
proof -
  obtain f w' where f: "luaD_precall no_call (world_with skipper) 0 1 0 = Inr (PCRLUA f w')" "f_pc f = 0" "f_proto f = skipper"
    "f_base f = 1" "length (stack w') = 40"
    using enter_world_with [of skipper] by (auto simp: skipper_def)
  have i: "opcode_of (GET_OPCODE (CREATE_ABC 2 0 0 2)) = Some OP_LOADBOOL" "argA (CREATE_ABC 2 0 0 2) = 0"
    "GETARG_C (CREATE_ABC 2 0 0 2) = 2" by code_simp+
  have "fetch f 0 = Inr (CREATE_ABC 2 0 0 2)" "fetch (f\<lparr>f_pc := q\<rparr>) (Suc (Suc 0)) = Inl Stray" for q
    using f(3) by (simp_all add: fetch_def skipper_def)
  moreover have "nregs f = 2" using f(3) by (simp add: nregs_def skipper_def)
  moreover have two: "luaV_execute 2 = luaV_execute (Suc (Suc 0))" by (simp only: numeral_2_eq_2)
  ultimately have "luaV_execute 2 c no_call \<lparr>cur = f, callers = [], vtop = ci_top (f_ci f)\<rparr> w' = Inl Stray" for c
    using f i unfolding two by (simp add: exec_step_def exec_op_def op_loadbool_def set_reg_extra_def ebind_def)
  moreover have "luaG_checkcode skipper = Inr True" by code_simp
  ultimately show ?thesis using f(1) by blast
qed

end
