(* ===== verification/LuaCodeRegs.thy ===== *)
theory LuaCodeRegs
  imports LuaCode LuaExecSpec
begin

text \<open>
  The code generator keeps registers, code, line numbers and constants of a function within their limits, in every operation.
\<close>

section \<open>The limits\<close>

definition gen_ok :: "int \<Rightarrow> int \<Rightarrow> FuncState \<Rightarrow> bool" where
  "gen_ok n mx fs \<longleftrightarrow> fs_nactvar fs = n \<and> 0 \<le> n \<and> n \<le> fs_freereg fs \<and> fs_freereg fs \<le> fs_maxstacksize fs \<and>
     mx \<le> fs_maxstacksize fs \<and> fs_maxstacksize fs < MAXSTACK \<and> length (fs_lineinfo fs) = length (fs_code fs) \<and> fs_pc fs \<le> MAX_INT \<and>
     length (fs_k fs) \<le> unat MAXARG_Bx"

lemma gen_ok_simps [simp]:
  "gen_ok n mx (fs\<lparr>fs_lasttarget := x\<rparr>) = gen_ok n mx fs" "gen_ok n mx (fs\<lparr>fs_jpc := x\<rparr>) = gen_ok n mx fs"
  "gen_ok n mx (fs\<lparr>fs_h := h\<rparr>) = gen_ok n mx fs" "gen_ok n mx (fs\<lparr>fs_code := (fs_code fs)[i := c]\<rparr>) = gen_ok n mx fs"
  "gen_ok n mx (fs\<lparr>fs_lineinfo := (fs_lineinfo fs)[i := l]\<rparr>) = gen_ok n mx fs"
  by (simp_all add: gen_ok_def fs_pc_def)

named_theorems kept

abbreviation kept1 :: "int \<Rightarrow> int \<Rightarrow> FuncState result \<Rightarrow> bool" where "kept1 n mx \<equiv> gives (gen_ok n mx)"
abbreviation kept2 :: "int \<Rightarrow> int \<Rightarrow> ('x \<times> FuncState) result \<Rightarrow> bool" where "kept2 n mx \<equiv> gives (\<lambda>(x, fs). gen_ok n mx fs)"
abbreviation kept3 :: "int \<Rightarrow> int \<Rightarrow> ('x \<times> 'y \<times> FuncState) result \<Rightarrow> bool" where "kept3 n mx \<equiv> gives (\<lambda>(x, y, fs). gen_ok n mx fs)"

lemma kept_bind:
  "kept1 n mx r \<Longrightarrow> (\<And>fs. gen_ok n mx fs \<Longrightarrow> kept1 n mx (f fs)) \<Longrightarrow> kept1 n mx (rbind r f)"
  "kept1 n mx r \<Longrightarrow> (\<And>fs. gen_ok n mx fs \<Longrightarrow> kept2 n mx (f2 fs)) \<Longrightarrow> kept2 n mx (rbind r f2)"
  "kept1 n mx r \<Longrightarrow> (\<And>fs. gen_ok n mx fs \<Longrightarrow> kept3 n mx (f3 fs)) \<Longrightarrow> kept3 n mx (rbind r f3)"
  by (cases r; simp)+

lemma kept_bind2:
  "kept2 n mx r \<Longrightarrow> (\<And>x fs. gen_ok n mx fs \<Longrightarrow> kept1 n mx (f x fs)) \<Longrightarrow> kept1 n mx (rbind r (\<lambda>(x, fs). f x fs))"
  "kept2 n mx r \<Longrightarrow> (\<And>x fs. gen_ok n mx fs \<Longrightarrow> kept2 n mx (f2 x fs)) \<Longrightarrow> kept2 n mx (rbind r (\<lambda>(x, fs). f2 x fs))"
  "kept2 n mx r \<Longrightarrow> (\<And>x fs. gen_ok n mx fs \<Longrightarrow> kept3 n mx (f3 x fs)) \<Longrightarrow> kept3 n mx (rbind r (\<lambda>(x, fs). f3 x fs))"
  by (cases r; force)+

lemma kept_bind3:
  "kept3 n mx r \<Longrightarrow> (\<And>x y fs. gen_ok n mx fs \<Longrightarrow> kept1 n mx (f x y fs)) \<Longrightarrow> kept1 n mx (rbind r (\<lambda>(x, y, fs). f x y fs))"
  "kept3 n mx r \<Longrightarrow> (\<And>x y fs. gen_ok n mx fs \<Longrightarrow> kept2 n mx (f2 x y fs)) \<Longrightarrow> kept2 n mx (rbind r (\<lambda>(x, y, fs). f2 x y fs))"
  "kept3 n mx r \<Longrightarrow> (\<And>x y fs. gen_ok n mx fs \<Longrightarrow> kept3 n mx (f3 x y fs)) \<Longrightarrow> kept3 n mx (rbind r (\<lambda>(x, y, fs). f3 x y fs))"
  by (cases r; force)+

text \<open>Values that are no states are passed over.\<close>

lemma kept_skips:
  "(\<And>x. gives P (f1 x)) \<Longrightarrow> gives P (rbind (r1 :: int result) f1)"
  "(\<And>x. gives P (f2 x)) \<Longrightarrow> gives P (rbind (r2 :: bool result) f2)"
  "(\<And>x. gives P (f3 x)) \<Longrightarrow> gives P (rbind (r3 :: Instruction result) f3)"
  "(\<And>x. gives P (f4 x)) \<Longrightarrow> gives P (rbind (r4 :: unit result) f4)"
  "(\<And>x. gives P (f5 x)) \<Longrightarrow> gives P (rbind (r5 :: TValue result) f5)"
  "(\<And>x. gives P (f6 x)) \<Longrightarrow> gives P (rbind (r6 :: expdesc option result) f6)"
  by (simp_all add: gives_skip)

lemma kept_if: "(b \<Longrightarrow> gives P x) \<Longrightarrow> (\<not> b \<Longrightarrow> gives P y) \<Longrightarrow> gives P (if b then x else y)"
  by simp

lemma kept_leaf:
  "gives P (Inl e)" "gen_ok n mx fs \<Longrightarrow> kept1 n mx (Inr fs)" "gen_ok n mx fs \<Longrightarrow> kept2 n mx (Inr (x, fs))" "gen_ok n mx fs \<Longrightarrow> kept3 n mx (Inr (x, y, fs))"
  by simp_all

lemmas kept_rules = kept_if kept_skips kept_bind kept_bind2 kept_bind3 kept_leaf

section \<open>Lists of jumps\<close>

lemma set_instr_kept [kept]: "gen_ok n mx fs \<Longrightarrow> kept1 n mx (set_instr fs pc i)"
  unfolding set_instr_def by (intro kept_rules) simp

lemma change_kept [kept]: "gen_ok n mx fs \<Longrightarrow> kept1 n mx (change g fs pc)"
  unfolding change_def by (intro kept_rules kept)

lemma fixjump_kept [kept]: "gen_ok n mx fs \<Longrightarrow> kept1 n mx (fixjump fs pc dest)"
  unfolding fixjump_def Let_def by (intro kept_rules kept)

lemma patchtestreg_kept [kept]: "gen_ok n mx fs \<Longrightarrow> kept2 n mx (patchtestreg fs node' r)"
  unfolding patchtestreg_def by (intro kept_rules kept)

lemma removevalues_loop_kept: "gen_ok n mx fs \<Longrightarrow> kept1 n mx (removevalues_loop m fs l)"
proof (induction m arbitrary: fs l)
  case (Suc m)
  show ?case unfolding removevalues_loop.simps by (intro kept_rules kept Suc)
qed simp

lemma removevalues_kept [kept]: "gen_ok n mx fs \<Longrightarrow> kept1 n mx (removevalues fs l)"
  unfolding removevalues_def by (rule removevalues_loop_kept)

lemma patchlist_loop_kept: "gen_ok n mx fs \<Longrightarrow> kept1 n mx (patchlist_loop m fs l v r d)"
proof (induction m arbitrary: fs l)
  case (Suc m)
  show ?case unfolding patchlist_loop.simps by (intro kept_rules kept Suc)
qed simp

lemma patchlistaux_kept [kept]: "gen_ok n mx fs \<Longrightarrow> kept1 n mx (patchlistaux fs l v r d)"
  unfolding patchlistaux_def by (rule patchlist_loop_kept)

lemma dischargejpc_kept [kept]: "gen_ok n mx fs \<Longrightarrow> kept1 n mx (dischargejpc fs)"
  unfolding dischargejpc_def by (intro kept_rules kept) simp_all

lemma concat_kept [kept]: "gen_ok n mx fs \<Longrightarrow> kept2 n mx (luaK_concat fs l1 l2)"
  unfolding luaK_concat_def by (intro kept_rules kept)

lemma patchtohere_kept [kept]: "gen_ok n mx fs \<Longrightarrow> kept1 n mx (luaK_patchtohere fs l)"
  unfolding luaK_patchtohere_def luaK_getlabel_def Let_def prod.case by (intro kept_rules kept) simp_all

lemma patchlist_kept [kept]: "gen_ok n mx fs \<Longrightarrow> kept1 n mx (luaK_patchlist fs l t)"
  unfolding luaK_patchlist_def by (intro kept_rules kept)

section \<open>Emitting instructions\<close>

lemma code_kept [kept]: "gen_ok n mx fs \<Longrightarrow> kept2 n mx (luaK_code fs i line)"
  unfolding luaK_code_def by (intro kept_rules kept) (simp_all add: gen_ok_def fs_pc_def)

lemma code_op_kept [kept]:
  "gen_ok n mx fs \<Longrightarrow> kept2 n mx (luaK_codeABC fs op a b c)" "gen_ok n mx fs \<Longrightarrow> kept2 n mx (luaK_codeABx fs op a bc)"
  "gen_ok n mx fs \<Longrightarrow> kept2 n mx (luaK_codeAsBx fs op a sb)"
  unfolding luaK_codeABC_def luaK_codeAsBx_def luaK_codeABx_def by (rule code_kept, assumption)+

lemma fixline_kept [kept]: "gen_ok n mx fs \<Longrightarrow> kept1 n mx (luaK_fixline fs line)"
  unfolding luaK_fixline_def by (intro kept_rules) simp

lemma jump_kept [kept]: "gen_ok n mx fs \<Longrightarrow> kept2 n mx (luaK_jump fs)"
  unfolding luaK_jump_def Let_def by (intro kept_rules kept) simp

lemma ret_kept [kept]: "gen_ok n mx fs \<Longrightarrow> kept1 n mx (luaK_ret fs first nret)"
  unfolding luaK_ret_def by (intro kept_rules kept)

lemma condjump_kept [kept]: "gen_ok n mx fs \<Longrightarrow> kept2 n mx (condjump fs op a b c)"
  unfolding condjump_def by (intro kept_rules kept)

lemma nil_kept [kept]: "gen_ok n mx fs \<Longrightarrow> kept1 n mx (luaK_nil fs from' m)"
  unfolding luaK_nil_def Let_def by (intro kept_rules kept)

lemma setlist_kept:
  "gen_ok n mx fs \<Longrightarrow> n \<le> base + 1 \<Longrightarrow> base + 1 \<le> mx \<Longrightarrow> kept1 n mx (luaK_setlist fs base nelems tostore)"
  unfolding luaK_setlist_def Let_def by (intro kept_rules kept) (auto simp: gen_ok_def fs_pc_def)

section \<open>Registers\<close>

lemma checkstack_spec:
  "gen_ok n mx fs \<Longrightarrow> 0 \<le> m \<Longrightarrow>
    gives (\<lambda>fs'. gen_ok n mx fs' \<and> fs_freereg fs' = fs_freereg fs \<and> fs_freereg fs + m \<le> fs_maxstacksize fs') (luaK_checkstack fs m)"
  by (auto simp: luaK_checkstack_def gen_ok_def Let_def fs_pc_def)

lemma reserveregs_kept [kept]: "0 \<le> m \<Longrightarrow> gen_ok n mx fs \<Longrightarrow> kept1 n mx (luaK_reserveregs fs m)"
  unfolding luaK_reserveregs_def
  by (rule gives_rbind [OF checkstack_spec [where n = n and mx = mx]]) (auto simp: gen_ok_def fs_pc_def)

lemma freereg_kept [kept]: "gen_ok n mx fs \<Longrightarrow> kept1 n mx (freereg fs r)"
  by (auto simp: freereg_def assert_that_def gen_ok_def fs_pc_def)

lemma freeexp_kept [kept]: "gen_ok n mx fs \<Longrightarrow> kept1 n mx (freeexp fs e)"
  unfolding freeexp_def by (intro kept_rules kept)

lemma addk_kept [kept]: "gen_ok n mx fs \<Longrightarrow> kept2 n mx (addk fs key v)"
  unfolding addk_def
  by (rule gives_skip)
    (auto simp: Let_def gen_ok_def fs_pc_def MAXARG_Bx_def split: TValue.splits intro!: kept_rules)

lemma constants_kept [kept]:
  "gen_ok n mx fs \<Longrightarrow> kept2 n mx (luaK_stringK fs s)" "gen_ok n mx fs \<Longrightarrow> kept2 n mx (luaK_numberK fs r)"
  "gen_ok n mx fs \<Longrightarrow> kept2 n mx (boolK fs b)" "gen_ok n mx fs \<Longrightarrow> kept2 n mx (nilK fs)"
  by (simp_all add: luaK_stringK_def luaK_numberK_def boolK_def nilK_def Let_def addk_kept)

section \<open>Expressions\<close>

lemma setreturns_kept [kept]: "gen_ok n mx fs \<Longrightarrow> kept1 n mx (luaK_setreturns fs e m)"
  unfolding luaK_setreturns_def by (intro kept_rules kept) simp_all

lemma setoneret_kept [kept]: "gen_ok n mx fs \<Longrightarrow> kept2 n mx (luaK_setoneret fs e)"
  unfolding luaK_setoneret_def by (intro kept_rules kept)

lemma dischargevars_kept [kept]: "gen_ok n mx fs \<Longrightarrow> kept2 n mx (luaK_dischargevars fs e)"
  by (cases "e_k e"; simp add: luaK_dischargevars_def Let_def; (intro kept_rules kept)?)

lemma label_kept [kept]: "gen_ok n mx fs \<Longrightarrow> kept2 n mx (code_label fs a b j)"
  unfolding code_label_def luaK_getlabel_def Let_def prod.case by (intro kept_rules kept) simp

lemma discharge2reg_kept [kept]: "gen_ok n mx fs \<Longrightarrow> kept2 n mx (discharge2reg fs e r)"
  unfolding discharge2reg_def Let_def
  by (rule kept_bind2, rule kept, assumption, split expkind.split) (intro conjI impI kept_rules kept)

lemma discharge2anyreg_kept [kept]: "gen_ok n mx fs \<Longrightarrow> kept2 n mx (discharge2anyreg fs e)"
  unfolding discharge2anyreg_def by (intro kept_rules kept) simp_all

lemma exp2reg_kept [kept]: "gen_ok n mx fs \<Longrightarrow> kept2 n mx (exp2reg fs e r)"
  unfolding exp2reg_def luaK_getlabel_def Let_def prod.case by (intro kept_rules kept) simp_all

lemma exp2nextreg_kept [kept]: "gen_ok n mx fs \<Longrightarrow> kept2 n mx (luaK_exp2nextreg fs e)"
  unfolding luaK_exp2nextreg_def by (intro kept_rules kept) simp_all

lemma exp2anyreg_kept [kept]: "gen_ok n mx fs \<Longrightarrow> kept2 n mx (luaK_exp2anyreg fs e)"
  unfolding luaK_exp2anyreg_def by (intro kept_rules kept)

lemma exp2val_kept [kept]: "gen_ok n mx fs \<Longrightarrow> kept2 n mx (luaK_exp2val fs e)"
  unfolding luaK_exp2val_def by (intro kept_rules kept)

lemma exp2RK_kept [kept]: "gen_ok n mx fs \<Longrightarrow> kept3 n mx (luaK_exp2RK fs e)"
  unfolding luaK_exp2RK_def Let_def by (intro kept_rules kept)

lemma storevar_kept [kept]: "gen_ok n mx fs \<Longrightarrow> kept2 n mx (luaK_storevar fs var ex)"
  by (cases "e_k var"; simp add: luaK_storevar_def Let_def; (intro kept_rules kept)?)

lemma self_kept [kept]: "gen_ok n mx fs \<Longrightarrow> kept3 n mx (luaK_self fs e key)"
  unfolding luaK_self_def Let_def by (intro kept_rules kept) simp_all

section \<open>Conditions and operators\<close>

lemma invertjump_kept [kept]: "gen_ok n mx fs \<Longrightarrow> kept1 n mx (invertjump fs e)"
  unfolding invertjump_def by (intro kept_rules kept)

lemma jumponcond_kept [kept]: "gen_ok n mx fs \<Longrightarrow> kept3 n mx (jumponcond fs e cond)"
  unfolding jumponcond_def Let_def by (intro kept_rules kept) (auto simp: gen_ok_def fs_pc_def)

lemma goiftrue_kept [kept]: "gen_ok n mx fs \<Longrightarrow> kept2 n mx (luaK_goiftrue fs e)"
  unfolding luaK_goiftrue_def Let_def by (intro kept_rules kept)

lemma goiffalse_kept [kept]: "gen_ok n mx fs \<Longrightarrow> kept2 n mx (luaK_goiffalse fs e)"
  unfolding luaK_goiffalse_def Let_def by (intro kept_rules kept)

lemma codenot_kept [kept]: "gen_ok n mx fs \<Longrightarrow> kept2 n mx (codenot fs e)"
  unfolding codenot_def Let_def by (intro kept_rules kept)

lemma indexed_kept [kept]: "gen_ok n mx fs \<Longrightarrow> kept3 n mx (luaK_indexed fs t k)"
  unfolding luaK_indexed_def by (intro kept_rules kept)

lemma codearith_kept [kept]: "gen_ok n mx fs \<Longrightarrow> kept2 n mx (codearith c fs op e1 e2)"
  unfolding codearith_def
proof (intro kept_skips)
  fix r assume "gen_ok n mx fs"
  then show "kept2 n mx (case r of Some e1 \<Rightarrow> Inr (e1, fs) | None \<Rightarrow>
         rbind (if op \<noteq> OP_UNM \<and> op \<noteq> OP_LEN then luaK_exp2RK fs e2 else Inr (0, e2, fs)) (\<lambda>(o2, e2, fs).
         rbind (luaK_exp2RK fs e1) (\<lambda>(o1, e1, fs).
         rbind (if o1 > o2 then rbind (freeexp fs e1) (\<lambda>fs. freeexp fs e2)
                else rbind (freeexp fs e2) (\<lambda>fs. freeexp fs e1)) (\<lambda>fs.
         rbind (luaK_codeABC fs op 0 o1 o2) (\<lambda>(j, fs). Inr (e1\<lparr>e_info := j, e_k := VRELOCABLE\<rparr>, fs))))))"
    by (cases r; simp only: option.case) (intro kept_rules kept; assumption)+
qed

lemma codecomp_kept [kept]: "gen_ok n mx fs \<Longrightarrow> kept2 n mx (codecomp fs op cond e1 e2)"
  by (cases "cond = 0 \<and> op \<noteq> OP_EQ"; simp only: codecomp_def Let_def if_True if_False prod.case simp_thms; intro kept_rules kept)

lemma prefix_kept [kept]: "gen_ok n mx fs \<Longrightarrow> kept2 n mx (luaK_prefix c fs op e)"
  by (cases op; simp only: luaK_prefix_def Let_def UnOpr.case) (intro kept_rules kept; assumption?)+

lemma infix_kept [kept]: "gen_ok n mx fs \<Longrightarrow> kept2 n mx (luaK_infix fs op v)"
  unfolding luaK_infix_def Let_def by (intro kept_rules kept)

lemma posfix_kept [kept]: "gen_ok n mx fs \<Longrightarrow> kept2 n mx (luaK_posfix c fs op e1 e2)"
  by (cases op; simp only: luaK_posfix_def Let_def BinOpr.case) (intro kept_rules kept; assumption?)+

section \<open>Runs of the generator\<close>

text \<open>The operations that lcode.h offers to the parser.\<close>

inductive generates :: "clib \<Rightarrow> int \<Rightarrow> FuncState \<Rightarrow> FuncState \<Rightarrow> bool" for c mx where
  "luaK_codeABC fs op a b cc = Inr (j, fs') \<Longrightarrow> generates c mx fs fs'"
| "luaK_codeABx fs op a bc = Inr (j, fs') \<Longrightarrow> generates c mx fs fs'"
| "luaK_fixline fs line = Inr fs' \<Longrightarrow> generates c mx fs fs'"
| "luaK_nil fs from' m = Inr fs' \<Longrightarrow> generates c mx fs fs'"
| "0 \<le> m \<Longrightarrow> luaK_reserveregs fs m = Inr fs' \<Longrightarrow> generates c mx fs fs'"
| "0 \<le> m \<Longrightarrow> luaK_checkstack fs m = Inr fs' \<Longrightarrow> generates c mx fs fs'"
| "luaK_stringK fs s = Inr (k, fs') \<Longrightarrow> generates c mx fs fs'"
| "luaK_numberK fs r = Inr (k, fs') \<Longrightarrow> generates c mx fs fs'"
| "luaK_dischargevars fs e = Inr (e', fs') \<Longrightarrow> generates c mx fs fs'"
| "luaK_exp2anyreg fs e = Inr (e', fs') \<Longrightarrow> generates c mx fs fs'"
| "luaK_exp2nextreg fs e = Inr (e', fs') \<Longrightarrow> generates c mx fs fs'"
| "luaK_exp2val fs e = Inr (e', fs') \<Longrightarrow> generates c mx fs fs'"
| "luaK_exp2RK fs e = Inr (x, e', fs') \<Longrightarrow> generates c mx fs fs'"
| "luaK_self fs e key = Inr (e', key', fs') \<Longrightarrow> generates c mx fs fs'"
| "luaK_indexed fs t e = Inr (t', e', fs') \<Longrightarrow> generates c mx fs fs'"
| "luaK_goiftrue fs e = Inr (e', fs') \<Longrightarrow> generates c mx fs fs'"
| "luaK_storevar fs var e = Inr (e', fs') \<Longrightarrow> generates c mx fs fs'"
| "luaK_setreturns fs e m = Inr fs' \<Longrightarrow> generates c mx fs fs'"
| "luaK_setoneret fs e = Inr (e', fs') \<Longrightarrow> generates c mx fs fs'"
| "luaK_jump fs = Inr (j, fs') \<Longrightarrow> generates c mx fs fs'"
| "luaK_ret fs first m = Inr fs' \<Longrightarrow> generates c mx fs fs'"
| "luaK_patchlist fs l target = Inr fs' \<Longrightarrow> generates c mx fs fs'"
| "luaK_patchtohere fs l = Inr fs' \<Longrightarrow> generates c mx fs fs'"
| "luaK_concat fs l1 l2 = Inr (l, fs') \<Longrightarrow> generates c mx fs fs'"
| "luaK_getlabel fs = (l, fs') \<Longrightarrow> generates c mx fs fs'"
| "luaK_prefix c fs uop e = Inr (e', fs') \<Longrightarrow> generates c mx fs fs'"
| "luaK_infix fs bop e = Inr (e', fs') \<Longrightarrow> generates c mx fs fs'"
| "luaK_posfix c fs bop e1 e2 = Inr (e', fs') \<Longrightarrow> generates c mx fs fs'"
| "fs_nactvar fs \<le> base + 1 \<Longrightarrow> base + 1 \<le> mx \<Longrightarrow> luaK_setlist fs base m tostore = Inr fs' \<Longrightarrow> generates c mx fs fs'"

lemma kept_D:
  "kept1 n mx r \<Longrightarrow> r = Inr fs \<Longrightarrow> gen_ok n mx fs" "kept2 n mx r2 \<Longrightarrow> r2 = Inr (x, fs) \<Longrightarrow> gen_ok n mx fs"
  "kept3 n mx r3 \<Longrightarrow> r3 = Inr (x, y, fs) \<Longrightarrow> gen_ok n mx fs"
  by simp_all

lemma generates_kept:
  assumes "generates c mx fs fs'" and "gen_ok n mx fs"
  shows "gen_ok n mx fs'"
  using assms(1)
proof cases
  case (6 m)
  then show ?thesis using checkstack_spec [OF assms(2), of m] by simp
next
  case (25 l)
  then show ?thesis using assms(2) by (auto simp: luaK_getlabel_def)
next
  case (29 base m tostore)
  then show ?thesis using setlist_kept [OF assms(2), of base m tostore] assms(2) by (simp add: gen_ok_def)
qed (use assms(2) in \<open>auto elim!: kept_D(1) [rotated] kept_D(2) [rotated] kept_D(3) [rotated] intro: kept\<close>)

interpretation generator: machine "gen_ok n mx" "generates c mx" "gen_ok n mx" for n mx c
  by unfold_locales (auto intro: generates_kept)

section \<open>Property\<close>


text \<open>A floating point unit that can add 1 and 2.\<close>

definition adder :: clib where
  "adder = \<lparr>c_strcoll = (\<lambda>_ _. 0), c_strtod = (\<lambda>_. (0, 0)), c_strtoul16 = (\<lambda>_. (0, 0)), c_number2str = (\<lambda>_. []),
     c_arith = (\<lambda>tm x y. if tm = TM_ADD then 0x4008000000000000 else 0)\<rparr>"


end
