(* ===== verification/LuaCodeSpec.thy ===== *)
theory LuaCodeSpec
  imports LuaCodeRegs
begin

text \<open>
  The code generator: lists of jumps are lists, patching sends each jump of a list to its target and keeps the rest of the code,
  constants are entered once, registers stay within the limit of a frame, and constants are folded to what
  the interpreter computes.
\<close>

section \<open>Reading and writing instructions\<close>

lemma at_simps [simp]: "0 \<le> i \<Longrightarrow> i < int (length xs) \<Longrightarrow> at xs i = Inr (xs ! nat i)"
  by (simp add: at_def)

definition code_with :: "FuncState \<Rightarrow> int \<Rightarrow> Instruction \<Rightarrow> FuncState" where
  "code_with fs pc i = fs\<lparr>fs_code := (fs_code fs)[nat pc := i]\<rparr>"

lemma set_instr_in: "0 \<le> pc \<Longrightarrow> pc < fs_pc fs \<Longrightarrow> set_instr fs pc i = Inr (code_with fs pc i)"
  by (simp add: set_instr_def instr_def fs_pc_def code_with_def)

lemma change_in: "0 \<le> pc \<Longrightarrow> pc < fs_pc fs \<Longrightarrow> change g fs pc = Inr (code_with fs pc (g (fs_code fs ! nat pc)))"
  by (simp add: change_def set_instr_in) (simp add: instr_def fs_pc_def)

lemma code_with_simps [simp]:
  "fs_code (code_with fs pc i) = (fs_code fs)[nat pc := i]" "fs_jpc (code_with fs pc i) = fs_jpc fs"
  "fs_pc (code_with fs pc i) = fs_pc fs" "fs_lineinfo (code_with fs pc i) = fs_lineinfo fs"
  by (simp_all add: code_with_def fs_pc_def)

section \<open>Lists of jumps\<close>

definition next_jump :: "Instruction list \<Rightarrow> int \<Rightarrow> int" where
  "next_jump code pc = (let offset = sint (GETARG_sBx (code ! nat pc)) in if offset = NO_JUMP then NO_JUMP else pc + 1 + offset)"

text \<open>The jumps of the list that starts with \<open>l\<close>.\<close>

fun threaded :: "Instruction list \<Rightarrow> int \<Rightarrow> int list \<Rightarrow> bool" where
  "threaded code l [] \<longleftrightarrow> l = NO_JUMP"
| "threaded code l (j # js) \<longleftrightarrow> l = j \<and> 0 \<le> j \<and> j < int (length code) \<and> threaded code (next_jump code j) js"

lemma NO_JUMP_neg [simp]: "NO_JUMP < 0" "\<not> 0 \<le> NO_JUMP"
  by (simp_all add: NO_JUMP_def)

lemma getjump_in: "0 \<le> pc \<Longrightarrow> pc < fs_pc fs \<Longrightarrow> getjump fs pc = Inr (next_jump (fs_code fs) pc)"
  by (simp add: getjump_def instr_def fs_pc_def next_jump_def Let_def)

lemma threaded_range: "threaded code l js \<Longrightarrow> j \<in> set js \<Longrightarrow> 0 \<le> j \<and> j < int (length code)"
  by (induction js arbitrary: l) auto

lemma threaded_det: "threaded code l js \<Longrightarrow> threaded code l js' \<Longrightarrow> js = js'"
proof (induction js arbitrary: l js')
  case Nil
  then show ?case by (cases js') auto
next
  case (Cons j js)
  then show ?case by (cases js') auto
qed

lemma threaded_suffix: "threaded code l (us @ j # vs) \<Longrightarrow> threaded code j (j # vs)"
  by (induction us arbitrary: l) auto

lemma threaded_distinct: "threaded code l js \<Longrightarrow> distinct js"
proof (induction js arbitrary: l)
  case (Cons j js)
  have "j \<notin> set js"
  proof
    assume "j \<in> set js"
    then obtain us vs where js: "js = us @ j # vs" by (auto simp: in_set_conv_decomp)
    have "threaded code j (j # js)" using Cons.prems by simp
    moreover have "threaded code j (j # vs)" using Cons.prems threaded_suffix [of code l "j # us" j vs] js by simp
    ultimately have "js = vs" using threaded_det by blast
    then show False using js by simp
  qed
  then show ?case using Cons by auto
qed simp

lemma threaded_length: "threaded code l js \<Longrightarrow> length js \<le> length code"
proof -
  assume t: "threaded code l js"
  have "set js \<subseteq> {0..<int (length code)}" using threaded_range [OF t] by auto
  then have "card (set js) \<le> length code" using card_mono [of "{0..<int (length code)}" "set js"] by simp
  then show ?thesis using distinct_card [OF threaded_distinct [OF t]] by simp
qed

text \<open>A list is not changed by changes elsewhere, as long as its jumps keep their offsets.\<close>

lemma threaded_cong:
  "threaded code l js \<Longrightarrow> length code' = length code \<Longrightarrow>
    (\<And>j. j \<in> set js \<Longrightarrow> GETARG_sBx (code' ! nat j) = GETARG_sBx (code ! nat j)) \<Longrightarrow> threaded code' l js"
  by (induction js arbitrary: l) (auto simp: next_jump_def)

lemma threaded_link:
  "threaded code l (us @ [j]) \<Longrightarrow> threaded code' m js \<Longrightarrow> length code' = length code \<Longrightarrow>
    (\<And>i. i \<in> set us \<Longrightarrow> GETARG_sBx (code' ! nat i) = GETARG_sBx (code ! nat i)) \<Longrightarrow> next_jump code' j = m \<Longrightarrow>
    threaded code' l (us @ j # js)"
  by (induction us arbitrary: l) (auto simp: next_jump_def)

lemma fixjump_in:
  assumes "0 \<le> pc" and "pc < fs_pc fs" and "dest \<noteq> NO_JUMP"
  shows "fixjump fs pc dest =
    (if 131071 < abs (dest - (pc + 1)) then Inl (LuaError ''control structure too long'')
     else Inr (code_with fs pc (SETARG_sBx (fs_code fs ! nat pc) (of_int (dest - (pc + 1))))))"
proof -
  have "sint MAXARG_sBx = 131071" by (simp add: MAXARG_sBx_def)
  then show ?thesis using assms
    by (simp only: fixjump_def assert_that_def change_in Let_def if_True rbind_simps not_False_eq_True)
qed

text \<open>The destination of a jump, as the interpreter computes it.\<close>

definition dest_of :: "Instruction list \<Rightarrow> int \<Rightarrow> int" where
  "dest_of code j = j + 1 + sint (GETARG_sBx (code ! nat j))"

lemma next_jump_dest: "dest_of code j \<noteq> j \<Longrightarrow> next_jump code j = dest_of code j"
  by (simp add: next_jump_def dest_of_def NO_JUMP_def Let_def)

lemma fixjump_dest:
  assumes "0 \<le> j" and "nat j < length code" and "abs (dest - (j + 1)) \<le> 131071"
  shows "dest_of (code[nat j := SETARG_sBx i (of_int (dest - (j + 1)))]) j = dest"
  using signed_argument [of "dest - (j + 1)" i] assms by (simp add: dest_of_def)

lemma last_jump_threaded:
  "threaded (fs_code fs) l (us @ [j]) \<Longrightarrow> length us < n \<Longrightarrow> last_jump n fs l = Inr j"
proof (induction us arbitrary: l n)
  case Nil
  then show ?case by (cases n) (auto simp: getjump_in fs_pc_def)
next
  case (Cons u us)
  obtain m where n: "n = Suc m" using Cons.prems by (cases n) auto
  have u: "l = u" "0 \<le> u" "u < fs_pc fs" "threaded (fs_code fs) (next_jump (fs_code fs) u) (us @ [j])"
    using Cons.prems by (auto simp: fs_pc_def)
  then have "next_jump (fs_code fs) u \<noteq> NO_JUMP" by (cases us) auto
  moreover have "last_jump m fs (next_jump (fs_code fs) u) = Inr j" using Cons.IH [OF u(4)] Cons.prems n by simp
  ultimately show ?case using u n by (simp add: getjump_in)
qed

lemma concat_spec:
  assumes t1: "threaded (fs_code fs) l1 js1" and t2: "threaded (fs_code fs) l2 js2" and disj: "set js1 \<inter> set js2 = {}"
  shows "case luaK_concat fs l1 l2 of
      Inl e \<Rightarrow> e = LuaError ''control structure too long'' \<and> js1 \<noteq> [] \<and> js2 \<noteq> [] \<and> 131071 < abs (hd js2 - (last js1 + 1))
    | Inr (l, fs') \<Rightarrow> threaded (fs_code fs') l (js1 @ js2) \<and> fs' = fs\<lparr>fs_code := fs_code fs'\<rparr> \<and>
        length (fs_code fs') = length (fs_code fs) \<and>
        (\<forall>i. fs_code fs' ! i = fs_code fs ! i \<or> js1 \<noteq> [] \<and> js2 \<noteq> [] \<and> i = nat (last js1) \<and>
          fs_code fs' ! i = SETARG_sBx (fs_code fs ! i) (of_int (hd js2 - (last js1 + 1))))"
proof (cases "js1 = [] \<or> js2 = []")
  case True
  then show ?thesis using t1 t2 by (cases js1; cases js2) (auto simp: luaK_concat_def)
next
  case False
  then obtain us j where js1: "js1 = us @ [j]" by (metis rev_exhaust)
  obtain h vs where js2: "js2 = h # vs" using False by (cases js2) auto
  have h: "l2 = h" "0 \<le> h" using t2 by (simp_all add: js2)
  have hn: "h \<noteq> NO_JUMP" using h by auto
  have j: "0 \<le> j" "j < fs_pc fs" using threaded_range [OF t1, of j] by (simp_all add: js1 fs_pc_def)
  have l1: "l1 \<noteq> NO_JUMP" using t1 by (cases us) (auto simp: js1)
  have lj: "last_jump (length (fs_code fs) + 1) fs l1 = Inr j"
    using t1 threaded_length [OF t1] by (intro last_jump_threaded [of fs l1 us j]) (simp_all add: js1)
  have eq: "luaK_concat fs l1 l2 = rbind (fixjump fs j h) (\<lambda>fs. Inr (l1, fs))"
    using h(1) hn l1 lj by (simp add: luaK_concat_def del: last_jump.simps)
  have hj: "h \<noteq> j" using disj by (auto simp: js1 js2)
  show ?thesis
  proof (cases "131071 < abs (h - (j + 1))")
    case True
    then show ?thesis by (simp add: eq fixjump_in [OF j hn] js1 js2)
  next
    case near: False
    define i where "i = SETARG_sBx (fs_code fs ! nat j) (of_int (h - (j + 1)))"
    define code' where "code' = (fs_code fs)[nat j := i]"
    have "fixjump fs j h = Inr (code_with fs j i)" using near by (simp add: fixjump_in [OF j hn] i_def)
    then have res: "luaK_concat fs l1 l2 = Inr (l1, code_with fs j i)" by (simp add: eq)
    have "dest_of code' j = h"
      unfolding code'_def i_def by (rule fixjump_dest) (use j near in \<open>auto simp: fs_pc_def\<close>)
    then have nj: "next_jump code' j = h" using hj next_jump_dest [of code' j] by simp
    have len: "length code' = length (fs_code fs)" by (simp add: code'_def)
    have keep: "code' ! nat k = fs_code fs ! nat k" if "k \<noteq> j" "0 \<le> k" for k
      using that j(1) by (simp add: code'_def nth_list_update nat_eq_iff)
    have "threaded code' h js2"
      using t2 disj threaded_range [OF t2] h(1)
      by (intro threaded_cong [OF _ len]) (auto simp: js1 intro!: arg_cong [of _ _ GETARG_sBx] keep)
    moreover have "j \<notin> set us" using threaded_distinct [OF t1] by (simp add: js1)
    ultimately have "threaded code' l1 (us @ j # js2)"
      using t1 nj threaded_range [OF t1]
      by (intro threaded_link [OF _ _ len]) (auto simp: js1 intro!: arg_cong [of _ _ GETARG_sBx] keep)
    then have th: "threaded code' l1 ((us @ [j]) @ h # vs)" by (simp add: js2)
    have c: "fs_code (code_with fs j i) = code'" "code_with fs j i = fs\<lparr>fs_code := code'\<rparr>"
      by (simp_all add: code_with_def code'_def)
    have "code' ! k = fs_code fs ! k \<or> us @ [j] \<noteq> [] \<and> h # vs \<noteq> [] \<and> k = nat (last (us @ [j])) \<and>
        code' ! k = SETARG_sBx (fs_code fs ! k) (of_int (hd (h # vs) - (last (us @ [j]) + 1)))" for k
      using j by (cases "k = nat j") (simp_all add: code'_def i_def fs_pc_def)
    then show ?thesis unfolding res js1 js2 sum.case prod.case c(1)
      by (intro conjI allI th len) (rule c)
  qed
qed

section \<open>Patching lists\<close>

definition test_at :: "Instruction list \<Rightarrow> int \<Rightarrow> bool" where
  "test_at code pc \<longleftrightarrow> (\<exists>op. opcode_of (GET_OPCODE (code ! nat pc)) = Some op \<and> testTMode op)"

text \<open>The instruction that controls a jump.\<close>

definition control :: "Instruction list \<Rightarrow> int \<Rightarrow> int" where
  "control code pc = (if 1 \<le> pc \<and> test_at code (pc - 1) then pc - 1 else pc)"

text \<open>A place where a jump may be: it is no test itself, and what precedes it is an instruction.\<close>

definition jump_site :: "Instruction list \<Rightarrow> int \<Rightarrow> bool" where
  "jump_site code pc \<longleftrightarrow> \<not> test_at code pc \<and> (1 \<le> pc \<longrightarrow> opcode_of (GET_OPCODE (code ! nat (pc - 1))) \<noteq> None)"

definition testset_at :: "Instruction list \<Rightarrow> int \<Rightarrow> bool" where
  "testset_at code pc \<longleftrightarrow> is_op OP_TESTSET (code ! nat (control code pc))"

text \<open>What patching makes of a \<open>TESTSET\<close>.\<close>

definition patched :: "int \<Rightarrow> Instruction \<Rightarrow> Instruction" where
  "patched r i = (if r \<noteq> NO_REG_code \<and> r \<noteq> uint (GETARG_B i) then SETARG_A i (of_int r)
     else CREATE_ABC (opcode_num OP_TEST) (GETARG_B i) 0 (GETARG_C i))"

lemma is_test_code: "is_test i = (case opcode_of (GET_OPCODE i) of Some op \<Rightarrow> Inr (testTMode op) | None \<Rightarrow> Inl InvalidPointer)"
  by (simp add: is_test_def)

lemma is_op_iff: "is_op op i \<longleftrightarrow> opcode_of (GET_OPCODE i) = Some op"
proof
  assume "opcode_of (GET_OPCODE i) = Some op"
  then have u: "unat (GET_OPCODE i) < 38" "opcodes ! unat (GET_OPCODE i) = op"
    by (auto simp: opcode_of_def NUM_OPCODES_def split: if_splits)
  have "\<forall>n < 38. index_of (opcodes ! n) opcodes = n" by code_simp
  then have "opcode_num op = of_nat (unat (GET_OPCODE i))" using u by (auto simp: opcode_num_def)
  then show "is_op op i" by (simp add: is_op_def)
qed (simp add: is_op_def opcode_of_num)

lemma testset_test: "is_op OP_TESTSET (code ! nat pc) \<Longrightarrow> test_at code pc"
  by (simp add: is_op_iff test_at_def mode_simps)

lemma getjumpcontrol_in:
  assumes "jump_site (fs_code fs) pc" and "0 \<le> pc" and "pc < fs_pc fs"
  shows "getjumpcontrol fs pc = Inr (control (fs_code fs) pc)"
proof (cases "1 \<le> pc")
  case True
  then obtain op where "opcode_of (GET_OPCODE (fs_code fs ! nat (pc - 1))) = Some op" using assms(1) by (auto simp: jump_site_def)
  then show ?thesis using True assms(2,3)
    by (simp add: getjumpcontrol_def instr_def fs_pc_def is_test_def control_def test_at_def)
qed (simp add: getjumpcontrol_def control_def)

lemma control_range: "0 \<le> pc \<Longrightarrow> 0 \<le> control code pc \<and> control code pc \<le> pc"
  by (simp add: control_def)

lemma patchtestreg_in:
  assumes "jump_site (fs_code fs) j" and "0 \<le> j" and "j < fs_pc fs"
  shows "patchtestreg fs j r =
    (if testset_at (fs_code fs) j
     then Inr (True, code_with fs (control (fs_code fs) j) (patched r (fs_code fs ! nat (control (fs_code fs) j))))
     else Inr (False, fs))"
proof -
  have q: "0 \<le> control (fs_code fs) j" "control (fs_code fs) j < fs_pc fs"
    using control_range [OF assms(2), of "fs_code fs"] assms(3) by simp_all
  have "instr fs (control (fs_code fs) j) = Inr (fs_code fs ! nat (control (fs_code fs) j))"
    using q by (simp add: instr_def fs_pc_def)
  then show ?thesis
    by (simp add: patchtestreg_def getjumpcontrol_in [OF assms] testset_at_def set_instr_in [OF q] patched_def)
qed

text \<open>The code after one jump of a list has been patched.\<close>

definition patch_jump :: "Instruction list \<Rightarrow> int \<Rightarrow> int \<Rightarrow> int \<Rightarrow> int \<Rightarrow> Instruction list" where
  "patch_jump code j v r d =
     (let q = control code j; dest = (if testset_at code j then v else d);
          code = (if testset_at code j then code[nat q := patched r (code ! nat q)] else code) in
      code[nat j := SETARG_sBx (code ! nat j) (of_int (dest - (j + 1)))])"

lemma SETARG_sBx_opcode [simp]: "GET_OPCODE (SETARG_sBx i b) = GET_OPCODE i"
  by (simp add: SETARG_sBx_def get_set_fields)

lemma patch_jump_length [simp]: "length (patch_jump code j v r d) = length code"
  by (simp add: patch_jump_def Let_def)

lemma testset_control:
  "jump_site code j \<Longrightarrow> testset_at code j \<Longrightarrow> 1 \<le> j \<and> control code j = j - 1 \<and> test_at code (j - 1)"
  using testset_test [of code j] by (auto simp: testset_at_def control_def jump_site_def split: if_splits)

text \<open>Patching one jump changes it and the test before it, if that is a \<open>TESTSET\<close>, and nothing else.\<close>

lemma patch_jump_frame:
  "0 \<le> i \<Longrightarrow> 0 \<le> j \<Longrightarrow> i \<noteq> j \<Longrightarrow> \<not> (testset_at code j \<and> i = control code j) \<Longrightarrow>
    patch_jump code j v r d ! nat i = code ! nat i"
  using control_range [of j code] by (auto simp: patch_jump_def Let_def eq_nat_nat_iff)

lemma patch_jump_control:
  assumes "jump_site code j" and "0 \<le> j" and "j < int (length code)" and "testset_at code j"
  shows "patch_jump code j v r d ! nat (control code j) = patched r (code ! nat (control code j))"
proof -
  have "nat (control code j) \<noteq> nat j" "nat (control code j) < length code"
    using testset_control [OF assms(1,4)] assms by auto
  then show ?thesis using assms(4) by (simp add: patch_jump_def Let_def)
qed

lemma patch_jump_same:
  assumes "jump_site code j" and "0 \<le> j" and "j < int (length code)"
  shows "patch_jump code j v r d ! nat j =
    SETARG_sBx (code ! nat j) (of_int ((if testset_at code j then v else d) - (j + 1)))"
proof (cases "testset_at code j")
  case True
  then have "nat (control code j) \<noteq> nat j" using testset_control [OF assms(1) True] assms(2) by auto
  then show ?thesis using assms(2,3) True by (simp add: patch_jump_def Let_def)
qed (use assms in \<open>simp add: patch_jump_def Let_def\<close>)

lemma patch_jump_opcode:
  assumes "jump_site code j" and "0 \<le> j" and "j < int (length code)" and "0 \<le> i"
    and "\<not> (testset_at code j \<and> i = control code j)"
  shows "GET_OPCODE (patch_jump code j v r d ! nat i) = GET_OPCODE (code ! nat i)"
proof (cases "i = j")
  case True
  then show ?thesis using patch_jump_same [OF assms(1-3)] by simp
next
  case False
  then show ?thesis using patch_jump_frame [OF assms(4,2) False assms(5)] by simp
qed

text \<open>So other jumps stay what they are.\<close>

lemma patch_jump_other:
  assumes j: "jump_site code j" "0 \<le> j" "j < int (length code)" and i: "jump_site code i" "0 \<le> i" and ne: "i \<noteq> j"
  shows "jump_site (patch_jump code j v r d) i" and "control (patch_jump code j v r d) i = control code i"
    and "testset_at (patch_jump code j v r d) i \<longleftrightarrow> testset_at code i"
    and "patch_jump code j v r d ! nat i = code ! nat i"
    and "patch_jump code j v r d ! nat (control code i) = code ! nat (control code i)"
proof -
  let ?code = "patch_jump code j v r d"
  have nc: "\<not> (testset_at code j \<and> i = control code j)" "\<not> (testset_at code j \<and> i - 1 = control code j)"
    using testset_control [OF j(1)] i(1) ne by (auto simp: jump_site_def)
  have op: "GET_OPCODE (?code ! nat i) = GET_OPCODE (code ! nat i)"
    by (rule patch_jump_opcode [OF j i(2) nc(1)])
  have op1: "GET_OPCODE (?code ! nat (i - 1)) = GET_OPCODE (code ! nat (i - 1))" if "1 \<le> i"
    by (rule patch_jump_opcode [OF j _ nc(2)]) (use that in simp)
  show s: "jump_site ?code i" using i(1) op op1 by (auto simp: jump_site_def test_at_def)
  show c: "control ?code i = control code i" using op1 by (auto simp: control_def test_at_def)
  show same: "?code ! nat i = code ! nat i" by (rule patch_jump_frame [OF i(2) j(2) ne nc(1)])
  show ctl: "?code ! nat (control code i) = code ! nat (control code i)"
  proof (cases "control code i = i")
    case False
    then have k: "control code i = i - 1" "1 \<le> i" "test_at code (i - 1)" by (auto simp: control_def split: if_splits)
    then have "i - 1 \<noteq> j" using j(1) by (auto simp: jump_site_def)
    then show ?thesis using patch_jump_frame [OF _ j(2) _ nc(2)] k by simp
  qed (simp add: same)
  show "testset_at ?code i \<longleftrightarrow> testset_at code i" by (simp add: testset_at_def c ctl)
qed

definition too_far :: "Instruction list \<Rightarrow> int \<Rightarrow> int \<Rightarrow> int \<Rightarrow> bool" where
  "too_far code v d j \<longleftrightarrow> 131071 < abs ((if testset_at code j then v else d) - (j + 1))"

definition patch_all :: "Instruction list \<Rightarrow> int list \<Rightarrow> int \<Rightarrow> int \<Rightarrow> int \<Rightarrow> Instruction list" where
  "patch_all code js v r d = fold (\<lambda>j code. patch_jump code j v r d) js code"

lemma patch_one:
  assumes j: "jump_site (fs_code fs) j" "0 \<le> j" "j < fs_pc fs" and dest: "(if testset_at (fs_code fs) j then v else d) \<noteq> NO_JUMP"
  shows "rbind (patchtestreg fs j r) (\<lambda>(b, fs). fixjump fs j (if b then v else d)) =
    (if too_far (fs_code fs) v d j then Inl (LuaError ''control structure too long'')
     else Inr (fs\<lparr>fs_code := patch_jump (fs_code fs) j v r d\<rparr>))"
proof (cases "testset_at (fs_code fs) j")
  case True
  then show ?thesis using dest j(2,3)
    by (simp add: patchtestreg_in [OF j] fixjump_in too_far_def) (simp add: patch_jump_def code_with_def Let_def)
next
  case False
  then show ?thesis using dest j(2,3)
    by (simp add: patchtestreg_in [OF j] fixjump_in too_far_def) (simp add: patch_jump_def code_with_def Let_def)
qed

lemma patchlist_loop_spec:
  assumes "threaded (fs_code fs) l js" and "\<And>j. j \<in> set js \<Longrightarrow> jump_site (fs_code fs) j" and "length js < n"
    and "\<And>j. j \<in> set js \<Longrightarrow> (if testset_at (fs_code fs) j then v else d) \<noteq> NO_JUMP"
  shows "patchlist_loop n fs l v r d =
    (if \<exists>j \<in> set js. too_far (fs_code fs) v d j then Inl (LuaError ''control structure too long'')
     else Inr (fs\<lparr>fs_code := patch_all (fs_code fs) js v r d\<rparr>))"
  using assms
proof (induction js arbitrary: fs l n)
  case Nil
  then show ?case by (cases n) (simp_all add: patch_all_def)
next
  case (Cons j js)
  obtain m where n: "n = Suc m" using Cons.prems(3) by (cases n) auto
  let ?code = "fs_code fs"
  let ?code1 = "patch_jump ?code j v r d"
  have j: "jump_site ?code j" "l = j" "0 \<le> j" "j < fs_pc fs" "threaded ?code (next_jump ?code j) js"
    using Cons.prems(1,2) by (simp_all add: fs_pc_def)
  have jl: "j < int (length ?code)" using j(4) by (simp add: fs_pc_def)
  have ne: "l \<noteq> NO_JUMP" using j(2,3) by auto
  have notin: "j \<notin> set js" using threaded_distinct [OF Cons.prems(1)] by simp
  have dest: "(if testset_at ?code j then v else d) \<noteq> NO_JUMP" using Cons.prems(4) by simp
  have loop: "patchlist_loop n fs l v r d = rbind (rbind (patchtestreg fs j r) (\<lambda>(b, fs). fixjump fs j (if b then v else d)))
      (\<lambda>fs'. patchlist_loop m fs' (next_jump ?code j) v r d)"
    using ne j by (simp add: n getjump_in rbind_assoc case_prod_unfold)
  show ?case
  proof (cases "too_far ?code v d j")
    case True
    then show ?thesis unfolding loop patch_one [OF j(1,3,4) dest] by simp
  next
    case False
    have other: "jump_site ?code1 i" "testset_at ?code1 i = testset_at ?code i" "?code1 ! nat i = ?code ! nat i"
      if "i \<in> set js" for i
    proof -
      have i: "jump_site ?code i" "0 \<le> i" "i \<noteq> j"
        using that notin Cons.prems(2) [of i] threaded_range [OF Cons.prems(1), of i] by auto
      show "jump_site ?code1 i" "testset_at ?code1 i = testset_at ?code i" "?code1 ! nat i = ?code ! nat i"
        by (rule patch_jump_other(1,3,4) [OF j(1,3) jl i])+
    qed
    have "threaded ?code1 (next_jump ?code j) js"
      by (rule threaded_cong [OF j(5)]) (simp_all add: other)
    then have "patchlist_loop m (fs\<lparr>fs_code := ?code1\<rparr>) (next_jump ?code j) v r d =
        (if \<exists>i \<in> set js. too_far ?code1 v d i then Inl (LuaError ''control structure too long'')
         else Inr (fs\<lparr>fs_code := patch_all ?code1 js v r d\<rparr>))"
      using Cons.IH [of "fs\<lparr>fs_code := ?code1\<rparr>" "next_jump ?code j" m] Cons.prems(3,4) n other by auto
    then show ?thesis unfolding loop patch_one [OF j(1,3,4) dest] using False other
      by (simp add: too_far_def patch_all_def)
  qed
qed

text \<open>The code after all of a list has been patched.\<close>

definition list_patched :: "Instruction list \<Rightarrow> int list \<Rightarrow> int \<Rightarrow> int \<Rightarrow> int \<Rightarrow> Instruction list \<Rightarrow> bool" where
  "list_patched code js v r d code' \<longleftrightarrow>
     length code' = length code \<and>
     (\<forall>j \<in> set js. dest_of code' j = (if testset_at code j then v else d) \<and>
        GET_OPCODE (code' ! nat j) = GET_OPCODE (code ! nat j) \<and>
        (testset_at code j \<longrightarrow> code' ! nat (control code j) = patched r (code ! nat (control code j)))) \<and>
     (\<forall>i \<ge> 0. i \<notin> set js \<longrightarrow> (\<forall>j \<in> set js. testset_at code j \<longrightarrow> i \<noteq> control code j) \<longrightarrow> code' ! nat i = code ! nat i)"

lemma patch_all_frame:
  assumes "\<And>j. j \<in> set js \<Longrightarrow> jump_site code j \<and> 0 \<le> j \<and> j < int (length code)" and "distinct js" and "0 \<le> i"
    and "i \<notin> set js" and "\<And>j. j \<in> set js \<Longrightarrow> testset_at code j \<Longrightarrow> i \<noteq> control code j"
  shows "patch_all code js v r d ! nat i = code ! nat i"
  using assms
proof (induction js arbitrary: code)
  case (Cons j js)
  let ?code1 = "patch_jump code j v r d"
  have j: "jump_site code j" "0 \<le> j" "j < int (length code)" using Cons.prems(1) by simp_all
  have other: "jump_site ?code1 k" "control ?code1 k = control code k" "testset_at ?code1 k = testset_at code k" "0 \<le> k"
    "k < int (length code)" if "k \<in> set js" for k
  proof -
    have k: "jump_site code k" "0 \<le> k" "k \<noteq> j" using that Cons.prems(1,2) by auto
    show "jump_site ?code1 k" "control ?code1 k = control code k" "testset_at ?code1 k = testset_at code k"
      by (rule patch_jump_other(1-3) [OF j k])+
    show "0 \<le> k" "k < int (length code)" using Cons.prems(1) that by auto
  qed
  have "patch_all ?code1 js v r d ! nat i = ?code1 ! nat i"
    using Cons.prems(2-5) other by (intro Cons.IH) auto
  moreover have "?code1 ! nat i = code ! nat i"
    using Cons.prems(3-5) j by (intro patch_jump_frame) auto
  ultimately show ?case by (simp add: patch_all_def)
qed (simp add: patch_all_def)

lemma patch_all_patched:
  assumes "\<And>j. j \<in> set js \<Longrightarrow> jump_site code j \<and> 0 \<le> j \<and> j < int (length code)" and "distinct js"
    and "\<And>j. j \<in> set js \<Longrightarrow> \<not> too_far code v d j"
  shows "list_patched code js v r d (patch_all code js v r d)"
  using assms
proof (induction js arbitrary: code)
  case (Cons j js)
  let ?code1 = "patch_jump code j v r d"
  let ?code' = "patch_all code (j # js) v r d"
  have j: "jump_site code j" "0 \<le> j" "j < int (length code)" using Cons.prems(1) by simp_all
  have sites: "jump_site code k \<and> 0 \<le> k \<and> k < int (length code) \<and> k \<noteq> j" if "k \<in> set js" for k
    using that Cons.prems(1,2) by auto
  have other: "jump_site ?code1 k" "control ?code1 k = control code k" "testset_at ?code1 k = testset_at code k"
    "?code1 ! nat k = code ! nat k" "?code1 ! nat (control code k) = code ! nat (control code k)" if "k \<in> set js" for k
    using sites [OF that] by (intro patch_jump_other [OF j]; simp)+
  have eq: "?code' = patch_all ?code1 js v r d" by (simp add: patch_all_def)
  have IH: "list_patched ?code1 js v r d ?code'"
    unfolding eq using Cons.prems(2,3) sites other by (intro Cons.IH) (auto simp: too_far_def)
  have keep: "?code' ! nat i = ?code1 ! nat i"
    if "0 \<le> i" "i \<notin> set js" "\<And>k. k \<in> set js \<Longrightarrow> testset_at code k \<Longrightarrow> i \<noteq> control code k" for i
    unfolding eq using Cons.prems(2) sites other that by (intro patch_all_frame) auto
  have ctl: "testset_at code k \<Longrightarrow> control code k = k - 1 \<and> test_at code (k - 1) \<and> 1 \<le> k" if "k \<in> set (j # js)" for k
    using testset_control [of code k] that sites j(1) by auto
  have "?code' ! nat j = ?code1 ! nat j"
    using Cons.prems(2) j ctl by (intro keep) (auto simp: jump_site_def)
  then have dj: "?code' ! nat j = SETARG_sBx (code ! nat j) (of_int ((if testset_at code j then v else d) - (j + 1)))"
    by (simp only: patch_jump_same [OF j])
  have len: "length ?code' = length code" using IH by (simp add: list_patched_def)
  have "- 131071 \<le> (if testset_at code j then v else d) - (j + 1)" "(if testset_at code j then v else d) - (j + 1) \<le> 131072"
    using Cons.prems(3) [of j] by (auto simp: too_far_def)
  from signed_argument [OF this]
  have d: "dest_of ?code' j = (if testset_at code j then v else d)" by (simp only: dest_of_def dj)
  have op: "GET_OPCODE (?code' ! nat j) = GET_OPCODE (code ! nat j)" by (simp only: dj SETARG_sBx_opcode)
  have c: "?code' ! nat (control code j) = patched r (code ! nat (control code j))" if t: "testset_at code j"
  proof -
    have "?code' ! nat (control code j) = ?code1 ! nat (control code j)"
    proof (rule keep)
      show "control code j \<notin> set js" using ctl [OF _ t] sites by (auto simp: jump_site_def)
      show "control code j \<noteq> control code k" if "k \<in> set js" "testset_at code k" for k
        using ctl [OF _ t] ctl [OF _ that(2)] that(1) sites [OF that(1)] by auto
      show "0 \<le> control code j" using control_range [OF j(2), of code] by simp
    qed
    then show ?thesis using patch_jump_control [OF j t] by simp
  qed
  have fr: "?code' ! nat i = code ! nat i"
    if i: "0 \<le> i" "i \<notin> set (j # js)" "\<forall>k \<in> set (j # js). testset_at code k \<longrightarrow> i \<noteq> control code k" for i
  proof -
    have "?code' ! nat i = ?code1 ! nat i" using i by (intro keep) auto
    moreover have "?code1 ! nat i = code ! nat i" using i j by (intro patch_jump_frame) auto
    ultimately show ?thesis by simp
  qed
  show ?case using IH other d op c fr len by (simp add: list_patched_def)
qed (simp add: patch_all_def list_patched_def)

lemma patchlistaux_spec:
  assumes t: "threaded (fs_code fs) l js" and s: "\<And>j. j \<in> set js \<Longrightarrow> jump_site (fs_code fs) j"
    and d: "\<And>j. j \<in> set js \<Longrightarrow> (if testset_at (fs_code fs) j then v else d) \<noteq> NO_JUMP"
  shows "case patchlistaux fs l v r d of
      Inl e \<Rightarrow> e = LuaError ''control structure too long'' \<and> (\<exists>j \<in> set js. too_far (fs_code fs) v d j)
    | Inr fs' \<Rightarrow> fs' = fs\<lparr>fs_code := fs_code fs'\<rparr> \<and> list_patched (fs_code fs) js v r d (fs_code fs')"
proof -
  have eq: "patchlistaux fs l v r d =
    (if \<exists>j \<in> set js. too_far (fs_code fs) v d j then Inl (LuaError ''control structure too long'')
     else Inr (fs\<lparr>fs_code := patch_all (fs_code fs) js v r d\<rparr>))"
    unfolding patchlistaux_def by (rule patchlist_loop_spec [OF t s _ d]) (use threaded_length [OF t] in simp_all)
  have "list_patched (fs_code fs) js v r d (patch_all (fs_code fs) js v r d)"
    if "\<not> (\<exists>j \<in> set js. too_far (fs_code fs) v d j)"
    using that s threaded_range [OF t] threaded_distinct [OF t] by (intro patch_all_patched) auto
  then show ?thesis unfolding eq by auto
qed

section \<open>Constants\<close>

text \<open>The key that stands for a constant.\<close>

definition const_key :: "addr \<Rightarrow> TValue \<Rightarrow> TValue" where
  "const_key a v = (if v = TNil then TTable a else v)"

definition is_const :: "TValue \<Rightarrow> bool" where
  "is_const v \<longleftrightarrow> (case v of TNil \<Rightarrow> True | TBoolean b \<Rightarrow> b = 0 \<or> b = 1 | TNumber r \<Rightarrow> dbl_eq r r | TString s \<Rightarrow> True | _ \<Rightarrow> False)"

text \<open>The index of a constant, entered if it is new.\<close>

definition add_const :: "FuncState \<Rightarrow> TValue \<Rightarrow> (int \<times> FuncState) result" where
  "add_const fs v = (case v of TNil \<Rightarrow> nilK fs | TBoolean b \<Rightarrow> boolK fs (b \<noteq> 0) | TNumber r \<Rightarrow> luaK_numberK fs r
     | TString s \<Rightarrow> luaK_stringK fs s | _ \<Rightarrow> Inl AssertFailed)"

text \<open>Each constant is entered once, and the table gives its index. (Strings of the analyser may be in the table too.)\<close>

definition consts_ok :: "FuncState \<Rightarrow> bool" where
  "consts_ok fs \<longleftrightarrow> wf_table (fs_h fs) \<and> length (fs_k fs) \<le> unat MAXARG_Bx \<and> list_all is_const (fs_k fs) \<and>
     (\<forall>i < length (fs_k fs). lookup (fs_h fs) (const_key (fs_haddr fs) (fs_k fs ! i)) = num i) \<and>
     (\<forall>key d. lookup (fs_h fs) key = TNumber d \<longrightarrow>
        (\<exists>i < length (fs_k fs). d = int_to_double (int i) \<and> luaO_rawequalObj (const_key (fs_haddr fs) (fs_k fs ! i)) key))"

lemma consts_index:
  "consts_ok fs \<Longrightarrow> lookup (fs_h fs) key = TNumber d \<Longrightarrow>
    \<exists>i < length (fs_k fs). d = int_to_double (int i) \<and> luaO_rawequalObj (const_key (fs_haddr fs) (fs_k fs ! i)) key"
  unfolding consts_ok_def by blast

lemma const_key_ok: "is_const v \<Longrightarrow> okkey (const_key a v)"
  by (cases v) (simp_all add: is_const_def const_key_def okkey_def)

lemma const_key_equal:
  "is_const v \<Longrightarrow> is_const w \<Longrightarrow> luaO_rawequalObj (const_key a v) (const_key a w) \<longleftrightarrow> luaO_rawequalObj v w"
  by (cases v; cases w) (simp_all add: is_const_def const_key_def)

lemma constant_addk: "is_const v \<Longrightarrow> add_const fs v = addk fs (const_key (fs_haddr fs) v) v"
  by (cases v) (auto simp: is_const_def add_const_def const_key_def nilK_def boolK_def luaK_numberK_def luaK_stringK_def Let_def)

lemma located_value:
  assumes wf: "wf_table t" and loc: "located t key t' s"
  shows "slot_value t' s = lookup t key"
proof -
  have t': "wf_table t'" "s \<in> set (slots t')" "luaO_rawequalObj (slot_key t' s) key" "lookup t' key = lookup t key"
    using loc by (simp_all add: located_def)
  have "lookup_slot t' key = Some s" by (rule lookup_slot_eq [OF t'(1,2,3)])
  then show ?thesis using t'(4) by (simp add: lookup_def value_at_def)
qed

lemma MAXARG_Bx_unat: "unat MAXARG_Bx = 262143" "uint MAXARG_Bx = 262143"
  by (simp_all add: MAXARG_Bx_def)

lemma small_index: "i < 262143 \<Longrightarrow> sint (double_to_s32 (int_to_double (int i))) = int i"
  using s32_num [of i] by (simp add: sint_of_nat_small)

text \<open>The two cases of \<open>addk\<close>: the constant is there, or it is entered at the end.\<close>

lemma addk_old:
  assumes ok: "consts_ok fs" and v: "is_const v" and i: "i < length (fs_k fs)" "luaO_rawequalObj (fs_k fs ! i) v"
  shows "\<exists>h. add_const fs v = Inr (int i, fs\<lparr>fs_h := h\<rparr>) \<and> wf_table h \<and> (\<forall>k. lookup h k = lookup (fs_h fs) k)"
proof -
  let ?key = "const_key (fs_haddr fs) v"
  have wf: "wf_table (fs_h fs)" and len: "length (fs_k fs) \<le> 262143" and ci: "is_const (fs_k fs ! i)"
    using ok i(1) by (simp_all add: consts_ok_def MAXARG_Bx_unat list_all_length)
  have "lookup (fs_h fs) ?key = lookup (fs_h fs) (const_key (fs_haddr fs) (fs_k fs ! i))"
    using lookup_slot_cong [of "const_key (fs_haddr fs) (fs_k fs ! i)" ?key "fs_h fs"] const_key_equal [OF ci v] i(2)
    by (simp add: lookup_def)
  then have num: "lookup (fs_h fs) ?key = TNumber (int_to_double (int i))"
    using ok i(1) by (simp add: consts_ok_def num_def)
  have found: "\<exists>s. lookup_slot (fs_h fs) ?key = Some s"
    using num by (cases "lookup_slot (fs_h fs) ?key") (simp_all add: lookup_def value_at_def)
  then obtain s where s: "lookup_slot (fs_h fs) ?key = Some s" by blast
  obtain t' s' where set: "luaH_set (fs_h fs) ?key = Inr (t', s')" and loc: "located (fs_h fs) ?key t' s'"
    using set_with_found [OF wf const_key_ok [OF v] s] by (simp add: luaH_set_def)
  have "slot_value t' s' = TNumber (int_to_double (int i))" using located_value [OF wf loc] num by simp
  then have "addk fs ?key v = Inr (int i, fs\<lparr>fs_h := t'\<rparr>)"
    using i len by (simp add: addk_def set small_index Let_def assert_that_def)
  moreover have "wf_table t'" "\<forall>k. lookup t' k = lookup (fs_h fs) k" using loc by (simp_all add: located_def)
  ultimately show ?thesis by (auto simp: constant_addk [OF v])
qed

lemma addk_new:
  assumes ok: "consts_ok fs" and v: "is_const v" and new: "\<forall>i < length (fs_k fs). \<not> luaO_rawequalObj (fs_k fs ! i) v"
  shows "(add_const fs v = Inl (LuaError ''table overflow'') \<and> 2 ^ 26 \<le> length (keys_of (fs_h fs))) \<or>
    (add_const fs v = Inl (LuaError ''constant table overflow'') \<and> length (fs_k fs) = 262143) \<or>
    (\<exists>h. add_const fs v = Inr (int (length (fs_k fs)), fs\<lparr>fs_h := h, fs_k := fs_k fs @ [v]\<rparr>) \<and>
      length (fs_k fs) < 262143 \<and> stored (fs_h fs) (const_key (fs_haddr fs) v) (num (length (fs_k fs))) h)"
proof -
  let ?key = "const_key (fs_haddr fs) v"
  have wf: "wf_table (fs_h fs)" and len: "length (fs_k fs) \<le> 262143" and all: "\<And>i. i < length (fs_k fs) \<Longrightarrow> is_const (fs_k fs ! i)"
    using ok by (simp_all add: consts_ok_def MAXARG_Bx_unat list_all_length)
  have no: "lookup (fs_h fs) ?key \<noteq> TNumber d" for d
  proof
    assume "lookup (fs_h fs) ?key = TNumber d"
    then obtain i where "i < length (fs_k fs)" "luaO_rawequalObj (const_key (fs_haddr fs) (fs_k fs ! i)) ?key"
      using consts_index [OF ok] by blast
    then show False using new const_key_equal [OF all v] by blast
  qed
  show ?thesis
  proof (rule luaH_set_spec [OF wf const_key_ok [OF v], of "fs_haddr fs"])
    assume "luaH_set (fs_h fs) ?key = Inl (LuaError ''table overflow'')" "MAXASIZE \<le> length (keys_of (fs_h fs))"
    then show ?thesis by (simp add: constant_addk [OF v] addk_def MAXASIZE_def MAXBITS_def)
  next
    fix t' s assume set: "luaH_set (fs_h fs) ?key = Inr (t', s)" and loc: "located (fs_h fs) ?key t' s"
    have ns: "slot_value t' s \<noteq> TNumber d" for d using located_value [OF wf loc] no by simp
    then have "addk fs ?key v = (if int (length (fs_k fs)) + 1 > uint MAXARG_Bx then Inl (LuaError ''constant table overflow'')
        else Inr (int (length (fs_k fs)), fs\<lparr>fs_h := setobj2t t' s (num (length (fs_k fs))), fs_k := fs_k fs @ [v]\<rparr>))"
      by (cases "slot_value t' s") (auto simp: addk_def set Let_def num_def ns)
    then show ?thesis using located_stored [OF loc, of "num (length (fs_k fs))"] len
      by (auto simp: constant_addk [OF v] MAXARG_Bx_unat)
  qed
qed

lemma consts_ok_new:
  assumes ok: "consts_ok fs" and v: "is_const v" and new: "\<forall>i < length (fs_k fs). \<not> luaO_rawequalObj (fs_k fs ! i) v"
    and len: "length (fs_k fs) < 262143"
    and st: "stored (fs_h fs) (const_key (fs_haddr fs) v) (num (length (fs_k fs))) h"
  shows "consts_ok (fs\<lparr>fs_h := h, fs_k := fs_k fs @ [v]\<rparr>)"
proof -
  let ?key = "const_key (fs_haddr fs)"
  let ?n = "length (fs_k fs)"
  have h: "wf_table h" "\<And>k. lookup h k = (if luaO_rawequalObj (?key v) k then num ?n else lookup (fs_h fs) k)"
    using st by (simp_all add: stored_def)
  have all: "\<And>i. i < ?n \<Longrightarrow> is_const (fs_k fs ! i)" using ok by (simp add: consts_ok_def list_all_length)
  have "lookup h (?key (fs_k fs ! i)) = num i" if i: "i < ?n" for i
  proof -
    have "\<not> luaO_rawequalObj v (fs_k fs ! i)" using new i rawequal_sym by blast
    then show ?thesis using ok i const_key_equal [OF v all [OF i]] by (simp add: h(2) consts_ok_def)
  qed
  moreover have "lookup h (?key v) = num ?n"
    using okkey_refl [OF const_key_ok [OF v]] by (simp add: h(2))
  moreover have "\<exists>i < Suc ?n. d = int_to_double (int i) \<and> luaO_rawequalObj (?key ((fs_k fs @ [v]) ! i)) key"
    if d: "lookup h key = TNumber d" for key d
  proof (cases "luaO_rawequalObj (?key v) key")
    case True
    then show ?thesis using d by (intro exI [of _ ?n]) (simp add: h(2) num_def)
  next
    case False
    then have "lookup (fs_h fs) key = TNumber d" using d by (simp add: h(2))
    then obtain i where "i < ?n" "d = int_to_double (int i)" "luaO_rawequalObj (?key (fs_k fs ! i)) key"
      using consts_index [OF ok] by blast
    then show ?thesis by (intro exI [of _ i]) (simp add: nth_append)
  qed
  ultimately show ?thesis using ok h(1) len v
    by (auto simp: consts_ok_def MAXARG_Bx_unat nth_append less_Suc_eq)
qed

section \<open>Folding\<close>

lemma constfolding_cases:
  assumes "constfolding c op e1 e2 = Inr (Some e)"
  shows "\<exists>tm. (op, tm) \<in> {(OP_ADD, TM_ADD), (OP_SUB, TM_SUB), (OP_MUL, TM_MUL), (OP_DIV, TM_DIV), (OP_MOD, TM_MOD), (OP_POW, TM_POW), (OP_UNM, TM_UNM)} \<and>
    e = e1\<lparr>e_nval := c_arith c tm (e_nval e1) (e_nval e2)\<rparr>"
  using assms by (cases op) (auto simp: constfolding_def Let_def split: if_splits)

section \<open>Counts of SETLIST\<close>

lemma emit_no_jumps:
  assumes "fs_jpc fs = NO_JUMP" and "fs_pc fs + 1 \<le> MAX_INT"
  shows "luaK_code fs i line = Inr (fs_pc fs, fs\<lparr>fs_code := fs_code fs @ [i], fs_lineinfo := fs_lineinfo fs @ [line]\<rparr>)"
proof -
  have "dischargejpc fs = Inr fs" using assms(1) by (simp add: dischargejpc_def patchlistaux_def)
  then show ?thesis using assms(2) by (simp add: luaK_code_def)
qed

lemma setlist_big:
  assumes jpc: "fs_jpc fs = NO_JUMP" and room: "fs_pc fs + 2 \<le> MAX_INT" and c: "c = (nelems - 1) sdiv 50 + 1" "511 < c" and ts: "tostore \<noteq> 0"
  shows "\<exists>fs1 i. luaK_setlist fs base nelems tostore = Inr fs1 \<and> fs_code fs1 = fs_code fs @ [i, of_int c] \<and> fs_jpc fs1 = NO_JUMP"
proof -
  have big: "\<not> c \<le> uint MAXARG_C" using c(2) by (simp add: MAXARG_C_def)
  obtain i fs0 where e: "luaK_codeABC fs OP_SETLIST base (if tostore = LUA_MULTRET then 0 else tostore) 0 = Inr (fs_pc fs, fs0)"
    "fs_code fs0 = fs_code fs @ [i]" "fs_jpc fs0 = NO_JUMP"
    using emit_no_jumps [OF jpc] room jpc by (simp add: luaK_codeABC_def)
  have "fs_pc fs0 + 1 \<le> MAX_INT" using e(2) room by (simp add: fs_pc_def)
  then show ?thesis using e ts big emit_no_jumps [OF e(3)]
    by (simp add: luaK_setlist_def assert_that_def Let_def c(1) [symmetric])
qed

lemma jump_no_jumps:
  assumes jpc: "fs_jpc fs = NO_JUMP" and room: "fs_pc fs + 1 \<le> MAX_INT"
  shows "\<exists>fs2 i. luaK_jump fs = Inr (fs_pc fs, fs2) \<and> fs_code fs2 = fs_code fs @ [i] \<and> fs_jpc fs2 = NO_JUMP \<and>
    is_op OP_JMP i \<and> sint (GETARG_sBx i) = - 1"
proof -
  let ?i = "CREATE_ABx (opcode_num OP_JMP) 0 131070"
  have "is_op OP_JMP ?i" "sint (GETARG_sBx ?i) = - 1" unfolding is_op_def by code_simp+
  moreover have "fs\<lparr>fs_jpc := NO_JUMP\<rparr> = fs" using jpc by simp
  moreover have "of_int (NO_JUMP + sint MAXARG_sBx) = (131070 :: u32)" by (simp add: NO_JUMP_def MAXARG_sBx_def)
  ultimately show ?thesis using emit_no_jumps [OF jpc room] jpc
    by (simp only: luaK_jump_def luaK_codeAsBx_def luaK_codeABx_def luaK_concat_def Let_def) simp
qed

lemma constants_spec:
  assumes ok: "consts_ok fs" and v: "is_const v"
  shows "(\<exists>e. add_const fs v = Inl e \<and> (e = LuaError ''table overflow'' \<and> 2 ^ 26 \<le> length (keys_of (fs_h fs)) \<or>
      e = LuaError ''constant table overflow'' \<and> length (fs_k fs) = 262143)) \<or>
    (\<exists>i fs'. add_const fs v = Inr (int i, fs') \<and> consts_ok fs' \<and> i < length (fs_k fs') \<and>
      luaO_rawequalObj (fs_k fs' ! i) v \<and> (fs_k fs' = fs_k fs \<or> fs_k fs' = fs_k fs @ [v]) \<and> fs_code fs' = fs_code fs)"
proof (cases "\<exists>i < length (fs_k fs). luaO_rawequalObj (fs_k fs ! i) v")
  case True
  then obtain i where i: "i < length (fs_k fs)" "luaO_rawequalObj (fs_k fs ! i) v" by blast
  obtain h where h: "add_const fs v = Inr (int i, fs\<lparr>fs_h := h\<rparr>)" "wf_table h" "\<forall>k. lookup h k = lookup (fs_h fs) k"
    using addk_old [OF ok v i] by blast
  have "consts_ok (fs\<lparr>fs_h := h\<rparr>)" using ok h(2,3) by (simp add: consts_ok_def)
  then show ?thesis using h(1) i by (intro disjI2 exI [of _ i] exI [of _ "fs\<lparr>fs_h := h\<rparr>"]) simp
next
  case False
  then have new: "\<forall>i < length (fs_k fs). \<not> luaO_rawequalObj (fs_k fs ! i) v" by blast
  have v': "luaO_rawequalObj v v" using v by (cases v) (simp_all add: is_const_def)
  show ?thesis
    using addk_new [OF ok v new] consts_ok_new [OF ok v new] v'
    by (elim disjE exE conjE) (simp, simp, force)
qed

lemma consts_unique:
  assumes ok: "consts_ok fs" and ij: "i < length (fs_k fs)" "j < length (fs_k fs)" "luaO_rawequalObj (fs_k fs ! i) (fs_k fs ! j)"
  shows "i = j"
proof -
  have c: "is_const (fs_k fs ! i)" "is_const (fs_k fs ! j)" using ok ij(1,2) by (simp_all add: consts_ok_def list_all_length)
  have "lookup (fs_h fs) (const_key (fs_haddr fs) (fs_k fs ! i)) = lookup (fs_h fs) (const_key (fs_haddr fs) (fs_k fs ! j))"
    using lookup_slot_cong [of "const_key (fs_haddr fs) (fs_k fs ! i)" "const_key (fs_haddr fs) (fs_k fs ! j)" "fs_h fs"]
      const_key_equal [OF c] ij(3) by (simp add: lookup_def)
  then have "num i = num j" using ok ij(1,2) by (simp add: consts_ok_def)
  moreover have "i < 2 ^ 31" "j < 2 ^ 31" using ok ij(1,2) by (simp_all add: consts_ok_def MAXARG_Bx_unat)
  ultimately show ?thesis using num_inj by blast
qed

section \<open>Properties\<close>

text \<open>The state the witnesses start from, and two jumps that end their lists.\<close>

definition start_fs :: FuncState where
  "start_fs = (case open_func 7 1 of Inr fs \<Rightarrow> fs)"

lemma start_fs_eval: "start_fs =
    \<lparr>fs_code = [], fs_lineinfo = [], fs_k = [], fs_maxstacksize = 2,
     fs_h = \<lparr>flags = - 1, lsizenode = 0, metatable = None, array = [], node = None, lastfree = 0\<rparr>, fs_haddr = 7, fs_lastline = 1,
     fs_lasttarget = - 1, fs_jpc = - 1, fs_freereg = 0, fs_nactvar = 0\<rparr>"
  by (simp add: start_fs_def open_func_def luaH_new_def setarrayvector_def setnodevector_def)

lemma start_fs_table: "wf_table (fs_h start_fs)" "lookup (fs_h start_fs) k = TNil"
proof -
  obtain t where t: "luaH_new 0 0 = Inr t" "wf_table t" "\<And>k. lookup t k = TNil"
    by (rule new_spec [of 0 0]) simp_all
  then show "wf_table (fs_h start_fs)" "lookup (fs_h start_fs) k = TNil"
    by (simp_all add: start_fs_def open_func_def)
qed

lemma start_fs_consts: "consts_ok start_fs"
  using start_fs_table by (simp add: consts_ok_def) (simp add: start_fs_eval)

definition two_jumps :: FuncState where
  "two_jumps = start_fs\<lparr>fs_code := [CREATE_ABx (opcode_num OP_JMP) 0 131070, CREATE_ABx (opcode_num OP_JMP) 0 131070]\<rparr>"

lemma two_jumps_threaded: "threaded (fs_code two_jumps) 0 [0]" "threaded (fs_code two_jumps) 1 [1]"
  unfolding two_jumps_def start_fs_eval by code_simp+

text \<open>
  C36. Lists of pending jumps are lists, although they are threaded through the offsets of the jumps themselves: \<open>luaK_concat\<close> on two lists
  without common jumps gives the first followed by the second, always ends, and changes the code in one place, the last jump of the
  first list; or it raises ``control structure too long'', only when that jump and the second list are more than 131071 apart.
\<close>

theorem concat_appends:
  assumes "threaded (fs_code fs) l1 js1" and "threaded (fs_code fs) l2 js2" and "set js1 \<inter> set js2 = {}"
  shows "case luaK_concat fs l1 l2 of
      Inl e \<Rightarrow> e = LuaError ''control structure too long'' \<and> js1 \<noteq> [] \<and> js2 \<noteq> [] \<and> 131071 < abs (hd js2 - (last js1 + 1))
    | Inr (l, fs') \<Rightarrow> threaded (fs_code fs') l (js1 @ js2) \<and> fs' = fs\<lparr>fs_code := fs_code fs'\<rparr> \<and>
        length (fs_code fs') = length (fs_code fs) \<and>
        (\<forall>i. fs_code fs' ! i = fs_code fs ! i \<or> js1 \<noteq> [] \<and> js2 \<noteq> [] \<and> i = nat (last js1) \<and>
          fs_code fs' ! i = SETARG_sBx (fs_code fs ! i) (of_int (hd js2 - (last js1 + 1))))"
  by (rule concat_spec [OF assms])

theorem concat_appends_witness:
  "\<exists>l fs'. luaK_concat two_jumps 0 1 = Inr (l, fs') \<and> threaded (fs_code fs') l [0, 1]"
  using concat_appends [OF two_jumps_threaded]
  by (cases "luaK_concat two_jumps 0 1") (auto simp: case_prod_unfold intro: exI [of _ "fst (projr (luaK_concat two_jumps 0 1))"])

text \<open>
  C37. Patching a list of jumps sends every jump of it to the right place, in the sense of the interpreter: afterwards the destination of each is
  \<open>vtarget\<close> where a \<open>TESTSET\<close> controls it and \<open>dtarget\<close> elsewhere; the \<open>TESTSET\<close> stores to the register asked for,
  or becomes a plain \<open>TEST\<close> when there is none; opcodes of the jumps and all other instructions are what they were. It always ends;
  the only error is a jump too far.
\<close>

theorem patching_retargets:
  assumes "threaded (fs_code fs) l js" and "\<And>j. j \<in> set js \<Longrightarrow> jump_site (fs_code fs) j"
    and "\<And>j. j \<in> set js \<Longrightarrow> (if testset_at (fs_code fs) j then vtarget else dtarget) \<noteq> NO_JUMP"
  shows "case patchlistaux fs l vtarget r dtarget of
      Inl e \<Rightarrow> e = LuaError ''control structure too long'' \<and>
        (\<exists>j \<in> set js. 131071 < abs ((if testset_at (fs_code fs) j then vtarget else dtarget) - (j + 1)))
    | Inr fs' \<Rightarrow> fs' = fs\<lparr>fs_code := fs_code fs'\<rparr> \<and> length (fs_code fs') = length (fs_code fs) \<and>
        (\<forall>j \<in> set js. dest_of (fs_code fs') j = (if testset_at (fs_code fs) j then vtarget else dtarget) \<and>
           GET_OPCODE (fs_code fs' ! nat j) = GET_OPCODE (fs_code fs ! nat j) \<and>
           (testset_at (fs_code fs) j \<longrightarrow>
              fs_code fs' ! nat (control (fs_code fs) j) = patched r (fs_code fs ! nat (control (fs_code fs) j)))) \<and>
        (\<forall>i \<ge> 0. i \<notin> set js \<longrightarrow> (\<forall>j \<in> set js. testset_at (fs_code fs) j \<longrightarrow> i \<noteq> control (fs_code fs) j) \<longrightarrow>
           fs_code fs' ! nat i = fs_code fs ! nat i)"
  by (rule patchlistaux_spec [OF assms, of r, unfolded list_patched_def too_far_def])

theorem patching_retargets_witness:
  "\<exists>fs'. patchlistaux two_jumps 0 1 255 1 = Inr fs' \<and> dest_of (fs_code fs') 0 = 1"
proof -
  have "is_op OP_JMP (CREATE_ABx (opcode_num OP_JMP) 0 131070)" unfolding is_op_def by code_simp
  then have "jump_site (fs_code two_jumps) 0"
    by (simp add: is_op_iff two_jumps_def jump_site_def test_at_def mode_simps)
  then show ?thesis
    using patching_retargets [OF two_jumps_threaded(1), of 1 1 255]
    by (auto simp: NO_JUMP_def split: sum.splits)
qed

text \<open>
  C38. Every constant of a function is entered once: for nil, a boolean, a number that is not NaN or a string, the code generator gives an index at which
  the constant stands, the constant is the only one equal to it, and it is added only if none was there; the table of constants stays consistent with the array. The errors are
  the limit of 262143 constants and the limit of tables.
\<close>

theorem constants_entered_once:
  assumes "consts_ok fs" and "is_const v"
  shows "case add_const fs v of
      Inl e \<Rightarrow> e = LuaError ''table overflow'' \<and> 2 ^ 26 \<le> length (keys_of (fs_h fs)) \<or>
        e = LuaError ''constant table overflow'' \<and> length (fs_k fs) = 262143
    | Inr (k, fs') \<Rightarrow> consts_ok fs' \<and> 0 \<le> k \<and> k < int (length (fs_k fs')) \<and> luaO_rawequalObj (fs_k fs' ! nat k) v \<and>
        (\<forall>j < length (fs_k fs'). luaO_rawequalObj (fs_k fs' ! j) v \<longrightarrow> int j = k) \<and>
        (fs_k fs' = fs_k fs \<or> fs_k fs' = fs_k fs @ [v])"
proof -
  have "int j = int i" if "consts_ok fs'" "i < length (fs_k fs')" "luaO_rawequalObj (fs_k fs' ! i) v"
    "j < length (fs_k fs')" "luaO_rawequalObj (fs_k fs' ! j) v" for fs' i j
    using consts_unique [OF that(1,4,2)] rawequal_trans [OF that(5) rawequal_sym [OF that(3)]] by simp
  then show ?thesis using constants_spec [OF assms] by auto
qed

theorem constants_entered_once_witness:
  "\<exists>k fs'. add_const start_fs (TString [120]) = Inr (k, fs') \<and> fs_k fs' = [TString [120]] \<and> consts_ok fs'"
proof -
  have "length (keys_of (fs_h start_fs)) = 0" "length (fs_k start_fs) = 0"
    by (simp_all add: keys_of_def array_items_def gnodes_def start_fs_eval)
  then show ?thesis using constants_entered_once [OF start_fs_consts, of "TString [120]"]
    by (auto simp: is_const_def split: sum.splits)
qed

text \<open>
  Both zeros are one key, so the constant \<open>-0\<close> is given the index of \<open>0\<close>: the folded expression \<open>-0\<close> loads
  \<open>0\<close> in a function that uses it, although the interpreter negates \<open>0\<close> to \<open>-0\<close>.
\<close>

theorem negative_zero_shares_constant:
  assumes "consts_ok fs" and "i < length (fs_k fs)" and "fs_k fs ! i = TNumber 0"
  shows "\<exists>h. luaK_numberK fs 0x8000000000000000 = Inr (int i, fs\<lparr>fs_h := h\<rparr>)"
proof -
  have "dbl_eq 0 0x8000000000000000" "dbl_eq 0x8000000000000000 0x8000000000000000" by code_simp+
  then have "is_const (TNumber 0x8000000000000000)" "luaO_rawequalObj (fs_k fs ! i) (TNumber 0x8000000000000000)"
    using assms(3) by (simp_all add: is_const_def)
  then show ?thesis using addk_old [OF assms(1) _ assms(2)] by (force simp: add_const_def)
qed

text \<open>
  C39. The code generator overwrites its own data: the count of a SETLIST too large for its operand is the next word of the code,
  and a jump generated right after it takes that word for the instruction that controls it. When the count has the opcode field
  of \<open>TESTSET\<close>, as 539 has (a constructor of 26950 elements at the end of the body of a loop), patching the jump turns
  the count into a \<open>TEST\<close>, so the last elements are stored at wrong indices.
\<close>

theorem setlist_count_overwritten:
  assumes jpc: "fs_jpc fs = NO_JUMP" and target: "0 \<le> target" "target \<le> fs_pc fs" and room: "fs_pc fs < 131000"
    and c: "c = (nelems - 1) sdiv 50 + 1" "511 < c" "is_op OP_TESTSET (of_int c)" and ts: "tostore \<noteq> 0"
  shows "\<exists>fs1 fs2 fs3 j. luaK_setlist fs base nelems tostore = Inr fs1 \<and> luaK_jump fs1 = Inr (j, fs2) \<and>
    luaK_patchlist fs2 j target = Inr fs3 \<and> fs_code fs1 ! nat (fs_pc fs + 1) = of_int c \<and>
    fs_code fs3 ! nat (fs_pc fs + 1) = CREATE_ABC (opcode_num OP_TEST) (GETARG_B (of_int c)) 0 (GETARG_C (of_int c))"
proof -
  have r: "fs_pc fs + 2 \<le> MAX_INT" using room by (simp add: MAX_INT_def)
  obtain fs1 i where fs1: "luaK_setlist fs base nelems tostore = Inr fs1" "fs_code fs1 = fs_code fs @ [i, of_int c]" "fs_jpc fs1 = NO_JUMP"
    using setlist_big [OF jpc r c(1,2) ts] by blast
  have pc1: "fs_pc fs1 = fs_pc fs + 2" using fs1(2) by (simp add: fs_pc_def)
  have "fs_pc fs1 + 1 \<le> MAX_INT" using room by (simp add: pc1 MAX_INT_def)
  then obtain fs2 k where fs2: "luaK_jump fs1 = Inr (fs_pc fs + 2, fs2)" "fs_code fs2 = fs_code fs @ [i, of_int c, k]"
    "is_op OP_JMP k" "sint (GETARG_sBx k) = - 1"
    using jump_no_jumps [OF fs1(3)] fs1(2) pc1 by auto
  let ?j = "fs_pc fs + 2"
  let ?code = "fs_code fs2"
  have n: "nat ?j = length (fs_code fs) + 2" "nat (?j - 1) = length (fs_code fs) + 1" by (simp_all add: fs_pc_def)
  have at: "?code ! nat ?j = k" "?code ! nat (?j - 1) = of_int c" unfolding n by (simp_all add: fs2(2) nth_append)
  have opc: "opcode_of (GET_OPCODE k) = Some OP_JMP" "opcode_of (GET_OPCODE (of_int c)) = Some OP_TESTSET"
    using fs2(3) c(3) by (simp_all only: is_op_iff)
  have th: "threaded ?code ?j [?j]"
    using fs2(2,4) at(1) by (simp add: fs_pc_def next_jump_def NO_JUMP_def)
  have site: "jump_site ?code ?j" unfolding jump_site_def test_at_def at opc by (simp add: mode_simps)
  have ctl: "control ?code ?j = ?j - 1" unfolding control_def test_at_def at opc by (simp add: mode_simps fs_pc_def)
  have t: "testset_at ?code ?j" unfolding testset_at_def ctl at by (rule c(3))
  have near: "\<not> too_far ?code target target ?j" using target room by (simp add: too_far_def)
  have "case patchlistaux fs2 ?j target NO_REG_code target of
      Inl e \<Rightarrow> e = LuaError ''control structure too long'' \<and> (\<exists>j \<in> set [?j]. too_far ?code target target j)
    | Inr fs' \<Rightarrow> fs' = fs2\<lparr>fs_code := fs_code fs'\<rparr> \<and> list_patched ?code [?j] target NO_REG_code target (fs_code fs')"
    by (rule patchlistaux_spec [OF th]) (use site target(1) in \<open>auto simp: NO_JUMP_def\<close>)
  then obtain fs3 where fs3: "patchlistaux fs2 ?j target NO_REG_code target = Inr fs3"
    "list_patched ?code [?j] target NO_REG_code target (fs_code fs3)"
    using near by (cases "patchlistaux fs2 ?j target NO_REG_code target") auto
  have "fs_pc fs2 = fs_pc fs + 3" using fs2(2) by (simp add: fs_pc_def)
  then have "luaK_patchlist fs2 ?j target = Inr fs3"
    using fs3(1) target by (simp add: luaK_patchlist_def assert_that_def)
  moreover have "testset_at ?code ?j \<longrightarrow> fs_code fs3 ! nat (control ?code ?j) = patched NO_REG_code (?code ! nat (control ?code ?j))"
    using fs3(2) by (simp add: list_patched_def)
  then have "fs_code fs3 ! nat (?j - 1) = patched NO_REG_code (of_int c)" using t unfolding ctl at by (rule mp)
  moreover have "patched NO_REG_code (of_int c) = CREATE_ABC (opcode_num OP_TEST) (GETARG_B (of_int c)) 0 (GETARG_C (of_int c))"
    by (simp add: patched_def)
  moreover have "fs_code fs1 ! nat (fs_pc fs + 1) = of_int c" by (simp add: fs1(2) fs_pc_def nth_append nat_add_distrib)
  moreover have "?j - 1 = fs_pc fs + 1" by simp
  ultimately show ?thesis using fs1(1) fs2(1) by (metis (no_types))
qed

theorem setlist_count_overwritten_witness:
  "\<exists>fs1 fs2 fs3 j. luaK_setlist start_fs 0 26950 50 = Inr fs1 \<and> luaK_jump fs1 = Inr (j, fs2) \<and> luaK_patchlist fs2 j 0 = Inr fs3 \<and>
    fs_code fs1 ! 1 = 539 \<and> fs_code fs3 ! 1 = 26"
proof -
  have c: "539 = (26950 - 1) sdiv 50 + (1 :: int)" "is_op OP_TESTSET (of_int 539)"
    "CREATE_ABC (opcode_num OP_TEST) (GETARG_B (of_int 539)) 0 (GETARG_C (of_int 539)) = 26"
    unfolding is_op_def by code_simp+
  have j: "fs_jpc start_fs = NO_JUMP" "fs_pc start_fs = 0" by (simp_all add: start_fs_eval NO_JUMP_def fs_pc_def)
  have "\<exists>fs1 fs2 fs3 j. luaK_setlist start_fs 0 26950 50 = Inr fs1 \<and> luaK_jump fs1 = Inr (j, fs2) \<and>
    luaK_patchlist fs2 j 0 = Inr fs3 \<and> fs_code fs1 ! nat (fs_pc start_fs + 1) = of_int 539 \<and>
    fs_code fs3 ! nat (fs_pc start_fs + 1) = CREATE_ABC (opcode_num OP_TEST) (GETARG_B (of_int 539)) 0 (GETARG_C (of_int 539))"
    by (rule setlist_count_overwritten [OF j(1) _ _ _ c(1) _ c(2)]) (simp_all add: j(2))
  then show ?thesis unfolding c(3) j(2) by simp
qed


text \<open>An activation with the constants 1, 2 and 3.\<close>

definition adding :: vm where
  "adding = \<lparr>cur = \<lparr>f_ci = \<lparr>ci_base = 1, ci_func = 0, ci_top = 3, ci_nresults = 0, ci_tailcalls = 0\<rparr>,
     f_cl = \<lparr>cproto = Proto [TNumber 0x3FF0000000000000, TNumber 0x4000000000000000, TNumber 0x4008000000000000] [0x80001E] [] [] [] [] None 0 0 0 2 0 2,
       cenv = 1, cupvals = []\<rparr>, f_pc = 0\<rparr>, callers = [], vtop = 3\<rparr>"

definition numeral_exp :: "double \<Rightarrow> expdesc" where
  "numeral_exp x = \<lparr>e_k = VKNUM, e_info = 0, e_aux = 0, e_nval = x, e_t = NO_JUMP, e_f = NO_JUMP\<rparr>"


end
