(* ===== verification/LtUtil.thy ===== *)
theory LtUtil
  imports Prelude
begin

text \<open>
  ltutil.cpp: the hash functions of the lighttable map, its byte strings and the prime
  numbers it sizes its first map with.
\<close>

section \<open>Strings (\<open>string_slot\<close>, new\_string, cmp\_string)\<close>

text \<open>
  \<open>sz\<close> is a C \<open>int\<close>, so a longer length is cut to 32 bits; the buffer keeps the terminating
  zero byte that \<open>new_string\<close> writes.
\<close>

record string_slot =
  ss_ref :: int
  ss_sz :: u32
  ss_buf :: bytes

definition new_string :: "bytes \<Rightarrow> string_slot" where
  "new_string name = \<lparr>ss_ref = 1, ss_sz = of_nat (length name), ss_buf = name @ [0]\<rparr>"

text \<open>\<open>a->sz == sz\<close> compares an \<open>int\<close> with a \<open>size_t\<close>: the \<open>int\<close> is sign-extended.\<close>

definition cmp_string :: "string_slot \<Rightarrow> bytes \<Rightarrow> bool" where
  "cmp_string a b \<longleftrightarrow>
     (scast (ss_sz a) :: u64) = of_nat (length b) \<and> take (length b) (ss_buf a) = b"

section \<open>Hashing\<close>

text \<open>
  \<open>(uint32_t)name[i]\<close> sign-extends the character: \<open>char\<close> is signed on the platforms the
  makefile builds for.
\<close>

fun hash_str_loop :: "u32 \<Rightarrow> bytes \<Rightarrow> u32" where
  "hash_str_loop h [] = h"
| "hash_str_loop h (c # cs) =
     hash_str_loop (h XOR (push_bit 5 h + drop_bit 2 h + scast c)) cs"

definition hash_str :: "bytes \<Rightarrow> u32 \<Rightarrow> u32" where
  "hash_str name map_size = hash_str_loop (of_nat (length name)) name AND (map_size - 1)"

text \<open>\<open>numkey % map_size\<close> is computed in \<open>size_t\<close> and cut to 32 bits by the return type.\<close>

definition hash_mod :: "u64 \<Rightarrow> u32 \<Rightarrow> u32" where
  "hash_mod numkey map_size = ucast (numkey mod scast map_size)"

definition hash_num :: "u64 \<Rightarrow> u32 \<Rightarrow> u32" where
  "hash_num numkey map_size = hash_mod numkey map_size"

text \<open>
  A key argument \<open>(const char *name, size_t num)\<close> is a string of \<open>num\<close> bytes when \<open>name\<close> is
  not NULL, and the number \<open>num\<close> otherwise.
\<close>

datatype lkey = StrKey bytes | NumKey u64

fun hash :: "lkey \<Rightarrow> u32 \<Rightarrow> u32" where
  "hash (StrKey name) map_size = hash_str name map_size"
| "hash (NumKey num) map_size = hash_num num map_size"

lemma word_and_less_of_pos:
  fixes x m :: "'a::len word"
  assumes "0 < m"
  shows "x AND (m - 1) < m"
proof -
  have "x AND (m - 1) \<le> m - 1" by (rule word_and_le1)
  also have "m - 1 < m" using assms by unat_arith
  finally show ?thesis .
qed

text \<open>Every key hashes into the bucket array, whatever its (positive) size.\<close>

lemma hash_str_less: "0 < n \<Longrightarrow> hash_str name n < n"
  by (simp add: hash_str_def word_and_less_of_pos)

lemma hash_num_less:
  assumes "0 < n" and "n < 2 ^ 31"
  shows "unat (hash_num i (of_nat n)) < n"
proof -
  have m: "unat (scast (of_nat n :: u32) :: u64) = n"
  proof -
    have s: "sint (of_nat n :: u32) = int n"
      using assms by (simp add: signed_of_nat signed_take_bit_int_eq_self)
    have "unat (scast (of_nat n :: u32) :: u64) = unat (word_of_int (int n) :: u64)"
      by (simp add: scast_eq s)
    also have "\<dots> = n"
      using assms by (simp add: unat_of_nat_small)
    finally show ?thesis .
  qed
  have lt: "unat (i mod scast (of_nat n :: u32)) < n"
    using m assms by (simp add: unat_mod_distrib)
  then have "unat (ucast (i mod scast (of_nat n :: u32)) :: u32) = unat (i mod scast (of_nat n :: u32))"
    using assms by (simp add: unat_ucast_small)
  then show ?thesis using lt by (simp add: hash_num_def hash_mod_def)
qed

lemma hash_less:
  assumes "0 < n" and "n < 2 ^ 31"
  shows "unat (hash k (of_nat n)) < n"
proof (cases k)
  case (StrKey name)
  have n: "unat (of_nat n :: u32) = n" using assms by (simp add: unat_of_nat_small)
  then have "hash_str name (of_nat n) < of_nat n"
    using assms by (intro hash_str_less) (simp add: word_less_nat_alt)
  then show ?thesis using StrKey n by (simp add: word_less_nat_alt)
next
  case (NumKey i)
  then show ?thesis using hash_num_less [OF assms] by simp
qed

section \<open>Prime sizes (is\_prime, next\_prime, find\_double\_prime)\<close>

definition first_sizes :: "nat list" where
  "first_sizes = [2, 3, 5, 7, 11, 13, 17, 19, 23]"

text \<open>
  \<open>(int)sqrt(n)\<close>: the double square root of a 32-bit integer, truncated, is its integer
  square root.
\<close>

fun isqrt :: "nat \<Rightarrow> nat" where
  "isqrt n = (if n = 0 then 0
     else let r = 2 * isqrt (n div 4) in if (r + 1) * (r + 1) \<le> n then r + 1 else r)"

declare isqrt.simps [simp del]

function trial_division :: "nat \<Rightarrow> nat \<Rightarrow> nat \<Rightarrow> bool" where
  "trial_division i half n =
     (if i \<le> half then if n mod i = 0 then False else trial_division (Suc i) half n
      else True)"
  by pat_completeness auto
termination
  by (relation "measure (\<lambda>(i, half, n). Suc half - i)") auto

declare trial_division.simps [simp del]

definition is_prime :: "u32 \<Rightarrow> bool" where
  "is_prime n =
     (if list_ex (\<lambda>p. unat n mod p = 0) first_sizes then False
      else trial_division 29 (isqrt (unat n)) (unat n))"

lemma is_prime_0 [simp]: "\<not> is_prime 0"
  by (simp add: is_prime_def first_sizes_def)

lemma is_prime_1 [simp]: "is_prime 1"
  by (simp add: is_prime_def first_sizes_def isqrt.simps trial_division.simps)

text \<open>
  \<open>while (!is_prime(++n)) {}\<close> on an \<open>unsigned int\<close>: the counter wraps around at \<open>2 ^ 32\<close>,
  and the loop stops at 1 at the latest, which \<open>is_prime\<close> accepts.
\<close>

function next_prime :: "u32 \<Rightarrow> u32" where
  "next_prime n = (if is_prime (n + 1) then n + 1 else next_prime (n + 1))"
  by pat_completeness auto
termination
proof (relation "measure (\<lambda>n. unat (- n))")
  fix n :: u32
  assume np: "\<not> is_prime (n + 1)"
  then have "n \<noteq> 0" by auto
  then have "- n \<noteq> 0" by simp
  then have "unat (- n - 1) < unat (- n)" by unat_arith
  moreover have "- (n + 1) = - n - 1" by simp
  ultimately show "(n + 1, n) \<in> measure (\<lambda>n. unat (- n))" by (simp only: in_measure)
qed simp

declare next_prime.simps [simp del]

lemma isqrt_bounds: "isqrt n * isqrt n \<le> n \<and> n < (isqrt n + 1) * (isqrt n + 1)"
proof (induction n rule: isqrt.induct)
  case (1 n)
  show ?case
  proof (cases "n = 0")
    case True
    then show ?thesis by (simp add: isqrt.simps)
  next
    case False
    define r where "r = isqrt (n div 4)"
    have r: "r * r \<le> n div 4" "n div 4 < (r + 1) * (r + 1)"
      using "1.IH" [OF False] by (simp_all add: r_def)
    then have lo: "2 * r * (2 * r) \<le> n" by simp
    have "n < 4 * ((r + 1) * (r + 1))" using r(2) by linarith
    then have hi: "n < (2 * r + 2) * (2 * r + 2)" by (simp add: algebra_simps)
    have "isqrt n = (if (2 * r + 1) * (2 * r + 1) \<le> n then 2 * r + 1 else 2 * r)"
      using False by (subst isqrt.simps) (simp add: r_def Let_def)
    then show ?thesis using lo hi by (simp add: algebra_simps)
  qed
qed

lemma trial_division_iff:
  "trial_division i half n \<longleftrightarrow> (\<forall>j. i \<le> j \<and> j \<le> half \<longrightarrow> \<not> j dvd n)"
proof (induction i half n rule: trial_division.induct)
  case (1 i half n)
  show ?case
  proof (cases "i \<le> half")
    case True
    show ?thesis
    proof (cases "n mod i = 0")
      case d: True
      with True have "\<not> trial_division i half n" by (simp add: trial_division.simps)
      with d True show ?thesis by (auto simp: dvd_eq_mod_eq_0)
    next
      case False
      have "trial_division i half n \<longleftrightarrow> trial_division (Suc i) half n"
        using True False by (simp add: trial_division.simps [of i])
      also have "\<dots> \<longleftrightarrow> (\<forall>j. Suc i \<le> j \<and> j \<le> half \<longrightarrow> \<not> j dvd n)"
        using "1.IH" True False by simp
      also have "\<dots> \<longleftrightarrow> (\<forall>j. i \<le> j \<and> j \<le> half \<longrightarrow> \<not> j dvd n)"
        using False by (metis Suc_leI dvd_eq_mod_eq_0 le_eq_less_or_eq Suc_leD)
      finally show ?thesis .
    qed
  next
    case False
    then show ?thesis by (auto simp: trial_division.simps)
  qed
qed

text \<open>Primality, and the small divisors the first loop looks for.\<close>

definition prime_nat :: "nat \<Rightarrow> bool" where
  "prime_nat p \<longleftrightarrow> 1 < p \<and> (\<forall>m. m dvd p \<longrightarrow> m = 1 \<or> m = p)"

lemma least_divisor:
  assumes "1 < (n :: nat)" and "\<not> prime_nat n"
  obtains d where "1 < d" "d dvd n" "d * d \<le> n"
proof -
  from assms obtain m where m: "m dvd n" "m \<noteq> 1" "m \<noteq> n"
    by (auto simp: prime_nat_def)
  then obtain e where e: "n = m * e" by blast
  have pos: "m > 1" "e > 1"
    using m e assms(1) by (cases m; cases e; auto)+
  show thesis
  proof (cases "m \<le> e")
    case True
    then have "m * m \<le> n" using e by simp
    then show thesis using that [of m] m pos by blast
  next
    case False
    then have "e * e \<le> n" using e by simp
    then show thesis using that [of e] e pos by simp
  qed
qed

lemma small_has_first_size:
  assumes "1 < d" and "d < 29"
  shows "\<exists>p \<in> set first_sizes. p dvd d"
proof -
  have "[2..<29] = [2, 3, 4, 5, 6, 7, 8, 9, 10, 11, 12, 13, 14, 15, 16, 17, 18, 19, 20, 21,
      22, 23, 24, 25, 26, 27, 28 :: nat]"
    by (simp add: upt_rec)
  then have "list_all (\<lambda>d. list_ex (\<lambda>p. d mod p = 0) first_sizes) [2..<29]"
    by (simp only:) (simp add: first_sizes_def)
  moreover have "d \<in> set [2..<29]" using assms by (simp only: set_upt atLeastLessThan_iff) simp
  ultimately have "list_ex (\<lambda>p. d mod p = 0) first_sizes" by (simp only: list_all_iff)
  then show ?thesis by (simp only: list_ex_iff dvd_eq_mod_eq_0)
qed

lemma first_sizes_range: "p \<in> set first_sizes \<Longrightarrow> 1 < p \<and> p \<le> 23"
  by (auto simp: first_sizes_def)

text \<open>
  \<open>is_prime\<close> decides primality above 23. Below, it rejects every number but 1, the
  primes its own table holds included: each of them divides itself.
\<close>

lemma is_prime_unfold:
  "is_prime n \<longleftrightarrow> (\<forall>p \<in> set first_sizes. \<not> p dvd unat n) \<and>
     (\<forall>j. 29 \<le> j \<and> j \<le> isqrt (unat n) \<longrightarrow> \<not> j dvd unat n)"
  by (auto simp: is_prime_def trial_division_iff list_ex_iff dvd_eq_mod_eq_0)

lemma le_isqrt_iff: "j \<le> isqrt n \<longleftrightarrow> j * j \<le> n"
  using isqrt_bounds [of n] mult_le_mono [of j "isqrt n" j "isqrt n"]
    mult_le_mono [of "isqrt n + 1" j "isqrt n + 1" j]
  by (metis Suc_eq_plus1 leI le_trans not_less not_less_eq_eq)

lemma is_prime_imp:
  assumes "is_prime n" and "unat n \<noteq> 1"
  shows "prime_nat (unat n) \<and> 23 < unat n"
proof -
  have nz: "unat n \<noteq> 0" using assms(1) by (metis is_prime_0 unat_eq_zero)
  with assms(2) have gt1: "1 < unat n" by simp
  have big: "\<not> d dvd unat n" if "1 < d" "d < 29" for d
    using small_has_first_size [OF that] assms(1) by (auto simp: is_prime_unfold dest: dvd_trans)
  have "29 \<le> unat n" using big [OF gt1] by force
  moreover have "prime_nat (unat n)"
  proof (rule ccontr)
    assume "\<not> prime_nat (unat n)"
    with gt1 obtain d where d: "1 < d" "d dvd unat n" "d * d \<le> unat n"
      by (rule least_divisor)
    then have "29 \<le> d" using big by force
    with d assms(1) show False by (auto simp: is_prime_unfold le_isqrt_iff)
  qed
  ultimately show ?thesis by simp
qed

lemma prime_imp_is_prime:
  assumes "prime_nat (unat n)" and "23 < unat n"
  shows "is_prime n"
proof -
  have "\<not> p dvd unat n" if "p \<in> set first_sizes" for p
    using assms first_sizes_range [OF that] by (auto simp: prime_nat_def)
  moreover have "\<not> j dvd unat n" if "29 \<le> j" "j * j \<le> unat n" for j
  proof
    assume "j dvd unat n"
    with assms(1) that(1) have "j = unat n" by (auto simp: prime_nat_def)
    with that show False by (cases "unat n") auto
  qed
  ultimately show ?thesis by (auto simp: is_prime_unfold le_isqrt_iff)
qed

text \<open>\<open>next_prime\<close> finds the next accepted number, or wraps around to 1 when there is none.\<close>

lemma next_prime_spec:
  "is_prime (next_prime n) \<and>
   (unat n < unat (next_prime n) \<and>
      (\<forall>m. unat n < unat m \<and> unat m < unat (next_prime n) \<longrightarrow> \<not> is_prime m)
    \<or> next_prime n = 1 \<and> (\<forall>m. unat n < unat m \<longrightarrow> \<not> is_prime m))"
proof (induction n rule: next_prime.induct)
  case (1 n)
  show ?case
  proof (cases "n + 1 = 0")
    case True
    then have max: "\<not> unat n < unat m" for m :: u32
      by unat_arith
    have "next_prime n = 1"
      using True by (subst next_prime.simps) (simp add: next_prime.simps [of 0])
    then show ?thesis using max by simp
  next
    case False
    then have suc: "unat (n + 1) = Suc (unat n)" by unat_arith
    show ?thesis
    proof (cases "is_prime (n + 1)")
      case True
      then show ?thesis using suc by (subst (1 2 3 4) next_prime.simps) auto
    next
      case rej: False
      have eq: "next_prime n = next_prime (n + 1)" using rej by (simp add: next_prime.simps [of n])
      have "\<not> is_prime m" if "unat m = Suc (unat n)" for m
        using that suc rej by (metis word_unat_eq_iff)
      then show ?thesis using "1.IH" [OF rej] unfolding eq suc
        by (metis Suc_lessD Suc_lessI)
    qed
  qed
qed

function double_prime_loop :: "u32 \<Rightarrow> u32" where
  "double_prime_loop k =
     (if is_prime (next_prime k * 2 + 1) then next_prime k * 2 + 1
      else double_prime_loop (next_prime k))"
  by pat_completeness auto

lemma is_prime_29: "is_prime 29"
  by code_simp

lemma is_prime_59: "is_prime 59"
  by code_simp

lemma next_prime_towards_29:
  "next_prime k = 29 \<or> unat (28 - next_prime k) < unat (28 - k)"
proof (induction k rule: next_prime.induct)
  case (1 k)
  have step: "k + 1 = 29 \<or> unat (28 - (k + 1)) < unat (28 - k)"
  proof (cases "k = 28")
    case False
    then have "28 - k \<noteq> 0" by simp
    then have "unat (28 - k - 1) < unat (28 - k)" by unat_arith
    moreover have "28 - (k + 1) = 28 - k - 1" by simp
    ultimately show ?thesis by (simp only: simp_thms)
  qed simp
  show ?case
  proof (cases "is_prime (k + 1)")
    case True
    then have "next_prime k = k + 1" by (simp add: next_prime.simps [of k])
    with step show ?thesis by simp
  next
    case False
    then have "next_prime k = next_prime (k + 1)" by (simp add: next_prime.simps [of k])
    moreover have "k + 1 \<noteq> 29" using False is_prime_29 by auto
    ultimately show ?thesis using "1.IH" [OF False] step by auto
  qed
qed

termination double_prime_loop
proof (relation "measure (\<lambda>k. unat (28 - k))")
  fix k :: u32
  assume "\<not> is_prime (next_prime k * 2 + 1)"
  then have "next_prime k \<noteq> 29" using is_prime_59 by auto
  then show "(next_prime k, k) \<in> measure (\<lambda>k. unat (28 - k))"
    using next_prime_towards_29 [of k] by simp
qed simp

declare double_prime_loop.simps [simp del]

definition find_double_prime :: "u32 \<Rightarrow> u32" where
  "find_double_prime n = double_prime_loop (n div 2)"

lemma double_prime_loop_is_prime:
  "\<exists>p. is_prime p \<and> double_prime_loop k = p * 2 + 1 \<and> is_prime (double_prime_loop k)"
proof (induction k rule: double_prime_loop.induct)
  case (1 k)
  show ?case
  proof (cases "is_prime (next_prime k * 2 + 1)")
    case True
    then show ?thesis using next_prime_spec [of k] double_prime_loop.simps [of k] by auto
  next
    case False
    then show ?thesis using "1.IH" double_prime_loop.simps [of k] by simp
  qed
qed

text \<open>
  C1. \<open>is_prime\<close> is exact above 23 and on the numbers below accepts only 1: the table of
  small divisors makes it reject 2, 3, 5, 7, 11, 13, 17, 19 and 23.
\<close>

theorem is_prime_correct:
  "is_prime n \<longleftrightarrow> unat n = 1 \<or> prime_nat (unat n) \<and> 23 < unat n"
  using is_prime_imp prime_imp_is_prime is_prime_1 by (metis unat_1 word_unat_eq_iff)

end
