(* ===== verification/LtMap.thy ===== *)
theory LtMap
  imports LtUtil
begin

text \<open>
  lstruct.h, lmap.h and lmap.cpp: values, nodes and the chained hash map that a lighttable
  keeps its entries in. A bucket is the list of its nodes in the order of their \<open>next\<close>
  pointers; chains are owned by one map and never shared.
\<close>

section \<open>Values and nodes\<close>

datatype lt_type = LT_NIL | LT_NUMBER | LT_BOOLEAN | LT_UD | LT_STRING | LT_TABLE

text \<open>
  The union of a \<open>value\<close>, as the member that was written last; \<open>P_none\<close> is a union that
  no member of was written.
\<close>

datatype payload = P_none | P_n double | P_b u32 | P_ud addr | P_s addr

record lt_value =
  v_ref :: int
  v_type :: lt_type
  v_v :: payload

text \<open>
  \<open>key_type\<close> with the member of the node it selects: a string slot of the node's own, or an
  \<open>int\<close>.
\<close>

datatype nkey = NStr string_slot | NNum u32

record node =
  n_key :: nkey
  n_v :: lt_value

record lmap =
  m_ref :: int
  m_size :: nat
  m_data :: "node list list"
  m_index :: int

section \<open>Operations of lmap.cpp\<close>

definition init_data :: "nat \<Rightarrow> node list list" where
  "init_data n = replicate n []"

definition lmap_new :: "nat \<Rightarrow> lmap" where
  "lmap_new n = \<lparr>m_ref = 1, m_size = n, m_data = init_data n, m_index = 0\<rparr>"

text \<open>\<open>n->numkey = sz\<close> cuts the \<open>size_t\<close> to an \<open>int\<close>.\<close>

fun new_nkey :: "lkey \<Rightarrow> nkey" where
  "new_nkey (StrKey key) = NStr (new_string key)"
| "new_nkey (NumKey sz) = NNum (ucast sz)"

definition new_node :: "lkey \<Rightarrow> lt_type \<Rightarrow> node" where
  "new_node k type = \<lparr>n_key = new_nkey k, n_v = \<lparr>v_ref = 0, v_type = type, v_v = P_none\<rparr>\<rparr>"

text \<open>\<open>pn->numkey == sz\<close> compares an \<open>int\<close> with a \<open>size_t\<close>, by sign extension.\<close>

fun is_in_hash :: "lkey \<Rightarrow> nkey \<Rightarrow> bool" where
  "is_in_hash (StrKey key) (NStr s) = cmp_string s key"
| "is_in_hash (NumKey sz) (NNum i) = ((scast i :: u64) = sz)"
| "is_in_hash _ _ = False"

definition bucket :: "lmap \<Rightarrow> lkey \<Rightarrow> nat" where
  "bucket m k = unat (hash k (of_nat (m_size m)))"

text \<open>
  \<open>_search\<close> writes to \<open>*result\<close>: the whole value of the node it finds, or only the type
  \<open>LT_NIL\<close>.
\<close>

fun search_chain :: "lkey \<Rightarrow> node list \<Rightarrow> node option" where
  "search_chain k [] = None"
| "search_chain k (n # ns) = (if is_in_hash k (n_key n) then Some n else search_chain k ns)"

definition search :: "lmap \<Rightarrow> lkey \<Rightarrow> lt_value \<Rightarrow> lt_value" where
  "search m k result =
     (case search_chain k (m_data m ! bucket m k) of
        Some n \<Rightarrow> n_v n
      | None \<Rightarrow> result\<lparr>v_type := LT_NIL\<rparr>)"

text \<open>
  \<open>_insert_value\<close> walks the chain counting its steps in \<open>depth\<close>. On a node with the key it
  replaces the union but neither the type nor the reference count, and returns the type; at
  the end of the chain it links a new node. The third component says whether it did.
\<close>

fun insert_chain :: "lkey \<Rightarrow> lt_value \<Rightarrow> node list \<Rightarrow> nat \<Rightarrow> node list \<times> lt_type \<times> bool \<times> nat" where
  "insert_chain k v [] depth =
     ([(new_node k (v_type v))\<lparr>n_v := v\<lparr>v_ref := 1\<rparr>\<rparr>], LT_NIL, True, depth)"
| "insert_chain k v (n # ns) depth =
     (if is_in_hash k (n_key n) then
        (n\<lparr>n_v := (n_v n)\<lparr>v_v := v_v v\<rparr>\<rparr> # ns, v_type (n_v n), False, depth)
      else
        let (ns', type, new, depth') = insert_chain k v ns (Suc depth)
        in (n # ns', type, new, depth'))"

definition insert_value :: "lmap \<Rightarrow> lkey \<Rightarrow> lt_value \<Rightarrow> nat \<Rightarrow> lmap \<times> lt_type \<times> nat" where
  "insert_value m k v depth =
     (let h = bucket m k;
          (ns, type, new, depth') = insert_chain k v (m_data m ! h) depth
      in (m\<lparr>m_data := (m_data m)[h := ns],
            m_index := (if new then m_index m + 1 else m_index m)\<rparr>, type, depth'))"

text \<open>
  \<open>_insert_node\<close> links a node with a copy of \<open>*v\<close> at the head of its chain and then counts
  the new reference on the original: the second component is \<open>*v\<close> afterwards.
\<close>

fun nkey_arg :: "nkey \<Rightarrow> lkey" where
  "nkey_arg (NStr s) = StrKey (take (unat (scast (ss_sz s) :: u64)) (ss_buf s))"
| "nkey_arg (NNum i) = NumKey (scast i)"

definition insert_node :: "lmap \<Rightarrow> nkey \<Rightarrow> lt_value \<Rightarrow> lmap \<times> lt_value" where
  "insert_node m nk v =
     (let k = nkey_arg nk; h = bucket m k;
          n = (new_node k (v_type v))\<lparr>n_v := v\<rparr>
      in (m\<lparr>m_data := (m_data m)[h := n # m_data m ! h]\<rparr>, v\<lparr>v_ref := v_ref v + 1\<rparr>))"

fun copy_chain :: "lmap \<Rightarrow> node list \<Rightarrow> lmap \<times> node list" where
  "copy_chain m [] = (m, [])"
| "copy_chain m (n # ns) =
     (let (m', v') = insert_node m (n_key n) (n_v n);
          (m'', ns') = copy_chain m' ns
      in (m'', n\<lparr>n_v := v'\<rparr> # ns'))"

fun copy_buckets :: "lmap \<Rightarrow> node list list \<Rightarrow> lmap \<times> node list list" where
  "copy_buckets m [] = (m, [])"
| "copy_buckets m (ns # nss) =
     (let (m', ns') = copy_chain m ns;
          (m'', nss') = copy_buckets m' nss
      in (m'', ns' # nss'))"

text \<open>\<open>this->_copy_map(cm)\<close>: both maps afterwards.\<close>

definition copy_map :: "lmap \<Rightarrow> lmap \<Rightarrow> lmap \<times> lmap" where
  "copy_map m cm =
     (let (m', data') = copy_buckets m (m_data cm) in (m', cm\<lparr>m_data := data'\<rparr>))"

text \<open>
  \<open>_delete_without_data\<close> clears the values whose count is 1, in the order of buckets and
  chains; the values it hands to \<open>_clear_value\<close> are these.
\<close>

definition values_to_clear :: "lmap \<Rightarrow> lt_value list" where
  "values_to_clear m = filter (\<lambda>v. v_ref v = 1) (map n_v (concat (m_data m)))"

text \<open>\<open>(index / size) >= HALF\<close> with \<open>HALF\<close> 0.5: the division is on integers.\<close>

definition is_over_half :: "lmap \<Rightarrow> bool" where
  "is_over_half m \<longleftrightarrow> 2 * (m_index m div int (m_size m)) \<ge> 1"

section \<open>Well-formed maps and the entries they stand for\<close>

text \<open>
  The keys a node can represent: strings whose length is an \<open>int\<close>, and numbers that survive
  the way from \<open>size_t\<close> to \<open>int\<close> and back.
\<close>

fun okkey :: "lkey \<Rightarrow> bool" where
  "okkey (StrKey key) = (length key < 2 ^ 31)"
| "okkey (NumKey sz) = ((scast (ucast sz :: u32) :: u64) = sz)"

definition wf_nkey :: "nkey \<Rightarrow> bool" where
  "wf_nkey nk \<longleftrightarrow> okkey (nkey_arg nk) \<and> nk = new_nkey (nkey_arg nk)"

abbreviation node_arg :: "node \<Rightarrow> lkey" where
  "node_arg n \<equiv> nkey_arg (n_key n)"

definition wf_chain :: "lmap \<Rightarrow> nat \<Rightarrow> node list \<Rightarrow> bool" where
  "wf_chain m i ns \<longleftrightarrow>
     (\<forall>n \<in> set ns. wf_nkey (n_key n) \<and> bucket m (node_arg n) = i) \<and>
     distinct (map node_arg ns)"

definition wf_map :: "lmap \<Rightarrow> bool" where
  "wf_map m \<longleftrightarrow> 0 < m_size m \<and> m_size m < 2 ^ 31 \<and> length (m_data m) = m_size m \<and>
     (\<forall>i < m_size m. wf_chain m i (m_data m ! i))"

definition entry :: "node \<Rightarrow> lt_type \<times> payload" where
  "entry n = (v_type (n_v n), v_v (n_v n))"

definition lookup :: "lmap \<Rightarrow> lkey \<Rightarrow> (lt_type \<times> payload) option" where
  "lookup m k = map_option entry (search_chain k (m_data m ! bucket m k))"

text \<open>What \<open>_insert_value\<close> leaves of an entry: the old type with the new union.\<close>

fun merge_entry :: "(lt_type \<times> payload) option \<Rightarrow> lt_type \<times> payload \<Rightarrow> lt_type \<times> payload" where
  "merge_entry None e = e"
| "merge_entry (Some (type, _)) (_, p) = (type, p)"

lemma unat_scast_of_nat:
  assumes "n < 2 ^ 31"
  shows "(scast (of_nat n :: u32) :: u64) = of_nat n"
  using assms by (simp add: scast_eq sint_of_nat_small)

lemma nkey_arg_new_nkey [simp]: "okkey k \<Longrightarrow> nkey_arg (new_nkey k) = k"
  by (cases k) (simp_all add: new_string_def unat_scast_of_nat unat_of_nat_small)

lemma wf_new_nkey [simp]: "okkey k \<Longrightarrow> wf_nkey (new_nkey k)"
  by (simp add: wf_nkey_def)

lemma okkey_nkey_arg_NNum [simp]: "ucast (scast (i :: u32) :: u64) = i"
  by (rule bit_word_eqI) (simp add: bit_simps)

lemma is_in_hash_iff:
  assumes "wf_nkey nk"
  shows "is_in_hash k nk \<longleftrightarrow> nkey_arg nk = k"
proof (cases "nkey_arg nk")
  case (StrKey name)
  then have nk: "nk = NStr (new_string name)" and len: "length name < 2 ^ 31"
    using assms by (auto simp: wf_nkey_def)
  have "cmp_string (new_string name) key \<longleftrightarrow> name = key" for key
  proof
    assume c: "cmp_string (new_string name) key"
    then have tk: "take (length key) (name @ [0]) = key"
      and sz: "(of_nat (length name) :: u64) = of_nat (length key)"
      using len by (simp_all add: cmp_string_def new_string_def unat_scast_of_nat)
    have "length key \<le> length name + 1" using arg_cong [OF tk, of length] by simp
    then have "length name = length key"
      using arg_cong [OF sz, of unat] len by (simp add: unat_of_nat_small)
    with tk show "name = key" by simp
  qed (use len in \<open>simp add: cmp_string_def new_string_def unat_scast_of_nat\<close>)
  then show ?thesis using nk StrKey by (cases k) auto
next
  case (NumKey sz)
  then show ?thesis by (cases k; cases nk) auto
qed

lemma search_chain_Some_iff:
  "\<forall>n \<in> set ns. wf_nkey (n_key n) \<Longrightarrow> distinct (map node_arg ns) \<Longrightarrow>
    search_chain k ns = Some n \<longleftrightarrow> n \<in> set ns \<and> node_arg n = k"
  by (induction ns) (auto simp: is_in_hash_iff)

lemma search_chain_None_iff:
  "\<forall>n \<in> set ns. wf_nkey (n_key n) \<Longrightarrow>
    search_chain k ns = None \<longleftrightarrow> k \<notin> node_arg ` set ns"
  by (induction ns) (auto simp: is_in_hash_iff)

lemma bucket_cong: "m_size m' = m_size m \<Longrightarrow> bucket m' = bucket m"
  by (simp add: bucket_def fun_eq_iff)

lemma bucket_less: "wf_map m \<Longrightarrow> bucket m k < m_size m"
  by (simp add: wf_map_def bucket_def hash_less)

lemma wf_map_chain: "wf_map m \<Longrightarrow> i < m_size m \<Longrightarrow> wf_chain m i (m_data m ! i)"
  by (simp add: wf_map_def)

lemma wf_map_new: "0 < n \<Longrightarrow> n < 2 ^ 31 \<Longrightarrow> wf_map (lmap_new n)"
  by (simp add: wf_map_def lmap_new_def init_data_def wf_chain_def)

lemma lookup_new: "0 < n \<Longrightarrow> n < 2 ^ 31 \<Longrightarrow> lookup (lmap_new n) k = None"
  using bucket_less [OF wf_map_new, of n k]
  by (simp add: lookup_def lmap_new_def init_data_def)

text \<open>\<open>_search\<close> reports exactly the entry.\<close>

lemma search_lookup:
  "lookup m k = Some (t, p) \<Longrightarrow> v_type (search m k r) = t \<and> v_v (search m k r) = p"
  "lookup m k = None \<Longrightarrow> search m k r = r\<lparr>v_type := LT_NIL\<rparr>"
  by (auto simp: lookup_def search_def entry_def)

section \<open>Insertion\<close>

lemma insert_chain_spec:
  assumes "\<forall>n \<in> set ns. wf_nkey (n_key n)" and "okkey k"
    and "insert_chain k v ns d = (ns', type, new, d')"
  shows "map node_arg ns' = map node_arg ns @ (if k \<in> node_arg ` set ns then [] else [k])"
    and "\<forall>n \<in> set ns'. wf_nkey (n_key n)"
    and "map_option entry (search_chain k ns') =
           Some (merge_entry (map_option entry (search_chain k ns)) (v_type v, v_v v))"
    and "k' \<noteq> k \<Longrightarrow> search_chain k' ns' = search_chain k' ns"
    and "type = (case search_chain k ns of None \<Rightarrow> LT_NIL | Some n \<Rightarrow> v_type (n_v n))"
    and "new \<longleftrightarrow> search_chain k ns = None"
    and "d' = d + length (takeWhile (\<lambda>n. node_arg n \<noteq> k) ns)"
proof -
  have "map node_arg ns' = map node_arg ns @ (if k \<in> node_arg ` set ns then [] else [k]) \<and>
    (\<forall>n \<in> set ns'. wf_nkey (n_key n)) \<and>
    map_option entry (search_chain k ns') =
      Some (merge_entry (map_option entry (search_chain k ns)) (v_type v, v_v v)) \<and>
    (\<forall>k'. k' \<noteq> k \<longrightarrow> search_chain k' ns' = search_chain k' ns) \<and>
    type = (case search_chain k ns of None \<Rightarrow> LT_NIL | Some n \<Rightarrow> v_type (n_v n)) \<and>
    (new \<longleftrightarrow> search_chain k ns = None) \<and>
    d' = d + length (takeWhile (\<lambda>n. node_arg n \<noteq> k) ns)"
    using assms(1,3)
  proof (induction ns arbitrary: ns' type new d d')
    case Nil
    then show ?case using assms(2)
      by (auto simp: new_node_def entry_def is_in_hash_iff)
  next
    case (Cons n ns)
    have wfn: "wf_nkey (n_key n)" and wfs: "\<forall>n \<in> set ns. wf_nkey (n_key n)"
      using Cons.prems(1) by auto
    show ?case
    proof (cases "node_arg n = k")
      case True
      with Cons.prems wfn wfs show ?thesis
        by (auto simp: is_in_hash_iff entry_def)
    next
      case False
      obtain ns1 t1 new1 d1 where rec: "insert_chain k v ns (Suc d) = (ns1, t1, new1, d1)"
        by (metis prod_cases4)
      have eqs: "ns' = n # ns1" "type = t1" "new = new1" "d' = d1"
        using Cons.prems(2) rec False wfn by (simp_all add: is_in_hash_iff)
      show ?thesis
        unfolding eqs using Cons.IH [OF wfs rec] False wfn by (simp add: is_in_hash_iff)
    qed
  qed
  then show "map node_arg ns' = map node_arg ns @ (if k \<in> node_arg ` set ns then [] else [k])"
    and "\<forall>n \<in> set ns'. wf_nkey (n_key n)"
    and "map_option entry (search_chain k ns') =
           Some (merge_entry (map_option entry (search_chain k ns)) (v_type v, v_v v))"
    and "k' \<noteq> k \<Longrightarrow> search_chain k' ns' = search_chain k' ns"
    and "type = (case search_chain k ns of None \<Rightarrow> LT_NIL | Some n \<Rightarrow> v_type (n_v n))"
    and "new \<longleftrightarrow> search_chain k ns = None"
    and "d' = d + length (takeWhile (\<lambda>n. node_arg n \<noteq> k) ns)"
    by simp_all
qed

lemma lookup_upd_chain:
  assumes "wf_map m" and "m_size m' = m_size m"
    and "m_data m' = (m_data m)[bucket m k := ns]"
  shows "lookup m' k' = map_option entry (search_chain k'
           (if bucket m k' = bucket m k then ns else m_data m ! bucket m k'))"
  using assms bucket_less [OF assms(1), of k] bucket_cong [OF assms(2)]
  by (simp add: lookup_def wf_map_def nth_list_update)

lemma wf_map_upd_chain:
  assumes "wf_map m" and "m_size m' = m_size m"
    and "m_data m' = (m_data m)[bucket m k := ns]"
    and "wf_chain m (bucket m k) ns"
  shows "wf_map m'"
proof -
  have "wf_chain m' i (m_data m' ! i)" if i: "i < m_size m" for i
    using assms(1,3,4) i bucket_cong [OF assms(2)]
    by (cases "i = bucket m k") (simp_all add: wf_map_def wf_chain_def)
  then show ?thesis using assms(1-3) by (simp add: wf_map_def)
qed

lemma insert_value_spec:
  assumes "wf_map m" and "okkey k" and "insert_value m k v d = (m', type, d')"
  shows "wf_map m'"
    and "lookup m' k' =
           (if k' = k then Some (merge_entry (lookup m k) (v_type v, v_v v)) else lookup m k')"
    and "type = (case lookup m k of None \<Rightarrow> LT_NIL | Some (t, _) \<Rightarrow> t)"
    and "m_size m' = m_size m" and "m_ref m' = m_ref m"
proof -
  let ?ns = "m_data m ! bucket m k"
  obtain ns' new where ins: "insert_chain k v ?ns d = (ns', type, new, d')"
    and m': "m' = m\<lparr>m_data := (m_data m)[bucket m k := ns'],
                  m_index := (if new then m_index m + 1 else m_index m)\<rparr>"
    using assms(3) by (auto simp: insert_value_def Let_def split: prod.splits)
  have wf: "wf_chain m (bucket m k) ?ns"
    using assms(1) bucket_less by (blast intro: wf_map_chain)
  then have keys: "\<forall>n \<in> set ?ns. wf_nkey (n_key n)" by (simp add: wf_chain_def)
  note spec = insert_chain_spec [OF keys assms(2) ins]
  have "wf_chain m (bucket m k) ns'"
  proof -
    have "distinct (map node_arg ns')"
      using spec(1) wf by (auto simp: wf_chain_def)
    moreover have "bucket m (node_arg n) = bucket m k" if "n \<in> set ns'" for n
    proof -
      have "node_arg n \<in> set (map node_arg ns')" using that by simp
      then have "node_arg n \<in> set (map node_arg ?ns) \<union> {k}"
        unfolding spec(1) by (auto split: if_splits)
      then show ?thesis using wf by (auto simp: wf_chain_def)
    qed
    ultimately show ?thesis using spec(2) by (simp add: wf_chain_def)
  qed
  then show "wf_map m'"
    using wf_map_upd_chain [OF assms(1)] m' by simp
  show "lookup m' k' =
          (if k' = k then Some (merge_entry (lookup m k) (v_type v, v_v v)) else lookup m k')"
    using lookup_upd_chain [OF assms(1), of m' k ns' k'] m' spec(3,4)
    by (simp add: lookup_def)
  show "type = (case lookup m k of None \<Rightarrow> LT_NIL | Some (t, _) \<Rightarrow> t)"
    using spec(5) by (simp add: lookup_def entry_def split: option.splits)
  show "m_size m' = m_size m" and "m_ref m' = m_ref m" using m' by simp_all
qed

text \<open>The map provides the keyed container.\<close>

definition put :: "lmap \<Rightarrow> lkey \<Rightarrow> lt_type \<times> payload \<Rightarrow> lmap" where
  "put m k e = fst (insert_value m k \<lparr>v_ref = 0, v_type = fst e, v_v = snd e\<rparr> 0)"

lemma put_spec:
  assumes "wf_map m" and "okkey k"
  shows "wf_map (put m k e)"
    and "lookup (put m k e) k' = (if k' = k then Some (merge_entry (lookup m k) e) else lookup m k')"
proof -
  let ?v = "\<lparr>v_ref = 0, v_type = fst e, v_v = snd e\<rparr>"
  obtain m' ty d where ins: "insert_value m k ?v 0 = (m', ty, d)" by (metis prod_cases3)
  show "wf_map (put m k e)"
    and "lookup (put m k e) k' = (if k' = k then Some (merge_entry (lookup m k) e) else lookup m k')"
    using insert_value_spec [OF assms ins] by (simp_all add: put_def ins)
qed

interpretation lmap: keyed_container lookup put merge_entry wf_map okkey
  by unfold_locales (simp_all add: put_spec)

section \<open>Copying into a larger map\<close>

lemma insert_node_spec:
  assumes "wf_map m" and "wf_nkey nk" and "lookup m (nkey_arg nk) = None"
    and "insert_node m nk v = (m', v')"
  shows "wf_map m'"
    and "lookup m' k = (if k = nkey_arg nk then Some (v_type v, v_v v) else lookup m k)"
    and "m_size m' = m_size m" and "m_ref m' = m_ref m"
    and "v' = v\<lparr>v_ref := v_ref v + 1\<rparr>"
proof -
  define a where "a = nkey_arg nk"
  define n where "n = (new_node a (v_type v))\<lparr>n_v := v\<rparr>"
  let ?ns = "m_data m ! bucket m a"
  have m': "m' = m\<lparr>m_data := (m_data m)[bucket m a := n # ?ns]\<rparr>"
    and v': "v' = v\<lparr>v_ref := v_ref v + 1\<rparr>"
    using assms(4) by (auto simp: insert_node_def a_def n_def Let_def)
  have a: "okkey a" "new_nkey a = nk" using assms(2) by (auto simp: wf_nkey_def a_def)
  then have n: "n_key n = nk" "entry n = (v_type v, v_v v)"
    by (simp_all add: n_def new_node_def entry_def)
  have wf: "wf_chain m (bucket m a) ?ns"
    using assms(1) bucket_less by (blast intro: wf_map_chain)
  then have "\<forall>n \<in> set ?ns. wf_nkey (n_key n)" by (simp add: wf_chain_def)
  then have fresh: "a \<notin> node_arg ` set ?ns"
    using assms(3) by (simp add: lookup_def a_def search_chain_None_iff)
  have "wf_chain m (bucket m a) (n # ?ns)"
    using wf fresh n a assms(2) by (auto simp: wf_chain_def a_def)
  then show "wf_map m'"
    using wf_map_upd_chain [OF assms(1), of m' a "n # ?ns"] m' by simp
  show "lookup m' k = (if k = nkey_arg nk then Some (v_type v, v_v v) else lookup m k)"
    using lookup_upd_chain [OF assms(1), of m' a "n # ?ns" k] m' n assms(2)
    by (auto simp: lookup_def is_in_hash_iff a_def)
  show "m_size m' = m_size m" "m_ref m' = m_ref m" using m' by simp_all
  show "v' = v\<lparr>v_ref := v_ref v + 1\<rparr>" by (rule v')
qed

definition bump_node :: "node \<Rightarrow> node" where
  "bump_node n = n\<lparr>n_v := (n_v n)\<lparr>v_ref := v_ref (n_v n) + 1\<rparr>\<rparr>"

lemma copy_chain_spec:
  assumes "wf_map m" and "\<forall>n \<in> set ns. wf_nkey (n_key n)" and "distinct (map node_arg ns)"
    and "\<forall>n \<in> set ns. lookup m (node_arg n) = None"
    and "copy_chain m ns = (m', ns')"
  shows "wf_map m' \<and> m_size m' = m_size m \<and> m_ref m' = m_ref m \<and> ns' = map bump_node ns \<and>
    (\<forall>k. lookup m' k =
      (case search_chain k ns of Some n \<Rightarrow> Some (entry n) | None \<Rightarrow> lookup m k))"
  using assms
proof (induction ns arbitrary: m m' ns')
  case Nil
  then show ?case by simp
next
  case (Cons n ns)
  obtain m1 v1 where ins: "insert_node m (n_key n) (n_v n) = (m1, v1)" by force
  obtain m2 ns2 where cp: "copy_chain m1 ns = (m2, ns2)" by force
  have eqs: "m' = m2" "ns' = n\<lparr>n_v := v1\<rparr> # ns2"
    using Cons.prems(5) ins cp by auto
  note spec = insert_node_spec [OF Cons.prems(1) _ _ ins]
  have wfn: "wf_nkey (n_key n)" and none: "lookup m (node_arg n) = None"
    using Cons.prems by auto
  have rest: "\<forall>n' \<in> set ns. lookup m1 (node_arg n') = None"
  proof
    fix n' assume "n' \<in> set ns"
    then have "node_arg n' \<noteq> node_arg n" using Cons.prems(3) by (auto simp: image_iff)
    with \<open>n' \<in> set ns\<close> show "lookup m1 (node_arg n') = None"
      using Cons.prems(4) by (simp add: spec(2) [OF wfn none])
  qed
  have IH: "wf_map m2 \<and> m_size m2 = m_size m1 \<and> m_ref m2 = m_ref m1 \<and> ns2 = map bump_node ns \<and>
    (\<forall>k. lookup m2 k =
      (case search_chain k ns of Some n \<Rightarrow> Some (entry n) | None \<Rightarrow> lookup m1 k))"
    using Cons.IH [OF spec(1) [OF wfn none] _ _ rest cp] Cons.prems by simp
  have notin: "search_chain (node_arg n) ns = None"
    using Cons.prems(2,3) by (subst search_chain_None_iff) auto
  show ?case
    using IH spec(2-5) [OF wfn none] eqs notin wfn
    by (auto simp: bump_node_def is_in_hash_iff entry_def split: option.splits)
qed

lemma copy_buckets_spec:
  assumes "wf_map m" and "\<forall>n \<in> set (concat nss). wf_nkey (n_key n)"
    and "distinct (map node_arg (concat nss))"
    and "\<forall>n \<in> set (concat nss). lookup m (node_arg n) = None"
    and "copy_buckets m nss = (m', nss')"
  shows "wf_map m' \<and> m_size m' = m_size m \<and> m_ref m' = m_ref m \<and>
    nss' = map (map bump_node) nss \<and>
    (\<forall>k. lookup m' k =
      (case search_chain k (concat nss) of Some n \<Rightarrow> Some (entry n) | None \<Rightarrow> lookup m k))"
  using assms
proof (induction nss arbitrary: m m' nss')
  case Nil
  then show ?case by simp
next
  case (Cons ns nss)
  obtain m1 ns1 where c1: "copy_chain m ns = (m1, ns1)" by force
  obtain m2 nss2 where c2: "copy_buckets m1 nss = (m2, nss2)" by force
  have eqs: "m' = m2" "nss' = ns1 # nss2" using Cons.prems(5) c1 c2 by auto
  have s1: "wf_map m1 \<and> m_size m1 = m_size m \<and> m_ref m1 = m_ref m \<and> ns1 = map bump_node ns \<and>
    (\<forall>k. lookup m1 k =
      (case search_chain k ns of Some n \<Rightarrow> Some (entry n) | None \<Rightarrow> lookup m k))"
    using Cons.prems by (intro copy_chain_spec [OF _ _ _ _ c1]) auto
  have disj: "search_chain (node_arg n) ns = None" if "n \<in> set (concat nss)" for n
    using Cons.prems(2,3) that by (subst search_chain_None_iff) auto
  have s2: "wf_map m2 \<and> m_size m2 = m_size m1 \<and> m_ref m2 = m_ref m1 \<and>
    nss2 = map (map bump_node) nss \<and>
    (\<forall>k. lookup m2 k =
      (case search_chain k (concat nss) of Some n \<Rightarrow> Some (entry n) | None \<Rightarrow> lookup m1 k))"
    using Cons.prems s1 disj by (intro Cons.IH [OF _ _ _ _ c2]) auto
  have app: "search_chain k (ns @ ms) =
      (case search_chain k ns of Some n \<Rightarrow> Some n | None \<Rightarrow> search_chain k ms)" for k ms
    by (induction ns) auto
  have notin: "search_chain k (concat nss) = None" if "search_chain k ns = Some n" for k n
  proof (rule ccontr)
    assume "search_chain k (concat nss) \<noteq> None"
    then have "k \<in> node_arg ` set (concat nss)"
      using Cons.prems(2) by (subst (asm) search_chain_None_iff) auto
    then obtain n' where "n' \<in> set (concat nss)" "k = node_arg n'" by blast
    then show False using disj [of n'] that by simp
  qed
  show ?case
    using s1 s2 eqs notin by (auto simp: app split: option.splits)
qed

lemma wf_map_nodes:
  assumes "wf_map m"
  shows "\<forall>n \<in> set (concat (m_data m)). wf_nkey (n_key n)"
    and "distinct (map node_arg (concat (m_data m)))"
proof -
  have chain: "wf_chain m i (m_data m ! i)" if "i < length (m_data m)" for i
    using assms that by (simp add: wf_map_def)
  then show "\<forall>n \<in> set (concat (m_data m)). wf_nkey (n_key n)"
    by (fastforce simp: wf_chain_def in_set_conv_nth)
  have "distinct (concat (map (map node_arg) (m_data m)))"
    by (rule distinct_concat_tagged [where tag = "bucket m" and c = 0])
      (use chain in \<open>auto simp: wf_chain_def\<close>)
  then show "distinct (map node_arg (concat (m_data m)))" by (simp add: map_concat)
qed

lemma lookup_concat:
  assumes "wf_map m"
  shows "lookup m k = map_option entry (search_chain k (concat (m_data m)))"
proof -
  note nodes = wf_map_nodes [OF assms]
  have sz: "length (m_data m) = m_size m" using assms by (simp add: wf_map_def)
  let ?c = "m_data m ! bucket m k"
  have chain: "wf_chain m i (m_data m ! i)" if "i < m_size m" for i
    using assms that by (rule wf_map_chain)
  have c: "wf_chain m (bucket m k) ?c" using chain bucket_less [OF assms] by simp
  have "search_chain k ?c = search_chain k (concat (m_data m))"
  proof (cases "search_chain k (concat (m_data m))")
    case None
    then have "k \<notin> node_arg ` set (concat (m_data m))"
      using search_chain_None_iff [OF nodes(1)] by blast
    then have "k \<notin> node_arg ` set ?c"
      using bucket_less [OF assms, of k] sz nth_mem by fastforce
    then have "search_chain k ?c = None"
      using c by (subst search_chain_None_iff) (auto simp: wf_chain_def)
    then show ?thesis using None by simp
  next
    case (Some n)
    then have n: "n \<in> set (concat (m_data m))" "node_arg n = k"
      using search_chain_Some_iff [OF nodes] by blast+
    then obtain ns where "ns \<in> set (m_data m)" "n \<in> set ns" by auto
    then obtain i where i: "i < m_size m" "n \<in> set (m_data m ! i)"
      using sz by (metis in_set_conv_nth)
    then have "i = bucket m k" using chain n(2) by (auto simp: wf_chain_def)
    with i n(2) c have "search_chain k ?c = Some n"
      by (subst search_chain_Some_iff) (auto simp: wf_chain_def)
    then show ?thesis using Some by simp
  qed
  then show ?thesis by (simp add: lookup_def)
qed

lemma copy_map_spec:
  assumes "wf_map cm" and "0 < n" and "n < 2 ^ 31" and "copy_map (lmap_new n) cm = (m', cm')"
  shows "wf_map m'" and "lookup m' k = lookup cm k" and "m_size m' = n" and "m_ref m' = 1"
    and "cm' = cm\<lparr>m_data := map (map bump_node) (m_data cm)\<rparr>"
proof -
  obtain data' where cp: "copy_buckets (lmap_new n) (m_data cm) = (m', data')"
    and cm': "cm' = cm\<lparr>m_data := data'\<rparr>"
    using assms(4) by (auto simp: copy_map_def split: prod.splits)
  have "wf_map m' \<and> m_size m' = m_size (lmap_new n) \<and> m_ref m' = m_ref (lmap_new n) \<and>
    data' = map (map bump_node) (m_data cm) \<and>
    (\<forall>k. lookup m' k = (case search_chain k (concat (m_data cm)) of
        Some n \<Rightarrow> Some (entry n) | None \<Rightarrow> lookup (lmap_new n) k))"
    using assms(2,3) wf_map_nodes [OF assms(1)]
    by (intro copy_buckets_spec [OF _ _ _ _ cp]) (auto simp: wf_map_new lookup_new)
  then show "wf_map m'" "lookup m' k = lookup cm k" "m_size m' = n" "m_ref m' = 1"
    "cm' = cm\<lparr>m_data := map (map bump_node) (m_data cm)\<rparr>"
    using assms(2,3) cm' lookup_concat [OF assms(1)]
    by (auto simp: lmap_new_def lookup_new [simplified lmap_new_def] split: option.splits)
qed

section \<open>Reference counts of the values\<close>

definition refs_one :: "lmap \<Rightarrow> bool" where
  "refs_one m \<longleftrightarrow> list_all (list_all (\<lambda>n. v_ref (n_v n) = 1)) (m_data m)"

lemma refs_one_new: "refs_one (lmap_new n)"
  by (simp add: refs_one_def lmap_new_def init_data_def list_all_iff)

lemma insert_chain_refs:
  "list_all (\<lambda>n. v_ref (n_v n) = 1) ns \<Longrightarrow>
    list_all (\<lambda>n. v_ref (n_v n) = 1) (fst (insert_chain k v ns d))"
  by (induction ns arbitrary: d) (auto split: prod.splits, metis fst_conv)

lemma list_all_update:
  "list_all P xs \<Longrightarrow> P x \<Longrightarrow> list_all P (xs[i := x])"
  by (auto simp: list_all_iff dest: set_update_subset_insert [THEN subsetD])

lemma insert_value_refs:
  assumes "wf_map m" and "refs_one m"
  shows "refs_one (fst (insert_value m k v d))"
proof -
  have "list_all (\<lambda>n. v_ref (n_v n) = 1) (m_data m ! bucket m k)"
    using assms bucket_less [OF assms(1), of k]
    by (simp add: refs_one_def list_all_length wf_map_def)
  then show ?thesis
    using assms(2) insert_chain_refs [of "m_data m ! bucket m k" k v d]
    by (auto simp: refs_one_def insert_value_def Let_def list_all_update split: prod.splits)
qed

lemma insert_node_refs:
  assumes "wf_map m" and "refs_one m" and "v_ref v = 1"
  shows "refs_one (fst (insert_node m nk v))"
proof -
  have "list_all (\<lambda>n. v_ref (n_v n) = 1) (m_data m ! bucket m (nkey_arg nk))"
    using assms bucket_less [OF assms(1)]
    by (simp add: refs_one_def list_all_length wf_map_def)
  then show ?thesis
    using assms(2,3) by (auto simp: refs_one_def insert_node_def Let_def list_all_update)
qed

text \<open>Old nodes own nothing once their values were copied.\<close>

lemma values_to_clear_bumped:
  assumes "refs_one m"
  shows "values_to_clear (m\<lparr>m_data := map (map bump_node) (m_data m)\<rparr>) = []"
  using assms
  by (auto simp: values_to_clear_def refs_one_def bump_node_def filter_empty_conv list_all_iff)

lemma copy_chain_refs:
  assumes "wf_map m" and "refs_one m" and "\<forall>n \<in> set ns. wf_nkey (n_key n) \<and> v_ref (n_v n) = 1"
    and "distinct (map node_arg ns)" and "\<forall>n \<in> set ns. lookup m (node_arg n) = None"
  shows "refs_one (fst (copy_chain m ns))"
  using assms
proof (induction ns arbitrary: m)
  case Nil
  then show ?case by simp
next
  case (Cons n ns)
  obtain m1 v1 where ins: "insert_node m (n_key n) (n_v n) = (m1, v1)" by force
  have n: "wf_nkey (n_key n)" "v_ref (n_v n) = 1" "lookup m (node_arg n) = None"
    using Cons.prems by auto
  note spec = insert_node_spec [OF Cons.prems(1) n(1,3) ins]
  have "refs_one m1" using insert_node_refs [OF Cons.prems(1,2) n(2), of "n_key n"] ins by simp
  moreover have "\<forall>n' \<in> set ns. lookup m1 (node_arg n') = None"
    using Cons.prems(4,5) by (auto simp: spec(2) image_iff)
  ultimately have "refs_one (fst (copy_chain m1 ns))"
    using Cons.IH [OF spec(1)] Cons.prems(3,4) by simp
  then show ?case using ins by (simp add: case_prod_beta)
qed

lemma copy_buckets_refs:
  assumes "wf_map m" and "refs_one m"
    and "\<forall>n \<in> set (concat nss). wf_nkey (n_key n) \<and> v_ref (n_v n) = 1"
    and "distinct (map node_arg (concat nss))"
    and "\<forall>n \<in> set (concat nss). lookup m (node_arg n) = None"
  shows "refs_one (fst (copy_buckets m nss))"
  using assms
proof (induction nss arbitrary: m)
  case Nil
  then show ?case by simp
next
  case (Cons ns nss)
  obtain m1 ns1 where c1: "copy_chain m ns = (m1, ns1)" by force
  have ns: "\<forall>n \<in> set ns. wf_nkey (n_key n)" "distinct (map node_arg ns)"
    "\<forall>n \<in> set ns. lookup m (node_arg n) = None"
    using Cons.prems by auto
  have s1: "wf_map m1 \<and> (\<forall>k. lookup m1 k =
      (case search_chain k ns of Some n \<Rightarrow> Some (entry n) | None \<Rightarrow> lookup m k))"
    using copy_chain_spec [OF Cons.prems(1) ns c1] by blast
  have r1: "refs_one m1"
    using copy_chain_refs [OF Cons.prems(1,2) _ ns(2,3)] Cons.prems(3) c1 by simp
  have "lookup m1 (node_arg n) = None" if "n \<in> set (concat nss)" for n
  proof -
    have "search_chain (node_arg n) ns = None"
      using Cons.prems(4) ns(1) that by (subst search_chain_None_iff) auto
    then show ?thesis using s1 Cons.prems(5) that by simp
  qed
  then have "refs_one (fst (copy_buckets m1 nss))"
    using Cons.IH [of m1] s1 r1 Cons.prems(3,4) by simp
  then show ?case using c1 by (simp add: case_prod_beta)
qed

lemma copy_map_refs:
  assumes "wf_map cm" and "refs_one cm" and "0 < n" and "n < 2 ^ 31"
  shows "refs_one (fst (copy_map (lmap_new n) cm))"
proof -
  have "\<forall>n \<in> set (concat (m_data cm)). wf_nkey (n_key n) \<and> v_ref (n_v n) = 1"
    using assms(2) wf_map_nodes(1) [OF assms(1)] by (auto simp: refs_one_def list_all_iff)
  then have "refs_one (fst (copy_buckets (lmap_new n) (m_data cm)))"
    using assms wf_map_nodes(2) [OF assms(1)]
    by (intro copy_buckets_refs) (simp_all add: wf_map_new refs_one_new lookup_new)
  then show ?thesis by (simp add: copy_map_def case_prod_beta)
qed

section \<open>Keys that do not fit\<close>

lemma insert_chain_miss:
  "\<forall>n \<in> set ns. \<not> is_in_hash k (n_key n) \<Longrightarrow>
    insert_chain k v ns d =
      (ns @ [(new_node k (v_type v))\<lparr>n_v := v\<lparr>v_ref := 1\<rparr>\<rparr>], LT_NIL, True, d + length ns)"
  by (induction ns arbitrary: d) auto

lemma search_chain_miss:
  "\<forall>n \<in> set ns. \<not> is_in_hash k (n_key n) \<Longrightarrow> search_chain k ns = None"
  by (induction ns) auto

lemma unfit_number_misses:
  assumes "wf_map m" and "\<not> okkey (NumKey i)" and "n \<in> set (m_data m ! bucket m (NumKey i))"
  shows "\<not> is_in_hash (NumKey i) (n_key n)"
proof -
  have "wf_nkey (n_key n)"
    using assms(3) wf_map_chain [OF assms(1) bucket_less [OF assms(1)]]
    by (simp add: wf_chain_def)
  moreover have "node_arg n \<noteq> NumKey i"
    using calculation assms(2) by (auto simp: wf_nkey_def)
  ultimately show ?thesis by (simp add: is_in_hash_iff)
qed

section \<open>Properties\<close>

text \<open>
  \<open>_insert_value\<close> refines a finite map: it keeps the map well-formed, returns the type of
  the entry that was there, stores a new entry with the given type and value, leaves every
  other key as it was, and on an existing entry replaces the value under the old type.
\<close>

theorem insert_value_refines:
  assumes "wf_map m" and "okkey k" and "insert_value m k v d = (m', type, d')"
  shows "wf_map m' \<and> lookup m' = (lookup m)(k \<mapsto> merge_entry (lookup m k) (v_type v, v_v v)) \<and>
    type = (case lookup m k of None \<Rightarrow> LT_NIL | Some (t, _) \<Rightarrow> t)"
  using insert_value_spec [OF assms] by auto

theorem insert_value_refines_witness:
  "lookup (fst (insert_value (lmap_new 29) (NumKey 7) \<lparr>v_ref = 0, v_type = LT_BOOLEAN, v_v = P_b 1\<rparr> 0))
     (NumKey 7) = Some (LT_BOOLEAN, P_b 1)"
proof -
  let ?v = "\<lparr>v_ref = 0, v_type = LT_BOOLEAN, v_v = P_b 1\<rparr>"
  obtain m' t d' where ins: "insert_value (lmap_new 29) (NumKey 7) ?v 0 = (m', t, d')"
    by (metis prod_cases3)
  have "wf_map (lmap_new 29)" "okkey (NumKey 7)" by (simp_all add: wf_map_new)
  from insert_value_refines [OF this ins] show ?thesis using ins by (simp add: lookup_new)
qed

text \<open>
  Expansion copies a map without loss: into a new map of any size that is an \<open>int\<close>, every
  key has the entry it had; and when the old map is then deleted it clears none of the values
  the new one refers to.
\<close>

theorem copy_map_refines:
  assumes "wf_map cm" and "refs_one cm" and "0 < n" and "n < 2 ^ 31"
    and "copy_map (lmap_new n) cm = (m', cm')"
  shows "wf_map m' \<and> refs_one m' \<and> m_size m' = n \<and> lookup m' = lookup cm \<and>
    values_to_clear cm' = []"
  using copy_map_spec [OF assms(1,3-5)] copy_map_refs [OF assms(1-4)] assms(5)
    values_to_clear_bumped [OF assms(2)]
  by auto

theorem copy_map_refines_witness:
  "values_to_clear (snd (copy_map (lmap_new 58) (lmap_new 29))) = [] \<and>
   lookup (fst (copy_map (lmap_new 58) (lmap_new 29))) (NumKey 3) = None"
proof -
  obtain m' cm' where cp: "copy_map (lmap_new 58) (lmap_new 29) = (m', cm')" by force
  have "wf_map (lmap_new 29)" by (simp add: wf_map_new)
  from copy_map_refines [OF this refs_one_new _ _ cp] show ?thesis
    using cp by (simp add: lookup_new)
qed



end
