(* ===== verification/LtTable.thy ===== *)
theory LtTable
  imports LtMap
begin

text \<open>
  lighttable.h, lighttable.cpp and the value functions of ltutil.cpp: tables, their maps and
  their strings in an explicit store, as one thread at a time runs them. The interleavings
  of several threads are in the theory of concurrent readers.
\<close>

section \<open>The store\<close>

record lstring =
  ls_lock :: int
  ls_slot :: addr

record table =
  t_ref :: int
  t_lock :: int
  t_map_lock :: int
  t_map :: addr

record store =
  st_slots :: "addr \<rightharpoonup> string_slot"
  st_lstrs :: "addr \<rightharpoonup> lstring"
  st_maps :: "addr \<rightharpoonup> lmap"
  st_tables :: "addr \<rightharpoonup> table"
  st_next :: addr

definition empty_store :: store where
  "empty_store = \<lparr>st_slots = Map.empty, st_lstrs = Map.empty, st_maps = Map.empty,
     st_tables = Map.empty, st_next = 1\<rparr>"

text \<open>Addresses are given out in order and never again, so a freed address stays free.\<close>

definition alloc_slot :: "store \<Rightarrow> string_slot \<Rightarrow> store \<times> addr" where
  "alloc_slot s x = (s\<lparr>st_slots := (st_slots s)(st_next s \<mapsto> x), st_next := Suc (st_next s)\<rparr>, st_next s)"

definition alloc_lstr :: "store \<Rightarrow> lstring \<Rightarrow> store \<times> addr" where
  "alloc_lstr s x = (s\<lparr>st_lstrs := (st_lstrs s)(st_next s \<mapsto> x), st_next := Suc (st_next s)\<rparr>, st_next s)"

definition alloc_map :: "store \<Rightarrow> lmap \<Rightarrow> store \<times> addr" where
  "alloc_map s x = (s\<lparr>st_maps := (st_maps s)(st_next s \<mapsto> x), st_next := Suc (st_next s)\<rparr>, st_next s)"

definition alloc_table :: "store \<Rightarrow> table \<Rightarrow> store \<times> addr" where
  "alloc_table s x = (s\<lparr>st_tables := (st_tables s)(st_next s \<mapsto> x), st_next := Suc (st_next s)\<rparr>, st_next s)"

definition put_slot :: "store \<Rightarrow> addr \<Rightarrow> string_slot \<Rightarrow> store" where
  "put_slot s a x = s\<lparr>st_slots := (st_slots s)(a \<mapsto> x)\<rparr>"

definition put_lstr :: "store \<Rightarrow> addr \<Rightarrow> lstring \<Rightarrow> store" where
  "put_lstr s a x = s\<lparr>st_lstrs := (st_lstrs s)(a \<mapsto> x)\<rparr>"

definition put_map :: "store \<Rightarrow> addr \<Rightarrow> lmap \<Rightarrow> store" where
  "put_map s a x = s\<lparr>st_maps := (st_maps s)(a \<mapsto> x)\<rparr>"

definition put_table :: "store \<Rightarrow> addr \<Rightarrow> table \<Rightarrow> store" where
  "put_table s a x = s\<lparr>st_tables := (st_tables s)(a \<mapsto> x)\<rparr>"

definition free_slot :: "store \<Rightarrow> addr \<Rightarrow> store result" where
  "free_slot s a = rbind (deref (st_slots s) a) (\<lambda>_. Inr (s\<lparr>st_slots := (st_slots s)(a := None)\<rparr>))"

definition free_lstr :: "store \<Rightarrow> addr \<Rightarrow> store result" where
  "free_lstr s a = rbind (deref (st_lstrs s) a) (\<lambda>_. Inr (s\<lparr>st_lstrs := (st_lstrs s)(a := None)\<rparr>))"

definition free_map :: "store \<Rightarrow> addr \<Rightarrow> store result" where
  "free_map s a = rbind (deref (st_maps s) a) (\<lambda>_. Inr (s\<lparr>st_maps := (st_maps s)(a := None)\<rparr>))"

definition free_table :: "store \<Rightarrow> addr \<Rightarrow> store result" where
  "free_table s a = rbind (deref (st_tables s) a) (\<lambda>_. Inr (s\<lparr>st_tables := (st_tables s)(a := None)\<rparr>))"

section \<open>Destruction: \_clear\_value, the destructors and \_release\<close>

text \<open>
  \<open>rel\<close> is \<open>table::_release\<close>, which \<open>_clear_value\<close> calls on a user-datum value; the knot is
  tied in \<open>release\<close> below.
\<close>

definition clear_value :: "(store \<Rightarrow> addr \<Rightarrow> store result) \<Rightarrow> store \<Rightarrow> lt_value \<Rightarrow> store result" where
  "clear_value rel s v =
     (case v_type v of
        LT_STRING \<Rightarrow>
          (case v_v v of
             P_s a \<Rightarrow> rbind (deref (st_lstrs s) a) (\<lambda>ls.
               rbind (free_slot s (ls_slot ls)) (\<lambda>s. free_lstr s a))
           | _ \<Rightarrow> Inl UnionMismatch)
      | LT_UD \<Rightarrow> (case v_v v of P_ud t \<Rightarrow> rel s t | _ \<Rightarrow> Inl UnionMismatch)
      | _ \<Rightarrow> Inr s)"

fun clear_values :: "(store \<Rightarrow> addr \<Rightarrow> store result) \<Rightarrow> store \<Rightarrow> lt_value list \<Rightarrow> store result" where
  "clear_values rel s [] = Inr s"
| "clear_values rel s (v # vs) = rbind (clear_value rel s v) (\<lambda>s. clear_values rel s vs)"

definition delete_map :: "(store \<Rightarrow> addr \<Rightarrow> store result) \<Rightarrow> store \<Rightarrow> addr \<Rightarrow> store result" where
  "delete_map rel s a =
     rbind (deref (st_maps s) a) (\<lambda>m.
     rbind (clear_values rel s (values_to_clear m)) (\<lambda>s. free_map s a))"

definition destroy_table :: "(store \<Rightarrow> addr \<Rightarrow> store result) \<Rightarrow> store \<Rightarrow> addr \<Rightarrow> store result" where
  "destroy_table rel s t =
     rbind (deref (st_tables s) t) (\<lambda>tb.
     let s = put_table s t (tb\<lparr>t_ref := 0, t_lock := 0, t_map_lock := 0\<rparr>)
     in rbind (delete_map rel s (t_map tb)) (\<lambda>s. free_table s t))"

text \<open>
  The fuel bounds the nesting of \<open>_release\<close> calls. A table is destroyed when its count
  reaches 0 and the destructor starts by setting it to 0, so no table is entered twice and
  \<open>st_next\<close> levels are always enough.
\<close>

fun release_fuel :: "nat \<Rightarrow> store \<Rightarrow> addr \<Rightarrow> store result" where
  "release_fuel 0 s t = Inl OutOfFuel"
| "release_fuel (Suc fuel) s t =
     rbind (deref (st_tables s) t) (\<lambda>tb.
     let ref = t_ref tb - 1; s = put_table s t (tb\<lparr>t_ref := ref\<rparr>)
     in if ref \<noteq> 0 then Inr s else destroy_table (release_fuel fuel) s t)"

definition release :: "store \<Rightarrow> addr \<Rightarrow> store result" where
  "release s t = release_fuel (Suc (st_next s)) s t"

definition delete_table :: "store \<Rightarrow> addr \<Rightarrow> store result" where
  "delete_table s t = destroy_table release s t"

definition grab :: "store \<Rightarrow> addr \<Rightarrow> store result" where
  "grab s t = rbind (deref (st_tables s) t) (\<lambda>tb.
     Inr (put_table s t (tb\<lparr>t_ref := t_ref tb + 1\<rparr>)))"

text \<open>
  \<open>_copy_value\<close>: \<open>tv\<close> gets the union of \<open>ov\<close>, a table with one more reference, a string with
  a buffer of its own; the type is the caller's to copy.
\<close>

definition copy_value :: "store \<Rightarrow> lt_value \<Rightarrow> lt_value \<Rightarrow> (store \<times> lt_value) result" where
  "copy_value s ov tv =
     (case v_type ov of
        LT_NUMBER \<Rightarrow> (case v_v ov of P_n n \<Rightarrow> Inr (s, tv\<lparr>v_v := P_n n\<rparr>) | _ \<Rightarrow> Inl UnionMismatch)
      | LT_BOOLEAN \<Rightarrow> (case v_v ov of P_b b \<Rightarrow> Inr (s, tv\<lparr>v_v := P_b b\<rparr>) | _ \<Rightarrow> Inl UnionMismatch)
      | LT_UD \<Rightarrow> (case v_v ov of
            P_ud t \<Rightarrow> rbind (grab s t) (\<lambda>s. Inr (s, tv\<lparr>v_v := P_ud t\<rparr>))
          | _ \<Rightarrow> Inl UnionMismatch)
      | LT_STRING \<Rightarrow> (case v_v ov of
            P_s a \<Rightarrow>
              rbind (deref (st_lstrs s) a) (\<lambda>ls.
              rbind (deref (st_slots s) (ls_slot ls)) (\<lambda>ss.
              let str = take (unat (scast (ss_sz ss) :: u64)) (ss_buf ss);
                  (s, slot) = alloc_slot s (new_string str);
                  (s, ls') = alloc_lstr s \<lparr>ls_lock = 0, ls_slot = slot\<rparr>
              in Inr (s, tv\<lparr>v_v := P_s ls'\<rparr>)))
          | _ \<Rightarrow> Inl UnionMismatch)
      | _ \<Rightarrow> Inr (s, tv))"

definition getref :: "store \<Rightarrow> addr \<Rightarrow> int result" where
  "getref s t = rbind (deref (st_tables s) t) (\<lambda>tb. Inr (t_ref tb))"

section \<open>Construction\<close>

definition DEFAULT_SIZE :: u32 where
  "DEFAULT_SIZE = 4"

definition MAX_HASH_DEPTH :: nat where
  "MAX_HASH_DEPTH = 7"

definition table_new :: "store \<Rightarrow> store \<times> addr" where
  "table_new s =
     (let (s, m) = alloc_map s (lmap_new (unat (next_prime DEFAULT_SIZE)))
      in alloc_table s \<lparr>t_ref = 1, t_lock = 0, t_map_lock = 0, t_map = m\<rparr>)"

section \<open>Locks and the map of a table\<close>

text \<open>
  \<open>while (__sync_lock_test_and_set(&l, 1)) {}\<close> with no other thread running: it takes a free
  lock and spins for ever on a taken one.
\<close>

definition table_lock :: "store \<Rightarrow> addr \<Rightarrow> store result" where
  "table_lock s t = rbind (deref (st_tables s) t) (\<lambda>tb.
     if t_lock tb \<noteq> 0 then Inl Spins else Inr (put_table s t (tb\<lparr>t_lock := 1\<rparr>)))"

definition table_unlock :: "store \<Rightarrow> addr \<Rightarrow> store result" where
  "table_unlock s t = rbind (deref (st_tables s) t) (\<lambda>tb.
     Inr (put_table s t (tb\<lparr>t_lock := 0\<rparr>)))"

definition map_lock :: "store \<Rightarrow> addr \<Rightarrow> store result" where
  "map_lock s t = rbind (deref (st_tables s) t) (\<lambda>tb.
     if t_map_lock tb \<noteq> 0 then Inl Spins else Inr (put_table s t (tb\<lparr>t_map_lock := 1\<rparr>)))"

definition map_unlock :: "store \<Rightarrow> addr \<Rightarrow> store result" where
  "map_unlock s t = rbind (deref (st_tables s) t) (\<lambda>tb.
     Inr (put_table s t (tb\<lparr>t_map_lock := 0\<rparr>)))"

definition grab_map :: "store \<Rightarrow> addr \<Rightarrow> (store \<times> addr) result" where
  "grab_map s t =
     rbind (map_lock s t) (\<lambda>s.
     rbind (deref (st_tables s) t) (\<lambda>tb.
     rbind (deref (st_maps s) (t_map tb)) (\<lambda>m.
     let ref = m_ref m + 1 in
     guard_assert (ref > 1)
       (rbind (map_unlock (put_map s (t_map tb) (m\<lparr>m_ref := ref\<rparr>)) t) (\<lambda>s.
        Inr (s, t_map tb))))))"

text \<open>
  \<open>_release_map(m)\<close> reads the count of \<open>m\<close> and writes it, one less, to the current map of the
  table: \<open>map->_set_ref(ref)\<close>.
\<close>

definition release_map :: "store \<Rightarrow> addr \<Rightarrow> addr \<Rightarrow> store result" where
  "release_map s t a =
     rbind (deref (st_maps s) a) (\<lambda>m.
     let ref = m_ref m - 1 in
     rbind (deref (st_tables s) t) (\<lambda>tb.
     rbind (deref (st_maps s) (t_map tb)) (\<lambda>cur.
     let s = put_map s (t_map tb) (cur\<lparr>m_ref := ref\<rparr>) in
     if ref \<noteq> 0 then Inr s else delete_map release s a)))"

definition update_map :: "store \<Rightarrow> addr \<Rightarrow> addr \<Rightarrow> store result" where
  "update_map s t a =
     rbind (map_lock s t) (\<lambda>s.
     rbind (deref (st_tables s) t) (\<lambda>tb.
     let old = t_map tb; s = put_table s t (tb\<lparr>t_map := a\<rparr>) in
     rbind (deref (st_maps s) old) (\<lambda>m.
     let ref = m_ref m - 1 in
     rbind (map_unlock s t) (\<lambda>s.
     if ref = 0 then delete_map release s old else Inr s))))"

definition expand_hash :: "store \<Rightarrow> addr \<Rightarrow> store result" where
  "expand_hash s t =
     rbind (deref (st_tables s) t) (\<lambda>tb.
     rbind (deref (st_maps s) (t_map tb)) (\<lambda>old.
     let new_size = m_size old * 2;
         (m, old') = copy_map (lmap_new new_size) old;
         (s, a) = alloc_map (put_map s (t_map tb) old') m
     in update_map s t a))"

section \<open>Search and insertion\<close>

text \<open>A \<open>struct value\<close> that was declared and not initialised.\<close>

definition uninit_value :: lt_value where
  "uninit_value = \<lparr>v_ref = 0, v_type = LT_NIL, v_v = P_none\<rparr>"

text \<open>
  \<open>_search_map\<close> searches again when the map was replaced meanwhile, which only another
  thread can do: the first pass is the last one (\<open>search_table_quiet\<close> below).
\<close>

fun search_map_fuel :: "nat \<Rightarrow> store \<Rightarrow> addr \<Rightarrow> lkey \<Rightarrow> lt_value \<Rightarrow> (store \<times> lt_value) result" where
  "search_map_fuel 0 s t k result = Inl OutOfFuel"
| "search_map_fuel (Suc fuel) s t k result =
     rbind (grab_map s t) (\<lambda>(s, a).
     rbind (deref (st_maps s) a) (\<lambda>m.
     let result = search m k result in
     rbind (release_map s t a) (\<lambda>s.
     rbind (deref (st_tables s) t) (\<lambda>tb.
     if a \<noteq> t_map tb then search_map_fuel fuel s t k result else Inr (s, result)))))"

definition search_table :: "store \<Rightarrow> addr \<Rightarrow> lkey \<Rightarrow> lt_value \<Rightarrow> (store \<times> lt_value) result" where
  "search_table s t k result = search_map_fuel 1 s t k result"

definition insert_map_value :: "store \<Rightarrow> addr \<Rightarrow> lkey \<Rightarrow> lt_value \<Rightarrow> (store \<times> lt_type) result" where
  "insert_map_value s t k v =
     rbind (deref (st_tables s) t) (\<lambda>tb.
     rbind (deref (st_maps s) (t_map tb)) (\<lambda>m.
     let (m', ret, depth) = insert_value m k v 0;
         s = put_map s (t_map tb) m'
     in if depth \<ge> MAX_HASH_DEPTH then rbind (expand_hash s t) (\<lambda>s. Inr (s, ret))
        else Inr (s, ret)))"

definition insert_table :: "store \<Rightarrow> addr \<Rightarrow> lkey \<Rightarrow> lt_value \<Rightarrow> (store \<times> lt_type) result" where
  "insert_table s t k v =
     rbind (table_lock s t) (\<lambda>s.
     rbind (insert_map_value s t k v) (\<lambda>(s, type).
     rbind (table_unlock s t) (\<lambda>s. Inr (s, type))))"

section \<open>Getters\<close>

text \<open>The type of an entry and its union, copied out with \<open>memcpy\<close>.\<close>

definition get_type :: "store \<Rightarrow> addr \<Rightarrow> lkey \<Rightarrow> (store \<times> lt_type \<times> payload) result" where
  "get_type s t k =
     rbind (search_table s t k uninit_value) (\<lambda>(s, tmp). Inr (s, v_type tmp, v_v tmp))"

definition grab_string :: "store \<Rightarrow> addr \<Rightarrow> (store \<times> addr) result" where
  "grab_string s a =
     rbind (deref (st_lstrs s) a) (\<lambda>ls.
     if ls_lock ls \<noteq> 0 then Inl Spins else
     let s = put_lstr s a (ls\<lparr>ls_lock := 1\<rparr>) in
     rbind (deref (st_slots s) (ls_slot ls)) (\<lambda>ss.
     let ref = ss_ref ss + 1; s = put_slot s (ls_slot ls) (ss\<lparr>ss_ref := ref\<rparr>) in
     guard_assert (ref > 1)
       (Inr (put_lstr s a (ls\<lparr>ls_lock := 0\<rparr>), ls_slot ls))))"

definition release_string :: "store \<Rightarrow> addr \<Rightarrow> store result" where
  "release_string s a =
     rbind (deref (st_slots s) a) (\<lambda>ss.
     let ref = ss_ref ss - 1; s = put_slot s a (ss\<lparr>ss_ref := ref\<rparr>)
     in if ref \<noteq> 0 then Inr s else free_slot s a)"

text \<open>\<open>value_string\<close> hands the bytes of the string to its callback: they are the result here.\<close>

definition value_string :: "store \<Rightarrow> payload \<Rightarrow> (store \<times> bytes) result" where
  "value_string s v =
     (case v of
        P_s a \<Rightarrow>
          rbind (grab_string s a) (\<lambda>(s, slot).
          rbind (deref (st_slots s) slot) (\<lambda>ss.
          rbind (release_string s slot) (\<lambda>s.
          Inr (s, take (unat (scast (ss_sz ss) :: u64)) (ss_buf ss)))))
      | _ \<Rightarrow> Inl UnionMismatch)"

text \<open>The union members; \<open>None\<close> is the indeterminate value of a union nobody wrote.\<close>

fun read_n :: "payload \<Rightarrow> double option result" where
  "read_n (P_n d) = Inr (Some d)"
| "read_n P_none = Inr None"
| "read_n _ = Inl UnionMismatch"

fun read_b :: "payload \<Rightarrow> u32 option result" where
  "read_b (P_b b) = Inr (Some b)"
| "read_b P_none = Inr None"
| "read_b _ = Inl UnionMismatch"

fun read_ud :: "payload \<Rightarrow> addr option result" where
  "read_ud (P_ud a) = Inr (Some a)"
| "read_ud P_none = Inr None"
| "read_ud _ = Inl UnionMismatch"

definition get_number :: "store \<Rightarrow> addr \<Rightarrow> lkey \<Rightarrow> (store \<times> double option) result" where
  "get_number s t k =
     rbind (search_table s t k uninit_value) (\<lambda>(s, tmp).
     guard_assert (v_type tmp = LT_NIL \<or> v_type tmp = LT_NUMBER)
       (rbind (read_n (v_v tmp)) (\<lambda>n. Inr (s, n))))"

definition get_boolean :: "store \<Rightarrow> addr \<Rightarrow> lkey \<Rightarrow> (store \<times> u32 option) result" where
  "get_boolean s t k =
     rbind (search_table s t k uninit_value) (\<lambda>(s, tmp).
     guard_assert (v_type tmp = LT_NIL \<or> v_type tmp = LT_BOOLEAN)
       (rbind (read_b (v_v tmp)) (\<lambda>b. Inr (s, b))))"

definition get_ud :: "store \<Rightarrow> addr \<Rightarrow> lkey \<Rightarrow> (store \<times> addr option) result" where
  "get_ud s t k =
     rbind (search_table s t k uninit_value) (\<lambda>(s, tmp).
     guard_assert (v_type tmp = LT_NIL \<or> v_type tmp = LT_UD)
       (rbind (read_ud (v_v tmp)) (\<lambda>u. Inr (s, u))))"

text \<open>The string the returned pointer points to, terminating zero included.\<close>

definition get_string :: "store \<Rightarrow> addr \<Rightarrow> lkey \<Rightarrow> (store \<times> bytes) result" where
  "get_string s t k =
     rbind (search_table s t k uninit_value) (\<lambda>(s, tmp).
     if v_type tmp = LT_STRING then
       (case v_v tmp of
          P_s a \<Rightarrow>
            rbind (grab_string s a) (\<lambda>(s, slot).
            rbind (release_string s slot) (\<lambda>s.
            rbind (deref (st_slots s) slot) (\<lambda>ss. Inr (s, ss_buf ss))))
        | _ \<Rightarrow> Inl UnionMismatch)
     else guard_assert (v_type tmp = LT_NIL) (Inr (s, [0])))"

section \<open>Setters\<close>

text \<open>A setter returns 0, here \<open>False\<close>, for success.\<close>

definition set_number :: "store \<Rightarrow> addr \<Rightarrow> lkey \<Rightarrow> double \<Rightarrow> (store \<times> bool) result" where
  "set_number s t k n =
     rbind (insert_table s t k (uninit_value\<lparr>v_type := LT_NUMBER, v_v := P_n n\<rparr>))
       (\<lambda>(s, type). Inr (s, type \<noteq> LT_NUMBER \<and> type \<noteq> LT_NIL))"

definition set_boolean :: "store \<Rightarrow> addr \<Rightarrow> lkey \<Rightarrow> u32 \<Rightarrow> (store \<times> bool) result" where
  "set_boolean s t k b =
     rbind (insert_table s t k (uninit_value\<lparr>v_type := LT_BOOLEAN, v_v := P_b b\<rparr>))
       (\<lambda>(s, type). Inr (s, type \<noteq> LT_BOOLEAN \<and> type \<noteq> LT_NIL))"

definition set_ud :: "store \<Rightarrow> addr \<Rightarrow> lkey \<Rightarrow> addr \<Rightarrow> (store \<times> bool) result" where
  "set_ud s t k ud =
     rbind (insert_table s t k (uninit_value\<lparr>v_type := LT_UD, v_v := P_ud ud\<rparr>))
       (\<lambda>(s, type). Inr (s, type \<noteq> LT_UD \<and> type \<noteq> LT_NIL))"

definition update_string :: "store \<Rightarrow> addr \<Rightarrow> bytes \<Rightarrow> store result" where
  "update_string s a ustr =
     (let (s, ns) = alloc_slot s (new_string ustr) in
      rbind (deref (st_lstrs s) a) (\<lambda>str.
      if ls_lock str \<noteq> 0 then Inl Spins else
      let old = ls_slot str in
      rbind (deref (st_slots s) old) (\<lambda>ss.
      let ref = ss_ref ss - 1;
          s = put_slot s old (ss\<lparr>ss_ref := ref\<rparr>);
          s = put_lstr s a \<lparr>ls_lock = 0, ls_slot = ns\<rparr>
      in if ref = 0 then free_slot s old else Inr s)))"

definition set_string :: "store \<Rightarrow> addr \<Rightarrow> lkey \<Rightarrow> bytes \<Rightarrow> (store \<times> bool) result" where
  "set_string s t k str =
     rbind (search_table s t k uninit_value) (\<lambda>(s, tmp).
     if v_type tmp = LT_STRING then
       (case v_v tmp of
          P_s a \<Rightarrow> rbind (update_string s a str) (\<lambda>s. Inr (s, False))
        | _ \<Rightarrow> Inl UnionMismatch)
     else if v_type tmp \<noteq> LT_NIL then Inr (s, True)
     else
       let (s, slot) = alloc_slot s (new_string str);
           (s, ls) = alloc_lstr s \<lparr>ls_lock = 0, ls_slot = slot\<rparr>
       in rbind (insert_table s t k (tmp\<lparr>v_type := LT_STRING, v_v := P_s ls\<rparr>))
            (\<lambda>(s, type). Inr (s, False)))"

section \<open>Size and keys\<close>

definition table_size :: "store \<Rightarrow> addr \<Rightarrow> (store \<times> nat) result" where
  "table_size s t =
     rbind (grab_map s t) (\<lambda>(s, a).
     rbind (deref (st_maps s) a) (\<lambda>m.
     rbind (release_map s t a) (\<lambda>s.
     Inr (s, m_size m * MAX_HASH_DEPTH))))"

record table_key =
  tk_type :: lt_type
  tk_key :: lkey

text \<open>\<open>cap-1\<close> is a \<open>size_t\<close>: for \<open>cap = 0\<close> it is the largest one.\<close>

definition keys_limit :: "nat \<Rightarrow> nat" where
  "keys_limit cap = (if cap = 0 then 2 ^ 64 - 1 else cap - 1)"

fun keys_chain :: "nat \<Rightarrow> node list \<Rightarrow> table_key list \<Rightarrow> bool \<times> table_key list" where
  "keys_chain limit [] vv = (False, vv)"
| "keys_chain limit (n # ns) vv =
     (if length vv \<ge> limit then (True, vv)
      else keys_chain limit ns
             (vv @ [\<lparr>tk_type = v_type (n_v n), tk_key = nkey_arg (n_key n)\<rparr>]))"

fun keys_buckets :: "nat \<Rightarrow> node list list \<Rightarrow> table_key list \<Rightarrow> table_key list" where
  "keys_buckets limit [] vv = vv"
| "keys_buckets limit (ns # nss) vv =
     (let (full, vv) = keys_chain limit ns vv
      in if full then vv else keys_buckets limit nss vv)"

text \<open>The first keys of the array \<open>vv\<close>, as many as the returned count.\<close>

definition keys :: "store \<Rightarrow> addr \<Rightarrow> nat \<Rightarrow> (store \<times> table_key list) result" where
  "keys s t cap =
     rbind (grab_map s t) (\<lambda>(s, a).
     rbind (deref (st_maps s) a) (\<lambda>m.
     let vv = keys_buckets (keys_limit cap) (m_data m) [] in
     rbind (release_map s t a) (\<lambda>s. Inr (s, vv))))"

section \<open>Readers leave the store as it was\<close>

named_theorems store_simps

lemmas [store_simps] =
  put_slot_def put_lstr_def put_map_def put_table_def
  alloc_slot_def alloc_lstr_def alloc_map_def alloc_table_def

lemma table_field_triv [simp]:
  "t_map_lock tb = 0 \<Longrightarrow> tb\<lparr>t_map_lock := 0\<rparr> = tb"
  "t_lock tb = 0 \<Longrightarrow> tb\<lparr>t_lock := 0\<rparr> = tb"
  by (cases tb; simp)+

lemma lstring_field_triv [simp]: "ls_lock l = 0 \<Longrightarrow> l\<lparr>ls_lock := 0\<rparr> = l"
  by (cases l) simp

lemma slot_ref_triv [simp]: "ss\<lparr>ss_ref := ss_ref ss\<rparr> = ss"
  by (cases ss) simp

lemma map_ref_triv [simp]: "m\<lparr>m_ref := m_ref m\<rparr> = m"
  by (cases m) simp

lemma store_upd_triv [simp]:
  "st_slots s a = Some x \<Longrightarrow> s\<lparr>st_slots := (st_slots s)(a \<mapsto> x)\<rparr> = s"
  "st_lstrs s a = Some l \<Longrightarrow> s\<lparr>st_lstrs := (st_lstrs s)(a \<mapsto> l)\<rparr> = s"
  "st_maps s a = Some m \<Longrightarrow> s\<lparr>st_maps := (st_maps s)(a \<mapsto> m)\<rparr> = s"
  "st_tables s a = Some t \<Longrightarrow> s\<lparr>st_tables := (st_tables s)(a \<mapsto> t)\<rparr> = s"
  by (cases s; simp add: map_upd_triv)+

text \<open>
  A table whose map nobody is using: the map lock is free and only the table refers to the
  map.
\<close>

definition quiet :: "store \<Rightarrow> addr \<Rightarrow> table \<Rightarrow> lmap \<Rightarrow> bool" where
  "quiet s t tb m \<longleftrightarrow> st_tables s t = Some tb \<and> t_map_lock tb = 0 \<and>
     st_maps s (t_map tb) = Some m \<and> m_ref m = 1"

lemma grab_map_quiet:
  assumes "quiet s t tb m"
  shows "grab_map s t = Inr (put_map s (t_map tb) (m\<lparr>m_ref := 2\<rparr>), t_map tb)"
  using assms
  by (cases s) (simp add: quiet_def grab_map_def map_lock_def map_unlock_def Let_def store_simps
      deref_Some map_upd_triv)

lemma release_map_quiet:
  assumes "quiet s t tb m"
  shows "release_map (put_map s (t_map tb) (m\<lparr>m_ref := 2\<rparr>)) t (t_map tb) = Inr s"
proof -
  have "m\<lparr>m_ref := 1\<rparr> = m" using assms by (cases m) (simp add: quiet_def)
  then show ?thesis using assms
    by (simp add: quiet_def release_map_def Let_def store_simps deref_Some)
qed

lemma search_table_quiet:
  assumes "quiet s t tb m"
  shows "search_table s t k r = Inr (s, search m k r)"
  unfolding search_table_def One_nat_def search_map_fuel.simps grab_map_quiet [OF assms]
    rbind_simps prod.case
  using assms release_map_quiet [OF assms]
  by (simp add: quiet_def put_map_def deref_Some search_def bucket_def)

section \<open>Insertion, with and without expansion\<close>

lemma expand_hash_quiet:
  assumes q: "quiet s t tb m" and "wf_map m" and "refs_one m" and "m_size m * 2 < 2 ^ 31"
    and fresh: "st_maps s (st_next s) = None"
  shows "\<exists>m'. expand_hash s t = Inr (s\<lparr>
        st_maps := (st_maps s)(st_next s \<mapsto> m', t_map tb := None),
        st_tables := (st_tables s)(t \<mapsto> tb\<lparr>t_map := st_next s\<rparr>),
        st_next := Suc (st_next s)\<rparr>) \<and>
      wf_map m' \<and> refs_one m' \<and> lookup m' = lookup m \<and> m_ref m' = 1 \<and>
      m_size m' = m_size m * 2"
proof -
  obtain m' old' where cp: "copy_map (lmap_new (m_size m * 2)) m = (m', old')" by force
  have pos: "0 < m_size m * 2" using assms(2) by (simp add: wf_map_def)
  note spec = copy_map_spec [OF assms(2) pos assms(4) cp]
  have clear: "values_to_clear old' = []" and ref: "m_ref old' = 1"
    using spec(5) values_to_clear_bumped [OF assms(3)] q by (simp_all add: quiet_def)
  have old: "st_next s \<noteq> t_map tb" using q fresh by (auto simp: quiet_def)
  have tb: "tb\<lparr>t_map_lock := 1, t_map := a, t_map_lock := 0\<rparr> = tb\<lparr>t_map := a\<rparr>" for a
    using q by (cases tb) (simp add: quiet_def)
  have "expand_hash s t = Inr (s\<lparr>
        st_maps := (st_maps s)(st_next s \<mapsto> m', t_map tb := None),
        st_tables := (st_tables s)(t \<mapsto> tb\<lparr>t_map := st_next s\<rparr>),
        st_next := Suc (st_next s)\<rparr>)"
    using q cp clear ref old tb
    by (cases s)
      (auto simp: quiet_def expand_hash_def update_map_def map_lock_def map_unlock_def
        delete_map_def free_map_def Let_def store_simps deref_Some fun_upd_twist)
  moreover have "refs_one m'" using copy_map_refs [OF assms(2,3) pos assms(4)] cp by simp
  ultimately show ?thesis using spec(1-4) by auto
qed

text \<open>
  What \<open>_insert_table\<close> does to a store: the entry is in the table's map, which is the old
  one or a new, larger one at a fresh address; nothing else changes.
\<close>

definition inserted :: "store \<Rightarrow> addr \<Rightarrow> table \<Rightarrow> addr \<Rightarrow> lmap \<Rightarrow> store" where
  "inserted s t tb a m =
     (if a = t_map tb then s\<lparr>st_maps := (st_maps s)(a \<mapsto> m)\<rparr>
      else s\<lparr>st_maps := (st_maps s)(a \<mapsto> m, t_map tb := None),
             st_tables := (st_tables s)(t \<mapsto> tb\<lparr>t_map := a\<rparr>),
             st_next := Suc (st_next s)\<rparr>)"

lemma insert_map_value_quiet:
  assumes q: "quiet s t tb m" and "wf_map m" and "refs_one m" and "m_size m * 2 < 2 ^ 31"
    and fresh: "st_maps s (st_next s) = None" and "okkey k"
  shows "\<exists>a m'. insert_map_value s t k v = Inr (inserted s t tb a m',
        case lookup m k of None \<Rightarrow> LT_NIL | Some (t, _) \<Rightarrow> t) \<and>
      (a = t_map tb \<or> a = st_next s) \<and> wf_map m' \<and> refs_one m' \<and> m_ref m' = 1 \<and>
      lookup m' = (lookup m)(k \<mapsto> merge_entry (lookup m k) (v_type v, v_v v))"
proof -
  obtain m1 type depth where ins: "insert_value m k v 0 = (m1, type, depth)"
    by (metis prod_cases3)
  note spec = insert_value_spec [OF assms(2,6) ins]
  have ty: "type = (case lookup m k of None \<Rightarrow> LT_NIL | Some (t, _) \<Rightarrow> t)" by (rule spec(3))
  have look: "lookup m1 = (lookup m)(k \<mapsto> merge_entry (lookup m k) (v_type v, v_v v))"
    using spec(2) by auto
  have refs: "refs_one m1" using insert_value_refs [OF assms(2,3), of k v 0] ins by simp
  have ref: "m_ref m1 = 1" using spec(5) q by (simp add: quiet_def)
  let ?s1 = "put_map s (t_map tb) m1"
  have start: "insert_map_value s t k v =
      (if depth \<ge> MAX_HASH_DEPTH then rbind (expand_hash ?s1 t) (\<lambda>s. Inr (s, type))
       else Inr (?s1, type))"
    using q ins by (simp add: insert_map_value_def quiet_def deref_Some)
  show ?thesis
  proof (cases "depth \<ge> MAX_HASH_DEPTH")
    case True
    have q1: "quiet ?s1 t tb m1" using q ref by (simp add: quiet_def put_map_def)
    have size: "m_size m1 * 2 < 2 ^ 31" using assms(4) spec(4) by simp
    have ne: "st_next s \<noteq> t_map tb" using q fresh by (auto simp: quiet_def)
    have fresh1: "st_maps ?s1 (st_next ?s1) = None" using fresh ne by (simp add: put_map_def)
    obtain m2 where m2: "expand_hash ?s1 t = Inr (?s1\<lparr>
        st_maps := (st_maps ?s1)(st_next ?s1 \<mapsto> m2, t_map tb := None),
        st_tables := (st_tables ?s1)(t \<mapsto> tb\<lparr>t_map := st_next ?s1\<rparr>),
        st_next := Suc (st_next ?s1)\<rparr>)"
      and ok2: "wf_map m2" "refs_one m2" "lookup m2 = lookup m1" "m_ref m2 = 1"
      using expand_hash_quiet [OF q1 spec(1) refs size fresh1] by blast
    have "insert_map_value s t k v = Inr (inserted s t tb (st_next s) m2, type)"
      using start True m2 ne
      by (simp add: inserted_def put_map_def fun_upd_twist)
    then show ?thesis using ok2 look ty by auto
  next
    case False
    then have "insert_map_value s t k v = Inr (inserted s t tb (t_map tb) m1, type)"
      using start by (simp add: inserted_def put_map_def)
    then show ?thesis using spec(1) refs ref look ty by auto
  qed
qed

lemma insert_table_quiet:
  assumes q: "quiet s t tb m" and "t_lock tb = 0" and "wf_map m" and "refs_one m"
    and "m_size m * 2 < 2 ^ 31" and fresh: "st_maps s (st_next s) = None" and "okkey k"
  shows "\<exists>a m'. insert_table s t k v = Inr (inserted s t tb a m',
        case lookup m k of None \<Rightarrow> LT_NIL | Some (t, _) \<Rightarrow> t) \<and>
      (a = t_map tb \<or> a = st_next s) \<and> wf_map m' \<and> refs_one m' \<and> m_ref m' = 1 \<and>
      lookup m' = (lookup m)(k \<mapsto> merge_entry (lookup m k) (v_type v, v_v v))"
proof -
  let ?tb = "tb\<lparr>t_lock := 1\<rparr>"
  let ?s = "put_table s t ?tb"
  have lock: "table_lock s t = Inr ?s"
    using assms(1,2) by (simp add: quiet_def table_lock_def deref_Some)
  have q1: "quiet ?s t ?tb m" using q by (simp add: quiet_def put_table_def)
  have fresh1: "st_maps ?s (st_next ?s) = None" using fresh by (simp add: put_table_def)
  obtain a m' where ins: "insert_map_value ?s t k v = Inr (inserted ?s t ?tb a m',
        case lookup m k of None \<Rightarrow> LT_NIL | Some (t, _) \<Rightarrow> t)"
      and a: "a = t_map ?tb \<or> a = st_next ?s" and ok: "wf_map m'" "refs_one m'" "m_ref m' = 1"
      "lookup m' = (lookup m)(k \<mapsto> merge_entry (lookup m k) (v_type v, v_v v))"
    using insert_map_value_quiet [OF q1 assms(3-5) fresh1 assms(7)] by blast
  have tb0: "tb\<lparr>t_lock := 1, t_map := a, t_lock := 0\<rparr> = tb\<lparr>t_map := a\<rparr>"
    "tb\<lparr>t_lock := 0\<rparr> = tb" for a
    using assms(2) by (cases tb; simp)+
  have "table_unlock (inserted ?s t ?tb a m') t = Inr (inserted s t tb a m')"
    using q tb0 by (cases s)
      (simp add: table_unlock_def inserted_def quiet_def store_simps deref_Some map_upd_triv)
  then have "insert_table s t k v = Inr (inserted s t tb a m',
        case lookup m k of None \<Rightarrow> LT_NIL | Some (t, _) \<Rightarrow> t)"
    by (simp add: insert_table_def lock ins)
  then show ?thesis using a ok by (auto simp: put_table_def)
qed

section \<open>Well-formed stores\<close>

definition slot_ok :: "string_slot \<Rightarrow> bool" where
  "slot_ok ss \<longleftrightarrow> ss = new_string (butlast (ss_buf ss)) \<and> length (ss_buf ss) \<le> 2 ^ 31"

definition str_ok :: "store \<Rightarrow> addr \<Rightarrow> bool" where
  "str_ok s a \<longleftrightarrow>
     (case st_lstrs s a of None \<Rightarrow> False
      | Some ls \<Rightarrow> ls_lock ls = 0 \<and>
          (case st_slots s (ls_slot ls) of None \<Rightarrow> False | Some ss \<Rightarrow> slot_ok ss))"

text \<open>The type of an entry names the union member that was written.\<close>

fun entry_ok :: "store \<Rightarrow> lt_type \<times> payload \<Rightarrow> bool" where
  "entry_ok s (LT_NUMBER, P_n _) = True"
| "entry_ok s (LT_BOOLEAN, P_b _) = True"
| "entry_ok s (LT_UD, P_ud _) = True"
| "entry_ok s (LT_STRING, P_s a) = str_ok s a"
| "entry_ok s _ = False"

definition tmap :: "store \<Rightarrow> addr \<Rightarrow> lmap option" where
  "tmap s t = (case st_tables s t of None \<Rightarrow> None | Some tb \<Rightarrow> st_maps s (t_map tb))"

definition holds :: "store \<Rightarrow> addr \<Rightarrow> lkey \<Rightarrow> addr \<Rightarrow> bool" where
  "holds s t k a \<longleftrightarrow>
     (case tmap s t of None \<Rightarrow> False | Some m \<Rightarrow> lookup m k = Some (LT_STRING, P_s a))"

definition map_ok :: "store \<Rightarrow> lmap \<Rightarrow> bool" where
  "map_ok s m \<longleftrightarrow> m_ref m = 1 \<and> wf_map m \<and> refs_one m \<and>
     (\<forall>k e. lookup m k = Some e \<longrightarrow> entry_ok s e)"

definition fresh_ok :: "store \<Rightarrow> bool" where
  "fresh_ok s \<longleftrightarrow> (\<forall>a \<in> dom (st_slots s) \<union> dom (st_lstrs s) \<union> dom (st_maps s) \<union>
     dom (st_tables s). a < st_next s)"

text \<open>
  Between operations: every table is unlocked and alone on its map, maps are not shared,
  every entry is well-typed, every string has a well-formed buffer, no two entries share a
  string and no two strings a buffer.
\<close>

definition store_ok :: "store \<Rightarrow> bool" where
  "store_ok s \<longleftrightarrow> fresh_ok s \<and>
     (\<forall>t tb. st_tables s t = Some tb \<longrightarrow> t_lock tb = 0 \<and> t_map_lock tb = 0 \<and>
        (\<exists>m. st_maps s (t_map tb) = Some m \<and> map_ok s m)) \<and>
     (\<forall>t tb t' tb'. st_tables s t = Some tb \<longrightarrow> st_tables s t' = Some tb' \<longrightarrow>
        t_map tb = t_map tb' \<longrightarrow> t = t') \<and>
     (\<forall>t k t' k' a. holds s t k a \<longrightarrow> holds s t' k' a \<longrightarrow> t = t' \<and> k = k') \<and>
     (\<forall>a l a' l'. st_lstrs s a = Some l \<longrightarrow> st_lstrs s a' = Some l' \<longrightarrow>
        ls_slot l = ls_slot l' \<longrightarrow> a = a') \<and>
     (\<forall>a. st_lstrs s a \<noteq> None \<longrightarrow> str_ok s a)"

text \<open>The contents of a table as its clients see them.\<close>

datatype aval = ANum double | ABool u32 | AUd addr | AStr bytes

fun view_entry :: "store \<Rightarrow> lt_type \<times> payload \<Rightarrow> aval option" where
  "view_entry s (LT_NUMBER, P_n d) = Some (ANum d)"
| "view_entry s (LT_BOOLEAN, P_b b) = Some (ABool b)"
| "view_entry s (LT_UD, P_ud u) = Some (AUd u)"
| "view_entry s (LT_STRING, P_s a) =
     (case st_lstrs s a of None \<Rightarrow> None
      | Some ls \<Rightarrow> map_option (\<lambda>ss. AStr (butlast (ss_buf ss))) (st_slots s (ls_slot ls)))"
| "view_entry s _ = None"

definition view :: "store \<Rightarrow> addr \<Rightarrow> lkey \<Rightarrow> aval option" where
  "view s t k =
     (case tmap s t of None \<Rightarrow> None
      | Some m \<Rightarrow> (case lookup m k of None \<Rightarrow> None | Some e \<Rightarrow> view_entry s e))"

lemma store_ok_tableE:
  assumes "store_ok s" and "st_tables s t = Some tb"
  obtains m where "quiet s t tb m" "t_lock tb = 0" "tmap s t = Some m" "map_ok s m"
proof -
  obtain m where "t_lock tb = 0" "t_map_lock tb = 0" "st_maps s (t_map tb) = Some m" "map_ok s m"
    using assms unfolding store_ok_def by blast
  then show thesis using that [of m] assms(2) by (simp add: quiet_def map_ok_def tmap_def)
qed

lemma store_ok_fresh:
  assumes "store_ok s" and "st_next s \<le> a"
  shows "st_slots s a = None" "st_lstrs s a = None" "st_maps s a = None" "st_tables s a = None"
proof -
  have "\<forall>b \<in> dom (st_slots s) \<union> dom (st_lstrs s) \<union> dom (st_maps s) \<union> dom (st_tables s).
      b < st_next s"
    using assms(1) unfolding store_ok_def fresh_ok_def by (rule conjunct1)
  with assms(2) have "a \<notin> dom (st_slots s) \<union> dom (st_lstrs s) \<union> dom (st_maps s) \<union> dom (st_tables s)"
    by (meson leD)
  then show "st_slots s a = None" "st_lstrs s a = None" "st_maps s a = None" "st_tables s a = None"
    by (simp_all add: domIff)
qed

lemma slot_ok_new: "length name < 2 ^ 31 \<Longrightarrow> slot_ok (new_string name)"
  by (simp add: slot_ok_def new_string_def Suc_le_eq)

lemma slot_okE:
  assumes "slot_ok ss"
  obtains name where "ss = new_string name" "length name < 2 ^ 31"
proof -
  have ss: "ss = new_string (butlast (ss_buf ss))" and len: "length (ss_buf ss) \<le> 2 ^ 31"
    using assms unfolding slot_ok_def by (rule conjunct1, rule conjunct2)
  have "ss_buf ss = butlast (ss_buf ss) @ [0]"
    using arg_cong [OF ss, of ss_buf] unfolding new_string_def string_slot.select_convs .
  then have "length (ss_buf ss) = Suc (length (butlast (ss_buf ss)))"
    by (metis length_append_singleton)
  with len have "length (butlast (ss_buf ss)) < 2 ^ 31" by linarith
  with ss show thesis by (rule that)
qed

lemma slot_okD:
  assumes "slot_ok ss"
  shows "ss_ref ss = 1" and "ss_buf ss = butlast (ss_buf ss) @ [0]"
    and "unat (scast (ss_sz ss) :: u64) = length (butlast (ss_buf ss))"
proof -
  obtain name where "ss = new_string name" "length name < 2 ^ 31" using assms by (rule slot_okE)
  then show "ss_ref ss = 1" and "ss_buf ss = butlast (ss_buf ss) @ [0]"
    and "unat (scast (ss_sz ss) :: u64) = length (butlast (ss_buf ss))"
    by (simp_all add: new_string_def unat_scast_of_nat unat_of_nat_small)
qed

lemma entry_ok_frame:
  assumes "entry_ok s e" and "\<And>a. str_ok s a \<Longrightarrow> str_ok s' a"
  shows "entry_ok s' e"
  using assms by (cases "(s, e)" rule: entry_ok.cases) auto

lemma view_entry_frame:
  assumes "\<And>a. e = (LT_STRING, P_s a) \<Longrightarrow> st_lstrs s' a = st_lstrs s a \<and>
      (\<forall>ls. st_lstrs s a = Some ls \<longrightarrow> st_slots s' (ls_slot ls) = st_slots s (ls_slot ls))"
  shows "view_entry s' e = view_entry s e"
  using assms by (cases "(s, e)" rule: view_entry.cases) (auto split: option.splits)

lemma inserted_frame [simp]:
  "st_slots (inserted s t tb a m) = st_slots s"
  "st_lstrs (inserted s t tb a m) = st_lstrs s"
  by (simp_all add: inserted_def)

lemma str_ok_inserted [simp]: "str_ok (inserted s t tb a m) = str_ok s"
  by (simp add: str_ok_def fun_eq_iff cong: option.case_cong)

lemma entry_ok_inserted [simp]: "entry_ok (inserted s t tb a m) e = entry_ok s e"
  by (cases "(s, e)" rule: entry_ok.cases) simp_all

lemma view_entry_inserted [simp]: "view_entry (inserted s t tb a m) e = view_entry s e"
  by (rule view_entry_frame) simp

lemma tmap_inserted:
  assumes ok: "store_ok s" and tb: "st_tables s t = Some tb"
    and a: "a = t_map tb \<or> a = st_next s"
  shows "tmap (inserted s t tb a m) = (tmap s)(t \<mapsto> m)"
proof
  fix t'
  have fr: "st_maps s (st_next s) = None" using store_ok_fresh [OF ok] by simp
  obtain m0 where "quiet s t tb m0" by (rule store_ok_tableE [OF ok tb])
  with fr have ne: "st_next s \<noteq> t_map tb" by (auto simp: quiet_def)
  show "tmap (inserted s t tb a m) t' = ((tmap s)(t \<mapsto> m)) t'"
  proof (cases "t' = t")
    case True
    then show ?thesis using tb a ne by (auto simp: tmap_def inserted_def)
  next
    case other: False
    show ?thesis
    proof (cases "st_tables s t'")
      case None
      then show ?thesis using other by (simp add: tmap_def inserted_def)
    next
      case (Some tb')
      then have "t_map tb' \<noteq> t_map tb" using ok tb other unfolding store_ok_def by blast
      moreover obtain m' where "quiet s t' tb' m'" by (rule store_ok_tableE [OF ok Some])
      then have "t_map tb' \<noteq> st_next s" using fr by (auto simp: quiet_def)
      ultimately show ?thesis using other Some a by (auto simp: tmap_def inserted_def)
    qed
  qed
qed

lemma store_okI:
  assumes "fresh_ok s"
    and "\<And>t tb. st_tables s t = Some tb \<Longrightarrow> t_lock tb = 0 \<and> t_map_lock tb = 0"
    and "\<And>t tb. st_tables s t = Some tb \<Longrightarrow> \<exists>m. tmap s t = Some m \<and> map_ok s m"
    and "\<And>t tb t' tb'. st_tables s t = Some tb \<Longrightarrow> st_tables s t' = Some tb' \<Longrightarrow>
        t_map tb = t_map tb' \<Longrightarrow> t = t'"
    and "\<And>t k t' k' a. holds s t k a \<Longrightarrow> holds s t' k' a \<Longrightarrow> t = t' \<and> k = k'"
    and "\<And>a l a' l'. st_lstrs s a = Some l \<Longrightarrow> st_lstrs s a' = Some l' \<Longrightarrow>
        ls_slot l = ls_slot l' \<Longrightarrow> a = a'"
    and "\<And>a. st_lstrs s a \<noteq> None \<Longrightarrow> str_ok s a"
  shows "store_ok s"
  unfolding store_ok_def
proof (intro conjI allI impI)
  fix t tb assume "st_tables s t = Some tb"
  then show "\<exists>m. st_maps s (t_map tb) = Some m \<and> map_ok s m"
    using assms(3) by (fastforce simp: tmap_def)
qed (use assms in blast)+

lemma store_ok_holds_unique:
  "store_ok s \<Longrightarrow> holds s t k a \<Longrightarrow> holds s t' k' a \<Longrightarrow> t = t' \<and> k = k'"
  unfolding store_ok_def by blast

lemma store_ok_maps_distinct:
  "store_ok s \<Longrightarrow> st_tables s t = Some tb \<Longrightarrow> st_tables s t' = Some tb' \<Longrightarrow>
    t_map tb = t_map tb' \<Longrightarrow> t = t'"
  unfolding store_ok_def by blast

lemma store_ok_lstr: "store_ok s \<Longrightarrow> st_lstrs s a \<noteq> None \<Longrightarrow> str_ok s a"
  unfolding store_ok_def by blast

lemma store_ok_slots_distinct:
  "store_ok s \<Longrightarrow> st_lstrs s a = Some l \<Longrightarrow> st_lstrs s a' = Some l' \<Longrightarrow>
    ls_slot l = ls_slot l' \<Longrightarrow> a = a'"
  unfolding store_ok_def by blast

text \<open>Linking one well-typed entry, whose string nobody else holds, keeps a store well-formed.\<close>

lemma inserted_ok:
  assumes ok: "store_ok s" and tb: "st_tables s t = Some tb" and m: "tmap s t = Some m"
    and a: "a = t_map tb \<or> a = st_next s"
    and m': "wf_map m'" "refs_one m'" "m_ref m' = 1" "lookup m' = (lookup m)(k \<mapsto> e)"
    and e: "entry_ok s e"
    and own: "\<And>b t' k'. e = (LT_STRING, P_s b) \<Longrightarrow> holds s t' k' b \<Longrightarrow> t' = t \<and> k' = k"
  shows "store_ok (inserted s t tb a m')"
proof -
  let ?s = "inserted s t tb a m'"
  note tm = tmap_inserted [OF ok tb a]
  have tabs: "\<And>t' tb'. st_tables ?s t' = Some tb' \<Longrightarrow>
      (t' = t \<and> tb' = tb\<lparr>t_map := a\<rparr>) \<or> (t' \<noteq> t \<and> st_tables s t' = Some tb')"
  proof -
    have same: "tb\<lparr>t_map := t_map tb\<rparr> = tb" by (cases tb) simp
    show "\<And>t' tb'. st_tables ?s t' = Some tb' \<Longrightarrow>
      (t' = t \<and> tb' = tb\<lparr>t_map := a\<rparr>) \<or> (t' \<noteq> t \<and> st_tables s t' = Some tb')"
      using tb same by (auto simp: inserted_def split: if_splits)
  qed
  have lock: "\<And>t tb. st_tables s t = Some tb \<Longrightarrow> t_lock tb = 0 \<and> t_map_lock tb = 0"
    using ok unfolding store_ok_def by blast
  have below: "st_tables s t' = Some tb' \<Longrightarrow> t_map tb' < st_next s" for t' tb'
  proof -
    assume tb': "st_tables s t' = Some tb'"
    obtain m2 where "quiet s t' tb' m2" by (rule store_ok_tableE [OF ok tb'])
    then show ?thesis using store_ok_fresh(3) [OF ok, of "t_map tb'"]
      by (fastforce simp: quiet_def not_less [symmetric])
  qed
  have holds_here: "holds ?s t k b \<Longrightarrow> e = (LT_STRING, P_s b)" for b
    using m m'(4) by (simp add: holds_def tm)
  have holds_else: "\<not> (t' = t \<and> k' = k) \<Longrightarrow> holds ?s t' k' b \<Longrightarrow> holds s t' k' b" for t' k' b
    using m m'(4) by (auto simp: holds_def tm split: if_splits)
  show ?thesis
  proof (rule store_okI)
    have "fresh_ok s" using ok by (simp add: store_ok_def)
    then show "fresh_ok ?s" using tb a below [OF tb]
      by (auto simp: fresh_ok_def inserted_def less_Suc_eq)
  next
    fix t' tb' assume "st_tables ?s t' = Some tb'"
    then show "t_lock tb' = 0 \<and> t_map_lock tb' = 0" using tabs lock tb by fastforce
  next
    fix t' tb' assume tb': "st_tables ?s t' = Some tb'"
    show "\<exists>m. tmap ?s t' = Some m \<and> map_ok ?s m"
    proof (cases "t' = t")
      case True
      have "entry_ok s e'" if "lookup m k' = Some e'" for k' e'
      proof -
        obtain m2 where "tmap s t = Some m2" "map_ok s m2" by (rule store_ok_tableE [OF ok tb])
        then show ?thesis using that m unfolding map_ok_def by (metis option.inject)
      qed
      then have "map_ok ?s m'" using m' e by (auto simp: map_ok_def)
      then show ?thesis using True by (simp add: tm)
    next
      case False
      then obtain tb0 where "st_tables s t' = Some tb0" using tabs [OF tb'] by blast
      then obtain m2 where "tmap s t' = Some m2" "map_ok s m2" by (rule store_ok_tableE [OF ok])
      then show ?thesis using False by (simp add: tm map_ok_def)
    qed
  next
    fix t1 tb1 t2 tb2
    assume 1: "st_tables ?s t1 = Some tb1" and 2: "st_tables ?s t2 = Some tb2"
      and eq: "t_map tb1 = t_map tb2"
    show "t1 = t2"
    proof (rule ccontr)
      assume ne: "t1 \<noteq> t2"
      have other: "t_map tb' \<noteq> a" if "st_tables s t' = Some tb'" "t' \<noteq> t" for t' tb'
        using that a below [OF that(1)] store_ok_maps_distinct [OF ok that(1) tb] by auto
      show False
        using tabs [OF 1] tabs [OF 2] ne eq other [of t1 tb1] other [of t2 tb2]
          store_ok_maps_distinct [OF ok, of t1 tb1 t2 tb2]
        by auto
    qed
  next
    fix t1 k1 t2 k2 b
    assume h: "holds ?s t1 k1 b" "holds ?s t2 k2 b"
    show "t1 = t2 \<and> k1 = k2"
    proof (cases "t1 = t \<and> k1 = k")
      case True
      then have e1: "e = (LT_STRING, P_s b)" using h(1) holds_here by blast
      show ?thesis
        using True own [OF e1] holds_else [OF _ h(2)] by blast
    next
      case 1: False
      then have h1: "holds s t1 k1 b" using h(1) holds_else by blast
      show ?thesis
      proof (cases "t2 = t \<and> k2 = k")
        case True
        then have "e = (LT_STRING, P_s b)" using h(2) holds_here by blast
        then show ?thesis using own [OF _ h1] 1 by blast
      next
        case False
        then have "holds s t2 k2 b" using h(2) holds_else by blast
        with h1 show ?thesis by (rule store_ok_holds_unique [OF ok])
      qed
    qed
  next
    fix b l b' l'
    assume "st_lstrs ?s b = Some l" "st_lstrs ?s b' = Some l'" "ls_slot l = ls_slot l'"
    then show "b = b'" using store_ok_slots_distinct [OF ok] by simp
  next
    fix b assume "st_lstrs ?s b \<noteq> None"
    then show "str_ok ?s b" using store_ok_lstr [OF ok] by simp
  qed
qed

lemma view_inserted:
  assumes "store_ok s" and "st_tables s t = Some tb" and "tmap s t = Some m"
    and "a = t_map tb \<or> a = st_next s" and "lookup m' = (lookup m)(k \<mapsto> e)"
  shows "view (inserted s t tb a m') = (view s)(t := (view s t)(k := view_entry s e))"
  using assms(3,5) by (auto simp: view_def fun_eq_iff tmap_inserted [OF assms(1,2,4)] cong: option.case_cong)

section \<open>Getters on a well-formed store\<close>

lemma store_ok_entry:
  assumes "store_ok s" and "st_tables s t = Some tb" and "tmap s t = Some m"
    and "lookup m k = Some e"
  shows "entry_ok s e"
proof -
  obtain m2 where "tmap s t = Some m2" "map_ok s m2" by (rule store_ok_tableE [OF assms(1,2)])
  then show ?thesis using assms(3,4) unfolding map_ok_def by (metis option.inject)
qed

lemma entry_okE:
  assumes "entry_ok s e"
  obtains n where "e = (LT_NUMBER, P_n n)" | b where "e = (LT_BOOLEAN, P_b b)"
  | u where "e = (LT_UD, P_ud u)" | a where "e = (LT_STRING, P_s a)" "str_ok s a"
  using assms by (cases "(s, e)" rule: entry_ok.cases) auto

lemma str_okE:
  assumes "str_ok s a"
  obtains ls ss where "st_lstrs s a = Some ls" "ls_lock ls = 0"
    "st_slots s (ls_slot ls) = Some ss" "slot_ok ss"
  using assms by (auto simp: str_ok_def split: option.splits)

lemma grab_release_string:
  assumes "str_ok s a"
  shows "\<exists>ls ss s1. st_lstrs s a = Some ls \<and> st_slots s (ls_slot ls) = Some ss \<and> slot_ok ss \<and>
    grab_string s a = Inr (s1, ls_slot ls) \<and>
    st_slots s1 (ls_slot ls) = Some (ss\<lparr>ss_ref := 2\<rparr>) \<and> release_string s1 (ls_slot ls) = Inr s"
proof -
  obtain ls ss where ls: "st_lstrs s a = Some ls" "ls_lock ls = 0"
    and ss: "st_slots s (ls_slot ls) = Some ss" "slot_ok ss"
    using assms by (rule str_okE)
  have r: "ss_ref ss = 1" using ss(2) by (rule slot_okD)
  then have ss1: "ss\<lparr>ss_ref := 1\<rparr> = ss" by (cases ss) simp
  let ?s1 = "put_slot s (ls_slot ls) (ss\<lparr>ss_ref := 2\<rparr>)"
  have "grab_string s a = Inr (?s1, ls_slot ls)"
    using ls ss(1) r
    by (cases s) (simp add: grab_string_def Let_def store_simps deref_Some map_upd_triv)
  moreover have "release_string ?s1 (ls_slot ls) = Inr s"
    using ss ss1 by (simp add: release_string_def Let_def store_simps deref_Some)
  ultimately show ?thesis using ls(1) ss by (auto simp: put_slot_def)
qed

lemma getters_on_entry:
  assumes ok: "store_ok s" and tb: "st_tables s t = Some tb" and m: "tmap s t = Some m"
  shows "search_table s t k r = Inr (s, search m k r)"
proof -
  obtain m2 where "quiet s t tb m2" "tmap s t = Some m2" by (rule store_ok_tableE [OF ok tb])
  then show ?thesis using m search_table_quiet by simp
qed

lemma view_eq_None_iff:
  assumes "store_ok s" and "st_tables s t = Some tb" and "tmap s t = Some m"
  shows "view s t k = None \<longleftrightarrow> lookup m k = None"
proof (cases "lookup m k")
  case None
  then show ?thesis using assms(3) by (simp add: view_def)
next
  case (Some e)
  then have "entry_ok s e" by (rule store_ok_entry [OF assms])
  then have "view_entry s e \<noteq> None" by (auto elim!: entry_okE str_okE)
  then show ?thesis using Some assms(3) by (simp add: view_def)
qed

lemma view_SomeE:
  assumes "store_ok s" and "st_tables s t = Some tb" and "tmap s t = Some m"
    and "view s t k = Some x"
  obtains e where "lookup m k = Some e" "entry_ok s e" "view_entry s e = Some x"
proof -
  obtain e where e: "lookup m k = Some e" "view_entry s e = Some x"
    using assms(3,4) by (auto simp: view_def split: option.splits)
  then show thesis using that store_ok_entry [OF assms(1-3)] by blast
qed

lemma search_uninit:
  assumes "store_ok s" and "st_tables s t = Some tb" and "tmap s t = Some m"
  shows "(case view s t k of
      None \<Rightarrow> search m k uninit_value = uninit_value
    | Some (ANum n) \<Rightarrow> v_type (search m k uninit_value) = LT_NUMBER \<and>
        v_v (search m k uninit_value) = P_n n
    | Some (ABool b) \<Rightarrow> v_type (search m k uninit_value) = LT_BOOLEAN \<and>
        v_v (search m k uninit_value) = P_b b
    | Some (AUd u) \<Rightarrow> v_type (search m k uninit_value) = LT_UD \<and>
        v_v (search m k uninit_value) = P_ud u
    | Some (AStr str) \<Rightarrow> v_type (search m k uninit_value) = LT_STRING \<and>
        (\<exists>a ls ss. v_v (search m k uninit_value) = P_s a \<and> str_ok s a \<and> holds s t k a \<and>
           st_lstrs s a = Some ls \<and> st_slots s (ls_slot ls) = Some ss \<and> ss_buf ss = str @ [0]))"
proof (cases "view s t k")
  case None
  then have "lookup m k = None" using view_eq_None_iff [OF assms] by simp
  then show ?thesis using None search_lookup(2) [of m k uninit_value]
    by (simp add: uninit_value_def)
next
  case (Some x)
  then obtain e where e: "lookup m k = Some e" "entry_ok s e" "view_entry s e = Some x"
    by (rule view_SomeE [OF assms])
  show ?thesis
    using e(2)
  proof (cases rule: entry_okE)
    case (4 a)
    obtain ls ss where ls: "st_lstrs s a = Some ls" "st_slots s (ls_slot ls) = Some ss" "slot_ok ss"
      using 4(2) by (rule str_okE)
    have x: "x = AStr (butlast (ss_buf ss))" using e(3) 4 ls by simp
    have "ss_buf ss = butlast (ss_buf ss) @ [0]" using ls(3) by (rule slot_okD)
    moreover have "holds s t k a" using e(1) 4 assms(3) by (simp add: holds_def)
    ultimately show ?thesis
      using Some x search_lookup(1) [of m k LT_STRING "P_s a" uninit_value] e(1) 4 ls by auto
  qed (use Some e search_lookup(1) in auto)
qed

text \<open>A copied string has the same bytes in a buffer of its own.\<close>

lemma copy_value_string:
  assumes "v_type ov = LT_STRING" and "v_v ov = P_s a" and "str_ok s a"
    and "view_entry s (LT_STRING, P_s a) = Some (AStr str)"
  shows "\<exists>s' b ls. copy_value s ov tv = Inr (s', tv\<lparr>v_v := P_s b\<rparr>) \<and>
    st_lstrs s' b = Some ls \<and> st_slots s' (ls_slot ls) = Some (new_string str) \<and>
    b = Suc (st_next s) \<and> ls_slot ls = st_next s"
proof -
  obtain ls ss where ls: "st_lstrs s a = Some ls" "ls_lock ls = 0"
    and ss: "st_slots s (ls_slot ls) = Some ss" "slot_ok ss"
    using assms(3) by (rule str_okE)
  have str: "butlast (ss_buf ss) = str" using assms(4) ls(1) ss(1) by simp
  have "take (unat (scast (ss_sz ss) :: u64)) (ss_buf ss) = str"
    using slot_okD(2,3) [OF ss(2)] unfolding str by simp
  then show ?thesis using assms(1,2) ls(1) ss(1)
    by (simp add: copy_value_def Let_def alloc_slot_def alloc_lstr_def deref_Some)
qed

section \<open>Setters on a well-formed store\<close>

text \<open>Room for one more expansion: the doubled size is still an \<open>int\<close>.\<close>

definition roomy :: "store \<Rightarrow> addr \<Rightarrow> bool" where
  "roomy s t \<longleftrightarrow> (case tmap s t of None \<Rightarrow> False | Some m \<Rightarrow> m_size m * 2 < 2 ^ 31)"

lemma insert_table_ok:
  assumes ok: "store_ok s" and tb: "st_tables s t = Some tb" and "roomy s t" and "okkey k"
    and m: "tmap s t = Some m"
    and e: "e = merge_entry (lookup m k) (v_type v, v_v v)" "entry_ok s e"
    and own: "\<And>b t' k'. e = (LT_STRING, P_s b) \<Longrightarrow> holds s t' k' b \<Longrightarrow> t' = t \<and> k' = k"
  shows "\<exists>s'. insert_table s t k v = Inr (s', case lookup m k of None \<Rightarrow> LT_NIL | Some (t, _) \<Rightarrow> t) \<and>
    store_ok s' \<and> view s' = (view s)(t := (view s t)(k := view_entry s e)) \<and>
    dom (st_tables s') = dom (st_tables s)"
proof -
  obtain m2 where q: "quiet s t tb m2" "t_lock tb = 0" "tmap s t = Some m2" "map_ok s m2"
    by (rule store_ok_tableE [OF ok tb])
  then have m2: "m2 = m" using m by simp
  have size: "m_size m * 2 < 2 ^ 31" using assms(3) m unfolding roomy_def by (metis option.simps(5))
  have mok: "wf_map m" "refs_one m" using q(4) m2 unfolding map_ok_def by blast+
  have fr: "st_maps s (st_next s) = None" using store_ok_fresh(3) [OF ok] by simp
  obtain a m' where ins: "insert_table s t k v = Inr (inserted s t tb a m',
        case lookup m k of None \<Rightarrow> LT_NIL | Some (t, _) \<Rightarrow> t)"
    and a: "a = t_map tb \<or> a = st_next s"
    and m': "wf_map m'" "refs_one m'" "m_ref m' = 1" "lookup m' = (lookup m)(k \<mapsto> e)"
    using insert_table_quiet [OF q(1) [unfolded m2] q(2) mok size fr assms(4), of v] e(1) by blast
  have "store_ok (inserted s t tb a m')"
    by (rule inserted_ok [OF ok tb m a m' e(2) own])
  moreover have "view (inserted s t tb a m') = (view s)(t := (view s t)(k := view_entry s e))"
    by (rule view_inserted [OF ok tb m a m'(4)])
  moreover have "dom (st_tables (inserted s t tb a m')) = dom (st_tables s)"
    using tb by (auto simp: inserted_def)
  ultimately show ?thesis using ins by blast
qed

text \<open>What \<open>_set_value\<close> of the binding calls for a value, and the kinds it can replace.\<close>

fun set_aval :: "store \<Rightarrow> addr \<Rightarrow> lkey \<Rightarrow> aval \<Rightarrow> (store \<times> bool) result" where
  "set_aval s t k (ANum n) = set_number s t k n"
| "set_aval s t k (ABool b) = set_boolean s t k b"
| "set_aval s t k (AUd u) = set_ud s t k u"
| "set_aval s t k (AStr str) = set_string s t k str"

fun same_kind :: "aval \<Rightarrow> aval \<Rightarrow> bool" where
  "same_kind (ANum _) (ANum _) = True"
| "same_kind (ABool _) (ABool _) = True"
| "same_kind (AUd _) (AUd _) = True"
| "same_kind (AStr _) (AStr _) = True"
| "same_kind _ _ = False"

fun aval_ok :: "aval \<Rightarrow> bool" where
  "aval_ok (AStr str) = (length str < 2 ^ 31)"
| "aval_ok _ = True"

definition settable :: "store \<Rightarrow> addr \<Rightarrow> lkey \<Rightarrow> aval \<Rightarrow> bool" where
  "settable s t k x \<longleftrightarrow> (case view s t k of None \<Rightarrow> True | Some y \<Rightarrow> same_kind y x)"

lemma settable_lookup:
  assumes ok: "store_ok s" and tb: "st_tables s t = Some tb" and m: "tmap s t = Some m"
    and "settable s t k x"
  obtains "lookup m k = None"
  | e where "lookup m k = Some e" "entry_ok s e"
      "\<exists>y. view_entry s e = Some y \<and> same_kind y x"
proof (cases "view s t k")
  case None
  then show thesis using view_eq_None_iff [OF ok tb m] that(1) by simp
next
  case (Some y)
  then obtain e where "lookup m k = Some e" "entry_ok s e" "view_entry s e = Some y"
    by (rule view_SomeE [OF ok tb m])
  moreover have "same_kind y x" using assms(4) Some by (simp add: settable_def)
  ultimately show thesis using that(2) by blast
qed

lemma table_has_map:
  assumes "store_ok s" and "t \<in> dom (st_tables s)"
  obtains tb m where "st_tables s t = Some tb" "tmap s t = Some m"
proof -
  obtain tb where tb: "st_tables s t = Some tb" using assms(2) by blast
  then obtain m where "tmap s t = Some m" using store_ok_tableE [OF assms(1)] by blast
  with tb show thesis by (rule that)
qed

lemma scalar_set:
  assumes ok: "store_ok s" and t: "t \<in> dom (st_tables s)" and "roomy s t" and "okkey k"
    and set: "settable s t k x"
    and v: "v_type v = ty" "ty \<noteq> LT_STRING" "entry_ok s (ty, v_v v)"
      "view_entry s (ty, v_v v) = Some x"
      "\<And>e y. entry_ok s e \<Longrightarrow> view_entry s e = Some y \<Longrightarrow> same_kind y x \<Longrightarrow> fst e = ty"
  shows "\<exists>s' ty'. insert_table s t k v = Inr (s', ty') \<and> (ty' = ty \<or> ty' = LT_NIL) \<and> store_ok s' \<and>
    view s' = (view s)(t := (view s t)(k \<mapsto> x)) \<and> dom (st_tables s') = dom (st_tables s)"
proof -
  obtain tb m where tb: "st_tables s t = Some tb" and m: "tmap s t = Some m"
    by (rule table_has_map [OF ok t])
  from ok tb m set have e: "merge_entry (lookup m k) (v_type v, v_v v) = (ty, v_v v) \<and>
      (case lookup m k of None \<Rightarrow> LT_NIL | Some (t, _) \<Rightarrow> t) \<in> {ty, LT_NIL}"
  proof (cases rule: settable_lookup)
    case (2 e)
    then have "fst e = ty" using v(5) by blast
    then show ?thesis using 2(1) by (cases e) simp
  qed (simp add: v(1))
  have e1: "(ty, v_v v) = merge_entry (lookup m k) (v_type v, v_v v)"
    and e2: "(case lookup m k of None \<Rightarrow> LT_NIL | Some (t, _) \<Rightarrow> t) \<in> {ty, LT_NIL}"
    using e by simp_all
  have "\<exists>s'. insert_table s t k v =
      Inr (s', case lookup m k of None \<Rightarrow> LT_NIL | Some (t, _) \<Rightarrow> t) \<and>
    store_ok s' \<and> view s' = (view s)(t := (view s t)(k := view_entry s (ty, v_v v))) \<and>
    dom (st_tables s') = dom (st_tables s)"
    by (rule insert_table_ok [OF ok tb assms(3,4) m e1 v(3)]) (use v(2) in simp)
  then show ?thesis using e2 unfolding v(4) by blast
qed

lemma number_set:
  assumes "store_ok s" and "t \<in> dom (st_tables s)" and "roomy s t" and "okkey k"
    and "settable s t k (ANum n)"
  shows "\<exists>s'. set_number s t k n = Inr (s', False) \<and> store_ok s' \<and>
    view s' = (view s)(t := (view s t)(k \<mapsto> ANum n)) \<and> dom (st_tables s') = dom (st_tables s)"
proof -
  let ?v = "uninit_value\<lparr>v_type := LT_NUMBER, v_v := P_n n\<rparr>"
  have "\<And>e y. entry_ok s e \<Longrightarrow> view_entry s e = Some y \<Longrightarrow> same_kind y (ANum n) \<Longrightarrow> fst e = LT_NUMBER"
    by (elim entry_okE str_okE) auto
  then obtain s' ty' where "insert_table s t k ?v = Inr (s', ty')" "ty' = LT_NUMBER \<or> ty' = LT_NIL"
    "store_ok s'" "view s' = (view s)(t := (view s t)(k \<mapsto> ANum n))"
    "dom (st_tables s') = dom (st_tables s)"
    using scalar_set [OF assms, of ?v LT_NUMBER] by auto
  then show ?thesis by (auto simp: set_number_def)
qed

lemma boolean_set:
  assumes "store_ok s" and "t \<in> dom (st_tables s)" and "roomy s t" and "okkey k"
    and "settable s t k (ABool b)"
  shows "\<exists>s'. set_boolean s t k b = Inr (s', False) \<and> store_ok s' \<and>
    view s' = (view s)(t := (view s t)(k \<mapsto> ABool b)) \<and> dom (st_tables s') = dom (st_tables s)"
proof -
  let ?v = "uninit_value\<lparr>v_type := LT_BOOLEAN, v_v := P_b b\<rparr>"
  have "\<And>e y. entry_ok s e \<Longrightarrow> view_entry s e = Some y \<Longrightarrow> same_kind y (ABool b) \<Longrightarrow> fst e = LT_BOOLEAN"
    by (elim entry_okE str_okE) auto
  then obtain s' ty' where "insert_table s t k ?v = Inr (s', ty')" "ty' = LT_BOOLEAN \<or> ty' = LT_NIL"
    "store_ok s'" "view s' = (view s)(t := (view s t)(k \<mapsto> ABool b))"
    "dom (st_tables s') = dom (st_tables s)"
    using scalar_set [OF assms, of ?v LT_BOOLEAN] by auto
  then show ?thesis by (auto simp: set_boolean_def)
qed

lemma ud_set:
  assumes "store_ok s" and "t \<in> dom (st_tables s)" and "roomy s t" and "okkey k"
    and "settable s t k (AUd u)"
  shows "\<exists>s'. set_ud s t k u = Inr (s', False) \<and> store_ok s' \<and>
    view s' = (view s)(t := (view s t)(k \<mapsto> AUd u)) \<and> dom (st_tables s') = dom (st_tables s)"
proof -
  let ?v = "uninit_value\<lparr>v_type := LT_UD, v_v := P_ud u\<rparr>"
  have "\<And>e y. entry_ok s e \<Longrightarrow> view_entry s e = Some y \<Longrightarrow> same_kind y (AUd u) \<Longrightarrow> fst e = LT_UD"
    by (elim entry_okE str_okE) auto
  then obtain s' ty' where "insert_table s t k ?v = Inr (s', ty')" "ty' = LT_UD \<or> ty' = LT_NIL"
    "store_ok s'" "view s' = (view s)(t := (view s t)(k \<mapsto> AUd u))"
    "dom (st_tables s') = dom (st_tables s)"
    using scalar_set [OF assms, of ?v LT_UD] by auto
  then show ?thesis by (auto simp: set_ud_def)
qed

text \<open>Changing the string heap alone.\<close>

lemma string_heap_change:
  assumes ok: "store_ok s" and same: "st_tables s' = st_tables s" "st_maps s' = st_maps s"
    and "fresh_ok s'"
    and dom: "\<And>a. st_lstrs s a \<noteq> None \<Longrightarrow> st_lstrs s' a \<noteq> None"
    and str: "\<And>a. st_lstrs s' a \<noteq> None \<Longrightarrow> str_ok s' a"
    and inj: "\<And>a l a' l'. st_lstrs s' a = Some l \<Longrightarrow> st_lstrs s' a' = Some l' \<Longrightarrow>
        ls_slot l = ls_slot l' \<Longrightarrow> a = a'"
  shows "store_ok s'" and "tmap s' = tmap s" and "holds s' = holds s"
proof -
  show tm: "tmap s' = tmap s" by (rule ext) (simp only: tmap_def same)
  show hd: "holds s' = holds s" by (simp add: holds_def tm fun_eq_iff)
  have keep: "str_ok s a \<Longrightarrow> str_ok s' a" for a
    using dom str by (auto elim!: str_okE)
  show "store_ok s'"
  proof (rule store_okI)
    show "fresh_ok s'" by fact
    fix t tb assume "st_tables s' t = Some tb"
    then have tb: "st_tables s t = Some tb" using same by simp
    then show "t_lock tb = 0 \<and> t_map_lock tb = 0" using ok unfolding store_ok_def by blast
    obtain m where m: "tmap s t = Some m" "map_ok s m" by (rule store_ok_tableE [OF ok tb])
    then have "map_ok s' m" using keep entry_ok_frame [of s _ s'] unfolding map_ok_def by blast
    with m(1) show "\<exists>m. tmap s' t = Some m \<and> map_ok s' m" by (simp add: tm)
    fix t' tb' assume "st_tables s' t' = Some tb'" "t_map tb = t_map tb'"
    then show "t = t'" using store_ok_maps_distinct [OF ok tb] same by simp
  next
    fix t k t' k' a assume "holds s' t k a" "holds s' t' k' a"
    then show "t = t' \<and> k = k'" unfolding hd by (rule store_ok_holds_unique [OF ok])
  qed (rule inj str; assumption)+
qed

lemma holds_lstr:
  assumes ok: "store_ok s" and h: "holds s t k a"
  shows "st_lstrs s a \<noteq> None"
proof -
  obtain m where m: "tmap s t = Some m" "lookup m k = Some (LT_STRING, P_s a)"
    using h by (auto simp: holds_def split: option.splits)
  then obtain tb where "st_tables s t = Some tb" by (auto simp: tmap_def split: option.splits)
  from store_ok_entry [OF ok this m] show ?thesis by (auto elim: str_okE)
qed

lemma slot_below:
  assumes "store_ok s" and "st_lstrs s a = Some ls"
  shows "ls_slot ls < st_next s" and "a < st_next s"
proof -
  have "str_ok s a" using store_ok_lstr [OF assms(1)] assms(2) by simp
  then have "st_slots s (ls_slot ls) \<noteq> None" using assms(2) by (auto elim: str_okE)
  then show "ls_slot ls < st_next s" using store_ok_fresh(1) [OF assms(1)] by (meson not_less)
  show "a < st_next s"
    using store_ok_fresh(2) [OF assms(1), of a] assms(2) by (metis not_less option.distinct(1))
qed

definition created :: "store \<Rightarrow> bytes \<Rightarrow> store" where
  "created s str = s\<lparr>st_slots := (st_slots s)(st_next s \<mapsto> new_string str),
     st_lstrs := (st_lstrs s)(Suc (st_next s) \<mapsto> \<lparr>ls_lock = 0, ls_slot = st_next s\<rparr>),
     st_next := Suc (Suc (st_next s))\<rparr>"

lemma string_created:
  assumes ok: "store_ok s" and len: "length str < 2 ^ 31"
  shows "store_ok (created s str)" and "tmap (created s str) = tmap s"
    and "view (created s str) = view s"
    and "str_ok (created s str) (Suc (st_next s))"
    and "view_entry (created s str) (LT_STRING, P_s (Suc (st_next s))) = Some (AStr str)"
    and "\<not> holds (created s str) t k (Suc (st_next s))"
proof -
  let ?n = "st_next s" and ?s = "created s str"
  note below = slot_below [OF ok]
  have lstr: "st_lstrs ?s a = (if a = Suc ?n then Some \<lparr>ls_lock = 0, ls_slot = ?n\<rparr> else st_lstrs s a)"
    and slot: "st_slots ?s a = (if a = ?n then Some (new_string str) else st_slots s a)" for a
    by (simp_all add: created_def)
  have fo: "fresh_ok s" using ok by (simp add: store_ok_def)
  show new: "str_ok ?s (Suc ?n)"
    using slot_ok_new [OF len] by (simp add: str_ok_def lstr slot)
  have old: "str_ok ?s a" if a: "st_lstrs s a \<noteq> None" for a
  proof -
    obtain ls where ls: "st_lstrs s a = Some ls" using a by blast
    have "str_ok s a" using a by (rule store_ok_lstr [OF ok])
    then show ?thesis using below [OF ls] ls by (auto elim!: str_okE simp: str_ok_def lstr slot)
  qed
  have fo': "fresh_ok ?s"
    using fo unfolding fresh_ok_def created_def by (auto simp: less_Suc_eq)
  have inj: "a = a'"
    if "st_lstrs ?s a = Some l" "st_lstrs ?s a' = Some l'" "ls_slot l = ls_slot l'" for a l a' l'
    using that store_ok_slots_distinct [OF ok, of a l a' l'] below(1) [of a l] below(1) [of a' l']
    by (auto simp: lstr split: if_splits)
  have same: "st_tables ?s = st_tables s" "st_maps ?s = st_maps s" by (simp_all add: created_def)
  have str: "str_ok ?s a" if "st_lstrs ?s a \<noteq> None" for a
    using that new old by (auto simp: lstr split: if_splits)
  have dom: "st_lstrs ?s a \<noteq> None" if "st_lstrs s a \<noteq> None" for a using that by (simp add: lstr)
  show "store_ok ?s"
    by (rule string_heap_change(1) [OF ok same fo']) (fact dom str inj)+
  show tm: "tmap ?s = tmap s"
    by (rule string_heap_change(2) [OF ok same fo']) (fact dom str inj)+
  have hd: "holds ?s = holds s" by (simp add: holds_def tm fun_eq_iff)
  show "view_entry ?s (LT_STRING, P_s (Suc ?n)) = Some (AStr str)"
    by (simp add: lstr slot new_string_def)
  show "\<not> holds ?s t k (Suc ?n)" using holds_lstr [OF ok, of t k "Suc ?n"] below(2) unfolding hd by fastforce
  have "view ?s t k = view s t k" for t k
  proof (cases "tmap s t")
    case (Some m)
    have "view_entry ?s e = view_entry s e" if e: "lookup m k = Some e" for e
    proof (rule view_entry_frame)
      fix a assume "e = (LT_STRING, P_s a)"
      then have "st_lstrs s a \<noteq> None" using holds_lstr [OF ok, of t k a] e Some by (simp add: holds_def)
      then show "st_lstrs ?s a = st_lstrs s a \<and>
          (\<forall>ls. st_lstrs s a = Some ls \<longrightarrow> st_slots ?s (ls_slot ls) = st_slots s (ls_slot ls))"
        using below by (auto simp: lstr slot) fastforce+
    qed
    then show ?thesis using Some by (simp add: view_def tm split: option.splits)
  qed (simp add: view_def tm)
  then show "view ?s = view s" by (simp add: fun_eq_iff)
qed

definition updated :: "store \<Rightarrow> addr \<Rightarrow> addr \<Rightarrow> bytes \<Rightarrow> store" where
  "updated s a old str = s\<lparr>st_slots := (st_slots s)(st_next s \<mapsto> new_string str, old := None),
     st_lstrs := (st_lstrs s)(a \<mapsto> \<lparr>ls_lock = 0, ls_slot = st_next s\<rparr>),
     st_next := Suc (st_next s)\<rparr>"

lemma update_string_eq:
  assumes ok: "store_ok s" and ls: "st_lstrs s a = Some ls"
  shows "update_string s a str = Inr (updated s a (ls_slot ls) str)"
proof -
  have "str_ok s a" using store_ok_lstr [OF ok] ls by simp
  then obtain ss where ss: "st_slots s (ls_slot ls) = Some ss" "slot_ok ss" "ls_lock ls = 0"
    using ls by (auto elim: str_okE)
  have "ls_slot ls \<noteq> st_next s" using slot_below(1) [OF ok ls] by simp
  then show ?thesis using ls ss slot_okD(1) [OF ss(2)]
    by (simp add: update_string_def updated_def Let_def store_simps deref_Some free_slot_def
        fun_upd_twist)
qed

lemma string_updated:
  assumes ok: "store_ok s" and ls: "st_lstrs s a = Some ls" and len: "length str < 2 ^ 31"
    and h: "holds s t k a"
  shows "store_ok (updated s a (ls_slot ls) str)"
    and "view (updated s a (ls_slot ls) str) = (view s)(t := (view s t)(k \<mapsto> AStr str))"
proof -
  let ?n = "st_next s" and ?s = "updated s a (ls_slot ls) str"
  note below = slot_below [OF ok]
  have lstr: "st_lstrs ?s b = (if b = a then Some \<lparr>ls_lock = 0, ls_slot = ?n\<rparr> else st_lstrs s b)" for b
    by (simp add: updated_def)
  have slot: "st_slots ?s b = (if b = ls_slot ls then None else if b = ?n then Some (new_string str)
      else st_slots s b)" for b
    by (simp add: updated_def)
  have ne: "ls_slot ls \<noteq> ?n" using below(1) [OF ls] by simp
  have other: "ls_slot l \<noteq> ls_slot ls \<and> ls_slot l \<noteq> ?n" if "st_lstrs s b = Some l" "b \<noteq> a" for b l
    using that store_ok_slots_distinct [OF ok that(1) ls] below(1) [OF that(1)] by auto
  have fo: "fresh_ok ?s"
    using ok below(2) [OF ls] unfolding store_ok_def fresh_ok_def updated_def
    by (auto simp: less_Suc_eq)
  have str: "str_ok ?s b" if b: "st_lstrs ?s b \<noteq> None" for b
  proof (cases "b = a")
    case True
    then show ?thesis using slot_ok_new [OF len] ne by (simp add: str_ok_def lstr slot)
  next
    case False
    with b have "st_lstrs s b \<noteq> None" by (simp add: lstr)
    then have "str_ok s b" by (rule store_ok_lstr [OF ok])
    then obtain l ss where "st_lstrs s b = Some l" "ls_lock l = 0"
      "st_slots s (ls_slot l) = Some ss" "slot_ok ss"
      by (rule str_okE)
    then show ?thesis using other [of b l] False by (simp add: str_ok_def lstr slot)
  qed
  have dom: "st_lstrs ?s b \<noteq> None" if "st_lstrs s b \<noteq> None" for b using that by (simp add: lstr)
  have inj: "b = b'"
    if "st_lstrs ?s b = Some l" "st_lstrs ?s b' = Some l'" "ls_slot l = ls_slot l'" for b l b' l'
  proof (cases "b = a"; cases "b' = a")
    assume "b = a" "b' \<noteq> a"
    then show ?thesis using that other [of b' l'] by (auto simp: lstr)
  next
    assume "b \<noteq> a" "b' = a"
    then show ?thesis using that other [of b l] by (auto simp: lstr)
  next
    assume "b \<noteq> a" "b' \<noteq> a"
    then have "st_lstrs s b = Some l" "st_lstrs s b' = Some l'" using that(1,2) by (simp_all add: lstr)
    then show ?thesis using that(3) by (rule store_ok_slots_distinct [OF ok])
  qed simp
  have same: "st_tables ?s = st_tables s" "st_maps ?s = st_maps s" by (simp_all add: updated_def)
  show "store_ok ?s"
    by (rule string_heap_change(1) [OF ok same fo]) (fact dom str inj)+
  have tm: "tmap ?s = tmap s"
    by (rule string_heap_change(2) [OF ok same fo]) (fact dom str inj)+
  have "view ?s t' k' = ((view s)(t := (view s t)(k \<mapsto> AStr str))) t' k'" for t' k'
  proof (cases "t' = t \<and> k' = k")
    case True
    then show ?thesis using h ne
      by (auto simp: holds_def view_def tm lstr slot new_string_def split: option.splits)
  next
    case False
    have "view ?s t' k' = view s t' k'"
    proof (cases "tmap s t'")
      case (Some m)
      have "view_entry ?s e = view_entry s e" if e: "lookup m k' = Some e" for e
      proof (rule view_entry_frame)
        fix b assume "e = (LT_STRING, P_s b)"
        then have hb: "holds s t' k' b" using e Some by (simp add: holds_def)
        then have "b \<noteq> a" using store_ok_holds_unique [OF ok h, of t' k'] False by blast
        then show "st_lstrs ?s b = st_lstrs s b \<and>
            (\<forall>ls. st_lstrs s b = Some ls \<longrightarrow> st_slots ?s (ls_slot ls) = st_slots s (ls_slot ls))"
          using other by (simp add: lstr slot)
      qed
      then show ?thesis using Some by (simp add: view_def tm split: option.splits)
    qed (simp add: view_def tm)
    then show ?thesis using False by auto
  qed
  then show "view ?s = (view s)(t := (view s t)(k \<mapsto> AStr str))" by blast
qed

lemma uninit_type: "v_type uninit_value = LT_NIL"
  by (simp add: uninit_value_def)

lemma string_set:
  assumes ok: "store_ok s" and t: "t \<in> dom (st_tables s)" and room: "roomy s t" and k: "okkey k"
    and set: "settable s t k (AStr str)" and len: "length str < 2 ^ 31"
  shows "\<exists>s'. set_string s t k str = Inr (s', False) \<and> store_ok s' \<and>
    view s' = (view s)(t := (view s t)(k \<mapsto> AStr str)) \<and> dom (st_tables s') = dom (st_tables s)"
proof -
  obtain tb m where tb: "st_tables s t = Some tb" and m: "tmap s t = Some m"
    by (rule table_has_map [OF ok t])
  note found = search_uninit [OF ok tb m, of k]
  note sr = getters_on_entry [OF ok tb m, of k uninit_value]
  show ?thesis
  proof (cases "view s t k")
    case None
    then have res: "search m k uninit_value = uninit_value" and none: "lookup m k = None"
      using found view_eq_None_iff [OF ok tb m, of k] unfolding None by simp_all
    let ?s1 = "created s str" and ?a = "Suc (st_next s)"
    let ?v = "uninit_value\<lparr>v_type := LT_STRING, v_v := P_s ?a\<rparr>"
    note cr = string_created [OF ok len]
    have tb1: "st_tables ?s1 t = Some tb" using tb by (simp add: created_def)
    have m1: "tmap ?s1 t = Some m" using m by (simp add: cr(2))
    have room1: "roomy ?s1 t" using room by (simp add: roomy_def cr(2))
    have e: "(LT_STRING, P_s ?a) = merge_entry (lookup m k) (v_type ?v, v_v ?v)"
      using none by simp
    have eok: "entry_ok ?s1 (LT_STRING, P_s ?a)" using cr(4) by simp
    have "\<exists>s'. insert_table ?s1 t k ?v =
        Inr (s', case lookup m k of None \<Rightarrow> LT_NIL | Some (t, _) \<Rightarrow> t) \<and> store_ok s' \<and>
      view s' = (view ?s1)(t := (view ?s1 t)(k := view_entry ?s1 (LT_STRING, P_s ?a))) \<and>
      dom (st_tables s') = dom (st_tables ?s1)"
      by (rule insert_table_ok [OF cr(1) tb1 room1 k m1 e eok]) (use cr(6) in blast)
    then obtain s' where "insert_table ?s1 t k ?v = Inr (s', LT_NIL)" "store_ok s'"
      "view s' = (view s)(t := (view s t)(k \<mapsto> AStr str))" "dom (st_tables s') = dom (st_tables s)"
      unfolding none cr(3,5) by (auto simp: created_def)
    moreover have "set_string s t k str = rbind (insert_table ?s1 t k ?v) (\<lambda>(s, type). Inr (s, False))"
      by (simp add: set_string_def sr res uninit_type Let_def alloc_slot_def alloc_lstr_def
          created_def)
    ultimately show ?thesis by simp
  next
    case (Some x)
    then obtain old where x: "x = AStr old" using set by (cases x) (auto simp: settable_def)
    obtain a ls where f: "v_type (search m k uninit_value) = LT_STRING"
      "v_v (search m k uninit_value) = P_s a" "holds s t k a" "st_lstrs s a = Some ls"
      using found unfolding Some x by auto
    have "set_string s t k str = Inr (updated s a (ls_slot ls) str, False)"
      by (simp add: set_string_def sr f update_string_eq [OF ok f(4)])
    moreover have "dom (st_tables (updated s a (ls_slot ls) str)) = dom (st_tables s)"
      by (simp add: updated_def)
    ultimately show ?thesis using string_updated [OF ok f(4) len f(3)] by blast
  qed
qed

section \<open>New tables\<close>

lemma default_map_size: "unat (next_prime DEFAULT_SIZE) = 29"
proof -
  have rej: "\<not> is_prime 5" "\<not> is_prime 6" "\<not> is_prime 7" "\<not> is_prime 8" "\<not> is_prime 9"
    "\<not> is_prime 10" "\<not> is_prime 11" "\<not> is_prime 12" "\<not> is_prime 13" "\<not> is_prime 14"
    "\<not> is_prime 15" "\<not> is_prime 16" "\<not> is_prime 17" "\<not> is_prime 18" "\<not> is_prime 19"
    "\<not> is_prime 20" "\<not> is_prime 21" "\<not> is_prime 22" "\<not> is_prime 23" "\<not> is_prime 24"
    "\<not> is_prime 25" "\<not> is_prime 26" "\<not> is_prime 27" "\<not> is_prime 28"
    by (simp_all add: is_prime_def first_sizes_def)
  have "next_prime 4 = 29"
    by (simp add: next_prime.simps rej is_prime_29)
  then show ?thesis by (simp add: DEFAULT_SIZE_def)
qed

lemma table_new_eq:
  "table_new s = (s\<lparr>st_maps := (st_maps s)(st_next s \<mapsto> lmap_new 29),
     st_tables := (st_tables s)(Suc (st_next s) \<mapsto>
       \<lparr>t_ref = 1, t_lock = 0, t_map_lock = 0, t_map = st_next s\<rparr>),
     st_next := Suc (Suc (st_next s))\<rparr>, Suc (st_next s))"
  by (simp add: table_new_def default_map_size alloc_map_def alloc_table_def Let_def)

lemma map_ok_new: "map_ok s (lmap_new 29)"
  by (simp add: map_ok_def wf_map_new refs_one_new lookup_new) (simp add: lmap_new_def)

lemma table_new_ok:
  assumes ok: "store_ok s" and new: "table_new s = (s', t)"
  shows "store_ok s'" and "view s' = (view s)(t := Map.empty)"
    and "dom (st_tables s') = insert t (dom (st_tables s))" and "t \<notin> dom (st_tables s)"
    and "roomy s' t" and "\<And>t'. roomy s t' \<Longrightarrow> roomy s' t'"
proof -
  let ?n = "st_next s"
  have s': "s' = s\<lparr>st_maps := (st_maps s)(?n \<mapsto> lmap_new 29),
     st_tables := (st_tables s)(Suc ?n \<mapsto> \<lparr>t_ref = 1, t_lock = 0, t_map_lock = 0, t_map = ?n\<rparr>),
     st_next := Suc (Suc ?n)\<rparr>" and t: "t = Suc ?n"
    using new unfolding table_new_eq prod.inject by blast+
  note fr = store_ok_fresh [OF ok]
  show tn: "t \<notin> dom (st_tables s)" using fr(4) t by auto
  show "dom (st_tables s') = insert t (dom (st_tables s))" by (simp add: s' t)
  have below: "t_map tb < ?n" if tb: "st_tables s t' = Some tb" for t' tb
  proof -
    obtain m where "quiet s t' tb m" by (rule store_ok_tableE [OF ok tb])
    then show ?thesis using fr(3) [of "t_map tb"] by (fastforce simp: quiet_def not_less [symmetric])
  qed
  have tm: "tmap s' = (tmap s)(t \<mapsto> lmap_new 29)"
  proof
    fix t'
    show "tmap s' t' = ((tmap s)(t \<mapsto> lmap_new 29)) t'"
      using below [of t'] by (cases "t' = t"; cases "st_tables s t'") (fastforce simp: tmap_def s' t)+
  qed
  have strs: "st_lstrs s' = st_lstrs s" "st_slots s' = st_slots s" by (simp_all add: s')
  have sok: "str_ok s' = str_ok s" by (rule ext) (simp only: str_ok_def strs)
  have eok: "entry_ok s' e = entry_ok s e" for e
    by (cases "(s, e)" rule: entry_ok.cases) (simp_all add: sok)
  have hd: "holds s' t' k a \<Longrightarrow> holds s t' k a" for t' k a
    by (auto simp: holds_def tm lookup_new split: if_splits)
  show "store_ok s'"
  proof (rule store_okI)
    show "fresh_ok s'" using ok unfolding store_ok_def fresh_ok_def
      by (auto simp: s' less_Suc_eq)
    fix t1 tb1 assume 1: "st_tables s' t1 = Some tb1"
    have old1: "t1 = t \<and> t_map tb1 = ?n \<and> t_lock tb1 = 0 \<and> t_map_lock tb1 = 0 \<or>
        t1 \<noteq> t \<and> st_tables s t1 = Some tb1"
      using 1 by (auto simp: s' t split: if_splits)
    then show "t_lock tb1 = 0 \<and> t_map_lock tb1 = 0" using ok unfolding store_ok_def by blast
    show "\<exists>m. tmap s' t1 = Some m \<and> map_ok s' m"
    proof (cases "t1 = t")
      case True
      then show ?thesis using map_ok_new by (simp add: tm)
    next
      case False
      with old1 have "st_tables s t1 = Some tb1" by blast
      then obtain m where "tmap s t1 = Some m" "map_ok s m" by (rule store_ok_tableE [OF ok])
      then show ?thesis using False by (simp add: tm map_ok_def eok)
    qed
    fix t2 tb2 assume 2: "st_tables s' t2 = Some tb2" and eq: "t_map tb1 = t_map tb2"
    have old2: "t2 = t \<and> t_map tb2 = ?n \<or> t2 \<noteq> t \<and> st_tables s t2 = Some tb2"
      using 2 by (auto simp: s' t split: if_splits)
    show "t1 = t2"
      using old1 old2 eq below [of t1 tb1] below [of t2 tb2]
        store_ok_maps_distinct [OF ok, of t1 tb1 t2 tb2] by auto
  next
    fix t1 k1 t2 k2 a assume "holds s' t1 k1 a" "holds s' t2 k2 a"
    then show "t1 = t2 \<and> k1 = k2" using hd store_ok_holds_unique [OF ok] by blast
  next
    fix a l a' l'
    assume "st_lstrs s' a = Some l" "st_lstrs s' a' = Some l'" "ls_slot l = ls_slot l'"
    then show "a = a'" unfolding strs by (rule store_ok_slots_distinct [OF ok])
  next
    fix a assume "st_lstrs s' a \<noteq> None"
    then show "str_ok s' a" unfolding sok strs by (rule store_ok_lstr [OF ok])
  qed
  have ve: "view_entry s' e = view_entry s e" for e
    by (rule view_entry_frame) (simp add: strs)
  show "view s' = (view s)(t := Map.empty)"
    by (rule ext) (auto simp: view_def tm ve lookup_new fun_eq_iff cong: option.case_cong)
  show "roomy s' t" by (simp add: roomy_def tm lmap_new_def)
  show "roomy s' t'" if "roomy s t'" for t'
    using that by (auto simp: roomy_def tm lmap_new_def)
qed

lemma empty_store_ok: "store_ok empty_store"
  by (rule store_okI) (auto simp: empty_store_def fresh_ok_def holds_def tmap_def)

end
