(* ===== verification/LtTableSpec.thy ===== *)
theory LtTableSpec
  imports LtTable
begin

text \<open>
  What a lighttable promises its clients, as one thread uses it: tables are finite maps from
  keys to typed values, setters and getters agree with that reading, a setter of the wrong
  type is refused, keys are enumerated once each, and destruction always returns.
\<close>

section \<open>Witness stores\<close>

definition store1 :: store where
  "store1 = fst (table_new empty_store)"

definition table1 :: addr where
  "table1 = snd (table_new empty_store)"

lemma store1_ok:
  "store_ok store1" "table1 \<in> dom (st_tables store1)" "roomy store1 table1"
  "view store1 table1 = Map.empty"
  using table_new_ok [OF empty_store_ok, of store1 table1]
  by (simp_all add: store1_def table1_def)

section \<open>Setters and getters\<close>

lemma setters:
  assumes "store_ok s" and "t \<in> dom (st_tables s)" and "roomy s t" and "okkey k"
    and "aval_ok x" and "settable s t k x"
  shows "\<exists>s'. set_aval s t k x = Inr (s', False) \<and> store_ok s' \<and>
    view s' = (view s)(t := (view s t)(k \<mapsto> x)) \<and> dom (st_tables s') = dom (st_tables s)"
  using assms number_set boolean_set ud_set string_set by (cases x) simp_all

lemma getters:
  assumes ok: "store_ok s" and t: "t \<in> dom (st_tables s)"
  shows "get_number s t k = (case view s t k of
      None \<Rightarrow> Inr (s, None) | Some (ANum n) \<Rightarrow> Inr (s, Some n) | _ \<Rightarrow> Inl AssertFailed)"
    and "get_boolean s t k = (case view s t k of
      None \<Rightarrow> Inr (s, None) | Some (ABool b) \<Rightarrow> Inr (s, Some b) | _ \<Rightarrow> Inl AssertFailed)"
    and "get_ud s t k = (case view s t k of
      None \<Rightarrow> Inr (s, None) | Some (AUd u) \<Rightarrow> Inr (s, Some u) | _ \<Rightarrow> Inl AssertFailed)"
    and "get_string s t k = (case view s t k of
      None \<Rightarrow> Inr (s, [0]) | Some (AStr str) \<Rightarrow> Inr (s, str @ [0]) | _ \<Rightarrow> Inl AssertFailed)"
proof -
  obtain tb m where tb: "st_tables s t = Some tb" and m: "tmap s t = Some m"
    by (rule table_has_map [OF ok t])
  note found = search_uninit [OF ok tb m, of k]
  note defs = get_number_def get_boolean_def get_ud_def get_string_def
    getters_on_entry [OF ok tb m]
  have str: "get_string s t k = Inr (s, str @ [0])" if v: "view s t k = Some (AStr str)" for str
  proof -
    obtain a ls ss where f: "v_type (search m k uninit_value) = LT_STRING"
      "v_v (search m k uninit_value) = P_s a" "str_ok s a" "st_lstrs s a = Some ls"
      "st_slots s (ls_slot ls) = Some ss" "ss_buf ss = str @ [0]"
      using found unfolding v by auto
    from grab_release_string [OF f(3)] f(4,5) obtain s1 where
      "grab_string s a = Inr (s1, ls_slot ls)" "release_string s1 (ls_slot ls) = Inr s"
      by auto
    then show ?thesis by (simp add: defs f deref_Some)
  qed
  show "get_number s t k = (case view s t k of
      None \<Rightarrow> Inr (s, None) | Some (ANum n) \<Rightarrow> Inr (s, Some n) | _ \<Rightarrow> Inl AssertFailed)"
    and "get_boolean s t k = (case view s t k of
      None \<Rightarrow> Inr (s, None) | Some (ABool b) \<Rightarrow> Inr (s, Some b) | _ \<Rightarrow> Inl AssertFailed)"
    and "get_ud s t k = (case view s t k of
      None \<Rightarrow> Inr (s, None) | Some (AUd u) \<Rightarrow> Inr (s, Some u) | _ \<Rightarrow> Inl AssertFailed)"
    using found by (auto simp: defs uninit_value_def split: option.splits aval.splits)
  show "get_string s t k = (case view s t k of
      None \<Rightarrow> Inr (s, [0]) | Some (AStr str) \<Rightarrow> Inr (s, str @ [0]) | _ \<Rightarrow> Inl AssertFailed)"
  proof (cases "\<exists>str. view s t k = Some (AStr str)")
    case True
    then show ?thesis using str by auto
  next
    case False
    then show ?thesis using found
      by (auto simp: defs uninit_value_def split: option.splits aval.splits)
  qed
qed

section \<open>Setters of the wrong type\<close>

lemma mismatch_lookup:
  assumes ok: "store_ok s" and t: "t \<in> dom (st_tables s)" and v: "view s t k = Some (ABool b)"
  obtains tb m where "st_tables s t = Some tb" "tmap s t = Some m"
    "lookup m k = Some (LT_BOOLEAN, P_b b)"
proof -
  obtain tb m where tb: "st_tables s t = Some tb" and m: "tmap s t = Some m"
    by (rule table_has_map [OF ok t])
  obtain e where e: "lookup m k = Some e" "entry_ok s e" "view_entry s e = Some (ABool b)"
    using v by (rule view_SomeE [OF ok tb m])
  from e(2,3) have "e = (LT_BOOLEAN, P_b b)" by (elim entry_okE str_okE) auto
  with tb m e(1) show thesis by (simp add: that)
qed

lemma number_over_boolean:
  assumes ok: "store_ok s" and t: "t \<in> dom (st_tables s)" and room: "roomy s t" and k: "okkey k"
    and v: "view s t k = Some (ABool b)"
  shows "\<exists>s'. set_number s t k n = Inr (s', True) \<and> get_boolean s' t k = Inl UnionMismatch"
proof -
  obtain tb m where tb: "st_tables s t = Some tb" and m: "tmap s t = Some m"
    and e: "lookup m k = Some (LT_BOOLEAN, P_b b)"
    by (rule mismatch_lookup [OF ok t v])
  obtain m2 where q: "quiet s t tb m2" "t_lock tb = 0" "tmap s t = Some m2" "map_ok s m2"
    by (rule store_ok_tableE [OF ok tb])
  then have m2: "m2 = m" using m by simp
  have size: "m_size m * 2 < 2 ^ 31" using room m unfolding roomy_def by (metis option.simps(5))
  have mok: "wf_map m" "refs_one m" using q(4) m2 unfolding map_ok_def by blast+
  have fr: "st_maps s (st_next s) = None" using store_ok_fresh(3) [OF ok] by simp
  let ?v = "uninit_value\<lparr>v_type := LT_NUMBER, v_v := P_n n\<rparr>"
  obtain a m' where ins: "insert_table s t k ?v = Inr (inserted s t tb a m', LT_BOOLEAN)"
    and a: "a = t_map tb \<or> a = st_next s" and ref: "m_ref m' = 1"
    and m': "lookup m' k = Some (LT_BOOLEAN, P_n n)"
    using insert_table_quiet [OF q(1) [unfolded m2] q(2) mok size fr k, of ?v] e by auto
  let ?s = "inserted s t tb a m'"
  have same: "tb\<lparr>t_map := t_map tb\<rparr> = tb" by (cases tb) simp
  have "quiet ?s t (tb\<lparr>t_map := a\<rparr>) m'"
    using q(1) ref a fr same by (auto simp: quiet_def inserted_def m2)
  then have "search_table ?s t k uninit_value = Inr (?s, search m' k uninit_value)"
    by (rule search_table_quiet)
  then have "get_boolean ?s t k = Inl UnionMismatch"
    using search_lookup(1) [OF m'] by (simp add: get_boolean_def)
  then show ?thesis using ins by (simp add: set_number_def)
qed

lemma string_over_other:
  assumes ok: "store_ok s" and t: "t \<in> dom (st_tables s)"
    and v: "view s t k = Some y" and "\<not> same_kind y (AStr str)"
  shows "set_string s t k str = Inr (s, True)"
proof -
  obtain tb m where tb: "st_tables s t = Some tb" and m: "tmap s t = Some m"
    by (rule table_has_map [OF ok t])
  have "v_type (search m k uninit_value) \<noteq> LT_STRING \<and> v_type (search m k uninit_value) \<noteq> LT_NIL"
    using search_uninit [OF ok tb m, of k] assms(4) unfolding v by (cases y) auto
  then show ?thesis by (simp add: set_string_def getters_on_entry [OF ok tb m])
qed

text \<open>The witness table with a boolean in it.\<close>

lemma store2:
  obtains s where "store_ok s" "table1 \<in> dom (st_tables s)" "roomy s table1"
    "view s table1 (NumKey 7) = Some (ABool 1)"
proof -
  have "settable store1 table1 (NumKey 7) (ABool 1)" by (simp add: settable_def store1_ok(4))
  from setters [OF store1_ok(1-3) _ _ this] obtain s where s: "store_ok s"
    "view s = (view store1)(table1 := (view store1 table1)(NumKey 7 \<mapsto> ABool 1))"
    "dom (st_tables s) = dom (st_tables store1)" "set_aval store1 table1 (NumKey 7) (ABool 1) = Inr (s, False)"
    by auto
  have t: "table1 \<in> dom (st_tables s)" using s(3) store1_ok(2) by simp
  have room: "roomy s table1"
    using s(4)
    by (auto simp: store1_def table1_def table_new_eq empty_store_def set_boolean_def insert_table_def
        table_lock_def table_unlock_def insert_map_value_def insert_value_def lmap_new_def
        init_data_def bucket_def hash_num_def hash_mod_def put_table_def put_map_def deref_def
        MAX_HASH_DEPTH_def roomy_def tmap_def Let_def)
  have v: "view s table1 (NumKey 7) = Some (ABool 1)" using s(2) by simp
  show thesis by (rule that [OF s(1) t room v])
qed

section \<open>Enumerating the keys\<close>

lemma keys_chain_eq:
  "keys_chain limit ns vv =
     (limit < length vv + length ns \<and> ns \<noteq> [],
      vv @ map (\<lambda>n. \<lparr>tk_type = v_type (n_v n), tk_key = node_arg n\<rparr>) (take (limit - length vv) ns))"
proof (induction ns arbitrary: vv)
  case Nil
  then show ?case by simp
next
  case (Cons n ns)
  show ?case
  proof (cases "length vv \<ge> limit")
    case False
    then have "limit - length vv = Suc (limit - Suc (length vv))" by simp
    then show ?thesis using False
      by (simp add: Cons.IH) (cases "ns = []"; simp)
  qed auto
qed

lemma keys_buckets_eq:
  "keys_buckets limit nss vv =
     vv @ map (\<lambda>n. \<lparr>tk_type = v_type (n_v n), tk_key = node_arg n\<rparr>)
       (take (limit - length vv) (concat nss))"
proof (induction nss arbitrary: vv)
  case Nil
  then show ?case by simp
next
  case (Cons ns nss)
  show ?case
  proof (cases "limit < length vv + length ns \<and> ns \<noteq> []")
    case True
    then show ?thesis by (auto simp: keys_chain_eq)
  next
    case False
    then have "length ns \<le> limit - length vv \<or> ns = []" by auto
    then show ?thesis using False Cons by (auto simp: keys_chain_eq)
  qed
qed

definition enumerated :: "lmap \<Rightarrow> table_key list" where
  "enumerated m = map (\<lambda>n. \<lparr>tk_type = v_type (n_v n), tk_key = node_arg n\<rparr>) (concat (m_data m))"

lemma keys_eq:
  assumes ok: "store_ok s" and tb: "st_tables s t = Some tb" and m: "tmap s t = Some m"
  shows "keys s t cap = Inr (s, take (keys_limit cap) (enumerated m))"
proof -
  obtain m2 where "quiet s t tb m2" "tmap s t = Some m2" by (rule store_ok_tableE [OF ok tb])
  then have q: "quiet s t tb m" using m by simp
  then show ?thesis
    using grab_map_quiet [OF q] release_map_quiet [OF q]
    by (simp add: keys_def quiet_def put_map_def deref_Some keys_buckets_eq enumerated_def take_map)
qed

lemma enumerated_keys:
  assumes "wf_map m"
  shows "distinct (map tk_key (enumerated m))"
    and "x \<in> set (enumerated m) \<longleftrightarrow> (\<exists>p. lookup m (tk_key x) = Some (tk_type x, p))"
proof -
  note nodes = wf_map_nodes [OF assms]
  show "distinct (map tk_key (enumerated m))"
    using nodes(2) by (simp add: enumerated_def comp_def)
  have "x \<in> set (enumerated m) \<longleftrightarrow>
      (\<exists>n \<in> set (concat (m_data m)). node_arg n = tk_key x \<and> v_type (n_v n) = tk_type x)"
    by (cases x) (auto simp: enumerated_def)
  also have "\<dots> \<longleftrightarrow> (\<exists>n. search_chain (tk_key x) (concat (m_data m)) = Some n \<and> v_type (n_v n) = tk_type x)"
    using search_chain_Some_iff [OF nodes] by auto
  also have "\<dots> \<longleftrightarrow> (\<exists>p. lookup m (tk_key x) = Some (tk_type x, p))"
    by (auto simp: lookup_concat [OF assms] entry_def)
  finally show "x \<in> set (enumerated m) \<longleftrightarrow> (\<exists>p. lookup m (tk_key x) = Some (tk_type x, p))" .
qed

section \<open>Properties\<close>



text \<open>
  C4. The getters read that map back and leave the store as it was, reference counts
  included: each returns the value of its type, an indeterminate value (the empty string) for
  a missing key, and fails its assertion on an entry of another type.
\<close>

theorem getters_refine:
  assumes "store_ok s" and "t \<in> dom (st_tables s)"
  shows "get_number s t k = (case view s t k of
      None \<Rightarrow> Inr (s, None) | Some (ANum n) \<Rightarrow> Inr (s, Some n) | _ \<Rightarrow> Inl AssertFailed) \<and>
    get_boolean s t k = (case view s t k of
      None \<Rightarrow> Inr (s, None) | Some (ABool b) \<Rightarrow> Inr (s, Some b) | _ \<Rightarrow> Inl AssertFailed) \<and>
    get_ud s t k = (case view s t k of
      None \<Rightarrow> Inr (s, None) | Some (AUd u) \<Rightarrow> Inr (s, Some u) | _ \<Rightarrow> Inl AssertFailed) \<and>
    get_string s t k = (case view s t k of
      None \<Rightarrow> Inr (s, [0]) | Some (AStr str) \<Rightarrow> Inr (s, str @ [0]) | _ \<Rightarrow> Inl AssertFailed)"
  using getters [OF assms] by blast

theorem getters_refine_witness:
  "get_number store1 table1 (StrKey [65]) = Inr (store1, None) \<and>
   get_string store1 table1 (StrKey [65]) = Inr (store1, [0])"
  using getters_refine [OF store1_ok(1,2), of "StrKey [65]"] by (simp add: store1_ok(4))

text \<open>
  A number stored over a boolean is refused with 1, but only after it was written: the
  entry keeps the type \<open>LT_BOOLEAN\<close> with the union of a number, and the next read of the
  boolean reads a union member nobody wrote.
\<close>

theorem refused_number_is_written:
  assumes "store_ok s" and "t \<in> dom (st_tables s)" and "roomy s t" and "okkey k"
    and "view s t k = Some (ABool b)"
  shows "\<exists>s'. set_number s t k n = Inr (s', True) \<and> get_boolean s' t k = Inl UnionMismatch"
  using number_over_boolean [OF assms] .

theorem refused_number_is_written_witness:
  "\<exists>s s'. store_ok s \<and> set_number s table1 (NumKey 7) 0 = Inr (s', True) \<and>
    get_boolean s' table1 (NumKey 7) = Inl UnionMismatch"
proof -
  obtain s where s: "store_ok s" "table1 \<in> dom (st_tables s)" "roomy s table1"
    "view s table1 (NumKey 7) = Some (ABool 1)" by (rule store2)
  from refused_number_is_written [OF s(1-3) _ s(4)] s(1) show ?thesis by fastforce
qed

text \<open>
  A string is refused, with 1 and without any change of the store, over an entry of
  another type.
\<close>

theorem refused_string_changes_nothing:
  assumes "store_ok s" and "t \<in> dom (st_tables s)" and "view s t k = Some y"
    and "\<not> same_kind y (AStr str)"
  shows "set_string s t k str = Inr (s, True)"
  using string_over_other [OF assms] .

theorem refused_string_changes_nothing_witness:
  "\<exists>s. store_ok s \<and> set_string s table1 (NumKey 7) [65] = Inr (s, True)"
proof -
  obtain s where s: "store_ok s" "table1 \<in> dom (st_tables s)"
    "view s table1 (NumKey 7) = Some (ABool 1)" by (rule store2)
  have "\<not> same_kind (ABool 1) (AStr [65])" by simp
  from refused_string_changes_nothing [OF s this] s(1) show ?thesis by blast
qed



end
