(* ===== verification/LtDelete.thy ===== *)
theory LtDelete
  imports LtTableSpec
begin

text \<open>
  Destruction of tables: \<open>_release\<close> and the destructors return whatever the tables refer to,
  and deleting a table without sub-tables frees exactly what it owns.
\<close>

section \<open>Destruction returns\<close>

definition alive :: "store \<Rightarrow> addr set" where
  "alive s = {t. \<exists>tb. st_tables s t = Some tb \<and> 0 < t_ref tb}"

definition shrunk :: "store \<Rightarrow> store \<Rightarrow> bool" where
  "shrunk s' s \<longleftrightarrow> alive s' \<subseteq> alive s \<and> dom (st_tables s') \<subseteq> dom (st_tables s) \<and>
     st_next s' = st_next s"

lemma shrunk_refl [simp]: "shrunk s s"
  by (simp add: shrunk_def)

lemma shrunk_trans: "shrunk s2 s1 \<Longrightarrow> shrunk s1 s \<Longrightarrow> shrunk s2 s"
  unfolding shrunk_def by (elim conjE, intro conjI) (erule (1) subset_trans, erule (1) subset_trans, simp)

text \<open>A step of a destructor: it has fuel and leaves a store that shrank.\<close>

definition returns :: "store \<Rightarrow> store result \<Rightarrow> bool" where
  "returns s r \<longleftrightarrow> r \<noteq> Inl OutOfFuel \<and> (\<forall>s'. r = Inr s' \<longrightarrow> shrunk s' s)"

lemma returns_Inr [simp]: "returns s (Inr s') \<longleftrightarrow> shrunk s' s"
  by (simp add: returns_def)

lemma returns_Inl [simp]: "returns s (Inl e) \<longleftrightarrow> e \<noteq> OutOfFuel"
  by (simp add: returns_def)

lemma returns_bind:
  assumes "returns s r" and "\<And>s1. shrunk s1 s \<Longrightarrow> returns s1 (f s1)"
  shows "returns s (rbind r f)"
proof (cases r)
  case (Inr s1)
  then have s1: "shrunk s1 s" using assms(1) by simp
  then show ?thesis using assms(2) [OF s1] Inr unfolding returns_def by (auto intro: shrunk_trans)
qed (use assms(1) in simp)

lemma returns_deref:
  "(\<And>x. h a = Some x \<Longrightarrow> returns s (f x)) \<Longrightarrow> returns s (rbind (deref h a) f)"
  by (cases "h a") (simp_all add: deref_def)

lemma returns_mono: "returns s1 r \<Longrightarrow> shrunk s1 s \<Longrightarrow> returns s r"
  unfolding returns_def by (auto intro: shrunk_trans)

lemma returns_frees:
  "returns s (free_slot s a)" "returns s (free_lstr s a)" "returns s (free_map s a)"
  "returns s (free_table s a)"
  unfolding free_slot_def free_lstr_def free_map_def free_table_def
  by (rule returns_deref; auto simp: shrunk_def alive_def split: if_splits)+

lemma shrunk_put_table:
  "st_tables s t = Some tb \<Longrightarrow> t_ref tb' \<le> max 0 (t_ref tb) \<Longrightarrow> shrunk (put_table s t tb') s"
  by (auto simp: shrunk_def alive_def put_table_def split: if_splits)

text \<open>
  What the destructors rely on when they call \<open>_release\<close>: on the stores it can be called on
  it does not run out of fuel and makes no table alive that was not.
\<close>

locale releaser =
  fixes rel :: "store \<Rightarrow> addr \<Rightarrow> store result"
    and pre :: "store \<Rightarrow> bool"
  assumes rel_returns: "pre s \<Longrightarrow> returns s (rel s t)"
    and pre_shrunk: "pre s \<Longrightarrow> shrunk s' s \<Longrightarrow> pre s'"
begin

lemma clear_value_returns: "pre s \<Longrightarrow> returns s (clear_value rel s v)"
  unfolding clear_value_def
  by (auto split: lt_type.splits payload.splits
      intro!: returns_deref returns_bind returns_frees rel_returns)

lemma clear_values_returns: "pre s \<Longrightarrow> returns s (clear_values rel s vs)"
  by (induction vs arbitrary: s) (auto intro!: returns_bind clear_value_returns intro: pre_shrunk)

lemma delete_map_returns: "pre s \<Longrightarrow> returns s (delete_map rel s a)"
  unfolding delete_map_def
  by (auto intro!: returns_deref returns_bind clear_values_returns returns_frees)

lemma destroy_table_returns: "pre s \<Longrightarrow> returns s (destroy_table rel s t)"
  unfolding destroy_table_def Let_def
proof (rule returns_deref)
  fix tb assume pre: "pre s" and tb: "st_tables s t = Some tb"
  let ?s = "put_table s t (tb\<lparr>t_ref := 0, t_lock := 0, t_map_lock := 0\<rparr>)"
  have sh: "shrunk ?s s" by (rule shrunk_put_table [OF tb]) simp
  have "returns ?s (rbind (delete_map rel ?s (t_map tb)) (\<lambda>s. free_table s t))"
    by (rule returns_bind [OF delete_map_returns [OF pre_shrunk [OF pre sh]] returns_frees(4)])
  then show "returns s (rbind (delete_map rel ?s (t_map tb)) (\<lambda>s. free_table s t))"
    using sh by (rule returns_mono)
qed

end

lemma alive_closed:
  "finite (alive s) \<and> card (alive s) < n \<Longrightarrow> shrunk s' s \<Longrightarrow> finite (alive s') \<and> card (alive s') < n"
  by (auto simp: shrunk_def intro: finite_subset le_less_trans [OF card_mono])

lemma releaser_release_fuel:
  "releaser (release_fuel fuel) (\<lambda>s. finite (alive s) \<and> card (alive s) < fuel)"
proof (induction fuel)
  case 0
  show ?case by unfold_locales simp_all
next
  case (Suc fuel)
  have "returns s (release_fuel (Suc fuel) s t)"
    if pre: "finite (alive s) \<and> card (alive s) < Suc fuel" for s t
    unfolding release_fuel.simps Let_def
  proof (rule returns_deref)
    fix tb assume tb: "st_tables s t = Some tb"
    let ?s = "put_table s t (tb\<lparr>t_ref := t_ref tb - 1\<rparr>)"
    have sh: "shrunk ?s s" by (rule shrunk_put_table [OF tb]) simp
    show "returns s (if t_ref tb - 1 \<noteq> 0 then Inr ?s else destroy_table (release_fuel fuel) ?s t)"
    proof (cases "t_ref tb - 1 = 0")
      case True
      then have "t \<in> alive s" "t \<notin> alive ?s" using tb by (auto simp: alive_def put_table_def)
      then have "alive ?s \<subset> alive s" using sh by (auto simp: shrunk_def)
      then have "finite (alive ?s) \<and> card (alive ?s) < fuel"
        using pre psubset_card_mono [of "alive s" "alive ?s"] by (auto intro: finite_subset)
      from returns_mono [OF releaser.destroy_table_returns [OF Suc.IH this] sh]
      show ?thesis using True by simp
    qed (use sh in simp)
  qed
  then show ?case by unfold_locales (simp, rule alive_closed)
qed

definition tables_below :: "store \<Rightarrow> bool" where
  "tables_below s \<longleftrightarrow> (\<forall>t \<in> dom (st_tables s). t < st_next s)"

lemma tables_below_alive:
  assumes "tables_below s"
  shows "finite (alive s) \<and> card (alive s) < Suc (st_next s)"
proof -
  have sub: "alive s \<subseteq> {..<st_next s}" using assms by (auto simp: tables_below_def alive_def)
  have "card (alive s) \<le> st_next s" using card_mono [OF _ sub] by simp
  then show ?thesis using finite_subset [OF sub] by simp
qed

interpretation rel: releaser release tables_below
proof
  fix s s' t
  assume pre: "tables_below s"
  show "returns s (release s t)"
    unfolding release_def
    by (rule releaser.rel_returns [OF releaser_release_fuel tables_below_alive [OF pre]])
  assume "shrunk s' s"
  with pre show "tables_below s'" unfolding shrunk_def tables_below_def by (metis subsetD)
qed

section \<open>What a deleted table frees\<close>

fun str_addrs :: "lt_value list \<Rightarrow> addr list" where
  "str_addrs [] = []"
| "str_addrs (v # vs) =
     (case (v_type v, v_v v) of (LT_STRING, P_s a) \<Rightarrow> a # str_addrs vs | _ \<Rightarrow> str_addrs vs)"

definition buffers :: "store \<Rightarrow> addr set \<Rightarrow> addr set" where
  "buffers s A = {sl. \<exists>a \<in> A. \<exists>ls. st_lstrs s a = Some ls \<and> ls_slot ls = sl}"

definition without_strings :: "store \<Rightarrow> addr set \<Rightarrow> store" where
  "without_strings s A = s\<lparr>st_slots := st_slots s |` (- buffers s A), st_lstrs := st_lstrs s |` (- A)\<rparr>"

lemma without_strings_sel:
  "st_slots (without_strings s A) = st_slots s |` (- buffers s A)"
  "st_lstrs (without_strings s A) = st_lstrs s |` (- A)"
  "st_maps (without_strings s A) = st_maps s"
  "st_tables (without_strings s A) = st_tables s"
  "st_next (without_strings s A) = st_next s"
  by (simp_all add: without_strings_def)

lemma without_no_strings [simp]: "without_strings s {} = s"
  by (cases s) (simp add: without_strings_def buffers_def restrict_map_def)

lemma clear_value_string:
  assumes "str_ok s a" and "v_type v = LT_STRING" and "v_v v = P_s a"
  shows "clear_value rel s v = Inr (without_strings s {a})"
proof -
  obtain ls ss where ls: "st_lstrs s a = Some ls" "st_slots s (ls_slot ls) = Some ss"
    using assms(1) by (rule str_okE)
  then have "buffers s {a} = {ls_slot ls}" by (auto simp: buffers_def)
  moreover have "st_lstrs s |` (- {a}) = (st_lstrs s)(a := None)"
    "st_slots s |` (- {ls_slot ls}) = (st_slots s)(ls_slot ls := None)"
    by (auto simp: restrict_map_def fun_eq_iff)
  ultimately show ?thesis using ls assms(2,3)
    by (cases s) (simp add: clear_value_def free_slot_def free_lstr_def deref_Some without_strings_def)
qed

lemma str_ok_without:
  assumes "str_ok s b" and "b \<noteq> a"
    and inj: "\<And>a l a' l'. st_lstrs s a = Some l \<Longrightarrow> st_lstrs s a' = Some l' \<Longrightarrow>
        ls_slot l = ls_slot l' \<Longrightarrow> a = a'"
  shows "str_ok (without_strings s {a}) b"
proof -
  obtain ls ss where ls: "st_lstrs s b = Some ls" "ls_lock ls = 0"
    "st_slots s (ls_slot ls) = Some ss" "slot_ok ss"
    using assms(1) by (rule str_okE)
  have "ls_slot ls \<notin> buffers s {a}"
    using inj [OF ls(1)] assms(2) by (auto simp: buffers_def)
  then show ?thesis using ls assms(2) by (simp add: str_ok_def without_strings_def)
qed

lemma without_strings_insert:
  assumes "a \<notin> A"
  shows "without_strings (without_strings s {a}) A = without_strings s (insert a A)"
proof -
  have b: "buffers (without_strings s {a}) A = buffers s A"
    unfolding buffers_def
  proof (intro Collect_cong bex_cong refl)
    fix sl b assume "b \<in> A"
    then have "b \<noteq> a" using assms by blast
    then show "(\<exists>ls. st_lstrs (without_strings s {a}) b = Some ls \<and> ls_slot ls = sl) \<longleftrightarrow>
        (\<exists>ls. st_lstrs s b = Some ls \<and> ls_slot ls = sl)"
      by (simp add: without_strings_def)
  qed
  have c: "buffers s (insert a A) = buffers s {a} \<union> buffers s A" by (auto simp: buffers_def)
  have r: "m |` (- X) |` (- Y) = m |` (- (X \<union> Y))" for m :: "addr \<rightharpoonup> 'b" and X Y
    by (rule ext) (simp add: restrict_map_def)
  have r2: "m |` (- {a}) |` (- A) = m |` (- insert a A)" for m :: "addr \<rightharpoonup> 'b"
    by (rule ext) (simp add: restrict_map_def)
  show ?thesis
    by (rule store.equality) (simp_all only: without_strings_sel b c r r2, simp_all)
qed

lemma clear_values_strings:
  assumes "\<forall>v \<in> set vs. v_type v \<noteq> LT_UD \<and> entry_ok s (v_type v, v_v v)"
    and "distinct (str_addrs vs)"
    and inj: "\<And>a l a' l'. st_lstrs s a = Some l \<Longrightarrow> st_lstrs s a' = Some l' \<Longrightarrow>
        ls_slot l = ls_slot l' \<Longrightarrow> a = a'"
  shows "clear_values rel s vs = Inr (without_strings s (set (str_addrs vs)))"
  using assms
proof (induction vs arbitrary: s)
  case Nil
  then show ?case by simp
next
  case (Cons v vs)
  have "entry_ok s (v_type v, v_v v)" using Cons.prems(1) by simp
  then show ?case
  proof (cases rule: entry_okE)
    case (4 a)
    let ?s = "without_strings s {a}"
    have v: "v_type v = LT_STRING" "v_v v = P_s a" using 4 by simp_all
    have a: "a \<notin> set (str_addrs vs)" using Cons.prems(2) v by simp
    have keep: "entry_ok ?s (v_type w, v_v w)" if w: "w \<in> set vs" for w
    proof -
      have "entry_ok s (v_type w, v_v w)" using Cons.prems(1) w by simp
      then show ?thesis
      proof (cases rule: entry_okE)
        case w4: (4 b)
        then have "b \<in> set (str_addrs vs)" using w by (induction vs) (auto split: lt_type.splits payload.splits)
        then have "b \<noteq> a" using a by blast
        then show ?thesis using w4 str_ok_without [OF w4(2)] Cons.prems(3) by simp
      qed auto
    qed
    have inj1: "c = c'" if "st_lstrs ?s c = Some l" "st_lstrs ?s c' = Some l'" "ls_slot l = ls_slot l'"
      for c l c' l'
      using that Cons.prems(3) [of c l c' l'] by (auto simp: without_strings_def restrict_map_def split: if_splits)
    have "clear_values rel ?s vs = Inr (without_strings ?s (set (str_addrs vs)))"
      by (rule Cons.IH) (use keep Cons.prems(1,2) v inj1 in auto)
    then show ?thesis using clear_value_string [OF 4(2) v] v without_strings_insert [OF a] by simp
  qed (use Cons in \<open>simp_all add: clear_value_def\<close>)
qed

definition owned :: "store \<Rightarrow> addr \<Rightarrow> addr set" where
  "owned s t = {a. \<exists>k. holds s t k a}"

lemma str_addrs_iff: "a \<in> set (str_addrs vs) \<longleftrightarrow> (\<exists>v \<in> set vs. v_type v = LT_STRING \<and> v_v v = P_s a)"
  by (induction vs) (auto split: lt_type.splits payload.splits)

lemma distinct_str_addrs:
  assumes "distinct (map node_arg ns)"
    and "\<And>n n' a. n \<in> set ns \<Longrightarrow> n' \<in> set ns \<Longrightarrow> entry n = (LT_STRING, P_s a) \<Longrightarrow>
        entry n' = (LT_STRING, P_s a) \<Longrightarrow> node_arg n = node_arg n'"
  shows "distinct (str_addrs (map n_v ns))"
  using assms
proof (induction ns)
  case Nil
  then show ?case by simp
next
  case (Cons n ns)
  have IH: "distinct (str_addrs (map n_v ns))"
    by (rule Cons.IH) (use Cons.prems in auto)
  show ?case
  proof (cases "\<exists>a. entry n = (LT_STRING, P_s a)")
    case True
    then obtain a where a: "entry n = (LT_STRING, P_s a)" by blast
    have "a \<notin> set (str_addrs (map n_v ns))"
    proof
      assume "a \<in> set (str_addrs (map n_v ns))"
      then obtain n' where n': "n' \<in> set ns" "entry n' = (LT_STRING, P_s a)"
        by (auto simp: str_addrs_iff entry_def)
      then have "node_arg n \<in> set (map node_arg ns)" using Cons.prems(2) [of n n' a] a by simp
      then show False using Cons.prems(1) by simp
    qed
    then show ?thesis using a IH by (simp add: entry_def)
  next
    case False
    then show ?thesis using IH by (auto simp: entry_def split: lt_type.splits payload.splits)
  qed
qed

lemma nodes_of_map:
  assumes "wf_map m"
  shows "n \<in> set (concat (m_data m)) \<Longrightarrow> lookup m (node_arg n) = Some (entry n)"
    and "lookup m k = Some e \<Longrightarrow> \<exists>n \<in> set (concat (m_data m)). node_arg n = k \<and> entry n = e"
  using search_chain_Some_iff [OF wf_map_nodes [OF assms]]
  by (auto simp: lookup_concat [OF assms])

lemma delete_table_eq:
  assumes ok: "store_ok s" and tb: "st_tables s t = Some tb" and no_ud: "\<And>k u. view s t k \<noteq> Some (AUd u)"
  shows "delete_table s t = Inr ((without_strings s (owned s t))
      \<lparr>st_maps := (st_maps s)(t_map tb := None), st_tables := (st_tables s)(t := None)\<rparr>)"
proof -
  obtain m where m: "quiet s t tb m" "tmap s t = Some m" "map_ok s m"
    by (rule store_ok_tableE [OF ok tb])
  then have wf: "wf_map m" and refs: "refs_one m" unfolding map_ok_def by blast+
  let ?ns = "concat (m_data m)"
  note nodes = nodes_of_map [OF wf]
  let ?s = "put_table s t (tb\<lparr>t_ref := 0, t_lock := 0, t_map_lock := 0\<rparr>)"
  have vs: "values_to_clear m = map n_v ?ns"
    using refs by (auto simp: values_to_clear_def refs_one_def filter_id_conv list_all_iff)
  have strs: "st_lstrs ?s = st_lstrs s" "st_slots ?s = st_slots s" by (simp_all add: put_table_def)
  have eok: "entry_ok ?s e = entry_ok s e" for e
    by (cases "(s, e)" rule: entry_ok.cases) (simp_all add: str_ok_def strs cong: option.case_cong)
  have hn: "holds s t k a \<longleftrightarrow> lookup m k = Some (LT_STRING, P_s a)" for k a
    by (simp add: holds_def m(2))
  have set: "set (str_addrs (map n_v ?ns)) = owned s t"
  proof -
    have "a \<in> set (str_addrs (map n_v ?ns)) \<longleftrightarrow> (\<exists>n \<in> set ?ns. entry n = (LT_STRING, P_s a))" for a
      by (auto simp: str_addrs_iff entry_def)
    also have "\<dots> a \<longleftrightarrow> (\<exists>k. lookup m k = Some (LT_STRING, P_s a))" for a
      using nodes by metis
    finally show ?thesis by (auto simp: owned_def hn)
  qed
  have clear: "clear_values release ?s (map n_v ?ns) = Inr (without_strings ?s (owned s t))"
    unfolding set [symmetric]
  proof (rule clear_values_strings)
    show "\<forall>v \<in> set (map n_v ?ns). v_type v \<noteq> LT_UD \<and> entry_ok ?s (v_type v, v_v v)"
    proof
      fix v assume "v \<in> set (map n_v ?ns)"
      then obtain n where n: "n \<in> set ?ns" "(v_type v, v_v v) = entry n" by (auto simp: entry_def)
      then have e: "entry_ok s (entry n)" using store_ok_entry [OF ok tb m(2) nodes(1)] by blast
      have "view s t (node_arg n) = view_entry s (entry n)"
        using nodes(1) [OF n(1)] m(2) by (simp add: view_def)
      then have "fst (entry n) \<noteq> LT_UD"
        using e no_ud [of "node_arg n"] by (elim entry_okE) auto
      then show "v_type v \<noteq> LT_UD \<and> entry_ok ?s (v_type v, v_v v)"
        using e by (simp add: n(2) eok) (metis fst_conv n(2))
    qed
    show "distinct (str_addrs (map n_v ?ns))"
      using wf_map_nodes(2) [OF wf] store_ok_holds_unique [OF ok] nodes(1) unfolding hn [symmetric]
      by (intro distinct_str_addrs) (auto, metis hn nodes(1) store_ok_holds_unique [OF ok])
    show "a = a'" if "st_lstrs ?s a = Some l" "st_lstrs ?s a' = Some l'" "ls_slot l = ls_slot l'"
      for a l a' l' using that unfolding strs by (rule store_ok_slots_distinct [OF ok])
  qed
  have "delete_map release ?s (t_map tb) = Inr ((without_strings ?s (owned s t))
      \<lparr>st_maps := (st_maps s)(t_map tb := None)\<rparr>)"
    using m(1) clear by (simp add: delete_map_def quiet_def deref_Some vs free_map_def
        put_table_def without_strings_def)
  then show ?thesis using tb
    by (simp add: delete_table_def destroy_table_def deref_Some Let_def free_table_def
        put_table_def without_strings_def buffers_def)
qed

definition deleted :: "store \<Rightarrow> addr \<Rightarrow> table \<Rightarrow> store" where
  "deleted s t tb = (without_strings s (owned s t))
     \<lparr>st_maps := (st_maps s)(t_map tb := None), st_tables := (st_tables s)(t := None)\<rparr>"

lemma deleted_sel:
  "st_slots (deleted s t tb) = st_slots s |` (- buffers s (owned s t))"
  "st_lstrs (deleted s t tb) = st_lstrs s |` (- owned s t)"
  "st_maps (deleted s t tb) = (st_maps s)(t_map tb := None)"
  "st_tables (deleted s t tb) = (st_tables s)(t := None)"
  "st_next (deleted s t tb) = st_next s"
  by (simp_all add: deleted_def without_strings_def)

lemma deleted_ok:
  assumes ok: "store_ok s" and tb: "st_tables s t = Some tb"
  shows "store_ok (deleted s t tb)" and "view (deleted s t tb) = (view s)(t := Map.empty)"
proof -
  let ?s = "deleted s t tb"
  have tm: "tmap ?s = (tmap s)(t := None)"
  proof
    fix t'
    show "tmap ?s t' = ((tmap s)(t := None)) t'"
      using store_ok_maps_distinct [OF ok tb, of t']
      by (cases "st_tables s t'") (auto simp: tmap_def deleted_sel)
  qed
  have slot: "st_slots ?s (ls_slot ls) = st_slots s (ls_slot ls)"
    if a: "st_lstrs s a = Some ls" "a \<notin> owned s t" for a ls
  proof -
    have "ls_slot ls \<notin> buffers s (owned s t)"
    proof
      assume "ls_slot ls \<in> buffers s (owned s t)"
      then obtain b l where "b \<in> owned s t" "st_lstrs s b = Some l" "ls_slot l = ls_slot ls"
        by (auto simp: buffers_def)
      then show False using store_ok_slots_distinct [OF ok, of b l a ls] a by auto
    qed
    then show ?thesis by (simp add: deleted_sel)
  qed
  have str: "str_ok ?s a" if "st_lstrs s a \<noteq> None" "a \<notin> owned s t" for a
    using store_ok_lstr [OF ok that(1)] that(2) slot [OF _ that(2)]
    by (elim str_okE) (simp add: str_ok_def deleted_sel)
  have other: "a \<notin> owned s t" if "holds s t' k a" "t' \<noteq> t" for t' k a
    using that store_ok_holds_unique [OF ok] by (auto simp: owned_def)
  have hd: "holds ?s t' k a \<Longrightarrow> holds s t' k a \<and> t' \<noteq> t" for t' k a
    by (auto simp: holds_def tm split: if_splits)
  show "store_ok ?s"
  proof (rule store_okI)
    show "fresh_ok ?s" using ok unfolding store_ok_def fresh_ok_def
      by (auto simp: deleted_sel restrict_map_def split: if_splits)
    fix t1 tb1 assume 1: "st_tables ?s t1 = Some tb1"
    then have 11: "t1 \<noteq> t" "st_tables s t1 = Some tb1" by (auto simp: deleted_sel split: if_splits)
    then show "t_lock tb1 = 0 \<and> t_map_lock tb1 = 0" using ok unfolding store_ok_def by blast
    obtain m where m: "tmap s t1 = Some m" "map_ok s m" by (rule store_ok_tableE [OF ok 11(2)])
    have "entry_ok ?s e" if e: "lookup m k = Some e" for k e
      using store_ok_entry [OF ok 11(2) m(1) e]
    proof (cases rule: entry_okE)
      case (4 a)
      then have "holds s t1 k a" using e m(1) by (simp add: holds_def)
      then show ?thesis using 4(1) str [of a] holds_lstr [OF ok] other [OF _ 11(1)] by auto
    qed auto
    then have "map_ok ?s m" using m(2) unfolding map_ok_def by blast
    then show "\<exists>m. tmap ?s t1 = Some m \<and> map_ok ?s m" using m(1) 11(1) by (simp add: tm)
    fix t2 tb2 assume "st_tables ?s t2 = Some tb2" and eq: "t_map tb1 = t_map tb2"
    then have "st_tables s t2 = Some tb2" by (auto simp: deleted_sel split: if_splits)
    then show "t1 = t2" using store_ok_maps_distinct [OF ok 11(2)] eq by blast
  next
    fix t1 k1 t2 k2 a assume "holds ?s t1 k1 a" "holds ?s t2 k2 a"
    then show "t1 = t2 \<and> k1 = k2" using hd store_ok_holds_unique [OF ok] by blast
  next
    fix a l a' l' assume "st_lstrs ?s a = Some l" "st_lstrs ?s a' = Some l'" "ls_slot l = ls_slot l'"
    then show "a = a'" using store_ok_slots_distinct [OF ok]
      by (auto simp: deleted_sel restrict_map_def split: if_splits)
  next
    fix a assume "st_lstrs ?s a \<noteq> None"
    then show "str_ok ?s a" using str by (auto simp: deleted_sel restrict_map_def split: if_splits)
  qed
  have "view ?s t' k = ((view s)(t := Map.empty)) t' k" for t' k
  proof (cases "t' = t \<or> tmap s t' = None")
    case False
    then obtain m where m: "t' \<noteq> t" "tmap s t' = Some m" by auto
    have "view_entry ?s e = view_entry s e" if e: "lookup m k = Some e" for e
    proof (rule view_entry_frame)
      fix a assume "e = (LT_STRING, P_s a)"
      then have "a \<notin> owned s t" using other [of t' k a] m e by (simp add: holds_def)
      then show "st_lstrs ?s a = st_lstrs s a \<and>
          (\<forall>ls. st_lstrs s a = Some ls \<longrightarrow> st_slots ?s (ls_slot ls) = st_slots s (ls_slot ls))"
        using slot by (simp add: deleted_sel)
    qed
    then show ?thesis using m by (simp add: view_def tm split: option.splits)
  qed (auto simp: view_def tm)
  then show "view ?s = (view s)(t := Map.empty)" by blast
qed

text \<open>A table that holds itself.\<close>

definition cyclic_store :: store where
  "cyclic_store = empty_store\<lparr>
     st_tables := [5 \<mapsto> \<lparr>t_ref = 1, t_lock = 0, t_map_lock = 0, t_map = 6\<rparr>],
     st_maps := [6 \<mapsto> fst (insert_value (lmap_new 29) (NumKey 1)
       \<lparr>v_ref = 1, v_type = LT_UD, v_v = P_ud 5\<rparr> 0)],
     st_next := 7\<rparr>"

section \<open>Properties\<close>



text \<open>
  C7. Deleting a table that holds no sub-tables succeeds, frees exactly its strings with
  their buffers, its map and itself, and leaves every other table with its contents.
\<close>

theorem delete_table_frees:
  assumes "store_ok s" and "st_tables s t = Some tb" and "\<forall>k u. view s t k \<noteq> Some (AUd u)"
  shows "\<exists>s'. delete_table s t = Inr s' \<and> store_ok s' \<and> view s' = (view s)(t := Map.empty) \<and>
    dom (st_tables s') = dom (st_tables s) - {t} \<and> dom (st_maps s') = dom (st_maps s) - {t_map tb} \<and>
    dom (st_lstrs s') = dom (st_lstrs s) - {a. \<exists>k. holds s t k a} \<and>
    dom (st_slots s') = dom (st_slots s) -
      {b. \<exists>k a ls. holds s t k a \<and> st_lstrs s a = Some ls \<and> ls_slot ls = b}"
proof -
  have no_ud: "\<And>k u. view s t k \<noteq> Some (AUd u)" using assms(3) by simp
  have "delete_table s t = Inr (deleted s t tb)"
    unfolding deleted_def by (rule delete_table_eq [OF assms(1,2) no_ud])
  moreover have "dom (st_tables (deleted s t tb)) = dom (st_tables s) - {t}"
    unfolding deleted_sel by simp
  moreover have "dom (st_maps (deleted s t tb)) = dom (st_maps s) - {t_map tb}"
    unfolding deleted_sel by simp
  moreover have "dom (st_lstrs (deleted s t tb)) = dom (st_lstrs s) - owned s t"
    unfolding deleted_sel by (simp add: dom_restrict) blast
  moreover have "dom (st_slots (deleted s t tb)) = dom (st_slots s) -
      {b. \<exists>k a ls. holds s t k a \<and> st_lstrs s a = Some ls \<and> ls_slot ls = b}"
  proof -
    have "buffers s (owned s t) = {b. \<exists>k a ls. holds s t k a \<and> st_lstrs s a = Some ls \<and> ls_slot ls = b}"
      unfolding buffers_def owned_def by blast
    then show ?thesis unfolding deleted_sel by (simp add: dom_restrict) blast
  qed
  ultimately show ?thesis using deleted_ok [OF assms(1,2)] unfolding owned_def by blast
qed

theorem delete_table_frees_witness:
  "\<exists>s'. delete_table store1 table1 = Inr s' \<and> table1 \<notin> dom (st_tables s')"
proof -
  obtain tb where tb: "st_tables store1 table1 = Some tb" using store1_ok(2) by blast
  have "\<forall>k u. view store1 table1 k \<noteq> Some (AUd u)" by (simp add: store1_ok(4))
  from delete_table_frees [OF store1_ok(1) tb this] obtain s' where
    "delete_table store1 table1 = Inr s'" "dom (st_tables s') = dom (st_tables store1) - {table1}"
    by (elim exE conjE)
  then show ?thesis by (intro exI [of _ s']) simp
qed

end
