(* ===== verification/LtConcurrent.thy ===== *)
theory LtConcurrent
  imports LtDelete
begin

text \<open>
  lighttable.cpp with several threads on one table: readers run \<open>_search_map\<close>, writers run
  \<open>_insert_table\<close>. The program counter of a thread names the shared access it makes next;
  a step is one atomic operation on a lock, one read of a shared field or one write of one.
  The walk of a chain, the insertion into a map, its copy and its deletion are one step each.
\<close>

section \<open>Threads\<close>

text \<open>
  A reader's local variables: the key, the result so far, \<open>ret\<close> and \<open>m\<close> (addresses of maps),
  and \<open>ref\<close>. A writer's: the key and value, then the type to return, the new and the old map.
\<close>

datatype pc =
    R_lock lkey lt_value
  | R_read lkey lt_value
  | R_take lkey lt_value int
  | R_set lkey lt_value int addr
  | R_unlock lkey lt_value addr
  | R_search lkey lt_value addr
  | R_rel lkey lt_value addr
  | R_relload lkey lt_value addr int
  | R_relset lkey lt_value addr int addr
  | R_delete lkey lt_value addr
  | R_check lkey lt_value addr
  | R_done lt_value
  | W_tlock lkey lt_value
  | W_insert lkey lt_value
  | W_expand lt_type
  | W_mlock lt_type addr
  | W_swap lt_type addr
  | W_oldref lt_type addr
  | W_munlock lt_type addr int
  | W_delete lt_type addr
  | W_tunlock lt_type
  | W_done lt_type

text \<open>\<open>on_table\<close> and \<open>on_map\<close> read a shared record and continue with it.\<close>

definition on_table :: "store \<Rightarrow> addr \<Rightarrow> (table \<Rightarrow> 'a result) \<Rightarrow> 'a result" where
  "on_table s t f = rbind (deref (st_tables s) t) f"

definition on_map :: "store \<Rightarrow> addr \<Rightarrow> (lmap \<Rightarrow> 'a result) \<Rightarrow> 'a result" where
  "on_map s a f = rbind (deref (st_maps s) a) f"

fun reader_step :: "addr \<Rightarrow> store \<Rightarrow> pc \<Rightarrow> (store \<times> pc) result" where
  "reader_step t s (R_lock k r) = on_table s t (\<lambda>tb.
     if t_map_lock tb \<noteq> 0 then Inr (s, R_lock k r)
     else Inr (put_table s t (tb\<lparr>t_map_lock := 1\<rparr>), R_read k r))"
| "reader_step t s (R_read k r) = on_table s t (\<lambda>tb. on_map s (t_map tb) (\<lambda>m.
     let ref = m_ref m + 1 in guard_assert (ref > 1) (Inr (s, R_take k r ref))))"
| "reader_step t s (R_take k r ref) = on_table s t (\<lambda>tb. Inr (s, R_set k r ref (t_map tb)))"
| "reader_step t s (R_set k r ref a) = on_table s t (\<lambda>tb. on_map s (t_map tb) (\<lambda>m.
     Inr (put_map s (t_map tb) (m\<lparr>m_ref := ref\<rparr>), R_unlock k r a)))"
| "reader_step t s (R_unlock k r a) = on_table s t (\<lambda>tb.
     Inr (put_table s t (tb\<lparr>t_map_lock := 0\<rparr>), R_search k r a))"
| "reader_step t s (R_search k r a) = on_map s a (\<lambda>m. Inr (s, R_rel k (search m k r) a))"
| "reader_step t s (R_rel k r a) = on_map s a (\<lambda>m. Inr (s, R_relload k r a (m_ref m - 1)))"
| "reader_step t s (R_relload k r a ref) = on_table s t (\<lambda>tb.
     Inr (s, R_relset k r a ref (t_map tb)))"
| "reader_step t s (R_relset k r a ref p) = on_map s p (\<lambda>m.
     Inr (put_map s p (m\<lparr>m_ref := ref\<rparr>), if ref \<noteq> 0 then R_check k r a else R_delete k r a))"
| "reader_step t s (R_delete k r a) = rbind (delete_map release s a) (\<lambda>s. Inr (s, R_check k r a))"
| "reader_step t s (R_check k r a) = on_table s t (\<lambda>tb.
     Inr (s, if a \<noteq> t_map tb then R_lock k r else R_done r))"
| "reader_step t s p = Inr (s, p)"

fun writer_step :: "addr \<Rightarrow> store \<Rightarrow> pc \<Rightarrow> (store \<times> pc) result" where
  "writer_step t s (W_tlock k v) = on_table s t (\<lambda>tb.
     if t_lock tb \<noteq> 0 then Inr (s, W_tlock k v)
     else Inr (put_table s t (tb\<lparr>t_lock := 1\<rparr>), W_insert k v))"
| "writer_step t s (W_insert k v) = on_table s t (\<lambda>tb. on_map s (t_map tb) (\<lambda>m.
     let (m', ty, depth) = insert_value m k v 0
     in Inr (put_map s (t_map tb) m',
          if depth \<ge> MAX_HASH_DEPTH then W_expand ty else W_tunlock ty)))"
| "writer_step t s (W_expand ty) = on_table s t (\<lambda>tb. on_map s (t_map tb) (\<lambda>old.
     let (m, old') = copy_map (lmap_new (m_size old * 2)) old;
         (s, a) = alloc_map (put_map s (t_map tb) old') m
     in Inr (s, W_mlock ty a)))"
| "writer_step t s (W_mlock ty a) = on_table s t (\<lambda>tb.
     if t_map_lock tb \<noteq> 0 then Inr (s, W_mlock ty a)
     else Inr (put_table s t (tb\<lparr>t_map_lock := 1\<rparr>), W_swap ty a))"
| "writer_step t s (W_swap ty a) = on_table s t (\<lambda>tb.
     Inr (put_table s t (tb\<lparr>t_map := a\<rparr>), W_oldref ty (t_map tb)))"
| "writer_step t s (W_oldref ty old) = on_map s old (\<lambda>m. Inr (s, W_munlock ty old (m_ref m - 1)))"
| "writer_step t s (W_munlock ty old ref) = on_table s t (\<lambda>tb.
     Inr (put_table s t (tb\<lparr>t_map_lock := 0\<rparr>),
       if ref = 0 then W_delete ty old else W_tunlock ty))"
| "writer_step t s (W_delete ty old) = rbind (delete_map release s old) (\<lambda>s. Inr (s, W_tunlock ty))"
| "writer_step t s (W_tunlock ty) = on_table s t (\<lambda>tb.
     Inr (put_table s t (tb\<lparr>t_lock := 0\<rparr>), W_done ty))"
| "writer_step t s p = Inr (s, p)"

fun is_writer :: "pc \<Rightarrow> bool" where
  "is_writer (W_tlock _ _) = True" | "is_writer (W_insert _ _) = True"
| "is_writer (W_expand _) = True" | "is_writer (W_mlock _ _) = True"
| "is_writer (W_swap _ _) = True" | "is_writer (W_oldref _ _) = True"
| "is_writer (W_munlock _ _ _) = True" | "is_writer (W_delete _ _) = True"
| "is_writer (W_tunlock _) = True" | "is_writer (W_done _) = True"
| "is_writer _ = False"

definition thread_step :: "addr \<Rightarrow> store \<Rightarrow> pc \<Rightarrow> (store \<times> pc) result" where
  "thread_step t s p = (if is_writer p then writer_step t s p else reader_step t s p)"

text \<open>
  A configuration is the store and the program counters of the threads. Any thread may take
  the next step; a schedule names them in order.
\<close>

type_synonym config = "store \<times> pc list"

inductive sched :: "addr \<Rightarrow> config \<Rightarrow> config \<Rightarrow> bool" for t :: addr where
  sched: "i < length ps \<Longrightarrow> thread_step t s (ps ! i) = Inr (s', p) \<Longrightarrow>
    sched t (s, ps) (s', ps[i := p])"

inductive_cases schedE: "sched t c c'"

fun run_sched :: "addr \<Rightarrow> nat list \<Rightarrow> config \<Rightarrow> config result" where
  "run_sched t [] c = Inr c"
| "run_sched t (i # is) (s, ps) =
     rbind (thread_step t s (ps ! i)) (\<lambda>(s', p). run_sched t is (s', ps[i := p]))"

lemma run_sched_reaches:
  "list_all (\<lambda>i. i < length (snd c)) is \<Longrightarrow> run_sched t is c = Inr c' \<Longrightarrow> (sched t)\<^sup>*\<^sup>* c c'"
proof (induction t "is" c rule: run_sched.induct)
  case (2 t i "is" s ps)
  then obtain s' p where st: "thread_step t s (ps ! i) = Inr (s', p)"
    and rest: "run_sched t is (s', ps[i := p]) = Inr c'"
    by (auto simp: rbind_eq_Inr)
  have "sched t (s, ps) (s', ps[i := p])" using 2(2) st by (simp add: sched)
  moreover have "(sched t)\<^sup>*\<^sup>* (s', ps[i := p]) c'" using 2 st rest by simp
  ultimately show ?case by (rule converse_rtranclp_into_rtranclp)
qed simp

section \<open>Mutual exclusion\<close>

fun in_map_cs :: "pc \<Rightarrow> bool" where
  "in_map_cs (R_read _ _) = True" | "in_map_cs (R_take _ _ _) = True"
| "in_map_cs (R_set _ _ _ _) = True" | "in_map_cs (R_unlock _ _ _) = True"
| "in_map_cs (W_swap _ _) = True" | "in_map_cs (W_oldref _ _) = True"
| "in_map_cs (W_munlock _ _ _) = True"
| "in_map_cs _ = False"

fun in_table_cs :: "pc \<Rightarrow> bool" where
  "in_table_cs (W_insert _ _) = True" | "in_table_cs (W_expand _) = True"
| "in_table_cs (W_mlock _ _) = True" | "in_table_cs (W_swap _ _) = True"
| "in_table_cs (W_oldref _ _) = True" | "in_table_cs (W_munlock _ _ _) = True"
| "in_table_cs (W_delete _ _) = True" | "in_table_cs (W_tunlock _) = True"
| "in_table_cs _ = False"

text \<open>Destruction leaves the locks of the tables it leaves.\<close>

definition keeps_locks :: "store \<Rightarrow> store \<Rightarrow> bool" where
  "keeps_locks s s' \<longleftrightarrow> (\<forall>t tb'. st_tables s' t = Some tb' \<longrightarrow>
     (\<exists>tb. st_tables s t = Some tb \<and> t_lock tb = t_lock tb' \<and> t_map_lock tb = t_map_lock tb'))"

lemma keeps_locks_trans: "keeps_locks s1 s2 \<Longrightarrow> keeps_locks s2 s3 \<Longrightarrow> keeps_locks s1 s3"
  unfolding keeps_locks_def by metis

lemma keeps_locks_same: "st_tables s' = st_tables s \<Longrightarrow> keeps_locks s s'"
  by (simp add: keeps_locks_def)

lemma free_keeps_locks:
  "free_slot s a = Inr s' \<Longrightarrow> keeps_locks s s'"
  "free_lstr s a = Inr s' \<Longrightarrow> keeps_locks s s'"
  "free_map s a = Inr s' \<Longrightarrow> keeps_locks s s'"
  by (auto simp: free_slot_def free_lstr_def free_map_def rbind_eq_Inr keeps_locks_def)

text \<open>A \<open>_release\<close> whose effects keep the locks, and the destructors that call it.\<close>

locale lock_keeper =
  fixes rel :: "store \<Rightarrow> addr \<Rightarrow> store result"
  assumes rel_keeps: "rel s t = Inr s' \<Longrightarrow> keeps_locks s s'"
begin

lemma clear_value_keeps: "clear_value rel s v = Inr s' \<Longrightarrow> keeps_locks s s'"
  by (auto simp: clear_value_def rbind_eq_Inr keeps_locks_same split: lt_type.splits payload.splits
      intro: rel_keeps keeps_locks_trans free_keeps_locks)

lemma clear_values_keeps: "clear_values rel s vs = Inr s' \<Longrightarrow> keeps_locks s s'"
  by (induction vs arbitrary: s)
    (auto simp: rbind_eq_Inr keeps_locks_same intro: keeps_locks_trans clear_value_keeps)

lemma delete_map_keeps: "delete_map rel s a = Inr s' \<Longrightarrow> keeps_locks s s'"
  unfolding delete_map_def rbind_eq_Inr
  by (elim exE conjE) (blast intro: keeps_locks_trans clear_values_keeps free_keeps_locks(3))

lemma destroy_table_keeps:
  assumes "destroy_table rel s t = Inr s'"
  shows "keeps_locks s s'"
proof -
  obtain tb s1 where "st_tables s t = Some tb" and del: "delete_map rel
        (put_table s t (tb\<lparr>t_ref := 0, t_lock := 0, t_map_lock := 0\<rparr>)) (t_map tb) = Inr s1"
    and fin: "free_table s1 t = Inr s'"
    using assms by (auto simp: destroy_table_def Let_def rbind_eq_Inr)
  have s': "st_tables s' = (st_tables s1)(t := None)"
    using fin by (auto simp: free_table_def rbind_eq_Inr)
  show ?thesis
    using delete_map_keeps [OF del] unfolding keeps_locks_def s'
    by (auto simp: put_table_def split: if_splits) metis
qed

end

lemma lock_keeper_release_fuel: "lock_keeper (release_fuel fuel)"
proof (induction fuel)
  case 0
  show ?case by unfold_locales simp
next
  case (Suc fuel)
  have "keeps_locks s s'" if rel: "release_fuel (Suc fuel) s t = Inr s'" for s s' t
  proof -
    obtain tb where tb: "st_tables s t = Some tb" using rel by (auto simp: rbind_eq_Inr)
    let ?s = "put_table s t (tb\<lparr>t_ref := t_ref tb - 1\<rparr>)"
    have "keeps_locks s ?s" using tb by (auto simp: keeps_locks_def put_table_def)
    moreover have "keeps_locks ?s s'"
      using rel tb lock_keeper.destroy_table_keeps [OF Suc.IH]
      by (auto simp: Let_def deref_Some keeps_locks_same split: if_splits)
    ultimately show ?thesis by (rule keeps_locks_trans)
  qed
  then show ?case by unfold_locales
qed

interpretation keep: lock_keeper release
  unfolding release_def by unfold_locales (rule lock_keeper.rel_keeps [OF lock_keeper_release_fuel])

text \<open>
  What one step does to a lock \<open>lk\<close> and to the thread's being in the section \<open>cs\<close> it
  guards: a thread enters only when the lock is free, and a lock that is free afterwards was
  free before or was released by the thread that left.
\<close>

definition guarded :: "addr \<Rightarrow> (pc \<Rightarrow> bool) \<Rightarrow> (table \<Rightarrow> int) \<Rightarrow> store \<Rightarrow> pc \<Rightarrow> store \<Rightarrow> pc \<Rightarrow> bool" where
  "guarded t cs lk s p s' p' \<longleftrightarrow>
     (cs p' \<longrightarrow> cs p \<or> (\<exists>tb. st_tables s t = Some tb \<and> lk tb = 0)) \<and>
     (\<forall>tb'. st_tables s' t = Some tb' \<and> lk tb' = 0 \<longrightarrow>
        cs p \<and> \<not> cs p' \<or> (cs p' \<longrightarrow> cs p) \<and> (\<exists>tb. st_tables s t = Some tb \<and> lk tb = 0))"

definition excl :: "addr \<Rightarrow> (pc \<Rightarrow> bool) \<Rightarrow> (table \<Rightarrow> int) \<Rightarrow> config \<Rightarrow> bool" where
  "excl t cs lk c \<longleftrightarrow>
     (\<forall>i j. i < length (snd c) \<longrightarrow> j < length (snd c) \<longrightarrow> cs (snd c ! i) \<longrightarrow> cs (snd c ! j) \<longrightarrow> i = j) \<and>
     (\<forall>tb. st_tables (fst c) t = Some tb \<longrightarrow> lk tb = 0 \<longrightarrow> (\<forall>i < length (snd c). \<not> cs (snd c ! i)))"

lemma guarded_keeps_excl:
  assumes "excl t cs lk (s, ps)" and "i < length ps" and "guarded t cs lk s (ps ! i) s' p"
  shows "excl t cs lk (s', ps[i := p])"
proof -
  have uniq: "k = j" if "k < length ps" "j < length ps" "cs (ps ! k)" "cs (ps ! j)" for k j
    using assms(1) that by (simp add: excl_def)
  have free: "\<not> cs (ps ! k)" if "\<exists>tb. st_tables s t = Some tb \<and> lk tb = 0" "k < length ps" for k
    using assms(1) that by (auto simp: excl_def)
  have enter: "cs (ps ! i) \<or> (\<exists>tb. st_tables s t = Some tb \<and> lk tb = 0)" if "cs p"
    using assms(3) that by (simp add: guarded_def)
  have leave: "cs (ps ! i) \<and> \<not> cs p \<or> (cs p \<longrightarrow> cs (ps ! i)) \<and> (\<exists>tb. st_tables s t = Some tb \<and> lk tb = 0)"
    if "st_tables s' t = Some tb'" "lk tb' = 0" for tb'
    using assms(3) that by (simp add: guarded_def)
  have "k = j" if "k < length ps" "j < length ps" "cs (ps[i := p] ! k)" "cs (ps[i := p] ! j)" for k j
    using that uniq [of k j] uniq [of i j] uniq [of k i] free [of j] free [of k] enter assms(2)
    by (cases "k = i"; cases "j = i") auto
  moreover have "\<not> cs (ps[i := p] ! k)"
    if "st_tables s' t = Some tb'" "lk tb' = 0" "k < length ps" for tb' k
    using leave [OF that(1,2)] that(3) free [of k] free [of i] uniq [of k i] assms(2)
    by (cases "k = i") auto
  ultimately show ?thesis unfolding excl_def by simp
qed

lemma step_guarded:
  assumes "thread_step t s p = Inr (s', p')"
  shows "guarded t in_map_cs t_map_lock s p s' p'" and "guarded t in_table_cs t_lock s p s' p'"
proof -
  have del: "guarded t in_map_cs t_map_lock s p s' p' \<and> guarded t in_table_cs t_lock s p s' p'"
    if "delete_map release s a = Inr s'" "in_map_cs p = in_map_cs p'" "in_table_cs p = in_table_cs p'" for a
    using keep.delete_map_keeps [OF that(1)] that(2,3) unfolding guarded_def keeps_locks_def
    by (metis (no_types, lifting))
  have "guarded t in_map_cs t_map_lock s p s' p' \<and> guarded t in_table_cs t_lock s p s' p'"
    using assms del
    by (cases p) (auto simp: thread_step_def on_table_def on_map_def rbind_eq_Inr Let_def
        guard_assert_eq_Inr guarded_def store_simps case_prod_beta split: if_splits)
  then show "guarded t in_map_cs t_map_lock s p s' p'" and "guarded t in_table_cs t_lock s p s' p'"
    by simp_all
qed

text \<open>Threads at their first instruction, on a table whose locks are free.\<close>

fun at_start :: "pc \<Rightarrow> bool" where
  "at_start (R_lock _ _) = True"
| "at_start (W_tlock _ _) = True"
| "at_start _ = False"

definition exclusive :: "addr \<Rightarrow> config \<Rightarrow> bool" where
  "exclusive t c \<longleftrightarrow> excl t in_map_cs t_map_lock c \<and> excl t in_table_cs t_lock c"

interpretation conc: machine "\<lambda>c. list_all at_start (snd c)" "sched t" "exclusive t" for t
proof
  fix c :: config
  assume "list_all at_start (snd c)"
  then have "\<not> in_map_cs (snd c ! i) \<and> \<not> in_table_cs (snd c ! i)" if "i < length (snd c)" for i
    using that by (cases "snd c ! i") (auto simp: list_all_length)
  then show "exclusive t c" by (auto simp: exclusive_def excl_def)
next
  fix c c'
  assume "sched t c c'" and "exclusive t c"
  then show "exclusive t c'"
    by (elim schedE)
      (auto simp: exclusive_def intro: guarded_keeps_excl step_guarded)
qed

section \<open>Two readers\<close>

text \<open>
  Reader 0 releases the map while reader 1 grabs it: \<open>_release_map\<close> takes no lock, so its
  write falls between the read and the write of \<open>_grab_map\<close> and undoes it.
\<close>

definition lost_update :: "nat list" where
  "lost_update = [0,0,0,0,0,0, 1,1, 0,0, 1,1, 0, 1,1,1,1,1,1,1, 0]"

lemma lmap_new_sel [simp]: "m_ref (lmap_new n) = 1" "m_size (lmap_new n) = n"
  "concat (m_data (lmap_new n)) = []"
  by (simp_all add: lmap_new_def init_data_def)

lemma values_to_clear_set_ref [simp]: "values_to_clear (m\<lparr>m_ref := r\<rparr>) = values_to_clear m"
  by (simp add: values_to_clear_def)

lemma values_to_clear_new [simp]: "values_to_clear (lmap_new n) = []"
  by (simp add: values_to_clear_def)

lemma two_readers_run:
  "\<exists>s r0 r1 tb. run_sched table1 lost_update (store1, [R_lock k0 uninit_value, R_lock k1 uninit_value])
     = Inr (s, [R_done r0, R_done r1]) \<and>
   st_tables s table1 = Some tb \<and> t_map_lock tb = 0 \<and> st_maps s (t_map tb) = None"
  by (simp add: lost_update_def store1_def table1_def table_new_eq empty_store_def thread_step_def
      on_table_def on_map_def deref_Some store_simps Let_def delete_map_def free_map_def)

section \<open>One reader and one writer\<close>

text \<open>What a value read under a key says of the map it was read from.\<close>

definition reads :: "(lkey \<Rightarrow> (lt_type \<times> payload) option) \<Rightarrow> lkey \<Rightarrow> lt_value \<Rightarrow> bool" where
  "reads L k v \<longleftrightarrow> (case L k of None \<Rightarrow> v_type v = LT_NIL | Some (ty, p) \<Rightarrow> v_type v = ty \<and> v_v v = p)"

lemma reads_search: "reads (lookup m) k (search m k r)"
  using search_lookup [of m k] by (auto simp: reads_def split: option.splits)

lemma lookup_set_ref [simp]: "lookup (m\<lparr>m_ref := r\<rparr>) = lookup m"
  by (simp add: lookup_def bucket_def fun_eq_iff)

lemma wf_map_set_ref [simp]: "wf_map (m\<lparr>m_ref := r\<rparr>) = wf_map m"
  by (simp add: wf_map_def wf_chain_def bucket_def)

lemma refs_one_set_ref [simp]: "refs_one (m\<lparr>m_ref := r\<rparr>) = refs_one m"
  by (simp add: refs_one_def)

text \<open>
  The parameters of a race: the table, the reader's key, the writer's key and value, the map
  the table starts with and the address the next map gets, and the entries of the table.
\<close>

record race =
  rc_t :: addr
  rc_rkey :: lkey
  rc_wkey :: lkey
  rc_wval :: lt_value
  rc_old :: addr
  rc_new :: addr
  rc_entries :: "lkey \<Rightarrow> (lt_type \<times> payload) option"

definition rc_after :: "race \<Rightarrow> lkey \<Rightarrow> (lt_type \<times> payload) option" where
  "rc_after c = (rc_entries c)(rc_wkey c \<mapsto>
     merge_entry (rc_entries c (rc_wkey c)) (v_type (rc_wval c), v_v (rc_wval c)))"

definition good_map :: "(lkey \<Rightarrow> (lt_type \<times> payload) option) \<Rightarrow> lmap \<Rightarrow> bool" where
  "good_map L m \<longleftrightarrow> wf_map m \<and> refs_one m \<and> lookup m = L \<and> m_size m * 2 < 2 ^ 31"

definition spent_map :: "(lkey \<Rightarrow> (lt_type \<times> payload) option) \<Rightarrow> lmap \<Rightarrow> bool" where
  "spent_map L m \<longleftrightarrow> lookup m = L \<and> values_to_clear m = []"

text \<open>The map a reader has grabbed and not yet released.\<close>

fun grabbed :: "pc \<Rightarrow> addr option" where
  "grabbed (R_unlock _ _ a) = Some a"
| "grabbed (R_search _ _ a) = Some a"
| "grabbed (R_rel _ _ a) = Some a"
| "grabbed (R_relload _ _ a _) = Some a"
| "grabbed (R_relset _ _ a _ _) = Some a"
| "grabbed _ = None"

definition count_is :: "store \<Rightarrow> addr \<Rightarrow> (lmap \<Rightarrow> bool) \<Rightarrow> pc \<Rightarrow> bool" where
  "count_is s a P rp \<longleftrightarrow> (\<exists>m. st_maps s a = Some m \<and> P m \<and> m_ref m = (if grabbed rp = Some a then 2 else 1))"

text \<open>The current map and the counts, by where the writer is.\<close>

definition before_swap :: "race \<Rightarrow> store \<Rightarrow> table \<Rightarrow> (lmap \<Rightarrow> bool) \<Rightarrow> pc \<Rightarrow> bool" where
  "before_swap c s tb P rp \<longleftrightarrow> t_map tb = rc_old c \<and> count_is s (rc_old c) P rp \<and>
     (grabbed rp = None \<or> grabbed rp = Some (rc_old c))"

definition after_swap :: "race \<Rightarrow> store \<Rightarrow> table \<Rightarrow> pc \<Rightarrow> bool" where
  "after_swap c s tb rp \<longleftrightarrow> t_map tb = rc_new c \<and>
     count_is s (rc_new c) (\<lambda>m. lookup m = rc_after c) rp \<and>
     (grabbed rp = None \<or> grabbed rp = Some (rc_old c) \<or> grabbed rp = Some (rc_new c)) \<and>
     (grabbed rp = Some (rc_old c) \<longrightarrow> count_is s (rc_old c) (spent_map (rc_after c)) rp)"

definition old_alive :: "race \<Rightarrow> store \<Rightarrow> bool" where
  "old_alive c s \<longleftrightarrow> (\<exists>m. st_maps s (rc_old c) = Some m \<and> spent_map (rc_after c) m)"

fun writer_inv :: "race \<Rightarrow> store \<Rightarrow> table \<Rightarrow> pc \<Rightarrow> pc \<Rightarrow> bool" where
  "writer_inv c s tb rp (W_tlock k v) \<longleftrightarrow> k = rc_wkey c \<and> v = rc_wval c \<and>
     before_swap c s tb (good_map (rc_entries c)) rp \<and> st_next s = rc_new c"
| "writer_inv c s tb rp (W_insert k v) \<longleftrightarrow> k = rc_wkey c \<and> v = rc_wval c \<and>
     before_swap c s tb (good_map (rc_entries c)) rp \<and> st_next s = rc_new c"
| "writer_inv c s tb rp (W_expand ty) \<longleftrightarrow>
     before_swap c s tb (good_map (rc_after c)) rp \<and> st_next s = rc_new c"
| "writer_inv c s tb rp (W_mlock ty a) \<longleftrightarrow> a = rc_new c \<and>
     before_swap c s tb (spent_map (rc_after c)) rp \<and>
     (\<exists>m. st_maps s (rc_new c) = Some m \<and> lookup m = rc_after c \<and> m_ref m = 1)"
| "writer_inv c s tb rp (W_swap ty a) \<longleftrightarrow> a = rc_new c \<and>
     before_swap c s tb (spent_map (rc_after c)) rp \<and>
     (\<exists>m. st_maps s (rc_new c) = Some m \<and> lookup m = rc_after c \<and> m_ref m = 1)"
| "writer_inv c s tb rp (W_oldref ty old) \<longleftrightarrow> old = rc_old c \<and> after_swap c s tb rp \<and> old_alive c s"
| "writer_inv c s tb rp (W_munlock ty old ref) \<longleftrightarrow> old = rc_old c \<and> after_swap c s tb rp \<and>
     old_alive c s \<and> (ref = 0 \<longrightarrow> grabbed rp \<noteq> Some (rc_old c))"
| "writer_inv c s tb rp (W_delete ty old) \<longleftrightarrow> old = rc_old c \<and> after_swap c s tb rp \<and>
     old_alive c s \<and> grabbed rp \<noteq> Some (rc_old c)"
| "writer_inv c s tb rp (W_tunlock ty) \<longleftrightarrow>
     before_swap c s tb (\<lambda>m. lookup m = rc_after c) rp \<or> after_swap c s tb rp"
| "writer_inv c s tb rp (W_done ty) \<longleftrightarrow>
     before_swap c s tb (\<lambda>m. lookup m = rc_after c) rp \<or> after_swap c s tb rp"
| "writer_inv c s tb rp _ \<longleftrightarrow> False"

definition result_ok :: "race \<Rightarrow> lt_value \<Rightarrow> bool" where
  "result_ok c r \<longleftrightarrow> reads (rc_entries c) (rc_rkey c) r \<or> reads (rc_after c) (rc_rkey c) r"

fun reader_inv :: "race \<Rightarrow> table \<Rightarrow> pc \<Rightarrow> bool" where
  "reader_inv c tb (R_lock k r) \<longleftrightarrow> k = rc_rkey c"
| "reader_inv c tb (R_read k r) \<longleftrightarrow> k = rc_rkey c"
| "reader_inv c tb (R_take k r ref) \<longleftrightarrow> k = rc_rkey c \<and> ref = 2"
| "reader_inv c tb (R_set k r ref a) \<longleftrightarrow> k = rc_rkey c \<and> ref = 2 \<and> a = t_map tb"
| "reader_inv c tb (R_unlock k r a) \<longleftrightarrow> k = rc_rkey c"
| "reader_inv c tb (R_search k r a) \<longleftrightarrow> k = rc_rkey c"
| "reader_inv c tb (R_rel k r a) \<longleftrightarrow> k = rc_rkey c \<and> result_ok c r"
| "reader_inv c tb (R_relload k r a ref) \<longleftrightarrow> k = rc_rkey c \<and> result_ok c r \<and> ref = 1"
| "reader_inv c tb (R_relset k r a ref p) \<longleftrightarrow> k = rc_rkey c \<and> result_ok c r \<and> ref = 1 \<and>
     (p = a \<or> p = t_map tb)"
| "reader_inv c tb (R_delete k r a) \<longleftrightarrow> False"
| "reader_inv c tb (R_check k r a) \<longleftrightarrow> k = rc_rkey c \<and> result_ok c r"
| "reader_inv c tb (R_done r) \<longleftrightarrow> result_ok c r"
| "reader_inv c tb _ \<longleftrightarrow> False"

definition race_inv :: "race \<Rightarrow> store \<Rightarrow> pc \<Rightarrow> pc \<Rightarrow> bool" where
  "race_inv c s rp wp \<longleftrightarrow> rc_old c \<noteq> rc_new c \<and> okkey (rc_wkey c) \<and>
     (\<exists>tb. st_tables s (rc_t c) = Some tb \<and>
        t_lock tb = (if in_table_cs wp then 1 else 0) \<and>
        t_map_lock tb = (if in_map_cs rp \<or> in_map_cs wp then 1 else 0) \<and>
        \<not> (in_map_cs rp \<and> in_map_cs wp) \<and> writer_inv c s tb rp wp \<and> reader_inv c tb rp)"

lemma writer_inv_pc: "writer_inv c s tb rp wp \<Longrightarrow> is_writer wp"
  by (cases wp) auto

lemma reader_inv_pc: "reader_inv c tb rp \<Longrightarrow> \<not> is_writer rp"
  by (cases rp) auto

text \<open>What the reader can rely on, wherever the writer is.\<close>

lemma writer_inv_current:
  assumes "writer_inv c s tb rp wp"
  obtains m where "st_maps s (t_map tb) = Some m" "lookup m = rc_entries c \<or> lookup m = rc_after c"
    "m_ref m = (if grabbed rp = Some (t_map tb) then 2 else 1)"
  using assms
  by (cases wp) (auto simp: before_swap_def after_swap_def count_is_def good_map_def spent_map_def)

lemma writer_inv_grabbed:
  assumes "writer_inv c s tb rp wp" and "grabbed rp = Some a"
  obtains m where "st_maps s a = Some m" "lookup m = rc_entries c \<or> lookup m = rc_after c" "m_ref m = 2"
  using assms
  by (cases wp) (auto simp: before_swap_def after_swap_def count_is_def good_map_def spent_map_def)

lemmas race_defs = before_swap_def after_swap_def count_is_def old_alive_def

lemma spent_map_set_ref [simp]: "spent_map L (m\<lparr>m_ref := r\<rparr>) = spent_map L m"
  by (simp add: spent_map_def)

lemma good_map_set_ref [simp]: "good_map L (m\<lparr>m_ref := r\<rparr>) = good_map L m"
  by (simp add: good_map_def)

text \<open>
  The reader's steps, as the writer's invariant sees them: nothing it speaks of changes, a
  grab of the current map, a release of the map that was grabbed.
\<close>

definition same_view :: "store \<Rightarrow> table \<Rightarrow> pc \<Rightarrow> store \<Rightarrow> table \<Rightarrow> pc \<Rightarrow> bool" where
  "same_view s tb rp s' tb' rp' \<longleftrightarrow> grabbed rp' = grabbed rp \<and> t_map tb' = t_map tb \<and>
     st_maps s' = st_maps s \<and> st_next s' = st_next s"

definition grabs :: "race \<Rightarrow> store \<Rightarrow> table \<Rightarrow> pc \<Rightarrow> store \<Rightarrow> pc \<Rightarrow> bool" where
  "grabs c s tb rp s' rp' \<longleftrightarrow> grabbed rp = None \<and> grabbed rp' = Some (t_map tb) \<and> rc_old c \<noteq> rc_new c \<and>
     (\<exists>m. st_maps s (t_map tb) = Some m \<and> s' = put_map s (t_map tb) (m\<lparr>m_ref := 2\<rparr>))"

definition releases :: "race \<Rightarrow> store \<Rightarrow> table \<Rightarrow> pc \<Rightarrow> store \<Rightarrow> pc \<Rightarrow> bool" where
  "releases c s tb rp s' rp' \<longleftrightarrow> grabbed rp \<noteq> None \<and> grabbed rp' = None \<and> rc_old c \<noteq> rc_new c \<and>
     (\<exists>p m. (grabbed rp = Some p \<or> p = t_map tb) \<and> st_maps s p = Some m \<and>
        s' = put_map s p (m\<lparr>m_ref := 1\<rparr>))"

definition reader_effect :: "race \<Rightarrow> store \<Rightarrow> table \<Rightarrow> pc \<Rightarrow> store \<Rightarrow> table \<Rightarrow> pc \<Rightarrow> bool" where
  "reader_effect c s tb rp s' tb' rp' \<longleftrightarrow> same_view s tb rp s' tb' rp' \<or>
     tb' = tb \<and> (grabs c s tb rp s' rp' \<or> releases c s tb rp s' rp')"

lemmas effect_defs = reader_effect_def same_view_def grabs_def releases_def

lemma before_swap_effect:
  assumes "before_swap c s tb P rp" and "reader_effect c s tb rp s' tb' rp'"
    and "\<And>m r. P (m\<lparr>m_ref := r\<rparr>) = P m"
  shows "before_swap c s' tb' P rp'"
  using assms by (auto simp: before_swap_def count_is_def effect_defs put_map_def)

lemma after_swap_effect:
  assumes "after_swap c s tb rp" and "reader_effect c s tb rp s' tb' rp'"
  shows "after_swap c s' tb' rp'"
  using assms(2)
  unfolding reader_effect_def
proof (elim disjE conjE)
  assume "same_view s tb rp s' tb' rp'"
  with assms(1) show ?thesis unfolding after_swap_def count_is_def same_view_def by simp
next
  assume "tb' = tb" and "grabs c s tb rp s' rp'"
  with assms(1) show ?thesis unfolding after_swap_def count_is_def grabs_def put_map_def by auto
next
  assume "tb' = tb" and "releases c s tb rp s' rp'"
  with assms(1) show ?thesis unfolding after_swap_def count_is_def releases_def put_map_def by auto
qed

lemma old_alive_effect:
  "old_alive c s \<Longrightarrow> reader_effect c s tb rp s' tb' rp' \<Longrightarrow> old_alive c s'"
  by (auto simp: old_alive_def effect_defs put_map_def)

lemma new_map_effect:
  assumes "\<exists>m. st_maps s (rc_new c) = Some m \<and> lookup m = rc_after c \<and> m_ref m = 1"
    and "before_swap c s tb P rp" and "reader_effect c s tb rp s' tb' rp'"
  shows "\<exists>m. st_maps s' (rc_new c) = Some m \<and> lookup m = rc_after c \<and> m_ref m = 1"
  using assms by (auto simp: before_swap_def effect_defs put_map_def)

lemma grabbed_effect:
  "reader_effect c s tb rp s' tb' rp' \<Longrightarrow> after_swap c s tb rp \<Longrightarrow>
    grabbed rp \<noteq> Some (rc_old c) \<Longrightarrow> grabbed rp' \<noteq> Some (rc_old c)"
  by (auto simp: after_swap_def effect_defs)

lemma next_effect: "reader_effect c s tb rp s' tb' rp' \<Longrightarrow> st_next s' = st_next s"
  by (auto simp: effect_defs put_map_def)

lemma writer_inv_effect:
  assumes w: "writer_inv c s tb rp wp" and e: "reader_effect c s tb rp s' tb' rp'"
  shows "writer_inv c s' tb' rp' wp"
proof -
  note before = before_swap_effect [OF _ e]
  note facts = after_swap_effect [OF _ e] old_alive_effect [OF _ e] grabbed_effect [OF e]
    next_effect [OF e]
  have new: "before_swap c s tb (spent_map (rc_after c)) rp \<Longrightarrow>
      \<exists>m. st_maps s (rc_new c) = Some m \<and> lookup m = rc_after c \<and> m_ref m = 1 \<Longrightarrow>
      \<exists>m. st_maps s' (rc_new c) = Some m \<and> lookup m = rc_after c \<and> m_ref m = 1"
    by (rule new_map_effect [OF _ _ e])
  show ?thesis
  proof (cases wp)
    case (W_mlock ty a)
    with w show ?thesis using before [of "spent_map (rc_after c)"] new by simp
  next
    case (W_swap ty a)
    with w show ?thesis using before [of "spent_map (rc_after c)"] new by simp
  next
    case (W_tunlock ty)
    with w show ?thesis using before [of "\<lambda>m. lookup m = rc_after c"] facts(1) by auto
  next
    case (W_done ty)
    with w show ?thesis using before [of "\<lambda>m. lookup m = rc_after c"] facts(1) by auto
  qed (use w before [of "good_map (rc_entries c)"] before [of "good_map (rc_after c)"] facts in simp_all)
qed

lemma reader_keeps_inv:
  assumes inv: "race_inv c s rp wp"
  shows "\<exists>s' rp'. reader_step (rc_t c) s rp = Inr (s', rp') \<and> race_inv c s' rp' wp"
proof -
  from inv obtain tb where ne: "rc_old c \<noteq> rc_new c" and key: "okkey (rc_wkey c)"
    and tb: "st_tables s (rc_t c) = Some tb"
    and l: "t_lock tb = (if in_table_cs wp then 1 else 0)"
    and ml: "t_map_lock tb = (if in_map_cs rp \<or> in_map_cs wp then 1 else 0)"
    and ex: "\<not> (in_map_cs rp \<and> in_map_cs wp)"
    and w: "writer_inv c s tb rp wp" and r: "reader_inv c tb rp"
    unfolding race_inv_def by blast
  have frame: "writer_inv c s' tb' rp' wp"
    if "grabbed rp' = grabbed rp" "t_map tb' = t_map tb" "st_maps s' = st_maps s" "st_next s' = st_next s"
    for s' tb' rp'
    using that by (intro writer_inv_effect [OF w]) (simp add: effect_defs)
  note static = race_inv_def ne key tb l ml
  show ?thesis
  proof (cases rp)
    case (R_lock k x)
    then show ?thesis using static r ex frame [of "R_read k x" "tb\<lparr>t_map_lock := 1\<rparr>"
        "put_table s (rc_t c) (tb\<lparr>t_map_lock := 1\<rparr>)"] w
      by (cases "in_map_cs wp") (auto simp: on_table_def deref_Some put_table_def)
  next
    case (R_read k x)
    obtain m where "st_maps s (t_map tb) = Some m" "m_ref m = 1"
      using writer_inv_current [OF w] R_read by auto
    then show ?thesis using static r ex frame [of "R_take k x 2" tb s] R_read
      by (simp add: on_table_def on_map_def deref_Some)
  next
    case (R_take k x ref)
    then show ?thesis using static r ex frame [of "R_set k x ref (t_map tb)" tb s]
      by (simp add: on_table_def deref_Some)
  next
    case (R_set k x ref a)
    obtain m where m: "st_maps s (t_map tb) = Some m" using writer_inv_current [OF w] by auto
    have "writer_inv c (put_map s (t_map tb) (m\<lparr>m_ref := 2\<rparr>)) tb (R_unlock k x (t_map tb)) wp"
      by (rule writer_inv_effect [OF w]) (use m ne R_set in \<open>simp add: effect_defs\<close>)
    then show ?thesis
      using static r ex R_set m by (simp add: on_table_def on_map_def deref_Some put_map_def)
  next
    case (R_unlock k x a)
    then show ?thesis using static r ex frame [of "R_search k x a" "tb\<lparr>t_map_lock := 0\<rparr>"
        "put_table s (rc_t c) (tb\<lparr>t_map_lock := 0\<rparr>)"]
      by (simp add: on_table_def deref_Some put_table_def)
  next
    case (R_search k x a)
    then obtain m where m: "st_maps s a = Some m" "lookup m = rc_entries c \<or> lookup m = rc_after c"
      using writer_inv_grabbed [OF w] by auto
    have "result_ok c (search m k x)"
      using m(2) reads_search [of m k x] r R_search by (auto simp: result_ok_def)
    then show ?thesis using static r ex m frame [of "R_rel k (search m k x) a" tb s] R_search
      by (simp add: on_map_def deref_Some)
  next
    case (R_rel k x a)
    then obtain m where m: "st_maps s a = Some m" "m_ref m = 2"
      using writer_inv_grabbed [OF w] by auto
    then show ?thesis using static r ex frame [of "R_relload k x a 1" tb s] R_rel
      by (simp add: on_map_def deref_Some)
  next
    case (R_relload k x a ref)
    then show ?thesis using static r ex frame [of "R_relset k x a ref (t_map tb)" tb s]
      by (simp add: on_table_def deref_Some)
  next
    case (R_relset k x a ref p)
    then have p: "p = a \<or> p = t_map tb" using r by simp
    have "\<exists>m. st_maps s p = Some m"
    proof (cases "p = a")
      case True
      show ?thesis by (rule writer_inv_grabbed [OF w, of a]) (simp_all add: R_relset True)
    next
      case False
      then show ?thesis using p by (auto intro: writer_inv_current [OF w])
    qed
    then obtain m where m: "st_maps s p = Some m" by blast
    have "writer_inv c (put_map s p (m\<lparr>m_ref := 1\<rparr>)) tb (R_check k x a) wp"
      by (rule writer_inv_effect [OF w]) (use m ne p R_relset in \<open>auto simp: effect_defs\<close>)
    then show ?thesis using static r ex m R_relset
      by (simp add: on_map_def deref_Some put_map_def)
  next
    case (R_check k x a)
    then show ?thesis using static r ex frame [of "R_lock k x" tb s] frame [of "R_done x" tb s]
      by (simp add: on_table_def deref_Some)
  next
    case (R_done x)
    then show ?thesis using inv by simp
  qed (use r in simp_all)
qed

text \<open>The writer's steps.\<close>

lemma reader_inv_frame: "reader_inv c tb rp \<Longrightarrow> t_map tb' = t_map tb \<Longrightarrow> reader_inv c tb' rp"
  by (cases rp) simp_all

lemma search_chain_bump:
  "search_chain k (map bump_node ns) = map_option bump_node (search_chain k ns)"
  by (induction ns) (auto simp: bump_node_def)

lemma lookup_bumped:
  assumes "wf_map m"
  shows "lookup (m\<lparr>m_data := map (map bump_node) (m_data m)\<rparr>) = lookup m"
proof
  fix k
  have "bucket m k < length (m_data m)" using bucket_less [OF assms] assms by (simp add: wf_map_def)
  then show "lookup (m\<lparr>m_data := map (map bump_node) (m_data m)\<rparr>) k = lookup m k"
    by (simp add: lookup_def bucket_def search_chain_bump option.map_comp comp_def)
      (simp add: entry_def [abs_def] bump_node_def)
qed

lemma writer_insert:
  assumes g: "good_map L m" and k: "okkey k" and ins: "insert_value m k v 0 = (m', ty, d)"
  shows "good_map (L(k \<mapsto> merge_entry (L k) (v_type v, v_v v))) m'" and "m_ref m' = m_ref m"
proof -
  have m: "wf_map m" "refs_one m" "lookup m = L" "m_size m * 2 < 2 ^ 31"
    using g by (simp_all add: good_map_def)
  note spec = insert_value_spec [OF m(1) k ins]
  have "refs_one m'" using insert_value_refs [OF m(1,2), of k v 0] ins by simp
  moreover have "lookup m' = L(k \<mapsto> merge_entry (L k) (v_type v, v_v v))" using spec(2) m(3) by auto
  ultimately show "good_map (L(k \<mapsto> merge_entry (L k) (v_type v, v_v v))) m'"
    using spec(1,4) m(4) by (simp add: good_map_def)
  show "m_ref m' = m_ref m" by (rule spec(5))
qed

lemma writer_copy:
  assumes g: "good_map L m" and cp: "copy_map (lmap_new (m_size m * 2)) m = (m', old')"
  shows "lookup m' = L" and "m_ref m' = 1" and "spent_map L old'" and "m_ref old' = m_ref m"
proof -
  have m: "wf_map m" "refs_one m" "lookup m = L" "m_size m * 2 < 2 ^ 31"
    using g by (simp_all add: good_map_def)
  have pos: "0 < m_size m * 2" using m(1) by (simp add: wf_map_def)
  note spec = copy_map_spec [OF m(1) pos m(4) cp]
  show "lookup m' = L" using spec(2) m(3) by auto
  show "m_ref m' = 1" by (rule spec(4))
  show "spent_map L old'" "m_ref old' = m_ref m"
    using spec(5) values_to_clear_bumped [OF m(2)] lookup_bumped [OF m(1)] m(3)
    by (simp_all add: spent_map_def)
qed

lemma writer_keeps_inv:
  assumes inv: "race_inv c s rp wp"
  shows "\<exists>s' wp'. writer_step (rc_t c) s wp = Inr (s', wp') \<and> race_inv c s' rp wp'"
proof -
  from inv obtain tb where ne: "rc_old c \<noteq> rc_new c" and key: "okkey (rc_wkey c)"
    and tb: "st_tables s (rc_t c) = Some tb"
    and l: "t_lock tb = (if in_table_cs wp then 1 else 0)"
    and ml: "t_map_lock tb = (if in_map_cs rp \<or> in_map_cs wp then 1 else 0)"
    and ex: "\<not> (in_map_cs rp \<and> in_map_cs wp)"
    and w: "writer_inv c s tb rp wp" and r: "reader_inv c tb rp"
    unfolding race_inv_def by blast
  note static = race_inv_def ne key tb l ml
  note frame = reader_inv_frame [OF r]
  show ?thesis
  proof (cases wp)
    case (W_tlock k v)
    then show ?thesis using static w ex frame [of "tb\<lparr>t_lock := 1\<rparr>"]
      by (simp add: on_table_def deref_Some put_table_def race_defs)
  next
    case (W_insert k v)
    with w obtain m where m: "st_maps s (rc_old c) = Some m" "good_map (rc_entries c) m"
      "m_ref m = (if grabbed rp = Some (rc_old c) then 2 else 1)" "t_map tb = rc_old c"
      and g: "grabbed rp = None \<or> grabbed rp = Some (rc_old c)" and nx: "st_next s = rc_new c"
      and kv: "k = rc_wkey c" "v = rc_wval c"
      by (auto simp: race_defs)
    obtain m' ty d where ins: "insert_value m k v 0 = (m', ty, d)" by (metis prod_cases3)
    have m': "good_map (rc_after c) m'" "m_ref m' = m_ref m"
      using writer_insert [OF m(2) _ ins] key kv by (simp_all add: rc_after_def)
    then have after: "lookup m' = rc_after c" by (simp add: good_map_def)
    show ?thesis using W_insert static ex m m' g nx ins r after
      by (simp add: on_table_def on_map_def deref_Some put_map_def race_defs)
  next
    case (W_expand ty)
    with w obtain m where m: "st_maps s (rc_old c) = Some m" "good_map (rc_after c) m"
      "m_ref m = (if grabbed rp = Some (rc_old c) then 2 else 1)" "t_map tb = rc_old c"
      and g: "grabbed rp = None \<or> grabbed rp = Some (rc_old c)" and nx: "st_next s = rc_new c"
      by (auto simp: race_defs)
    obtain m' old' where cp: "copy_map (lmap_new (m_size m * 2)) m = (m', old')" by force
    note spec = writer_copy [OF m(2) cp]
    show ?thesis using W_expand static ex m g nx cp spec r
      by (simp add: on_table_def on_map_def deref_Some put_map_def alloc_map_def race_defs Let_def)
  next
    case (W_mlock ty a)
    show ?thesis
    proof (cases "in_map_cs rp")
      case True
      then show ?thesis using W_mlock inv tb ml by (simp add: on_table_def deref_Some)
    next
      case False
      then show ?thesis using W_mlock static w ex frame [of "tb\<lparr>t_map_lock := 1\<rparr>"]
        by (simp add: on_table_def deref_Some put_table_def race_defs)
    qed
  next
    case (W_swap ty a)
    with ex have cs: "\<not> in_map_cs rp" by simp
    have old: "t_map tb = rc_old c" "grabbed rp = None \<or> grabbed rp = Some (rc_old c)"
      using w W_swap by (simp_all add: before_swap_def)
    have "reader_inv c (tb\<lparr>t_map := rc_new c\<rparr>) rp"
      using r cs old by (cases rp) auto
    then show ?thesis using W_swap static w cs
      by (auto simp: on_table_def deref_Some put_table_def race_defs)
  next
    case (W_oldref ty old)
    then have a: "old = rc_old c" "after_swap c s tb rp" "old_alive c s" using w by simp_all
    then obtain m where m: "st_maps s (rc_old c) = Some m" unfolding old_alive_def by blast
    have "m_ref m \<noteq> 1 \<or> grabbed rp \<noteq> Some (rc_old c)"
      using a(2) m by (auto simp: after_swap_def count_is_def)
    then show ?thesis using W_oldref static r ex a m
      by (simp add: on_map_def deref_Some)
  next
    case (W_munlock ty old ref)
    have "reader_inv c (tb\<lparr>t_map_lock := 0\<rparr>) rp" by (rule frame) simp
    then show ?thesis using W_munlock static w ex
      by (auto simp: on_table_def deref_Some put_table_def race_defs)
  next
    case (W_delete ty old)
    then have a: "old = rc_old c" "after_swap c s tb rp" "grabbed rp \<noteq> Some (rc_old c)"
      using w by simp_all
    obtain m where m: "st_maps s (rc_old c) = Some m" "values_to_clear m = []"
      using w W_delete by (auto simp: old_alive_def spent_map_def)
    have "delete_map release s (rc_old c) = Inr (s\<lparr>st_maps := (st_maps s)(rc_old c := None)\<rparr>)"
      using m by (simp add: delete_map_def free_map_def deref_Some)
    then show ?thesis using W_delete static r ex a
      by (simp add: race_defs)
  next
    case (W_tunlock ty)
    have "reader_inv c (tb\<lparr>t_lock := 0\<rparr>) rp" by (rule frame) simp
    then show ?thesis using W_tunlock static w ex
      by (simp add: on_table_def deref_Some put_table_def race_defs)
  next
    case (W_done ty)
    then show ?thesis using inv by simp
  qed (use w in simp_all)
qed

definition race_start :: "race \<Rightarrow> config \<Rightarrow> bool" where
  "race_start c conf \<longleftrightarrow> (\<exists>tb m r. quiet (fst conf) (rc_t c) tb m \<and> t_lock tb = 0 \<and>
     rc_old c = t_map tb \<and> rc_new c = st_next (fst conf) \<and> rc_old c \<noteq> rc_new c \<and>
     good_map (rc_entries c) m \<and> okkey (rc_wkey c) \<and>
     snd conf = [R_lock (rc_rkey c) r, W_tlock (rc_wkey c) (rc_wval c)])"

definition race_ok :: "race \<Rightarrow> config \<Rightarrow> bool" where
  "race_ok c conf \<longleftrightarrow> (\<exists>rp wp. snd conf = [rp, wp] \<and> race_inv c (fst conf) rp wp)"

lemma race_steps:
  assumes "race_inv c s rp wp"
  shows "\<exists>s' p. thread_step (rc_t c) s rp = Inr (s', p) \<and> race_inv c s' p wp"
    and "\<exists>s' p. thread_step (rc_t c) s wp = Inr (s', p) \<and> race_inv c s' rp p"
proof -
  have "is_writer wp" "\<not> is_writer rp"
    using assms writer_inv_pc reader_inv_pc unfolding race_inv_def by blast+
  then show "\<exists>s' p. thread_step (rc_t c) s rp = Inr (s', p) \<and> race_inv c s' p wp"
    and "\<exists>s' p. thread_step (rc_t c) s wp = Inr (s', p) \<and> race_inv c s' rp p"
    using reader_keeps_inv [OF assms] writer_keeps_inv [OF assms] by (simp_all add: thread_step_def)
qed

interpretation race: machine "race_start c" "sched (rc_t c)" "race_ok c" for c
proof
  fix conf assume "race_start c conf"
  then obtain tb m r where "quiet (fst conf) (rc_t c) tb m" "t_lock tb = 0" "rc_old c = t_map tb"
    "rc_new c = st_next (fst conf)" "rc_old c \<noteq> rc_new c" "good_map (rc_entries c) m"
    "okkey (rc_wkey c)" "snd conf = [R_lock (rc_rkey c) r, W_tlock (rc_wkey c) (rc_wval c)]"
    unfolding race_start_def by blast
  then show "race_ok c conf"
    by (simp add: race_ok_def race_inv_def quiet_def before_swap_def count_is_def)
next
  fix conf conf' assume st: "sched (rc_t c) conf conf'" and ok: "race_ok c conf"
  obtain i s ps s' p where conf: "conf = (s, ps)" "conf' = (s', ps[i := p])" "i < length ps"
    and th: "thread_step (rc_t c) s (ps ! i) = Inr (s', p)"
    using st by (rule schedE)
  obtain rp wp where ps: "ps = [rp, wp]" and inv: "race_inv c s rp wp"
    using ok conf by (auto simp: race_ok_def)
  have "i = 0 \<or> i = 1" using conf(3) ps by (simp add: less_Suc_eq numeral_2_eq_2)
  then show "race_ok c conf'"
    using race_steps [OF inv] th conf ps by (auto simp: race_ok_def)
qed

lemma race_done:
  assumes "race_inv c s (R_done r) (W_done ty)"
  shows "\<exists>tb m. quiet s (rc_t c) tb m \<and> t_lock tb = 0 \<and> lookup m = rc_after c"
  using assms by (auto simp: race_inv_def race_defs quiet_def)

section \<open>Properties\<close>

text \<open>
  C9. Whatever number of threads read and write a table, in every state they reach at most
  one is between taking and releasing \<open>map_lock\<close>, and at most one between taking and
  releasing \<open>lock\<close>; also when the steps delete maps and, through them, other tables.
\<close>

theorem locks_exclude:
  assumes "list_all at_start ps" and "(sched t)\<^sup>*\<^sup>* (s, ps) (s', ps')"
    and "i < length ps'" and "j < length ps'" and "i \<noteq> j"
  shows "\<not> (in_map_cs (ps' ! i) \<and> in_map_cs (ps' ! j)) \<and>
    \<not> (in_table_cs (ps' ! i) \<and> in_table_cs (ps' ! j))"
proof -
  have "exclusive t (s', ps')" by (rule conc.inv_reachable [OF _ assms(2)]) (simp add: assms(1))
  then show ?thesis using assms(3-5) unfolding exclusive_def excl_def by (metis fst_conv snd_conv)
qed

theorem locks_exclude_witness:
  "\<exists>s' p. (sched table1)\<^sup>*\<^sup>* (store1, [R_lock (NumKey 1) uninit_value, R_lock (NumKey 1) uninit_value]) (s', [p, R_lock (NumKey 1) uninit_value]) \<and>
     in_map_cs p \<and> \<not> (in_map_cs p \<and> in_map_cs (R_lock (NumKey 1) uninit_value))"
proof -
  let ?ps = "[R_lock (NumKey 1) uninit_value, R_lock (NumKey 1) uninit_value]"
  have "\<exists>s'. run_sched table1 [0, 0] (store1, ?ps) = Inr (s', [R_take (NumKey 1) uninit_value 2, R_lock (NumKey 1) uninit_value])"
    by (simp add: store1_def table1_def table_new_eq empty_store_def thread_step_def
        on_table_def on_map_def deref_Some store_simps Let_def)
  then obtain s' where run: "(sched table1)\<^sup>*\<^sup>* (store1, ?ps) (s', [R_take (NumKey 1) uninit_value 2, R_lock (NumKey 1) uninit_value])"
    using run_sched_reaches [of "(store1, ?ps)" "[0, 0]"] by auto
  have "list_all at_start ?ps" by simp
  from locks_exclude [OF this run, of 0 1] run show ?thesis by fastforce
qed



text \<open>
  C10. Two readers are not safe: there is an interleaving of two searches on a fresh table
  after which both have returned and the table's own map is deleted, so that every later
  search uses freed memory.
\<close>

theorem two_readers_free_the_map:
  "\<exists>s r0 r1. (sched table1)\<^sup>*\<^sup>* (store1, [R_lock k0 uninit_value, R_lock k1 uninit_value])
      (s, [R_done r0, R_done r1]) \<and>
    (\<forall>k r. search_table s table1 k r = Inl InvalidPointer)"
proof -
  obtain s r0 r1 tb where run: "run_sched table1 lost_update
      (store1, [R_lock k0 uninit_value, R_lock k1 uninit_value]) = Inr (s, [R_done r0, R_done r1])"
    and tb: "st_tables s table1 = Some tb" "t_map_lock tb = 0" "st_maps s (t_map tb) = None"
    using two_readers_run by blast
  have "search_table s table1 k r = Inl InvalidPointer" for k r
    using tb by (simp add: search_table_def grab_map_def map_lock_def deref_def put_table_def)
  moreover have "(sched table1)\<^sup>*\<^sup>* (store1, [R_lock k0 uninit_value, R_lock k1 uninit_value])
      (s, [R_done r0, R_done r1])"
    by (rule run_sched_reaches [OF _ run]) (simp add: lost_update_def)
  ultimately show ?thesis by blast
qed

end
