(* ===== verification/LtSerialize.thy ===== *)
theory LtSerialize
  imports LtDelete Ieee
begin

text \<open>
  The serialization of lighttable.cpp: the text of a table in the global buffer, with the
  decimal formats \<open>%d\<close>, \<open>%lf\<close> and \<open>%s\<close> of the C library it uses.
\<close>

section \<open>Formats\<close>

text \<open>\<open>%s\<close> prints up to the first zero byte.\<close>

definition format_s :: "bytes \<Rightarrow> bytes" where
  "format_s str = takeWhile (\<lambda>c. c \<noteq> 0) str"

text \<open>
  \<open>%lf\<close>: six decimals of the exact value of an IEEE double, rounded to the nearest, ties to
  even.
\<close>

definition format_lf :: "double \<Rightarrow> bytes" where
  "format_lf d =
     (let sign = (if dbl_neg d then [45] else [])
      in if \<not> dbl_finite d then sign @ (if dbl_nan d then ascii ''nan'' else ascii ''inf'')
         else
           let m = dbl_mant d; x = dbl_scale d;
               u = (if x \<ge> 1075 then m * 10 ^ 6 * 2 ^ (x - 1075) else round_div (m * 10 ^ 6) (2 ^ (1075 - x)));
               frac = digits (u mod 10 ^ 6)
           in sign @ digits (u div 10 ^ 6) @ [46] @ replicate (6 - length frac) 48 @ frac)"

section \<open>The buffer\<close>

definition BUF_SIZE :: nat where
  "BUF_SIZE = 0x800000"

text \<open>\<open>cur\<close> is kept as its distance from the start of \<open>buff\<close>.\<close>

record serialize_buff =
  sb_cur :: nat
  sb_buff :: bytes

fun add_string_to_buff :: "serialize_buff \<Rightarrow> bytes \<Rightarrow> serialize_buff" where
  "add_string_to_buff sb [] = sb"
| "add_string_to_buff sb (c # cs) =
     (if c \<noteq> 0 \<and> sb_cur sb < BUF_SIZE then
        add_string_to_buff (sb\<lparr>sb_cur := sb_cur sb + 1, sb_buff := (sb_buff sb)[sb_cur sb := c]\<rparr>) cs
      else sb)"

section \<open>Serialization\<close>

text \<open>\<open>sprintf\<close> into \<open>temp\<close>, which has 1000 bytes, the terminating zero included.\<close>

definition into_temp :: "bytes \<Rightarrow> bytes result" where
  "into_temp str = (if length str < 1000 then Inr str else Inl InvalidPointer)"

fun key_text :: "lkey \<Rightarrow> bytes" where
  "key_text (NumKey i) = ascii ''[\"'' @ format_d (sint (ucast i :: u32)) @ ascii ''\"]=''"
| "key_text (StrKey str) = ascii ''[\"'' @ format_s str @ ascii ''\"] = ''"

definition defined :: "'a option \<Rightarrow> 'a result" where
  "defined x = (case x of None \<Rightarrow> Inl Uninitialised | Some y \<Rightarrow> Inr y)"

text \<open>
  One turn of the loop over the keys; \<open>ser\<close> is \<open>_do_serialize\<close> for a sub-table. The braces
  printed to \<open>temp\<close> around a sub-table are not appended: the sub-table writes its own.
\<close>

definition serialize_value ::
  "(store \<Rightarrow> serialize_buff \<Rightarrow> addr \<Rightarrow> (store \<times> serialize_buff) result) \<Rightarrow>
    store \<Rightarrow> serialize_buff \<Rightarrow> addr \<Rightarrow> table_key \<Rightarrow> (store \<times> serialize_buff) result" where
  "serialize_value ser s sb t x =
     (case tk_type x of
        LT_NUMBER \<Rightarrow>
          rbind (get_number s t (tk_key x)) (\<lambda>(s, n).
          rbind (defined n) (\<lambda>d.
          rbind (into_temp (format_lf d)) (\<lambda>temp. Inr (s, add_string_to_buff sb temp))))
      | LT_BOOLEAN \<Rightarrow>
          rbind (get_boolean s t (tk_key x)) (\<lambda>(s, b).
          rbind (defined b) (\<lambda>b.
          rbind (into_temp (if b \<noteq> 0 then ascii ''true'' else ascii ''false'')) (\<lambda>temp.
          Inr (s, add_string_to_buff sb temp))))
      | LT_UD \<Rightarrow>
          rbind (get_ud s t (tk_key x)) (\<lambda>(s, u).
          rbind (defined u) (\<lambda>sub. ser s sb sub))
      | LT_STRING \<Rightarrow>
          rbind (get_string s t (tk_key x)) (\<lambda>(s, str).
          rbind (into_temp (ascii ''\"'' @ format_s str @ ascii ''\"'')) (\<lambda>temp.
          Inr (s, add_string_to_buff sb temp)))
      | _ \<Rightarrow> Inr (s, sb))"

fun serialize_keys ::
  "(store \<Rightarrow> serialize_buff \<Rightarrow> addr \<Rightarrow> (store \<times> serialize_buff) result) \<Rightarrow>
    store \<Rightarrow> serialize_buff \<Rightarrow> addr \<Rightarrow> table_key list \<Rightarrow> (store \<times> serialize_buff) result" where
  "serialize_keys ser s sb t [] = Inr (s, sb)"
| "serialize_keys ser s sb t (x # xs) =
     rbind (into_temp (key_text (tk_key x))) (\<lambda>temp.
     rbind (serialize_value ser s (add_string_to_buff sb temp) t x) (\<lambda>(s, sb).
     serialize_keys ser s (add_string_to_buff sb ([44, 10])) t xs))"

text \<open>The fuel bounds the depth of sub-tables; running out of it is not returning.\<close>

fun do_serialize :: "nat \<Rightarrow> store \<Rightarrow> serialize_buff \<Rightarrow> addr \<Rightarrow> (store \<times> serialize_buff) result" where
  "do_serialize 0 s sb t = Inl OutOfFuel"
| "do_serialize (Suc fuel) s sb t =
     rbind (table_size s t) (\<lambda>(s, size).
     rbind (keys s t size) (\<lambda>(s, xs).
     let sb = add_string_to_buff sb (ascii ''{'') in
     rbind (serialize_keys (do_serialize fuel) s sb t xs) (\<lambda>(s, sb).
     Inr (s, add_string_to_buff sb (ascii ''}'')))))"

definition serialize :: "nat \<Rightarrow> store \<Rightarrow> serialize_buff \<Rightarrow> addr \<Rightarrow> (store \<times> serialize_buff) result" where
  "serialize fuel s serialed t = do_serialize fuel s (serialed\<lparr>sb_cur := 0\<rparr>) t"

definition get_serialed :: "serialize_buff \<Rightarrow> bytes" where
  "get_serialed serialed = sb_buff serialed"

definition unserialize :: bytes where
  "unserialize = []"

section \<open>Texts without zero bytes\<close>

definition zero_free :: "bytes \<Rightarrow> bool" where
  "zero_free str \<longleftrightarrow> (\<forall>c \<in> set str. c \<noteq> 0)"

lemma zero_free_simps [simp]:
  "zero_free []"
  "zero_free (c # cs) \<longleftrightarrow> c \<noteq> 0 \<and> zero_free cs"
  "zero_free (xs @ ys) \<longleftrightarrow> zero_free xs \<and> zero_free ys"
  "zero_free (format_s str)"
  "c \<noteq> 0 \<Longrightarrow> zero_free (replicate n c)"
  by (auto simp: zero_free_def format_s_def dest: set_takeWhileD)

lemma zero_free_concat [simp]: "zero_free (concat xss) \<longleftrightarrow> (\<forall>xs \<in> set xss. zero_free xs)"
  by (auto simp: zero_free_def)

lemma digit_nonzero: "n < 10 \<Longrightarrow> (of_nat (48 + n) :: u8) \<noteq> 0"
proof
  assume n: "n < 10" and "(of_nat (48 + n) :: u8) = 0"
  then have "unat (of_nat (48 + n) :: u8) = 0" by simp
  moreover have "unat (of_nat (48 + n) :: u8) = 48 + n" using n by (intro unat_of_nat_small) simp
  ultimately show False by simp
qed

lemma zero_free_digits [simp]: "zero_free (digits n)"
proof (induction n rule: digits.induct)
  case (1 n)
  have "(of_nat (48 + n mod 10) :: u8) \<noteq> 0" by (rule digit_nonzero) simp
  with 1 digit_nonzero [of n] show ?case by (simp add: digits.simps [of n])
qed

lemma length_digits: "n < 10 ^ k \<Longrightarrow> 0 < k \<Longrightarrow> length (digits n) \<le> k"
proof (induction k arbitrary: n)
  case (Suc k)
  show ?case
  proof (cases "n < 10")
    case True
    then show ?thesis by (simp add: digits.simps [of n])
  next
    case False
    then have "0 < k" using Suc.prems(1) by (cases k) simp_all
    moreover have "n div 10 < 10 ^ k" using Suc.prems(1) by (simp add: div_less_iff_less_mult)
    ultimately show ?thesis using Suc.IH [of "n div 10"] False by (simp add: digits.simps [of n])
  qed
qed simp

lemma zero_free_ascii [simp]: "zero_free (ascii str) \<longleftrightarrow> (\<forall>c \<in> set str. (of_char c :: u8) \<noteq> 0)"
  by (simp add: zero_free_def ascii_def)

lemma zero_free_format_lf [simp]: "zero_free (format_lf d)"
  by (simp add: format_lf_def Let_def)

lemma zero_free_key_text [simp]: "zero_free (key_text k)"
  by (cases k) (simp_all add: format_d_def)

lemma round_div_le: "0 < b \<Longrightarrow> round_div a b \<le> a + 1"
  unfolding round_div_def Let_def by (auto intro: div_le_dividend order_trans [OF div_le_dividend])

lemma length_format_lf: "length (format_lf d) < 1000"
proof -
  define m where "m = dbl_mant d"
  define x where "x = dbl_scale d"
  define u where "u = (if x \<ge> 1075 then m * 10 ^ 6 * 2 ^ (x - 1075)
    else round_div (m * 10 ^ 6) (2 ^ (1075 - x)))"
  have e: "dbl_exp d < 2 ^ 11" by (simp only: dbl_exp_alt) simp
  have "dbl_frac d < 2 ^ 52" by (simp only: dbl_frac_alt) simp
  then have m: "m \<le> 2 ^ 53" by (simp add: m_def dbl_mant_def)
  have "u div 10 ^ 6 < 10 ^ 310" if fin: "dbl_finite d"
  proof (cases "x \<ge> 1075")
    case True
    have "x - 1075 \<le> 971" using e fin unfolding x_def dbl_finite_def dbl_scale_def
      by (cases "dbl_exp d = 0") simp_all
    then have "m * 2 ^ (x - 1075) \<le> 2 ^ 53 * 2 ^ 971"
      using m by (intro mult_le_mono power_increasing) simp_all
    moreover have "(2 :: nat) ^ 53 * 2 ^ 971 < 10 ^ 310" by simp
    moreover have "u div 10 ^ 6 = m * 2 ^ (x - 1075)" using True by (simp add: u_def)
    ultimately show ?thesis by linarith
  next
    case False
    have "u \<le> 2 ^ 53 * 10 ^ 6 + 1"
      using round_div_le [of "2 ^ (1075 - x)" "m * 10 ^ 6"] m False by (simp add: u_def)
    moreover have "u div 10 ^ 6 \<le> u" by simp
    moreover have "(2 :: nat) ^ 53 * 10 ^ 6 + 1 < 10 ^ 310" by simp
    ultimately show ?thesis by linarith
  qed
  then have int: "length (digits (u div 10 ^ 6)) \<le> 310" if "dbl_finite d"
    using that by (intro length_digits) simp_all
  have frac: "length (digits (u mod 10 ^ 6)) \<le> 6" by (intro length_digits) simp_all
  have "format_lf d = (let sign = (if dbl_neg d then [45] else [])
      in if \<not> dbl_finite d then sign @ (if dbl_nan d then ascii ''nan'' else ascii ''inf'')
         else sign @ digits (u div 10 ^ 6) @ [46] @
           replicate (6 - length (digits (u mod 10 ^ 6))) 48 @ digits (u mod 10 ^ 6))"
    unfolding format_lf_def Let_def m_def x_def u_def by simp
  then show ?thesis using int frac by (cases "dbl_finite d") (simp_all add: Let_def ascii_def)
qed

section \<open>Appending to the buffer\<close>

lemma add_string_append:
  "zero_free xs \<Longrightarrow> add_string_to_buff (add_string_to_buff sb xs) ys = add_string_to_buff sb (xs @ ys)"
proof (induction xs arbitrary: sb)
  case (Cons c xs)
  have full: "add_string_to_buff sb ys = sb" if "\<not> sb_cur sb < BUF_SIZE"
    using that by (cases ys) simp_all
  show ?case using Cons full by auto
qed simp

lemma add_string_eq:
  assumes "zero_free str" and "length (sb_buff sb) = BUF_SIZE" and "sb_cur sb \<le> BUF_SIZE"
  shows "sb_buff (add_string_to_buff sb str) = take (sb_cur sb) (sb_buff sb) @
    take (BUF_SIZE - sb_cur sb) str @ drop (sb_cur sb + length str) (sb_buff sb)"
  using assms
proof (induction str arbitrary: sb)
  case (Cons c str)
  show ?case
  proof (cases "sb_cur sb < BUF_SIZE")
    case True
    let ?sb = "sb\<lparr>sb_cur := sb_cur sb + 1, sb_buff := (sb_buff sb)[sb_cur sb := c]\<rparr>"
    have "take (Suc (sb_cur sb)) ((sb_buff sb)[sb_cur sb := c]) = take (sb_cur sb) (sb_buff sb) @ [c]"
      using True Cons.prems(2) by (simp add: take_Suc_conv_app_nth)
    moreover have "take (BUF_SIZE - sb_cur sb) (c # str) = c # take (BUF_SIZE - Suc (sb_cur sb)) str"
      using True by (simp add: Suc_diff_Suc [symmetric])
    ultimately show ?thesis using Cons.IH [of ?sb] Cons.prems True by simp
  qed (use Cons.prems in simp)
qed simp

declare add_string_to_buff.simps(2) [simp del]

section \<open>The text of a table\<close>

definition listed :: "store \<Rightarrow> addr \<Rightarrow> table_key list" where
  "listed s t = (case tmap s t of None \<Rightarrow> []
     | Some m \<Rightarrow> take (keys_limit (m_size m * MAX_HASH_DEPTH)) (enumerated m))"

fun aval_text :: "(addr \<Rightarrow> bytes) \<Rightarrow> aval \<Rightarrow> bytes" where
  "aval_text sub (ANum d) = format_lf d"
| "aval_text sub (ABool b) = (if b \<noteq> 0 then ascii ''true'' else ascii ''false'')"
| "aval_text sub (AUd u) = sub u"
| "aval_text sub (AStr str) = ascii ''\"'' @ format_s str @ ascii ''\"''"

fun render :: "nat \<Rightarrow> store \<Rightarrow> addr \<Rightarrow> bytes" where
  "render 0 s t = []"
| "render (Suc n) s t = ascii ''{'' @
     concat (map (\<lambda>x. key_text (tk_key x) @
       (case view s t (tk_key x) of None \<Rightarrow> [] | Some a \<Rightarrow> aval_text (render n s) a) @ [44, 10]) (listed s t)) @
     ascii ''}''"

text \<open>Texts fit the 1000 bytes of \<open>temp\<close> and sub-tables nest at most \<open>n\<close> deep.\<close>

fun printable :: "nat \<Rightarrow> store \<Rightarrow> addr \<Rightarrow> bool" where
  "printable 0 s t \<longleftrightarrow> False"
| "printable (Suc n) s t \<longleftrightarrow> t \<in> dom (st_tables s) \<and>
     (\<forall>k a. view s t k = Some a \<longrightarrow> length (key_text k) < 1000 \<and>
        (case a of AStr str \<Rightarrow> length (format_s str) < 998 | AUd u \<Rightarrow> printable n s u | _ \<Rightarrow> True))"

fun aval_type :: "aval \<Rightarrow> lt_type" where
  "aval_type (ANum _) = LT_NUMBER"
| "aval_type (ABool _) = LT_BOOLEAN"
| "aval_type (AUd _) = LT_UD"
| "aval_type (AStr _) = LT_STRING"

lemma table_size_eq:
  assumes ok: "store_ok s" and tb: "st_tables s t = Some tb" and m: "tmap s t = Some m"
  shows "table_size s t = Inr (s, m_size m * MAX_HASH_DEPTH)"
proof -
  obtain m2 where "quiet s t tb m2" "tmap s t = Some m2" by (rule store_ok_tableE [OF ok tb])
  then have q: "quiet s t tb m" using m by simp
  then show ?thesis using grab_map_quiet [OF q] release_map_quiet [OF q]
    by (simp add: table_size_def quiet_def put_map_def deref_Some)
qed

lemma do_serialize_Suc:
  assumes ok: "store_ok s" and t: "t \<in> dom (st_tables s)"
  shows "do_serialize (Suc n) s sb t =
    rbind (serialize_keys (do_serialize n) s (add_string_to_buff sb (ascii ''{'')) t (listed s t))
      (\<lambda>(s, sb). Inr (s, add_string_to_buff sb (ascii ''}'')))"
proof -
  obtain tb m where tb: "st_tables s t = Some tb" and m: "tmap s t = Some m"
    by (rule table_has_map [OF ok t])
  show ?thesis
    by (simp add: table_size_eq [OF ok tb m] keys_eq [OF ok tb m] listed_def m Let_def)
qed

lemma listed_view:
  assumes ok: "store_ok s" and t: "t \<in> dom (st_tables s)" and x: "x \<in> set (listed s t)"
  obtains a where "view s t (tk_key x) = Some a" "tk_type x = aval_type a"
proof -
  obtain tb m where tb: "st_tables s t = Some tb" and m: "tmap s t = Some m"
    by (rule table_has_map [OF ok t])
  obtain m2 where "tmap s t = Some m2" "map_ok s m2" by (rule store_ok_tableE [OF ok tb])
  then have wf: "wf_map m" using m by (simp add: map_ok_def)
  have "x \<in> set (enumerated m)" using x m by (auto simp: listed_def dest: in_set_takeD)
  then obtain p where e: "lookup m (tk_key x) = Some (tk_type x, p)"
    using enumerated_keys(2) [OF wf] by blast
  then obtain a where a: "view s t (tk_key x) = Some a"
    using view_eq_None_iff [OF ok tb m, of "tk_key x"] by auto
  then obtain e' where "lookup m (tk_key x) = Some e'" "entry_ok s e'" "view_entry s e' = Some a"
    by (rule view_SomeE [OF ok tb m])
  then have "tk_type x = aval_type a"
    using e by (auto elim!: entry_okE str_okE)
  with a show thesis by (rule that)
qed

lemma serialize_value_eq:
  assumes ok: "store_ok s" and t: "t \<in> dom (st_tables s)"
    and v: "view s t (tk_key x) = Some a" and ty: "tk_type x = aval_type a"
    and fit: "case a of AStr str \<Rightarrow> length (format_s str) < 998 | _ \<Rightarrow> True"
  shows "serialize_value ser s sb t x =
    (case a of AUd u \<Rightarrow> ser s sb u | _ \<Rightarrow> Inr (s, add_string_to_buff sb (aval_text (\<lambda>_. []) a)))"
proof -
  have s0: "format_s (str @ [0]) = format_s str" for str
    unfolding format_s_def by (induction str) auto
  show ?thesis
    using fit ty v length_format_lf s0
    by (cases a) (simp_all add: serialize_value_def getters [OF ok t] defined_def into_temp_def ascii_def)
qed

text \<open>The loop, given what it does for sub-tables.\<close>

lemma serialize_keys_eq:
  assumes ok: "store_ok s" and t: "t \<in> dom (st_tables s)" and "set xs \<subseteq> set (listed s t)"
    and fit: "\<And>k a. view s t k = Some a \<Longrightarrow> length (key_text k) < 1000 \<and>
        (case a of AStr str \<Rightarrow> length (format_s str) < 998 | _ \<Rightarrow> True)"
    and sub: "\<And>k u sb. view s t k = Some (AUd u) \<Longrightarrow>
        ser s sb u = Inr (s, add_string_to_buff sb (sub u)) \<and> zero_free (sub u)"
  shows "serialize_keys ser s sb t xs = Inr (s, add_string_to_buff sb
      (concat (map (\<lambda>x. key_text (tk_key x) @
         (case view s t (tk_key x) of None \<Rightarrow> [] | Some a \<Rightarrow> aval_text sub a) @ [44, 10]) xs))) \<and>
    zero_free (concat (map (\<lambda>x. key_text (tk_key x) @
         (case view s t (tk_key x) of None \<Rightarrow> [] | Some a \<Rightarrow> aval_text sub a) @ [44, 10]) xs))"
  using assms(3)
proof (induction xs arbitrary: sb)
  case Nil
  then show ?case by simp
next
  case (Cons x xs)
  obtain a where a: "view s t (tk_key x) = Some a" "tk_type x = aval_type a"
    using listed_view [OF ok t] Cons.prems by (metis list.set_intros(1) subsetD)
  have fx: "length (key_text (tk_key x)) < 1000"
    "case a of AStr str \<Rightarrow> length (format_s str) < 998 | _ \<Rightarrow> True"
    using fit [OF a(1)] by simp_all
  have val: "serialize_value ser s sb t x = Inr (s, add_string_to_buff sb (aval_text sub a)) \<and>
      zero_free (aval_text sub a)" for sb
    using serialize_value_eq [OF ok t a fx(2), of ser sb] sub [of "tk_key x"] a(1)
    by (cases a) simp_all
  have IH: "set xs \<subseteq> set (listed s t)" using Cons.prems by simp
  show ?case
    using Cons.IH [OF IH] val fx(1) a(1)
    by (simp add: into_temp_def add_string_append)
qed

lemma do_serialize_eq:
  assumes ok: "store_ok s"
  shows "printable n s t \<Longrightarrow>
    do_serialize n s sb t = Inr (s, add_string_to_buff sb (render n s t)) \<and> zero_free (render n s t)"
proof (induction n arbitrary: t sb)
  case 0
  then show ?case by simp
next
  case (Suc n)
  have t: "t \<in> dom (st_tables s)" using Suc.prems by simp
  have fit: "length (key_text k) < 1000 \<and>
      (case a of AStr str \<Rightarrow> length (format_s str) < 998 | _ \<Rightarrow> True)" if "view s t k = Some a" for k a
    using Suc.prems that by (auto split: aval.splits)
  have sub: "do_serialize n s sb u = Inr (s, add_string_to_buff sb (render n s u)) \<and>
      zero_free (render n s u)" if "view s t k = Some (AUd u)" for k u sb
    using Suc.IH Suc.prems that by fastforce
  have braces: "zero_free (ascii ''{'')" "zero_free (ascii ''}'')" by simp_all
  have "serialize_keys (do_serialize n) s sb t (listed s t) = Inr (s, add_string_to_buff sb
      (concat (map (\<lambda>x. key_text (tk_key x) @
         (case view s t (tk_key x) of None \<Rightarrow> [] | Some a \<Rightarrow> aval_text (render n s) a) @ [44, 10]) (listed s t)))) \<and>
    zero_free (concat (map (\<lambda>x. key_text (tk_key x) @
         (case view s t (tk_key x) of None \<Rightarrow> [] | Some a \<Rightarrow> aval_text (render n s) a) @ [44, 10]) (listed s t)))"
    for sb
    by (rule serialize_keys_eq [OF ok t subset_refl]) (use fit sub in blast)+
  then show ?case using braces
    by (simp only: do_serialize_Suc [OF ok t] render.simps rbind_simps prod.case add_string_append
        zero_free_simps simp_thms append_assoc)
qed

section \<open>Tables that contain themselves\<close>

lemma serialize_value_keeps:
  assumes ok: "store_ok s" and t: "t \<in> dom (st_tables s)"
    and ser: "\<And>sb u s' sb'. ser s sb u = Inr (s', sb') \<Longrightarrow> s' = s"
    and res: "serialize_value ser s sb t x = Inr (s', sb')"
  shows "s' = s"
  using res ser
  by (auto simp: serialize_value_def getters [OF ok t] rbind_eq_Inr
      split: lt_type.splits option.splits aval.splits)

lemma serialize_keys_keeps:
  assumes ok: "store_ok s" and t: "t \<in> dom (st_tables s)"
    and ser: "\<And>sb u s' sb'. ser s sb u = Inr (s', sb') \<Longrightarrow> s' = s"
    and res: "serialize_keys ser s sb t xs = Inr (s', sb')"
  shows "s' = s" and "x \<in> set xs \<Longrightarrow> \<exists>sb1 sb2. serialize_value ser s sb1 t x = Inr (s, sb2)"
proof -
  have "s' = s \<and> (x \<in> set xs \<longrightarrow> (\<exists>sb1 sb2. serialize_value ser s sb1 t x = Inr (s, sb2)))"
    using res
  proof (induction xs arbitrary: sb)
    case Nil
    then show ?case by simp
  next
    case (Cons y ys)
    then obtain temp s1 sb1 where v: "serialize_value ser s (add_string_to_buff sb temp) t y = Inr (s1, sb1)"
      and rest: "serialize_keys ser s1 (add_string_to_buff sb1 [44, 10]) t ys = Inr (s', sb')"
      by (auto simp: rbind_eq_Inr)
    have "s1 = s" by (rule serialize_value_keeps [OF ok t ser v])
    with v rest Cons.IH show ?case by auto
  qed
  then show "s' = s" and "x \<in> set xs \<Longrightarrow> \<exists>sb1 sb2. serialize_value ser s sb1 t x = Inr (s, sb2)"
    by simp_all
qed

lemma do_serialize_known:
  assumes "do_serialize n s sb t = Inr r"
  shows "t \<in> dom (st_tables s)"
  using assms by (cases n) (auto simp: table_size_def grab_map_def map_lock_def rbind_eq_Inr)

lemma do_serialize_keeps:
  assumes ok: "store_ok s"
  shows "do_serialize n s sb t = Inr (s', sb') \<Longrightarrow> s' = s"
proof (induction n arbitrary: t sb s' sb')
  case 0
  then show ?case by simp
next
  case (Suc n)
  have t: "t \<in> dom (st_tables s)" by (rule do_serialize_known [OF Suc.prems])
  obtain sb1 where keys: "serialize_keys (do_serialize n) s (add_string_to_buff sb (ascii ''{'')) t (listed s t) = Inr (s', sb1)"
    using Suc.prems unfolding do_serialize_Suc [OF ok t] by (auto simp: rbind_eq_Inr)
  show ?case by (rule serialize_keys_keeps(1) [OF ok t _ keys]) (rule Suc.IH)
qed

lemma self_containing_loops:
  assumes ok: "store_ok s" and v: "view s t (tk_key x) = Some (AUd t)" and x: "x \<in> set (listed s t)"
  shows "do_serialize n s sb t \<noteq> Inr r"
proof (induction n arbitrary: sb r)
  case 0
  show ?case by simp
next
  case (Suc n)
  show ?case
  proof
    assume res: "do_serialize (Suc n) s sb t = Inr r"
    have t: "t \<in> dom (st_tables s)" by (rule do_serialize_known [OF res])
    obtain s1 sb1 where keys: "serialize_keys (do_serialize n) s (add_string_to_buff sb (ascii ''{'')) t (listed s t) = Inr (s1, sb1)"
      using res unfolding do_serialize_Suc [OF ok t] by (auto simp: rbind_eq_Inr)
    have "\<exists>sb1 sb2. serialize_value (do_serialize n) s sb1 t x = Inr (s, sb2)"
      by (rule serialize_keys_keeps(2) [OF ok t do_serialize_keeps [OF ok] keys x])
    moreover have "tk_type x = aval_type (AUd t)"
      using listed_view [OF ok t x] v by auto
    ultimately show False
      using serialize_value_eq [OF ok t v] Suc.IH by auto
  qed
qed

text \<open>Witness: the table of \<open>store1\<close> put into itself.\<close>

lemma store3:
  obtains s x where "store_ok s" "table1 \<in> dom (st_tables s)" "x \<in> set (listed s table1)"
    "view s table1 (tk_key x) = Some (AUd table1)"
proof -
  have "settable store1 table1 (NumKey 7) (AUd table1)" by (simp add: settable_def store1_ok(4))
  from setters [OF store1_ok(1-3) _ _ this] obtain s where s: "store_ok s"
    "view s = (view store1)(table1 := (view store1 table1)(NumKey 7 \<mapsto> AUd table1))"
    "dom (st_tables s) = dom (st_tables store1)"
    by auto
  have t: "table1 \<in> dom (st_tables s)" using s(3) store1_ok(2) by simp
  obtain tb m where tb: "st_tables s table1 = Some tb" and m: "tmap s table1 = Some m"
    by (rule table_has_map [OF s(1) t])
  obtain m2 where "tmap s table1 = Some m2" "map_ok s m2" by (rule store_ok_tableE [OF s(1) tb])
  then have wf: "wf_map m" using m by (simp add: map_ok_def)
  have v: "view s table1 (NumKey 7) = Some (AUd table1)" using s(2) by simp
  then obtain e where "lookup m (NumKey 7) = Some e"
    using view_eq_None_iff [OF s(1) tb m, of "NumKey 7"] by auto
  then have mem: "\<lparr>tk_type = fst e, tk_key = NumKey 7\<rparr> \<in> set (enumerated m)"
    using enumerated_keys(2) [OF wf] by (cases e) auto
  have "tk_key x = NumKey 7" if "x \<in> set (enumerated m)" for x
  proof -
    have "lookup m (tk_key x) \<noteq> None" using that enumerated_keys(2) [OF wf] by auto
    then have "view s table1 (tk_key x) \<noteq> None" using view_eq_None_iff [OF s(1) tb m] by simp
    then show ?thesis using s(2) store1_ok(4) by (auto split: if_splits)
  qed
  then have "set (map tk_key (enumerated m)) = {NumKey 7}" using mem by force
  then have len: "length (enumerated m) = 1"
    using distinct_card [OF enumerated_keys(1) [OF wf]] by simp
  have pos: "0 < m_size m" using wf by (simp add: wf_map_def)
  have "1 \<le> keys_limit (m_size m * MAX_HASH_DEPTH)"
    using pos by (simp add: keys_limit_def MAX_HASH_DEPTH_def)
  then have "listed s table1 = enumerated m" using len by (simp add: listed_def m)
  with mem v s(1) t show thesis by (intro that [of s "\<lparr>tk_type = fst e, tk_key = NumKey 7\<rparr>"]) simp_all
qed

section \<open>Properties\<close>

text \<open>
  C11. On tables nested at most \<open>n\<close> deep whose texts fit the 1000 bytes of \<open>temp\<close>,
  \<open>serialize\<close> returns with the store unchanged and the text of the table at the start of the
  buffer, cut to its size; behind it the buffer keeps what it held, no zero is written.
\<close>

theorem serialize_renders:
  assumes "store_ok s" and "printable n s t" and "length (sb_buff sb) = BUF_SIZE"
  shows "\<exists>sb'. serialize n s sb t = Inr (s, sb') \<and>
    get_serialed sb' = take BUF_SIZE (render n s t) @ drop (length (render n s t)) (get_serialed sb)"
  using do_serialize_eq [OF assms(1,2), of "sb\<lparr>sb_cur := 0\<rparr>"] assms(3)
    add_string_eq [of "render n s t" "sb\<lparr>sb_cur := 0\<rparr>"]
  by (simp add: serialize_def get_serialed_def)

theorem serialize_renders_witness:
  "\<exists>sb'. serialize 1 store1 \<lparr>sb_cur = 0, sb_buff = replicate BUF_SIZE 0\<rparr> table1 = Inr (store1, sb') \<and>
    get_serialed sb' = [123, 125] @ replicate (BUF_SIZE - 2) 0"
proof -
  have "printable 1 store1 table1" using store1_ok(2,4) by simp
  moreover have "render 1 store1 table1 = [123, 125]"
    by (simp add: listed_def store1_def table1_def table_new_eq empty_store_def tmap_def
        enumerated_def lmap_new_def init_data_def ascii_def)
  moreover have "length (sb_buff \<lparr>sb_cur = 0, sb_buff = replicate BUF_SIZE 0\<rparr>) = BUF_SIZE"
    by (simp only: serialize_buff.select_convs length_replicate)
  ultimately show ?thesis
    using serialize_renders [OF store1_ok(1), of 1 table1 "\<lparr>sb_cur = 0, sb_buff = replicate BUF_SIZE 0\<rparr>"]
    by (simp add: get_serialed_def BUF_SIZE_def)
qed

text \<open>A table that lists itself among its entries is never serialized, whatever the depth.\<close>

theorem self_containing_never_returns:
  assumes "store_ok s" and "x \<in> set (listed s t)" and "view s t (tk_key x) = Some (AUd t)"
  shows "serialize n s sb t \<noteq> Inr r"
  unfolding serialize_def by (rule self_containing_loops [OF assms(1,3,2)])

theorem self_containing_never_returns_witness:
  "\<exists>s. store_ok s \<and> (\<forall>n sb r. serialize n s sb table1 \<noteq> Inr r)"
proof -
  obtain s x where s: "store_ok s" "x \<in> set (listed s table1)" "view s table1 (tk_key x) = Some (AUd table1)"
    by (rule store3)
  from self_containing_never_returns [OF s] s(1) show ?thesis by blast
qed

end
