(* ===== verification/LtLua.thy ===== *)
theory LtLua
  imports LtSerialize
begin

text \<open>
  ltlua.cpp: the Lua library of lighttables. A C function of Lua gets its arguments on the
  stack of its call and leaves its results there; the model is that stack, the upvalues of
  the running closure and the store of lighttables.
\<close>

section \<open>Lua values, as the library sees them\<close>

text \<open>
  \<open>LTab\<close> is a Lua table, known by its address; \<open>LIpairsaux\<close> and \<open>LPairsaux\<close> are the two
  functions the library hands to Lua, the second a closure with its upvalues; \<open>LKeys\<close> is the
  userdata block with the keys of a lighttable.
\<close>

datatype lval =
    LNil
  | LBool bool
  | LLightud addr
  | LNum double
  | LStr bytes
  | LTab addr
  | LKeys "table_key list"
  | LIpairsaux
  | LPairsaux "lval list"

record lua_State =
  L_store :: store
  L_stack :: "lval list"
  L_upvalues :: "lval list"

type_synonym ret = "(lua_State \<times> nat) result"

text \<open>\<open>index2adr\<close> for positive and negative indices; \<open>None\<close> is \<open>LUA_TNONE\<close>.\<close>

definition index2adr :: "lua_State \<Rightarrow> int \<Rightarrow> lval option" where
  "index2adr L i =
     (let st = L_stack L; n = length st in
      if 0 < i \<and> nat i \<le> n then Some (st ! (nat i - 1))
      else if i < 0 \<and> nat (- i) \<le> n then Some (st ! (n - nat (- i)))
      else None)"

definition upvalue :: "lua_State \<Rightarrow> nat \<Rightarrow> lval option" where
  "upvalue L i = (if 0 < i \<and> i \<le> length (L_upvalues L) then Some (L_upvalues L ! (i - 1)) else None)"

definition push :: "lua_State \<Rightarrow> lval \<Rightarrow> lua_State" where
  "push L v = L\<lparr>L_stack := L_stack L @ [v]\<rparr>"

definition pop :: "lua_State \<Rightarrow> nat \<Rightarrow> lua_State" where
  "pop L n = L\<lparr>L_stack := take (length (L_stack L) - n) (L_stack L)\<rparr>"

definition with_store :: "lua_State \<Rightarrow> store \<Rightarrow> lua_State" where
  "with_store L s = L\<lparr>L_store := s\<rparr>"

text \<open>\<open>lua_touserdata\<close> of anything else is the null pointer, which is no lighttable.\<close>

definition touserdata :: "lval option \<Rightarrow> addr" where
  "touserdata v = (case v of Some (LLightud a) \<Rightarrow> a | _ \<Rightarrow> 0)"

text \<open>\<open>lua_tointeger\<close> of a number, cut to \<open>int\<close>; 0 for the other values it is used on.\<close>

definition tointeger :: "lval option \<Rightarrow> u64" where
  "tointeger v = (case v of Some (LNum d) \<Rightarrow> double_to_s64 d | _ \<Rightarrow> 0)"

definition toint :: "lval option \<Rightarrow> u32" where
  "toint v = ucast (tointeger v)"

text \<open>The values the last \<open>n\<close> pushes left for the caller.\<close>

definition results :: "lua_State \<Rightarrow> nat \<Rightarrow> lval list" where
  "results L n = drop (length (L_stack L) - n) (L_stack L)"

section \<open>Reading\<close>

definition get_value :: "lua_State \<Rightarrow> lt_type \<Rightarrow> payload \<Rightarrow> lua_State result" where
  "get_value L ttype tv =
     (case ttype of
        LT_NIL \<Rightarrow> Inr (push L LNil)
      | LT_NUMBER \<Rightarrow> (case tv of P_n n \<Rightarrow> Inr (push L (LNum n)) | _ \<Rightarrow> Inl UnionMismatch)
      | LT_BOOLEAN \<Rightarrow> (case tv of P_b b \<Rightarrow> Inr (push L (LBool (b \<noteq> 0))) | _ \<Rightarrow> Inl UnionMismatch)
      | LT_UD \<Rightarrow> (case tv of P_ud u \<Rightarrow> Inr (push L (LLightud u)) | _ \<Rightarrow> Inl UnionMismatch)
      | LT_STRING \<Rightarrow> rbind (value_string (L_store L) tv) (\<lambda>(s, str). Inr (push (with_store L s) (LStr str)))
      | LT_TABLE \<Rightarrow> Inl (LuaError ''Invalid type''))"

text \<open>\<open>get_type\<close> followed by \<open>_get_value\<close>.\<close>

definition push_entry :: "lua_State \<Rightarrow> addr \<Rightarrow> lkey \<Rightarrow> (lua_State \<times> lt_type) result" where
  "push_entry L t k =
     rbind (get_type (L_store L) t k) (\<lambda>(s, ttype, tv).
     rbind (get_value (with_store L s) ttype tv) (\<lambda>L. Inr (L, ttype)))"

definition lt_create :: "lua_State \<Rightarrow> ret" where
  "lt_create L = (let (s, t) = table_new (L_store L) in Inr (push (with_store L s) (LLightud t), 1))"

definition lt_delete :: "lua_State \<Rightarrow> ret" where
  "lt_delete L = rbind (delete_table (L_store L) (touserdata (index2adr L 1))) (\<lambda>s. Inr (with_store L s, 0))"

definition lt_size :: "lua_State \<Rightarrow> ret" where
  "lt_size L =
     (let t = touserdata (index2adr L 1) in
      rbind (table_size (L_store L) t) (\<lambda>(s, cap).
      rbind (keys s t cap) (\<lambda>(s, tv).
      guard_assert (length tv \<le> cap)
        (Inr (push (with_store L s) (LNum (nat_to_double (length tv))), 1)))))"

text \<open>
  \<open>idx\<close> is an \<open>int\<close>; for a key that is neither a number nor a string \<open>ttype\<close> is read
  uninitialised.
\<close>

definition lt_get :: "lua_State \<Rightarrow> ret" where
  "lt_get L =
     (let t = touserdata (index2adr L 1) in
      case index2adr L 2 of
        Some (LNum d) \<Rightarrow>
          let idx = toint (Some (LNum d)) in
          if sint idx \<le> 0 then Inl (LuaError ''Unsupported index'')
          else rbind (push_entry L t (NumKey (scast (idx - 1)))) (\<lambda>(L, _). Inr (L, 1))
      | Some (LStr key) \<Rightarrow> rbind (push_entry L t (StrKey key)) (\<lambda>(L, _). Inr (L, 1))
      | _ \<Rightarrow> Inl Uninitialised)"

section \<open>Writing\<close>

text \<open>\<open>sz < 0\<close> is never true of a \<open>size_t\<close>.\<close>

definition get_key :: "lua_State \<Rightarrow> int \<Rightarrow> lkey result" where
  "get_key L i =
     (case index2adr L i of
        Some (LNum d) \<Rightarrow> Inr (NumKey (tointeger (Some (LNum d))))
      | Some (LStr key) \<Rightarrow> Inr (StrKey key)
      | _ \<Rightarrow> Inl (LuaError ''Unsupported key type''))"

definition set_value :: "lua_State \<Rightarrow> addr \<Rightarrow> lkey \<Rightarrow> int \<Rightarrow> lua_State result" where
  "set_value L t k i =
     rbind (case index2adr L i of
        Some (LNum d) \<Rightarrow> set_number (L_store L) t k d
      | Some (LBool b) \<Rightarrow> set_boolean (L_store L) t k (if b then 1 else 0)
      | Some (LStr str) \<Rightarrow> set_string (L_store L) t k str
      | Some (LLightud u) \<Rightarrow> set_ud (L_store L) t k u
      | _ \<Rightarrow> Inl (LuaError ''Unsupported value type'')) (\<lambda>(s, ret).
     if ret then Inl (LuaError ''Can't set'') else Inr (with_store L s))"

definition lt_set :: "lua_State \<Rightarrow> ret" where
  "lt_set L =
     (let t = touserdata (index2adr L 1) in
      rbind (get_key L 2) (\<lambda>k. rbind (set_value L t k 3) (\<lambda>L. Inr (L, 0))))"

section \<open>Iteration\<close>

text \<open>\<open>luaL_checkint\<close> converts strings with \<open>str2d\<close>.\<close>

definition checkint :: "(bytes \<Rightarrow> double option) \<Rightarrow> lval option \<Rightarrow> u32 result" where
  "checkint str2d v =
     (case v of
        Some (LNum d) \<Rightarrow> Inr (ucast (double_to_s64 d))
      | Some (LStr str) \<Rightarrow> (case str2d str of Some d \<Rightarrow> Inr (ucast (double_to_s64 d))
                                       | None \<Rightarrow> Inl (LuaError ''number expected''))
      | _ \<Rightarrow> Inl (LuaError ''number expected''))"

definition ipairsaux :: "(bytes \<Rightarrow> double option) \<Rightarrow> lua_State \<Rightarrow> ret" where
  "ipairsaux str2d L =
     rbind (checkint str2d (index2adr L 2)) (\<lambda>i.
     case index2adr L 1 of
       Some (LLightud t) \<Rightarrow>
         let i = i + 1; L = push L (LNum (int_to_double (sint i))) in
         rbind (push_entry L t (NumKey (scast i))) (\<lambda>(L, _).
         Inr (L, if index2adr L (-1) = Some LNil then 0 else 2))
     | _ \<Rightarrow> Inl (LuaError ''light userdata expected''))"

definition lt_ipairs :: "lua_State \<Rightarrow> ret" where
  "lt_ipairs L =
     (let L = push L LIpairsaux;
          L = push L (case index2adr L 1 of Some v \<Rightarrow> v | None \<Rightarrow> LNil)
      in Inr (push L (LNum (int_to_double 0)), 3))"

definition push_upvalues :: "table_key list \<Rightarrow> lval list" where
  "push_upvalues ks =
     (if length ks = 0
      then [LNum (int_to_double 0), LNum (int_to_double 0), LNum (int_to_double 0), LNil]
      else [LNum (int_to_double 0), LNum (int_to_double (int (length ks))), LNum (int_to_double 0), LKeys ks])"

definition set_upvalue :: "lua_State \<Rightarrow> nat \<Rightarrow> lval \<Rightarrow> lua_State" where
  "set_upvalue L i v = L\<lparr>L_upvalues := (L_upvalues L)[i - 1 := v]\<rparr>"

definition next_map :: "lua_State \<Rightarrow> addr \<Rightarrow> ret" where
  "next_map L t =
     (let map_size = sint (toint (upvalue L 2)) in
      if map_size = 0 then Inr (L, 0) else
      let position = sint (toint (upvalue L 3)) in
      if position \<ge> map_size then Inr (set_upvalue L 3 (LNum (int_to_double 0)), 0) else
      let L = set_upvalue L 3 (LNum (int_to_double (position + 1))) in
      case upvalue L 4 of
        Some (LKeys ks) \<Rightarrow>
          if position < 0 \<or> nat position \<ge> length ks then Inl InvalidPointer else
          let key = tk_key (ks ! nat position);
              L = push L (case key of StrKey str \<Rightarrow> LStr str | NumKey i \<Rightarrow> LNum (nat_to_double (unat i)))
          in rbind (push_entry L t key) (\<lambda>(L, _). Inr (L, 2))
      | _ \<Rightarrow> Inl InvalidPointer)"

fun next_array_from :: "lua_State \<Rightarrow> addr \<Rightarrow> int list \<Rightarrow> ret" where
  "next_array_from L t [] = next_map L t"
| "next_array_from L t (i # is) =
     rbind (get_type (L_store L) t (NumKey (of_int i))) (\<lambda>(s, ttype, tv).
     if ttype = LT_NIL then next_array_from (with_store L s) t is
     else rbind (get_value (push (with_store L s) (LNum (int_to_double (i + 1)))) ttype tv) (\<lambda>L. Inr (L, 2)))"

definition next_array :: "lua_State \<Rightarrow> addr \<Rightarrow> int \<Rightarrow> ret" where
  "next_array L t pre =
     (let array_size = sint (toint (upvalue L 1)) in
      if pre \<ge> array_size then next_map L t else next_array_from L t [pre..array_size - 1])"

definition pairsaux :: "lua_State \<Rightarrow> ret" where
  "pairsaux L =
     (let t = touserdata (index2adr L 1) in
      case index2adr L 2 of
        Some LNil \<Rightarrow> next_map L t
      | Some (LNum _) \<Rightarrow> next_map L t
      | Some (LStr _) \<Rightarrow> next_map L t
      | _ \<Rightarrow> Inl (LuaError ''Invalid next key''))"

definition lt_pairs :: "lua_State \<Rightarrow> ret" where
  "lt_pairs L =
     (let t = touserdata (index2adr L 1) in
      rbind (table_size (L_store L) t) (\<lambda>(s, cap).
      rbind (keys s t cap) (\<lambda>(s, ks).
      let L = push (with_store L s) (LPairsaux (push_upvalues ks));
          L = push L (case index2adr L 1 of Some v \<Rightarrow> v | None \<Rightarrow> LNil)
      in Inr (L, 2))))"

section \<open>Conversion of Lua tables\<close>

text \<open>
  A Lua table is the list of its entries in the order of \<open>lua_next\<close>; conversion only reads
  it. The fuel bounds the nesting of Lua tables: a Lua table inside itself exhausts it.
\<close>

type_synonym lua_heap = "addr \<rightharpoonup> (lval \<times> lval) list"

fun convert_entries :: "(lua_State \<Rightarrow> addr \<Rightarrow> (lua_State \<times> addr) result) \<Rightarrow> lua_State \<Rightarrow> addr \<Rightarrow>
    (lval \<times> lval) list \<Rightarrow> lua_State result" where
  "convert_entries conv L t [] = Inr L"
| "convert_entries conv L t ((key, v) # kvs) =
     (let L = push (push (push L key) v) key in
      rbind (get_key L (-1)) (\<lambda>k.
      case v of
        LTab a \<Rightarrow>
          let L = push L (LTab a) in
          rbind (conv L a) (\<lambda>(L, sub).
          rbind (set_ud (L_store L) t k sub) (\<lambda>(s, _).
          convert_entries conv (pop (pop (with_store L s) 3) 1) t kvs))
      | _ \<Rightarrow>
          rbind (set_value L t k (-2)) (\<lambda>L.
          convert_entries conv (pop (pop L 2) 1) t kvs)))"

fun do_convert :: "nat \<Rightarrow> lua_heap \<Rightarrow> lua_State \<Rightarrow> addr \<Rightarrow> (lua_State \<times> addr) result" where
  "do_convert 0 h L a = Inl OutOfFuel"
| "do_convert (Suc fuel) h L a =
     (let (s, t) = table_new (L_store L) in
      rbind (deref h a) (\<lambda>kvs.
      rbind (convert_entries (\<lambda>L a. do_convert fuel h L a) (with_store L s) t kvs) (\<lambda>L. Inr (L, t))))"

definition lt_convert :: "nat \<Rightarrow> lua_heap \<Rightarrow> lua_State \<Rightarrow> ret" where
  "lt_convert fuel h L =
     (case index2adr L (-1) of
        Some (LTab a) \<Rightarrow> rbind (do_convert fuel h L a) (\<lambda>(L, t). Inr (push L (LLightud t), 1))
      | _ \<Rightarrow> Inl InvalidPointer)"

section \<open>Lua values and lighttable values\<close>

fun lval_of :: "aval option \<Rightarrow> lval" where
  "lval_of None = LNil"
| "lval_of (Some (ANum n)) = LNum n"
| "lval_of (Some (ABool b)) = LBool (b \<noteq> 0)"
| "lval_of (Some (AUd u)) = LLightud u"
| "lval_of (Some (AStr str)) = LStr str"

fun aval_of :: "lval \<Rightarrow> aval option" where
  "aval_of (LNum n) = Some (ANum n)"
| "aval_of (LBool b) = Some (ABool (if b then 1 else 0))"
| "aval_of (LLightud u) = Some (AUd u)"
| "aval_of (LStr str) = Some (AStr str)"
| "aval_of _ = None"

lemma lval_of_aval_of: "aval_of v = Some a \<Longrightarrow> lval_of (Some a) = v"
  by (cases v) auto

lemma push_sel [simp]:
  "L_store (push L v) = L_store L" "L_stack (push L v) = L_stack L @ [v]" "L_upvalues (push L v) = L_upvalues L"
  by (simp_all add: push_def)

lemma with_store_same [simp]: "with_store L (L_store L) = L"
  by (simp add: with_store_def)

lemma index2adr_start [simp]:
  "index2adr \<lparr>L_store = s, L_stack = x # xs, L_upvalues = u\<rparr> 1 = Some x"
  "index2adr \<lparr>L_store = s, L_stack = x # y # xs, L_upvalues = u\<rparr> 2 = Some y"
  "index2adr \<lparr>L_store = s, L_stack = x # y # z # xs, L_upvalues = u\<rparr> 3 = Some z"
  by (simp_all add: index2adr_def)

lemma value_string_ok:
  assumes "str_ok s a" and "st_lstrs s a = Some ls" and "st_slots s (ls_slot ls) = Some ss"
    and "ss_buf ss = str @ [0]"
  shows "value_string s (P_s a) = Inr (s, str)"
proof -
  obtain s1 where s1: "grab_string s a = Inr (s1, ls_slot ls)" "slot_ok ss"
    "st_slots s1 (ls_slot ls) = Some (ss\<lparr>ss_ref := 2\<rparr>)" "release_string s1 (ls_slot ls) = Inr s"
    using grab_release_string [OF assms(1)] assms(2,3) by auto
  have "unat (scast (ss_sz ss) :: u64) = length str"
    using slot_okD(3) [OF s1(2)] assms(4) by simp
  then show ?thesis using s1 assms(4) by (simp add: value_string_def deref_Some)
qed

lemma push_entry_view:
  assumes ok: "store_ok (L_store L)" and t: "t \<in> dom (st_tables (L_store L))"
  shows "\<exists>ty. push_entry L t k = Inr (push L (lval_of (view (L_store L) t k)), ty)"
proof -
  obtain tb m where tb: "st_tables (L_store L) t = Some tb" and m: "tmap (L_store L) t = Some m"
    by (rule table_has_map [OF ok t])
  note found = search_uninit [OF ok tb m, of k]
  have ty: "get_type (L_store L) t k = Inr (L_store L, v_type (search m k uninit_value), v_v (search m k uninit_value))"
    by (simp add: get_type_def getters_on_entry [OF ok tb m])
  show ?thesis
  proof (cases "view (L_store L) t k")
    case None
    then show ?thesis using found ty by (simp add: push_entry_def get_value_def uninit_value_def)
  next
    case (Some a)
    then show ?thesis using found ty value_string_ok
      by (cases a) (auto simp: push_entry_def get_value_def)
  qed
qed

lemma set_value_aval:
  assumes "index2adr L i = Some v" and "aval_of v = Some a"
  shows "set_value L t k i = rbind (set_aval (L_store L) t k a)
    (\<lambda>(s, ret). if ret then Inl (LuaError ''Can't set'') else Inr (with_store L s))"
  using assms by (cases v) (auto simp: set_value_def)

section \<open>Numeric keys\<close>

lemma tointeger_int:
  assumes "0 \<le> i" and "i < 2 ^ 31"
  shows "tointeger (Some (LNum (int_to_double i))) = of_int i"
    and "toint (Some (LNum (int_to_double i))) = of_int i"
    and "sint (of_int i :: u32) = i"
    and "scast (of_int i :: u32) = (of_int i :: u64)"
    and "okkey (NumKey (of_int i))"
proof -
  have "take_bit 64 i = i" using assms by (intro take_bit_int_eq_self) simp_all
  then have cut: "ucast (of_int i :: u64) = (of_int i :: u32)"
    using assms(1) by (simp add: unsigned_of_int of_nat_nat)
  show 1: "tointeger (Some (LNum (int_to_double i))) = of_int i"
    using assms int_to_double_s64 [of i] by (simp add: tointeger_def)
  show "toint (Some (LNum (int_to_double i))) = of_int i"
    unfolding toint_def 1 by (rule cut)
  have nat: "of_int i = (of_nat (nat i) :: u32)" using assms(1) by simp
  show s: "sint (of_int i :: u32) = i"
    unfolding nat using assms by (subst sint_of_nat_small) (simp_all add: nat_less_iff)
  show sc: "scast (of_int i :: u32) = (of_int i :: u64)"
    by (metis of_int_sint s)
  show "okkey (NumKey (of_int i))" using sc cut by simp
qed

section \<open>Iterating over the pairs\<close>

definition key_lval :: "lkey \<Rightarrow> lval" where
  "key_lval k = (case k of StrKey str \<Rightarrow> LStr str | NumKey i \<Rightarrow> LNum (nat_to_double (unat i)))"

text \<open>
  The generic \<open>for\<close> of Lua: it calls the iterator with the state and the control value until
  the first result is nil.
\<close>

fun for_loop :: "nat \<Rightarrow> store \<Rightarrow> lval \<Rightarrow> lval list \<Rightarrow> lval \<Rightarrow> ((lval \<times> lval) list \<times> store) result" where
  "for_loop 0 s t ups control = Inl OutOfFuel"
| "for_loop (Suc fuel) s t ups control =
     rbind (pairsaux \<lparr>L_store = s, L_stack = [t, control], L_upvalues = ups\<rparr>) (\<lambda>(L, n).
     case results L n of
       k # v # _ \<Rightarrow>
         if k = LNil then Inr ([], L_store L)
         else rbind (for_loop fuel (L_store L) t (L_upvalues L) k) (\<lambda>(kvs, s). Inr ((k, v) # kvs, s))
     | _ \<Rightarrow> Inr ([], L_store L))"

lemma key_lval_cases: "(\<exists>d. key_lval k = LNum d) \<or> (\<exists>str. key_lval k = LStr str)"
  by (cases k) (auto simp: key_lval_def)

lemma pairsaux_start:
  assumes "control = LNil \<or> (\<exists>k. control = key_lval k)"
  shows "pairsaux \<lparr>L_store = s, L_stack = [LLightud t, control], L_upvalues = u\<rparr> =
    next_map \<lparr>L_store = s, L_stack = [LLightud t, control], L_upvalues = u\<rparr> t"
proof -
  have "control = LNil \<or> (\<exists>d. control = LNum d) \<or> (\<exists>str. control = LStr str)"
    using assms key_lval_cases by metis
  then show ?thesis by (auto simp: pairsaux_def touserdata_def Let_def)
qed

lemma key_lval_not_nil: "key_lval k \<noteq> LNil"
  by (simp add: key_lval_def split: lkey.splits)

lemma pairs_run:
  assumes ok: "store_ok s" and t: "t \<in> dom (st_tables s)" and n: "length ks < 2 ^ 31"
    and "p \<le> length ks" and control: "control = LNil \<or> (\<exists>k. control = key_lval k)"
  shows "for_loop (Suc (length ks - p)) s (LLightud t)
      [LNum (int_to_double 0), LNum (int_to_double (int (length ks))), LNum (int_to_double (int p)), LKeys ks] control =
    Inr (map (\<lambda>x. (key_lval (tk_key x), lval_of (view s t (tk_key x)))) (drop p ks), s)"
  using assms(4,5)
proof (induction "length ks - p" arbitrary: p control)
  case 0
  then have p: "p = length ks" by simp
  have n31: "int (length ks) < 2 ^ 31" using n by simp
  let ?L = "\<lparr>L_store = s, L_stack = [LLightud t, control],
    L_upvalues = [LNum (int_to_double 0), LNum (int_to_double (int (length ks))), LNum (int_to_double (int p)), LKeys ks]\<rparr>"
  have "sint (toint (upvalue ?L 2)) = int (length ks)" "sint (toint (upvalue ?L 3)) = int (length ks)"
    using tointeger_int [of "int (length ks)"] n31 p by (simp_all add: upvalue_def)
  then have "\<exists>L'. next_map ?L t = Inr (L', 0) \<and> L_store L' = s \<and> L_stack L' = L_stack ?L"
    by (simp add: next_map_def set_upvalue_def Let_def)
  moreover have "pairsaux ?L = next_map ?L t"
    by (rule pairsaux_start [OF 0(3)])
  ultimately show ?case using p by (auto simp: results_def)
next
  case (Suc r)
  then have p: "p < length ks" by simp
  let ?ups = "\<lambda>q. [LNum (int_to_double 0), LNum (int_to_double (int (length ks))), LNum (int_to_double (int q)), LKeys ks]"
  let ?L = "\<lparr>L_store = s, L_stack = [LLightud t, control], L_upvalues = ?ups p\<rparr>"
  let ?x = "ks ! p"
  have n31: "int (length ks) < 2 ^ 31" "int p < 2 ^ 31" using n p by simp_all
  have up: "sint (toint (upvalue ?L 2)) = int (length ks)" "sint (toint (upvalue ?L 3)) = int p"
    using tointeger_int [of "int (length ks)"] tointeger_int [of "int p"] n31 by (simp_all add: upvalue_def)
  let ?L1 = "\<lparr>L_store = s, L_stack = [LLightud t, control, key_lval (tk_key ?x)], L_upvalues = ?ups (Suc p)\<rparr>"
  obtain ty where "push_entry ?L1 t (tk_key ?x) = Inr (push ?L1 (lval_of (view s t (tk_key ?x))), ty)"
    using push_entry_view [of ?L1 t "tk_key ?x"] ok t by auto
  then have "next_map ?L t = Inr (push ?L1 (lval_of (view s t (tk_key ?x))), 2)"
    unfolding next_map_def up using p
    by (auto simp add: Let_def set_upvalue_def upvalue_def push_def key_lval_def add.commute)
  moreover have "pairsaux ?L = next_map ?L t"
    by (rule pairsaux_start [OF Suc.prems(2)])
  ultimately have call: "pairsaux ?L = Inr (push ?L1 (lval_of (view s t (tk_key ?x))), 2)" by simp
  have "for_loop (Suc (length ks - Suc p)) s (LLightud t) (?ups (Suc p)) (key_lval (tk_key ?x)) =
      Inr (map (\<lambda>x. (key_lval (tk_key x), lval_of (view s t (tk_key x)))) (drop (Suc p) ks), s)"
    using Suc.hyps p by (intro Suc.hyps(1)) auto
  moreover have "length ks - p = Suc (length ks - Suc p)" using p by simp
  moreover have "drop p ks = ?x # drop (Suc p) ks" using p by (simp add: Cons_nth_drop_Suc)
  ultimately show ?case using call
    by (simp add: results_def key_lval_not_nil)
qed

section \<open>Properties\<close>

lemma scalar_store:
  assumes "store_ok s" and "t \<in> dom (st_tables s)" and "roomy s t" and "okkey k" and "aval_of v = Some a"
    and "aval_ok a" and "settable s t k a" and "L_store L = s" and "index2adr L 3 = Some v"
  shows "\<exists>s'. set_value L t k 3 = Inr (with_store L s') \<and> store_ok s' \<and>
    view s' = (view s)(t := (view s t)(k \<mapsto> a)) \<and> t \<in> dom (st_tables s')"
proof -
  obtain s' where "set_aval s t k a = Inr (s', False)" "store_ok s'"
    "view s' = (view s)(t := (view s t)(k \<mapsto> a))" "dom (st_tables s') = dom (st_tables s)"
    using setters [OF assms(1-4,6,7)] by blast
  then show ?thesis
    using set_value_aval [OF assms(9,5), of t k] assms(2,8) by (intro exI [of _ s']) simp
qed

text \<open>
  From Lua, \<open>t[key] = v\<close> and then \<open>t[key]\<close> gives \<open>v\<close>, for a string key and a number,
  boolean, string or light userdata that agrees in type with the entry it replaces.
\<close>

theorem lua_set_get_string_key:
  assumes "store_ok s" and "t \<in> dom (st_tables s)" and "roomy s t" and "length key < 2 ^ 31"
    and "aval_of v = Some a" and "aval_ok a" and "settable s t (StrKey key) a"
  shows "\<exists>L' L''. lt_set \<lparr>L_store = s, L_stack = [LLightud t, LStr key, v], L_upvalues = []\<rparr> = Inr (L', 0) \<and>
    lt_get \<lparr>L_store = L_store L', L_stack = [LLightud t, LStr key], L_upvalues = []\<rparr> = Inr (L'', 1) \<and>
    results L'' 1 = [v]"
proof -
  let ?L = "\<lparr>L_store = s, L_stack = [LLightud t, LStr key, v], L_upvalues = []\<rparr>"
  have k: "okkey (StrKey key)" using assms(4) by simp
  obtain s' where s': "set_value ?L t (StrKey key) 3 = Inr (with_store ?L s')" "store_ok s'"
    "view s' = (view s)(t := (view s t)(StrKey key \<mapsto> a))" "t \<in> dom (st_tables s')"
    using scalar_store [OF assms(1-3) k assms(5-7), of ?L] by auto
  let ?G = "\<lparr>L_store = s', L_stack = [LLightud t, LStr key], L_upvalues = []\<rparr>"
  obtain ty where "push_entry ?G t (StrKey key) = Inr (push ?G (lval_of (view s' t (StrKey key))), ty)"
    using push_entry_view [of ?G t "StrKey key"] s'(2,4) by auto
  moreover have "lval_of (view s' t (StrKey key)) = v"
    using s'(3) lval_of_aval_of [OF assms(5)] by simp
  ultimately show ?thesis using s'(1)
    by (simp add: lt_set_def get_key_def touserdata_def lt_get_def results_def with_store_def)
qed

theorem lua_set_get_string_key_witness:
  "\<exists>L'. lt_set \<lparr>L_store = store1, L_stack = [LLightud table1, LStr [97], LBool True], L_upvalues = []\<rparr> = Inr (L', 0)"
proof -
  have "settable store1 table1 (StrKey [97]) (ABool 1)" by (simp add: settable_def store1_ok(4))
  from lua_set_get_string_key [OF store1_ok(1-3) _ _ _ this, of "LBool True"] show ?thesis by force
qed

text \<open>
  C12. Numeric indices are shifted by one between writing and reading: after \<open>t[i] = v\<close>, for
  \<open>i \<ge> 1\<close>, it is \<open>t[i + 1]\<close> that gives \<open>v\<close>, and \<open>t[i]\<close> gives what was stored under \<open>i - 1\<close>.
\<close>

theorem lua_index_shifted:
  assumes "store_ok s" and "t \<in> dom (st_tables s)" and "roomy s t" and "1 \<le> i" and "i < 2 ^ 31 - 1"
    and "aval_of v = Some a" and "aval_ok a" and "settable s t (NumKey (of_int i)) a"
  shows "\<exists>L' L1 L2. lt_set \<lparr>L_store = s, L_stack = [LLightud t, LNum (int_to_double i), v], L_upvalues = []\<rparr> = Inr (L', 0) \<and>
    lt_get \<lparr>L_store = L_store L', L_stack = [LLightud t, LNum (int_to_double (i + 1))], L_upvalues = []\<rparr> = Inr (L1, 1) \<and>
    results L1 1 = [v] \<and>
    lt_get \<lparr>L_store = L_store L', L_stack = [LLightud t, LNum (int_to_double i)], L_upvalues = []\<rparr> = Inr (L2, 1) \<and>
    results L2 1 = [lval_of (view s t (NumKey (of_int (i - 1))))]"
proof -
  let ?k = "NumKey (of_int i)"
  let ?L = "\<lparr>L_store = s, L_stack = [LLightud t, LNum (int_to_double i), v], L_upvalues = []\<rparr>"
  have i: "0 \<le> i" "i < 2 ^ 31" and i1: "0 \<le> i + 1" "i + 1 < 2 ^ 31" using assms(4,5) by simp_all
  note num = tointeger_int [OF i] and num1 = tointeger_int [OF i1]
  obtain s' where s': "set_value ?L t ?k 3 = Inr (with_store ?L s')" "store_ok s'"
    "view s' = (view s)(t := (view s t)(?k \<mapsto> a))" "t \<in> dom (st_tables s')"
    using scalar_store [OF assms(1-3) num(5) assms(6-8), of ?L] by auto
  have get: "\<exists>L2. lt_get \<lparr>L_store = s', L_stack = [LLightud t, LNum (int_to_double j)], L_upvalues = []\<rparr> = Inr (L2, 1) \<and>
      results L2 1 = [lval_of (view s' t (NumKey (of_int (j - 1))))]" if j: "1 \<le> j" "j < 2 ^ 31" for j
  proof -
    let ?G = "\<lparr>L_store = s', L_stack = [LLightud t, LNum (int_to_double j)], L_upvalues = []\<rparr>"
    have idx: "sint (toint (Some (LNum (int_to_double j)))) = j"
      "scast (toint (Some (LNum (int_to_double j))) - 1) = (of_int (j - 1) :: u64)"
      using tointeger_int(2,3) [of j] tointeger_int(4) [of "j - 1"] j by simp_all
    obtain ty where "push_entry ?G t (NumKey (of_int (j - 1))) =
        Inr (push ?G (lval_of (view s' t (NumKey (of_int (j - 1))))), ty)"
      using push_entry_view [of ?G t] s'(2,4) by auto
    then show ?thesis using idx j
      by (simp add: lt_get_def touserdata_def results_def Let_def)
  qed
  have ne: "(of_int (i - 1) :: u64) \<noteq> of_int i" by simp
  have "lt_set ?L = Inr (with_store ?L s', 0)"
    using s'(1) num(1) by (simp add: lt_set_def get_key_def touserdata_def Let_def)
  then show ?thesis
    using get [of "i + 1"] get [of i] assms(4,5) s'(3) lval_of_aval_of [OF assms(6)] ne
    by (auto simp: with_store_def)
qed

theorem lua_index_shifted_witness:
  "\<exists>L' L2. lt_set \<lparr>L_store = store1, L_stack = [LLightud table1, LNum (int_to_double 1), LBool True], L_upvalues = []\<rparr> = Inr (L', 0) \<and>
      lt_get \<lparr>L_store = L_store L', L_stack = [LLightud table1, LNum (int_to_double 1)], L_upvalues = []\<rparr> = Inr (L2, 1) \<and>
      results L2 1 = [LNil]"
proof -
  have "settable store1 table1 (NumKey (of_int 1)) (ABool 1)" by (simp add: settable_def store1_ok(4))
  from lua_index_shifted [OF store1_ok(1-3) _ _ _ _ this, of "LBool True"] show ?thesis
    by (force simp: store1_ok(4))
qed

text \<open>
  \<open>for k, v in lighttable.pairs(t)\<close> visits the entries \<open>keys\<close> lists, each once with its
  value, in that order, and then ends; the lighttable is as it was.
\<close>

theorem lua_pairs_visits_all:
  assumes "store_ok s" and "t \<in> dom (st_tables s)" and "length (listed s t) < 2 ^ 31"
  shows "\<exists>L ups. lt_pairs \<lparr>L_store = s, L_stack = [LLightud t], L_upvalues = []\<rparr> = Inr (L, 2) \<and>
    results L 2 = [LPairsaux ups, LLightud t] \<and> L_store L = s \<and>
    for_loop (Suc (length (listed s t))) s (LLightud t) ups LNil =
      Inr (map (\<lambda>x. (key_lval (tk_key x), lval_of (view s t (tk_key x)))) (listed s t), s)"
proof -
  obtain tb m where tb: "st_tables s t = Some tb" and m: "tmap s t = Some m"
    by (rule table_has_map [OF assms(1,2)])
  let ?ks = "listed s t"
  let ?ups = "push_upvalues ?ks"
  let ?L = "\<lparr>L_store = s, L_stack = [LLightud t, LPairsaux ?ups, LLightud t], L_upvalues = []\<rparr>"
  have "keys s t (m_size m * MAX_HASH_DEPTH) = Inr (s, ?ks)"
    by (simp add: keys_eq [OF assms(1) tb m] listed_def m)
  then have "lt_pairs \<lparr>L_store = s, L_stack = [LLightud t], L_upvalues = []\<rparr> = Inr (?L, 2)"
    by (simp add: lt_pairs_def touserdata_def table_size_eq [OF assms(1) tb m] push_def with_store_def
        index2adr_def)
  moreover have "for_loop (Suc (length ?ks)) s (LLightud t) ?ups LNil =
      Inr (map (\<lambda>x. (key_lval (tk_key x), lval_of (view s t (tk_key x)))) ?ks, s)"
  proof (cases "?ks = []")
    case True
    have "toint (Some (LNum (int_to_double 0))) = 0" using tointeger_int(2) [of 0] by simp
    then show ?thesis using True
      by (simp add: push_upvalues_def pairsaux_def next_map_def upvalue_def results_def touserdata_def)
  next
    case False
    then show ?thesis using pairs_run [OF assms(1-3), of 0 LNil] by (simp add: push_upvalues_def)
  qed
  ultimately show ?thesis
    by (intro exI [of _ ?L] exI [of _ ?ups]) (simp add: results_def)
qed

theorem lua_pairs_visits_all_witness:
  "\<exists>L ups. lt_pairs \<lparr>L_store = store1, L_stack = [LLightud table1], L_upvalues = []\<rparr> = Inr (L, 2) \<and>
    results L 2 = [LPairsaux ups, LLightud table1]"
proof -
  have "listed store1 table1 = []"
    by (simp add: listed_def store1_def table1_def table_new_eq empty_store_def tmap_def
        enumerated_def lmap_new_def init_data_def)
  then have "length (listed store1 table1) < 2 ^ 31" by simp
  from lua_pairs_visits_all [OF store1_ok(1,2) this] show ?thesis by blast
qed

end
