(* ===== verification/MemPool.thy ===== *)
theory MemPool
  imports Prelude
begin

text \<open>
  memory\_pool/mem\_pool.h and mem\_pool.cpp: a free list of equal blocks in an explicit heap,
  the one instance of it, and the destructors.
\<close>

section \<open>Blocks and pools\<close>

text \<open>The null pointer is \<open>None\<close>.\<close>

record memory_block =
  mb_size :: nat
  mb_data :: "bytes option"
  mb_next :: "addr option"

record memory_pool =
  mp_len :: nat
  mp_head :: "addr option"

record heap =
  hp_blocks :: "addr \<rightharpoonup> memory_block"
  hp_next :: addr
  hp_instance :: "memory_pool option"

definition empty_heap :: heap where
  "empty_heap = \<lparr>hp_blocks = Map.empty, hp_next = 1, hp_instance = None\<rparr>"

definition POOL_SIZE :: nat where
  "POOL_SIZE = 10"

definition BLOCK_SIZE :: nat where
  "BLOCK_SIZE = 512"

definition memory_block_new :: "nat \<Rightarrow> memory_block" where
  "memory_block_new n = \<lparr>mb_size = n, mb_data = Some (replicate n 0), mb_next = None\<rparr>"

definition alloc_block :: "heap \<Rightarrow> nat \<Rightarrow> heap \<times> addr" where
  "alloc_block h n =
     (h\<lparr>hp_blocks := (hp_blocks h)(hp_next h \<mapsto> memory_block_new n), hp_next := Suc (hp_next h)\<rparr>, hp_next h)"

definition set_next :: "heap \<Rightarrow> addr \<Rightarrow> addr option \<Rightarrow> heap result" where
  "set_next h a p = rbind (deref (hp_blocks h) a) (\<lambda>b.
     Inr (h\<lparr>hp_blocks := (hp_blocks h)(a \<mapsto> b\<lparr>mb_next := p\<rparr>)\<rparr>))"

text \<open>The constructor: \<open>trace\<close> walks the list as it grows by \<open>n\<close> more blocks.\<close>

fun grow :: "nat \<Rightarrow> nat \<Rightarrow> heap \<Rightarrow> addr \<Rightarrow> heap result" where
  "grow 0 bs h trace = Inr h"
| "grow (Suc n) bs h trace =
     (let (h, a) = alloc_block h bs
      in rbind (set_next h trace (Some a)) (\<lambda>h. grow n bs h a))"

definition memory_pool_new :: "heap \<Rightarrow> nat \<Rightarrow> nat \<Rightarrow> (heap \<times> memory_pool) result" where
  "memory_pool_new h init_len bs =
     (let (h, a) = alloc_block h bs
      in rbind (grow (init_len - 1) bs h a) (\<lambda>h. Inr (h, \<lparr>mp_len = init_len, mp_head = Some a\<rparr>)))"

definition get_instance :: "heap \<Rightarrow> (heap \<times> memory_pool) result" where
  "get_instance h =
     (case hp_instance h of
        Some p \<Rightarrow> Inr (h, p)
      | None \<Rightarrow> rbind (memory_pool_new h POOL_SIZE BLOCK_SIZE) (\<lambda>(h, p).
          Inr (h\<lparr>hp_instance := Some p\<rparr>, p)))"

definition get_block :: "heap \<Rightarrow> memory_pool \<Rightarrow> (heap \<times> memory_pool \<times> addr) result" where
  "get_block h p =
     (case mp_head p of
        None \<Rightarrow> Inl InvalidPointer
      | Some a \<Rightarrow> rbind (deref (hp_blocks h) a) (\<lambda>b. Inr (h, p\<lparr>mp_head := mb_next b\<rparr>, a)))"

definition free_block :: "heap \<Rightarrow> memory_pool \<Rightarrow> addr \<Rightarrow> (heap \<times> memory_pool) result" where
  "free_block h p a = rbind (set_next h a (mp_head p)) (\<lambda>h. Inr (h, p\<lparr>mp_head := Some a\<rparr>))"

definition get_len :: "memory_pool \<Rightarrow> nat" where
  "get_len p = mp_len p"

text \<open>\<open>delete\<close> of a block runs its destructor and frees it: a later access is to freed memory.\<close>

definition delete_block :: "heap \<Rightarrow> addr \<Rightarrow> heap result" where
  "delete_block h a = rbind (deref (hp_blocks h) a) (\<lambda>_.
     Inr (h\<lparr>hp_blocks := (hp_blocks h)(a := None)\<rparr>))"

fun delete_blocks :: "nat \<Rightarrow> heap \<Rightarrow> addr option \<Rightarrow> heap result" where
  "delete_blocks fuel h None = Inr h"
| "delete_blocks 0 h (Some trace) = Inl OutOfFuel"
| "delete_blocks (Suc fuel) h (Some trace) =
     (let temp = trace in
      rbind (delete_block h trace) (\<lambda>h.
      rbind (deref (hp_blocks h) temp) (\<lambda>b. delete_blocks fuel h (mb_next b))))"

definition delete_pool :: "heap \<Rightarrow> memory_pool \<Rightarrow> heap result" where
  "delete_pool h p = delete_blocks (Suc (hp_next h)) h (mp_head p)"

section \<open>The free list\<close>

text \<open>The blocks reachable from a pointer, in order.\<close>

fun chain :: "heap \<Rightarrow> addr option \<Rightarrow> addr list \<Rightarrow> bool" where
  "chain h p [] \<longleftrightarrow> p = None"
| "chain h p (a # as) \<longleftrightarrow> p = Some a \<and> (\<exists>b. hp_blocks h a = Some b \<and> chain h (mb_next b) as)"

definition free_list :: "heap \<Rightarrow> memory_pool \<Rightarrow> addr list \<Rightarrow> bool" where
  "free_list h p as \<longleftrightarrow> chain h (mp_head p) as \<and> distinct as"

lemma chain_upd:
  "a \<notin> set as \<Longrightarrow> chain (h\<lparr>hp_blocks := (hp_blocks h)(a := x)\<rparr>) p as = chain h p as"
  by (induction as arbitrary: p) auto

lemma chain_next [simp]: "chain (h\<lparr>hp_next := n\<rparr>) p as = chain h p as"
  by (induction as arbitrary: p) auto

lemma chain_instance [simp]: "chain (h\<lparr>hp_instance := i\<rparr>) p as = chain h p as"
  by (induction as arbitrary: p) auto

text \<open>
  What a client of a free list relies on: a block that was put back is the next one handed
  out, and the rest of the list is as it was.
\<close>

locale free_list_spec =
  fixes get :: "'s \<Rightarrow> ('s \<times> 'a) result"
    and put :: "'s \<Rightarrow> 'a \<Rightarrow> 's result"
    and abs :: "'s \<Rightarrow> 'a list \<Rightarrow> bool"
    and known :: "'s \<Rightarrow> 'a \<Rightarrow> bool"
  assumes get_Cons: "abs s (a # as) \<Longrightarrow> \<exists>s'. get s = Inr (s', a) \<and> abs s' as \<and> known s' = known s"
    and put_Cons: "abs s as \<Longrightarrow> known s a \<Longrightarrow> a \<notin> set as \<Longrightarrow>
      \<exists>s'. put s a = Inr s' \<and> abs s' (a # as) \<and> known s' = known s"
    and abs_known: "abs s (a # as) \<Longrightarrow> known s a \<and> a \<notin> set as"
begin

fun get_many :: "nat \<Rightarrow> 's \<Rightarrow> ('s \<times> 'a list) result" where
  "get_many 0 s = Inr (s, [])"
| "get_many (Suc n) s = rbind (get s) (\<lambda>(s, a). rbind (get_many n s) (\<lambda>(s, as). Inr (s, a # as)))"

lemma get_many_takes:
  "abs s (as @ bs) \<Longrightarrow> \<exists>s'. get_many (length as) s = Inr (s', as) \<and> abs s' bs \<and> known s' = known s"
proof (induction as arbitrary: s)
  case (Cons a as)
  then have "abs s (a # (as @ bs))" by simp
  from get_Cons [OF this] obtain s1 where s1: "get s = Inr (s1, a)" "abs s1 (as @ bs)" "known s1 = known s"
    by blast
  from Cons.IH [OF s1(2)] s1 show ?case by auto
qed simp

lemma put_get:
  assumes "abs s as" and "known s a" and "a \<notin> set as"
  shows "\<exists>s1 s2. put s a = Inr s1 \<and> get s1 = Inr (s2, a) \<and> abs s2 as"
  using put_Cons [OF assms] get_Cons by blast

end

definition get_pair :: "heap \<times> memory_pool \<Rightarrow> ((heap \<times> memory_pool) \<times> addr) result" where
  "get_pair s = rbind (get_block (fst s) (snd s)) (\<lambda>(h, p, a). Inr ((h, p), a))"

interpretation pool: free_list_spec get_pair "\<lambda>s. free_block (fst s) (snd s)"
  "\<lambda>s. free_list (fst s) (snd s)" "\<lambda>s a. a \<in> dom (hp_blocks (fst s))"
proof
  fix s :: "heap \<times> memory_pool" and a as
  assume "free_list (fst s) (snd s) (a # as)"
  then show "\<exists>s'. get_pair s = Inr (s', a) \<and> free_list (fst s') (snd s') as \<and>
      (\<lambda>a. a \<in> dom (hp_blocks (fst s'))) = (\<lambda>a. a \<in> dom (hp_blocks (fst s)))"
    by (auto simp: get_pair_def get_block_def free_list_def deref_Some)
next
  fix s :: "heap \<times> memory_pool" and a as
  assume "free_list (fst s) (snd s) as" "a \<in> dom (hp_blocks (fst s))" "a \<notin> set as"
  then show "\<exists>s'. free_block (fst s) (snd s) a = Inr s' \<and> free_list (fst s') (snd s') (a # as) \<and>
      (\<lambda>a. a \<in> dom (hp_blocks (fst s'))) = (\<lambda>a. a \<in> dom (hp_blocks (fst s)))"
    by (auto simp: free_block_def set_next_def free_list_def deref_Some chain_upd fun_eq_iff)
next
  fix s :: "heap \<times> memory_pool" and a as
  assume "free_list (fst s) (snd s) (a # as)"
  then show "a \<in> dom (hp_blocks (fst s)) \<and> a \<notin> set as" by (auto simp: free_list_def)
qed

section \<open>The constructor\<close>

lemma grow_ok:
  assumes "hp_blocks h trace = Some (memory_block_new bs)" and "trace < hp_next h"
  shows "\<exists>h'. grow n bs h trace = Inr h' \<and> hp_instance h' = hp_instance h \<and>
    chain h' (Some trace) (trace # [hp_next h..<hp_next h + n]) \<and>
    (\<forall>a. a \<noteq> trace \<and> a \<notin> {hp_next h..<hp_next h + n} \<longrightarrow> hp_blocks h' a = hp_blocks h a) \<and>
    (\<forall>a \<in> {trace} \<union> {hp_next h..<hp_next h + n}. \<exists>b. hp_blocks h' a = Some b \<and>
       mb_size b = bs \<and> mb_data b = Some (replicate bs 0))"
  using assms
proof (induction n arbitrary: h trace)
  case 0
  then show ?case by (auto simp: memory_block_new_def)
next
  case (Suc n)
  let ?a = "hp_next h"
  let ?t = "(memory_block_new bs)\<lparr>mb_next := Some ?a\<rparr>"
  let ?h = "h\<lparr>hp_blocks := (hp_blocks h)(?a \<mapsto> memory_block_new bs, trace \<mapsto> ?t), hp_next := Suc ?a\<rparr>"
  have ne: "trace \<noteq> ?a" using Suc.prems(2) by simp
  have step: "grow (Suc n) bs h trace = grow n bs ?h ?a"
    using Suc.prems ne by (cases h) (simp add: alloc_block_def set_next_def deref_Some)
  have "hp_blocks ?h ?a = Some (memory_block_new bs)" "?a < hp_next ?h" using ne by simp_all
  from Suc.IH [OF this] obtain h' where h': "grow n bs ?h ?a = Inr h'" "hp_instance h' = hp_instance h"
    and ch: "chain h' (Some ?a) (?a # [Suc ?a..<Suc ?a + n])"
    and old: "\<forall>a. a \<noteq> ?a \<and> a \<notin> {Suc ?a..<Suc ?a + n} \<longrightarrow> hp_blocks h' a = hp_blocks ?h a"
    and new: "\<forall>a \<in> {?a} \<union> {Suc ?a..<Suc ?a + n}. \<exists>b. hp_blocks h' a = Some b \<and>
       mb_size b = bs \<and> mb_data b = Some (replicate bs 0)"
    by auto
  have tr: "hp_blocks h' trace = Some ?t" using old ne Suc.prems(2) by auto
  have upt: "[?a..<?a + Suc n] = ?a # [Suc ?a..<Suc ?a + n]" by (simp add: upt_conv_Cons)
  have set: "{?a..<?a + Suc n} = {?a} \<union> {Suc ?a..<Suc ?a + n}" by auto
  have "chain h' (Some trace) (trace # [?a..<?a + Suc n])"
    using ch tr unfolding upt by simp
  moreover have "\<forall>a. a \<noteq> trace \<and> a \<notin> {?a..<?a + Suc n} \<longrightarrow> hp_blocks h' a = hp_blocks h a"
    using old unfolding set by auto
  moreover have "\<exists>b. hp_blocks h' trace = Some b \<and> mb_size b = bs \<and> mb_data b = Some (replicate bs 0)"
    using tr by (simp add: memory_block_new_def)
  ultimately show ?case using step h' new unfolding set by auto
qed

section \<open>Properties\<close>

text \<open>
  The pool of the first \<open>get_instance\<close> has a free list of ten different blocks of 512 zero
  bytes; every later call returns the same pool and changes nothing.
\<close>

theorem get_instance_ok:
  assumes "hp_instance h = None"
  shows "\<exists>h' p as. get_instance h = Inr (h', p) \<and> free_list h' p as \<and> length as = 10 \<and>
    get_len p = 10 \<and> get_instance h' = Inr (h', p) \<and>
    (\<forall>a \<in> set as. \<exists>b. hp_blocks h' a = Some b \<and> mb_size b = 512 \<and> mb_data b = Some (replicate 512 0))"
proof -
  let ?a = "hp_next h"
  let ?h = "h\<lparr>hp_blocks := (hp_blocks h)(?a \<mapsto> memory_block_new 512), hp_next := Suc ?a\<rparr>"
  have "hp_blocks ?h ?a = Some (memory_block_new 512)" "?a < hp_next ?h" by simp_all
  from grow_ok [OF this, of 9] obtain h' where h': "grow 9 512 ?h ?a = Inr h'"
    and ch: "chain h' (Some ?a) (?a # [Suc ?a..<Suc ?a + 9])"
    and bl: "\<forall>a \<in> {?a} \<union> {Suc ?a..<Suc ?a + 9}. \<exists>b. hp_blocks h' a = Some b \<and>
       mb_size b = 512 \<and> mb_data b = Some (replicate 512 0)"
    by auto
  let ?p = "\<lparr>mp_len = 10, mp_head = Some ?a\<rparr>"
  have "get_instance h = Inr (h'\<lparr>hp_instance := Some ?p\<rparr>, ?p)"
    using assms h' by (simp add: get_instance_def memory_pool_new_def alloc_block_def
        POOL_SIZE_def BLOCK_SIZE_def)
  moreover have "free_list (h'\<lparr>hp_instance := Some ?p\<rparr>) ?p (?a # [Suc ?a..<Suc ?a + 9])"
    using ch by (simp add: free_list_def)
  ultimately show ?thesis using bl
    by (intro exI [of _ "h'\<lparr>hp_instance := Some ?p\<rparr>"] exI [of _ ?p]
        exI [of _ "?a # [Suc ?a..<Suc ?a + 9]"]) (auto simp: get_instance_def get_len_def)
qed

theorem get_instance_ok_witness:
  "\<exists>h p. get_instance empty_heap = Inr (h, p) \<and> get_len p = 10"
  using get_instance_ok [of empty_heap] by (auto simp: empty_heap_def)

text \<open>
  The pool is a stack of free blocks: \<open>get_block\<close> takes the first, dereferences a null
  pointer when there is none, and a block given back by \<open>free_block\<close> is the next one taken.
\<close>

theorem pool_is_a_stack:
  assumes "free_list h p as"
  shows "(as = [] \<longrightarrow> get_block h p = Inl InvalidPointer) \<and>
    (\<forall>a as'. as = a # as' \<longrightarrow> (\<exists>p'. get_block h p = Inr (h, p', a) \<and> free_list h p' as')) \<and>
    (\<forall>a. a \<in> dom (hp_blocks h) \<and> a \<notin> set as \<longrightarrow>
       (\<exists>h1 p1 p2. free_block h p a = Inr (h1, p1) \<and> free_list h1 p1 (a # as) \<and>
          get_block h1 p1 = Inr (h1, p2, a) \<and> free_list h1 p2 as))"
proof -
  have get: "\<exists>p'. get_block h p = Inr (h, p', a) \<and> free_list h p' as'"
    if "free_list h p (a # as')" for h p a as'
    using that by (auto simp: get_block_def free_list_def deref_Some)
  have "\<exists>h1 p1 p2. free_block h p a = Inr (h1, p1) \<and> free_list h1 p1 (a # as) \<and>
      get_block h1 p1 = Inr (h1, p2, a) \<and> free_list h1 p2 as"
    if "a \<in> dom (hp_blocks h)" "a \<notin> set as" for a
    using pool.put_Cons [of "(h, p)" as a] assms that get by fastforce
  then show ?thesis using assms get by (auto simp: free_list_def get_block_def)
qed

theorem pool_is_a_stack_witness:
  "get_block empty_heap \<lparr>mp_len = 0, mp_head = None\<rparr> = Inl InvalidPointer"
  using pool_is_a_stack [of empty_heap "\<lparr>mp_len = 0, mp_head = None\<rparr>" "[]"]
  by (simp add: free_list_def)

text \<open>
  A block that is freed twice is then handed out to every caller, and the destructor of a
  pool with a block reads the block it has just deleted.
\<close>

theorem pool_misuse:
  assumes "hp_blocks h a = Some b" and "free_block h p a = Inr (h1, p1)"
    and "free_block h1 p1 a = Inr (h2, p2)"
  shows "get_block h2 p2 = Inr (h2, p2, a) \<and> delete_pool h1 p1 = Inl InvalidPointer"
proof -
  have 1: "h1 = h\<lparr>hp_blocks := (hp_blocks h)(a \<mapsto> b\<lparr>mb_next := mp_head p\<rparr>)\<rparr>" "p1 = p\<lparr>mp_head := Some a\<rparr>"
    using assms(1,2) by (auto simp: free_block_def set_next_def deref_Some)
  have 2: "h2 = h1\<lparr>hp_blocks := (hp_blocks h1)(a \<mapsto> b\<lparr>mb_next := Some a\<rparr>)\<rparr>" "p2 = p1"
    using assms(3) 1 by (auto simp: free_block_def set_next_def deref_Some)
  show ?thesis using 1 2
    by (simp add: get_block_def delete_pool_def delete_block_def deref_Some deref_def)
qed

theorem pool_misuse_witness:
  "\<exists>h1 p1 h2 p2. free_block (empty_heap\<lparr>hp_blocks := [1 \<mapsto> memory_block_new 512]\<rparr>) \<lparr>mp_len = 0, mp_head = None\<rparr> 1 = Inr (h1, p1) \<and>
     free_block h1 p1 1 = Inr (h2, p2) \<and> get_block h2 p2 = Inr (h2, p2, 1)"
proof -
  let ?h = "empty_heap\<lparr>hp_blocks := [1 \<mapsto> memory_block_new 512]\<rparr>"
  let ?p = "\<lparr>mp_len = 0, mp_head = None\<rparr>"
  have b: "hp_blocks ?h 1 = Some (memory_block_new 512)" by simp
  obtain h1 p1 where 1: "free_block ?h ?p 1 = Inr (h1, p1)"
    by (simp add: free_block_def set_next_def deref_Some)
  obtain h2 p2 where 2: "free_block h1 p1 1 = Inr (h2, p2)"
    using 1 by (auto simp: free_block_def set_next_def deref_Some)
  from pool_misuse [OF b 1 2] 1 2 show ?thesis by blast
qed

end
